(* ===== verification/Prelude.thy ===== *)
theory Prelude
  imports Main "HOL-Library.Word" "HOL-Library.Signed_Division"
begin

text \<open>
  Shared vocabulary of the NachOS models: the faults a run of the simulator can end in, the
  result type of fallible routines with its sequencing and loop combinators, C's integer
  division, the rounding macros of \<^verbatim>\<open>lib/utility.h\<close>, and lists used as arrays.
\<close>

unbundle bit_operations_syntax

subsection \<open>Collections of rewrite rules\<close>

named_theorems res_simps \<open>computation of fallible routines\<close>
named_theorems layout_simps \<open>sizes and offsets of the on-disk and in-memory layouts\<close>

subsection \<open>Faults and results\<close>

text \<open>
  A routine of the simulator either returns or ends the run: an \<^verbatim>\<open>ASSERT\<close> of
  \<^verbatim>\<open>lib/debug.h\<close> fails, a null or freed pointer is followed, an array is indexed outside its
  bounds, a signed addition overflows, a division traps, the machine is halted on purpose
  (\<^verbatim>\<open>Interrupt::Halt\<close>), a loop or a call does not come back, or a variable is used that was never
  assigned. \<open>Unspecified\<close> stands for a call of the host whose outcome its standard leaves open.
\<close>

datatype fault =
    AssertFailed
  | NullPointer
  | UseAfterFree
  | OutOfBounds
  | SignedOverflow
  | DivideTrap
  | Halted
  | NoReturn
  | Uninitialised
  | Unspecified

type_synonym 'a res = "fault + 'a"

definition bindR :: "'a res \<Rightarrow> ('a \<Rightarrow> 'b res) \<Rightarrow> 'b res" where
  "bindR m f = (case m of Inl e \<Rightarrow> Inl e | Inr x \<Rightarrow> f x)"

text \<open>\<open>assertR P m\<close> is \<^verbatim>\<open>ASSERT(P); m\<close>.\<close>

definition assertR :: "bool \<Rightarrow> 'a res \<Rightarrow> 'a res" where
  "assertR P m = (if P then m else Inl AssertFailed)"

text \<open>An array access at index \<open>i\<close> of an array of \<open>n\<close> elements.\<close>

definition inboundsR :: "int \<Rightarrow> int \<Rightarrow> 'a res \<Rightarrow> 'a res" where
  "inboundsR i n m = (if 0 \<le> i \<and> i < n then m else Inl OutOfBounds)"

lemma bindR_simps [simp, res_simps]:
  "bindR (Inr x) f = f x"
  "bindR (Inl e) f = Inl e"
  by (simp_all add: bindR_def)

lemma assertR_simps [simp, res_simps]:
  "P \<Longrightarrow> assertR P m = m"
  "\<not> P \<Longrightarrow> assertR P m = Inl AssertFailed"
  by (simp_all add: assertR_def)

lemma inboundsR_simps [simp, res_simps]:
  "0 \<le> i \<Longrightarrow> i < n \<Longrightarrow> inboundsR i n m = m"
  "i < 0 \<Longrightarrow> inboundsR i n m = Inl OutOfBounds"
  "n \<le> i \<Longrightarrow> inboundsR i n m = Inl OutOfBounds"
  by (simp_all add: inboundsR_def)

lemma bindR_eq_Inr: "bindR m f = Inr y \<longleftrightarrow> (\<exists>x. m = Inr x \<and> f x = Inr y)"
  by (cases m) auto

lemma bindR_eq_Inl:
  "bindR m f = Inl e \<longleftrightarrow> m = Inl e \<or> (\<exists>x. m = Inr x \<and> f x = Inl e)"
  by (cases m) auto

lemma assertR_eq_Inr: "assertR P m = Inr y \<longleftrightarrow> P \<and> m = Inr y"
  by (simp add: assertR_def)

lemma inboundsR_eq_Inr: "inboundsR i n m = Inr y \<longleftrightarrow> 0 \<le> i \<and> i < n \<and> m = Inr y"
  by (auto simp: inboundsR_def)

lemmas resE = bindR_eq_Inr assertR_eq_Inr inboundsR_eq_Inr

lemma bindR_assoc: "bindR (bindR m f) g = bindR m (\<lambda>x. bindR (f x) g)"
  by (cases m) auto

lemma bindR_cong [fundef_cong]:
  "m = m' \<Longrightarrow> (\<And>x. m' = Inr x \<Longrightarrow> f x = f' x) \<Longrightarrow> bindR m f = bindR m' f'"
  by (cases m') auto

subsection \<open>Counted loops\<close>

text \<open>
  \<open>forR k i body s\<close> is \<^verbatim>\<open>for (; k > 0; k--, i++) body\<close>: \<open>k\<close> rounds of the body, the counter
  starting at \<open>i\<close>; a fault in a round ends the loop.
\<close>

fun forR :: "nat \<Rightarrow> nat \<Rightarrow> (nat \<Rightarrow> 's \<Rightarrow> 's res) \<Rightarrow> 's \<Rightarrow> 's res" where
  "forR 0 i body s = Inr s"
| "forR (Suc k) i body s = bindR (body i s) (forR k (Suc i) body)"

lemma forR_invariant:
  assumes "P i s"
    and "\<And>j t. i \<le> j \<Longrightarrow> j < i + k \<Longrightarrow> P j t \<Longrightarrow> \<exists>t'. body j t = Inr t' \<and> P (Suc j) t'"
  shows "\<exists>s'. forR k i body s = Inr s' \<and> P (i + k) s'"
  using assms
proof (induction k arbitrary: i s)
  case 0
  then show ?case by simp
next
  case (Suc k)
  from Suc.prems(1) Suc.prems(2) [of i s] obtain t where
    t: "body i s = Inr t" "P (Suc i) t" by auto
  have "\<exists>s'. forR k (Suc i) body t = Inr s' \<and> P (Suc i + k) s'"
    by (rule Suc.IH) (use t Suc.prems(2) in auto)
  with t show ?case by auto
qed

lemma forR_invariant_Inr:
  assumes "forR k i body s = Inr s'" "P i s"
    and "\<And>j t t'. i \<le> j \<Longrightarrow> j < i + k \<Longrightarrow> P j t \<Longrightarrow> body j t = Inr t' \<Longrightarrow> P (Suc j) t'"
  shows "P (i + k) s'"
  using assms
proof (induction k arbitrary: i s)
  case 0
  then show ?case by simp
next
  case (Suc k)
  from Suc.prems(1) obtain t where t: "body i s = Inr t" "forR k (Suc i) body t = Inr s'"
    by (auto simp: bindR_eq_Inr)
  from Suc.prems(3) [OF _ _ Suc.prems(2) t(1)] have pt: "P (Suc i) t" by simp
  have "P (Suc i + k) s'"
    by (rule Suc.IH [OF t(2) pt]) (use Suc.prems(3) in auto)
  then show ?case by simp
qed

text \<open>\<open>eachR body xs s\<close> runs the body once for every element of an array, in order.\<close>

fun eachR :: "('a \<Rightarrow> 's \<Rightarrow> 's res) \<Rightarrow> 'a list \<Rightarrow> 's \<Rightarrow> 's res" where
  "eachR body [] s = Inr s"
| "eachR body (x # xs) s = bindR (body x s) (eachR body xs)"

lemma eachR_invariant:
  assumes "P [] s"
    and "\<And>ys y t. \<exists>zs. xs = ys @ y # zs \<Longrightarrow> P ys t \<Longrightarrow> \<exists>t'. body y t = Inr t' \<and> P (ys @ [y]) t'"
  shows "\<exists>s'. eachR body xs s = Inr s' \<and> P xs s'"
  using assms
proof (induction xs arbitrary: P s)
  case Nil
  then show ?case by simp
next
  case (Cons x xs)
  from Cons.prems(1) Cons.prems(2) [of "[]" x s] obtain t where
    t: "body x s = Inr t" "P [x] t" by auto
  have "\<exists>s'. eachR body xs t = Inr s' \<and> P (x # xs) s'"
  proof (rule Cons.IH [of "\<lambda>ys. P (x # ys)"])
    show "P [x] t" by (rule t(2))
    fix ys y u
    assume "\<exists>zs. xs = ys @ y # zs" "P (x # ys) u"
    then show "\<exists>t'. body y u = Inr t' \<and> P (x # ys @ [y]) t'"
      using Cons.prems(2) [of "x # ys" y u] by auto
  qed
  with t show ?case by auto
qed

subsection \<open>C integers\<close>

text \<open>
  A C \<^verbatim>\<open>int\<close> is 32 bits wide (NachOS is built with \<^verbatim>\<open>-m32\<close>). Values that the code only
  compares and adds within range are HOL integers; where an addition can leave the range,
  \<open>addR\<close> makes the undefined behaviour a fault.
\<close>

definition int_fits :: "int \<Rightarrow> bool" where
  "int_fits i \<longleftrightarrow> - (2 ^ 31) \<le> i \<and> i < 2 ^ 31"

definition addR :: "int \<Rightarrow> int \<Rightarrow> int res" where
  "addR a b = (if int_fits (a + b) then Inr (a + b) else Inl SignedOverflow)"

lemma addR_fits [simp]: "int_fits (a + b) \<Longrightarrow> addR a b = Inr (a + b)"
  by (simp add: addR_def)

lemma addR_eq_Inr: "addR a b = Inr c \<longleftrightarrow> int_fits (a + b) \<and> c = a + b"
  by (auto simp: addR_def)

text \<open>C's \<^verbatim>\<open>/\<close> and \<^verbatim>\<open>%\<close> truncate towards zero; on nonnegative operands they are HOL's.\<close>

lemma sdiv_nonneg [simp]: "0 \<le> a \<Longrightarrow> 0 < b \<Longrightarrow> (a :: int) sdiv b = a div b"
  by (simp add: signed_divide_int_def sgn_if)

lemma smod_nonneg [simp]: "0 \<le> a \<Longrightarrow> 0 < b \<Longrightarrow> (a :: int) smod b = a mod b"
  by (auto simp: signed_modulo_int_def sgn_if)

definition divRoundDown :: "int \<Rightarrow> int \<Rightarrow> int" where
  "divRoundDown n s = n sdiv s"

definition divRoundUp :: "int \<Rightarrow> int \<Rightarrow> int" where
  "divRoundUp n s = n sdiv s + (if n smod s > 0 then 1 else 0)"

lemma divRoundUp_nonneg: "0 \<le> n \<Longrightarrow> 0 < s \<Longrightarrow> 0 \<le> divRoundUp n s"
  by (simp add: divRoundUp_def pos_imp_zdiv_nonneg_iff)

lemma divRoundUp_bounds:
  assumes "0 \<le> n" "0 < s"
  shows "n \<le> divRoundUp n s * s" "divRoundUp n s * s < n + s"
proof -
  obtain q r where q: "q = n div s" and r: "r = n mod s" by simp
  have split: "n = q * s + r" unfolding q r by simp
  have r_range: "0 \<le> r" "r < s" using assms r by simp_all
  have up: "divRoundUp n s = (if r > 0 then q + 1 else q)"
    using assms by (simp add: divRoundUp_def q r)
  show "n \<le> divRoundUp n s * s" "divRoundUp n s * s < n + s"
    unfolding up using split r_range by (auto simp: distrib_right)
qed

lemma divRoundUp_unique:
  assumes "0 \<le> n" "0 < s" "n \<le> k * s" "k * s < n + s"
  shows "divRoundUp n s = k"
proof -
  let ?d = "divRoundUp n s"
  have "?d * s < (k + 1) * s" "k * s < (?d + 1) * s"
    using divRoundUp_bounds [OF assms(1,2)] assms(3,4) by (simp_all add: distrib_right)
  then have "?d < k + 1" "k < ?d + 1"
    using assms(2) mult_less_cancel_right_pos by blast+
  then show ?thesis by simp
qed

subsection \<open>Lists as arrays\<close>

definition overwrite :: "nat \<Rightarrow> 'a list \<Rightarrow> 'a list \<Rightarrow> 'a list" where
  "overwrite pos new xs = take pos xs @ new @ drop (pos + length new) xs"

lemma length_overwrite [simp]:
  "pos + length new \<le> length xs \<Longrightarrow> length (overwrite pos new xs) = length xs"
  by (simp add: overwrite_def)

lemma overwrite_Nil [simp]: "overwrite pos [] xs = xs"
  by (simp add: overwrite_def)

lemma overwrite_all: "length new = length xs \<Longrightarrow> overwrite 0 new xs = new"
  by (simp add: overwrite_def)

lemma nth_overwrite:
  "pos + length new \<le> length xs \<Longrightarrow> i < length xs \<Longrightarrow>
   overwrite pos new xs ! i =
     (if pos \<le> i \<and> i < pos + length new then new ! (i - pos) else xs ! i)"
  by (auto simp: overwrite_def nth_append)

lemma read_overwrite:
  "pos + length new \<le> length xs \<Longrightarrow>
   take (length new) (drop pos (overwrite pos new xs)) = new"
  by (simp add: overwrite_def)

lemma read_overwrite_other:
  assumes "pos + length new \<le> length xs" "q + n \<le> length xs" "q + n \<le> pos \<or> pos + length new \<le> q"
  shows "take n (drop q (overwrite pos new xs)) = take n (drop q xs)"
proof (rule nth_equalityI)
  show "length (take n (drop q (overwrite pos new xs))) = length (take n (drop q xs))" using assms(1) by simp
  fix k assume "k < length (take n (drop q (overwrite pos new xs)))"
  then show "take n (drop q (overwrite pos new xs)) ! k = take n (drop q xs) ! k"
    using assms by (auto simp: nth_overwrite)
qed

subsection \<open>The sign of a word\<close>

lemma sint_by_sign: "sint x = (if bit x 31 then uint x - 2 ^ 32 else uint x)" for x :: "32 word"
  using uint_bounded [of x]
  by (simp add: sint_uint bit_uint_iff signed_take_bit_eq_take_bit_minus take_bit_int_eq_self)

lemma bit31_iff: "bit x 31 \<longleftrightarrow> 2 ^ 31 \<le> uint x" for x :: "32 word"
proof -
  have "bit x 31 \<longleftrightarrow> bit (uint x) 31" by (simp add: bit_uint_iff)
  also have "\<dots> \<longleftrightarrow> odd (uint x div 2 ^ 31)" by (rule bit_iff_odd)
  finally have "bit x 31 \<longleftrightarrow> odd (uint x div 2 ^ 31)" .
  moreover have "uint x < 2 ^ 32" "0 \<le> uint x" using uint_bounded [of x] by simp_all
  then have "uint x div 2 ^ 31 \<in> {0, 1}" by auto
  ultimately show ?thesis by auto
qed

lemma sint_small_unat: "unat w < 2 ^ 31 \<Longrightarrow> sint w = int (unat w)" for w :: "32 word"
proof -
  assume "unat w < 2 ^ 31"
  then have "int (unat w) < int (2 ^ 31)" by (simp only: of_nat_less_iff)
  then have "uint w < 2 ^ 31" unfolding uint_nat by (simp only: of_nat_power of_nat_numeral)
  then have "\<not> bit w 31" unfolding bit31_iff by linarith
  then show ?thesis unfolding sint_by_sign uint_nat by simp
qed

end
