(* ===== verification/Bitmaps.thy ===== *)
theory Bitmaps
  imports Prelude
begin

text \<open>
  \<^verbatim>\<open>lib/bitmap.cc\<close>: an array of bits kept in 32-bit words, used for free disk sectors
  and free page frames. The operations keep the code's word arithmetic; the abstraction
  \<open>bm_set\<close> reads a bitmap as the set of bits that are set, and every operation is shown
  to compute the corresponding set operation. The locale \<open>allocator\<close> is the interface
  that file headers and address spaces rely on; the bitmap interprets it.
\<close>

subsection \<open>State and operations\<close>

record Bitmap =
  numBits :: int
  numWords :: int
  bmap :: "32 word list"

definition BitsInWord :: int where
  "BitsInWord = 32"

definition Bitmap_Test :: "Bitmap \<Rightarrow> int \<Rightarrow> bool res" where
  "Bitmap_Test m which =
     assertR (0 \<le> which \<and> which < numBits m)
       (inboundsR (which sdiv BitsInWord) (int (length (bmap m)))
         (Inr (bmap m ! nat (which sdiv BitsInWord)
                 AND push_bit (nat (which smod BitsInWord)) 1 \<noteq> 0)))"

definition Bitmap_Mark :: "Bitmap \<Rightarrow> int \<Rightarrow> Bitmap res" where
  "Bitmap_Mark m which =
     assertR (0 \<le> which \<and> which < numBits m)
       (inboundsR (which sdiv BitsInWord) (int (length (bmap m)))
         (let k = nat (which sdiv BitsInWord);
              m' = m\<lparr>bmap := (bmap m)[k := bmap m ! k
                      OR push_bit (nat (which smod BitsInWord)) 1]\<rparr>
          in bindR (Bitmap_Test m' which) (\<lambda>b. assertR b (Inr m'))))"

definition Bitmap_Clear :: "Bitmap \<Rightarrow> int \<Rightarrow> Bitmap res" where
  "Bitmap_Clear m which =
     assertR (0 \<le> which \<and> which < numBits m)
       (inboundsR (which sdiv BitsInWord) (int (length (bmap m)))
         (let k = nat (which sdiv BitsInWord);
              m' = m\<lparr>bmap := (bmap m)[k := bmap m ! k
                      AND NOT (push_bit (nat (which smod BitsInWord)) 1)]\<rparr>
          in bindR (Bitmap_Test m' which) (\<lambda>b. assertR (\<not> b) (Inr m'))))"

definition Bitmap_new :: "int \<Rightarrow> Bitmap res" where
  "Bitmap_new numItems =
     assertR (0 < numItems)
       (let nw = divRoundUp numItems BitsInWord;
            m = \<lparr>numBits = numItems, numWords = nw, bmap = replicate (nat nw) 0\<rparr>
        in forR (nat numItems) 0 (\<lambda>i m. Bitmap_Clear m (int i)) m)"

fun find_clear_from :: "nat \<Rightarrow> nat \<Rightarrow> Bitmap \<Rightarrow> (int \<times> Bitmap) res" where
  "find_clear_from 0 i m = Inr (- 1, m)"
| "find_clear_from (Suc k) i m =
     bindR (Bitmap_Test m (int i)) (\<lambda>b.
       if \<not> b then bindR (Bitmap_Mark m (int i)) (\<lambda>m'. Inr (int i, m'))
       else find_clear_from k (Suc i) m)"

definition Bitmap_FindAndSet :: "Bitmap \<Rightarrow> (int \<times> Bitmap) res" where
  "Bitmap_FindAndSet m = find_clear_from (nat (numBits m)) 0 m"

definition Bitmap_NumClear :: "Bitmap \<Rightarrow> int res" where
  "Bitmap_NumClear m =
     forR (nat (numBits m)) 0
       (\<lambda>i count. bindR (Bitmap_Test m (int i)) (\<lambda>b. Inr (if \<not> b then count + 1 else count))) 0"

definition Bitmap_Print :: "Bitmap \<Rightarrow> int list res" where
  "Bitmap_Print m =
     forR (nat (numBits m)) 0
       (\<lambda>i out. bindR (Bitmap_Test m (int i)) (\<lambda>b. Inr (if b then out @ [int i] else out))) []"

text \<open>\<^verbatim>\<open>Bitmap::SelfTest\<close>: the bitmap it leaves, or the assertion that fails.\<close>

definition Bitmap_SelfTest :: "Bitmap \<Rightarrow> Bitmap res" where
  "Bitmap_SelfTest m =
     assertR (numBits m \<ge> BitsInWord)
      (bindR (Bitmap_NumClear m) (\<lambda>c. assertR (c = numBits m)
        (bindR (Bitmap_FindAndSet m) (\<lambda>(s, m). assertR (s = 0)
          (bindR (Bitmap_Mark m 31) (\<lambda>m.
            bindR (Bitmap_Test m 0) (\<lambda>b0. bindR (Bitmap_Test m 31) (\<lambda>b31.
              assertR (b0 \<and> b31)
               (bindR (Bitmap_FindAndSet m) (\<lambda>(s, m). assertR (s = 1)
                 (bindR (Bitmap_Clear m 0) (\<lambda>m.
                   bindR (Bitmap_Clear m 1) (\<lambda>m.
                     bindR (Bitmap_Clear m 31) (\<lambda>m.
                       bindR (forR (nat (numBits m)) 0 (\<lambda>i m. Bitmap_Mark m (int i)) m) (\<lambda>m.
                         bindR (Bitmap_FindAndSet m) (\<lambda>(s, m). assertR (s = - 1)
                           (forR (nat (numBits m)) 0 (\<lambda>i m. Bitmap_Clear m (int i)) m)
                       ))))))))))))))))"

subsection \<open>Abstraction\<close>

definition bm_inv :: "Bitmap \<Rightarrow> bool" where
  "bm_inv m \<longleftrightarrow> 0 < numBits m \<and> numWords m = divRoundUp (numBits m) BitsInWord
     \<and> length (bmap m) = nat (numWords m)"

definition bm_bit :: "Bitmap \<Rightarrow> nat \<Rightarrow> bool" where
  "bm_bit m i = bit (bmap m ! (i div 32)) (i mod 32)"

definition bm_size :: "Bitmap \<Rightarrow> nat" where
  "bm_size m = nat (numBits m)"

definition bm_set :: "Bitmap \<Rightarrow> nat set" where
  "bm_set m = {i. i < bm_size m \<and> bm_bit m i}"

text \<open>The two updates, without the checks around them.\<close>

definition bm_mark :: "Bitmap \<Rightarrow> nat \<Rightarrow> Bitmap" where
  "bm_mark m i = m\<lparr>bmap := (bmap m)[i div 32 := bmap m ! (i div 32) OR push_bit (i mod 32) 1]\<rparr>"

definition bm_clear :: "Bitmap \<Rightarrow> nat \<Rightarrow> Bitmap" where
  "bm_clear m i =
     m\<lparr>bmap := (bmap m)[i div 32 := bmap m ! (i div 32) AND NOT (push_bit (i mod 32) 1)]\<rparr>"

lemma bm_set_bounded [simp]: "bm_set m \<subseteq> {..<bm_size m}"
  by (auto simp: bm_set_def)

lemma finite_bm_set [simp, intro]: "finite (bm_set m)"
  by (rule finite_subset [OF bm_set_bounded]) simp

lemma bm_word_in_range:
  assumes "bm_inv m" "i < bm_size m"
  shows "i div 32 < length (bmap m)"
proof -
  have "numBits m \<le> numWords m * 32" "0 \<le> numWords m"
    using assms(1) divRoundUp_bounds(1) [of "numBits m" 32] divRoundUp_nonneg [of "numBits m" 32]
    by (auto simp: bm_inv_def BitsInWord_def)
  moreover have "int i < numBits m" using assms(2) by (simp add: bm_size_def)
  ultimately have "int i < numWords m * 32" by simp
  then have "i < nat (numWords m) * 32" by linarith
  then show ?thesis using assms(1) by (simp add: bm_inv_def less_mult_imp_div_less)
qed

lemma bm_mark_frame [simp]:
  "numBits (bm_mark m i) = numBits m" "numWords (bm_mark m i) = numWords m"
  "bm_size (bm_mark m i) = bm_size m" "bm_inv (bm_mark m i) = bm_inv m"
  by (simp_all add: bm_mark_def bm_size_def bm_inv_def)

lemma bm_clear_frame [simp]:
  "numBits (bm_clear m i) = numBits m" "numWords (bm_clear m i) = numWords m"
  "bm_size (bm_clear m i) = bm_size m" "bm_inv (bm_clear m i) = bm_inv m"
  by (simp_all add: bm_clear_def bm_size_def bm_inv_def)

lemma div_mod_32_eq: "i = j \<longleftrightarrow> i div 32 = j div 32 \<and> i mod 32 = j mod (32::nat)"
  by (metis div_mult_mod_eq)

lemma bit_one_shifted: "k < 32 \<Longrightarrow> bit (2 ^ n :: 32 word) k \<longleftrightarrow> k = n"
  by (auto simp: bit_exp_iff)

lemma bm_bit_mark:
  assumes "bm_inv m" "i < bm_size m"
  shows "bm_bit (bm_mark m i) j \<longleftrightarrow> j = i \<or> bm_bit m j"
  using bm_word_in_range [OF assms]
  by (cases "j div 32 = i div 32")
     (auto simp: bm_bit_def bm_mark_def nth_list_update bit_or_iff bit_one_shifted
        div_mod_32_eq [of j i])

lemma bm_bit_clear:
  assumes "bm_inv m" "i < bm_size m"
  shows "bm_bit (bm_clear m i) j \<longleftrightarrow> j \<noteq> i \<and> bm_bit m j"
  using bm_word_in_range [OF assms]
  by (cases "j div 32 = i div 32")
     (auto simp: bm_bit_def bm_clear_def nth_list_update bit_and_iff bit_not_iff
        bit_one_shifted div_mod_32_eq [of j i])

lemma bm_set_mark [simp]:
  "bm_inv m \<Longrightarrow> i < bm_size m \<Longrightarrow> bm_set (bm_mark m i) = insert i (bm_set m)"
  by (auto simp: bm_set_def bm_bit_mark)

lemma bm_set_clear [simp]:
  "bm_inv m \<Longrightarrow> i < bm_size m \<Longrightarrow> bm_set (bm_clear m i) = bm_set m - {i}"
  by (auto simp: bm_set_def bm_bit_clear)

subsection \<open>Each operation on its set\<close>

lemma Bitmap_Test_eq:
  assumes "bm_inv m" "i < bm_size m"
  shows "Bitmap_Test m (int i) = Inr (i \<in> bm_set m)"
proof -
  have "int i < numBits m" using assms(2) by (simp add: bm_size_def)
  moreover have "int i div 32 < int (length (bmap m))"
    using bm_word_in_range [OF assms] by (metis of_nat_less_iff of_nat_numeral zdiv_int)
  moreover have "nat (int i div 32) = i div 32" "nat (int i mod 32) = i mod 32"
    by (simp_all add: nat_div_distrib nat_mod_distrib)
  ultimately show ?thesis using assms(2)
    by (simp add: Bitmap_Test_def BitsInWord_def bm_set_def bm_bit_def push_bit_eq_mult
        and_exp_eq_0_iff_not_bit)
qed

lemma Bitmap_Test_out:
  "which < 0 \<or> numBits m \<le> which \<Longrightarrow> Bitmap_Test m which = Inl AssertFailed"
  by (auto simp: Bitmap_Test_def)

lemma Bitmap_Mark_eq:
  assumes "bm_inv m" "i < bm_size m"
  shows "Bitmap_Mark m (int i) = Inr (bm_mark m i)"
proof -
  have "int i < numBits m" using assms(2) by (simp add: bm_size_def)
  moreover have "int i div 32 < int (length (bmap m))"
    using bm_word_in_range [OF assms] by (metis of_nat_less_iff of_nat_numeral zdiv_int)
  moreover have "nat (int i div 32) = i div 32" "nat (int i mod 32) = i mod 32"
    by (simp_all add: nat_div_distrib nat_mod_distrib)
  moreover have "Bitmap_Test (bm_mark m i) (int i) = Inr True"
    using assms by (simp add: Bitmap_Test_eq)
  note this [unfolded bm_mark_def]
  ultimately show ?thesis
    by (simp add: Bitmap_Mark_def BitsInWord_def Let_def bm_mark_def)
qed

lemma Bitmap_Clear_eq:
  assumes "bm_inv m" "i < bm_size m"
  shows "Bitmap_Clear m (int i) = Inr (bm_clear m i)"
proof -
  have "int i < numBits m" using assms(2) by (simp add: bm_size_def)
  moreover have "int i div 32 < int (length (bmap m))"
    using bm_word_in_range [OF assms] by (metis of_nat_less_iff of_nat_numeral zdiv_int)
  moreover have "nat (int i div 32) = i div 32" "nat (int i mod 32) = i mod 32"
    by (simp_all add: nat_div_distrib nat_mod_distrib)
  moreover have "Bitmap_Test (bm_clear m i) (int i) = Inr False"
    using assms by (simp add: Bitmap_Test_eq)
  note this [unfolded bm_clear_def]
  ultimately show ?thesis
    by (simp add: Bitmap_Clear_def BitsInWord_def Let_def bm_clear_def)
qed

subsection \<open>The loops\<close>

definition bm_free :: "Bitmap \<Rightarrow> nat set" where
  "bm_free m = {..<bm_size m} - bm_set m"

lemma finite_bm_free [simp, intro]: "finite (bm_free m)"
  by (simp add: bm_free_def)

lemma bm_free_bounded: "i \<in> bm_free m \<Longrightarrow> i < bm_size m"
  by (simp add: bm_free_def)

lemma bm_free_mark [simp]:
  "bm_inv m \<Longrightarrow> i < bm_size m \<Longrightarrow> bm_free (bm_mark m i) = bm_free m - {i}"
  by (auto simp: bm_free_def)

lemma bm_free_clear [simp]:
  "bm_inv m \<Longrightarrow> i < bm_size m \<Longrightarrow> bm_free (bm_clear m i) = insert i (bm_free m)"
  by (auto simp: bm_free_def)

lemma find_clear_from_eq:
  assumes "bm_inv m" "i + k = bm_size m"
  shows "find_clear_from k i m =
     (if bm_free m \<inter> {i..} = {} then Inr (- 1, m)
      else let j = Min (bm_free m \<inter> {i..}) in Inr (int j, bm_mark m j))"
  using assms
proof (induction k arbitrary: i)
  case 0
  then have "bm_free m \<inter> {i..} = {}" by (auto simp: bm_free_def)
  then show ?case by simp
next
  case (Suc k)
  then have i: "i < bm_size m" by simp
  show ?case
  proof (cases "i \<in> bm_set m")
    case True
    then have "bm_free m \<inter> {i..} = bm_free m \<inter> {Suc i..}"
      by (auto simp: bm_free_def Suc_le_eq order_less_le)
    with Suc True i show ?thesis by (simp add: Bitmap_Test_eq)
  next
    case False
    with i have mem: "i \<in> bm_free m \<inter> {i..}" by (simp add: bm_free_def)
    moreover have "Min (bm_free m \<inter> {i..}) = i"
      by (rule Min_eqI) (use mem in auto)
    ultimately show ?thesis
      using Suc.prems(1) False i by (auto simp: Bitmap_Test_eq Bitmap_Mark_eq)
  qed
qed

lemma FindAndSet_eq:
  assumes "bm_inv m"
  shows "Bitmap_FindAndSet m =
     (if bm_free m = {} then Inr (- 1, m)
      else Inr (int (Min (bm_free m)), bm_mark m (Min (bm_free m))))"
proof -
  have "bm_free m \<inter> {0..} = bm_free m" by auto
  with find_clear_from_eq [OF assms, of 0 "bm_size m"] show ?thesis
    by (simp add: Bitmap_FindAndSet_def bm_size_def Let_def)
qed

lemma NumClear_eq:
  assumes "bm_inv m"
  shows "Bitmap_NumClear m = Inr (int (card (bm_free m)))"
proof -
  let ?body = "\<lambda>i count. bindR (Bitmap_Test m (int i))
                  (\<lambda>b. Inr (if \<not> b then count + 1 else count))"
  let ?P = "\<lambda>i c. c = int (card (bm_free m \<inter> {..<i}))"
  have "\<exists>c. forR (bm_size m) 0 ?body 0 = Inr c \<and> ?P (0 + bm_size m) c"
  proof (rule forR_invariant [where P = ?P])
    show "?P 0 0" by simp
  next
    fix j c assume j: "j < 0 + bm_size m" and c: "?P j c"
    have "bm_free m \<inter> {..<Suc j} =
        (if j \<in> bm_set m then bm_free m \<inter> {..<j} else insert j (bm_free m \<inter> {..<j}))"
      using j by (auto simp: bm_free_def less_Suc_eq)
    then show "\<exists>c'. ?body j c = Inr c' \<and> ?P (Suc j) c'"
      using j c assms by (simp add: Bitmap_Test_eq)
  qed
  moreover have "bm_free m \<inter> {..<bm_size m} = bm_free m" by (auto simp: bm_free_def)
  ultimately show ?thesis by (simp add: Bitmap_NumClear_def bm_size_def)
qed

lemma clear_all_bits:
  assumes "bm_inv m" "k \<le> bm_size m"
  shows "\<exists>m'. forR k 0 (\<lambda>i m. Bitmap_Clear m (int i)) m = Inr m' \<and>
           (bm_inv m' \<and> bm_size m' = bm_size m \<and> bm_set m' = bm_set m - {..<0 + k})"
proof (rule forR_invariant [where P = "\<lambda>j t. bm_inv t \<and> bm_size t = bm_size m
                                   \<and> bm_set t = bm_set m - {..<j}"])
  show "bm_inv m \<and> bm_size m = bm_size m \<and> bm_set m = bm_set m - {..<0}"
    using assms by simp
next
  fix j t
  assume jk: "j < 0 + k"
    and t: "bm_inv t \<and> bm_size t = bm_size m \<and> bm_set t = bm_set m - {..<j}"
  have j: "j < bm_size t" using jk t assms(2) by linarith
  have "bm_set m - {..<j} - {j} = bm_set m - {..<Suc j}" by auto
  with t j show "\<exists>t'. Bitmap_Clear t (int j) = Inr t' \<and>
      (bm_inv t' \<and> bm_size t' = bm_size m \<and> bm_set t' = bm_set m - {..<Suc j})"
    by (intro exI [of _ "bm_clear t j"]) (simp add: Bitmap_Clear_eq)
qed

lemma mark_all_bits:
  assumes "bm_inv m" "k \<le> bm_size m"
  shows "\<exists>m'. forR k 0 (\<lambda>i m. Bitmap_Mark m (int i)) m = Inr m' \<and>
           (bm_inv m' \<and> bm_size m' = bm_size m \<and> bm_set m' = bm_set m \<union> {..<0 + k})"
proof (rule forR_invariant [where P = "\<lambda>j t. bm_inv t \<and> bm_size t = bm_size m
                                   \<and> bm_set t = bm_set m \<union> {..<j}"])
  show "bm_inv m \<and> bm_size m = bm_size m \<and> bm_set m = bm_set m \<union> {..<0}"
    using assms by simp
next
  fix j t
  assume jk: "j < 0 + k"
    and t: "bm_inv t \<and> bm_size t = bm_size m \<and> bm_set t = bm_set m \<union> {..<j}"
  have j: "j < bm_size t" using jk t assms(2) by linarith
  have "insert j (bm_set m \<union> {..<j}) = bm_set m \<union> {..<Suc j}" by auto
  with t j show "\<exists>t'. Bitmap_Mark t (int j) = Inr t' \<and>
      (bm_inv t' \<and> bm_size t' = bm_size m \<and> bm_set t' = bm_set m \<union> {..<Suc j})"
    by (intro exI [of _ "bm_mark t j"]) (simp add: Bitmap_Mark_eq)
qed

lemma Bitmap_new_eq:
  assumes "0 < n"
  shows "\<exists>m. Bitmap_new n = Inr m \<and> bm_inv m \<and> bm_size m = nat n \<and> bm_set m = {}"
proof -
  let ?m = "\<lparr>numBits = n, numWords = divRoundUp n BitsInWord,
              bmap = replicate (nat (divRoundUp n BitsInWord)) 0\<rparr>"
  have "bm_inv ?m" "bm_size ?m = nat n"
    using assms by (simp_all add: bm_inv_def bm_size_def)
  with clear_all_bits [of ?m "nat n"] assms show ?thesis
    by (fastforce simp: Bitmap_new_def Let_def bm_set_def)
qed

lemma Bitmap_new_nonpos: "n \<le> 0 \<Longrightarrow> Bitmap_new n = Inl AssertFailed"
  by (simp add: Bitmap_new_def)

text \<open>The module's own test passes on every fresh bitmap it is meant for.\<close>

lemma Bitmap_SelfTest_new:
  assumes "32 \<le> n" "Bitmap_new n = Inr m"
  shows "\<exists>m'. Bitmap_SelfTest m = Inr m' \<and> bm_inv m' \<and> bm_set m' = {}"
proof -
  from Bitmap_new_eq [of n] assms have m: "bm_inv m" "bm_size m = nat n" "bm_set m = {}"
    by auto
  then have bits: "numBits m = n" "numBits m \<ge> BitsInWord"
    using assms(1) by (auto simp: bm_size_def bm_inv_def BitsInWord_def)
  have free: "bm_free m = {..<nat n}" using m by (simp add: bm_free_def)
  have m0: "Min {..<nat n} = 0" by (rule Min_eqI) (use assms(1) in auto)
  have "1 \<in> {..<nat n} \<and> 1 \<notin> {0, 31::nat} \<and> 1 \<notin> {31, 0::nat}" using assms(1) by simp
  then have ne: "\<not> {..<nat n} \<subseteq> {0, 31}" "\<not> {..<nat n} \<subseteq> {31, 0}" by blast+
  define m1 where "m1 = bm_mark m 0"
  define m2 where "m2 = bm_mark m1 31"
  have size: "bm_size m1 = nat n" "bm_size m2 = nat n" "bm_inv m1" "bm_inv m2"
    using m by (simp_all add: m1_def m2_def)
  have set1: "bm_set m1 = {0}" using m assms(1) by (simp add: m1_def)
  have set2: "bm_set m2 = {0, 31}" using size set1 assms(1) by (auto simp: m2_def)
  have free2: "bm_free m2 = {..<nat n} - {0, 31}" using size set2 by (simp add: bm_free_def)
  have one: "1 \<in> bm_free m2" using assms(1) by (simp add: free2)
  have min2: "Min (bm_free m2) = 1"
    by (rule Min_eqI) (use one free2 in auto)
  define m3 where "m3 = bm_mark m2 1"
  define m4 where "m4 = bm_clear (bm_clear (bm_clear m3 0) 1) 31"
  have m4: "bm_inv m4" "bm_size m4 = nat n" "bm_set m4 = {}"
    using size set2 assms(1) by (auto simp: m4_def m3_def)
  from mark_all_bits [of m4 "nat n"] m4 obtain m5 where
    m5: "forR (nat n) 0 (\<lambda>i m. Bitmap_Mark m (int i)) m4 = Inr m5"
      "bm_inv m5" "bm_size m5 = nat n" "bm_set m5 = {..<nat n}" by auto
  from clear_all_bits [of m5 "nat n"] m5 obtain m6 where
    m6: "forR (nat n) 0 (\<lambda>i m. Bitmap_Clear m (int i)) m5 = Inr m6"
      "bm_inv m6" "bm_set m6 = {}" by auto
  have n3: "numBits m4 = n" "numBits m5 = n"
    using m4 m5 by (auto simp: bm_inv_def bm_size_def)
  have steps: "Bitmap_NumClear m = Inr n" "Bitmap_FindAndSet m = Inr (0, m1)"
    "Bitmap_Mark m1 31 = Inr m2" "Bitmap_Test m2 0 = Inr True" "Bitmap_Test m2 31 = Inr True"
    "Bitmap_FindAndSet m2 = Inr (1, m3)" "Bitmap_FindAndSet m5 = Inr (- 1, m5)"
    using m size m5 free m0 one min2 assms(1) ne
      Bitmap_Mark_eq [of m1 31] Bitmap_Test_eq [of m2 0] Bitmap_Test_eq [of m2 31]
    by (auto simp: NumClear_eq FindAndSet_eq m1_def m3_def bm_free_def m2_def set2)
  have clears: "Bitmap_Clear m3 0 = Inr (bm_clear m3 0)"
    "Bitmap_Clear (bm_clear m3 0) 1 = Inr (bm_clear (bm_clear m3 0) 1)"
    "Bitmap_Clear (bm_clear (bm_clear m3 0) (Suc 0)) 31 = Inr m4"
    using size assms(1) Bitmap_Clear_eq [of m3 0] Bitmap_Clear_eq [of "bm_clear m3 0" 1]
      Bitmap_Clear_eq [of "bm_clear (bm_clear m3 0) 1" 31]
    by (auto simp: m3_def m4_def)
  show ?thesis
    using bits n3 m5 m6 by (simp add: Bitmap_SelfTest_def steps clears bits)
qed

subsection \<open>The allocator interface\<close>

text \<open>
  The two loops every client of a bitmap runs: take \<open>n\<close> bits one after the other, asserting
  that each was found, and give a list of bits back, asserting that each was set.
\<close>

fun grab :: "('m \<Rightarrow> (int \<times> 'm) res) \<Rightarrow> nat \<Rightarrow> 'm \<Rightarrow> (int list \<times> 'm) res" where
  "grab fnd 0 m = Inr ([], m)"
| "grab fnd (Suc n) m =
     bindR (fnd m) (\<lambda>(s, m1). assertR (s \<ge> 0)
       (bindR (grab fnd n m1) (\<lambda>(ss, m2). Inr (s # ss, m2))))"

fun release :: "('m \<Rightarrow> int \<Rightarrow> bool res) \<Rightarrow> ('m \<Rightarrow> int \<Rightarrow> 'm res) \<Rightarrow> int list \<Rightarrow> 'm \<Rightarrow> 'm res" where
  "release tst clr [] m = Inr m"
| "release tst clr (s # ss) m =
     bindR (tst m s) (\<lambda>b. assertR b (bindR (clr m s) (release tst clr ss)))"

locale allocator =
  fixes fnd :: "'m \<Rightarrow> (int \<times> 'm) res"
    and tst :: "'m \<Rightarrow> int \<Rightarrow> bool res"
    and clr :: "'m \<Rightarrow> int \<Rightarrow> 'm res"
    and free :: "'m \<Rightarrow> nat set"
    and cap :: "'m \<Rightarrow> nat"
    and ok :: "'m \<Rightarrow> bool"
  assumes free_bounded: "ok m \<Longrightarrow> free m \<subseteq> {..<cap m}"
    and fnd_none: "ok m \<Longrightarrow> free m = {} \<Longrightarrow> fnd m = Inr (- 1, m)"
    and fnd_some: "ok m \<Longrightarrow> free m \<noteq> {} \<Longrightarrow>
      \<exists>m'. fnd m = Inr (int (Min (free m)), m') \<and> ok m' \<and> cap m' = cap m
           \<and> free m' = free m - {Min (free m)}"
    and tst_law: "ok m \<Longrightarrow> i < cap m \<Longrightarrow> tst m (int i) = Inr (i \<notin> free m)"
    and clr_law: "ok m \<Longrightarrow> i < cap m \<Longrightarrow>
      \<exists>m'. clr m (int i) = Inr m' \<and> ok m' \<and> cap m' = cap m \<and> free m' = insert i (free m)"
begin

lemma finite_free: "ok m \<Longrightarrow> finite (free m)"
  using free_bounded by (rule finite_subset) simp_all

lemma grab_enough:
  assumes "ok m" "n \<le> card (free m)"
  shows "\<exists>ks m'. grab fnd n m = Inr (map int ks, m') \<and> length ks = n \<and> distinct ks
           \<and> set ks \<subseteq> free m \<and> ok m' \<and> cap m' = cap m \<and> free m' = free m - set ks"
  using assms
proof (induction n arbitrary: m)
  case 0
  then show ?case by (intro exI [of _ "[]"]) simp
next
  case (Suc n)
  let ?k = "Min (free m)"
  from Suc.prems have ne: "free m \<noteq> {}" by auto
  from fnd_some [OF Suc.prems(1) ne] obtain m1 where
    m1: "fnd m = Inr (int ?k, m1)" "ok m1" "cap m1 = cap m" "free m1 = free m - {?k}" by blast
  have k: "?k \<in> free m" using ne finite_free [OF Suc.prems(1)] by simp
  have "n \<le> card (free m1)" using Suc.prems k m1(4) by simp
  from Suc.IH [OF m1(2) this] obtain ks m' where
    ih: "grab fnd n m1 = Inr (map int ks, m')" "length ks = n" "distinct ks"
      "set ks \<subseteq> free m1" "ok m'" "cap m' = cap m1" "free m' = free m1 - set ks" by blast
  show ?case
    by (intro exI [of _ "?k # ks"] exI [of _ m']) (use m1 k ih in auto)
qed

lemma grab_short:
  assumes "ok m" "card (free m) < n"
  shows "grab fnd n m = Inl AssertFailed"
  using assms
proof (induction n arbitrary: m)
  case 0
  then show ?case by simp
next
  case (Suc n)
  show ?case
  proof (cases "free m = {}")
    case True
    with fnd_none [OF Suc.prems(1)] show ?thesis by simp
  next
    case False
    from fnd_some [OF Suc.prems(1) this] obtain m1 where
      m1: "fnd m = Inr (int (Min (free m)), m1)" "ok m1" "free m1 = free m - {Min (free m)}"
      by blast
    have "Min (free m) \<in> free m" using False finite_free [OF Suc.prems(1)] by simp
    then have "card (free m1) = card (free m) - 1" "0 < card (free m)"
      using m1(3) finite_free [OF Suc.prems(1)] by (auto simp: card_gt_0_iff)
    with Suc.prems(2) have "card (free m1) < n" by simp
    from Suc.IH [OF m1(2) this] m1(1) show ?thesis by simp
  qed
qed

lemma release_all:
  assumes "ok m" "distinct ks" "set ks \<subseteq> {..<cap m}" "set ks \<inter> free m = {}"
  shows "\<exists>m'. release tst clr (map int ks) m = Inr m' \<and> ok m' \<and> cap m' = cap m
           \<and> free m' = free m \<union> set ks"
  using assms
proof (induction ks arbitrary: m)
  case Nil
  then show ?case by simp
next
  case (Cons k ks)
  then have k: "k < cap m" "k \<notin> free m" by auto
  from clr_law [OF Cons.prems(1) k(1)] obtain m1 where
    m1: "clr m (int k) = Inr m1" "ok m1" "cap m1 = cap m" "free m1 = insert k (free m)" by blast
  have "\<exists>m'. release tst clr (map int ks) m1 = Inr m' \<and> ok m' \<and> cap m' = cap m1
         \<and> free m' = free m1 \<union> set ks"
    by (rule Cons.IH) (use Cons.prems m1 in auto)
  with m1 k tst_law [OF Cons.prems(1) k(1)] show ?case by auto
qed

lemma release_unset:
  assumes "ok m" "k < cap m" "k \<in> free m"
  shows "release tst clr (int k # ss) m = Inl AssertFailed"
  using tst_law [OF assms(1,2)] assms(3) by simp

text \<open>Giving back exactly what was taken restores the set of free bits.\<close>

lemma release_grab:
  assumes "ok m" "grab fnd n m = Inr (ss, m')"
  shows "\<exists>m''. release tst clr ss m' = Inr m'' \<and> ok m'' \<and> cap m'' = cap m \<and> free m'' = free m"
proof -
  have "n \<le> card (free m)"
    using grab_short [OF assms(1), of n] assms(2) by (cases "card (free m) < n") auto
  from grab_enough [OF assms(1) this] assms(2) obtain ks where
    ks: "ss = map int ks" "distinct ks" "set ks \<subseteq> free m" "ok m'" "cap m' = cap m"
      "free m' = free m - set ks" by auto
  have "set ks \<subseteq> {..<cap m'}" using ks free_bounded [OF assms(1)] by auto
  from release_all [OF ks(4,2) this] ks show ?thesis by auto
qed

end

interpretation bm: allocator Bitmap_FindAndSet Bitmap_Test Bitmap_Clear bm_free bm_size bm_inv
proof unfold_locales
  fix m :: Bitmap
  assume m: "bm_inv m"
  show "bm_free m \<subseteq> {..<bm_size m}" by (auto simp: bm_free_def)
  show "Bitmap_FindAndSet m = Inr (- 1, m)" if "bm_free m = {}"
    using m that by (simp add: FindAndSet_eq)
  show "\<exists>m'. Bitmap_FindAndSet m = Inr (int (Min (bm_free m)), m') \<and> bm_inv m'
      \<and> bm_size m' = bm_size m \<and> bm_free m' = bm_free m - {Min (bm_free m)}"
    if "bm_free m \<noteq> {}"
    using m that bm_free_bounded [OF Min_in [OF finite_bm_free that]] by (simp add: FindAndSet_eq)
  show "Bitmap_Test m (int i) = Inr (i \<notin> bm_free m)" if "i < bm_size m" for i
    using m that by (simp add: Bitmap_Test_eq bm_free_def)
  show "\<exists>m'. Bitmap_Clear m (int i) = Inr m' \<and> bm_inv m' \<and> bm_size m' = bm_size m
      \<and> bm_free m' = insert i (bm_free m)" if "i < bm_size m" for i
    using m that by (simp add: Bitmap_Clear_eq)
qed

subsection \<open>Properties\<close>

text \<open>
  \<^verbatim>\<open>FindAndSet\<close> returns the least clear bit and sets that bit and no other; when no bit is
  clear it returns -1 and leaves the bitmap alone.
\<close>

theorem FindAndSet_least:
  assumes "bm_inv m"
  shows "(bm_free m = {} \<and> Bitmap_FindAndSet m = Inr (- 1, m))
    \<or> (\<exists>i m'. i \<in> bm_free m \<and> (\<forall>j\<in>bm_free m. i \<le> j) \<and> Bitmap_FindAndSet m = Inr (int i, m')
        \<and> bm_inv m' \<and> bm_set m' = insert i (bm_set m) \<and> bm_size m' = bm_size m)"
proof (cases "bm_free m = {}")
  case False
  let ?i = "Min (bm_free m)"
  have "?i \<in> bm_free m" "\<forall>j\<in>bm_free m. ?i \<le> j" using False by auto
  moreover have "?i < bm_size m" using calculation(1) by (rule bm_free_bounded)
  ultimately show ?thesis
    using FindAndSet_eq [OF assms] assms False
    by (intro disjI2 exI [of _ ?i] exI [of _ "bm_mark m ?i"]) simp
qed (simp add: FindAndSet_eq [OF assms])

definition sample_map :: Bitmap where
  "sample_map = \<lparr>numBits = 34, numWords = 2, bmap = [7, 0]\<rparr>"

lemma sample_map_inv: "bm_inv sample_map"
  by (simp add: bm_inv_def sample_map_def divRoundUp_def BitsInWord_def)

lemma FindAndSet_least_witness:
  "(bm_free sample_map = {} \<and> Bitmap_FindAndSet sample_map = Inr (- 1, sample_map))
    \<or> (\<exists>i m'. i \<in> bm_free sample_map \<and> (\<forall>j\<in>bm_free sample_map. i \<le> j)
        \<and> Bitmap_FindAndSet sample_map = Inr (int i, m')
        \<and> bm_inv m' \<and> bm_set m' = insert i (bm_set sample_map) \<and> bm_size m' = bm_size sample_map)"
  by (rule FindAndSet_least [OF sample_map_inv])

text \<open>
  The self test of the module passes on a new bitmap of at least one word, and leaves every
  bit clear.
\<close>

theorem SelfTest_passes:
  assumes "BitsInWord \<le> n"
  shows "\<exists>m m'. Bitmap_new n = Inr m \<and> Bitmap_SelfTest m = Inr m' \<and> bm_inv m' \<and> bm_set m' = {}"
proof -
  obtain m where m: "Bitmap_new n = Inr m" using Bitmap_new_eq [of n] assms by (auto simp: BitsInWord_def)
  show ?thesis using Bitmap_SelfTest_new [of n m] assms m by (simp add: BitsInWord_def)
qed

lemma SelfTest_passes_witness:
  "\<exists>m m'. Bitmap_new 40 = Inr m \<and> Bitmap_SelfTest m = Inr m' \<and> bm_inv m' \<and> bm_set m' = {}"
  by (rule SelfTest_passes) (simp add: BitsInWord_def)

end
