(* ===== verification/Lists.thy ===== *)
theory Lists
  imports Prelude "HOL-Library.Multiset"
begin

text \<open>
  \<^verbatim>\<open>lib/list.h\<close> and \<^verbatim>\<open>lib/list.cc\<close>: the singly linked lists on which the ready queues, the
  wait queues of semaphores and conditions, and the pending interrupts are kept. A list is
  modelled with its cells in a heap, so that following a deleted cell is a fault of the model;
  \<open>list_repr l xs\<close> says that the cells reachable from \<open>l\<close> spell the sequence \<open>xs\<close>, and every
  routine is shown to compute the corresponding operation on \<open>xs\<close>. The locales \<open>fifo\<close> and
  \<open>ordered_queue\<close> are the interfaces the scheduler, the synchronisation primitives and the
  interrupt simulation rely on.
\<close>

subsection \<open>Cells and lists\<close>

record 'a ListElement =
  item :: 'a
  nxt :: "nat option"

record 'a List =
  cells :: "nat \<rightharpoonup> 'a ListElement"
  brk :: nat
  lfirst :: "nat option"
  llast :: "nat option"
  numInList :: int

type_synonym 'a heap = "nat \<rightharpoonup> 'a ListElement"

definition deref :: "'a heap \<Rightarrow> nat option \<Rightarrow> 'a ListElement res" where
  "deref h p = (case p of None \<Rightarrow> Inl NullPointer
                | Some a \<Rightarrow> (case h a of None \<Rightarrow> Inl UseAfterFree | Some c \<Rightarrow> Inr c))"

text \<open>\<^verbatim>\<open>p->next = q\<close>\<close>

definition set_next :: "'a List \<Rightarrow> nat option \<Rightarrow> nat option \<Rightarrow> 'a List res" where
  "set_next l p q =
     bindR (deref (cells l) p) (\<lambda>c. Inr (l\<lparr>cells := (cells l)(the p \<mapsto> c\<lparr>nxt := q\<rparr>)\<rparr>))"

definition ListElement_new :: "'a List \<Rightarrow> 'a \<Rightarrow> nat \<times> 'a List" where
  "ListElement_new l itm =
     (brk l, l\<lparr>cells := (cells l)(brk l \<mapsto> \<lparr>item = itm, nxt = None\<rparr>), brk := Suc (brk l)\<rparr>)"

definition List_new :: "'a List" where
  "List_new = \<lparr>cells = Map.empty, brk = 0, lfirst = None, llast = None, numInList = 0\<rparr>"

definition List_IsEmpty :: "'a List \<Rightarrow> bool" where
  "List_IsEmpty l \<longleftrightarrow> numInList l = 0"

definition List_Front :: "'a List \<Rightarrow> 'a res" where
  "List_Front l = bindR (deref (cells l) (lfirst l)) (\<lambda>c. Inr (item c))"

text \<open>
  Walks over the cells carry a bound on the number of cells they may visit: a walk that is not
  over after as many cells as were ever allocated is going round a cycle and does not return.
\<close>

fun is_in_from :: "nat \<Rightarrow> 'a heap \<Rightarrow> nat option \<Rightarrow> 'a \<Rightarrow> bool res" where
  "is_in_from k h None x = Inr False"
| "is_in_from 0 h (Some a) x = Inl NoReturn"
| "is_in_from (Suc k) h (Some a) x =
     bindR (deref h (Some a)) (\<lambda>c. if x = item c then Inr True else is_in_from k h (nxt c) x)"

definition List_IsInList :: "'a List \<Rightarrow> 'a \<Rightarrow> bool res" where
  "List_IsInList l x = is_in_from (brk l) (cells l) (lfirst l) x"

definition List_Append :: "'a List \<Rightarrow> 'a \<Rightarrow> 'a List res" where
  "List_Append l itm =
     (case ListElement_new l itm of (element, l) \<Rightarrow>
      bindR (List_IsInList l itm) (\<lambda>b. assertR (\<not> b)
       (bindR (if List_IsEmpty l then Inr (l\<lparr>lfirst := Some element, llast := Some element\<rparr>)
               else bindR (set_next l (llast l) (Some element))
                      (\<lambda>l. Inr (l\<lparr>llast := Some element\<rparr>)))
        (\<lambda>l. let l = l\<lparr>numInList := numInList l + 1\<rparr>
             in bindR (List_IsInList l itm) (\<lambda>b. assertR b (Inr l))))))"

definition List_Prepend :: "'a List \<Rightarrow> 'a \<Rightarrow> 'a List res" where
  "List_Prepend l itm =
     (case ListElement_new l itm of (element, l) \<Rightarrow>
      bindR (List_IsInList l itm) (\<lambda>b. assertR (\<not> b)
       (bindR (if List_IsEmpty l then Inr (l\<lparr>lfirst := Some element, llast := Some element\<rparr>)
               else bindR (set_next l (Some element) (lfirst l))
                      (\<lambda>l. Inr (l\<lparr>lfirst := Some element\<rparr>)))
        (\<lambda>l. let l = l\<lparr>numInList := numInList l + 1\<rparr>
             in bindR (List_IsInList l itm) (\<lambda>b. assertR b (Inr l))))))"

definition List_RemoveFront :: "'a List \<Rightarrow> ('a \<times> 'a List) res" where
  "List_RemoveFront l =
     assertR (\<not> List_IsEmpty l)
      (bindR (deref (cells l) (lfirst l)) (\<lambda>c.
        let l' = (if lfirst l = llast l then l\<lparr>lfirst := None, llast := None\<rparr>
                  else l\<lparr>lfirst := nxt c\<rparr>)
        in Inr (item c, l'\<lparr>numInList := numInList l - 1,
                          cells := (cells l)(the (lfirst l) := None)\<rparr>)))"

text \<open>The search loop of \<^verbatim>\<open>List::Remove\<close>; the flag tells whether it left by \<^verbatim>\<open>break\<close>.\<close>

fun remove_walk :: "nat \<Rightarrow> 'a \<Rightarrow> nat option \<Rightarrow> nat option \<Rightarrow> 'a List \<Rightarrow> (bool \<times> 'a List) res" where
  "remove_walk k x prev None l = Inr (False, l)"
| "remove_walk 0 x prev (Some a) l = Inl NoReturn"
| "remove_walk (Suc k) x prev (Some a) l =
     bindR (deref (cells l) (Some a)) (\<lambda>c.
       if x = item c then
         bindR (set_next l prev (nxt c)) (\<lambda>l.
           let l = (if nxt c = None then l\<lparr>llast := prev\<rparr> else l)
           in Inr (True, l\<lparr>cells := (cells l)(a := None), numInList := numInList l - 1\<rparr>))
       else remove_walk k x (Some a) (nxt c) l)"

definition List_Remove :: "'a List \<Rightarrow> 'a \<Rightarrow> 'a List res" where
  "List_Remove l itm =
     bindR (List_IsInList l itm) (\<lambda>b. assertR b
      (bindR (deref (cells l) (lfirst l)) (\<lambda>c.
        bindR (if itm = item c
               then bindR (List_RemoveFront l) (\<lambda>(removed, l). assertR (itm = removed) (Inr l))
               else bindR (remove_walk (brk l) itm (lfirst l) (nxt c) l)
                      (\<lambda>(found, l). assertR found (Inr l)))
         (\<lambda>l. bindR (List_IsInList l itm) (\<lambda>b. assertR (\<not> b) (Inr l))))))"

text \<open>\<^verbatim>\<open>List::Apply\<close>: the items in the order in which the function is called on them.\<close>

fun items_from :: "nat \<Rightarrow> 'a heap \<Rightarrow> nat option \<Rightarrow> 'a list res" where
  "items_from k h None = Inr []"
| "items_from 0 h (Some a) = Inl NoReturn"
| "items_from (Suc k) h (Some a) =
     bindR (deref h (Some a)) (\<lambda>c. bindR (items_from k h (nxt c)) (\<lambda>xs. Inr (item c # xs)))"

definition List_Apply :: "'a List \<Rightarrow> ('a \<Rightarrow> 's \<Rightarrow> 's) \<Rightarrow> 's \<Rightarrow> 's res" where
  "List_Apply l func s =
     bindR (items_from (brk l) (cells l) (lfirst l)) (\<lambda>xs. Inr (fold func xs s))"

text \<open>\<^verbatim>\<open>ListIterator\<close>: its state is the pointer \<^verbatim>\<open>current\<close>.\<close>

definition ListIterator_new :: "'a List \<Rightarrow> nat option" where
  "ListIterator_new l = lfirst l"

definition ListIterator_IsDone :: "nat option \<Rightarrow> bool" where
  "ListIterator_IsDone current \<longleftrightarrow> current = None"

definition ListIterator_Item :: "'a List \<Rightarrow> nat option \<Rightarrow> 'a res" where
  "ListIterator_Item l current =
     assertR (\<not> ListIterator_IsDone current)
       (bindR (deref (cells l) current) (\<lambda>c. Inr (item c)))"

definition ListIterator_Next :: "'a List \<Rightarrow> nat option \<Rightarrow> nat option res" where
  "ListIterator_Next l current = bindR (deref (cells l) current) (\<lambda>c. Inr (nxt c))"

subsection \<open>Sorted lists\<close>

text \<open>
  The loop of \<^verbatim>\<open>SortedList::Insert\<close> looks one cell ahead; the flag tells whether it left by
  \<^verbatim>\<open>return\<close>. The comparison may itself end in a failed assertion, as \<^verbatim>\<open>Thread::compareTime\<close> does.
\<close>

fun insert_walk ::
  "nat \<Rightarrow> ('a \<Rightarrow> 'a \<Rightarrow> int res) \<Rightarrow> 'a \<Rightarrow> nat \<Rightarrow> nat option \<Rightarrow> 'a List \<Rightarrow> (bool \<times> 'a List) res" where
  "insert_walk 0 cmp x e ptr l = Inl NoReturn"
| "insert_walk (Suc k) cmp x e ptr l =
     bindR (deref (cells l) ptr) (\<lambda>c.
       case nxt c of
         None \<Rightarrow> Inr (False, l)
       | Some b \<Rightarrow>
           bindR (deref (cells l) (Some b)) (\<lambda>cb.
             bindR (cmp x (item cb)) (\<lambda>r.
               if r < 0 then
                 bindR (set_next l (Some e) (Some b)) (\<lambda>l.
                   bindR (set_next l ptr (Some e)) (\<lambda>l.
                     Inr (True, l\<lparr>numInList := numInList l + 1\<rparr>)))
               else insert_walk k cmp x e (Some b) l)))"

definition SortedList_Insert :: "('a \<Rightarrow> 'a \<Rightarrow> int res) \<Rightarrow> 'a List \<Rightarrow> 'a \<Rightarrow> 'a List res" where
  "SortedList_Insert cmp l itm =
     (case ListElement_new l itm of (element, l) \<Rightarrow>
      bindR (List_IsInList l itm) (\<lambda>b. assertR (\<not> b)
       (let finish = (\<lambda>l. let l = l\<lparr>numInList := numInList l + 1\<rparr>
                          in bindR (List_IsInList l itm) (\<lambda>b. assertR b (Inr l)))
        in if List_IsEmpty l then finish (l\<lparr>lfirst := Some element, llast := Some element\<rparr>)
           else bindR (deref (cells l) (lfirst l)) (\<lambda>c.
             bindR (cmp itm (item c)) (\<lambda>r.
               if r < 0 then
                 bindR (set_next l (Some element) (lfirst l))
                   (\<lambda>l. finish (l\<lparr>lfirst := Some element\<rparr>))
               else bindR (insert_walk (brk l) cmp itm element (lfirst l) l) (\<lambda>(returned, l).
                 if returned then Inr l
                 else bindR (set_next l (llast l) (Some element))
                        (\<lambda>l. finish (l\<lparr>llast := Some element\<rparr>))))))))"

subsection \<open>Consistency checks\<close>

text \<open>
  The counting loop of \<^verbatim>\<open>List::SanityCheck\<close>: from \<^verbatim>\<open>first\<close> to \<^verbatim>\<open>last\<close>, one count per cell,
  asserting that the count stays within \<^verbatim>\<open>numInList\<close>.
\<close>

fun count_walk :: "nat \<Rightarrow> 'a List \<Rightarrow> nat option \<Rightarrow> int \<Rightarrow> int res" where
  "count_walk 0 l ptr numFound = (if ptr = llast l then Inr numFound else Inl NoReturn)"
| "count_walk (Suc k) l ptr numFound =
     (if ptr = llast l then Inr numFound
      else assertR (numFound + 1 \<le> numInList l)
        (bindR (deref (cells l) ptr) (\<lambda>c. count_walk k l (nxt c) (numFound + 1))))"

definition List_SanityCheck :: "'a List \<Rightarrow> unit res" where
  "List_SanityCheck l =
     (if lfirst l = None then assertR (numInList l = 0 \<and> llast l = None) (Inr ())
      else if lfirst l = llast l then
        assertR (numInList l = 1)
          (bindR (deref (cells l) (llast l)) (\<lambda>c. assertR (nxt c = None) (Inr ())))
      else bindR (count_walk (brk l) l (lfirst l) 1) (\<lambda>numFound.
        assertR (numFound = numInList l)
          (bindR (deref (cells l) (llast l)) (\<lambda>c. assertR (nxt c = None) (Inr ())))))"

fun sorted_walk :: "nat \<Rightarrow> ('a \<Rightarrow> 'a \<Rightarrow> int res) \<Rightarrow> 'a heap \<Rightarrow> nat option \<Rightarrow> nat option \<Rightarrow> unit res" where
  "sorted_walk k cmp h prev None = Inr ()"
| "sorted_walk 0 cmp h prev (Some a) = Inl NoReturn"
| "sorted_walk (Suc k) cmp h prev (Some a) =
     bindR (deref h prev) (\<lambda>p. bindR (deref h (Some a)) (\<lambda>c.
       bindR (cmp (item p) (item c)) (\<lambda>r.
         assertR (r \<le> 0) (sorted_walk k cmp h (Some a) (nxt c)))))"

definition SortedList_SanityCheck :: "('a \<Rightarrow> 'a \<Rightarrow> int res) \<Rightarrow> 'a List \<Rightarrow> unit res" where
  "SortedList_SanityCheck cmp l =
     bindR (List_SanityCheck l) (\<lambda>_.
       if lfirst l \<noteq> llast l then
         bindR (deref (cells l) (lfirst l)) (\<lambda>c.
           sorted_walk (brk l) cmp (cells l) (lfirst l) (nxt c))
       else Inr ())"

subsection \<open>Self tests\<close>

text \<open>
  \<^verbatim>\<open>SelfTest\<close> calls \<^verbatim>\<open>Append\<close> and \<^verbatim>\<open>SanityCheck\<close>, which are virtual: the class of the list under
  test supplies them.
\<close>

definition append_round :: "('a List \<Rightarrow> 'a \<Rightarrow> 'a List res) \<Rightarrow> 'a \<Rightarrow> 'a List \<Rightarrow> 'a List res" where
  "append_round app x l =
     bindR (app l x) (\<lambda>l. bindR (List_IsInList l x) (\<lambda>b. assertR b (assertR (\<not> List_IsEmpty l) (Inr l))))"

definition remove_round :: "'a \<Rightarrow> 'a List \<Rightarrow> 'a List res" where
  "remove_round x l =
     bindR (List_Remove l x) (\<lambda>l. bindR (List_IsInList l x) (\<lambda>b. assertR (\<not> b) (Inr l)))"

definition List_SelfTest ::
  "('a List \<Rightarrow> 'a \<Rightarrow> 'a List res) \<Rightarrow> ('a List \<Rightarrow> unit res) \<Rightarrow> 'a list \<Rightarrow> 'a List \<Rightarrow> 'a List res" where
  "List_SelfTest app sane p l =
     bindR (sane l) (\<lambda>_.
     assertR (List_IsEmpty l \<and> lfirst l = None)
      (assertR (ListIterator_IsDone (ListIterator_new l))
        (bindR (eachR (append_round app) p l) (\<lambda>l.
         bindR (sane l) (\<lambda>_.
         bindR (eachR remove_round p l) (\<lambda>l.
         assertR (List_IsEmpty l) (bindR (sane l) (\<lambda>_. Inr l))))))))"

definition insert_round :: "('a \<Rightarrow> 'a \<Rightarrow> int res) \<Rightarrow> 'a \<Rightarrow> 'a List \<Rightarrow> 'a List res" where
  "insert_round cmp x l =
     bindR (SortedList_Insert cmp l x) (\<lambda>l. bindR (List_IsInList l x) (\<lambda>b. assertR b (Inr l)))"

fun front_rounds :: "nat \<Rightarrow> 'a List \<Rightarrow> ('a list \<times> 'a List) res" where
  "front_rounds 0 l = Inr ([], l)"
| "front_rounds (Suc n) l =
     bindR (List_RemoveFront l) (\<lambda>(x, l). bindR (List_IsInList l x) (\<lambda>b. assertR (\<not> b)
       (bindR (front_rounds n l) (\<lambda>(xs, l). Inr (x # xs, l)))))"

fun order_rounds :: "('a \<Rightarrow> 'a \<Rightarrow> int res) \<Rightarrow> 'a list \<Rightarrow> unit res" where
  "order_rounds cmp (x # y # zs) =
     bindR (cmp x y) (\<lambda>r. assertR (r \<le> 0) (order_rounds cmp (y # zs)))"
| "order_rounds cmp _ = Inr ()"

definition SortedList_SelfTest :: "('a \<Rightarrow> 'a \<Rightarrow> int res) \<Rightarrow> 'a list \<Rightarrow> 'a List \<Rightarrow> 'a List res" where
  "SortedList_SelfTest cmp p l =
     bindR (List_SelfTest (SortedList_Insert cmp) (SortedList_SanityCheck cmp) p l) (\<lambda>l.
     bindR (eachR (insert_round cmp) p l) (\<lambda>l.
     bindR (SortedList_SanityCheck cmp l) (\<lambda>_.
     bindR (front_rounds (length p) l) (\<lambda>(q, l).
     assertR (List_IsEmpty l) (
     bindR (order_rounds cmp q) (\<lambda>_.
     bindR (SortedList_SanityCheck cmp l) (\<lambda>_. Inr l)))))))"

subsection \<open>Which sequence a list spells\<close>

text \<open>\<open>path h p as xs q\<close>: from \<open>p\<close> the cells at \<open>as\<close> hold the items \<open>xs\<close> and lead to \<open>q\<close>.\<close>

fun path :: "'a heap \<Rightarrow> nat option \<Rightarrow> nat list \<Rightarrow> 'a list \<Rightarrow> nat option \<Rightarrow> bool" where
  "path h p [] [] q \<longleftrightarrow> p = q"
| "path h p (a # as) (x # xs) q \<longleftrightarrow>
     p = Some a \<and> (\<exists>n. h a = Some \<lparr>item = x, nxt = n\<rparr> \<and> path h n as xs q)"
| "path h p _ _ q \<longleftrightarrow> False"

definition list_cells :: "'a List \<Rightarrow> nat list \<Rightarrow> 'a list \<Rightarrow> bool" where
  "list_cells l as xs \<longleftrightarrow> path (cells l) (lfirst l) as xs None \<and> distinct as
     \<and> (\<forall>a. cells l a \<noteq> None \<longrightarrow> a < brk l)
     \<and> llast l = (if as = [] then None else Some (last as))
     \<and> numInList l = int (length as) \<and> distinct xs"

definition list_repr :: "'a List \<Rightarrow> 'a list \<Rightarrow> bool" where
  "list_repr l xs \<longleftrightarrow> (\<exists>as. list_cells l as xs)"

lemma deref_Some [simp]: "h a = Some c \<Longrightarrow> deref h (Some a) = Inr c"
  by (simp add: deref_def)

lemma deref_freed [simp]: "h a = None \<Longrightarrow> deref h (Some a) = Inl UseAfterFree"
  by (simp add: deref_def)

lemma deref_None [simp]: "deref h None = Inl NullPointer"
  by (simp add: deref_def)

lemma path_lengths: "path h p as xs q \<Longrightarrow> length as = length xs"
  by (induction h p as xs q rule: path.induct) auto

lemma path_Nil [simp]: "path h p [] xs q \<longleftrightarrow> xs = [] \<and> p = q" "path h p as [] q \<longleftrightarrow> as = [] \<and> p = q"
  by (cases xs; simp) (cases as; simp)

lemma path_Cons1: "path h p (a # as) zs q \<longleftrightarrow>
    (\<exists>x xs n. zs = x # xs \<and> p = Some a \<and> h a = Some \<lparr>item = x, nxt = n\<rparr> \<and> path h n as xs q)"
  by (cases zs) auto

lemma path_append:
  "length as = length xs \<Longrightarrow>
   path h p (as @ bs) (xs @ ys) q \<longleftrightarrow> (\<exists>r. path h p as xs r \<and> path h r bs ys q)"
  by (induction as xs arbitrary: p rule: list_induct2) fastforce+

lemma path_upd [simp]: "a \<notin> set as \<Longrightarrow> path (h(a := v)) p as xs q = path h p as xs q"
  by (induction h p as xs q rule: path.induct) auto

lemma path_allocated: "path h p as xs q \<Longrightarrow> a \<in> set as \<Longrightarrow> h a \<noteq> None"
  by (induction h p as xs q rule: path.induct) auto

lemma path_length:
  assumes "path h p as xs q" "distinct as" "\<forall>a. h a \<noteq> None \<longrightarrow> a < n"
  shows "length as \<le> n"
proof -
  have "card (set as) \<le> card {..<n}"
    using path_allocated [OF assms(1)] assms(3) by (intro card_mono) auto
  then show ?thesis using assms(2) by (simp add: distinct_card)
qed

lemma path_fresh: "path h p as xs q \<Longrightarrow> \<forall>a. h a \<noteq> None \<longrightarrow> a < n \<Longrightarrow> n \<notin> set as"
  using path_allocated [of h p as xs q n] by auto

lemma is_in_from_eq:
  "path h p as xs None \<Longrightarrow> length as \<le> k \<Longrightarrow> is_in_from k h p x = Inr (x \<in> set xs)"
proof (induction as arbitrary: p k xs)
  case Nil
  then show ?case by (cases k) auto
next
  case (Cons a as)
  then obtain y ys n j where
    n: "xs = y # ys" "p = Some a" "h a = Some \<lparr>item = y, nxt = n\<rparr>" "path h n as ys None"
      "k = Suc j" "length as \<le> j"
    by (cases k) (auto simp: path_Cons1)
  from Cons.IH [OF n(4,6)] n show ?case by auto
qed

lemma items_from_eq:
  "path h p as xs None \<Longrightarrow> length as \<le> k \<Longrightarrow> items_from k h p = Inr xs"
proof (induction as arbitrary: p k xs)
  case Nil
  then show ?case by (cases k) auto
next
  case (Cons a as)
  then obtain y ys n j where
    n: "xs = y # ys" "p = Some a" "h a = Some \<lparr>item = y, nxt = n\<rparr>" "path h n as ys None"
      "k = Suc j" "length as \<le> j"
    by (cases k) (auto simp: path_Cons1)
  from Cons.IH [OF n(4,6)] n show ?case by auto
qed

lemma list_cells_bound: "list_cells l as xs \<Longrightarrow> length as \<le> brk l"
  unfolding list_cells_def using path_length by blast

lemma list_cells_in: "list_cells l as xs \<Longrightarrow> List_IsInList l x = Inr (x \<in> set xs)"
  using list_cells_bound unfolding List_IsInList_def list_cells_def
  by (intro is_in_from_eq) auto

lemma list_repr_in: "list_repr l xs \<Longrightarrow> List_IsInList l x = Inr (x \<in> set xs)"
  unfolding list_repr_def using list_cells_in by metis

lemma list_repr_new: "list_repr List_new []"
  by (auto simp: list_repr_def list_cells_def List_new_def)

lemma list_cells_lengths: "list_cells l as xs \<Longrightarrow> length as = length xs"
  using path_lengths by (auto simp: list_cells_def)

lemma list_repr_length: "list_repr l xs \<Longrightarrow> numInList l = int (length xs)"
  unfolding list_repr_def by (metis list_cells_def list_cells_lengths)

lemma list_repr_empty: "list_repr l xs \<Longrightarrow> List_IsEmpty l \<longleftrightarrow> xs = []"
  using list_repr_length [of l xs] by (simp add: List_IsEmpty_def)

lemma list_repr_distinct: "list_repr l xs \<Longrightarrow> distinct xs"
  by (auto simp: list_repr_def list_cells_def)

lemma list_repr_Front: "list_repr l (x # xs) \<Longrightarrow> List_Front l = Inr x"
proof -
  assume "list_repr l (x # xs)"
  then obtain as where as: "path (cells l) (lfirst l) as (x # xs) None"
    by (auto simp: list_repr_def list_cells_def)
  then obtain a as' where "as = a # as'" by (cases as) auto
  with as show ?thesis by (auto simp: List_Front_def)
qed

lemma list_repr_items: "list_repr l xs \<Longrightarrow> items_from (brk l) (cells l) (lfirst l) = Inr xs"
  using items_from_eq list_cells_bound unfolding list_repr_def list_cells_def by blast

lemma list_repr_unique: "list_repr l xs \<Longrightarrow> list_repr l ys \<Longrightarrow> xs = ys"
  using list_repr_items [of l xs] list_repr_items [of l ys] by simp

lemma list_repr_Apply: "list_repr l xs \<Longrightarrow> List_Apply l f s = Inr (fold f xs s)"
  by (simp add: List_Apply_def list_repr_items)

subsection \<open>Adding a cell\<close>

text \<open>A list with its freshly allocated cell: what \<open>ListElement_new\<close> leaves behind.\<close>

lemma list_cells_alloc:
  assumes "list_cells l as xs" "ListElement_new l x = (a, l')"
  shows "list_cells l' as xs" "a \<notin> set as" "cells l' a = Some \<lparr>item = x, nxt = None\<rparr>" "a < brk l'"
proof -
  have fresh: "brk l \<notin> set as"
    using assms(1) path_fresh unfolding list_cells_def by blast
  show "list_cells l' as xs" "a \<notin> set as" "cells l' a = Some \<lparr>item = x, nxt = None\<rparr>" "a < brk l'"
    using assms fresh
    by (auto simp: list_cells_def ListElement_new_def less_Suc_eq split: if_splits)
qed

lemma path_link:
  assumes "path h p (bs @ b # cs) (ys @ y # zs) q" "length bs = length ys"
    "distinct (bs @ b # cs)" "a \<notin> set (bs @ b # cs)" "h b = Some \<lparr>item = y, nxt = n\<rparr>"
  shows "path (h(a \<mapsto> \<lparr>item = x, nxt = n\<rparr>, b \<mapsto> \<lparr>item = y, nxt = Some a\<rparr>)) p
           (bs @ b # a # cs) (ys @ y # x # zs) q"
  using assms by (auto simp: path_append)

lemma path_unlink:
  assumes "path h p (bs @ b # c # cs) (ys @ y # z # zs) q" "length bs = length ys"
    "distinct (bs @ b # c # cs)" "h c = Some \<lparr>item = z, nxt = n\<rparr>"
  shows "path (h(b \<mapsto> \<lparr>item = y, nxt = n\<rparr>, c := None)) p (bs @ b # cs) (ys @ y # zs) q"
  using assms by (auto simp: path_append)

lemma list_cells_snocD:
  assumes "list_cells l as xs" "as \<noteq> []"
  obtains bs b ys y where "as = bs @ [b]" "xs = ys @ [y]" "length bs = length ys"
    "cells l b = Some \<lparr>item = y, nxt = None\<rparr>" "llast l = Some b" "b < brk l"
proof -
  from assms(2) obtain bs b where bs: "as = bs @ [b]" by (metis rev_exhaust)
  from list_cells_lengths [OF assms(1)] bs have "xs \<noteq> []" by auto
  then obtain ys y where ys: "xs = ys @ [y]" by (metis rev_exhaust)
  with list_cells_lengths [OF assms(1)] bs have "length bs = length ys" by simp
  with assms(1) bs ys show ?thesis
    by (intro that [of bs b ys y]) (auto simp: list_cells_def path_append)
qed

lemma Append_ok:
  assumes "list_repr l xs" "x \<notin> set xs"
  shows "\<exists>l'. List_Append l x = Inr l' \<and> list_repr l' (xs @ [x])"
proof -
  from assms(1) obtain as where as: "list_cells l as xs" by (auto simp: list_repr_def)
  obtain a l1 where alloc: "ListElement_new l x = (a, l1)" by fastforce
  note l1 = list_cells_alloc [OF as alloc]
  have notin: "List_IsInList l1 x = Inr False"
    using list_cells_in [OF l1(1)] assms(2) by simp
  show ?thesis
  proof (cases "as = []")
    case True
    with list_cells_lengths [OF as] have xs: "xs = []" by simp
    let ?l = "l1\<lparr>lfirst := Some a, llast := Some a, numInList := numInList l1 + 1\<rparr>"
    have r: "list_cells ?l [a] [x]" using l1 True xs by (auto simp: list_cells_def)
    then have "list_repr ?l (xs @ [x])" using xs by (auto simp: list_repr_def)
    with list_cells_in [OF r, of x] show ?thesis
      using alloc notin l1(1) True
      by (auto simp: List_Append_def List_IsEmpty_def list_cells_def)
  next
    case False
    from list_cells_snocD [OF l1(1) False] obtain bs b ys y where
      b: "as = bs @ [b]" "xs = ys @ [y]" "length bs = length ys"
        "cells l1 b = Some \<lparr>item = y, nxt = None\<rparr>" "llast l1 = Some b" "b < brk l1" .
    let ?h = "(cells l1)(b \<mapsto> \<lparr>item = y, nxt = Some a\<rparr>)"
    let ?l = "l1\<lparr>cells := ?h, llast := Some a, numInList := numInList l1 + 1\<rparr>"
    have h: "?h = (cells l1)(a \<mapsto> \<lparr>item = x, nxt = None\<rparr>, b \<mapsto> \<lparr>item = y, nxt = Some a\<rparr>)"
      using l1(3) by (auto simp: fun_eq_iff)
    have "path ?h (lfirst l1) (bs @ b # a # []) (ys @ y # x # []) None"
      unfolding h by (rule path_link) (use l1 b in \<open>auto simp: list_cells_def\<close>)
    then have r: "list_cells ?l (as @ [a]) (xs @ [x])"
      using l1 b assms(2) by (auto simp: list_cells_def)
    then have "list_repr ?l (xs @ [x])" by (auto simp: list_repr_def)
    with list_cells_in [OF r, of x] show ?thesis
      using alloc notin l1(1) b
      by (auto simp: List_Append_def List_IsEmpty_def list_cells_def set_next_def)
  qed
qed

lemma Append_dup:
  assumes "list_repr l xs" "x \<in> set xs"
  shows "List_Append l x = Inl AssertFailed"
proof -
  from assms(1) obtain as where as: "list_cells l as xs" by (auto simp: list_repr_def)
  obtain a l1 where alloc: "ListElement_new l x = (a, l1)" by fastforce
  show ?thesis
    using alloc list_cells_in [OF list_cells_alloc(1) [OF as alloc], of x] assms(2)
    by (simp add: List_Append_def)
qed

lemma Prepend_ok:
  assumes "list_repr l xs" "x \<notin> set xs"
  shows "\<exists>l'. List_Prepend l x = Inr l' \<and> list_repr l' (x # xs)"
proof -
  from assms(1) obtain as where as: "list_cells l as xs" by (auto simp: list_repr_def)
  obtain a l1 where alloc: "ListElement_new l x = (a, l1)" by fastforce
  note l1 = list_cells_alloc [OF as alloc]
  have notin: "List_IsInList l1 x = Inr False"
    using list_cells_in [OF l1(1)] assms(2) by simp
  show ?thesis
  proof (cases "as = []")
    case True
    with list_cells_lengths [OF as] have xs: "xs = []" by simp
    let ?l = "l1\<lparr>lfirst := Some a, llast := Some a, numInList := numInList l1 + 1\<rparr>"
    have r: "list_cells ?l [a] [x]" using l1 True xs by (auto simp: list_cells_def)
    then have "list_repr ?l (x # xs)" using xs by (auto simp: list_repr_def)
    with list_cells_in [OF r, of x] show ?thesis
      using alloc notin l1(1) True
      by (auto simp: List_Prepend_def List_IsEmpty_def list_cells_def)
  next
    case False
    let ?l = "l1\<lparr>cells := (cells l1)(a \<mapsto> \<lparr>item = x, nxt = lfirst l1\<rparr>), lfirst := Some a,
                 numInList := numInList l1 + 1\<rparr>"
    have r: "list_cells ?l (a # as) (x # xs)"
      using l1 assms(2) False by (auto simp: list_cells_def)
    then have "list_repr ?l (x # xs)" by (auto simp: list_repr_def)
    with list_cells_in [OF r, of x] show ?thesis
      using alloc notin l1 False
      by (auto simp: List_Prepend_def List_IsEmpty_def list_cells_def set_next_def)
  qed
qed

subsection \<open>Removing a cell\<close>

lemma list_cells_midD:
  assumes "list_cells l (bs @ b # cs) (ys @ y # zs)" "length bs = length ys"
  obtains n where "cells l b = Some \<lparr>item = y, nxt = n\<rparr>" "path (cells l) n cs zs None" "b < brk l"
    "n = (case cs of [] \<Rightarrow> None | c # _ \<Rightarrow> Some c)"
proof -
  from assms obtain n where n: "cells l b = Some \<lparr>item = y, nxt = n\<rparr>" "path (cells l) n cs zs None"
    by (auto simp: list_cells_def path_append)
  moreover have "b < brk l" using n(1) assms(1) by (auto simp: list_cells_def)
  moreover have "n = (case cs of [] \<Rightarrow> None | c # _ \<Rightarrow> Some c)"
    using n(2) by (cases cs) (auto simp: path_Cons1)
  ultimately show ?thesis by (rule that)
qed

lemma RemoveFront_ok:
  assumes "list_repr l (x # xs)"
  shows "\<exists>l'. List_RemoveFront l = Inr (x, l') \<and> list_repr l' xs"
proof -
  from assms obtain a as where as: "list_cells l ([] @ a # as) ([] @ x # xs)"
    by (metis append_Nil list_cells_lengths list_repr_def length_Suc_conv)
  from list_cells_midD [OF as] obtain n where
    n: "cells l a = Some \<lparr>item = x, nxt = n\<rparr>" "path (cells l) n as xs None"
      "n = (case as of [] \<Rightarrow> None | c # _ \<Rightarrow> Some c)" by auto
  from as have first: "lfirst l = Some a" "a \<notin> set as" by (auto simp: list_cells_def)
  have eq: "lfirst l = llast l \<longleftrightarrow> as = []"
    using as by (cases as rule: rev_cases) (auto simp: list_cells_def)
  let ?l = "(if as = [] then l\<lparr>lfirst := None, llast := None\<rparr> else l\<lparr>lfirst := n\<rparr>)
              \<lparr>numInList := numInList l - 1, cells := (cells l)(a := None)\<rparr>"
  have "list_cells ?l as xs"
    using as n first by (auto simp: list_cells_def)
  then show ?thesis
    using n first eq as
    by (auto simp: List_RemoveFront_def List_IsEmpty_def list_repr_def Let_def list_cells_def)
qed

lemma RemoveFront_empty: "list_repr l [] \<Longrightarrow> List_RemoveFront l = Inl AssertFailed"
  using list_repr_empty [of l "[]"] by (simp add: List_RemoveFront_def)

lemma list_cells_unlink:
  assumes "list_cells l (bs @ b # c # cs) (ys @ y # z # zs)" "length bs = length ys"
    "cells l c = Some \<lparr>item = z, nxt = n\<rparr>"
  shows "list_cells (l\<lparr>cells := (cells l)(b \<mapsto> \<lparr>item = y, nxt = n\<rparr>, c := None),
           llast := (if n = None then Some b else llast l), numInList := numInList l - 1\<rparr>)
         (bs @ b # cs) (ys @ y # zs)"
proof -
  from list_cells_midD [OF assms(1,2)] have b: "b < brk l" by blast
  from list_cells_midD [of l "bs @ [b]" c cs "ys @ [y]" z zs] assms
  have "n = (case cs of [] \<Rightarrow> None | c # _ \<Rightarrow> Some c)" by auto
  then have last: "n = None \<longleftrightarrow> cs = []" by (cases cs) auto
  have "path ((cells l)(b \<mapsto> \<lparr>item = y, nxt = n\<rparr>, c := None)) (lfirst l) (bs @ b # cs) (ys @ y # zs) None"
    by (rule path_unlink) (use assms in \<open>auto simp: list_cells_def\<close>)
  then show ?thesis
    using assms(1) b last by (auto simp: list_cells_def)
qed

lemma remove_walk_ok:
  assumes "list_cells l (bs @ b # cs) (ys @ y # zs)" "length bs = length ys" "x \<in> set zs"
    "length cs \<le> k" "cells l b = Some \<lparr>item = y, nxt = n\<rparr>"
  shows "\<exists>l' as'. remove_walk k x (Some b) n l = Inr (True, l')
           \<and> list_cells l' as' (ys @ y # remove1 x zs)"
  using assms
proof (induction cs arbitrary: bs b ys y zs k n)
  case Nil
  then show ?case using list_cells_lengths [OF Nil.prems(1)] by simp
next
  case (Cons c cs)
  then obtain z zs' j where zs: "zs = z # zs'" "k = Suc j" "length cs \<le> j"
    using list_cells_lengths [OF Cons.prems(1)] by (cases zs; cases k) auto
  from list_cells_midD [OF Cons.prems(1,2)] Cons.prems(5) have n: "n = Some c" by auto
  from list_cells_midD [of l "bs @ [b]" c cs "ys @ [y]" z zs'] Cons.prems(1,2) zs
  obtain n' where n': "cells l c = Some \<lparr>item = z, nxt = n'\<rparr>" by auto
  show ?case
  proof (cases "x = z")
    case True
    note un = list_cells_unlink [OF Cons.prems(1) [unfolded zs] Cons.prems(2) n']
    show ?thesis
      by (rule exI, rule exI, rule conjI [OF _ un [THEN back_subst [of "list_cells _ _"]]])
         (use True n n' zs Cons.prems(5) in \<open>auto simp: set_next_def Let_def\<close>)
  next
    case False
    with Cons.prems zs have "x \<in> set zs'" by simp
    from Cons.IH [of "bs @ [b]" c "ys @ [y]" z zs' j n'] this False n n' zs Cons.prems
    show ?thesis by auto
  qed
qed

lemma Remove_ok:
  assumes "list_repr l xs" "x \<in> set xs"
  shows "\<exists>l'. List_Remove l x = Inr l' \<and> list_repr l' (remove1 x xs)"
proof -
  obtain y ys where xs: "xs = y # ys" using assms(2) by (cases xs) auto
  from assms(1) xs obtain a as where as: "list_cells l ([] @ a # as) ([] @ y # ys)"
    by (metis append_Nil list_cells_lengths list_repr_def length_Suc_conv)
  from list_cells_midD [OF as] obtain n where
    n: "cells l a = Some \<lparr>item = y, nxt = n\<rparr>" by auto
  have first: "lfirst l = Some a" using as by (auto simp: list_cells_def)
  have isin: "List_IsInList l x = Inr True" using list_repr_in [OF assms(1)] assms(2) by simp
  have gone: "x \<notin> set (remove1 x xs)" using list_repr_distinct [OF assms(1)] by simp
  show ?thesis
  proof (cases "x = y")
    case True
    from RemoveFront_ok [OF assms(1) [unfolded xs]] obtain l' where
      l': "List_RemoveFront l = Inr (y, l')" "list_repr l' ys" by blast
    with True xs isin first n gone list_repr_in [OF l'(2), of x] show ?thesis
      by (auto simp: List_Remove_def)
  next
    case False
    with assms(2) xs have "x \<in> set ys" by simp
    moreover have "length as \<le> brk l" using list_cells_bound [OF as] by simp
    ultimately obtain l' as' where
      l': "remove_walk (brk l) x (Some a) n l = Inr (True, l')" "list_cells l' as' (y # remove1 x ys)"
      using remove_walk_ok [OF as] n by fastforce
    then have r: "list_repr l' (remove1 x xs)" using False xs by (auto simp: list_repr_def)
    with l' False isin first n gone list_repr_in [OF r, of x] show ?thesis
      by (auto simp: List_Remove_def)
  qed
qed

lemma Remove_absent:
  "list_repr l xs \<Longrightarrow> x \<notin> set xs \<Longrightarrow> List_Remove l x = Inl AssertFailed"
  by (simp add: List_Remove_def list_repr_in)

text \<open>
  An iterator that stands on the removed cell is left pointing to freed memory: the next
  \<^verbatim>\<open>Next()\<close> reads through it.
\<close>

lemma RemoveFront_frees:
  assumes "list_repr l (x # xs)" "List_RemoveFront l = Inr (y, l')"
  shows "ListIterator_Next l' (ListIterator_new l) = Inl UseAfterFree"
proof -
  from assms(2) have "cells l' = (cells l)(the (lfirst l) := None)"
    by (auto simp: List_RemoveFront_def resE)
  moreover from assms(1) obtain as where "path (cells l) (lfirst l) as (x # xs) None"
    by (auto simp: list_repr_def list_cells_def)
  then have "\<exists>a. lfirst l = Some a" by (cases as) auto
  ultimately show ?thesis by (auto simp: ListIterator_Next_def ListIterator_new_def)
qed

subsection \<open>Sorted insertion\<close>

text \<open>Where \<^verbatim>\<open>Insert\<close> puts an item: in front of the first element that compares bigger.\<close>

definition insert_before :: "('a \<Rightarrow> int) \<Rightarrow> 'a \<Rightarrow> 'a list \<Rightarrow> 'a list" where
  "insert_before c x xs = takeWhile (\<lambda>y. 0 \<le> c y) xs @ x # dropWhile (\<lambda>y. 0 \<le> c y) xs"

lemma insert_before_simps [simp]:
  "insert_before c x [] = [x]"
  "insert_before c x (y # ys) = (if c y < 0 then x # y # ys else y # insert_before c x ys)"
  by (simp_all add: insert_before_def)

lemma set_insert_before [simp]: "set (insert_before c x xs) = insert x (set xs)"
  by (induction xs) auto

lemma distinct_insert_before [simp]:
  "distinct (insert_before c x xs) \<longleftrightarrow> x \<notin> set xs \<and> distinct xs"
  by (induction xs) auto

lemma length_insert_before [simp]: "length (insert_before c x xs) = Suc (length xs)"
  by (induction xs) auto

lemma insert_walk_ok:
  assumes "list_cells l (bs @ b # cs) (ys @ y # zs)" "length bs = length ys" "length cs < k"
    "e \<notin> set (bs @ b # cs)" "cells l e = Some \<lparr>item = x, nxt = None\<rparr>"
    "\<And>z. z \<in> set zs \<Longrightarrow> cmp x z = Inr (c z)" "x \<notin> set (ys @ y # zs)"
  shows "if \<forall>z\<in>set zs. 0 \<le> c z then insert_walk k cmp x e (Some b) l = Inr (False, l)
     else \<exists>l' as'. insert_walk k cmp x e (Some b) l = Inr (True, l')
            \<and> list_cells l' as' (ys @ y # insert_before c x zs)"
  using assms
proof (induction cs arbitrary: bs b ys y zs k)
  case Nil
  then have "zs = []" using list_cells_lengths [OF Nil.prems(1)] by simp
  with Nil list_cells_midD [OF Nil.prems(1,2)] obtain j where
    "k = Suc j" "cells l b = Some \<lparr>item = y, nxt = None\<rparr>" by (cases k) auto
  with \<open>zs = []\<close> show ?case by simp
next
  case (Cons d cs)
  then obtain z zs' j where zs: "zs = z # zs'" "k = Suc j" "length cs < j"
    using list_cells_lengths [OF Cons.prems(1)] by (cases zs; cases k) auto
  from list_cells_midD [OF Cons.prems(1,2)]
  have b: "cells l b = Some \<lparr>item = y, nxt = Some d\<rparr>" "b < brk l" by auto
  from list_cells_midD [of l "bs @ [b]" d cs "ys @ [y]" z zs'] Cons.prems(1,2) zs
  obtain n where d: "cells l d = Some \<lparr>item = z, nxt = n\<rparr>" by auto
  have cz: "cmp x z = Inr (c z)" using Cons.prems(6) zs by simp
  show ?case
  proof (cases "c z < 0")
    case True
    let ?h = "(cells l)(e \<mapsto> \<lparr>item = x, nxt = Some d\<rparr>, b \<mapsto> \<lparr>item = y, nxt = Some e\<rparr>)"
    let ?l = "l\<lparr>cells := ?h, numInList := numInList l + 1\<rparr>"
    have "path ?h (lfirst l) (bs @ b # e # d # cs) (ys @ y # x # z # zs') None"
      by (rule path_link) (use Cons.prems zs b in \<open>auto simp: list_cells_def\<close>)
    moreover have "e < brk l" using Cons.prems(1,5) by (auto simp: list_cells_def)
    ultimately have "list_cells ?l (bs @ b # e # d # cs) (ys @ y # insert_before c x zs)"
      using Cons.prems zs b True by (auto simp: list_cells_def)
    moreover have "insert_walk k cmp x e (Some b) l = Inr (True, ?l)"
      using zs b d cz True Cons.prems(4,5) by (auto simp: set_next_def)
    ultimately show ?thesis using zs True by auto
  next
    case False
    have step: "insert_walk k cmp x e (Some b) l = insert_walk j cmp x e (Some d) l"
      using zs b d cz False by simp
    have "(\<forall>z\<in>set zs. 0 \<le> c z) = (\<forall>z\<in>set zs'. 0 \<le> c z)"
      "insert_before c x zs = z # insert_before c x zs'" using False zs by auto
    moreover have "if \<forall>z\<in>set zs'. 0 \<le> c z then insert_walk j cmp x e (Some d) l = Inr (False, l)
       else \<exists>l' as'. insert_walk j cmp x e (Some d) l = Inr (True, l')
              \<and> list_cells l' as' ((ys @ [y]) @ z # insert_before c x zs')"
      by (rule Cons.IH [of "bs @ [b]"]) (use Cons.prems zs in auto)
    ultimately show ?thesis unfolding step by (auto split: if_splits)
  qed
qed


lemma insert_before_all: "\<forall>z\<in>set xs. 0 \<le> c z \<Longrightarrow> insert_before c x xs = xs @ [x]"
  by (simp add: insert_before_def)

lemma list_cells_snoc:
  assumes "list_cells l as xs" "as \<noteq> []" "e \<notin> set as"
    "cells l e = Some \<lparr>item = x, nxt = None\<rparr>" "x \<notin> set xs"
  shows "\<exists>l'. set_next l (llast l) (Some e) = Inr l'
     \<and> list_cells (l'\<lparr>llast := Some e, numInList := numInList l' + 1\<rparr>) (as @ [e]) (xs @ [x])"
proof -
  from list_cells_snocD [OF assms(1,2)] obtain bs b ys y where
    b: "as = bs @ [b]" "xs = ys @ [y]" "length bs = length ys"
      "cells l b = Some \<lparr>item = y, nxt = None\<rparr>" "llast l = Some b" "b < brk l" .
  let ?h = "(cells l)(b \<mapsto> \<lparr>item = y, nxt = Some e\<rparr>)"
  have h: "?h = (cells l)(e \<mapsto> \<lparr>item = x, nxt = None\<rparr>, b \<mapsto> \<lparr>item = y, nxt = Some e\<rparr>)"
    using assms(4) by (auto simp: fun_eq_iff)
  have "path ?h (lfirst l) (bs @ b # e # []) (ys @ y # x # []) None"
    unfolding h by (rule path_link) (use assms b in \<open>auto simp: list_cells_def\<close>)
  then show ?thesis
    using assms b by (auto simp: list_cells_def set_next_def)
qed

lemma Insert_ok:
  assumes "list_repr l xs" "x \<notin> set xs" "\<And>y. y \<in> set xs \<Longrightarrow> cmp x y = Inr (c y)"
  shows "\<exists>l'. SortedList_Insert cmp l x = Inr l' \<and> list_repr l' (insert_before c x xs)"
proof -
  from assms(1) obtain as where as: "list_cells l as xs" by (auto simp: list_repr_def)
  obtain e l1 where alloc: "ListElement_new l x = (e, l1)" by fastforce
  note l1 = list_cells_alloc [OF as alloc]
  have notin: "List_IsInList l1 x = Inr False" using list_cells_in [OF l1(1)] assms(2) by simp
  show ?thesis
  proof (cases xs)
    case Nil
    with list_cells_lengths [OF as] have "as = []" by simp
    then have r: "list_cells (l1\<lparr>lfirst := Some e, llast := Some e, numInList := numInList l1 + 1\<rparr>) [e] [x]"
      using l1 Nil by (auto simp: list_cells_def)
    with list_cells_in [OF r, of x] show ?thesis
      using alloc notin l1(1) Nil \<open>as = []\<close>
      by (auto simp: SortedList_Insert_def List_IsEmpty_def list_cells_def list_repr_def)
  next
    case (Cons y ys)
    with list_cells_lengths [OF as] obtain b bs where bs: "as = b # bs" by (cases as) auto
    have ne: "\<not> List_IsEmpty l1" using l1(1) bs by (simp add: List_IsEmpty_def list_cells_def)
    from l1(1) Cons bs obtain n where first: "lfirst l1 = Some b" "cells l1 b = Some \<lparr>item = y, nxt = n\<rparr>"
      by (auto simp: list_cells_def)
    have cy: "cmp x y = Inr (c y)" using assms(3) Cons by simp
    show ?thesis
    proof (cases "c y < 0")
      case True
      let ?l = "l1\<lparr>cells := (cells l1)(e \<mapsto> \<lparr>item = x, nxt = lfirst l1\<rparr>), lfirst := Some e,
                   numInList := numInList l1 + 1\<rparr>"
      have r: "list_cells ?l (e # as) (x # xs)"
        using l1 assms(2) bs by (auto simp: list_cells_def)
      with list_cells_in [OF r, of x] show ?thesis
        using alloc notin first cy True ne l1(3) Cons
        by (auto simp: SortedList_Insert_def set_next_def list_repr_def)
    next
      case False
      have w: "if \<forall>z\<in>set ys. 0 \<le> c z then insert_walk (brk l1) cmp x e (Some b) l1 = Inr (False, l1)
         else \<exists>l' as'. insert_walk (brk l1) cmp x e (Some b) l1 = Inr (True, l')
              \<and> list_cells l' as' ([] @ y # insert_before c x ys)"
        by (rule insert_walk_ok [of l1 "[]" b bs])
           (use l1 Cons bs assms(2,3) list_cells_bound [OF l1(1)] in auto)
      show ?thesis
      proof (cases "\<forall>z\<in>set ys. 0 \<le> c z")
        case True
        from list_cells_snoc [OF l1(1) _ l1(2,3) assms(2)] bs obtain l2 where
          l2: "set_next l1 (llast l1) (Some e) = Inr l2"
            "list_cells (l2\<lparr>llast := Some e, numInList := numInList l2 + 1\<rparr>) (as @ [e]) (xs @ [x])"
          by auto
        have "insert_before c x xs = xs @ [x]"
          using True False Cons by (auto intro: insert_before_all)
        with l2 w list_cells_in [OF l2(2), of x] show ?thesis
          using alloc notin first cy True False ne
          by (auto simp: SortedList_Insert_def list_repr_def)
      next
        case some: False
        with w False Cons show ?thesis
          using alloc notin first cy ne
          by (auto simp: SortedList_Insert_def list_repr_def simp del: insert_walk.simps)
      qed
    qed
  qed
qed

lemma Insert_dup:
  assumes "list_repr l xs" "x \<in> set xs"
  shows "SortedList_Insert cmp l x = Inl AssertFailed"
proof -
  from assms(1) obtain as where as: "list_cells l as xs" by (auto simp: list_repr_def)
  obtain a l1 where alloc: "ListElement_new l x = (a, l1)" by fastforce
  show ?thesis
    using alloc list_cells_in [OF list_cells_alloc(1) [OF as alloc], of x] assms(2)
    by (simp add: SortedList_Insert_def)
qed


subsection \<open>The checks of the code succeed\<close>

lemma count_walk_eq:
  assumes "path (cells l) p (as @ [b]) xs None" "distinct (as @ [b])" "llast l = Some b"
    "n + int (length as) \<le> numInList l" "length as \<le> k"
  shows "count_walk k l p n = Inr (n + int (length as))"
  using assms
proof (induction as arbitrary: p xs n k)
  case Nil
  then show ?case by (cases k) (auto simp: path_Cons1)
next
  case (Cons a as)
  then obtain y ys m j where
    m: "xs = y # ys" "p = Some a" "cells l a = Some \<lparr>item = y, nxt = m\<rparr>"
      "path (cells l) m (as @ [b]) ys None" "k = Suc j" "length as \<le> j"
    by (cases k) (auto simp: path_Cons1)
  from Cons.IH [OF m(4) _ Cons.prems(3) _ m(6), of "n + 1"] m Cons.prems show ?case by auto
qed

lemma List_SanityCheck_ok: "list_repr l xs \<Longrightarrow> List_SanityCheck l = Inr ()"
proof -
  assume "list_repr l xs"
  then obtain as where as: "list_cells l as xs" by (auto simp: list_repr_def)
  show ?thesis
  proof (cases "as = []")
    case True
    with as show ?thesis by (auto simp: List_SanityCheck_def list_cells_def)
  next
    case False
    from list_cells_snocD [OF as False] obtain bs b ys y where
      b: "as = bs @ [b]" "xs = ys @ [y]" "length bs = length ys"
        "cells l b = Some \<lparr>item = y, nxt = None\<rparr>" "llast l = Some b" "b < brk l" .
    have w: "count_walk (brk l) l (lfirst l) 1 = Inr (1 + int (length bs))"
      by (rule count_walk_eq) (use as b list_cells_bound [OF as] in \<open>auto simp: list_cells_def\<close>)
    have "lfirst l = Some (hd as)" using as b(1) by (cases bs) (auto simp: list_cells_def path_Cons1)
    moreover have "hd as = b \<longleftrightarrow> bs = []" using as b(1) by (cases bs) (auto simp: list_cells_def)
    ultimately show ?thesis
      using w b as by (auto simp: List_SanityCheck_def list_cells_def)
  qed
qed

text \<open>
  What a comparison function must satisfy for the list to stay sorted, and when it does not
  fault on a set of items.
\<close>

definition comparison :: "('a \<Rightarrow> 'a \<Rightarrow> int) \<Rightarrow> bool" where
  "comparison c \<longleftrightarrow> (\<forall>x y. c x y < 0 \<longleftrightarrow> 0 < c y x)
     \<and> (\<forall>x y z. c x y \<le> 0 \<longrightarrow> c y z \<le> 0 \<longrightarrow> c x z \<le> 0)"

definition compares :: "('a \<Rightarrow> 'a \<Rightarrow> int res) \<Rightarrow> ('a \<Rightarrow> 'a \<Rightarrow> int) \<Rightarrow> 'a set \<Rightarrow> bool" where
  "compares cmp c S \<longleftrightarrow> (\<forall>x\<in>S. \<forall>y\<in>S. cmp x y = Inr (c x y))"

definition in_order :: "('a \<Rightarrow> 'a \<Rightarrow> int) \<Rightarrow> 'a list \<Rightarrow> bool" where
  "in_order c xs \<longleftrightarrow> sorted_wrt (\<lambda>x y. c x y \<le> 0) xs"

lemma in_order_simps [simp]:
  "in_order c []"
  "in_order c (x # xs) \<longleftrightarrow> (\<forall>y\<in>set xs. c x y \<le> 0) \<and> in_order c xs"
  by (simp_all add: in_order_def)

lemma in_order_insert_before:
  assumes "comparison c" "in_order c xs"
  shows "in_order c (insert_before (c x) x xs)"
  using assms(2)
proof (induction xs)
  case Nil
  then show ?case by simp
next
  case (Cons y ys)
  have flip: "0 \<le> c x y \<Longrightarrow> c y x \<le> 0" using assms(1) unfolding comparison_def by (meson not_less)
  have trans: "c x y < 0 \<Longrightarrow> c y z \<le> 0 \<Longrightarrow> c x z \<le> 0" for z
    using assms(1) unfolding comparison_def by (meson less_imp_le)
  show ?case
  proof (cases "c x y < 0")
    case True
    then show ?thesis using Cons.prems trans by auto
  next
    case False
    then show ?thesis using Cons flip by simp
  qed
qed

lemma sorted_walk_ok:
  assumes "path h p as xs None" "length as \<le> k" "h b = Some \<lparr>item = y, nxt = p\<rparr>"
    "in_order c (y # xs)" "compares cmp c (insert y (set xs))"
  shows "sorted_walk k cmp h (Some b) p = Inr ()"
  using assms
proof (induction as arbitrary: p xs k b y)
  case Nil
  then show ?case by simp
next
  case (Cons a as)
  then obtain z zs m j where
    m: "xs = z # zs" "p = Some a" "h a = Some \<lparr>item = z, nxt = m\<rparr>" "path h m as zs None"
      "k = Suc j" "length as \<le> j"
    by (cases k) (auto simp: path_Cons1)
  have "sorted_walk j cmp h (Some a) m = Inr ()"
    by (rule Cons.IH [OF m(4,6,3)]) (use Cons.prems m in \<open>auto simp: compares_def\<close>)
  with m Cons.prems show ?case by (auto simp: compares_def)
qed

lemma SortedList_SanityCheck_ok:
  assumes "list_repr l xs" "in_order c xs" "compares cmp c (set xs)"
  shows "SortedList_SanityCheck cmp l = Inr ()"
proof -
  from assms(1) obtain as where as: "list_cells l as xs" by (auto simp: list_repr_def)
  show ?thesis
  proof (cases as)
    case Nil
    with as List_SanityCheck_ok [OF assms(1)] show ?thesis
      by (auto simp: SortedList_SanityCheck_def list_cells_def)
  next
    case (Cons a as')
    with as obtain x xs' m where m: "xs = x # xs'" "lfirst l = Some a"
      "cells l a = Some \<lparr>item = x, nxt = m\<rparr>" "path (cells l) m as' xs' None"
      by (auto simp: list_cells_def path_Cons1)
    have "sorted_walk (brk l) cmp (cells l) (Some a) m = Inr ()"
      by (rule sorted_walk_ok [OF m(4) _ m(3)])
         (use m assms list_cells_bound [OF as] Cons in auto)
    with m List_SanityCheck_ok [OF assms(1)] show ?thesis
      by (auto simp: SortedList_SanityCheck_def)
  qed
qed


subsection \<open>The interface of the queues\<close>

text \<open>
  Putting a whole sequence of items on a queue, and taking a number of them off again. What the
  clients rely on is the locale \<open>item_queue\<close>: \<open>place x xs\<close> is where a new item goes and \<open>adm\<close>
  the set of items the queue can handle. A list used with \<^verbatim>\<open>Append\<close> is a \<open>fifo\<close>, a sorted list
  an \<open>ordered_queue\<close>.
\<close>

definition feed :: "('q \<Rightarrow> 'a \<Rightarrow> 'q res) \<Rightarrow> 'a list \<Rightarrow> 'q \<Rightarrow> 'q res" where
  "feed put = eachR (\<lambda>x q. put q x)"

fun drain :: "('q \<Rightarrow> ('a \<times> 'q) res) \<Rightarrow> nat \<Rightarrow> 'q \<Rightarrow> ('a list \<times> 'q) res" where
  "drain deq 0 q = Inr ([], q)"
| "drain deq (Suc n) q =
     bindR (deq q) (\<lambda>(x, q). bindR (drain deq n q) (\<lambda>(xs, q). Inr (x # xs, q)))"

locale item_queue =
  fixes put :: "'q \<Rightarrow> 'a \<Rightarrow> 'q res"
    and deq :: "'q \<Rightarrow> ('a \<times> 'q) res"
    and isempty :: "'q \<Rightarrow> bool"
    and nil :: "'q"
    and repr :: "'q \<Rightarrow> 'a list \<Rightarrow> bool"
    and place :: "'a \<Rightarrow> 'a list \<Rightarrow> 'a list"
    and adm :: "'a set"
  assumes nil_repr: "repr nil []"
    and isempty_iff: "repr q xs \<Longrightarrow> isempty q \<longleftrightarrow> xs = []"
    and put_ok: "repr q xs \<Longrightarrow> x \<notin> set xs \<Longrightarrow> insert x (set xs) \<subseteq> adm \<Longrightarrow>
                   \<exists>q'. put q x = Inr q' \<and> repr q' (place x xs)"
    and deq_ok: "repr q (x # xs) \<Longrightarrow> \<exists>q'. deq q = Inr (x, q') \<and> repr q' xs"
    and mset_place: "mset (place x xs) = add_mset x (mset xs)"
begin

lemma set_place [simp]: "set (place x xs) = insert x (set xs)"
  using arg_cong [OF mset_place [of x xs], of set_mset] by simp

lemma length_place [simp]: "length (place x xs) = Suc (length xs)"
  using arg_cong [OF mset_place [of x xs], of size] by simp

lemma feed_ok:
  assumes "repr q xs" "distinct ys" "set xs \<inter> set ys = {}" "set xs \<union> set ys \<subseteq> adm"
  shows "\<exists>q'. feed put ys q = Inr q' \<and> repr q' (fold place ys xs)"
  using assms
proof (induction ys arbitrary: q xs)
  case Nil
  then show ?case by (simp add: feed_def)
next
  case (Cons y ys)
  then obtain q1 where q1: "put q y = Inr q1" "repr q1 (place y xs)"
    using put_ok [of q xs y] by auto
  have "\<exists>q'. feed put ys q1 = Inr q' \<and> repr q' (fold place ys (place y xs))"
    by (rule Cons.IH [OF q1(2)]) (use Cons.prems in auto)
  with q1 show ?case by (simp add: feed_def)
qed

lemma drain_ok:
  "repr q (xs @ ys) \<Longrightarrow> \<exists>q'. drain deq (length xs) q = Inr (xs, q') \<and> repr q' ys"
proof (induction xs arbitrary: q)
  case Nil
  then show ?case by simp
next
  case (Cons x xs)
  then obtain q1 where q1: "deq q = Inr (x, q1)" "repr q1 (xs @ ys)"
    using deq_ok [of q x "xs @ ys"] by auto
  with Cons.IH [OF q1(2)] show ?case by auto
qed

lemma length_fold_place: "length (fold place ys xs) = length xs + length ys"
  by (induction ys arbitrary: xs) auto

lemma mset_fold_place: "mset (fold place ys xs) = mset xs + mset ys"
  by (induction ys arbitrary: xs) (auto simp: mset_place)

lemma feed_drain:
  assumes "distinct ys" "set ys \<subseteq> adm"
  shows "\<exists>q' q''. feed put ys nil = Inr q' \<and> isempty q' = (ys = [])
     \<and> drain deq (length ys) q' = Inr (fold place ys [], q'') \<and> isempty q'' \<and> repr q'' []"
proof -
  from feed_ok [OF nil_repr assms(1)] assms(2) obtain q' where
    q': "feed put ys nil = Inr q'" "repr q' (fold place ys [])" by auto
  from drain_ok [of q' "fold place ys []" "[]"] q' obtain q'' where
    "drain deq (length ys) q' = Inr (fold place ys [], q'')" "repr q'' []"
    by (auto simp: length_fold_place)
  moreover have "isempty q' \<longleftrightarrow> length (fold place ys []) = 0"
    using isempty_iff [OF q'(2)] by simp
  ultimately show ?thesis using q' isempty_iff by (auto simp: length_fold_place)
qed

end

locale fifo = item_queue put deq isempty nil repr "\<lambda>x xs. xs @ [x]" adm
  for put :: "'q \<Rightarrow> 'a \<Rightarrow> 'q res" and deq isempty nil repr adm
begin

lemma fold_snoc: "fold (\<lambda>x xs. xs @ [x]) ys xs = xs @ ys"
  by (induction ys arbitrary: xs) auto

lemmas fifo_order = feed_drain [unfolded fold_snoc append_Nil]

end

locale ordered_queue = item_queue put deq isempty nil repr "\<lambda>x. insert_before (c x) x" adm
  for put :: "'q \<Rightarrow> 'a \<Rightarrow> 'q res" and deq isempty nil repr and c :: "'a \<Rightarrow> 'a \<Rightarrow> int" and adm +
  assumes comparison_c: "comparison c"
begin

lemma in_order_fold: "in_order c xs \<Longrightarrow> in_order c (fold (\<lambda>x. insert_before (c x) x) ys xs)"
  by (induction ys arbitrary: xs) (auto simp: in_order_insert_before [OF comparison_c])

lemma drained_in_order:
  assumes "distinct ys" "set ys \<subseteq> adm"
  shows "\<exists>q' zs q''. feed put ys nil = Inr q' \<and> drain deq (length ys) q' = Inr (zs, q'')
     \<and> in_order c zs \<and> mset zs = mset ys \<and> isempty q''"
  using feed_drain [OF assms] in_order_fold [of "[]" ys] mset_fold_place [of ys "[]"] by auto

end

lemma mset_insert_before: "mset (insert_before c x xs) = add_mset x (mset xs)"
  by (induction xs) auto

interpretation list_fifo: fifo List_Append List_RemoveFront List_IsEmpty List_new list_repr UNIV
  by unfold_locales (auto simp: list_repr_new list_repr_empty Append_ok RemoveFront_ok)

text \<open>
  A sorted list with a total comparison is an ordered queue: one interpretation covers every
  comparison the system uses.
\<close>

lemma SortedList_ordered_queue:
  assumes "comparison c" "compares cmp c A"
  shows "ordered_queue (SortedList_Insert cmp) List_RemoveFront List_IsEmpty List_new list_repr c A"
proof unfold_locales
  fix q xs x
  assume "list_repr q xs" "x \<notin> set xs" "insert x (set xs) \<subseteq> A"
  then show "\<exists>q'. SortedList_Insert cmp q x = Inr q' \<and> list_repr q' (insert_before (c x) x xs)"
    using assms(2) by (intro Insert_ok) (auto simp: compares_def)
qed (use assms(1) in \<open>auto simp: list_repr_new list_repr_empty RemoveFront_ok mset_insert_before\<close>)


subsection \<open>The self tests pass\<close>

lemma remove_rounds_ok:
  assumes "list_repr l xs" "distinct ys" "set ys = set xs"
  shows "\<exists>l'. eachR remove_round ys l = Inr l' \<and> list_repr l' []"
  using assms
proof (induction ys arbitrary: l xs)
  case Nil
  then show ?case by simp
next
  case (Cons y ys)
  then obtain l1 where l1: "List_Remove l y = Inr l1" "list_repr l1 (remove1 y xs)"
    using Remove_ok [of l xs y] by auto
  have "set (remove1 y xs) = set ys"
    using Cons.prems list_repr_distinct [of l xs] by auto
  with Cons.IH [OF l1(2)] Cons.prems l1 list_repr_in [OF l1(2), of y] show ?case
    by (auto simp: remove_round_def)
qed

lemma List_SelfTest_generic:
  assumes "list_repr l []" "distinct p" "good []"
    and put: "\<And>l xs x. list_repr l xs \<Longrightarrow> good xs \<Longrightarrow> x \<in> set p - set xs \<Longrightarrow> set xs \<subseteq> set p \<Longrightarrow>
          \<exists>l'. app l x = Inr l' \<and> list_repr l' (place x xs) \<and> good (place x xs)"
    and pl: "\<And>x xs. set (place x xs) = insert x (set xs)"
    and sane: "\<And>l xs. list_repr l xs \<Longrightarrow> good xs \<Longrightarrow> set xs \<subseteq> set p \<Longrightarrow> sane l = Inr ()"
  shows "\<exists>l'. List_SelfTest app sane p l = Inr l' \<and> list_repr l' []"
proof -
  let ?P = "\<lambda>ys t. \<exists>xs. list_repr t xs \<and> good xs \<and> set xs = set ys"
  have "\<exists>t. eachR (append_round app) p l = Inr t \<and> ?P p t"
  proof (rule eachR_invariant)
    show "?P [] l" using assms(1,3) by auto
    fix ys y t
    assume y: "\<exists>zs. p = ys @ y # zs" "?P ys t"
    then obtain xs where xs: "list_repr t xs" "good xs" "set xs = set ys" by auto
    have "y \<in> set p - set xs" "set xs \<subseteq> set p" using y(1) xs(3) assms(2) by auto
    from put [OF xs(1,2) this] obtain t' where
      t': "app t y = Inr t'" "list_repr t' (place y xs)" "good (place y xs)" by auto
    have "\<not> List_IsEmpty t'" using list_repr_empty [OF t'(2)] pl [of y xs] by auto
    with t' xs list_repr_in [OF t'(2), of y] show "\<exists>t'. append_round app y t = Inr t' \<and> ?P (ys @ [y]) t'"
      by (auto simp: append_round_def pl)
  qed
  then obtain t xs where t: "eachR (append_round app) p l = Inr t"
    "list_repr t xs" "good xs" "set xs = set p" by auto
  from remove_rounds_ok [OF t(2) assms(2)] t(4) obtain t' where
    t': "eachR remove_round p t = Inr t'" "list_repr t' []" by auto
  have "lfirst l = None" using assms(1) by (auto simp: list_repr_def list_cells_def)
  then show ?thesis
    using t t' list_repr_empty [OF t'(2)] list_repr_empty [OF assms(1)]
      sane [OF assms(1,3)] sane [OF t(2,3)] sane [OF t'(2) assms(3)]
    by (auto simp: List_SelfTest_def ListIterator_IsDone_def ListIterator_new_def)
qed

lemma List_SelfTest_ok:
  "list_repr l [] \<Longrightarrow> distinct p \<Longrightarrow>
   \<exists>l'. List_SelfTest List_Append List_SanityCheck p l = Inr l' \<and> list_repr l' []"
  by (rule List_SelfTest_generic [where good = "\<lambda>_. True" and place = "\<lambda>x xs. xs @ [x]"])
     (auto simp: List_SanityCheck_ok Append_ok)

lemma sorted_insert_step:
  assumes "comparison c" "compares cmp c (set p)" "list_repr l xs" "in_order c xs"
    "x \<in> set p - set xs" "set xs \<subseteq> set p"
  shows "\<exists>l'. SortedList_Insert cmp l x = Inr l' \<and> list_repr l' (insert_before (c x) x xs)
           \<and> in_order c (insert_before (c x) x xs)"
  using assms Insert_ok [of l xs x cmp "c x"] in_order_insert_before [of c xs x]
  by (auto simp: compares_def subset_eq)

lemma front_rounds_ok:
  "list_repr l xs \<Longrightarrow> \<exists>l'. front_rounds (length xs) l = Inr (xs, l') \<and> list_repr l' []"
proof (induction xs arbitrary: l)
  case Nil
  then show ?case by simp
next
  case (Cons x xs)
  from RemoveFront_ok [OF Cons.prems] obtain l1 where
    l1: "List_RemoveFront l = Inr (x, l1)" "list_repr l1 xs" by auto
  with Cons.IH [OF l1(2)] list_repr_in [OF l1(2), of x] list_repr_distinct [OF Cons.prems]
  show ?case by auto
qed

lemma order_rounds_ok:
  "in_order c xs \<Longrightarrow> compares cmp c (set xs) \<Longrightarrow> order_rounds cmp xs = Inr ()"
  by (induction cmp xs rule: order_rounds.induct) (auto simp: compares_def)

lemma SortedList_SelfTest_ok:
  assumes "list_repr l []" "distinct p" "comparison c" "compares cmp c (set p)"
  shows "\<exists>l'. SortedList_SelfTest cmp p l = Inr l' \<and> list_repr l' []"
proof -
  have sane: "SortedList_SanityCheck cmp l = Inr ()"
    if "list_repr l xs" "in_order c xs" "set xs \<subseteq> set p" for l xs
    by (rule SortedList_SanityCheck_ok [OF that(1,2)]) (use assms(4) that(3) in \<open>auto simp: compares_def\<close>)
  have "\<exists>l'. List_SelfTest (SortedList_Insert cmp) (SortedList_SanityCheck cmp) p l = Inr l'
          \<and> list_repr l' []"
    by (rule List_SelfTest_generic [where good = "in_order c" and place = "\<lambda>x. insert_before (c x) x"])
       (use assms sane in \<open>auto intro: sorted_insert_step [OF assms(3,4)]\<close>)
  then obtain l1 where l1: "List_SelfTest (SortedList_Insert cmp) (SortedList_SanityCheck cmp) p l = Inr l1"
    "list_repr l1 []" by auto
  let ?P = "\<lambda>ys t. \<exists>xs. list_repr t xs \<and> in_order c xs \<and> mset xs = mset ys"
  have "\<exists>t. eachR (insert_round cmp) p l1 = Inr t \<and> ?P p t"
  proof (rule eachR_invariant)
    show "?P [] l1" using l1 by auto
    fix ys y t
    assume y: "\<exists>zs. p = ys @ y # zs" "?P ys t"
    then obtain xs where xs: "list_repr t xs" "in_order c xs" "mset xs = mset ys" by auto
    then have "set xs = set ys" by (metis set_mset_mset)
    then have "y \<in> set p - set xs" "set xs \<subseteq> set p" using y(1) assms(2) by auto
    from sorted_insert_step [OF assms(3,4) xs(1,2) this] obtain t' where
      t': "SortedList_Insert cmp t y = Inr t'" "list_repr t' (insert_before (c y) y xs)"
        "in_order c (insert_before (c y) y xs)" by auto
    with xs list_repr_in [OF t'(2), of y]
    show "\<exists>t'. insert_round cmp y t = Inr t' \<and> ?P (ys @ [y]) t'"
      by (auto simp: insert_round_def mset_insert_before intro!: exI [of _ "insert_before (c y) y xs"])
  qed
  then obtain t xs where t: "eachR (insert_round cmp) p l1 = Inr t" "list_repr t xs"
    "in_order c xs" "mset xs = mset p" by auto
  have xs: "length xs = length p" "set xs = set p"
    using t(4) by (metis size_mset) (metis t(4) set_mset_mset)
  from front_rounds_ok [OF t(2)] xs obtain t' where
    t': "front_rounds (length p) t = Inr (xs, t')" "list_repr t' []" by auto
  have "order_rounds cmp xs = Inr ()"
    by (rule order_rounds_ok [OF t(3)]) (use assms(4) xs in auto)
  then show ?thesis
    using l1 t t' xs sane [OF t(2,3)] sane [OF t'(2)] list_repr_empty [OF t'(2)]
    by (auto simp: SortedList_SelfTest_def)
qed

subsection \<open>Properties\<close>

text \<open>Items of the same rank come out in the order in which they were put in.\<close>

abbreviation same_rank :: "('a \<Rightarrow> 'a \<Rightarrow> int) \<Rightarrow> 'a \<Rightarrow> 'a list \<Rightarrow> 'a list" where
  "same_rank c y zs \<equiv> filter (\<lambda>z. c y z = 0) zs"

lemma comparison_strict:
  assumes "comparison c" "c x h < 0" "c h z \<le> 0" "c y x = 0"
  shows "c y z \<noteq> 0"
proof
  assume "c y z = 0"
  have flip: "\<And>a b. c a b = 0 \<Longrightarrow> c b a \<le> 0" and trans: "\<And>a b d. c a b \<le> 0 \<Longrightarrow> c b d \<le> 0 \<Longrightarrow> c a d \<le> 0"
    using assms(1) unfolding comparison_def by (metis less_irrefl not_less, meson)
  have "c z y \<le> 0" by (rule flip [OF \<open>c y z = 0\<close>])
  then have "c z x \<le> 0" using assms(4) by (intro trans [of z y x]) simp_all
  then have "c h x \<le> 0" by (rule trans [OF assms(3)])
  moreover have "0 < c h x" using assms(1,2) unfolding comparison_def by blast
  ultimately show False by simp
qed

lemma same_rank_insert:
  assumes "comparison c" "in_order c xs"
  shows "same_rank c y (insert_before (c x) x xs) = same_rank c y xs @ (if c y x = 0 then [x] else [])"
  using assms(2)
proof (induction xs)
  case (Cons z zs)
  show ?case
  proof (cases "c x z < 0 \<and> c y x = 0")
    case True
    then have "c x z < 0" "c y x = 0" by auto
    have "c z z \<le> 0" using assms(1) unfolding comparison_def by (meson less_irrefl not_less order.asym)
    then have "\<forall>w\<in>set (z # zs). c y w \<noteq> 0"
      using comparison_strict [OF assms(1) \<open>c x z < 0\<close> _ \<open>c y x = 0\<close>] Cons.prems by auto
    then show ?thesis using True by (simp add: filter_empty_conv [THEN iffD2])
  next
    case False
    then show ?thesis using Cons by auto
  qed
qed simp

lemma same_rank_fold:
  assumes "comparison c" "in_order c xs"
  shows "same_rank c y (fold (\<lambda>x. insert_before (c x) x) ys xs) = same_rank c y xs @ same_rank c y ys"
  using assms(2)
proof (induction ys arbitrary: xs)
  case (Cons x ys)
  then show ?case
    using same_rank_insert [OF assms(1) Cons.prems, of y x] in_order_insert_before [OF assms(1) Cons.prems, of x]
    by simp
qed simp

text \<open>
  a sorted list hands out what was inserted in the order of its comparison function, items
  that compare equal in the order of insertion, and nothing is lost or duplicated.
\<close>

theorem SortedList_orders:
  assumes "comparison c" "compares cmp c (set ys)" "distinct ys"
  shows "\<exists>q zs q'. feed (SortedList_Insert cmp) ys List_new = Inr q
     \<and> drain List_RemoveFront (length ys) q = Inr (zs, q') \<and> List_IsEmpty q'
     \<and> in_order c zs \<and> mset zs = mset ys \<and> (\<forall>y. same_rank c y zs = same_rank c y ys)"
proof -
  note queue = SortedList_ordered_queue [OF assms(1,2)]
  let ?zs = "fold (\<lambda>x. insert_before (c x) x) ys []"
  from item_queue.feed_drain [OF ordered_queue.axioms(1) [OF queue] assms(3) subset_refl]
  obtain q q' where q: "feed (SortedList_Insert cmp) ys List_new = Inr q"
    "drain List_RemoveFront (length ys) q = Inr (?zs, q')" "List_IsEmpty q'" by blast
  moreover have "in_order c ?zs" using ordered_queue.in_order_fold [OF queue, of "[]" ys] by simp
  moreover have "mset ?zs = mset ys"
    using item_queue.mset_fold_place [OF ordered_queue.axioms(1) [OF queue], of ys "[]"] by simp
  moreover have "\<forall>y. same_rank c y ?zs = same_rank c y ys"
    using same_rank_fold [OF assms(1), of "[]"] by simp
  ultimately show ?thesis by blast
qed

text \<open>
  A list is a queue: what is appended comes out of \<^verbatim>\<open>RemoveFront\<close> in the same order.
\<close>

theorem List_fifo:
  assumes "distinct ys"
  shows "\<exists>q q'. feed List_Append ys List_new = Inr q
     \<and> drain List_RemoveFront (length ys) q = Inr (ys, q') \<and> List_IsEmpty q'"
  using list_fifo.fifo_order [OF assms] by auto

lemma List_fifo_witness:
  "\<exists>q q'. feed List_Append [3, 1, 2 :: nat] List_new = Inr q
     \<and> drain List_RemoveFront (length [3, 1, 2 :: nat]) q = Inr ([3, 1, 2], q') \<and> List_IsEmpty q'"
  by (rule List_fifo) simp

text \<open>
  The self test of the sorted list passes on every array of different items, for every
  comparison function that orders them, and leaves the list empty.
\<close>

theorem SortedList_SelfTest_passes:
  assumes "distinct p" "comparison c" "compares cmp c (set p)"
  shows "\<exists>l'. SortedList_SelfTest cmp p List_new = Inr l' \<and> list_repr l' []"
  by (rule SortedList_SelfTest_ok [OF list_repr_new assms])

definition int_compare :: "int \<Rightarrow> int \<Rightarrow> int" where
  "int_compare x y = (if x < y then - 1 else if x = y then 0 else 1)"

lemma int_compare_ok: "comparison int_compare" "compares (\<lambda>x y. Inr (int_compare x y)) int_compare S"
  by (auto simp: comparison_def compares_def int_compare_def split: if_splits)

lemma SortedList_SelfTest_passes_witness:
  "\<exists>l'. SortedList_SelfTest (\<lambda>x y. Inr (int_compare x y)) [9, 5, 7] List_new = Inr l' \<and> list_repr l' []"
  by (rule SortedList_SelfTest_passes [OF _ int_compare_ok]) simp

lemma SortedList_orders_witness:
  "\<exists>q zs q'. feed (SortedList_Insert (\<lambda>x y. Inr (int_compare x y))) [9, 5, 7] List_new = Inr q
     \<and> drain List_RemoveFront (length [9, 5, 7::int]) q = Inr (zs, q') \<and> List_IsEmpty q'
     \<and> in_order int_compare zs \<and> mset zs = mset [9, 5, 7]
     \<and> (\<forall>y. same_rank int_compare y zs = same_rank int_compare y [9, 5, 7])"
  by (rule SortedList_orders [OF int_compare_ok]) simp

end
