(* ===== verification/Hashes.thy ===== *)
theory Hashes
  imports Lists
begin

text \<open>
  \<^verbatim>\<open>lib/hash.cc\<close>: a hash table of buckets, each a list of theory \<open>Lists\<close>, that grows by itself. The function
  that gives an item's key and the hash function come with the table, as arguments here. The lemmas show
  that the table implements a finite map through all its growth, and that its assertions fail exactly on a key that is there
  already or is not there.
\<close>

subsection \<open>The table\<close>

definition InitialBuckets :: int where "InitialBuckets = 4"
definition ResizeRatio :: int where "ResizeRatio = 3"
definition IncreaseSizeBy :: int where "IncreaseSizeBy = 4"

record 'a HashTable =
  buckets :: "'a List list"
  numBuckets :: int
  numItems :: int

definition InitBuckets :: "int \<Rightarrow> 'a HashTable \<Rightarrow> 'a HashTable" where
  "InitBuckets sz t = t\<lparr>numBuckets := sz, buckets := replicate (nat sz) List_new\<rparr>"

definition HashTable_new :: "'a HashTable" where
  "HashTable_new = InitBuckets InitialBuckets \<lparr>buckets = [], numBuckets = 0, numItems = 0\<rparr>"

definition HashTable_IsEmpty :: "'a HashTable \<Rightarrow> bool" where
  "HashTable_IsEmpty t \<longleftrightarrow> numItems t = 0"

definition HashTable_delete :: "'a HashTable \<Rightarrow> unit res" where
  "HashTable_delete t = assertR (HashTable_IsEmpty t) (Inr ())"

text \<open>The remainder of an \<^verbatim>\<open>unsigned\<close> by an \<^verbatim>\<open>int\<close> is unsigned; it is stored in an \<^verbatim>\<open>int\<close>.\<close>

definition HashValue :: "('k \<Rightarrow> 32 word) \<Rightarrow> 'a HashTable \<Rightarrow> 'k \<Rightarrow> int res" where
  "HashValue hash t key =
     (if numBuckets t mod 2 ^ 32 = 0 then Inl DivideTrap
      else let result = sint (hash key mod word_of_int (numBuckets t))
        in assertR (0 \<le> result \<and> result < numBuckets t) (Inr result))"

text \<open>\<^verbatim>\<open>buckets[i]\<close>, and what is done to the list there.\<close>

definition bucket_at :: "'a HashTable \<Rightarrow> int \<Rightarrow> 'a List res" where
  "bucket_at t i = inboundsR i (int (length (buckets t))) (Inr (buckets t ! nat i))"

definition set_bucket :: "int \<Rightarrow> 'a List \<Rightarrow> 'a HashTable \<Rightarrow> 'a HashTable" where
  "set_bucket i l t = t\<lparr>buckets := (buckets t)[nat i := l]\<rparr>"

text \<open>\<open>None\<close> is the \<^verbatim>\<open>FALSE\<close> of a key that is not found.\<close>

fun find_walk :: "('a \<Rightarrow> 'k) \<Rightarrow> 'k \<Rightarrow> nat \<Rightarrow> 'a heap \<Rightarrow> nat option \<Rightarrow> 'a option res" where
  "find_walk getKey key k h None = Inr None"
| "find_walk getKey key 0 h (Some a) = Inl NoReturn"
| "find_walk getKey key (Suc k) h (Some a) =
     bindR (deref h (Some a)) (\<lambda>c. if key = getKey (item c) then Inr (Some (item c)) else find_walk getKey key k h (nxt c))"

definition FindInBucket :: "('a \<Rightarrow> 'k) \<Rightarrow> 'a HashTable \<Rightarrow> int \<Rightarrow> 'k \<Rightarrow> 'a option res" where
  "FindInBucket getKey t bucket key =
     bindR (bucket_at t bucket) (\<lambda>l. find_walk getKey key (brk l) (cells l) (lfirst l))"

definition HashTable_Find :: "('a \<Rightarrow> 'k) \<Rightarrow> ('k \<Rightarrow> 32 word) \<Rightarrow> 'a HashTable \<Rightarrow> 'k \<Rightarrow> 'a option res" where
  "HashTable_Find getKey hash t key = bindR (HashValue hash t key) (\<lambda>bucket. FindInBucket getKey t bucket key)"

definition IsInTable :: "('a \<Rightarrow> 'k) \<Rightarrow> ('k \<Rightarrow> 32 word) \<Rightarrow> 'a HashTable \<Rightarrow> 'k \<Rightarrow> bool res" where
  "IsInTable getKey hash t key = bindR (HashTable_Find getKey hash t key) (\<lambda>r. Inr (r \<noteq> None))"

definition append_to :: "('a \<Rightarrow> 'k) \<Rightarrow> ('k \<Rightarrow> 32 word) \<Rightarrow> 'a \<Rightarrow> 'a HashTable \<Rightarrow> 'a HashTable res" where
  "append_to getKey hash x t =
     bindR (HashValue hash t (getKey x)) (\<lambda>i. bindR (bucket_at t i) (\<lambda>l. bindR (List_Append l x) (\<lambda>l. Inr (set_bucket i l t))))"

definition check_bucket :: "('a \<Rightarrow> 'k) \<Rightarrow> ('k \<Rightarrow> 32 word) \<Rightarrow> 'a HashTable \<Rightarrow> nat \<Rightarrow> int \<Rightarrow> int res" where
  "check_bucket getKey hash t i numFound =
     bindR (bucket_at t (int i)) (\<lambda>l. bindR (List_SanityCheck l) (\<lambda>_. bindR (addR numFound (numInList l)) (\<lambda>numFound.
     bindR (items_from (brk l) (cells l) (lfirst l)) (\<lambda>xs.
     bindR (eachR (\<lambda>x _. bindR (HashValue hash t (getKey x)) (\<lambda>j. assertR (int i = j) (Inr ()))) xs ()) (\<lambda>_.
       Inr numFound)))))"

definition HashTable_SanityCheck :: "('a \<Rightarrow> 'k) \<Rightarrow> ('k \<Rightarrow> 32 word) \<Rightarrow> 'a HashTable \<Rightarrow> unit res" where
  "HashTable_SanityCheck getKey hash t =
     bindR (forR (nat (numBuckets t)) 0 (check_bucket getKey hash t) 0) (\<lambda>numFound.
       assertR (numItems t = numFound) (Inr ()))"

text \<open>
  The loop \<^verbatim>\<open>while (!oldTable[i]->IsEmpty())\<close>, given as many rounds as the list counts items.
\<close>

fun move_items :: "('a \<Rightarrow> 'k) \<Rightarrow> ('k \<Rightarrow> 32 word) \<Rightarrow> nat \<Rightarrow> 'a List \<Rightarrow> 'a HashTable \<Rightarrow> 'a HashTable res" where
  "move_items getKey hash k l t =
     (if List_IsEmpty l then Inr t
      else case k of 0 \<Rightarrow> Inl NoReturn
           | Suc k \<Rightarrow> bindR (List_RemoveFront l) (\<lambda>(x, l). bindR (append_to getKey hash x t) (move_items getKey hash k l)))"

declare move_items.simps [simp del]

definition HashTable_ReHash :: "('a \<Rightarrow> 'k) \<Rightarrow> ('k \<Rightarrow> 32 word) \<Rightarrow> 'a HashTable \<Rightarrow> 'a HashTable res" where
  "HashTable_ReHash getKey hash t =
     bindR (HashTable_SanityCheck getKey hash t) (\<lambda>_.
     if \<not> int_fits (numBuckets t * IncreaseSizeBy) then Inl SignedOverflow
     else bindR (eachR (\<lambda>l. move_items getKey hash (nat (numInList l)) l) (buckets t) (InitBuckets (numBuckets t * IncreaseSizeBy) t)) (\<lambda>t.
       bindR (HashTable_SanityCheck getKey hash t) (\<lambda>_. Inr t)))"

definition HashTable_Insert :: "('a \<Rightarrow> 'k) \<Rightarrow> ('k \<Rightarrow> 32 word) \<Rightarrow> 'a \<Rightarrow> 'a HashTable \<Rightarrow> 'a HashTable res" where
  "HashTable_Insert getKey hash x t =
     bindR (IsInTable getKey hash t (getKey x)) (\<lambda>b. assertR (\<not> b)
      (if numBuckets t = 0 then Inl DivideTrap
       else bindR (if numItems t sdiv numBuckets t \<ge> ResizeRatio then HashTable_ReHash getKey hash t else Inr t) (\<lambda>t.
         bindR (append_to getKey hash x t) (\<lambda>t.
         bindR (addR (numItems t) 1) (\<lambda>n. let t = t\<lparr>numItems := n\<rparr> in
         bindR (IsInTable getKey hash t (getKey x)) (\<lambda>b. assertR b (Inr t)))))))"

definition HashTable_Remove :: "('a \<Rightarrow> 'k) \<Rightarrow> ('k \<Rightarrow> 32 word) \<Rightarrow> 'k \<Rightarrow> 'a HashTable \<Rightarrow> ('a \<times> 'a HashTable) res" where
  "HashTable_Remove getKey hash key t =
     bindR (HashValue hash t key) (\<lambda>bucket. bindR (FindInBucket getKey t bucket key) (\<lambda>r.
       case r of None \<Rightarrow> Inl AssertFailed
       | Some x \<Rightarrow> bindR (bucket_at t bucket) (\<lambda>l. bindR (List_Remove l x) (\<lambda>l.
           let t = (set_bucket bucket l t)\<lparr>numItems := numItems t - 1\<rparr> in
           bindR (IsInTable getKey hash t key) (\<lambda>b. assertR (\<not> b) (Inr (x, t)))))))"

text \<open>\<^verbatim>\<open>Apply\<close>: the items in the order in which the function is called on them.\<close>

definition HashTable_Apply :: "('a \<Rightarrow> 's \<Rightarrow> 's) \<Rightarrow> 'a HashTable \<Rightarrow> 's \<Rightarrow> 's res" where
  "HashTable_Apply func t s =
     forR (nat (numBuckets t)) 0 (\<lambda>i s. bindR (bucket_at t (int i)) (\<lambda>l. List_Apply l func s)) s"

subsection \<open>What a table stands for\<close>

definition bucket_of :: "('k \<Rightarrow> 32 word) \<Rightarrow> nat \<Rightarrow> 'k \<Rightarrow> nat" where
  "bucket_of hash n key = unat (hash key) mod n"

definition table_repr :: "('a \<Rightarrow> 'k) \<Rightarrow> ('k \<Rightarrow> 32 word) \<Rightarrow> 'a HashTable \<Rightarrow> 'a list list \<Rightarrow> bool" where
  "table_repr getKey hash t xss \<longleftrightarrow> list_all2 list_repr (buckets t) xss \<and> numBuckets t = int (length xss) \<and> xss \<noteq> []
     \<and> int_fits (int (length xss)) \<and> (\<forall>i<length xss. \<forall>x\<in>set (xss ! i). bucket_of hash (length xss) (getKey x) = i)
     \<and> (\<forall>i<length xss. distinct (map getKey (xss ! i)))"

definition table_map :: "('a \<Rightarrow> 'k) \<Rightarrow> ('k \<Rightarrow> 32 word) \<Rightarrow> 'a list list \<Rightarrow> 'k \<rightharpoonup> 'a" where
  "table_map getKey hash xss k = find (\<lambda>x. getKey x = k) (xss ! bucket_of hash (length xss) k)"

definition size_of :: "'a list list \<Rightarrow> nat" where
  "size_of xss = sum_list (map length xss)"

definition table_ok :: "('a \<Rightarrow> 'k) \<Rightarrow> ('k \<Rightarrow> 32 word) \<Rightarrow> 'a HashTable \<Rightarrow> 'a list list \<Rightarrow> bool" where
  "table_ok getKey hash t xss \<longleftrightarrow> table_repr getKey hash t xss \<and> numItems t = int (size_of xss) \<and> int_fits (numItems t)"

lemma table_reprD:
  assumes "table_repr getKey hash t xss"
  shows "numBuckets t = int (length xss)" "length (buckets t) = length xss" "0 < length xss" "int_fits (int (length xss))"
    "\<And>i. i < length xss \<Longrightarrow> list_repr (buckets t ! i) (xss ! i)"
    "\<And>i x. i < length xss \<Longrightarrow> x \<in> set (xss ! i) \<Longrightarrow> bucket_of hash (length xss) (getKey x) = i"
    "\<And>i. i < length xss \<Longrightarrow> distinct (map getKey (xss ! i))"
  using assms by (auto simp: table_repr_def list_all2_conv_all_nth)

lemma bucket_of_less: "0 < n \<Longrightarrow> bucket_of hash n k < n"
  by (simp add: bucket_of_def)

lemma HashValue_eq:
  assumes "numBuckets t = int n" "0 < n" "int_fits (int n)"
  shows "HashValue hash t key = Inr (int (bucket_of hash n key))"
proof -
  have n: "n < 2 ^ 31" using assms(3) by (simp add: int_fits_def)
  then have u: "unat (of_nat n :: 32 word) = n" by (simp add: unat_of_nat)
  have b: "unat (hash key mod of_nat n) = bucket_of hash n key" by (simp add: unat_mod_distrib u bucket_of_def)
  moreover have "bucket_of hash n key < n" by (rule bucket_of_less [OF assms(2)])
  ultimately have s: "sint (hash key mod of_nat n) = int (bucket_of hash n key)"
    using n b by (simp add: sint_small_unat)
  have "int n mod 2 ^ 32 = int n" using n by (intro mod_pos_pos_trivial) simp_all
  then show ?thesis using assms(1,2) s \<open>bucket_of hash n key < n\<close> by (simp add: HashValue_def)
qed

lemma HashValue_repr: "table_repr getKey hash t xss \<Longrightarrow> HashValue hash t key = Inr (int (bucket_of hash (length xss) key))"
  using table_reprD [of getKey hash t xss] by (intro HashValue_eq)

lemma bucket_at_eq: "i < length (buckets t) \<Longrightarrow> bucket_at t (int i) = Inr (buckets t ! i)"
  by (simp add: bucket_at_def)

lemma find_walk_eq:
  "path h p as xs None \<Longrightarrow> length as \<le> k \<Longrightarrow> find_walk getKey key k h p = Inr (find (\<lambda>x. getKey x = key) xs)"
proof (induction as arbitrary: p k xs)
  case Nil
  then show ?case by (cases k) auto
next
  case (Cons a as)
  then obtain y ys n j where "xs = y # ys" "p = Some a" "h a = Some \<lparr>item = y, nxt = n\<rparr>" "path h n as ys None" "k = Suc j"
    by (cases xs; cases k) auto
  with Cons show ?case by auto
qed

lemma FindInBucket_eq:
  assumes "table_repr getKey hash t xss" "i < length xss"
  shows "FindInBucket getKey t (int i) key = Inr (find (\<lambda>x. getKey x = key) (xss ! i))"
proof -
  note t = table_reprD [OF assms(1)]
  let ?l = "buckets t ! i"
  from t(5) [OF assms(2)] obtain as where as: "list_cells ?l as (xss ! i)" by (auto simp: list_repr_def)
  then have "path (cells ?l) (lfirst ?l) as (xss ! i) None" by (simp add: list_cells_def)
  from find_walk_eq [OF this list_cells_bound [OF as]] show ?thesis
    using assms(2) t(2) by (simp add: FindInBucket_def bucket_at_eq)
qed

lemma hash_Find_eq: "table_repr getKey hash t xss \<Longrightarrow> HashTable_Find getKey hash t key = Inr (table_map getKey hash xss key)"
  using table_reprD(3) [of getKey hash t xss]
  by (simp add: HashTable_Find_def HashValue_repr FindInBucket_eq bucket_of_less table_map_def)

lemma IsInTable_eq: "table_repr getKey hash t xss \<Longrightarrow> IsInTable getKey hash t key = Inr (table_map getKey hash xss key \<noteq> None)"
  by (simp add: IsInTable_def hash_Find_eq)

subsection \<open>Keys and items\<close>

text \<open>The first item of a list with a key.\<close>

definition keyed :: "('a \<Rightarrow> 'k) \<Rightarrow> 'a list \<Rightarrow> 'k \<rightharpoonup> 'a" where
  "keyed getKey xs k = find (\<lambda>x. getKey x = k) xs"

lemma keyed_Nil [simp]: "keyed getKey [] k = None"
  by (simp add: keyed_def)

lemma keyed_append: "keyed getKey (xs @ ys) k = (case keyed getKey xs k of None \<Rightarrow> keyed getKey ys k | Some x \<Rightarrow> Some x)"
  by (induction xs) (auto simp: keyed_def)

lemma keyed_Cons: "keyed getKey (x # xs) k = (if getKey x = k then Some x else keyed getKey xs k)"
  by (simp add: keyed_def)

lemma keyed_None: "keyed getKey xs k = None \<longleftrightarrow> k \<notin> getKey ` set xs"
  by (auto simp: keyed_def find_None_iff)

lemma keyed_Some: "keyed getKey xs k = Some x \<Longrightarrow> x \<in> set xs \<and> getKey x = k"
  by (auto simp: keyed_def find_Some_iff)

lemma keyed_snoc: "keyed getKey xs (getKey x) = None \<Longrightarrow> keyed getKey (xs @ [x]) = (keyed getKey xs)(getKey x \<mapsto> x)"
  by (auto simp: keyed_append keyed_Cons fun_eq_iff split: option.splits)

lemma keyed_remove1:
  "distinct (map getKey xs) \<Longrightarrow> x \<in> set xs \<Longrightarrow> keyed getKey (remove1 x xs) = (keyed getKey xs)(getKey x := None)"
proof (induction xs)
  case (Cons y ys)
  show ?case
  proof (cases "x = y")
    case True
    with Cons.prems have "keyed getKey ys (getKey x) = None" by (simp add: keyed_None)
    with True show ?thesis by (auto simp: keyed_Cons fun_eq_iff)
  next
    case False
    with Cons show ?thesis by (auto simp: keyed_Cons fun_eq_iff)
  qed
qed simp

lemma table_map_keyed: "table_map getKey hash xss k = keyed getKey (xss ! bucket_of hash (length xss) k) k"
  by (simp add: table_map_def keyed_def)

lemma size_of_update: "i < length xss \<Longrightarrow> size_of (xss[i := ys]) + length (xss ! i) = size_of xss + length ys"
proof -
  assume i: "i < length xss"
  then have "xss = take i xss @ xss ! i # drop (Suc i) xss" by (simp add: id_take_nth_drop)
  then have "size_of xss = size_of (take i xss @ xss ! i # drop (Suc i) xss)" by simp
  with i show ?thesis by (simp add: size_of_def upd_conv_take_nth_drop)
qed

lemma in_concat_nth: "y \<in> set (concat yss) \<Longrightarrow> \<exists>j<length yss. y \<in> set (yss ! j)"
  by (metis UN_E in_set_conv_nth set_concat)

text \<open>In a table all items of a key are in one bucket.\<close>

lemma keyed_concat:
  assumes "\<forall>i<length xss. \<forall>x\<in>set (xss ! i). f (getKey x) = i" "f k < length xss"
  shows "keyed getKey (concat xss) k = keyed getKey (xss ! f k) k"
proof -
  let ?l = "concat (take (f k) xss)" and ?r = "concat (drop (Suc (f k)) xss)"
  have "xss = take (f k) xss @ xss ! f k # drop (Suc (f k)) xss" using assms(2) by (simp add: id_take_nth_drop)
  then have c: "concat xss = ?l @ xss ! f k @ ?r" by (metis concat.simps(2) concat_append)
  have other: "keyed getKey ys k = None" if "\<And>y. y \<in> set ys \<Longrightarrow> \<exists>i<length xss. i \<noteq> f k \<and> y \<in> set (xss ! i)" for ys
    using that assms(1) unfolding keyed_None by fastforce
  have "keyed getKey ?l k = None"
  proof (rule other)
    fix y assume "y \<in> set ?l"
    from in_concat_nth [OF this] obtain j where "j < length (take (f k) xss)" "y \<in> set (take (f k) xss ! j)" by blast
    then show "\<exists>i<length xss. i \<noteq> f k \<and> y \<in> set (xss ! i)" by (intro exI [of _ j]) simp
  qed
  moreover have "keyed getKey ?r k = None"
  proof (rule other)
    fix y assume "y \<in> set ?r"
    from in_concat_nth [OF this] obtain j where "j < length (drop (Suc (f k)) xss)" "y \<in> set (drop (Suc (f k)) xss ! j)" by blast
    then show "\<exists>i<length xss. i \<noteq> f k \<and> y \<in> set (xss ! i)" by (intro exI [of _ "Suc (f k) + j"]) simp
  qed
  ultimately show ?thesis unfolding c by (simp add: keyed_append split: option.splits)
qed

lemma table_map_concat: "table_repr getKey hash t xss \<Longrightarrow> table_map getKey hash xss = keyed getKey (concat xss)"
proof
  assume t: "table_repr getKey hash t xss"
  show "table_map getKey hash xss k = keyed getKey (concat xss) k" for k
    unfolding table_map_keyed
    by (rule keyed_concat [symmetric]) (use table_reprD(3,6) [OF t] in \<open>simp_all add: bucket_of_less\<close>)
qed

subsection \<open>The operations\<close>

lemma set_bucket_repr:
  assumes "table_repr getKey hash t xss" "i < length xss" "list_repr l ys" "distinct (map getKey ys)"
    and "\<And>y. y \<in> set ys \<Longrightarrow> bucket_of hash (length xss) (getKey y) = i"
  shows "table_repr getKey hash (set_bucket (int i) l t) (xss[i := ys])"
  using assms
  by (auto simp: table_repr_def set_bucket_def list_all2_conv_all_nth nth_list_update)

lemma append_to_ok:
  assumes "table_repr getKey hash t xss" "table_map getKey hash xss (getKey x) = None"
  shows "\<exists>t' xss'. append_to getKey hash x t = Inr t' \<and> table_repr getKey hash t' xss' \<and> length xss' = length xss
     \<and> table_map getKey hash xss' = (table_map getKey hash xss)(getKey x \<mapsto> x) \<and> size_of xss' = Suc (size_of xss) \<and> numItems t' = numItems t"
proof -
  note t = table_reprD [OF assms(1)]
  let ?i = "bucket_of hash (length xss) (getKey x)"
  let ?xss = "xss[?i := xss ! ?i @ [x]]"
  have i: "?i < length xss" by (rule bucket_of_less [OF t(3)])
  have new: "keyed getKey (xss ! ?i) (getKey x) = None" using assms(2) by (simp add: table_map_keyed)
  then have "x \<notin> set (xss ! ?i)" by (auto simp: keyed_None)
  from Append_ok [OF t(5) [OF i] this] obtain l where l: "List_Append (buckets t ! ?i) x = Inr l" "list_repr l (xss ! ?i @ [x])" by blast
  have "append_to getKey hash x t = Inr (set_bucket (int ?i) l t)"
    using i t(2) l(1) by (simp add: append_to_def HashValue_repr [OF assms(1)] bucket_at_eq)
  moreover have "table_repr getKey hash (set_bucket (int ?i) l t) ?xss"
    by (rule set_bucket_repr [OF assms(1) i l(2)]) (use t(6,7) [OF i] new in \<open>auto simp: keyed_None\<close>)
  moreover have "table_map getKey hash ?xss = (table_map getKey hash xss)(getKey x \<mapsto> x)"
    using keyed_snoc [OF new] i by (auto simp: table_map_keyed fun_eq_iff nth_list_update)
  moreover have "size_of ?xss = Suc (size_of xss)" using size_of_update [OF i, of "xss ! ?i @ [x]"] by simp
  ultimately show ?thesis by (intro exI [of _ "set_bucket (int ?i) l t"] exI [of _ ?xss]) (simp add: set_bucket_def)
qed

lemma size_of_take: "i < length xss \<Longrightarrow> size_of (take (Suc i) xss) = size_of (take i xss) + length (xss ! i)"
  by (simp add: size_of_def take_Suc_conv_app_nth)

lemma size_of_take_le: "size_of (take i xss) \<le> size_of xss"
  by (metis append_take_drop_id le_add1 map_append size_of_def sum_list_append)

lemma check_items_ok:
  "\<forall>x\<in>set xs. HashValue hash t (getKey x) = Inr (int i) \<Longrightarrow>
   eachR (\<lambda>x _. bindR (HashValue hash t (getKey x)) (\<lambda>j. assertR (int i = j) (Inr ()))) xs () = Inr ()"
  by (induction xs) auto

lemma check_bucket_ok:
  assumes "table_ok getKey hash t xss" "i < length xss"
  shows "check_bucket getKey hash t i (int (size_of (take i xss))) = Inr (int (size_of (take (Suc i) xss)))"
proof -
  have r: "table_repr getKey hash t xss" "numItems t = int (size_of xss)" "int_fits (numItems t)" using assms(1) unfolding table_ok_def by blast+
  note t = table_reprD [OF r(1)]
  note l = t(5) [OF assms(2)]
  have "int_fits (int (size_of (take i xss)) + numInList (buckets t ! i))"
    using r(2,3) size_of_take_le [of "Suc i" xss] size_of_take [OF assms(2)] list_repr_length [OF l]
    by (simp add: int_fits_def)
  moreover have "\<forall>x\<in>set (xss ! i). HashValue hash t (getKey x) = Inr (int i)"
    using t(6) [OF assms(2)] HashValue_repr [OF r(1)] by simp
  ultimately show ?thesis
    using assms(2) t(2) list_repr_length [OF l]
    by (simp add: check_bucket_def bucket_at_eq List_SanityCheck_ok [OF l] list_repr_items [OF l] check_items_ok size_of_take)
qed

lemma SanityCheck_ok:
  assumes "table_ok getKey hash t xss"
  shows "HashTable_SanityCheck getKey hash t = Inr ()"
proof -
  have n: "numBuckets t = int (length xss)" "numItems t = int (size_of xss)" using assms by (simp_all add: table_ok_def table_repr_def)
  have "\<exists>s'. forR (length xss) 0 (check_bucket getKey hash t) 0 = Inr s' \<and> s' = int (size_of (take (0 + length xss) xss))"
    by (rule forR_invariant) (use check_bucket_ok [OF assms] in \<open>auto simp: size_of_def\<close>)
  then show ?thesis using n by (simp add: HashTable_SanityCheck_def)
qed

lemma move_items_ok:
  assumes "list_repr l ys" "k = length ys" "table_repr getKey hash t xss"
    and "table_map getKey hash xss = keyed getKey before" "distinct (map getKey (before @ ys))"
  shows "\<exists>t' xss'. move_items getKey hash k l t = Inr t' \<and> table_repr getKey hash t' xss' \<and> length xss' = length xss
     \<and> table_map getKey hash xss' = keyed getKey (before @ ys) \<and> size_of xss' = size_of xss + length ys \<and> numItems t' = numItems t"
  using assms
proof (induction ys arbitrary: l k t xss before)
  case Nil
  then show ?case by (intro exI [of _ t] exI [of _ xss]) (simp add: move_items.simps list_repr_empty)
next
  case (Cons y ys)
  from RemoveFront_ok [OF Cons.prems(1)] obtain l' where l': "List_RemoveFront l = Inr (y, l')" "list_repr l' ys" by blast
  have new: "keyed getKey before (getKey y) = None" using Cons.prems(5) by (auto simp: keyed_None)
  with append_to_ok [OF Cons.prems(3), of y] Cons.prems(4) obtain t1 xss1 where
    t1: "append_to getKey hash y t = Inr t1" "table_repr getKey hash t1 xss1" "length xss1 = length xss"
      "table_map getKey hash xss1 = keyed getKey (before @ [y])" "size_of xss1 = Suc (size_of xss)" "numItems t1 = numItems t"
    by (auto simp: keyed_snoc)
  have d: "distinct (map getKey ((before @ [y]) @ ys))" using Cons.prems(5) by simp
  from Cons.IH [OF l'(2) refl t1(2,4) d] obtain t' xss' where
    "move_items getKey hash (length ys) l' t1 = Inr t'" "table_repr getKey hash t' xss'" "length xss' = length xss1"
    "table_map getKey hash xss' = keyed getKey ((before @ [y]) @ ys)" "size_of xss' = size_of xss1 + length ys" "numItems t' = numItems t1"
    by blast
  then show ?case using Cons.prems(1,2) l'(1) t1
    by (intro exI [of _ t'] exI [of _ xss']) (simp add: move_items.simps [of getKey hash "Suc (length ys)"] list_repr_empty)
qed

lemma move_buckets_ok:
  assumes "list_all2 list_repr ls yss" "table_repr getKey hash t xss"
    and "table_map getKey hash xss = keyed getKey before" "distinct (map getKey (before @ concat yss))"
  shows "\<exists>t' xss'. eachR (\<lambda>l. move_items getKey hash (nat (numInList l)) l) ls t = Inr t' \<and> table_repr getKey hash t' xss'
     \<and> length xss' = length xss \<and> table_map getKey hash xss' = keyed getKey (before @ concat yss)
     \<and> size_of xss' = size_of xss + length (concat yss) \<and> numItems t' = numItems t"
  using assms
proof (induction ls yss arbitrary: t xss before rule: list_all2_induct)
  case Nil
  then show ?case by (intro exI [of _ t] exI [of _ xss]) simp
next
  case (Cons l ls ys yss)
  have d: "distinct (map getKey (before @ ys))" "distinct (map getKey ((before @ ys) @ concat yss))" using Cons.prems(3) by auto
  have "nat (numInList l) = length ys" using list_repr_length [OF Cons.hyps(1)] by simp
  from move_items_ok [OF Cons.hyps(1) this Cons.prems(1,2) d(1)] obtain t1 xss1 where
    t1: "move_items getKey hash (nat (numInList l)) l t = Inr t1" "table_repr getKey hash t1 xss1" "length xss1 = length xss"
      "table_map getKey hash xss1 = keyed getKey (before @ ys)" "size_of xss1 = size_of xss + length ys" "numItems t1 = numItems t" by blast
  from Cons.IH [OF t1(2,4) d(2)] obtain t' xss' where
    "eachR (\<lambda>l. move_items getKey hash (nat (numInList l)) l) ls t1 = Inr t'" "table_repr getKey hash t' xss'"
    "length xss' = length xss1" "table_map getKey hash xss' = keyed getKey ((before @ ys) @ concat yss)"
    "size_of xss' = size_of xss1 + length (concat yss)" "numItems t' = numItems t1" by blast
  with t1 show ?case by (intro exI [of _ t'] exI [of _ xss']) simp
qed

lemma InitBuckets_repr:
  assumes "0 < n" "int_fits (int n)"
  shows "table_repr getKey hash (InitBuckets (int n) t) (replicate n [])" "table_map getKey hash (replicate n []) = keyed getKey []"
    "size_of (replicate n []) = 0"
  using assms list_repr_new
  by (auto simp: bucket_of_less [OF assms(1)] table_repr_def InitBuckets_def list_all2_conv_all_nth table_map_keyed size_of_def fun_eq_iff sum_list_replicate)

lemma distinct_keys_concat:
  assumes "\<forall>i<length xss. \<forall>x\<in>set (xss ! i). f (getKey x) = i" "\<forall>i<length xss. distinct (map getKey (xss ! i))"
  shows "distinct (map getKey (concat (take k xss)))"
proof (induction k)
  case (Suc k)
  show ?case
  proof (cases "k < length xss")
    case True
    have "getKey x \<noteq> getKey y" if x: "x \<in> set (concat (take k xss))" and y: "y \<in> set (xss ! k)" for x y
    proof -
      from in_concat_nth [OF x] obtain j where "j < k" "j < length xss" "x \<in> set (xss ! j)" by auto
      then have "f (getKey x) = j" "j < k" using assms(1) by blast+
      moreover have "f (getKey y) = k" using assms(1) y True by blast
      ultimately show ?thesis by auto
    qed
    with Suc assms(2) True show ?thesis by (auto simp: take_Suc_conv_app_nth)
  next
    case False
    with Suc show ?thesis by simp
  qed
qed simp

lemma ReHash_ok:
  assumes "table_ok getKey hash t xss" "int_fits (4 * int (length xss))"
  shows "\<exists>t' xss'. HashTable_ReHash getKey hash t = Inr t' \<and> table_ok getKey hash t' xss' \<and> length xss' = 4 * length xss
     \<and> table_map getKey hash xss' = table_map getKey hash xss \<and> size_of xss' = size_of xss"
proof -
  have r: "table_repr getKey hash t xss" "numItems t = int (size_of xss)" "int_fits (numItems t)" using assms(1) unfolding table_ok_def by blast+
  note t = table_reprD [OF r(1)]
  let ?n = "4 * length xss"
  have n: "0 < ?n" "int_fits (int ?n)" using t(3) assms(2) by simp_all
  note new = InitBuckets_repr(1) [OF n, of getKey hash t] InitBuckets_repr(2) [OF n, of getKey hash] InitBuckets_repr(3) [OF n]
  have "distinct (map getKey (concat (take (length xss) xss)))"
    by (rule distinct_keys_concat [where f = "bucket_of hash (length xss)"]) (use t(6,7) in blast)+
  then have d: "distinct (map getKey ([] @ concat xss))" by simp
  have l: "list_all2 list_repr (buckets t) xss" using r(1) by (simp add: table_repr_def)
  from move_buckets_ok [OF l new(1,2) d] obtain t' xss' where
    m: "eachR (\<lambda>l. move_items getKey hash (nat (numInList l)) l) (buckets t) (InitBuckets (int ?n) t) = Inr t'"
      "table_repr getKey hash t' xss'" "length xss' = ?n" "table_map getKey hash xss' = keyed getKey (concat xss)"
      "size_of xss' = length (concat xss)" "numItems t' = numItems t"
    by (auto simp: InitBuckets_def size_of_def sum_list_replicate)
  have s: "size_of xss' = size_of xss" unfolding m(5) by (simp add: size_of_def length_concat)
  have ok: "table_ok getKey hash t' xss'" using m(2,6) r(2,3) s by (simp add: table_ok_def)
  have "HashTable_ReHash getKey hash t = Inr t'"
    using SanityCheck_ok [OF assms(1)] SanityCheck_ok [OF ok] m(1) n(2) t(1)
    by (simp add: HashTable_ReHash_def IncreaseSizeBy_def mult.commute)
  then show ?thesis using ok m(3,4) s table_map_concat [OF r(1)] by (intro exI [of _ t'] exI [of _ xss']) simp
qed

lemma table_map_size:
  assumes "table_repr getKey hash t xss"
  shows "finite (dom (table_map getKey hash xss))" "card (dom (table_map getKey hash xss)) = size_of xss"
proof -
  note t = table_reprD [OF assms]
  have "distinct (map getKey (concat (take (length xss) xss)))"
    by (rule distinct_keys_concat [where f = "bucket_of hash (length xss)"]) (use t(6,7) in blast)+
  then have d: "distinct (map getKey (concat xss))" by simp
  have "dom (keyed getKey xs) = getKey ` set xs" for xs by (simp add: dom_def keyed_None del: not_None_eq)
  then have e: "dom (table_map getKey hash xss) = set (map getKey (concat xss))" by (simp only: table_map_concat [OF assms] list.set_map)
  show "finite (dom (table_map getKey hash xss))" unfolding e by (rule finite_set)
  show "card (dom (table_map getKey hash xss)) = size_of xss" unfolding e distinct_card [OF d] by (simp add: size_of_def length_concat)
qed

lemma new_ok: "table_ok getKey hash HashTable_new (replicate 4 [])" "table_map getKey hash (replicate 4 []) = Map.empty"
proof -
  have n: "0 < (4 :: nat)" "int_fits (int 4)" by (simp_all add: int_fits_def)
  note new = InitBuckets_repr [OF n]
  show "table_ok getKey hash HashTable_new (replicate 4 [])"
    using new(1) [of getKey hash "\<lparr>buckets = [], numBuckets = 0, numItems = 0\<rparr>"]
    by (simp add: table_ok_def HashTable_new_def InitialBuckets_def int_fits_def size_of_def) (simp add: InitBuckets_def)
  show "table_map getKey hash (replicate 4 []) = Map.empty" by (auto simp: new(2) fun_eq_iff)
qed

lemma hash_Insert_ok:
  assumes "table_ok getKey hash t xss" "table_map getKey hash xss (getKey x) = None"
    and "int_fits (4 * int (length xss))" "int_fits (int (size_of xss) + 1)"
  shows "\<exists>t' xss'. HashTable_Insert getKey hash x t = Inr t' \<and> table_ok getKey hash t' xss'
     \<and> table_map getKey hash xss' = (table_map getKey hash xss)(getKey x \<mapsto> x)
     \<and> length xss' = (if size_of xss < 3 * length xss then length xss else 4 * length xss)"
proof -
  have r: "table_repr getKey hash t xss" "numItems t = int (size_of xss)" "int_fits (numItems t)" using assms(1) unfolding table_ok_def by blast+
  note t = table_reprD [OF r(1)]
  have ratio: "ResizeRatio \<le> numItems t sdiv numBuckets t \<longleftrightarrow> \<not> size_of xss < 3 * length xss"
  proof -
    have "3 \<le> size_of xss div length xss \<longleftrightarrow> 3 * length xss \<le> size_of xss"
      by (rule less_eq_div_iff_mult_less_eq [OF t(3)])
    moreover have "numItems t sdiv numBuckets t = int (size_of xss div length xss)" using r(2) t(1,3) by (simp add: zdiv_int)
    ultimately show ?thesis by (simp add: ResizeRatio_def not_less)
  qed
  obtain t1 xss1 where t1: "(if ResizeRatio \<le> numItems t sdiv numBuckets t then HashTable_ReHash getKey hash t else Inr t) = Inr t1"
    "table_ok getKey hash t1 xss1" "table_map getKey hash xss1 = table_map getKey hash xss" "size_of xss1 = size_of xss"
    "length xss1 = (if size_of xss < 3 * length xss then length xss else 4 * length xss)"
  proof (cases "size_of xss < 3 * length xss")
    case True
    with assms(1) ratio that [of t xss] show ?thesis by simp
  next
    case False
    with ReHash_ok [OF assms(1,3)] ratio that show ?thesis by auto
  qed
  have r1: "table_repr getKey hash t1 xss1" "numItems t1 = int (size_of xss1)" using t1(2) unfolding table_ok_def by blast+
  from append_to_ok [OF r1(1), of x] t1(3) assms(2) obtain t2 xss2 where
    t2: "append_to getKey hash x t1 = Inr t2" "table_repr getKey hash t2 xss2" "length xss2 = length xss1"
      "table_map getKey hash xss2 = (table_map getKey hash xss)(getKey x \<mapsto> x)" "size_of xss2 = Suc (size_of xss1)" "numItems t2 = numItems t1"
    by auto
  let ?t = "t2\<lparr>numItems := numItems t2 + 1\<rparr>"
  have n: "numItems t2 + 1 = int (size_of xss2)" "int_fits (numItems t2 + 1)" using t2(5,6) r1(2) t1(4) assms(4) by simp_all
  have rep: "table_repr getKey hash ?t xss2" using t2(2) by (simp add: table_repr_def)
  have "table_ok getKey hash ?t xss2" using rep n by (simp add: table_ok_def)
  moreover have "HashTable_Insert getKey hash x t = Inr ?t"
    using t(1,3) t1(1) t2(1,4) n(2) assms(2)
    by (simp add: HashTable_Insert_def IsInTable_eq [OF r(1)] IsInTable_eq [OF rep])
  ultimately show ?thesis using t2(3,4) t1(5) by (intro exI [of _ ?t] exI [of _ xss2]) simp
qed

lemma Insert_present:
  assumes "table_ok getKey hash t xss" "table_map getKey hash xss (getKey x) \<noteq> None"
  shows "HashTable_Insert getKey hash x t = Inl AssertFailed"
proof -
  have "table_repr getKey hash t xss" using assms(1) unfolding table_ok_def by blast
  from IsInTable_eq [OF this] assms(2) show ?thesis by (auto simp: HashTable_Insert_def)
qed

lemma HashTable_Remove_ok:
  assumes "table_ok getKey hash t xss" "table_map getKey hash xss key = Some x"
  shows "\<exists>t' xss'. HashTable_Remove getKey hash key t = Inr (x, t') \<and> table_ok getKey hash t' xss' \<and> length xss' = length xss
     \<and> table_map getKey hash xss' = (table_map getKey hash xss)(key := None)"
proof -
  have r: "table_repr getKey hash t xss" "numItems t = int (size_of xss)" "int_fits (numItems t)" using assms(1) unfolding table_ok_def by blast+
  note t = table_reprD [OF r(1)]
  let ?i = "bucket_of hash (length xss) key"
  let ?xss = "xss[?i := remove1 x (xss ! ?i)]"
  have i: "?i < length xss" by (rule bucket_of_less [OF t(3)])
  have f: "keyed getKey (xss ! ?i) key = Some x" using assms(2) by (simp add: table_map_keyed)
  from keyed_Some [OF f] have x: "x \<in> set (xss ! ?i)" "getKey x = key" by auto
  from Remove_ok [OF t(5) [OF i] x(1)] obtain l where l: "List_Remove (buckets t ! ?i) x = Inr l" "list_repr l (remove1 x (xss ! ?i))" by blast
  let ?t = "(set_bucket (int ?i) l t)\<lparr>numItems := numItems t - 1\<rparr>"
  have "distinct (map getKey (remove1 x (xss ! ?i)))"
    using t(7) [OF i] by (simp add: distinct_map inj_on_diff)
  then have rep: "table_repr getKey hash (set_bucket (int ?i) l t) ?xss"
    using t(6) [OF i] by (intro set_bucket_repr [OF r(1) i l(2)]) (auto dest: notin_set_remove1 set_remove1_subset [THEN subsetD])
  then have rep': "table_repr getKey hash ?t ?xss" by (simp add: table_repr_def)
  have m: "table_map getKey hash ?xss = (table_map getKey hash xss)(key := None)"
    using keyed_remove1 [OF t(7) [OF i] x(1)] i x(2) by (auto simp: table_map_keyed fun_eq_iff nth_list_update)
  have s: "size_of ?xss + 1 = size_of xss"
  proof -
    have "length (remove1 x (xss ! ?i)) + 1 = length (xss ! ?i)" using x(1) length_pos_if_in_set [OF x(1)] by (simp add: length_remove1)
    with size_of_update [OF i, of "remove1 x (xss ! ?i)"] show ?thesis by linarith
  qed
  have "table_ok getKey hash ?t ?xss" using rep' s r(2,3) by (simp add: table_ok_def int_fits_def)
  moreover have "HashTable_Remove getKey hash key t = Inr (x, ?t)"
    using i t(2) l(1) f m
    by (simp add: HashTable_Remove_def HashValue_repr [OF r(1)] FindInBucket_eq [OF r(1)] bucket_at_eq IsInTable_eq [OF rep'] keyed_def)
  ultimately show ?thesis using m by (intro exI [of _ ?t] exI [of _ ?xss]) simp
qed

lemma Remove_missing:
  assumes "table_ok getKey hash t xss" "table_map getKey hash xss key = None"
  shows "HashTable_Remove getKey hash key t = Inl AssertFailed"
proof -
  have r: "table_repr getKey hash t xss" using assms(1) unfolding table_ok_def by blast
  note t = table_reprD [OF r]
  show ?thesis
    using assms(2) bucket_of_less [OF t(3), of hash key]
    by (simp add: HashTable_Remove_def HashValue_repr [OF r] FindInBucket_eq [OF r] table_map_def)
qed

subsection \<open>Iteration and self test\<close>

text \<open>The loop of \<^verbatim>\<open>FindNextFullBucket\<close> over the \<open>k\<close> remaining buckets.\<close>

fun next_full :: "nat \<Rightarrow> int \<Rightarrow> 'a HashTable \<Rightarrow> int res" where
  "next_full 0 bucket t = Inr bucket"
| "next_full (Suc k) bucket t =
     bindR (bucket_at t bucket) (\<lambda>l. if \<not> List_IsEmpty l then Inr bucket else next_full k (bucket + 1) t)"

definition FindNextFullBucket :: "'a HashTable \<Rightarrow> int \<Rightarrow> int res" where
  "FindNextFullBucket t bucket = next_full (nat (numBuckets t - bucket)) bucket t"

text \<open>\<open>bucketIter\<close> is the position in the bucket's list, \<open>None\<close> for the null pointer.\<close>

record HashIterator =
  bucket :: int
  bucketIter :: "nat option option"

definition enter_bucket :: "'a HashTable \<Rightarrow> int \<Rightarrow> HashIterator res" where
  "enter_bucket t b =
     (if b < numBuckets t then bindR (bucket_at t b) (\<lambda>l. Inr \<lparr>bucket = b, bucketIter = Some (ListIterator_new l)\<rparr>)
      else Inr \<lparr>bucket = b, bucketIter = None\<rparr>)"

definition HashIterator_new :: "'a HashTable \<Rightarrow> HashIterator res" where
  "HashIterator_new t = bindR (FindNextFullBucket t 0) (enter_bucket t)"

definition HashIterator_IsDone :: "'a HashTable \<Rightarrow> HashIterator \<Rightarrow> bool" where
  "HashIterator_IsDone t it \<longleftrightarrow> bucket it = numBuckets t"

definition HashIterator_Item :: "'a HashTable \<Rightarrow> HashIterator \<Rightarrow> 'a res" where
  "HashIterator_Item t it =
     assertR (\<not> HashIterator_IsDone t it)
      (case bucketIter it of None \<Rightarrow> Inl NullPointer
       | Some p \<Rightarrow> bindR (bucket_at t (bucket it)) (\<lambda>l. ListIterator_Item l p))"

definition HashIterator_Next :: "'a HashTable \<Rightarrow> HashIterator \<Rightarrow> HashIterator res" where
  "HashIterator_Next t it =
     (case bucketIter it of None \<Rightarrow> Inl NullPointer
      | Some p \<Rightarrow> bindR (bucket_at t (bucket it)) (\<lambda>l. bindR (ListIterator_Next l p) (\<lambda>p.
          if ListIterator_IsDone p then bindR (FindNextFullBucket t (bucket it + 1)) (enter_bucket t)
          else Inr (it\<lparr>bucketIter := Some p\<rparr>))))"

text \<open>The items a loop over the table meets in at most \<open>k\<close> rounds.\<close>

fun iterate :: "nat \<Rightarrow> 'a HashTable \<Rightarrow> HashIterator \<Rightarrow> 'a list res" where
  "iterate k t it =
     (if HashIterator_IsDone t it then Inr []
      else case k of 0 \<Rightarrow> Inl NoReturn
           | Suc k \<Rightarrow> bindR (HashIterator_Item t it) (\<lambda>x. bindR (HashIterator_Next t it) (\<lambda>it.
               bindR (iterate k t it) (\<lambda>xs. Inr (x # xs)))))"

declare iterate.simps [simp del]

definition insert_test :: "('a \<Rightarrow> 'k) \<Rightarrow> ('k \<Rightarrow> 32 word) \<Rightarrow> 'a \<Rightarrow> 'a HashTable \<Rightarrow> 'a HashTable res" where
  "insert_test getKey hash x t =
     bindR (HashTable_Insert getKey hash x t) (\<lambda>t. bindR (IsInTable getKey hash t (getKey x)) (\<lambda>b.
       assertR b (assertR (\<not> HashTable_IsEmpty t) (Inr t))))"

definition remove_test :: "('a \<Rightarrow> 'k) \<Rightarrow> ('k \<Rightarrow> 32 word) \<Rightarrow> 'a \<Rightarrow> 'a HashTable \<Rightarrow> 'a HashTable res" where
  "remove_test getKey hash x t = bindR (HashTable_Remove getKey hash (getKey x) t) (\<lambda>(y, t). assertR (y = x) (Inr t))"

definition HashTable_SelfTest :: "('a \<Rightarrow> 'k) \<Rightarrow> ('k \<Rightarrow> 32 word) \<Rightarrow> 'a list \<Rightarrow> 'a HashTable \<Rightarrow> 'a HashTable res" where
  "HashTable_SelfTest getKey hash p t =
     bindR (HashIterator_new t) (\<lambda>it.
     bindR (HashTable_SanityCheck getKey hash t) (\<lambda>_.
     assertR (HashTable_IsEmpty t) (assertR (HashIterator_IsDone t it)
      (bindR (eachR (insert_test getKey hash) p t) (\<lambda>t.
       bindR (eachR (remove_test getKey hash) p t) (\<lambda>t.
       assertR (HashTable_IsEmpty t) (bindR (HashTable_SanityCheck getKey hash t) (\<lambda>_. Inr t))))))))"

lemma next_full_eq:
  assumes "table_repr getKey hash t xss"
  shows "k + i = length xss \<Longrightarrow> \<exists>j. next_full k (int i) t = Inr (int j) \<and> i \<le> j \<and> j \<le> length xss
     \<and> concat (drop i xss) = concat (drop j xss) \<and> (j < length xss \<longrightarrow> xss ! j \<noteq> [])"
proof (induction k arbitrary: i)
  case 0
  then show ?case by (intro exI [of _ i]) simp
next
  case (Suc k)
  note t = table_reprD [OF assms]
  have i: "i < length xss" using Suc.prems by simp
  show ?case
  proof (cases "xss ! i = []")
    case False
    then show ?thesis using i t(2) list_repr_empty [OF t(5) [OF i]] by (intro exI [of _ i]) (simp add: bucket_at_eq)
  next
    case True
    from Suc.IH [of "Suc i"] Suc.prems obtain j where
      "next_full k (int (Suc i)) t = Inr (int j)" "Suc i \<le> j" "j \<le> length xss" "concat (drop (Suc i) xss) = concat (drop j xss)"
      "j < length xss \<longrightarrow> xss ! j \<noteq> []" by auto
    moreover have "concat (drop i xss) = concat (drop (Suc i) xss)" using True i by (simp add: Cons_nth_drop_Suc [symmetric])
    ultimately show ?thesis using True i t(2) list_repr_empty [OF t(5) [OF i]]
      by (intro exI [of _ j]) (simp add: bucket_at_eq add.commute)
  qed
qed

text \<open>An iterator that still has to meet the items \<open>xs\<close>.\<close>

definition to_meet :: "'a HashTable \<Rightarrow> 'a list list \<Rightarrow> HashIterator \<Rightarrow> 'a list \<Rightarrow> bool" where
  "to_meet t xss it xs \<longleftrightarrow>
     (xs = [] \<and> bucket it = int (length xss))
     \<or> (\<exists>i p as ys. i < length xss \<and> it = \<lparr>bucket = int i, bucketIter = Some p\<rparr>
         \<and> path (cells (buckets t ! i)) p as ys None \<and> ys \<noteq> [] \<and> xs = ys @ concat (drop (Suc i) xss))"

lemma enter_full:
  assumes "table_repr getKey hash t xss" "i \<le> length xss"
  shows "\<exists>it. bindR (FindNextFullBucket t (int i)) (enter_bucket t) = Inr it \<and> to_meet t xss it (concat (drop i xss))"
proof -
  note t = table_reprD [OF assms(1)]
  have "nat (numBuckets t - int i) + i = length xss" using assms(2) t(1) by simp
  from next_full_eq [OF assms(1) this] obtain j where
    j: "FindNextFullBucket t (int i) = Inr (int j)" "j \<le> length xss" "concat (drop i xss) = concat (drop j xss)"
      "j < length xss \<longrightarrow> xss ! j \<noteq> []" by (auto simp: FindNextFullBucket_def)
  show ?thesis
  proof (cases "j < length xss")
    case True
    from t(5) [OF True] obtain as where "list_cells (buckets t ! j) as (xss ! j)" by (auto simp: list_repr_def)
    then have "path (cells (buckets t ! j)) (lfirst (buckets t ! j)) as (xss ! j) None" by (simp add: list_cells_def)
    moreover have "concat (drop j xss) = xss ! j @ concat (drop (Suc j) xss)" using True by (simp add: Cons_nth_drop_Suc [symmetric])
    ultimately show ?thesis using True j t(1,2)
      by (auto simp: enter_bucket_def bucket_at_eq to_meet_def ListIterator_new_def)
  next
    case False
    then show ?thesis using j t(1) by (auto simp: enter_bucket_def to_meet_def)
  qed
qed

lemma iterate_eq:
  assumes "table_repr getKey hash t xss"
  shows "to_meet t xss it xs \<Longrightarrow> length xs \<le> k \<Longrightarrow> iterate k t it = Inr xs"
proof (induction xs arbitrary: k it)
  case Nil
  then show ?case using table_reprD(1) [OF assms] by (auto simp: to_meet_def iterate.simps HashIterator_IsDone_def)
next
  case (Cons x xs)
  note t = table_reprD [OF assms]
  from Cons.prems(1) obtain i p as ys where i: "i < length xss" "it = \<lparr>bucket = int i, bucketIter = Some p\<rparr>"
    "path (cells (buckets t ! i)) p as (x # ys) None" "xs = ys @ concat (drop (Suc i) xss)"
    by (auto simp: to_meet_def neq_Nil_conv)
  from i(3) obtain a as' n where a: "as = a # as'" "p = Some a" "cells (buckets t ! i) a = Some \<lparr>item = x, nxt = n\<rparr>"
    "path (cells (buckets t ! i)) n as' ys None" by (cases as) auto
  have item: "HashIterator_Item t it = Inr x" using i(1,2) a(2,3) t(1,2)
    by (simp add: HashIterator_Item_def HashIterator_IsDone_def bucket_at_eq ListIterator_Item_def ListIterator_IsDone_def)
  have "\<exists>it'. HashIterator_Next t it = Inr it' \<and> to_meet t xss it' xs"
  proof (cases "ys = []")
    case True
    with a(4) have "n = None" by simp
    with enter_full [OF assms, of "Suc i"] i(1,2,4) a(2,3) t(2) True show ?thesis
      by (simp add: HashIterator_Next_def bucket_at_eq ListIterator_Next_def ListIterator_IsDone_def add.commute)
  next
    case False
    with a(4) have "n \<noteq> None" by (cases as'; cases ys) auto
    with i a t(2) False show ?thesis
      by (auto simp: HashIterator_Next_def bucket_at_eq ListIterator_Next_def ListIterator_IsDone_def to_meet_def)
  qed
  then obtain it' where next_it: "HashIterator_Next t it = Inr it'" "to_meet t xss it' xs" by blast
  obtain j where k: "k = Suc j" "length xs \<le> j" using Cons.prems(2) by (cases k) auto
  have "\<not> HashIterator_IsDone t it" using i(1,2) t(1) by (simp add: HashIterator_IsDone_def)
  then show ?case using item next_it(1) Cons.IH [OF next_it(2) k(2)] unfolding k(1) by (subst iterate.simps) simp
qed

lemma iterate_all: "table_repr getKey hash t xss \<Longrightarrow> \<exists>it. HashIterator_new t = Inr it \<and> iterate (size_of xss) t it = Inr (concat xss)"
  using enter_full [of getKey hash t xss 0] iterate_eq by (fastforce simp: HashIterator_new_def size_of_def length_concat)

subsection \<open>A finite map\<close>

text \<open>A legal table of \<open>n\<close> buckets for the map \<open>M\<close>.\<close>

definition hash_table :: "('a \<Rightarrow> 'k) \<Rightarrow> ('k \<Rightarrow> 32 word) \<Rightarrow> 'a HashTable \<Rightarrow> nat \<Rightarrow> ('k \<rightharpoonup> 'a) \<Rightarrow> bool" where
  "hash_table getKey hash t n M \<longleftrightarrow> (\<exists>xss. table_ok getKey hash t xss \<and> length xss = n \<and> table_map getKey hash xss = M)"

lemma hash_table_new: "hash_table getKey hash HashTable_new 4 Map.empty"
  using new_ok by (fastforce simp: hash_table_def)

lemma hash_tableE:
  assumes "hash_table getKey hash t n M"
  obtains xss where "table_ok getKey hash t xss" "table_repr getKey hash t xss" "length xss = n" "table_map getKey hash xss = M"
    "size_of xss = card (dom M)"
  using assms table_map_size(2) unfolding hash_table_def table_ok_def by metis

lemma hash_insert:
  assumes "hash_table getKey hash t n M" "M (getKey x) = None" "int_fits (4 * int n)" "int_fits (int (card (dom M)) + 1)"
  shows "\<exists>t'. HashTable_Insert getKey hash x t = Inr t'
     \<and> hash_table getKey hash t' (if card (dom M) < 3 * n then n else 4 * n) (M(getKey x \<mapsto> x))"
proof -
  from assms(1) obtain xss where x: "table_ok getKey hash t xss" "length xss = n" "table_map getKey hash xss = M" "size_of xss = card (dom M)"
    by (rule hash_tableE)
  from hash_Insert_ok [OF x(1), of x] assms(2-4) x(2-4) show ?thesis unfolding hash_table_def by fastforce
qed

lemma hash_remove:
  assumes "hash_table getKey hash t n M" "M key = Some x"
  shows "\<exists>t'. HashTable_Remove getKey hash key t = Inr (x, t') \<and> hash_table getKey hash t' n (M(key := None))"
proof -
  from assms(1) obtain xss where x: "table_ok getKey hash t xss" "length xss = n" "table_map getKey hash xss = M" by (rule hash_tableE)
  from HashTable_Remove_ok [OF x(1), of key x] assms(2) x(2,3) show ?thesis unfolding hash_table_def by fastforce
qed

text \<open>
  C25: the hash table is a finite map from keys to items, whatever the hash function. \<^verbatim>\<open>Find\<close> looks a key up;
  \<^verbatim>\<open>Insert\<close> adds an item with a new key and fails its assertion on a key that is there; \<^verbatim>\<open>Remove\<close> takes the item of a
  key out and fails its assertion if there is none. The buckets become four times as many, and all
  items are moved, exactly when an insertion finds three or more items per bucket. An iteration meets every item once.
\<close>

theorem HashTable_is_map:
  assumes "hash_table getKey hash t n M"
  shows "HashTable_Find getKey hash t k = Inr (M k)
     \<and> (M (getKey x) = None \<and> int_fits (4 * int n) \<and> int_fits (int (card (dom M)) + 1) \<longrightarrow>
          (\<exists>t'. HashTable_Insert getKey hash x t = Inr t'
            \<and> hash_table getKey hash t' (if card (dom M) < 3 * n then n else 4 * n) (M(getKey x \<mapsto> x))))
     \<and> (M (getKey x) \<noteq> None \<longrightarrow> HashTable_Insert getKey hash x t = Inl AssertFailed)
     \<and> (\<forall>y. M k = Some y \<longrightarrow>
          (\<exists>t'. HashTable_Remove getKey hash k t = Inr (y, t') \<and> hash_table getKey hash t' n (M(k := None))))
     \<and> (M k = None \<longrightarrow> HashTable_Remove getKey hash k t = Inl AssertFailed)
     \<and> (\<exists>it xs. HashIterator_new t = Inr it \<and> iterate (card (dom M)) t it = Inr xs
          \<and> M = map_of (map (\<lambda>y. (getKey y, y)) xs) \<and> length xs = card (dom M))"
proof -
  from assms obtain xss where x: "table_ok getKey hash t xss" "table_repr getKey hash t xss" "length xss = n" "table_map getKey hash xss = M"
    "size_of xss = card (dom M)" by (rule hash_tableE)
  have "keyed getKey xs = map_of (map (\<lambda>y. (getKey y, y)) xs)" for xs by (induction xs) (auto simp: keyed_Cons fun_eq_iff)
  moreover have "length (concat xss) = size_of xss" by (simp add: size_of_def length_concat)
  ultimately have "\<exists>it xs. HashIterator_new t = Inr it \<and> iterate (card (dom M)) t it = Inr xs
      \<and> M = map_of (map (\<lambda>y. (getKey y, y)) xs) \<and> length xs = card (dom M)"
    using iterate_all [OF x(2)] table_map_concat [OF x(2)] x(4,5) by metis
  then show ?thesis
    using hash_Find_eq [OF x(2)] Insert_present [OF x(1)] Remove_missing [OF x(1)] hash_insert [OF assms] hash_remove [OF assms] x(4)
    by simp
qed

lemma HashTable_is_map_witness:
  "\<exists>t. HashTable_Insert (\<lambda>x :: int. x) of_int 9 HashTable_new = Inr t \<and> HashTable_Find (\<lambda>x. x) of_int t 9 = Inr (Some 9)"
proof -
  from HashTable_is_map [OF hash_table_new, of "\<lambda>x :: int. x" of_int _ 9] obtain t where
    t: "HashTable_Insert (\<lambda>x :: int. x) of_int 9 HashTable_new = Inr t" "hash_table (\<lambda>x. x) of_int t 4 [9 \<mapsto> 9]"
    by (auto simp: int_fits_def)
  from HashTable_is_map [OF t(2), of 9 9] t(1) show ?thesis by (intro exI [of _ t]) simp
qed

text \<open>The self test passes on items with different keys, through as many growths as they need.\<close>

lemma SelfTest_ok:
  fixes getKey :: "'a \<Rightarrow> 'k" and hash :: "'k \<Rightarrow> 32 word"
  assumes "distinct (map getKey p)" "length p \<le> 2 ^ 27"
  shows "\<exists>t. HashTable_SelfTest getKey hash p HashTable_new = Inr t \<and> (\<exists>n. hash_table getKey hash t n Map.empty)"
proof -
  let ?M = "\<lambda>ys. map_of (map (\<lambda>y. (getKey y, y)) (rev ys))"
  have card: "card (dom (?M ys)) = length ys" if "distinct (map getKey ys)" for ys :: "'a list"
    using that distinct_card [of "map getKey ys"] by (simp add: dom_map_of_conv_image_fst image_image)
  have "\<exists>t. eachR (insert_test getKey hash) p HashTable_new = Inr t \<and> (\<exists>n. hash_table getKey hash t n (?M p) \<and> n \<le> 4 + 2 * length p)"
  proof (rule eachR_invariant)
    show "\<exists>n. hash_table getKey hash HashTable_new n (?M []) \<and> n \<le> 4 + 2 * length ([] :: 'a list)"
      by (intro exI [of _ 4]) (simp add: hash_table_new)
    fix ys y t assume p: "\<exists>zs. p = ys @ y # zs" and "\<exists>n. hash_table getKey hash t n (?M ys) \<and> n \<le> 4 + 2 * length ys"
    then obtain n where n: "hash_table getKey hash t n (?M ys)" "n \<le> 4 + 2 * length ys" by blast
    from p assms have d: "distinct (map getKey ys)" "getKey y \<notin> getKey ` set ys" "length ys < 2 ^ 27" by auto
    have new: "?M ys (getKey y) = None" using d(2) by (auto simp: map_of_eq_None_iff)
    have "int_fits (4 * int n)" "int_fits (int (card (dom (?M ys))) + 1)" using n(2) d(3) card [OF d(1)] by (simp_all add: int_fits_def)
    from hash_insert [OF n(1) new this] card [OF d(1)] obtain t' where
      t': "HashTable_Insert getKey hash y t = Inr t'" "hash_table getKey hash t' (if length ys < 3 * n then n else 4 * n) (?M (ys @ [y]))"
      by auto
    then obtain xss where x: "table_ok getKey hash t' xss" "table_repr getKey hash t' xss" "table_map getKey hash xss = ?M (ys @ [y])"
      "size_of xss = card (dom (?M (ys @ [y])))" by (elim hash_tableE)
    have "size_of xss = length (ys @ [y])" unfolding x(4) by (rule card) (use d in simp)
    then have "\<not> HashTable_IsEmpty t'" using x(1) by (simp add: table_ok_def HashTable_IsEmpty_def)
    moreover have "IsInTable getKey hash t' (getKey y) = Inr True" by (simp add: IsInTable_eq [OF x(2)] x(3))
    moreover have "(if length ys < 3 * n then n else 4 * n) \<le> 4 + 2 * length (ys @ [y])" using n(2) by auto
    ultimately show "\<exists>t'. insert_test getKey hash y t = Inr t' \<and> (\<exists>n. hash_table getKey hash t' n (?M (ys @ [y])) \<and> n \<le> 4 + 2 * length (ys @ [y]))"
      using t' by (auto simp: insert_test_def)
  qed
  then obtain t n where t: "eachR (insert_test getKey hash) p HashTable_new = Inr t" "hash_table getKey hash t n (?M p)" by blast
  let ?R = "\<lambda>ys k. if k \<in> getKey ` set ys then None else ?M p k"
  have "\<exists>u. eachR (remove_test getKey hash) p t = Inr u \<and> hash_table getKey hash u n (?R p)"
  proof (rule eachR_invariant [where P = "\<lambda>ys u. hash_table getKey hash u n (?R ys)"])
    show "hash_table getKey hash t n (?R [])" using t(2) by simp
    fix ys y u assume p: "\<exists>zs. p = ys @ y # zs" and u: "hash_table getKey hash u n (?R ys)"
    have "map_of (map (\<lambda>y. (getKey y, y)) (rev p)) (getKey y) = Some y"
    proof (rule map_of_is_SomeI)
      have "distinct (map getKey (rev p))" using assms(1) by (metis distinct_rev rev_map)
      then show "distinct (map fst (map (\<lambda>y. (getKey y, y)) (rev p)))" by (simp add: comp_def)
    qed (use p in auto)
    then have "?R ys (getKey y) = Some y" using p assms(1) by auto
    from hash_remove [OF u this] obtain v where "HashTable_Remove getKey hash (getKey y) u = Inr (y, v)"
      "hash_table getKey hash v n ((?R ys)(getKey y := None))" by blast
    moreover have "(?R ys)(getKey y := None) = ?R (ys @ [y])" by (auto simp: fun_eq_iff)
    ultimately show "\<exists>v. remove_test getKey hash y u = Inr v \<and> hash_table getKey hash v n (?R (ys @ [y]))"
      by (simp add: remove_test_def)
  qed
  moreover have "?R p = Map.empty"
    using map_of_eq_None_iff [of "map (\<lambda>y. (getKey y, y)) (rev p)"] by (auto simp: fun_eq_iff image_image)
  ultimately obtain u where u: "eachR (remove_test getKey hash) p t = Inr u" "hash_table getKey hash u n Map.empty" by auto
  have e: "HashTable_IsEmpty v \<and> HashTable_SanityCheck getKey hash v = Inr ()" if h: "hash_table getKey hash v k Map.empty" for v k
  proof -
    from h obtain xss where "table_ok getKey hash v xss" "size_of xss = card (dom (Map.empty :: 'k \<rightharpoonup> 'a))" by (rule hash_tableE)
    then show ?thesis using SanityCheck_ok [of getKey hash v xss] by (auto simp: HashTable_IsEmpty_def table_ok_def)
  qed
  from hash_table_new [of getKey hash] obtain xss where x: "table_repr getKey hash HashTable_new xss" "size_of xss = 0"
    by (elim hash_tableE) simp
  from iterate_all [OF x(1)] x(2) obtain it where "HashIterator_new (HashTable_new :: 'a HashTable) = Inr it" "iterate 0 (HashTable_new :: 'a HashTable) it = Inr (concat xss)" by auto
  then have "HashIterator_new (HashTable_new :: 'a HashTable) = Inr it" "HashIterator_IsDone (HashTable_new :: 'a HashTable) it"
    by (simp_all add: iterate.simps split: if_splits)
  then show ?thesis using e [OF hash_table_new] e [OF u(2)] t(1) u by (auto simp: HashTable_SelfTest_def)
qed

end
