(* ===== verification/Interrupts.thy ===== *)
theory Interrupts
  imports Lists
begin

text \<open>
  \<^verbatim>\<open>machine/interrupt.cc\<close> and \<^verbatim>\<open>machine/stats.h\<close>: simulated time and the hardware interrupts.
  The state of the machine is the record \<open>machine\<close>: the statistics, the fields of the class
  \<^verbatim>\<open>Interrupt\<close> with its sorted list of pending interrupts, and the state \<open>dev\<close> of the devices,
  which this theory does not look into. What the interrupt simulation calls (the handlers
  of the devices, \<^verbatim>\<open>Machine::DelayedLoad\<close>, \<^verbatim>\<open>Thread::Yield\<close>) is the record \<open>hooks\<close>, and the locale
  \<open>handlers\<close> states what it needs of the handlers: they schedule only later interrupts.
\<close>

subsection \<open>State\<close>

record Statistics =
  totalTicks :: int
  idleTicks :: int
  systemTicks :: int
  userTicks :: int
  numDiskReads :: int
  numDiskWrites :: int
  numConsoleCharsRead :: int
  numConsoleCharsWritten :: int
  numPageFaults :: int
  numPacketsSent :: int
  numPacketsRecvd :: int

definition UserTick :: int where "UserTick = 1"
definition SystemTick :: int where "SystemTick = 10"
definition RotationTime :: int where "RotationTime = 500"
definition SeekTime :: int where "SeekTime = 500"
definition ConsoleTime :: int where "ConsoleTime = 100"
definition NetworkTime :: int where "NetworkTime = 100"
definition TimerTicks :: int where "TimerTicks = 100"

definition Statistics_new :: Statistics where
  "Statistics_new = \<lparr>totalTicks = 0, idleTicks = 0, systemTicks = 0, userTicks = 0,
                     numDiskReads = 0, numDiskWrites = 0, numConsoleCharsRead = 0, numConsoleCharsWritten = 0,
                     numPageFaults = 0, numPacketsSent = 0, numPacketsRecvd = 0\<rparr>"

datatype IntStatus = IntOff | IntOn
datatype MachineStatus = IdleMode | SystemMode | UserMode
datatype IntType = TimerInt | DiskInt | ConsoleWriteInt | ConsoleReadInt | NetworkSendInt | NetworkRecvInt

text \<open>The objects of the kernel that are called back when an interrupt occurs.\<close>

datatype CallBackObj = TheTimer | TheDisk | TheConsoleOutput | TheConsoleInput | TheNetworkOutput | TheNetworkInput

text \<open>\<open>paddr\<close> is the address \<^verbatim>\<open>new\<close> returned: list items are pointers, compared as such.\<close>

record PendingInterrupt =
  paddr :: nat
  callOnInterrupt :: CallBackObj
  whenDue :: int
  itype :: IntType

record 'd machine =
  stats :: Statistics
  level :: IntStatus
  pending :: "PendingInterrupt List"
  inHandler :: bool
  yieldOnReturn :: bool
  mstatus :: MachineStatus
  nextAddr :: nat
  dev :: 'd

record 'd hooks =
  onCallBack :: "CallBackObj \<Rightarrow> 'd machine \<Rightarrow> 'd machine res"
  onDelayedLoad :: "'d machine \<Rightarrow> 'd machine res"
  onYield :: "'d machine \<Rightarrow> 'd machine res"

definition PendingCompare :: "PendingInterrupt \<Rightarrow> PendingInterrupt \<Rightarrow> int" where
  "PendingCompare x y = (if whenDue x < whenDue y then -1 else if whenDue x > whenDue y then 1 else 0)"

definition Interrupt_new :: "'d \<Rightarrow> 'd machine" where
  "Interrupt_new d = \<lparr>stats = Statistics_new, level = IntOff, pending = List_new, inHandler = False,
     yieldOnReturn = False, mstatus = SystemMode, nextAddr = 0, dev = d\<rparr>"

subsection \<open>Operations\<close>

definition Interrupt_Schedule :: "CallBackObj \<Rightarrow> int \<Rightarrow> IntType \<Rightarrow> 'd machine \<Rightarrow> 'd machine res" where
  "Interrupt_Schedule toCall fromNow kind m =
     (let toOccur = \<lparr>paddr = nextAddr m, callOnInterrupt = toCall,
                     whenDue = totalTicks (stats m) + fromNow, itype = kind\<rparr>
      in assertR (fromNow > 0)
           (bindR (SortedList_Insert (\<lambda>x y. Inr (PendingCompare x y)) (pending m) toOccur)
              (\<lambda>l. Inr (m\<lparr>pending := l, nextAddr := Suc (nextAddr m)\<rparr>))))"

text \<open>
  The \<^verbatim>\<open>do ... while\<close> loop of \<^verbatim>\<open>CheckIfDue\<close>. It is given as many rounds as interrupts are pending
  when it starts, which is enough because handlers schedule only later interrupts (see
  \<open>CheckIfDue_fires\<close> below).
\<close>

fun fire_due :: "nat \<Rightarrow> 'd hooks \<Rightarrow> 'd machine \<Rightarrow> 'd machine res" where
  "fire_due 0 h m = Inl NoReturn"
| "fire_due (Suc k) h m =
     bindR (List_RemoveFront (pending m)) (\<lambda>(next, l).
     bindR (onCallBack h (callOnInterrupt next) (m\<lparr>pending := l\<rparr>)) (\<lambda>m.
       if List_IsEmpty (pending m) then Inr m
       else bindR (List_Front (pending m)) (\<lambda>f.
         if whenDue f \<le> totalTicks (stats m) then fire_due k h m else Inr m)))"

definition invoke_handlers :: "'d hooks \<Rightarrow> 'd machine \<Rightarrow> (bool \<times> 'd machine) res" where
  "invoke_handlers h m =
     bindR (onDelayedLoad h m) (\<lambda>m.
     bindR (fire_due (nat (numInList (pending m))) h (m\<lparr>inHandler := True\<rparr>)) (\<lambda>m.
       Inr (True, m\<lparr>inHandler := False\<rparr>)))"

definition Interrupt_CheckIfDue :: "'d hooks \<Rightarrow> bool \<Rightarrow> 'd machine \<Rightarrow> (bool \<times> 'd machine) res" where
  "Interrupt_CheckIfDue h advanceClock m =
     assertR (level m = IntOff)
      (if List_IsEmpty (pending m) then Inr (False, m)
       else bindR (List_Front (pending m)) (\<lambda>next.
         if whenDue next > totalTicks (stats m) then
           if \<not> advanceClock then Inr (False, m)
           else invoke_handlers h (m\<lparr>stats := (stats m)
                  \<lparr>idleTicks := idleTicks (stats m) + (whenDue next - totalTicks (stats m)),
                   totalTicks := whenDue next\<rparr>\<rparr>)
         else invoke_handlers h m))"

definition Interrupt_OneTick :: "'d hooks \<Rightarrow> 'd machine \<Rightarrow> 'd machine res" where
  "Interrupt_OneTick h m =
     (let oldStatus = mstatus m;
          s = stats m;
          m = m\<lparr>stats := (if mstatus m = SystemMode
                then s\<lparr>totalTicks := totalTicks s + SystemTick, systemTicks := systemTicks s + SystemTick\<rparr>
                else s\<lparr>totalTicks := totalTicks s + UserTick, userTicks := userTicks s + UserTick\<rparr>),
                level := IntOff\<rparr>
      in bindR (Interrupt_CheckIfDue h False m) (\<lambda>(_, m).
         let m = m\<lparr>level := IntOn\<rparr>
         in if yieldOnReturn m
            then bindR (onYield h (m\<lparr>yieldOnReturn := False, mstatus := SystemMode\<rparr>))
                   (\<lambda>m. Inr (m\<lparr>mstatus := oldStatus\<rparr>))
            else Inr m))"

definition Interrupt_SetLevel :: "'d hooks \<Rightarrow> IntStatus \<Rightarrow> 'd machine \<Rightarrow> (IntStatus \<times> 'd machine) res" where
  "Interrupt_SetLevel h now m =
     (let old = level m
      in assertR (now = IntOff \<or> \<not> inHandler m)
          (let m = m\<lparr>level := now\<rparr>
           in if now = IntOn \<and> old = IntOff
              then bindR (Interrupt_OneTick h m) (\<lambda>m. Inr (old, m))
              else Inr (old, m)))"

definition Interrupt_YieldOnReturn :: "'d machine \<Rightarrow> 'd machine res" where
  "Interrupt_YieldOnReturn m = assertR (inHandler m) (Inr (m\<lparr>yieldOnReturn := True\<rparr>))"

definition Interrupt_Idle :: "'d hooks \<Rightarrow> 'd machine \<Rightarrow> 'd machine res" where
  "Interrupt_Idle h m =
     bindR (Interrupt_CheckIfDue h True (m\<lparr>mstatus := IdleMode\<rparr>)) (\<lambda>(fired, m).
       if fired then Inr (m\<lparr>mstatus := SystemMode\<rparr>) else Inl Halted)"

subsection \<open>The invariant of the pending list\<close>

definition irq :: "'d machine \<Rightarrow> PendingInterrupt list \<Rightarrow> bool" where
  "irq m xs \<longleftrightarrow> list_repr (pending m) xs \<and> in_order PendingCompare xs
     \<and> (\<forall>p\<in>set xs. paddr p < nextAddr m)"

abbreviation now :: "'d machine \<Rightarrow> int" where "now m \<equiv> totalTicks (stats m)"

abbreviation due :: "int \<Rightarrow> PendingInterrupt list \<Rightarrow> PendingInterrupt list" where
  "due t xs \<equiv> takeWhile (\<lambda>p. whenDue p \<le> t) xs"

abbreviation later :: "int \<Rightarrow> PendingInterrupt list \<Rightarrow> PendingInterrupt list" where
  "later t xs \<equiv> dropWhile (\<lambda>p. whenDue p \<le> t) xs"

abbreviation enter :: "PendingInterrupt \<Rightarrow> PendingInterrupt list \<Rightarrow> PendingInterrupt list" where
  "enter p xs \<equiv> insert_before (PendingCompare p) p xs"

lemma comparison_PendingCompare: "comparison PendingCompare"
  by (auto simp: comparison_def PendingCompare_def split: if_splits)

lemma compares_PendingCompare: "compares (\<lambda>x y. Inr (PendingCompare x y)) PendingCompare S"
  by (simp add: compares_def)

interpretation pq: ordered_queue "SortedList_Insert (\<lambda>x y. Inr (PendingCompare x y))"
    List_RemoveFront List_IsEmpty List_new list_repr PendingCompare UNIV
  by (rule SortedList_ordered_queue [OF comparison_PendingCompare compares_PendingCompare])

lemma irq_new: "irq (Interrupt_new d) []"
  by (simp add: irq_def Interrupt_new_def list_repr_new)

lemma irq_cong: "pending m' = pending m \<Longrightarrow> nextAddr m' = nextAddr m \<Longrightarrow> irq m' xs = irq m xs"
  by (simp add: irq_def)

lemma irq_upd [simp]:
  "irq (m\<lparr>dev := d\<rparr>) xs = irq m xs" "irq (m\<lparr>level := i\<rparr>) xs = irq m xs"
  "irq (m\<lparr>stats := st\<rparr>) xs = irq m xs" "irq (m\<lparr>inHandler := b\<rparr>) xs = irq m xs"
  "irq (m\<lparr>mstatus := ms\<rparr>) xs = irq m xs" "irq (m\<lparr>yieldOnReturn := b\<rparr>) xs = irq m xs"
  by (simp_all add: irq_def)

text \<open>Scheduling puts the interrupt after every pending one that is due no later.\<close>

lemma Schedule_ok:
  assumes "irq m xs" "0 < fromNow"
  shows "\<exists>p m'. Interrupt_Schedule d fromNow k m = Inr m' \<and> irq m' (enter p xs)
     \<and> p = \<lparr>paddr = nextAddr m, callOnInterrupt = d, whenDue = now m + fromNow, itype = k\<rparr>
     \<and> m' = m\<lparr>pending := pending m', nextAddr := Suc (nextAddr m)\<rparr>"
proof -
  define p where "p = \<lparr>paddr = nextAddr m, callOnInterrupt = d, whenDue = now m + fromNow, itype = k\<rparr>"
  have "p \<notin> set xs" using assms(1) by (auto simp: irq_def p_def)
  then obtain l where l: "SortedList_Insert (\<lambda>x y. Inr (PendingCompare x y)) (pending m) p = Inr l"
    "list_repr l (enter p xs)"
    using pq.put_ok [of "pending m" xs p] assms(1) by (auto simp: irq_def)
  moreover have "in_order PendingCompare (enter p xs)"
    using in_order_insert_before [OF comparison_PendingCompare] assms(1) by (simp add: irq_def)
  ultimately show ?thesis
    using assms by (auto simp: Interrupt_Schedule_def irq_def p_def Let_def)
qed

lemma Schedule_past: "fromNow \<le> 0 \<Longrightarrow> Interrupt_Schedule d fromNow k m = Inl AssertFailed"
  by (simp add: Interrupt_Schedule_def)

lemma due_enter: "t < whenDue p \<Longrightarrow> due t (enter p xs) = due t xs"
  by (induction xs) (auto simp: PendingCompare_def split: if_splits)

lemma due_enter_all: "\<forall>p\<in>set ps. t < whenDue p \<Longrightarrow> due t (fold enter ps xs) = due t xs"
  by (induction ps arbitrary: xs) (auto simp: due_enter)


lemma later_enter_all: "\<forall>p\<in>set ps. t < whenDue p \<Longrightarrow> later t (fold enter ps xs) = fold enter ps (later t xs)"
proof (induction ps arbitrary: xs)
  case Nil
  then show ?case by simp
next
  case (Cons p ps)
  have "later t (enter p xs) = enter p (later t xs)"
    using Cons.prems by (induction xs) (auto simp: PendingCompare_def split: if_splits)
  with Cons show ?case by simp
qed

lemma fold_enter_Nil_iff: "fold enter ps xs = [] \<longleftrightarrow> ps = [] \<and> xs = []"
  using pq.length_fold_place [of ps xs] by auto

lemma later_all: "in_order PendingCompare xs \<Longrightarrow> p \<in> set (later t xs) \<Longrightarrow> t < whenDue p"
  by (induction xs) (auto simp: PendingCompare_def split: if_splits)

subsection \<open>What the interrupt simulation needs of the handlers\<close>

definition same_time :: "'d machine \<Rightarrow> 'd machine \<Rightarrow> bool" where
  "same_time m m' \<longleftrightarrow> now m' = now m \<and> idleTicks (stats m') = idleTicks (stats m)
     \<and> systemTicks (stats m') = systemTicks (stats m) \<and> userTicks (stats m') = userTicks (stats m)
     \<and> level m' = level m \<and> inHandler m' = inHandler m \<and> mstatus m' = mstatus m"

lemma same_time_refl [simp]: "same_time m m"
  by (simp add: same_time_def)

lemma same_time_trans: "same_time a b \<Longrightarrow> same_time b c \<Longrightarrow> same_time a c"
  by (simp add: same_time_def)

text \<open>\<open>future m m'\<close>: from \<open>m\<close> to \<open>m'\<close> interrupts were only added, all of them later than now.\<close>

definition future :: "'d machine \<Rightarrow> PendingInterrupt list \<Rightarrow> 'd machine \<Rightarrow> PendingInterrupt list \<Rightarrow> bool" where
  "future m xs m' ps \<longleftrightarrow> irq m' (fold enter ps xs) \<and> (\<forall>p\<in>set ps. now m < whenDue p) \<and> same_time m m'"

text \<open>Interrupts of the devices in \<open>D\<close> only.\<close>

abbreviation only_from :: "CallBackObj set \<Rightarrow> PendingInterrupt list \<Rightarrow> bool" where
  "only_from D xs \<equiv> callOnInterrupt ` set xs \<subseteq> D"

lemma set_fold_enter: "set (fold enter ps xs) = set ps \<union> set xs"
  by (induction ps arbitrary: xs) auto

lemma only_from_later: "only_from D xs \<Longrightarrow> only_from D (later t xs)"
  by (auto dest: set_dropWhileD)

text \<open>One round of the loop that fires the interrupts: take \<open>p\<close> off the list and call it back.\<close>

definition invoke :: "'d hooks \<Rightarrow> PendingInterrupt \<Rightarrow> 'd machine \<Rightarrow> 'd machine res" where
  "invoke h p m =
     bindR (List_RemoveFront (pending m)) (\<lambda>(q, l). assertR (q = p)
       (onCallBack h (callOnInterrupt p) (m\<lparr>pending := l\<rparr>)))"

text \<open>The books balance: every tick is idle, system or user time.\<close>

definition books :: "'d machine \<Rightarrow> bool" where
  "books m \<longleftrightarrow> now m = idleTicks (stats m) + systemTicks (stats m) + userTicks (stats m)"

text \<open>The length of one tick.\<close>

definition tick_of :: "'d machine \<Rightarrow> int" where
  "tick_of m = (if mstatus m = SystemMode then SystemTick else UserTick)"

text \<open>The machine when the clock has been advanced to \<open>t\<close> by idling.\<close>

definition clock_at :: "int \<Rightarrow> 'd machine \<Rightarrow> 'd machine" where
  "clock_at t m = m\<lparr>stats := (stats m)\<lparr>idleTicks := idleTicks (stats m) + (t - now m), totalTicks := t\<rparr>\<rparr>"

locale handlers =
  fixes h :: "'d hooks" and good :: "'d \<Rightarrow> bool" and D :: "CallBackObj set"
  assumes callback_ok: "irq m xs \<Longrightarrow> level m = IntOff \<Longrightarrow> inHandler m \<Longrightarrow> good (dev m) \<Longrightarrow> d \<in> D \<Longrightarrow>
      only_from D xs \<Longrightarrow> \<exists>m' ps. onCallBack h d m = Inr m' \<and> future m xs m' ps \<and> only_from D ps \<and> good (dev m')"
    and load_ok: "good (dev m) \<Longrightarrow> \<exists>d. onDelayedLoad h m = Inr (m\<lparr>dev := d\<rparr>) \<and> good d"
begin

lemma fire_due_ok:
  assumes "irq m xs" "level m = IntOff" "inHandler m" "good (dev m)"
    "due (now m) xs \<noteq> []" "length (due (now m) xs) \<le> k" "only_from D xs"
  shows "\<exists>m' ps. fire_due k h m = Inr m' \<and> eachR (invoke h) (due (now m) xs) m = Inr m'
     \<and> future m (later (now m) xs) m' ps \<and> only_from D ps \<and> good (dev m')"
  using assms
proof (induction k arbitrary: m xs)
  case 0
  then show ?case by simp
next
  case (Suc k)
  then obtain p xs' where xs: "xs = p # xs'" "whenDue p \<le> now m"
    by (cases xs) (auto split: if_splits)
  obtain l where l: "List_RemoveFront (pending m) = Inr (p, l)" "list_repr l xs'"
    using RemoveFront_ok [of "pending m" p xs'] Suc.prems(1) xs(1) by (auto simp: irq_def)
  have "irq (m\<lparr>pending := l\<rparr>) xs'" using l(2) Suc.prems(1) xs(1) by (auto simp: irq_def)
  from callback_ok [OF this, of "callOnInterrupt p"] Suc.prems xs(1) obtain m1 ps where
    m1: "onCallBack h (callOnInterrupt p) (m\<lparr>pending := l\<rparr>) = Inr m1" "good (dev m1)"
      "irq m1 (fold enter ps xs')" "\<forall>p\<in>set ps. now m < whenDue p" "same_time m m1"
      "only_from D ps"
    by (auto simp: future_def same_time_def)
  let ?ys = "fold enter ps xs'"
  have t: "now m1 = now m" "level m1 = IntOff" "inHandler m1"
    using m1(5) Suc.prems by (auto simp: same_time_def)
  have split: "due (now m) ?ys = due (now m) xs'" "later (now m) ?ys = fold enter ps (later (now m) xs')"
    using due_enter_all later_enter_all m1(4) by blast+
  have inv: "invoke h p m = Inr m1" using l(1) m1(1) by (simp add: invoke_def)
  have empty: "List_IsEmpty (pending m1) \<longleftrightarrow> ?ys = []"
    using m1(3) list_repr_empty by (auto simp: irq_def)
  have front: "List_Front (pending m1) = Inr (hd ?ys)" if "?ys \<noteq> []"
    using m1(3) list_repr_Front [of "pending m1" "hd ?ys" "tl ?ys"] that by (auto simp: irq_def)
  show ?case
  proof (cases "due (now m) xs' = []")
    case True
    have stop: "?ys \<noteq> [] \<Longrightarrow> now m < whenDue (hd ?ys)"
      using split(1) True by (cases ?ys) (auto split: if_splits)
    have lat: "later (now m) xs = xs'" using True xs by (cases xs') (auto split: if_splits)
    have "fire_due (Suc k) h m = Inr m1"
      using l(1) m1(1) empty front stop t(1) by (cases "?ys = []") (auto simp: not_le)
    then show ?thesis
      using inv xs True m1 lat by (auto simp: future_def)
  next
    case False
    have ne: "?ys \<noteq> []" using False split(1) by auto
    have front_due: "whenDue (hd ?ys) \<le> now m"
      using False ne split(1) by (cases ?ys) (auto split: if_splits)
    have "\<exists>m' qs. fire_due k h m1 = Inr m' \<and> eachR (invoke h) (due (now m1) ?ys) m1 = Inr m'
       \<and> future m1 (later (now m1) ?ys) m' qs \<and> only_from D qs \<and> good (dev m')"
      by (rule Suc.IH [OF m1(3)])
         (use t m1(2,6) False split(1) Suc.prems(6,7) xs in \<open>auto simp: set_fold_enter\<close>)
    then obtain m' qs where m': "fire_due k h m1 = Inr m'" "eachR (invoke h) (due (now m) xs') m1 = Inr m'"
      "future m1 (fold enter ps (later (now m) xs')) m' qs" "good (dev m')" "only_from D qs"
      using split t by auto
    have "future m (later (now m) xs) m' (ps @ qs)"
      using m'(3) m1(4,5) t(1) xs by (auto simp: future_def intro: same_time_trans)
    moreover have "fire_due (Suc k) h m = Inr m'"
      using l(1) m1(1) empty front [OF ne] ne front_due t(1) m'(1) by simp
    ultimately show ?thesis using m' m1(6) inv xs
      by (intro exI [of _ m'] exI [of _ "ps @ qs"]) auto
  qed
qed

lemma invoke_handlers_ok:
  assumes "irq m xs" "level m = IntOff" "good (dev m)" "due (now m) xs \<noteq> []" "only_from D xs"
  shows "\<exists>m' ps. invoke_handlers h m = Inr (True, m') \<and> irq m' (fold enter ps (later (now m) xs))
     \<and> only_from D ps \<and> (\<forall>p\<in>set ps. now m < whenDue p) \<and> same_time (m\<lparr>inHandler := False\<rparr>) m' \<and> good (dev m')"
proof -
  from load_ok [OF assms(3)] obtain d where d: "onDelayedLoad h m = Inr (m\<lparr>dev := d\<rparr>)" "good d" by auto
  have n: "nat (numInList (pending m)) = length xs"
    using assms(1) list_repr_length [of "pending m" xs] by (simp add: irq_def)
  let ?m = "m\<lparr>dev := d, inHandler := True\<rparr>"
  have "\<exists>m' ps. fire_due (length xs) h ?m = Inr m' \<and> eachR (invoke h) (due (now ?m) xs) ?m = Inr m'
     \<and> future ?m (later (now ?m) xs) m' ps \<and> only_from D ps \<and> good (dev m')"
    by (rule fire_due_ok) (use assms d in \<open>auto simp: irq_def length_takeWhile_le\<close>)
  then obtain m' ps where "fire_due (length xs) h ?m = Inr m'"
    "future ?m (later (now m) xs) m' ps" "only_from D ps" "good (dev m')" by auto
  then show ?thesis
    using d(1) n by (auto simp: invoke_handlers_def future_def same_time_def irq_def)
qed


text \<open>
  \<^verbatim>\<open>CheckIfDue\<close> fires exactly the interrupts that are due; when it may advance the clock and
  nothing is due yet, it moves the clock to the next interrupt first. In \<open>checked\<close>, \<open>t\<close> is the
  time at which the handlers ran.
\<close>

definition checked :: "'d machine \<Rightarrow> PendingInterrupt list \<Rightarrow> int \<Rightarrow> 'd machine \<Rightarrow> PendingInterrupt list \<Rightarrow> bool" where
  "checked m xs t m' ps \<longleftrightarrow> irq m' (fold enter ps (later t xs)) \<and> (\<forall>p\<in>set ps. t < whenDue p)
     \<and> now m' = t \<and> idleTicks (stats m') = idleTicks (stats m) + (t - now m)
     \<and> systemTicks (stats m') = systemTicks (stats m) \<and> userTicks (stats m') = userTicks (stats m)
     \<and> level m' = level m \<and> mstatus m' = mstatus m \<and> (inHandler m' \<longrightarrow> inHandler m)"

lemma CheckIfDue_empty:
  "irq m [] \<Longrightarrow> level m = IntOff \<Longrightarrow> Interrupt_CheckIfDue h adv m = Inr (False, m)"
  using list_repr_empty by (auto simp: Interrupt_CheckIfDue_def irq_def)

lemma irq_front: "irq m (x # xs) \<Longrightarrow> \<not> List_IsEmpty (pending m) \<and> List_Front (pending m) = Inr x"
  using list_repr_empty list_repr_Front by (fastforce simp: irq_def)

lemma CheckIfDue_early:
  "irq m (x # xs) \<Longrightarrow> level m = IntOff \<Longrightarrow> now m < whenDue x \<Longrightarrow>
   Interrupt_CheckIfDue h False m = Inr (False, m)"
  by (auto simp: Interrupt_CheckIfDue_def irq_front)

lemma CheckIfDue_fires:
  assumes "irq m (x # xs)" "level m = IntOff" "good (dev m)" "only_from D (x # xs)"
    "whenDue x \<le> now m \<or> adv"
  shows "\<exists>m' ps. Interrupt_CheckIfDue h adv m = Inr (True, m')
     \<and> checked m (x # xs) (max (now m) (whenDue x)) m' ps \<and> only_from D ps \<and> \<not> inHandler m' \<and> good (dev m')"
proof -
  let ?t = "max (now m) (whenDue x)"
  let ?m = "m\<lparr>stats := (stats m)\<lparr>idleTicks := idleTicks (stats m) + (?t - now m), totalTicks := ?t\<rparr>\<rparr>"
  have m: "?m = m" if "whenDue x \<le> now m" using that by simp
  have "\<exists>m' ps. invoke_handlers h ?m = Inr (True, m') \<and> irq m' (fold enter ps (later (now ?m) (x # xs)))
     \<and> only_from D ps
     \<and> (\<forall>p\<in>set ps. now ?m < whenDue p) \<and> same_time (?m\<lparr>inHandler := False\<rparr>) m' \<and> good (dev m')"
    by (rule invoke_handlers_ok) (use assms in \<open>auto simp: irq_def\<close>)
  moreover have "Interrupt_CheckIfDue h adv m = invoke_handlers h ?m"
    using assms irq_front [OF assms(1)] m
    by (cases "whenDue x \<le> now m") (auto simp: Interrupt_CheckIfDue_def max_def)
  ultimately obtain m' ps where m': "Interrupt_CheckIfDue h adv m = Inr (True, m')"
    "irq m' (fold enter ps (later ?t (x # xs)))" "\<forall>p\<in>set ps. ?t < whenDue p"
    "same_time (?m\<lparr>inHandler := False\<rparr>) m'" "good (dev m')" "only_from D ps"
    by auto
  then show ?thesis
    by (intro exI [of _ m'] exI [of _ ps]) (auto simp: checked_def same_time_def)
qed

lemma Idle_halts: "irq m [] \<Longrightarrow> level m = IntOff \<Longrightarrow> Interrupt_Idle h m = Inl Halted"
  using CheckIfDue_empty [of "m\<lparr>mstatus := IdleMode\<rparr>"] by (simp add: Interrupt_Idle_def irq_def)

lemma Idle_ok:
  assumes "irq m (x # xs)" "level m = IntOff" "good (dev m)" "only_from D (x # xs)"
  shows "\<exists>m' ps. Interrupt_Idle h m = Inr m' \<and> mstatus m' = SystemMode \<and> only_from D ps
     \<and> checked (m\<lparr>mstatus := SystemMode\<rparr>) (x # xs) (max (now m) (whenDue x)) m' ps \<and> good (dev m')"
proof -
  have "\<exists>m' ps. Interrupt_CheckIfDue h True (m\<lparr>mstatus := IdleMode\<rparr>) = Inr (True, m')
     \<and> checked (m\<lparr>mstatus := IdleMode\<rparr>) (x # xs) (max (now (m\<lparr>mstatus := IdleMode\<rparr>)) (whenDue x)) m' ps
     \<and> only_from D ps \<and> \<not> inHandler m' \<and> good (dev m')"
    by (rule CheckIfDue_fires) (use assms in \<open>auto simp: irq_def\<close>)
  then obtain m' ps where m': "Interrupt_CheckIfDue h True (m\<lparr>mstatus := IdleMode\<rparr>) = Inr (True, m')"
    "checked (m\<lparr>mstatus := IdleMode\<rparr>) (x # xs) (max (now m) (whenDue x)) m' ps" "only_from D ps" "good (dev m')" by auto
  then show ?thesis
    by (intro exI [of _ "m'\<lparr>mstatus := SystemMode\<rparr>"] exI [of _ ps])
       (auto simp: Interrupt_Idle_def checked_def irq_def)
qed

lemma OneTick_ok:
  assumes "irq m xs" "good (dev m)" "only_from D xs"
    and yield: "\<And>m' ps. irq m' ps \<Longrightarrow> now m' = now m + tick_of m \<Longrightarrow> level m' = IntOn \<Longrightarrow> good (dev m') \<Longrightarrow>
       (books m \<Longrightarrow> books m') \<Longrightarrow> mstatus m' = SystemMode \<Longrightarrow> \<not> yieldOnReturn m' \<Longrightarrow>
       \<exists>m''. onYield h m' = Inr m'' \<and> P (m''\<lparr>mstatus := mstatus m\<rparr>)"
    and stay: "\<And>m' ps. irq m' (fold enter ps (later (now m') xs)) \<Longrightarrow> now m' = now m + tick_of m \<Longrightarrow>
       \<forall>p\<in>set ps. now m' < whenDue p \<Longrightarrow> level m' = IntOn \<Longrightarrow> good (dev m') \<Longrightarrow>
       (books m \<Longrightarrow> books m') \<Longrightarrow> P m'"
  shows "\<exists>m'. Interrupt_OneTick h m = Inr m' \<and> P m'"
proof -
  define m1 where "m1 = m\<lparr>stats := (if mstatus m = SystemMode
      then (stats m)\<lparr>totalTicks := now m + SystemTick, systemTicks := systemTicks (stats m) + SystemTick\<rparr>
      else (stats m)\<lparr>totalTicks := now m + UserTick, userTicks := userTicks (stats m) + UserTick\<rparr>),
      level := IntOff\<rparr>"
  have m1: "irq m1 xs" "level m1 = IntOff" "now m1 = now m + tick_of m" "good (dev m1)"
    "books m \<Longrightarrow> books m1"
    using assms(1,2) by (auto simp: m1_def irq_def tick_of_def books_def)
  have "\<exists>b m2 ps. Interrupt_CheckIfDue h False m1 = Inr (b, m2) \<and> irq m2 (fold enter ps (later (now m1) xs))
     \<and> (\<forall>p\<in>set ps. now m1 < whenDue p) \<and> now m2 = now m1 \<and> good (dev m2)
     \<and> (books m1 \<longrightarrow> books m2)"
  proof (cases xs)
    case Nil
    with m1 CheckIfDue_empty [of m1 False] show ?thesis by (auto intro: exI [of _ "[]"])
  next
    case (Cons x xs')
    show ?thesis
    proof (cases "whenDue x \<le> now m1")
      case True
      with m1 Cons assms(3) CheckIfDue_fires [of m1 x xs' False] show ?thesis
        by (fastforce simp: checked_def max_def books_def)
    next
      case False
      with m1 Cons CheckIfDue_early [of m1 x xs'] show ?thesis by (auto intro: exI [of _ "[]"])
    qed
  qed
  then obtain b m2 ps where m2: "Interrupt_CheckIfDue h False m1 = Inr (b, m2)"
    "irq m2 (fold enter ps (later (now m1) xs))" "\<forall>p\<in>set ps. now m1 < whenDue p"
    "now m2 = now m1" "good (dev m2)" "books m1 \<longrightarrow> books m2" by blast
  let ?m3 = "m2\<lparr>level := IntOn\<rparr>"
  have eq: "Interrupt_OneTick h m = (if yieldOnReturn ?m3
      then bindR (onYield h (?m3\<lparr>yieldOnReturn := False, mstatus := SystemMode\<rparr>))
             (\<lambda>m'. Inr (m'\<lparr>mstatus := mstatus m\<rparr>)) else Inr ?m3)"
    using m2(1) by (simp add: Interrupt_OneTick_def m1_def Let_def)
  show ?thesis
  proof (cases "yieldOnReturn m2")
    case True
    have "\<exists>m''. onYield h (?m3\<lparr>yieldOnReturn := False, mstatus := SystemMode\<rparr>) = Inr m''
       \<and> P (m''\<lparr>mstatus := mstatus m\<rparr>)"
      by (rule yield) (use m2 m1 in \<open>auto simp: irq_def books_def\<close>)
    with True show ?thesis by (auto simp: eq)
  next
    case False
    have "P ?m3" by (rule stay [of _ ps]) (use m2 m1 in \<open>auto simp: irq_def books_def\<close>)
    with False show ?thesis by (simp add: eq)
  qed
qed

text \<open>The handlers are called one after the other, in the order of their interrupts.\<close>

lemma CheckIfDue_calls:
  assumes "irq m (x # xs)" "level m = IntOff" "good (dev m)" "only_from D (x # xs)"
    "whenDue x \<le> now m \<or> adv" "t = max (now m) (whenDue x)"
  shows "\<exists>d m2. Interrupt_CheckIfDue h adv m = Inr (True, m2\<lparr>inHandler := False\<rparr>)
     \<and> eachR (invoke h) (due t (x # xs)) ((clock_at t m)\<lparr>dev := d, inHandler := True\<rparr>) = Inr m2
     \<and> (\<exists>ps. irq m2 (fold enter ps (later t (x # xs))) \<and> (\<forall>p\<in>set ps. t < whenDue p)) \<and> now m2 = t"
proof -
  let ?m = "clock_at t m"
  have m: "?m = m" if "whenDue x \<le> now m" using that assms(6) by (simp add: clock_at_def)
  have nowm: "now ?m = t" "dev ?m = dev m" "irq ?m (x # xs)" "level ?m = IntOff"
    using assms(1,2) by (simp_all add: clock_at_def)
  from load_ok [of ?m] assms(3) obtain d where
    d: "onDelayedLoad h ?m = Inr (?m\<lparr>dev := d\<rparr>)" "good d" by (auto simp: nowm)
  have n: "nat (numInList (pending ?m)) = length (x # xs)"
    using nowm(3) list_repr_length [of "pending ?m" "x # xs"] by (simp add: irq_def)
  let ?m1 = "?m\<lparr>dev := d, inHandler := True\<rparr>"
  have t1: "now ?m1 = t" using nowm(1) by simp
  have "due t (x # xs) \<noteq> []" using assms(6) by simp
  then have "\<exists>m' ps. fire_due (length (x # xs)) h ?m1 = Inr m' \<and> eachR (invoke h) (due (now ?m1) (x # xs)) ?m1 = Inr m'
     \<and> future ?m1 (later (now ?m1) (x # xs)) m' ps \<and> only_from D ps \<and> good (dev m')"
    by (intro fire_due_ok) (use assms(4) nowm d t1 in \<open>simp_all only: irq_upd length_takeWhile_le, simp_all\<close>)
  then obtain m2 ps where m2: "fire_due (length (x # xs)) h ?m1 = Inr m2"
    "eachR (invoke h) (due t (x # xs)) ?m1 = Inr m2" "future ?m1 (later t (x # xs)) m2 ps"
    unfolding t1 by blast
  have "Interrupt_CheckIfDue h adv m = invoke_handlers h ?m"
    using assms(2,5,6) irq_front [OF assms(1)] m
    by (cases "whenDue x \<le> now m") (auto simp: Interrupt_CheckIfDue_def clock_at_def max_def)
  moreover have "invoke_handlers h ?m = Inr (True, m2\<lparr>inHandler := False\<rparr>)"
    using d(1) n m2(1) by (simp add: invoke_handlers_def)
  ultimately show ?thesis
    using m2(2,3) t1 by (intro exI [of _ d] exI [of _ m2]) (auto simp: future_def same_time_def)
qed

end

subsection \<open>Ticks with nothing pending\<close>

definition ticked :: "'d machine \<Rightarrow> 'd machine" where
  "ticked m = m\<lparr>level := IntOn, stats := (if mstatus m = SystemMode
      then (stats m)\<lparr>totalTicks := now m + SystemTick, systemTicks := systemTicks (stats m) + SystemTick\<rparr>
      else (stats m)\<lparr>totalTicks := now m + UserTick, userTicks := userTicks (stats m) + UserTick\<rparr>)\<rparr>"

lemma OneTick_quiet: "irq m [] \<Longrightarrow> \<not> yieldOnReturn m \<Longrightarrow> Interrupt_OneTick h m = Inr (ticked m)"
  using list_repr_empty [of "pending m" "[]"]
  by (simp add: Interrupt_OneTick_def Interrupt_CheckIfDue_def irq_def ticked_def Let_def)

lemma SetLevel_off: "Interrupt_SetLevel h IntOff m = Inr (level m, m\<lparr>level := IntOff\<rparr>)"
  by (simp add: Interrupt_SetLevel_def Let_def)

lemma SetLevel_on_quiet:
  "irq m [] \<Longrightarrow> \<not> yieldOnReturn m \<Longrightarrow> \<not> inHandler m \<Longrightarrow> level m = IntOff \<Longrightarrow>
   Interrupt_SetLevel h IntOn m = Inr (IntOff, ticked m)"
  using OneTick_quiet [of "m\<lparr>level := IntOn\<rparr>" h]
  by (simp add: Interrupt_SetLevel_def irq_def ticked_def Let_def)

lemma ticked_simps [simp]:
  "irq (ticked m) xs = irq m xs" "level (ticked m) = IntOn" "dev (ticked m) = dev m"
  "mstatus m = SystemMode \<Longrightarrow> now (ticked m) = now m + SystemTick"
  "inHandler (ticked m) = inHandler m" "yieldOnReturn (ticked m) = yieldOnReturn m"
  "mstatus (ticked m) = mstatus m"
  by (simp_all add: ticked_def irq_def)

end
