(* ===== verification/Bytes.thy ===== *)
theory Bytes
  imports Prelude
begin

text \<open>
  Memory as bytes: how the C program lays out \<^verbatim>\<open>int\<close>s when it copies structures to disk sectors
  and UNIX files (the host is a little-endian x86), arrays of them, zero-terminated names, and
  the round trips. The locale \<open>byte_codec\<close> is the contract of a fixed-width encoding.
\<close>

type_synonym byte = "8 word"

subsection \<open>Integers\<close>

definition int_bytes :: "int \<Rightarrow> byte list" where
  "int_bytes i = map (\<lambda>k. word_of_int (i div 256 ^ k)) [0..<4]"

definition bytes_uint :: "byte list \<Rightarrow> int" where
  "bytes_uint bs = (\<Sum>k<length bs. uint (bs ! k) * 256 ^ k)"

definition bytes_int :: "byte list \<Rightarrow> int" where
  "bytes_int bs = (let u = bytes_uint bs in if u < 2 ^ 31 then u else u - 2 ^ 32)"

lemma length_int_bytes [simp, layout_simps]: "length (int_bytes i) = 4"
  by (simp add: int_bytes_def)

lemma list4: "length bs = 4 \<Longrightarrow> \<exists>a b c d. bs = [a, b, c, d]"
  by (auto simp: numeral_eq_Suc length_Suc_conv)

lemma bytes_uint_4: "bytes_uint [a, b, c, d] = uint a + 256 * uint b + 65536 * uint c + 16777216 * uint d"
  by (simp add: bytes_uint_def eval_nat_numeral lessThan_Suc algebra_simps)

lemma int_bytes_4: "int_bytes i =
    [word_of_int i, word_of_int (i div 256), word_of_int (i div 65536), word_of_int (i div 16777216)]"
  by (simp add: int_bytes_def upt_rec)

lemma byte_range: "0 \<le> uint (b :: byte) \<and> uint b < 256"
  using uint_lt2p [of b] by (simp add: uint_ge_0)

lemma bytes_uint_int_bytes: "bytes_uint (int_bytes i) = i mod 2 ^ 32"
proof -
  have "i mod (256 * 256) = 256 * (i div 256 mod 256) + i mod 256"
    "i mod (65536 * 256) = 65536 * (i div 65536 mod 256) + i mod 65536"
    "i mod (16777216 * 256) = 16777216 * (i div 16777216 mod 256) + i mod 16777216"
    by (rule zmod_zmult2_eq; simp)+
  then show ?thesis by (simp add: int_bytes_4 bytes_uint_4 uint_word_of_int)
qed

lemma bytes_int_int_bytes: "int_fits i \<Longrightarrow> bytes_int (int_bytes i) = i"
proof -
  assume i: "int_fits i"
  show ?thesis
  proof (cases "0 \<le> i")
    case True
    with i show ?thesis
      unfolding bytes_int_def bytes_uint_int_bytes Let_def int_fits_def by simp
  next
    case False
    then have "(i + 2 ^ 32) mod 2 ^ 32 = i + 2 ^ 32"
      using i unfolding int_fits_def by (intro mod_pos_pos_trivial) auto
    then have "i mod 2 ^ 32 = i + 2 ^ 32" by (simp only: mod_add_self2)
    with i False show ?thesis
      unfolding bytes_int_def bytes_uint_int_bytes Let_def int_fits_def by simp
  qed
qed

lemma int_bytes_bytes_int: "length bs = 4 \<Longrightarrow> int_bytes (bytes_int bs) = bs"
proof -
  assume "length bs = 4"
  then obtain a b c d where bs: "bs = [a, b, c, d]" using list4 by blast
  obtain i where i: "i = bytes_int bs" by simp
  have r: "0 \<le> uint a" "uint a < 256" "0 \<le> uint b" "uint b < 256" "0 \<le> uint c" "uint c < 256"
    "0 \<le> uint d" "uint d < 256" using byte_range by auto
  have u: "i mod 4294967296 = uint a + 256 * uint b + 65536 * uint c + 16777216 * uint d"
    using r unfolding i bs bytes_int_def bytes_uint_4 Let_def by (auto split: if_splits)
  have sum: "bytes_uint (int_bytes i) = uint a + 256 * uint b + 65536 * uint c + 16777216 * uint d"
    using u by (simp add: bytes_uint_int_bytes)
  obtain a' b' c' d' where e: "int_bytes i = [a', b', c', d']"
    using list4 [OF length_int_bytes] by blast
  have r': "0 \<le> uint a'" "uint a' < 256" "0 \<le> uint b'" "uint b' < 256" "0 \<le> uint c'" "uint c' < 256"
    "0 \<le> uint d'" "uint d' < 256" using byte_range by auto
  have digit: "x = y \<and> p = q" if "x + 256 * p = y + 256 * q" "0 \<le> x" "x < 256" "0 \<le> y" "y < 256"
    for x y p q :: int
  proof -
    have "\<not> p < q" "\<not> q < p" using that by linarith+
    then have "p = q" by simp
    with that show ?thesis by simp
  qed
  have "uint a' + 256 * (uint b' + 256 * (uint c' + 256 * uint d'))
      = uint a + 256 * (uint b + 256 * (uint c + 256 * uint d))"
    using sum unfolding e bytes_uint_4 by simp
  note a = digit [OF this r'(1,2) r(1,2)]
  note b = digit [OF conjunct2 [OF a] r'(3,4) r(3,4)]
  note c = digit [OF conjunct2 [OF b] r'(5,6) r(5,6)]
  have "uint a' = uint a \<and> uint b' = uint b \<and> uint c' = uint c \<and> uint d' = uint d"
    using a b c by simp
  then have "int_bytes i = bs" unfolding bs e by (simp add: word_uint_eq_iff)
  then show ?thesis unfolding i .
qed

lemma int_fits_bytes_int: "length bs = 4 \<Longrightarrow> int_fits (bytes_int bs)"
proof -
  assume "length bs = 4"
  then obtain a b c d where bs: "bs = [a, b, c, d]" using list4 by blast
  have r: "0 \<le> uint a" "uint a < 256" "0 \<le> uint b" "uint b < 256" "0 \<le> uint c" "uint c < 256"
    "0 \<le> uint d" "uint d < 256" using byte_range by auto
  have "0 \<le> bytes_uint bs \<and> bytes_uint bs < 2 ^ 32"
    using r unfolding bs bytes_uint_4 by auto
  then show ?thesis unfolding bytes_int_def Let_def int_fits_def by auto
qed

subsection \<open>Fixed-width codecs\<close>

text \<open>Cutting a byte string into pieces of equal size, as an array of structures is laid out.\<close>

fun pieces :: "nat \<Rightarrow> nat \<Rightarrow> 'b list \<Rightarrow> 'b list list" where
  "pieces w 0 bs = []"
| "pieces w (Suc n) bs = take w bs # pieces w n (drop w bs)"

locale byte_codec =
  fixes enc :: "'a \<Rightarrow> byte list" and dec :: "byte list \<Rightarrow> 'a" and width :: nat and valid :: "'a \<Rightarrow> bool"
  assumes enc_length: "valid x \<Longrightarrow> length (enc x) = width"
    and dec_enc: "valid x \<Longrightarrow> dec (enc x) = x"
begin

lemma array_length: "list_all valid xs \<Longrightarrow> length (concat (map enc xs)) = length xs * width"
  by (induction xs) (auto simp: enc_length)

lemma array_roundtrip:
  "list_all valid xs \<Longrightarrow> map dec (pieces width (length xs) (concat (map enc xs) @ rest)) = xs"
  by (induction xs) (auto simp: enc_length dec_enc)

lemma enc_inj: "valid x \<Longrightarrow> valid y \<Longrightarrow> enc x = enc y \<Longrightarrow> x = y"
  by (metis dec_enc)

end

interpretation int_codec: byte_codec int_bytes bytes_int 4 int_fits
  by unfold_locales (auto simp: bytes_int_int_bytes)

definition ints_bytes :: "int list \<Rightarrow> byte list" where
  "ints_bytes is = concat (map int_bytes is)"

definition bytes_ints :: "nat \<Rightarrow> byte list \<Rightarrow> int list" where
  "bytes_ints n bs = map bytes_int (pieces 4 n bs)"

lemma length_ints_bytes [simp, layout_simps]: "length (ints_bytes is) = 4 * length is"
  by (induction "is") (auto simp: ints_bytes_def)

lemma length_pieces [simp]: "length (pieces w n bs) = n"
  by (induction n arbitrary: bs) auto

lemma length_bytes_ints [simp, layout_simps]: "length (bytes_ints n bs) = n"
  by (simp add: bytes_ints_def)

lemma bytes_ints_ints_bytes: "list_all int_fits is \<Longrightarrow> bytes_ints (length is) (ints_bytes is @ rest) = is"
  unfolding bytes_ints_def ints_bytes_def by (rule int_codec.array_roundtrip)

lemma ints_bytes_bytes_ints:
  "length bs = 4 * n \<Longrightarrow> ints_bytes (bytes_ints n bs) = bs"
proof (induction n arbitrary: bs)
  case 0
  then show ?case by (simp add: ints_bytes_def bytes_ints_def)
next
  case (Suc n)
  then have "length (drop 4 bs) = 4 * n" "length (take 4 bs) = 4" by auto
  with Suc.IH [of "drop 4 bs"] int_bytes_bytes_int [of "take 4 bs"] show ?case
    by (simp add: ints_bytes_def bytes_ints_def)
qed

subsection \<open>Unsigned words\<close>

definition word_bytes :: "32 word \<Rightarrow> byte list" where
  "word_bytes w = int_bytes (uint w)"

definition bytes_word :: "byte list \<Rightarrow> 32 word" where
  "bytes_word bs = word_of_int (bytes_uint bs)"

interpretation word_codec: byte_codec word_bytes bytes_word 4 "\<lambda>_. True"
proof unfold_locales
  fix w :: "32 word"
  have "uint w mod 2 ^ 32 = uint w" using uint_lt2p [of w] by (intro mod_pos_pos_trivial) auto
  then show "bytes_word (word_bytes w) = w"
    unfolding bytes_word_def word_bytes_def bytes_uint_int_bytes by simp
qed (simp add: word_bytes_def)

end
