(* ===== verification/Disk.thy ===== *)
theory Disk
  imports Interrupts Bytes
begin

text \<open>
  The simulated disk: \<^verbatim>\<open>machine/disk.cc\<close> (the asynchronous device with its seek and rotation
  times, its track buffer and the UNIX file that holds the sectors) and \<^verbatim>\<open>filesys/synchdisk.cc\<close>
  (the synchronous interface on top of it). The device state is the record \<open>SynchDisk\<close>; the
  number of tracks is a field of it, so that the theorems hold for disks of every size. The main
  result is that the synchronous interface implements a plain array of sectors, the locale
  \<open>block_store\<close>, on which the file system is built.
\<close>

subsection \<open>Geometry and the UNIX file\<close>

definition SectorSize :: int where "SectorSize = 128"
definition SectorsPerTrack :: int where "SectorsPerTrack = 32"
definition NumTracks :: int where "NumTracks = 16384"
definition MagicNumber :: int where "MagicNumber = 0x456789ab"
definition MagicSize :: int where "MagicSize = 4"

definition NumSectors :: "int \<Rightarrow> int" where "NumSectors tracks = SectorsPerTrack * tracks"
definition DiskSize :: "int \<Rightarrow> int" where "DiskSize tracks = MagicSize + NumSectors tracks * SectorSize"

text \<open>
  \<^verbatim>\<open>Lseek\<close> followed by \<^verbatim>\<open>Read\<close> or \<^verbatim>\<open>WriteFile\<close> of \<^verbatim>\<open>lib/sysdep.cc\<close>: a short read fails an
  assertion, a write behind the end of the file leaves a hole that reads as zeros.
\<close>

definition unix_read :: "byte list \<Rightarrow> int \<Rightarrow> int \<Rightarrow> byte list res" where
  "unix_read f offset n =
     assertR (0 \<le> offset) (assertR (nat offset + nat n \<le> length f)
       (Inr (take (nat n) (drop (nat offset) f))))"

definition unix_write :: "byte list \<Rightarrow> int \<Rightarrow> byte list \<Rightarrow> byte list res" where
  "unix_write f offset bs =
     assertR (0 \<le> offset)
       (Inr (overwrite (nat offset) bs (f @ replicate (nat offset + length bs - length f) 0)))"

subsection \<open>The device\<close>

record SynchDisk =
  unixFile :: "byte list"
  numTracks :: int
  active :: bool
  lastSector :: int
  bufferInit :: int
  semaphore :: int
  lock :: int
  lockHolder :: bool

type_synonym disk_machine = "SynchDisk machine"

text \<open>\<^verbatim>\<open>Disk::Disk\<close>: open the file and check its magic number, or create it.\<close>

definition Disk_new :: "int \<Rightarrow> byte list option \<Rightarrow> SynchDisk res" where
  "Disk_new tracks file =
     bindR (case file of
              Some f \<Rightarrow> bindR (unix_read f 0 MagicSize) (\<lambda>m. assertR (bytes_int m = MagicNumber) (Inr f))
            | None \<Rightarrow> bindR (unix_write [] 0 (int_bytes MagicNumber)) (\<lambda>f.
                       unix_write f (DiskSize tracks - 4) (int_bytes 0)))
       (\<lambda>f. Inr \<lparr>unixFile = f, numTracks = tracks, active = False, lastSector = 0, bufferInit = 0,
                 semaphore = 0, lock = 1, lockHolder = False\<rparr>)"

definition Disk_TimeToSeek :: "disk_machine \<Rightarrow> int \<Rightarrow> int \<times> int" where
  "Disk_TimeToSeek m newSector =
     (let newTrack = newSector sdiv SectorsPerTrack;
          oldTrack = lastSector (dev m) sdiv SectorsPerTrack;
          seek = \<bar>newTrack - oldTrack\<bar> * SeekTime;
          over = (now m + seek) smod RotationTime
      in (seek, if over > 0 then RotationTime - over else 0))"

definition Disk_ModuloDiff :: "int \<Rightarrow> int \<Rightarrow> int" where
  "Disk_ModuloDiff to from =
     (let toOffset = to smod SectorsPerTrack; fromOffset = from smod SectorsPerTrack
      in ((toOffset - fromOffset) + SectorsPerTrack) smod SectorsPerTrack)"

definition Disk_ComputeLatency :: "disk_machine \<Rightarrow> int \<Rightarrow> bool \<Rightarrow> int" where
  "Disk_ComputeLatency m newSector writing =
     (case Disk_TimeToSeek m newSector of (seek, rotation) \<Rightarrow>
      let timeAfter = now m + seek + rotation
      in if \<not> writing \<and> seek = 0
            \<and> (timeAfter - bufferInit (dev m)) sdiv RotationTime
                > Disk_ModuloDiff newSector (bufferInit (dev m) sdiv RotationTime)
         then RotationTime
         else seek + (rotation + Disk_ModuloDiff newSector (timeAfter sdiv RotationTime) * RotationTime)
                + RotationTime)"

definition Disk_UpdateLast :: "int \<Rightarrow> disk_machine \<Rightarrow> disk_machine" where
  "Disk_UpdateLast newSector m =
     (case Disk_TimeToSeek m newSector of (seek, rotation) \<Rightarrow>
      m\<lparr>dev := (dev m)\<lparr>bufferInit := (if seek \<noteq> 0 then now m + seek + rotation else bufferInit (dev m)),
                       lastSector := newSector\<rparr>\<rparr>)"

definition Disk_ReadRequest :: "int \<Rightarrow> disk_machine \<Rightarrow> (byte list \<times> disk_machine) res" where
  "Disk_ReadRequest sectorNumber m =
     (let ticks = Disk_ComputeLatency m sectorNumber False
      in assertR (\<not> active (dev m))
        (assertR (0 \<le> sectorNumber \<and> sectorNumber < NumSectors (numTracks (dev m)))
          (bindR (unix_read (unixFile (dev m)) (SectorSize * sectorNumber + MagicSize) SectorSize) (\<lambda>bs.
           let m = Disk_UpdateLast sectorNumber (m\<lparr>dev := (dev m)\<lparr>active := True\<rparr>\<rparr>);
               m = m\<lparr>stats := (stats m)\<lparr>numDiskReads := numDiskReads (stats m) + 1\<rparr>\<rparr>
           in bindR (Interrupt_Schedule TheDisk ticks DiskInt m) (\<lambda>m. Inr (bs, m))))))"

definition Disk_WriteRequest :: "int \<Rightarrow> byte list \<Rightarrow> disk_machine \<Rightarrow> disk_machine res" where
  "Disk_WriteRequest sectorNumber data m =
     (let ticks = Disk_ComputeLatency m sectorNumber True
      in assertR (\<not> active (dev m))
        (assertR (0 \<le> sectorNumber \<and> sectorNumber < NumSectors (numTracks (dev m)))
          (bindR (unix_write (unixFile (dev m)) (SectorSize * sectorNumber + MagicSize) data) (\<lambda>f.
           let m = Disk_UpdateLast sectorNumber (m\<lparr>dev := (dev m)\<lparr>unixFile := f, active := True\<rparr>\<rparr>);
               m = m\<lparr>stats := (stats m)\<lparr>numDiskWrites := numDiskWrites (stats m) + 1\<rparr>\<rparr>
           in Interrupt_Schedule TheDisk ticks DiskInt m))))"

subsection \<open>The synchronous interface\<close>

text \<open>
  The disk is driven by one thread. For it \<^verbatim>\<open>Semaphore::P\<close> disables interrupts and, while the
  value is 0, sleeps: with no other thread to run, \<^verbatim>\<open>Thread::Sleep\<close> calls \<^verbatim>\<open>Interrupt::Idle\<close> until
  a handler has called \<^verbatim>\<open>V\<close>. The bound of the loop is the number of pending interrupts.
\<close>

fun sleep_until :: "nat \<Rightarrow> SynchDisk hooks \<Rightarrow> (SynchDisk \<Rightarrow> int) \<Rightarrow> disk_machine \<Rightarrow> disk_machine res" where
  "sleep_until k h value m =
     (if value (dev m) \<noteq> 0 then Inr m
      else case k of 0 \<Rightarrow> Inl NoReturn
           | Suc k \<Rightarrow> bindR (Interrupt_Idle h m) (sleep_until k h value))"

definition semaphore_P ::
  "SynchDisk hooks \<Rightarrow> (SynchDisk \<Rightarrow> int) \<Rightarrow> ((int \<Rightarrow> int) \<Rightarrow> SynchDisk \<Rightarrow> SynchDisk) \<Rightarrow>
   disk_machine \<Rightarrow> disk_machine res" where
  "semaphore_P h value update m =
     bindR (Interrupt_SetLevel h IntOff m) (\<lambda>(oldLevel, m).
     bindR (sleep_until (Suc (nat (numInList (pending m)))) h value m) (\<lambda>m.
     bindR (Interrupt_SetLevel h oldLevel (m\<lparr>dev := update (\<lambda>v. v - 1) (dev m)\<rparr>)) (\<lambda>(_, m).
     Inr m)))"

definition semaphore_V ::
  "SynchDisk hooks \<Rightarrow> ((int \<Rightarrow> int) \<Rightarrow> SynchDisk \<Rightarrow> SynchDisk) \<Rightarrow> disk_machine \<Rightarrow> disk_machine res" where
  "semaphore_V h update m =
     bindR (Interrupt_SetLevel h IntOff m) (\<lambda>(oldLevel, m).
     bindR (Interrupt_SetLevel h oldLevel (m\<lparr>dev := update (\<lambda>v. v + 1) (dev m)\<rparr>)) (\<lambda>(_, m).
     Inr m))"

definition lock_Acquire :: "SynchDisk hooks \<Rightarrow> disk_machine \<Rightarrow> disk_machine res" where
  "lock_Acquire h m =
     bindR (semaphore_P h lock lock_update m) (\<lambda>m. Inr (m\<lparr>dev := (dev m)\<lparr>lockHolder := True\<rparr>\<rparr>))"

definition lock_Release :: "SynchDisk hooks \<Rightarrow> disk_machine \<Rightarrow> disk_machine res" where
  "lock_Release h m =
     assertR (lockHolder (dev m))
       (semaphore_V h lock_update (m\<lparr>dev := (dev m)\<lparr>lockHolder := False\<rparr>\<rparr>))"

definition SynchDisk_CallBack :: "SynchDisk hooks \<Rightarrow> disk_machine \<Rightarrow> disk_machine res" where
  "SynchDisk_CallBack h m = semaphore_V h semaphore_update m"

definition Disk_CallBack :: "SynchDisk hooks \<Rightarrow> disk_machine \<Rightarrow> disk_machine res" where
  "Disk_CallBack h m = SynchDisk_CallBack h (m\<lparr>dev := (dev m)\<lparr>active := False\<rparr>\<rparr>)"

text \<open>
  The hooks of a machine whose only interrupting device is the disk; \<^verbatim>\<open>DelayedLoad(0, 0)\<close> changes
  only user registers, which are not part of this state, and \<open>yield\<close> is the scheduler's.
\<close>

definition disk_hooks :: "(disk_machine \<Rightarrow> disk_machine res) \<Rightarrow> SynchDisk hooks" where
  "disk_hooks yield =
     (let h = \<lparr>onCallBack = (\<lambda>d m. Inl NullPointer), onDelayedLoad = Inr, onYield = yield\<rparr>
      in h\<lparr>onCallBack := (\<lambda>d m. if d = TheDisk then Disk_CallBack h m else Inl NullPointer)\<rparr>)"

definition SynchDisk_ReadSector :: "SynchDisk hooks \<Rightarrow> int \<Rightarrow> disk_machine \<Rightarrow> (byte list \<times> disk_machine) res" where
  "SynchDisk_ReadSector h sectorNumber m =
     bindR (lock_Acquire h m) (\<lambda>m.
     bindR (Disk_ReadRequest sectorNumber m) (\<lambda>(data, m).
     bindR (semaphore_P h semaphore semaphore_update m) (\<lambda>m.
     bindR (lock_Release h m) (\<lambda>m. Inr (data, m)))))"

definition SynchDisk_WriteSector :: "SynchDisk hooks \<Rightarrow> int \<Rightarrow> byte list \<Rightarrow> disk_machine \<Rightarrow> disk_machine res" where
  "SynchDisk_WriteSector h sectorNumber data m =
     bindR (lock_Acquire h m) (\<lambda>m.
     bindR (Disk_WriteRequest sectorNumber data m) (\<lambda>m.
     bindR (semaphore_P h semaphore semaphore_update m) (\<lambda>m.
     lock_Release h m)))"


declare sleep_until.simps [simp del]

subsection \<open>How long a request takes\<close>

lemma TimeToSeek_bounds:
  assumes "0 \<le> now m" "0 \<le> s" "s < NumSectors (numTracks (dev m))"
    "0 \<le> lastSector (dev m)" "lastSector (dev m) < NumSectors (numTracks (dev m))"
    "Disk_TimeToSeek m s = (seek, rotation)"
  shows "0 \<le> seek \<and> seek \<le> (numTracks (dev m) - 1) * SeekTime \<and> 0 \<le> rotation \<and> rotation < RotationTime
     \<and> (now m + seek + rotation) mod RotationTime = 0"
proof -
  let ?a = "s div 32" and ?b = "lastSector (dev m) div 32" and ?n = "numTracks (dev m)"
  have ab: "0 \<le> ?a" "?a \<le> ?n - 1" "0 \<le> ?b" "?b \<le> ?n - 1"
    using assms by (auto simp: NumSectors_def SectorsPerTrack_def)
  have seek: "seek = \<bar>?a - ?b\<bar> * 500"
    and rot: "rotation = (if 0 < (now m + seek) mod 500 then 500 - (now m + seek) mod 500 else 0)"
    using assms by (auto simp: Disk_TimeToSeek_def SectorsPerTrack_def SeekTime_def RotationTime_def Let_def)
  have "(now m + seek + rotation) mod 500 = 0"
  proof (cases "0 < (now m + seek) mod 500")
    case True
    then have "now m + seek + rotation = ((now m + seek) div 500 + 1) * 500"
      unfolding rot using div_mult_mod_eq [of "now m + seek" 500] by (simp add: algebra_simps)
    then show ?thesis by simp
  next
    case False
    moreover have "0 \<le> (now m + seek) mod 500" by simp
    ultimately have "(now m + seek) mod 500 = 0" by linarith
    then show ?thesis unfolding rot by simp
  qed
  moreover have "rotation < 500" "0 \<le> rotation" unfolding rot by auto
  moreover have "\<bar>?a - ?b\<bar> \<le> ?n - 1" using ab by linarith
  ultimately show ?thesis
    unfolding seek SeekTime_def RotationTime_def by simp
qed

lemma ModuloDiff_eq:
  "0 \<le> to \<Longrightarrow> 0 \<le> frm \<Longrightarrow> Disk_ModuloDiff to frm = (to - frm) mod SectorsPerTrack"
proof -
  assume *: "0 \<le> to" "0 \<le> frm"
  have "0 \<le> to mod 32 - frm mod 32 + 32"
    using pos_mod_bound [of 32 frm] pos_mod_sign [of 32 to] by simp
  then show ?thesis
    using * by (simp add: Disk_ModuloDiff_def SectorsPerTrack_def Let_def mod_diff_eq)
qed

definition disk_geometry :: "disk_machine \<Rightarrow> bool" where
  "disk_geometry m \<longleftrightarrow> 0 \<le> now m \<and> 0 \<le> bufferInit (dev m) \<and> 0 \<le> lastSector (dev m)
     \<and> lastSector (dev m) < NumSectors (numTracks (dev m))"

lemma ComputeLatency_bounds:
  assumes "disk_geometry m" "0 \<le> s" "s < NumSectors (numTracks (dev m))"
  shows "RotationTime \<le> Disk_ComputeLatency m s w"
    "Disk_ComputeLatency m s w
       \<le> (numTracks (dev m) - 1) * SeekTime + (SectorsPerTrack + 1) * RotationTime - 1"
proof -
  obtain seek rotation where t: "Disk_TimeToSeek m s = (seek, rotation)" by fastforce
  note b = TimeToSeek_bounds [OF _ assms(2,3) _ _ t]
  have nn: "0 \<le> (now m + seek + rotation) div 500" using b assms(1) by (simp add: disk_geometry_def pos_imp_zdiv_nonneg_iff)
  have "0 \<le> Disk_ModuloDiff s ((now m + seek + rotation) div 500)
      \<and> Disk_ModuloDiff s ((now m + seek + rotation) div 500) \<le> 31"
    unfolding ModuloDiff_eq [OF assms(2) nn] SectorsPerTrack_def
    using pos_mod_bound [of 32] pos_mod_sign [of 32] by (smt (verit))
  with b assms show "RotationTime \<le> Disk_ComputeLatency m s w"
    "Disk_ComputeLatency m s w
       \<le> (numTracks (dev m) - 1) * SeekTime + (SectorsPerTrack + 1) * RotationTime - 1"
    unfolding Disk_ComputeLatency_def t
    by (auto simp: disk_geometry_def RotationTime_def SeekTime_def SectorsPerTrack_def Let_def)
qed


text \<open>
  Without the track buffer, the transfer starts at the moment the requested sector comes under
  the head: at time \<open>t\<close> the head is over sector \<open>t div RotationTime\<close> of the track.
\<close>

lemma ComputeLatency_rotation:
  assumes "disk_geometry m" "0 \<le> s" "s < NumSectors (numTracks (dev m))"
  shows "let start = now m + Disk_ComputeLatency m s True - RotationTime
         in start mod RotationTime = 0 \<and> (start div RotationTime) mod SectorsPerTrack = s mod SectorsPerTrack"
proof -
  obtain seek rotation where t: "Disk_TimeToSeek m s = (seek, rotation)" by fastforce
  let ?a = "now m + seek + rotation"
  have b: "0 \<le> seek" "0 \<le> rotation" "?a mod 500 = 0"
    using TimeToSeek_bounds [OF _ assms(2,3) _ _ t] assms(1) by (auto simp: disk_geometry_def RotationTime_def)
  have nn: "0 \<le> ?a" "0 \<le> ?a div 500"
    using b assms(1) by (auto simp: disk_geometry_def pos_imp_zdiv_nonneg_iff)
  let ?d = "(s - ?a div 500) mod 32"
  have "now m + Disk_ComputeLatency m s True - 500 = ?a + ?d * 500"
    using nn assms(2) unfolding Disk_ComputeLatency_def t
    by (simp add: ModuloDiff_eq RotationTime_def SectorsPerTrack_def Let_def)
  moreover have "(?a + ?d * 500) div 500 = ?a div 500 + ?d" by simp
  moreover have "(?a div 500 + ?d) mod 32 = s mod 32" by (simp add: mod_simps)
  moreover have "(?a + ?d * 500) mod 500 = 0" using b(3) by simp
  ultimately show ?thesis by (simp only: Let_def RotationTime_def SectorsPerTrack_def)
qed

subsection \<open>The disk as an array of sectors\<close>

definition sector_at :: "SynchDisk \<Rightarrow> int \<Rightarrow> byte list" where
  "sector_at d s = take (nat SectorSize) (drop (nat (SectorSize * s + MagicSize)) (unixFile d))"

definition disk_ok :: "disk_machine \<Rightarrow> bool" where
  "disk_ok m \<longleftrightarrow> irq m [] \<and> level m = IntOn \<and> \<not> inHandler m \<and> \<not> yieldOnReturn m
     \<and> mstatus m = SystemMode \<and> disk_geometry m \<and> \<not> active (dev m) \<and> semaphore (dev m) = 0
     \<and> lock (dev m) = 1 \<and> \<not> lockHolder (dev m)
     \<and> int (length (unixFile (dev m))) = DiskSize (numTracks (dev m))"

interpretation disk_dev: handlers "disk_hooks yield" "\<lambda>_. True" "{TheDisk}" for yield
proof unfold_locales
  fix m :: disk_machine and xs and d
  assume "irq m xs" "level m = IntOff" "d \<in> {TheDisk}"
  then show "\<exists>m' ps. onCallBack (disk_hooks yield) d m = Inr m' \<and> future m xs m' ps
     \<and> only_from {TheDisk} ps \<and> True"
    by (intro exI [of _ "m\<lparr>dev := (dev m)\<lparr>active := False, semaphore := semaphore (dev m) + 1\<rparr>\<rparr>"]
              exI [of _ "[]"])
       (simp add: disk_hooks_def Disk_CallBack_def SynchDisk_CallBack_def semaphore_V_def SetLevel_off
          future_def same_time_def irq_def Let_def)
next
  fix m :: disk_machine
  show "\<exists>d. onDelayedLoad (disk_hooks yield) m = Inr (m\<lparr>dev := d\<rparr>) \<and> True"
    by (rule exI [of _ "dev m"]) (simp add: disk_hooks_def Let_def)
qed


lemma Idle_disk:
  assumes "irq m [p]" "callOnInterrupt p = TheDisk" "level m = IntOff" "now m \<le> whenDue p" "\<not> inHandler m"
  shows "\<exists>m'. Interrupt_Idle (disk_hooks y) m = Inr m' \<and> irq m' [] \<and> now m' = whenDue p
     \<and> dev m' = (dev m)\<lparr>active := False, semaphore := semaphore (dev m) + 1\<rparr>
     \<and> level m' = IntOff \<and> \<not> inHandler m' \<and> yieldOnReturn m' = yieldOnReturn m \<and> mstatus m' = SystemMode"
proof -
  from RemoveFront_ok [of "pending m" p "[]"] assms(1) obtain l where
    l: "List_RemoveFront (pending m) = Inr (p, l)" "list_repr l []" by (auto simp: irq_def)
  have n: "numInList (pending m) = 1" "\<not> List_IsEmpty (pending m)" "List_Front (pending m) = Inr p"
    using assms(1) list_repr_length [of "pending m" "[p]"] list_repr_empty [of "pending m" "[p]"]
      list_repr_Front [of "pending m" p "[]"] by (auto simp: irq_def)
  have e: "List_IsEmpty l" using list_repr_empty [OF l(2)] by simp
  show ?thesis
    using assms n l e
    by (auto simp: Interrupt_Idle_def Interrupt_CheckIfDue_def invoke_handlers_def disk_hooks_def Let_def
        Disk_CallBack_def SynchDisk_CallBack_def semaphore_V_def SetLevel_off irq_def)
qed

lemma P_ready:
  assumes "irq m []" "\<not> yieldOnReturn m" "\<not> inHandler m" "level m = IntOn" "value (dev m) \<noteq> 0"
  shows "semaphore_P h value update m
     = Inr (ticked (m\<lparr>level := IntOff, dev := update (\<lambda>v. v - 1) (dev m)\<rparr>))"
  using assms
  by (simp add: semaphore_P_def SetLevel_off sleep_until.simps SetLevel_on_quiet irq_def)

lemma V_ok:
  assumes "irq m []" "\<not> yieldOnReturn m" "\<not> inHandler m" "level m = IntOn"
  shows "semaphore_V h update m
     = Inr (ticked (m\<lparr>level := IntOff, dev := update (\<lambda>v. v + 1) (dev m)\<rparr>))"
  using assms by (simp add: semaphore_V_def SetLevel_off SetLevel_on_quiet irq_def)

lemma P_disk:
  assumes "irq m [p]" "callOnInterrupt p = TheDisk" "level m = IntOn" "now m \<le> whenDue p"
    "\<not> inHandler m" "\<not> yieldOnReturn m" "semaphore (dev m) = 0"
  shows "\<exists>m'. semaphore_P (disk_hooks y) semaphore semaphore_update m = Inr m' \<and> irq m' []
     \<and> now m' = whenDue p + SystemTick \<and> dev m' = (dev m)\<lparr>active := False\<rparr>
     \<and> level m' = IntOn \<and> \<not> inHandler m' \<and> \<not> yieldOnReturn m' \<and> mstatus m' = SystemMode"
proof -
  have "irq (m\<lparr>level := IntOff\<rparr>) [p]" using assms(1) by simp
  from Idle_disk [OF this assms(2), of y] assms obtain m1 where
    m1: "Interrupt_Idle (disk_hooks y) (m\<lparr>level := IntOff\<rparr>) = Inr m1" "irq m1 []" "now m1 = whenDue p"
      "dev m1 = (dev m)\<lparr>active := False, semaphore := 1\<rparr>" "level m1 = IntOff"
      "\<not> inHandler m1" "\<not> yieldOnReturn m1" "mstatus m1 = SystemMode" by auto
  let ?m2 = "m1\<lparr>dev := semaphore_update (\<lambda>v. v - 1) (dev m1)\<rparr>"
  have sleep: "sleep_until (Suc (nat (numInList (pending m)))) (disk_hooks y) semaphore (m\<lparr>level := IntOff\<rparr>) = Inr m1"
    using assms(7) m1(1,4) by (simp add: sleep_until.simps)
  have "Interrupt_SetLevel (disk_hooks y) IntOn ?m2 = Inr (IntOff, ticked ?m2)"
    by (rule SetLevel_on_quiet) (use m1 in auto)
  with sleep have "semaphore_P (disk_hooks y) semaphore semaphore_update m = Inr (ticked ?m2)"
    using assms(3) by (simp add: semaphore_P_def SetLevel_off)
  moreover have "irq ?m2 []" using m1(2) by simp
  moreover have "semaphore_update (\<lambda>v. v - 1) (dev m1) = (dev m)\<lparr>active := False\<rparr>"
    using m1(4) assms(7) by simp
  ultimately show ?thesis using m1 by simp
qed

text \<open>The common course of \<^verbatim>\<open>ReadSector\<close> and \<^verbatim>\<open>WriteSector\<close> around the request.\<close>

lemma lock_Acquire_ok:
  assumes "disk_ok m"
  shows "\<exists>m'. lock_Acquire h m = Inr m' \<and> irq m' [] \<and> level m' = IntOn \<and> \<not> inHandler m'
     \<and> \<not> yieldOnReturn m' \<and> mstatus m' = SystemMode \<and> now m' = now m + SystemTick
     \<and> dev m' = (dev m)\<lparr>lock := 0, lockHolder := True\<rparr>"
proof -
  let ?m = "ticked (m\<lparr>level := IntOff, dev := lock_update (\<lambda>v. v - 1) (dev m)\<rparr>)"
  have "semaphore_P h lock lock_update m = Inr ?m"
    by (rule P_ready) (use assms in \<open>auto simp: disk_ok_def\<close>)
  moreover have "irq ?m []" using assms by (simp add: disk_ok_def)
  ultimately show ?thesis using assms
    by (auto simp: lock_Acquire_def disk_ok_def)
qed

lemma lock_Release_ok:
  assumes "irq m []" "level m = IntOn" "\<not> inHandler m" "\<not> yieldOnReturn m" "mstatus m = SystemMode"
    "lockHolder (dev m)" "lock (dev m) = 0"
  shows "\<exists>m'. lock_Release h m = Inr m' \<and> irq m' [] \<and> level m' = IntOn \<and> \<not> inHandler m'
     \<and> \<not> yieldOnReturn m' \<and> mstatus m' = SystemMode \<and> now m' = now m + SystemTick
     \<and> dev m' = (dev m)\<lparr>lock := 1, lockHolder := False\<rparr>"
proof -
  let ?d = "m\<lparr>dev := (dev m)\<lparr>lockHolder := False\<rparr>\<rparr>"
  let ?m = "ticked (?d\<lparr>level := IntOff, dev := lock_update (\<lambda>v. v + 1) (dev ?d)\<rparr>)"
  have "semaphore_V h lock_update ?d = Inr ?m"
    by (rule V_ok) (use assms in auto)
  moreover have "irq ?m []" using assms by simp
  ultimately show ?thesis using assms
    by (auto simp: lock_Release_def)
qed


lemma disk_range:
  assumes "int (length f) = DiskSize tracks" "0 \<le> s" "s < NumSectors tracks"
  shows "nat (SectorSize * s + MagicSize) + nat SectorSize \<le> length f"
proof -
  have "s * 128 + 128 \<le> NumSectors tracks * 128" using assms(3) by linarith
  then have "SectorSize * s + MagicSize + SectorSize \<le> int (length f)"
    using assms(1) by (simp add: DiskSize_def SectorSize_def MagicSize_def)
  then show ?thesis using assms(2) by (simp add: SectorSize_def MagicSize_def)
qed

lemma ReadRequest_ok:
  assumes "irq m []" "disk_geometry m" "\<not> active (dev m)" "0 \<le> s" "s < NumSectors (numTracks (dev m))"
    "int (length (unixFile (dev m))) = DiskSize (numTracks (dev m))"
  shows "\<exists>p m'. Disk_ReadRequest s m = Inr (sector_at (dev m) s, m') \<and> irq m' [p]
     \<and> callOnInterrupt p = TheDisk \<and> whenDue p = now m + Disk_ComputeLatency m s False
     \<and> now m' = now m \<and> level m' = level m \<and> inHandler m' = inHandler m
     \<and> yieldOnReturn m' = yieldOnReturn m \<and> mstatus m' = mstatus m
     \<and> (\<exists>b\<ge>0. dev m' = (dev m)\<lparr>active := True, bufferInit := b, lastSector := s\<rparr>)"
proof -
  obtain seek rotation where t: "Disk_TimeToSeek m s = (seek, rotation)" by fastforce
  have b: "0 \<le> seek" "0 \<le> rotation"
    using TimeToSeek_bounds [OF _ assms(4,5) _ _ t] assms(2) by (auto simp: disk_geometry_def)
  define m1 where "m1 = m\<lparr>dev := (dev m)\<lparr>active := True,
      bufferInit := (if seek \<noteq> 0 then now m + seek + rotation else bufferInit (dev m)), lastSector := s\<rparr>,
      stats := (stats m)\<lparr>numDiskReads := numDiskReads (stats m) + 1\<rparr>\<rparr>"
  have "0 < Disk_ComputeLatency m s False"
    using ComputeLatency_bounds(1) [OF assms(2,4,5), of False] by (simp add: RotationTime_def)
  from Schedule_ok [of m1 "[]", OF _ this, of TheDisk DiskInt] assms(1) obtain p m' where
    p: "Interrupt_Schedule TheDisk (Disk_ComputeLatency m s False) DiskInt m1 = Inr m'" "irq m' [p]"
      "callOnInterrupt p = TheDisk" "whenDue p = now m1 + Disk_ComputeLatency m s False"
      "m' = m1\<lparr>pending := pending m', nextAddr := Suc (nextAddr m1)\<rparr>"
    by (auto simp: m1_def)
  have same: "Disk_TimeToSeek (m\<lparr>dev := (dev m)\<lparr>active := True\<rparr>\<rparr>) s = (seek, rotation)"
    using t by (simp add: Disk_TimeToSeek_def)
  have "SectorSize * s + MagicSize \<ge> 0" using assms(4) by (simp add: SectorSize_def MagicSize_def)
  then have "Disk_ReadRequest s m = Inr (sector_at (dev m) s, m')"
    using assms(3,4,5) disk_range [OF assms(6,4,5)] p(1)
    by (cases "seek = 0") (simp_all add: Disk_ReadRequest_def Disk_UpdateLast_def same unix_read_def sector_at_def m1_def Let_def)
  moreover have "dev m' = dev m1" "now m' = now m1" "level m' = level m1" "inHandler m' = inHandler m1"
    "yieldOnReturn m' = yieldOnReturn m1" "mstatus m' = mstatus m1"
    by (subst p(5), simp)+
  moreover have "0 \<le> bufferInit (dev m1)" using assms(2) b by (simp add: m1_def disk_geometry_def)
  ultimately show ?thesis using p(2,3,4)
    by (intro exI [of _ p] exI [of _ m']) (auto simp: m1_def)
qed

lemma WriteRequest_ok:
  assumes "irq m []" "disk_geometry m" "\<not> active (dev m)" "0 \<le> s" "s < NumSectors (numTracks (dev m))"
    "int (length (unixFile (dev m))) = DiskSize (numTracks (dev m))" "int (length data) = SectorSize"
  shows "\<exists>p m'. Disk_WriteRequest s data m = Inr m' \<and> irq m' [p]
     \<and> callOnInterrupt p = TheDisk \<and> whenDue p = now m + Disk_ComputeLatency m s True
     \<and> now m' = now m \<and> level m' = level m \<and> inHandler m' = inHandler m
     \<and> yieldOnReturn m' = yieldOnReturn m \<and> mstatus m' = mstatus m
     \<and> (\<exists>b\<ge>0. dev m' = (dev m)\<lparr>active := True, bufferInit := b, lastSector := s,
          unixFile := overwrite (nat (SectorSize * s + MagicSize)) data (unixFile (dev m))\<rparr>)"
proof -
  obtain seek rotation where t: "Disk_TimeToSeek m s = (seek, rotation)" by fastforce
  have b: "0 \<le> seek" "0 \<le> rotation"
    using TimeToSeek_bounds [OF _ assms(4,5) _ _ t] assms(2) by (auto simp: disk_geometry_def)
  define f where "f = overwrite (nat (SectorSize * s + MagicSize)) data (unixFile (dev m))"
  define m1 where "m1 = m\<lparr>dev := (dev m)\<lparr>unixFile := f, active := True,
      bufferInit := (if seek \<noteq> 0 then now m + seek + rotation else bufferInit (dev m)), lastSector := s\<rparr>,
      stats := (stats m)\<lparr>numDiskWrites := numDiskWrites (stats m) + 1\<rparr>\<rparr>"
  have "0 < Disk_ComputeLatency m s True"
    using ComputeLatency_bounds(1) [OF assms(2,4,5), of True] by (simp add: RotationTime_def)
  from Schedule_ok [of m1 "[]", OF _ this, of TheDisk DiskInt] assms(1) obtain p m' where
    p: "Interrupt_Schedule TheDisk (Disk_ComputeLatency m s True) DiskInt m1 = Inr m'" "irq m' [p]"
      "callOnInterrupt p = TheDisk" "whenDue p = now m1 + Disk_ComputeLatency m s True"
      "m' = m1\<lparr>pending := pending m', nextAddr := Suc (nextAddr m1)\<rparr>"
    by (auto simp: m1_def)
  have same: "Disk_TimeToSeek (m\<lparr>dev := (dev m)\<lparr>unixFile := f, active := True\<rparr>\<rparr>) s = (seek, rotation)"
    using t by (simp add: Disk_TimeToSeek_def)
  have "unix_write (unixFile (dev m)) (SectorSize * s + MagicSize) data = Inr f"
    using assms(4,7) disk_range [OF assms(6,4,5)]
    by (simp add: unix_write_def f_def SectorSize_def MagicSize_def)
  then have "Disk_WriteRequest s data m = Inr m'"
    using assms(3,4,5) p(1)
    by (cases "seek = 0") (simp_all add: Disk_WriteRequest_def Disk_UpdateLast_def same m1_def Let_def)
  moreover have "dev m' = dev m1" "now m' = now m1" "level m' = level m1" "inHandler m' = inHandler m1"
    "yieldOnReturn m' = yieldOnReturn m1" "mstatus m' = mstatus m1"
    by (subst p(5), simp)+
  moreover have "0 \<le> bufferInit (dev m1)" using assms(2) b by (simp add: m1_def disk_geometry_def)
  ultimately show ?thesis using p(2,3,4)
    by (intro exI [of _ p] exI [of _ m']) (auto simp: m1_def f_def)
qed


text \<open>Waiting for the request and giving the lock back.\<close>

lemma finish_ok:
  assumes "irq m [p]" "callOnInterrupt p = TheDisk" "level m = IntOn" "now m \<le> whenDue p"
    "\<not> inHandler m" "\<not> yieldOnReturn m" "semaphore (dev m) = 0" "lock (dev m) = 0" "lockHolder (dev m)"
  shows "\<exists>m1 m'. semaphore_P (disk_hooks y) semaphore semaphore_update m = Inr m1
     \<and> lock_Release (disk_hooks y) m1 = Inr m' \<and> irq m' [] \<and> level m' = IntOn \<and> \<not> inHandler m'
     \<and> \<not> yieldOnReturn m' \<and> mstatus m' = SystemMode \<and> now m' = whenDue p + 2 * SystemTick
     \<and> dev m' = (dev m)\<lparr>active := False, lock := 1, lockHolder := False\<rparr>"
proof -
  from P_disk [OF assms(1-7), of y] obtain m1 where
    m1: "semaphore_P (disk_hooks y) semaphore semaphore_update m = Inr m1" "irq m1 []"
      "now m1 = whenDue p + SystemTick" "dev m1 = (dev m)\<lparr>active := False\<rparr>" "level m1 = IntOn"
      "\<not> inHandler m1" "\<not> yieldOnReturn m1" "mstatus m1 = SystemMode" by auto
  from lock_Release_ok [OF m1(2,5-8), of "disk_hooks y"] m1(3,4) assms(8,9) obtain m' where
    "lock_Release (disk_hooks y) m1 = Inr m'" "irq m' []" "level m' = IntOn" "\<not> inHandler m'"
    "\<not> yieldOnReturn m'" "mstatus m' = SystemMode" "now m' = whenDue p + 2 * SystemTick"
    "dev m' = (dev m)\<lparr>active := False, lock := 1, lockHolder := False\<rparr>"
    by auto
  with m1(1) show ?thesis by blast
qed

text \<open>\<open>served m s m'\<close>: in \<open>m'\<close> the request for sector \<open>s\<close> made in \<open>m\<close> is over, and not too early.\<close>

definition served :: "disk_machine \<Rightarrow> int \<Rightarrow> disk_machine \<Rightarrow> bool" where
  "served m s m' \<longleftrightarrow> disk_ok m' \<and> numTracks (dev m') = numTracks (dev m) \<and> lastSector (dev m') = s
     \<and> now m + RotationTime < now m'"

lemma served_intro:
  assumes "disk_ok m" "disk_geometry m1" "0 \<le> s" "s < NumSectors (numTracks (dev m))" "0 \<le> b"
    "dev m1 = (dev m)\<lparr>lock := 0, lockHolder := True\<rparr>" "now m1 = now m + SystemTick"
    "irq m' []" "level m' = IntOn" "\<not> inHandler m'" "\<not> yieldOnReturn m'" "mstatus m' = SystemMode"
    "now m' = now m1 + Disk_ComputeLatency m1 s w + 2 * SystemTick"
    "dev m' = (dev m)\<lparr>unixFile := f, bufferInit := b, lastSector := s\<rparr>"
    "int (length f) = DiskSize (numTracks (dev m))"
  shows "served m s m'"
  using assms ComputeLatency_bounds(1) [OF assms(2,3), of w]
  by (auto simp: served_def disk_ok_def disk_geometry_def RotationTime_def SystemTick_def)

lemma ReadSector_ok:
  assumes "disk_ok m" "0 \<le> s" "s < NumSectors (numTracks (dev m))"
  shows "\<exists>m'. SynchDisk_ReadSector (disk_hooks y) s m = Inr (sector_at (dev m) s, m')
     \<and> served m s m' \<and> unixFile (dev m') = unixFile (dev m)"
proof -
  from lock_Acquire_ok [OF assms(1), of "disk_hooks y"] obtain m1 where
    m1: "lock_Acquire (disk_hooks y) m = Inr m1" "irq m1 []" "level m1 = IntOn" "\<not> inHandler m1"
      "\<not> yieldOnReturn m1" "mstatus m1 = SystemMode" "now m1 = now m + SystemTick"
      "dev m1 = (dev m)\<lparr>lock := 0, lockHolder := True\<rparr>" by auto
  have g: "disk_geometry m1" "\<not> active (dev m1)" "s < NumSectors (numTracks (dev m1))"
    "int (length (unixFile (dev m1))) = DiskSize (numTracks (dev m1))"
    using assms m1(7,8) by (auto simp: disk_ok_def disk_geometry_def SystemTick_def)
  note lat = ComputeLatency_bounds(1) [OF g(1) assms(2) g(3), of False]
  from ReadRequest_ok [OF m1(2) g(1,2) assms(2) g(3,4)] obtain p m2 b where
    m2: "Disk_ReadRequest s m1 = Inr (sector_at (dev m1) s, m2)" "irq m2 [p]" "callOnInterrupt p = TheDisk"
      "whenDue p = now m1 + Disk_ComputeLatency m1 s False" "now m2 = now m1" "level m2 = level m1"
      "inHandler m2 = inHandler m1" "yieldOnReturn m2 = yieldOnReturn m1" "mstatus m2 = mstatus m1"
      "0 \<le> b" "dev m2 = (dev m1)\<lparr>active := True, bufferInit := b, lastSector := s\<rparr>" by blast
  have "now m2 \<le> whenDue p" using lat m2(4,5) by (simp add: RotationTime_def)
  from finish_ok [OF m2(2,3) _ this, of y] m1 m2(6-) assms(1) obtain m3 m' where
    m': "semaphore_P (disk_hooks y) semaphore semaphore_update m2 = Inr m3"
      "lock_Release (disk_hooks y) m3 = Inr m'" "irq m' []" "level m' = IntOn" "\<not> inHandler m'"
      "\<not> yieldOnReturn m'" "mstatus m' = SystemMode" "now m' = whenDue p + 2 * SystemTick"
      "dev m' = (dev m2)\<lparr>active := False, lock := 1, lockHolder := False\<rparr>"
    by (auto simp: disk_ok_def)
  have d: "dev m' = (dev m)\<lparr>unixFile := unixFile (dev m), bufferInit := b, lastSector := s\<rparr>"
    using m'(9) m2(11) m1(8) assms(1) by (simp add: disk_ok_def)
  have "served m s m'"
    by (rule served_intro [OF assms(1) g(1) assms(2,3) m2(10) m1(8,7) m'(3-7) _ d, of False])
       (use m'(8) m2(4) assms(1) in \<open>auto simp: disk_ok_def\<close>)
  then show ?thesis
    using m1(1,8) m2(1) m'(1,2) d by (auto simp: SynchDisk_ReadSector_def sector_at_def)
qed

lemma WriteSector_ok:
  assumes "disk_ok m" "0 \<le> s" "s < NumSectors (numTracks (dev m))" "int (length data) = SectorSize"
  shows "\<exists>m'. SynchDisk_WriteSector (disk_hooks y) s data m = Inr m' \<and> served m s m'
     \<and> unixFile (dev m') = overwrite (nat (SectorSize * s + MagicSize)) data (unixFile (dev m))"
proof -
  from lock_Acquire_ok [OF assms(1), of "disk_hooks y"] obtain m1 where
    m1: "lock_Acquire (disk_hooks y) m = Inr m1" "irq m1 []" "level m1 = IntOn" "\<not> inHandler m1"
      "\<not> yieldOnReturn m1" "mstatus m1 = SystemMode" "now m1 = now m + SystemTick"
      "dev m1 = (dev m)\<lparr>lock := 0, lockHolder := True\<rparr>" by auto
  have g: "disk_geometry m1" "\<not> active (dev m1)" "s < NumSectors (numTracks (dev m1))"
    "int (length (unixFile (dev m1))) = DiskSize (numTracks (dev m1))"
    using assms m1(7,8) by (auto simp: disk_ok_def disk_geometry_def SystemTick_def)
  define f where "f = overwrite (nat (SectorSize * s + MagicSize)) data (unixFile (dev m))"
  note lat = ComputeLatency_bounds(1) [OF g(1) assms(2) g(3), of True]
  from WriteRequest_ok [OF m1(2) g(1,2) assms(2) g(3,4) assms(4)] obtain p m2 b where
    m2: "Disk_WriteRequest s data m1 = Inr m2" "irq m2 [p]" "callOnInterrupt p = TheDisk"
      "whenDue p = now m1 + Disk_ComputeLatency m1 s True" "now m2 = now m1" "level m2 = level m1"
      "inHandler m2 = inHandler m1" "yieldOnReturn m2 = yieldOnReturn m1" "mstatus m2 = mstatus m1"
      "0 \<le> b" "dev m2 = (dev m1)\<lparr>active := True, bufferInit := b, lastSector := s, unixFile := f\<rparr>"
    using m1(8) unfolding f_def by auto
  have "now m2 \<le> whenDue p" using lat m2(4,5) by (simp add: RotationTime_def)
  from finish_ok [OF m2(2,3) _ this, of y] m1 m2(6-) assms(1) obtain m3 m' where
    m': "semaphore_P (disk_hooks y) semaphore semaphore_update m2 = Inr m3"
      "lock_Release (disk_hooks y) m3 = Inr m'" "irq m' []" "level m' = IntOn" "\<not> inHandler m'"
      "\<not> yieldOnReturn m'" "mstatus m' = SystemMode" "now m' = whenDue p + 2 * SystemTick"
      "dev m' = (dev m2)\<lparr>active := False, lock := 1, lockHolder := False\<rparr>"
    by (auto simp: disk_ok_def)
  have d: "dev m' = (dev m)\<lparr>unixFile := f, bufferInit := b, lastSector := s\<rparr>"
    using m'(9) m2(11) m1(8) assms(1) by (simp add: disk_ok_def)
  have "length data = nat SectorSize" using assms(4) by linarith
  then have len: "length f = length (unixFile (dev m))"
    using disk_range [OF _ assms(2,3), of "unixFile (dev m)"] assms(1) unfolding f_def disk_ok_def
    by (intro length_overwrite) auto
  have "served m s m'"
    by (rule served_intro [OF assms(1) g(1) assms(2,3) m2(10) m1(8,7) m'(3-7) _ d, of True])
       (use m'(8) m2(4) assms(1) len in \<open>auto simp: disk_ok_def\<close>)
  then show ?thesis
    using m1(1) m2(1) m'(1,2) d f_def by (auto simp: SynchDisk_WriteSector_def)
qed


subsection \<open>The interface of the file system to the disk\<close>

text \<open>Reading and writing several sectors one after the other, as \<^verbatim>\<open>OpenFile\<close> does.\<close>

fun read_sectors :: "(int \<Rightarrow> 's \<Rightarrow> (byte list \<times> 's) res) \<Rightarrow> int list \<Rightarrow> 's \<Rightarrow> (byte list \<times> 's) res" where
  "read_sectors rd [] s = Inr ([], s)"
| "read_sectors rd (i # is) s =
     bindR (rd i s) (\<lambda>(b, s). bindR (read_sectors rd is s) (\<lambda>(bs, s). Inr (b @ bs, s)))"

fun write_sectors :: "(int \<Rightarrow> byte list \<Rightarrow> 's \<Rightarrow> 's res) \<Rightarrow> int list \<Rightarrow> byte list \<Rightarrow> 's \<Rightarrow> 's res" where
  "write_sectors wr [] bs s = Inr s"
| "write_sectors wr (i # is) bs s =
     bindR (wr i (take (nat SectorSize) bs) s) (write_sectors wr is (drop (nat SectorSize) bs))"

text \<open>Any sequence of requests, with what the reads deliver; the same on an array.\<close>

datatype request = Read_sector int | Write_sector int "byte list"

fun serve_requests ::
  "(int \<Rightarrow> 's \<Rightarrow> (byte list \<times> 's) res) \<Rightarrow> (int \<Rightarrow> byte list \<Rightarrow> 's \<Rightarrow> 's res) \<Rightarrow> request list \<Rightarrow> 's \<Rightarrow> (byte list list \<times> 's) res" where
  "serve_requests rd wr [] s = Inr ([], s)"
| "serve_requests rd wr (Read_sector i # rs) s =
     bindR (rd i s) (\<lambda>(b, s). bindR (serve_requests rd wr rs s) (\<lambda>(bs, s). Inr (b # bs, s)))"
| "serve_requests rd wr (Write_sector i b # rs) s = bindR (wr i b s) (serve_requests rd wr rs)"

fun array_requests :: "request list \<Rightarrow> (int \<Rightarrow> byte list) \<Rightarrow> byte list list \<times> (int \<Rightarrow> byte list)" where
  "array_requests [] a = ([], a)"
| "array_requests (Read_sector i # rs) a = (let (bs, a') = array_requests rs a in (a i # bs, a'))"
| "array_requests (Write_sector i b # rs) a = array_requests rs (a(i := b))"

fun request_ok :: "int \<Rightarrow> request \<Rightarrow> bool" where
  "request_ok n (Read_sector i) \<longleftrightarrow> 0 \<le> i \<and> i < n"
| "request_ok n (Write_sector i b) \<longleftrightarrow> 0 \<le> i \<and> i < n \<and> int (length b) = SectorSize"

lemma array_requests_cong:
  assumes "\<forall>j. 0 \<le> j \<and> j < n \<longrightarrow> a j = a' j" "\<forall>r\<in>set rs. request_ok n r"
  shows "fst (array_requests rs a) = fst (array_requests rs a')
     \<and> (\<forall>j. 0 \<le> j \<and> j < n \<longrightarrow> snd (array_requests rs a) j = snd (array_requests rs a') j)"
  using assms
proof (induction rs a arbitrary: a' rule: array_requests.induct)
  case (2 i rs a)
  from "2.IH" [OF "2.prems"(1)] "2.prems" show ?case by (auto simp: case_prod_unfold Let_def)
next
  case (3 i b rs a)
  have "\<forall>j. 0 \<le> j \<and> j < n \<longrightarrow> (a(i := b)) j = (a'(i := b)) j" using "3.prems"(1) by simp
  moreover have "\<forall>r\<in>set rs. request_ok n r" using "3.prems"(2) by simp
  ultimately show ?case unfolding array_requests.simps by (rule "3.IH")
qed simp

text \<open>Cutting the file contents into the sectors they are spread over.\<close>

definition spread :: "(int \<Rightarrow> byte list) \<Rightarrow> int list \<Rightarrow> byte list \<Rightarrow> int \<Rightarrow> byte list" where
  "spread f is bs = fold (\<lambda>(i, b) f. f(i := b)) (zip is (pieces (nat SectorSize) (length is) bs)) f"

lemma spread_simps [simp]:
  "spread f [] bs = f"
  "spread f (i # is) bs = spread (f(i := take (nat SectorSize) bs)) is (drop (nat SectorSize) bs)"
  by (simp_all add: spread_def)

lemma spread_other: "j \<notin> set is \<Longrightarrow> spread f is bs j = f j"
  by (induction "is" arbitrary: f bs) auto

lemma spread_cong: "f j = g j \<Longrightarrow> spread f is bs j = spread g is bs j"
proof (induction "is" arbitrary: f g bs)
  case Nil
  then show ?case by simp
next
  case (Cons i "is")
  show ?case unfolding spread_simps by (rule Cons.IH) (use Cons.prems in simp)
qed

lemma spread_concat:
  "distinct is \<Longrightarrow> length bs = nat SectorSize * length is \<Longrightarrow> concat (map (spread f is bs) is) = bs"
  by (induction "is" arbitrary: f bs) (simp_all add: spread_other)

locale block_store =
  fixes rd :: "int \<Rightarrow> 's \<Rightarrow> (byte list \<times> 's) res"
    and wr :: "int \<Rightarrow> byte list \<Rightarrow> 's \<Rightarrow> 's res"
    and ok :: "'s \<Rightarrow> bool"
    and sectors :: "'s \<Rightarrow> int"
    and block :: "'s \<Rightarrow> int \<Rightarrow> byte list"
  assumes rd_ok: "ok s \<Longrightarrow> 0 \<le> i \<Longrightarrow> i < sectors s \<Longrightarrow>
      \<exists>s'. rd i s = Inr (block s i, s') \<and> ok s' \<and> sectors s' = sectors s \<and> block s' = block s"
    and wr_ok: "ok s \<Longrightarrow> 0 \<le> i \<Longrightarrow> i < sectors s \<Longrightarrow> int (length b) = SectorSize \<Longrightarrow>
      \<exists>s'. wr i b s = Inr s' \<and> ok s' \<and> sectors s' = sectors s
         \<and> (\<forall>j. 0 \<le> j \<and> j < sectors s \<longrightarrow> block s' j = (if j = i then b else block s j))"
    and block_length: "ok s \<Longrightarrow> 0 \<le> i \<Longrightarrow> i < sectors s \<Longrightarrow> int (length (block s i)) = SectorSize"
begin

lemma read_sectors_ok:
  assumes "ok s" "\<forall>i\<in>set is. 0 \<le> i \<and> i < sectors s"
  shows "\<exists>s'. read_sectors rd is s = Inr (concat (map (block s) is), s')
     \<and> ok s' \<and> sectors s' = sectors s \<and> block s' = block s"
  using assms
proof (induction "is" arbitrary: s)
  case Nil
  then show ?case by auto
next
  case (Cons i "is")
  from rd_ok [of s i] Cons.prems obtain s1 where
    s1: "rd i s = Inr (block s i, s1)" "ok s1" "sectors s1 = sectors s" "block s1 = block s" by auto
  with Cons.IH [of s1] Cons.prems(2) show ?case by auto
qed

lemma write_sectors_ok:
  assumes "ok s" "\<forall>i\<in>set is. 0 \<le> i \<and> i < sectors s" "length bs = nat SectorSize * length is"
  shows "\<exists>s'. write_sectors wr is bs s = Inr s' \<and> ok s' \<and> sectors s' = sectors s
     \<and> (\<forall>j. 0 \<le> j \<and> j < sectors s \<longrightarrow> block s' j = spread (block s) is bs j)"
  using assms
proof (induction "is" arbitrary: s bs)
  case Nil
  then show ?case by auto
next
  case (Cons i "is")
  have "int (length (take (nat SectorSize) bs)) = SectorSize"
    using Cons.prems(3) by (simp add: SectorSize_def)
  from wr_ok [OF _ _ _ this, of s i] Cons.prems obtain s1 where
    s1: "wr i (take (nat SectorSize) bs) s = Inr s1" "ok s1" "sectors s1 = sectors s"
      "\<forall>j. 0 \<le> j \<and> j < sectors s \<longrightarrow> block s1 j = ((block s)(i := take (nat SectorSize) bs)) j" by auto
  from Cons.IH [of s1 "drop (nat SectorSize) bs"] s1(2,3) Cons.prems(2,3) obtain s2 where
    s2: "write_sectors wr is (drop (nat SectorSize) bs) s1 = Inr s2" "ok s2" "sectors s2 = sectors s"
      "\<forall>j. 0 \<le> j \<and> j < sectors s \<longrightarrow> block s2 j = spread (block s1) is (drop (nat SectorSize) bs) j"
    by auto
  have "spread (block s1) js cs j = spread ((block s)(i := take (nat SectorSize) bs)) js cs j"
    if "0 \<le> j" "j < sectors s" for j js cs
    by (rule spread_cong) (use s1(4) that in simp)
  with s1 s2 show ?case by auto
qed

lemma write_read:
  assumes "ok s" "\<forall>i\<in>set is. 0 \<le> i \<and> i < sectors s" "length bs = nat SectorSize * length is" "distinct is"
  shows "\<exists>s' s''. write_sectors wr is bs s = Inr s' \<and> read_sectors rd is s' = Inr (bs, s'')
     \<and> (\<forall>j. 0 \<le> j \<and> j < sectors s \<and> j \<notin> set is \<longrightarrow> block s'' j = block s j)"
proof -
  from write_sectors_ok [OF assms(1-3)] obtain s' where
    s': "write_sectors wr is bs s = Inr s'" "ok s'" "sectors s' = sectors s"
      "\<forall>j. 0 \<le> j \<and> j < sectors s \<longrightarrow> block s' j = spread (block s) is bs j" by auto
  from read_sectors_ok [OF s'(2), of "is"] s'(3) assms(2) obtain s'' where
    s'': "read_sectors rd is s' = Inr (concat (map (block s') is), s'')" "block s'' = block s'" by auto
  have "map (block s') is = map (spread (block s) is bs) is"
    using s'(4) assms(2) by auto
  then have "concat (map (block s') is) = concat (map (spread (block s) is bs) is)" by (rule arg_cong)
  also have "\<dots> = bs" by (rule spread_concat [OF assms(4,3)])
  finally have "concat (map (block s') is) = bs" .
  with s' s'' show ?thesis by (auto simp: spread_other)
qed

end

lemma sector_at_overwrite:
  assumes "int (length (unixFile d)) = DiskSize (numTracks d)" "0 \<le> i" "i < NumSectors (numTracks d)"
    "0 \<le> j" "j < NumSectors (numTracks d)" "int (length b) = SectorSize"
    "unixFile d' = overwrite (nat (SectorSize * i + MagicSize)) b (unixFile d)"
  shows "sector_at d' j = (if j = i then b else sector_at d j)"
proof -
  note ri = disk_range [OF assms(1,2,3)] and rj = disk_range [OF assms(1,4,5)]
  have b: "length b = 128" using assms(6) by (simp add: SectorSize_def)
  let ?i = "nat (SectorSize * i + MagicSize)" and ?j = "nat (SectorSize * j + MagicSize)"
  have len: "?i + length b \<le> length (unixFile d)" using ri b by (simp add: SectorSize_def)
  show ?thesis
  proof (cases "j = i")
    case True
    then show ?thesis
      using read_overwrite [OF len] b by (simp add: sector_at_def assms(7) SectorSize_def)
  next
    case False
    then have apart: "?j + 128 \<le> ?i \<or> ?i + 128 \<le> ?j"
      using assms(2,4) by (auto simp: SectorSize_def MagicSize_def nat_le_iff le_nat_iff)
    have "take 128 (drop ?j (overwrite ?i b (unixFile d))) = take 128 (drop ?j (unixFile d))"
    proof (rule nth_equalityI)
      show "length (take 128 (drop ?j (overwrite ?i b (unixFile d)))) = length (take 128 (drop ?j (unixFile d)))"
        using len by simp
      fix k
      assume "k < length (take 128 (drop ?j (overwrite ?i b (unixFile d))))"
      then show "take 128 (drop ?j (overwrite ?i b (unixFile d))) ! k = take 128 (drop ?j (unixFile d)) ! k"
        using len rj apart b by (auto simp: nth_overwrite SectorSize_def)
    qed
    with False show ?thesis by (simp add: sector_at_def assms(7) SectorSize_def)
  qed
qed

interpretation synchdisk: block_store "SynchDisk_ReadSector (disk_hooks y)"
    "SynchDisk_WriteSector (disk_hooks y)" disk_ok "\<lambda>m. NumSectors (numTracks (dev m))"
    "\<lambda>m. sector_at (dev m)" for y
proof unfold_locales
  fix s :: disk_machine and i
  assume s: "disk_ok s" "0 \<le> i" "i < NumSectors (numTracks (dev s))"
  from ReadSector_ok [OF this, of y]
  show "\<exists>s'. SynchDisk_ReadSector (disk_hooks y) i s = Inr (sector_at (dev s) i, s') \<and> disk_ok s'
     \<and> NumSectors (numTracks (dev s')) = NumSectors (numTracks (dev s)) \<and> sector_at (dev s') = sector_at (dev s)"
    by (auto simp: served_def sector_at_def fun_eq_iff)
  show "int (length (sector_at (dev s) i)) = SectorSize"
    using disk_range [OF _ s(2,3), of "unixFile (dev s)"] s(1)
    by (auto simp: sector_at_def disk_ok_def SectorSize_def)
  fix b :: "byte list"
  assume b: "int (length b) = SectorSize"
  from WriteSector_ok [OF s b, of y] obtain s' where
    s': "SynchDisk_WriteSector (disk_hooks y) i b s = Inr s'" "served s i s'"
      "unixFile (dev s') = overwrite (nat (SectorSize * i + MagicSize)) b (unixFile (dev s))" by auto
  then show "\<exists>s'. SynchDisk_WriteSector (disk_hooks y) i b s = Inr s' \<and> disk_ok s'
     \<and> NumSectors (numTracks (dev s')) = NumSectors (numTracks (dev s))
     \<and> (\<forall>j. 0 \<le> j \<and> j < NumSectors (numTracks (dev s)) \<longrightarrow>
           sector_at (dev s') j = (if j = i then b else sector_at (dev s) j))"
    using s b sector_at_overwrite [of "dev s" i _ b "dev s'"]
    by (auto simp: served_def disk_ok_def)
qed

subsection \<open>The plain disk image\<close>

text \<open>
  The file system theories are written over this array of sectors, which the synchronous disk
  implements.
\<close>

type_synonym image = "byte list list"

definition image_read :: "int \<Rightarrow> image \<Rightarrow> byte list res" where
  "image_read i d = assertR (0 \<le> i \<and> i < int (length d)) (Inr (d ! nat i))"

definition image_write :: "int \<Rightarrow> byte list \<Rightarrow> image \<Rightarrow> image res" where
  "image_write i b d = assertR (0 \<le> i \<and> i < int (length d)) (Inr (d[nat i := b]))"

definition image_ok :: "image \<Rightarrow> bool" where
  "image_ok d \<longleftrightarrow> (\<forall>b\<in>set d. int (length b) = SectorSize)"

interpretation img: block_store "\<lambda>i d. bindR (image_read i d) (\<lambda>b. Inr (b, d))" image_write image_ok
    "\<lambda>d. int (length d)" "\<lambda>d i. d ! nat i"
  by unfold_locales (auto simp: image_read_def image_write_def image_ok_def nth_list_update
      dest: set_update_subset_insert [THEN subsetD])

definition image_of :: "SynchDisk \<Rightarrow> image" where
  "image_of d = map (\<lambda>s. sector_at d (int s)) [0..<nat (NumSectors (numTracks d))]"

text \<open>Sequences of requests to the synchronous disk.\<close>

lemma requests_ok:
  assumes "disk_ok m" "\<forall>r\<in>set rs. request_ok (NumSectors (numTracks (dev m))) r"
  shows "\<exists>m'. serve_requests (SynchDisk_ReadSector (disk_hooks y)) (SynchDisk_WriteSector (disk_hooks y)) rs m
        = Inr (fst (array_requests rs (sector_at (dev m))), m')
     \<and> disk_ok m' \<and> numTracks (dev m') = numTracks (dev m)
     \<and> (\<forall>j. 0 \<le> j \<and> j < NumSectors (numTracks (dev m)) \<longrightarrow>
          sector_at (dev m') j = snd (array_requests rs (sector_at (dev m))) j)
     \<and> now m + int (length rs) * RotationTime \<le> now m'"
  using assms
proof (induction rs arbitrary: m)
  case (Cons r rs)
  let ?n = "NumSectors (numTracks (dev m))"
  have rs: "\<forall>r\<in>set rs. request_ok ?n r" using Cons.prems(2) by simp
  show ?case
  proof (cases r)
    case (Read_sector i)
    from ReadSector_ok [OF Cons.prems(1), of i y] Cons.prems(2) Read_sector obtain m1 where
      m1: "SynchDisk_ReadSector (disk_hooks y) i m = Inr (sector_at (dev m) i, m1)" "served m i m1"
        "unixFile (dev m1) = unixFile (dev m)" by auto
    have same: "numTracks (dev m1) = numTracks (dev m)" "sector_at (dev m1) = sector_at (dev m)"
      "now m + RotationTime \<le> now m1" "disk_ok m1"
      using m1(2,3) by (auto simp: served_def sector_at_def fun_eq_iff)
    from Cons.IH [OF same(4)] rs same(1) obtain m' where
      "serve_requests (SynchDisk_ReadSector (disk_hooks y)) (SynchDisk_WriteSector (disk_hooks y)) rs m1
          = Inr (fst (array_requests rs (sector_at (dev m))), m')" "disk_ok m'" "numTracks (dev m') = numTracks (dev m)"
      "\<forall>j. 0 \<le> j \<and> j < ?n \<longrightarrow> sector_at (dev m') j = snd (array_requests rs (sector_at (dev m))) j"
      "now m1 + int (length rs) * RotationTime \<le> now m'" unfolding same(1,2) by auto
    then show ?thesis using Read_sector m1(1) same(3) by (simp add: case_prod_unfold Let_def algebra_simps)
  next
    case (Write_sector i b)
    then have i: "0 \<le> i" "i < ?n" "int (length b) = SectorSize" using Cons.prems(2) by auto
    from WriteSector_ok [OF Cons.prems(1) i, of y] obtain m1 where
      m1: "SynchDisk_WriteSector (disk_hooks y) i b m = Inr m1" "served m i m1"
        "unixFile (dev m1) = overwrite (nat (SectorSize * i + MagicSize)) b (unixFile (dev m))" by auto
    have same: "numTracks (dev m1) = numTracks (dev m)" "now m + RotationTime \<le> now m1" "disk_ok m1"
      using m1(2) by (auto simp: served_def)
    have at: "\<forall>j. 0 \<le> j \<and> j < ?n \<longrightarrow> sector_at (dev m1) j = ((sector_at (dev m))(i := b)) j"
      using sector_at_overwrite [OF _ i(1,2) _ _ i(3) m1(3)] Cons.prems(1) by (auto simp: disk_ok_def)
    have cong: "fst (array_requests rs (sector_at (dev m1))) = fst (array_requests rs ((sector_at (dev m))(i := b)))"
      "\<forall>j. 0 \<le> j \<and> j < ?n \<longrightarrow> snd (array_requests rs (sector_at (dev m1))) j
          = snd (array_requests rs ((sector_at (dev m))(i := b))) j" using array_requests_cong [OF at rs] by blast+
    from Cons.IH [OF same(3)] rs same(1) obtain m' where
      "serve_requests (SynchDisk_ReadSector (disk_hooks y)) (SynchDisk_WriteSector (disk_hooks y)) rs m1
          = Inr (fst (array_requests rs (sector_at (dev m1))), m')" "disk_ok m'" "numTracks (dev m') = numTracks (dev m)"
      "\<forall>j. 0 \<le> j \<and> j < ?n \<longrightarrow> sector_at (dev m') j = snd (array_requests rs (sector_at (dev m1))) j"
      "now m1 + int (length rs) * RotationTime \<le> now m'" unfolding same(1) by auto
    then show ?thesis using Write_sector m1(1) same(2) cong by (simp add: algebra_simps)
  qed
qed simp

subsection \<open>Properties\<close>

text \<open>
  C24: \<^verbatim>\<open>CheckIfDue\<close> calls exactly the handlers of the interrupts that are due, in the order of
  their times, and leaves the later ones pending; if it may advance the clock it first moves it to
  the next interrupt, otherwise it does nothing when none is due. This holds for all devices
  whose handlers schedule only later interrupts.
\<close>

theorem CheckIfDue_fires_due:
  assumes "handlers h good D" "irq m (x # xs)" "level m = IntOff" "good (dev m)" "only_from D (x # xs)"
    "t = (if adv then max (now m) (whenDue x) else now m)"
  shows "if due t (x # xs) = [] then Interrupt_CheckIfDue h adv m = Inr (False, m)
     else \<exists>d m2 ps. Interrupt_CheckIfDue h adv m = Inr (True, m2\<lparr>inHandler := False\<rparr>)
       \<and> eachR (invoke h) (due t (x # xs)) ((clock_at t m)\<lparr>dev := d, inHandler := True\<rparr>) = Inr m2
       \<and> irq m2 (fold enter ps (later t (x # xs))) \<and> (\<forall>p\<in>set ps. t < whenDue p) \<and> now m2 = t"
proof (cases "whenDue x \<le> now m \<or> adv")
  case True
  then have t: "t = max (now m) (whenDue x)" using assms(6) by auto
  then have "due t (x # xs) \<noteq> []" by simp
  with handlers.CheckIfDue_calls [OF assms(1-5) True t] show ?thesis by (simp only: if_False) blast
next
  case False
  then have "due t (x # xs) = []" using assms(6) by simp
  with False handlers.CheckIfDue_early [OF assms(1-3)] show ?thesis by simp
qed

definition sample_disk :: SynchDisk where
  "sample_disk = \<lparr>unixFile = replicate 4100 0, numTracks = 1, active = False, lastSector = 0, bufferInit = 0,
     semaphore = 0, lock = 1, lockHolder = False\<rparr>"

definition sample_machine :: disk_machine where
  "sample_machine = (Interrupt_new sample_disk)\<lparr>level := IntOn\<rparr>"

definition sample_interrupt :: PendingInterrupt where
  "sample_interrupt = \<lparr>paddr = 0, callOnInterrupt = TheDisk, whenDue = 700, itype = DiskInt\<rparr>"

definition sample_waiting :: disk_machine where
  "sample_waiting = (Interrupt_new sample_disk)
     \<lparr>nextAddr := 1, pending := \<lparr>cells = [0 \<mapsto> \<lparr>item = sample_interrupt, nxt = None\<rparr>],
        brk = 1, lfirst = Some 0, llast = Some 0, numInList = 1\<rparr>\<rparr>"

lemma sample_waiting_ok: "irq sample_waiting [sample_interrupt]" "level sample_waiting = IntOff"
  "only_from {TheDisk} [sample_interrupt]" "now sample_waiting = 0" "whenDue sample_interrupt = 700"
  "callOnInterrupt sample_interrupt = TheDisk"
  by (auto simp: sample_waiting_def irq_def Interrupt_new_def list_repr_def list_cells_def sample_interrupt_def
      Statistics_new_def intro!: exI [of _ "[0]"])

lemma sample_machine_ok: "disk_ok sample_machine"
  by (simp add: disk_ok_def sample_machine_def irq_new [of sample_disk, unfolded irq_def] irq_def Interrupt_new_def
      disk_geometry_def sample_disk_def Statistics_new_def NumSectors_def SectorsPerTrack_def DiskSize_def
      MagicSize_def SectorSize_def list_repr_new)

lemma CheckIfDue_fires_due_witness:
  "if due 700 [sample_interrupt] = [] then Interrupt_CheckIfDue (disk_hooks Inr) True sample_waiting = Inr (False, sample_waiting)
     else \<exists>d m2 ps. Interrupt_CheckIfDue (disk_hooks Inr) True sample_waiting = Inr (True, m2\<lparr>inHandler := False\<rparr>)
       \<and> eachR (invoke (disk_hooks Inr)) (due 700 [sample_interrupt])
           ((clock_at 700 sample_waiting)\<lparr>dev := d, inHandler := True\<rparr>) = Inr m2
       \<and> irq m2 (fold enter ps (later 700 [sample_interrupt])) \<and> (\<forall>p\<in>set ps. 700 < whenDue p) \<and> now m2 = 700"
  by (rule CheckIfDue_fires_due [OF disk_dev.handlers_axioms]) (simp_all add: sample_waiting_ok)

text \<open>
  a tick advances the clock by the time of the current mode, or further if the interrupted
  thread yields, and the books stay balanced: total time is idle plus system plus user time.
\<close>

theorem OneTick_books:
  assumes "handlers h good D" "irq m xs" "good (dev m)" "only_from D xs" "books m"
    "\<And>m'. books m' \<Longrightarrow> \<exists>m''. onYield h m' = Inr m'' \<and> books m'' \<and> now m' \<le> now m''"
  shows "\<exists>m'. Interrupt_OneTick h m = Inr m' \<and> books m' \<and> now m + tick_of m \<le> now m'"
proof -
  have "\<exists>m''. onYield h m' = Inr m'' \<and> (books (m''\<lparr>mstatus := mstatus m\<rparr>)
      \<and> now m + tick_of m \<le> now (m''\<lparr>mstatus := mstatus m\<rparr>))"
    if "now m' = now m + tick_of m" "books m \<Longrightarrow> books m'" for m'
  proof -
    from assms(5,6) that(2) obtain m'' where "onYield h m' = Inr m''" "books m''" "now m' \<le> now m''"
      by blast
    with that(1) show ?thesis by (auto simp: books_def)
  qed
  then show ?thesis by (rule handlers.OneTick_ok [OF assms(1-4)]) (use assms(5) in auto)
qed

lemma OneTick_books_witness:
  "\<exists>m'. Interrupt_OneTick (disk_hooks Inr) sample_waiting = Inr m' \<and> books m'
     \<and> now sample_waiting + tick_of sample_waiting \<le> now m'"
  by (rule OneTick_books [OF disk_dev.handlers_axioms sample_waiting_ok(1)])
     (simp_all add: sample_waiting_ok, simp_all add: books_def sample_waiting_def Interrupt_new_def
        Statistics_new_def disk_hooks_def Let_def)

text \<open>an idle machine halts exactly when no interrupt is pending.\<close>

theorem Idle_halts_iff:
  assumes "handlers h good D" "irq m xs" "good (dev m)" "only_from D xs" "level m = IntOff"
  shows "Interrupt_Idle h m = Inl Halted \<longleftrightarrow> xs = []"
proof (cases xs)
  case Nil
  with handlers.Idle_halts [OF assms(1)] assms(2,5) show ?thesis by simp
next
  case (Cons x xs')
  with handlers.Idle_ok [OF assms(1), of m x xs'] assms show ?thesis by auto
qed

lemma Idle_halts_iff_witness:
  "Interrupt_Idle (disk_hooks Inr) sample_waiting = Inl Halted \<longleftrightarrow> [sample_interrupt] = []"
  by (rule Idle_halts_iff [OF disk_dev.handlers_axioms sample_waiting_ok(1) _ sample_waiting_ok(3,2)]) simp

text \<open>
  a write request takes at least the time of one sector and at most a seek over all tracks
  and a rotation of all sectors and one more; its transfer starts exactly when the requested
  sector comes under the head.
\<close>

theorem write_latency:
  assumes "disk_geometry m" "0 \<le> s" "s < NumSectors (numTracks (dev m))"
    "start = now m + Disk_ComputeLatency m s True - RotationTime"
  shows "RotationTime \<le> Disk_ComputeLatency m s True
     \<and> Disk_ComputeLatency m s True < (numTracks (dev m) - 1) * SeekTime + (SectorsPerTrack + 1) * RotationTime
     \<and> start mod RotationTime = 0 \<and> (start div RotationTime) mod SectorsPerTrack = s mod SectorsPerTrack"
  using ComputeLatency_bounds [OF assms(1-3), of True] ComputeLatency_rotation [OF assms(1-3)] assms(4)
  unfolding Let_def assms(4) by simp

lemma write_latency_witness:
  "RotationTime \<le> Disk_ComputeLatency sample_machine 5 True
     \<and> Disk_ComputeLatency sample_machine 5 True < (numTracks (dev sample_machine) - 1) * SeekTime + (SectorsPerTrack + 1) * RotationTime
     \<and> (now sample_machine + Disk_ComputeLatency sample_machine 5 True - RotationTime) mod RotationTime = 0
     \<and> ((now sample_machine + Disk_ComputeLatency sample_machine 5 True - RotationTime) div RotationTime)
          mod SectorsPerTrack = 5 mod SectorsPerTrack"
  by (rule write_latency)
     (use sample_machine_ok in \<open>auto simp: disk_ok_def sample_machine_def Interrupt_new_def sample_disk_def
        NumSectors_def SectorsPerTrack_def\<close>)

text \<open>
  C11: the synchronous disk is an array of sectors. In every sequence of requests, in any order and to any sectors of the
  disk, \<^verbatim>\<open>ReadSector\<close> delivers what was last written to its sector, or what was there at the start, \<^verbatim>\<open>WriteSector\<close>
  changes its sector and no other, no assertion fails, and every request takes at least the time of a rotation: it
  returns only after the disk has interrupted, with the disk idle and the driver ready for the next one.
\<close>

theorem SynchDisk_array:
  assumes "disk_ok m" "\<forall>r\<in>set rs. request_ok (NumSectors (numTracks (dev m))) r"
  shows "\<exists>m'. serve_requests (SynchDisk_ReadSector (disk_hooks y)) (SynchDisk_WriteSector (disk_hooks y)) rs m
        = Inr (fst (array_requests rs (sector_at (dev m))), m')
     \<and> disk_ok m' \<and> numTracks (dev m') = numTracks (dev m)
     \<and> (\<forall>j. 0 \<le> j \<and> j < NumSectors (numTracks (dev m)) \<longrightarrow>
          sector_at (dev m') j = snd (array_requests rs (sector_at (dev m))) j)
     \<and> now m + int (length rs) * RotationTime \<le> now m'"
  using requests_ok [OF assms] .

definition sample_requests :: "request list" where
  "sample_requests = [Write_sector 7 (replicate 128 42), Write_sector 30 (replicate 128 9), Read_sector 7, Read_sector 30,
     Read_sector 8]"

lemma sample_requests_ok: "\<forall>r\<in>set sample_requests. request_ok (NumSectors (numTracks (dev sample_machine))) r"
  by (simp add: sample_requests_def sample_machine_def Interrupt_new_def sample_disk_def NumSectors_def SectorsPerTrack_def SectorSize_def)

lemma SynchDisk_array_witness:
  "\<exists>m'. serve_requests (SynchDisk_ReadSector (disk_hooks Inr)) (SynchDisk_WriteSector (disk_hooks Inr)) sample_requests sample_machine
        = Inr ([replicate 128 42, replicate 128 9, sector_at (dev sample_machine) 8], m')
     \<and> disk_ok m' \<and> now sample_machine + 5 * RotationTime \<le> now m'"
proof -
  have "fst (array_requests sample_requests a) = [replicate 128 42, replicate 128 9, a 8]" for a
    by (simp add: sample_requests_def)
  moreover have "length sample_requests = 5" by (simp add: sample_requests_def)
  ultimately show ?thesis using SynchDisk_array [OF sample_machine_ok sample_requests_ok, of Inr] by auto
qed

end
