(* ===== verification/FileHdr.thy ===== *)
theory FileHdr
  imports Bitmaps Disk
begin

text \<open>
  \<^verbatim>\<open>filesys/filehdr.cc\<close> of the fourth assignment: file headers as chains of 128-byte sectors.
  A header holds the numbers of up to \<open>NumDirect\<close> data sectors and the number of the sector of
  the next header; in memory the headers of a file are linked by pointers. Shown here: what
  \<^verbatim>\<open>Allocate\<close> takes from the free map and when it fails, what \<^verbatim>\<open>Deallocate\<close> gives back (not the
  sectors of the chained headers), that \<^verbatim>\<open>WriteBack\<close> and \<^verbatim>\<open>FetchFrom\<close> are inverse, and that
  \<^verbatim>\<open>ByteToSector\<close> is the index into the sectors of the file.
\<close>

subsection \<open>Headers\<close>

definition NumDirect :: int where "NumDirect = 28"
definition MaxFileSize :: int where "MaxFileSize = NumDirect * SectorSize"

text \<open>
  \<^verbatim>\<open>Stale\<close> is a pointer read from the disk, an address of an earlier run or of a deleted object.
\<close>

datatype FileHeader =
  FH (fh_numBytes: int) (fh_numSectors: int) (fh_dataSectors: "int list")
     (nextFileHeaderSector: int) (nextFileHeader: NextHeader)
and NextHeader = Null | Stale | Ref FileHeader

definition FileHeader_new :: FileHeader where
  "FileHeader_new = FH (- 1) (- 1) (replicate (nat NumDirect) (- 1)) (- 1) Null"

text \<open>
  \<^verbatim>\<open>NumDirect\<close> is of the unsigned type \<^verbatim>\<open>size_t\<close>, so the comparison of the file size with
  \<^verbatim>\<open>MaxFileSize\<close> is unsigned: a negative size counts as large.
\<close>

definition header_bytes :: "int \<Rightarrow> int" where
  "header_bytes fileSize = (if 0 \<le> fileSize \<and> fileSize \<le> MaxFileSize then fileSize else MaxFileSize)"

function FileHeader_Allocate :: "Bitmap \<Rightarrow> int \<Rightarrow> FileHeader \<Rightarrow> (bool \<times> FileHeader \<times> Bitmap) res" where
  "FileHeader_Allocate freeMap fileSize (FH nb0 ns0 ds nx nh0) =
     bindR (addR fileSize (- header_bytes fileSize)) (\<lambda>rest.
       let nb = header_bytes fileSize; ns = divRoundUp nb SectorSize
       in bindR (Bitmap_NumClear freeMap) (\<lambda>c.
         if c < ns then Inr (False, FH nb ns ds nx Null, freeMap)
         else bindR (grab Bitmap_FindAndSet (nat ns) freeMap) (\<lambda>(ss, freeMap).
           let ds = ss @ drop (nat ns) ds
           in if rest > 0 then
                bindR (Bitmap_FindAndSet freeMap) (\<lambda>(s, freeMap).
                  if s = - 1 then Inr (False, FH nb ns ds s Null, freeMap)
                  else bindR (FileHeader_Allocate freeMap rest FileHeader_new) (\<lambda>(b, h, freeMap).
                    Inr (b, FH nb ns ds s (Ref h), freeMap)))
              else Inr (True, FH nb ns ds nx Null, freeMap))))"
  by pat_completeness auto
termination
  by (relation "measure (\<lambda>(_, n, _). nat n)")
     (auto simp: addR_eq_Inr header_bytes_def MaxFileSize_def NumDirect_def SectorSize_def split: if_splits)

fun FileHeader_Deallocate :: "Bitmap \<Rightarrow> FileHeader \<Rightarrow> Bitmap res" where
  "FileHeader_Deallocate freeMap (FH nb ns ds nx nh) =
     bindR (release Bitmap_Test Bitmap_Clear (take (nat ns) ds) freeMap) (\<lambda>freeMap.
       if nat ns > length ds then Inl OutOfBounds
       else if nx \<noteq> - 1 then
         (case nh of Ref h \<Rightarrow> FileHeader_Deallocate freeMap h
            | Null \<Rightarrow> Inl NullPointer | Stale \<Rightarrow> Inl UseAfterFree)
       else Inr freeMap)"

fun FileHeader_FileLength :: "FileHeader \<Rightarrow> int res" where
  "FileHeader_FileLength (FH nb ns ds nx nh) =
     (if nx = - 1 then Inr nb
      else (case nh of Ref h \<Rightarrow> bindR (FileHeader_FileLength h) (addR nb)
              | Null \<Rightarrow> Inl NullPointer | Stale \<Rightarrow> Inl UseAfterFree))"

fun FileHeader_ByteToSector :: "FileHeader \<Rightarrow> int \<Rightarrow> int res" where
  "FileHeader_ByteToSector (FH nb ns ds nx nh) offset =
     bindR (FileHeader_FileLength (FH nb ns ds nx nh)) (\<lambda>len.
       if offset < 0 \<or> offset \<ge> len then Inr (- 1)
       else if offset sdiv SectorSize < NumDirect
         then inboundsR (offset sdiv SectorSize) (int (length ds)) (Inr (ds ! nat (offset sdiv SectorSize)))
       else (case nh of Null \<Rightarrow> Inr (- 1) | Stale \<Rightarrow> Inl UseAfterFree
               | Ref h \<Rightarrow> FileHeader_ByteToSector h (offset - NumDirect * SectorSize)))"

fun FileHeader_CountFileHeaders :: "FileHeader \<Rightarrow> int res" where
  "FileHeader_CountFileHeaders (FH nb ns ds nx nh) =
     (case nh of Null \<Rightarrow> Inr 1 | Stale \<Rightarrow> Inl UseAfterFree
        | Ref h \<Rightarrow> bindR (FileHeader_CountFileHeaders h) (\<lambda>c. Inr (c + 1)))"

subsection \<open>Headers on disk\<close>

text \<open>
  The object is written to its sector as it lies in memory: the pointer, the two counts, the
  sector numbers, the sector of the next header. Of the pointer only its being null matters: a
  non-null one is replaced when the header is fetched.
\<close>

fun FileHeader_bytes :: "FileHeader \<Rightarrow> byte list" where
  "FileHeader_bytes (FH nb ns ds nx nh) =
     int_bytes (if nh = Null then 0 else 1) @ int_bytes nb @ int_bytes ns @ ints_bytes ds @ int_bytes nx"

definition bytes_FileHeader :: "byte list \<Rightarrow> FileHeader" where
  "bytes_FileHeader bs =
     FH (bytes_int (take 4 (drop 4 bs))) (bytes_int (take 4 (drop 8 bs)))
        (bytes_ints (nat NumDirect) (drop 12 bs)) (bytes_int (take 4 (drop 124 bs)))
        (if bytes_int (take 4 bs) = 0 then Null else Stale)"

text \<open>A chain longer than the disk has sectors is a cycle, which \<^verbatim>\<open>FetchFrom\<close> would follow forever.\<close>

fun fetch_chain :: "nat \<Rightarrow> int \<Rightarrow> image \<Rightarrow> FileHeader res" where
  "fetch_chain 0 sector d = Inl NoReturn"
| "fetch_chain (Suc k) sector d =
     bindR (image_read sector d) (\<lambda>bs.
       case bytes_FileHeader bs of FH nb ns ds nx nh \<Rightarrow>
         if nx \<noteq> - 1 then bindR (fetch_chain k nx d) (\<lambda>h. Inr (FH nb ns ds nx (Ref h)))
         else Inr (FH nb ns ds nx nh))"

definition FileHeader_FetchFrom :: "int \<Rightarrow> image \<Rightarrow> FileHeader res" where
  "FileHeader_FetchFrom sector d = fetch_chain (Suc (length d)) sector d"

fun FileHeader_WriteBack :: "FileHeader \<Rightarrow> int \<Rightarrow> image \<Rightarrow> image res" where
  "FileHeader_WriteBack (FH nb ns ds nx nh) sector d =
     bindR (image_write sector (FileHeader_bytes (FH nb ns ds nx nh)) d) (\<lambda>d.
       if nx \<noteq> - 1 then
         (case nh of Ref h \<Rightarrow> FileHeader_WriteBack h nx d
            | Null \<Rightarrow> Inl NullPointer | Stale \<Rightarrow> Inl UseAfterFree)
       else Inr d)"


declare FileHeader_Allocate.simps [simp del]

subsection \<open>Well-formed headers\<close>

fun hdr_ok :: "FileHeader \<Rightarrow> bool" where
  "hdr_ok (FH nb ns ds nx nh) \<longleftrightarrow> 0 \<le> nb \<and> nb \<le> MaxFileSize \<and> ns = divRoundUp nb SectorSize
     \<and> length ds = nat NumDirect \<and> list_all int_fits ds \<and> (\<forall>s\<in>set (take (nat ns) ds). 0 \<le> s)
     \<and> int_fits nx \<and> (case nh of Null \<Rightarrow> nx = - 1 | Stale \<Rightarrow> False
                        | Ref h \<Rightarrow> 0 \<le> nx \<and> nb = MaxFileSize \<and> hdr_ok h)"

fun hdr_len :: "FileHeader \<Rightarrow> int" where
  "hdr_len (FH nb ns ds nx nh) = (case nh of Ref h \<Rightarrow> nb + hdr_len h | _ \<Rightarrow> nb)"

text \<open>The sectors of the data, in file order, and those of the chained headers.\<close>

fun data_sectors :: "FileHeader \<Rightarrow> int list" where
  "data_sectors (FH nb ns ds nx nh) =
     take (nat ns) ds @ (case nh of Ref h \<Rightarrow> data_sectors h | _ \<Rightarrow> [])"

fun header_sectors :: "FileHeader \<Rightarrow> int list" where
  "header_sectors (FH nb ns ds nx nh) = (case nh of Ref h \<Rightarrow> nx # header_sectors h | _ \<Rightarrow> [])"

definition file_sectors :: "FileHeader \<Rightarrow> int list" where
  "file_sectors h = data_sectors h @ header_sectors h"

fun sectors_needed :: "nat \<Rightarrow> nat" where
  "sectors_needed n = (if n \<le> 3584 then (n + 127) div 128 else 29 + sectors_needed (n - 3584))"

declare sectors_needed.simps [simp del]

lemmas file_consts = MaxFileSize_def NumDirect_def SectorSize_def

lemma num_sectors_bounds:
  "0 \<le> nb \<Longrightarrow> nb \<le> MaxFileSize \<Longrightarrow> 0 \<le> divRoundUp nb SectorSize \<and> divRoundUp nb SectorSize \<le> NumDirect"
proof -
  assume "0 \<le> nb" "nb \<le> MaxFileSize"
  then have "divRoundUp nb 128 * 128 < 3584 + 128"
    using divRoundUp_bounds(2) [of nb 128] by (simp add: file_consts)
  then show ?thesis
    using divRoundUp_nonneg [of nb 128] \<open>0 \<le> nb\<close> by (simp add: file_consts)
qed

lemma divRoundUp_nat: "divRoundUp (int n) 128 = int ((n + 127) div 128)"
proof (rule divRoundUp_unique)
  have "n + 127 = ((n + 127) div 128) * 128 + (n + 127) mod 128" "(n + 127) mod 128 < 128" by simp_all
  then have "n \<le> (n + 127) div 128 * 128" "(n + 127) div 128 * 128 < n + 128" by linarith+
  then show "int n \<le> int ((n + 127) div 128) * 128" "int ((n + 127) div 128) * 128 < int n + 128"
    by linarith+
qed simp_all

lemma hdr_len_nonneg: "hdr_ok h \<Longrightarrow> 0 \<le> hdr_len h"
  by (induction h rule: hdr_ok.induct) (auto split: NextHeader.splits)

lemma FileLength_eq:
  "hdr_ok h \<Longrightarrow> int_fits (hdr_len h) \<Longrightarrow> FileHeader_FileLength h = Inr (hdr_len h)"
proof (induction h rule: hdr_len.induct)
  case (1 nb ns ds nx nh)
  show ?case
  proof (cases nh)
    case (Ref h)
    then have "int_fits (hdr_len h)"
      using 1 hdr_len_nonneg [of h] by (auto simp: int_fits_def)
    with 1 Ref show ?thesis by auto
  qed (use 1 in auto)
qed

text \<open>What \<^verbatim>\<open>Allocate\<close> does to a free map with enough clear bits, and to one without.\<close>

definition allocated :: "Bitmap \<Rightarrow> int \<Rightarrow> FileHeader \<Rightarrow> Bitmap \<Rightarrow> bool" where
  "allocated m n h m' \<longleftrightarrow> hdr_ok h \<and> hdr_len h = n \<and> bm_inv m' \<and> bm_size m' = bm_size m
     \<and> distinct (file_sectors h) \<and> set (file_sectors h) \<subseteq> int ` bm_free m
     \<and> bm_free m' = bm_free m - nat ` set (file_sectors h)
     \<and> length (file_sectors h) = sectors_needed (nat n)"

lemma grab_sectors:
  assumes "bm_inv m" "n \<le> card (bm_free m)"
  obtains ks m' where "grab Bitmap_FindAndSet n m = Inr (map int ks, m')" "length ks = n" "distinct ks"
    "set ks \<subseteq> bm_free m" "bm_inv m'" "bm_size m' = bm_size m" "bm_free m' = bm_free m - set ks"
    "card (bm_free m') = card (bm_free m) - n"
proof -
  from bm.grab_enough [OF assms] obtain ks m' where
    k: "grab Bitmap_FindAndSet n m = Inr (map int ks, m')" "length ks = n" "distinct ks"
      "set ks \<subseteq> bm_free m" "bm_inv m'" "bm_size m' = bm_size m" "bm_free m' = bm_free m - set ks" by blast
  moreover have "card (bm_free m') = card (bm_free m) - n"
    using k by (simp add: card_Diff_subset distinct_card)
  ultimately show ?thesis by (rule that)
qed


text \<open>The sectors a bitmap hands out are numbers an \<^verbatim>\<open>int\<close> can hold.\<close>

lemma fits_sector: "bm_size m \<le> 2 ^ 31 \<Longrightarrow> i \<in> bm_free m \<Longrightarrow> int_fits (int i)"
  using bm_free_bounded [of i m] by (auto simp: int_fits_def)

definition blank :: "int list \<Rightarrow> int \<Rightarrow> bool" where
  "blank ds nx \<longleftrightarrow> length ds = nat NumDirect \<and> list_all int_fits ds \<and> nx = - 1"

lemma blank_new: "FileHeader_new = FH nb ns ds nx nh \<Longrightarrow> blank ds nx"
  by (auto simp: FileHeader_new_def blank_def int_fits_def list_all_iff)

lemma Allocate_last:
  assumes "bm_inv m" "bm_size m \<le> 2 ^ 31" "blank ds nx" "n \<le> 3584"
  shows "if sectors_needed n \<le> card (bm_free m)
     then \<exists>h m'. FileHeader_Allocate m (int n) (FH a b ds nx c) = Inr (True, h, m') \<and> allocated m (int n) h m'
     else \<exists>h m'. FileHeader_Allocate m (int n) (FH a b ds nx c) = Inr (False, h, m')"
proof -
  obtain k where k_def: "k = (n + 127) div 128" by simp
  have hb: "header_bytes (int n) = int n" using assms(4) by (simp add: header_bytes_def file_consts)
  have add: "addR (int n) (- int n) = Inr 0" by (simp add: addR_def int_fits_def)
  have k28: "k \<le> 28" using assms(4) unfolding k_def by linarith
  have need: "sectors_needed n = k" using assms(4) unfolding k_def by (simp add: sectors_needed.simps)
  have div: "divRoundUp (int n) 128 = int k" unfolding k_def by (rule divRoundUp_nat)
  show ?thesis
  proof (cases "k \<le> card (bm_free m)")
    case False
    then show ?thesis
      by (simp add: FileHeader_Allocate.simps hb add NumClear_eq [OF assms(1)] need Let_def
          SectorSize_def div)
  next
    case True
    from grab_sectors [OF assms(1) this] obtain ks m' where
      k: "grab Bitmap_FindAndSet k m = Inr (map int ks, m')" "length ks = k" "distinct ks"
        "set ks \<subseteq> bm_free m" "bm_inv m'" "bm_size m' = bm_size m" "bm_free m' = bm_free m - set ks" by blast
    let ?h = "FH (int n) (int k) (map int ks @ drop k ds) (- 1) Null"
    have "FileHeader_Allocate m (int n) (FH a b ds nx c) = Inr (True, ?h, m')"
      using True k(1) assms(3)
      by (simp add: FileHeader_Allocate.simps hb add NumClear_eq [OF assms(1)] Let_def
          SectorSize_def div blank_def)
    moreover have "allocated m (int n) ?h m'"
    proof -
      have fits: "list_all int_fits (map int ks @ drop k ds)"
        using k(4) fits_sector [OF assms(2)] assms(3)
        by (auto simp: blank_def list_all_iff dest!: in_set_dropD)
      have len: "length (map int ks @ drop k ds) = 28"
        using k(2) k28 assms(3) by (simp add: blank_def NumDirect_def)
      have "hdr_ok ?h"
        using fits len assms(4) k(2) by (simp add: file_consts div int_fits_def)
      moreover have "file_sectors ?h = map int ks" using k(2) by (simp add: file_sectors_def)
      ultimately show ?thesis
        using k need by (auto simp: allocated_def distinct_map image_image)
    qed
    ultimately show ?thesis using True need by auto
  qed
qed


lemma FindAndSet_sector:
  assumes "bm_inv m" "bm_free m \<noteq> {}"
  obtains i m' where "Bitmap_FindAndSet m = Inr (int i, m')" "i \<in> bm_free m" "bm_inv m'"
    "bm_size m' = bm_size m" "bm_free m' = bm_free m - {i}" "card (bm_free m') = card (bm_free m) - 1"
proof -
  from bm.fnd_some [OF assms] obtain m' where
    "Bitmap_FindAndSet m = Inr (int (Min (bm_free m)), m')" "bm_inv m'" "bm_size m' = bm_size m"
    "bm_free m' = bm_free m - {Min (bm_free m)}" by auto
  moreover have "Min (bm_free m) \<in> bm_free m" using assms(2) by simp
  ultimately show ?thesis by (intro that [of "Min (bm_free m)" m']) auto
qed

lemma Allocate_more:
  assumes "bm_inv m" "bm_size m \<le> 2 ^ 31" "blank ds nx" "3584 < n" "int_fits (int n)"
    and rec: "\<And>m' nb ns ds' nx' nh. bm_inv m' \<Longrightarrow> bm_size m' = bm_size m \<Longrightarrow> blank ds' nx' \<Longrightarrow>
      if sectors_needed (n - 3584) \<le> card (bm_free m')
      then \<exists>h m''. FileHeader_Allocate m' (int (n - 3584)) (FH nb ns ds' nx' nh) = Inr (True, h, m'')
             \<and> allocated m' (int (n - 3584)) h m''
      else \<exists>h m''. FileHeader_Allocate m' (int (n - 3584)) (FH nb ns ds' nx' nh) = Inr (False, h, m'')"
  shows "if sectors_needed n \<le> card (bm_free m)
     then \<exists>h m'. FileHeader_Allocate m (int n) (FH a b ds nx c) = Inr (True, h, m') \<and> allocated m (int n) h m'
     else \<exists>h m'. FileHeader_Allocate m (int n) (FH a b ds nx c) = Inr (False, h, m')"
proof -
  have hb: "header_bytes (int n) = 3584" using assms(4) by (simp add: header_bytes_def file_consts)
  have add: "addR (int n) (- 3584) = Inr (int (n - 3584))"
    using assms(4,5) by (auto simp: addR_def int_fits_def)
  have need: "sectors_needed n = 29 + sectors_needed (n - 3584)"
    using assms(4) by (simp add: sectors_needed.simps [of n])
  have div: "divRoundUp 3584 128 = 28" by (simp add: divRoundUp_def)
  have pos: "0 < int (n - 3584)" using assms(4) by simp
  note simps = FileHeader_Allocate.simps hb add NumClear_eq [OF assms(1)] Let_def SectorSize_def div
  obtain nb ns ds' nx' nh where new: "FileHeader_new = FH nb ns ds' nx' nh" by (cases FileHeader_new)
  note rec = rec [OF _ _ blank_new [OF new], of _ nb ns nh, folded new]
  show ?thesis
  proof (cases "28 \<le> card (bm_free m)")
    case False
    then show ?thesis using need by (simp add: simps)
  next
    case True
    from grab_sectors [OF assms(1) this] obtain ks m1 where
      k: "grab Bitmap_FindAndSet 28 m = Inr (map int ks, m1)" "length ks = 28" "distinct ks"
        "set ks \<subseteq> bm_free m" "bm_inv m1" "bm_size m1 = bm_size m" "bm_free m1 = bm_free m - set ks"
        "card (bm_free m1) = card (bm_free m) - 28" by blast
    show ?thesis
    proof (cases "bm_free m1 = {}")
      case empty: True
      then have "card (bm_free m) = 28" using k(8) True by simp
      moreover have "Bitmap_FindAndSet m1 = Inr (- 1, m1)" by (rule bm.fnd_none [OF k(5) empty])
      ultimately show ?thesis using True k(1) pos need by (simp add: simps)
    next
      case False
      from FindAndSet_sector [OF k(5) False] obtain i m2 where
        i: "Bitmap_FindAndSet m1 = Inr (int i, m2)" "i \<in> bm_free m1" "bm_inv m2"
          "bm_size m2 = bm_size m1" "bm_free m2 = bm_free m1 - {i}"
          "card (bm_free m2) = card (bm_free m1) - 1" by blast
      have alloc: "FileHeader_Allocate m (int n) (FH a b ds nx c) =
          bindR (FileHeader_Allocate m2 (int (n - 3584)) FileHeader_new) (\<lambda>(b, h, m3).
            Inr (b, FH 3584 28 (map int ks) (int i) (Ref h), m3))"
        using True k(1) pos i(1) assms(3) by (simp add: simps blank_def NumDirect_def)
      have "0 < card (bm_free m1)" using False by (simp add: card_gt_0_iff)
      then have card2: "card (bm_free m2) + 29 = card (bm_free m)" using True k(8) i(6) by linarith
      have rec': "if sectors_needed (n - 3584) \<le> card (bm_free m2)
        then \<exists>h m''. FileHeader_Allocate m2 (int (n - 3584)) FileHeader_new = Inr (True, h, m'')
             \<and> allocated m2 (int (n - 3584)) h m''
        else \<exists>h m''. FileHeader_Allocate m2 (int (n - 3584)) FileHeader_new = Inr (False, h, m'')"
        by (rule rec) (use i(3,4) k(6) in simp_all)
      show ?thesis
      proof (cases "sectors_needed (n - 3584) \<le> card (bm_free m2)")
        case False
        then show ?thesis using rec' alloc need card2 by auto
      next
        case enough: True
        with rec' obtain h m3 where h: "FileHeader_Allocate m2 (int (n - 3584)) FileHeader_new = Inr (True, h, m3)"
          "allocated m2 (int (n - 3584)) h m3" by auto
        let ?h = "FH 3584 28 (map int ks) (int i) (Ref h)"
        have sub: "set (file_sectors h) \<subseteq> int ` (bm_free m - set ks - {i})"
          using h(2) i(5) k(7) by (simp add: allocated_def)
        have "hdr_ok ?h"
          using h(2) k(2,4,6) i(2) k(7) fits_sector [OF assms(2)]
          by (auto simp: allocated_def file_consts div list_all_iff)
        moreover have "hdr_len ?h = int n" using h(2) assms(4) by (simp add: allocated_def)
        moreover have "set (file_sectors ?h) = int ` set ks \<union> {int i} \<union> set (file_sectors h)"
          using k(2) by (auto simp: file_sectors_def)
        moreover have "distinct (file_sectors ?h)"
        proof -
          have "distinct (file_sectors h)" using h(2) by (simp add: allocated_def)
          then show ?thesis
            using k(2,3) sub i(2) k(7) by (auto simp: file_sectors_def distinct_map)
        qed
        moreover have "length (file_sectors ?h) = sectors_needed n"
          using h(2) k(2) need by (simp add: allocated_def file_sectors_def)
        moreover have "bm_free m3 = bm_free m - nat ` (int ` set ks \<union> {int i} \<union> set (file_sectors h))"
          using h(2) i(5) k(7) by (auto simp: allocated_def image_Un image_image)
        moreover have "int ` set ks \<union> {int i} \<union> set (file_sectors h) \<subseteq> int ` bm_free m"
          using sub k(4,7) i(2) by auto
        ultimately have "allocated m (int n) ?h m3"
          using h(2) i(3,4) k(6)
          by (simp add: allocated_def del: hdr_ok.simps hdr_len.simps)
        with alloc h(1) enough need card2 show ?thesis by auto
      qed
    qed
  qed
qed

lemma Allocate_eq:
  assumes "bm_inv m" "bm_size m \<le> 2 ^ 31" "blank ds nx" "int_fits (int n)"
  shows "if sectors_needed n \<le> card (bm_free m)
     then \<exists>h m'. FileHeader_Allocate m (int n) (FH nb ns ds nx nh) = Inr (True, h, m') \<and> allocated m (int n) h m'
     else \<exists>h m'. FileHeader_Allocate m (int n) (FH nb ns ds nx nh) = Inr (False, h, m')"
  using assms
proof (induction n arbitrary: m nb ns ds nx nh rule: less_induct)
  case (less n)
  show ?case
  proof (cases "n \<le> 3584")
    case True
    with less.prems show ?thesis by (intro Allocate_last)
  next
    case False
    show ?thesis
    proof (rule Allocate_more [OF less.prems(1-3)])
      fix m' :: Bitmap and nb ns ds' nx' nh
      assume *: "bm_inv m'" "bm_size m' = bm_size m" "blank ds' nx'"
      have "int_fits (int (n - 3584))" using less.prems(4) by (auto simp: int_fits_def)
      moreover have "n - 3584 < n" "bm_size m' \<le> 2 ^ 31" using False *(2) less.prems(2) by auto
      ultimately show "if sectors_needed (n - 3584) \<le> card (bm_free m')
        then \<exists>h m''. FileHeader_Allocate m' (int (n - 3584)) (FH nb ns ds' nx' nh) = Inr (True, h, m'')
             \<and> allocated m' (int (n - 3584)) h m''
        else \<exists>h m''. FileHeader_Allocate m' (int (n - 3584)) (FH nb ns ds' nx' nh) = Inr (False, h, m'')"
        using less.IH *(1,3) by blast
    qed (use False less.prems in auto)
  qed
qed


subsection \<open>Giving the sectors back\<close>

text \<open>
  \<^verbatim>\<open>Deallocate\<close> clears the data sectors of the whole chain, and only those: the sectors of the
  chained headers stay marked.
\<close>

lemma Deallocate_eq:
  assumes "hdr_ok h" "bm_inv m" "distinct (data_sectors h)"
    "set (data_sectors h) \<subseteq> int ` ({..<bm_size m} - bm_free m)"
  shows "\<exists>m'. FileHeader_Deallocate m h = Inr m' \<and> bm_inv m' \<and> bm_size m' = bm_size m
     \<and> bm_free m' = bm_free m \<union> nat ` set (data_sectors h)"
  using assms
proof (induction h arbitrary: m rule: hdr_len.induct)
  case (1 nb ns ds nx nh)
  let ?ks = "map nat (take (nat ns) ds)"
  have mapint: "map int ?ks = take (nat ns) ds"
    using "1.prems"(1) by (auto simp: map_idI)
  have range: "set ?ks \<subseteq> {..<bm_size m}" "set ?ks \<inter> bm_free m = {}"
    using "1.prems"(4) by auto
  have "distinct (take (nat ns) ds)" using "1.prems"(3) by simp
  then have "distinct ?ks" using mapint by (metis distinct_map)
  from bm.release_all [OF "1.prems"(2) this range] obtain m1 where
    m1: "release Bitmap_Test Bitmap_Clear (take (nat ns) ds) m = Inr m1" "bm_inv m1"
      "bm_size m1 = bm_size m" "bm_free m1 = bm_free m \<union> set ?ks"
    unfolding mapint by auto
  have short: "\<not> length ds < nat ns"
    using "1.prems"(1) num_sectors_bounds [of nb] by (auto simp: NumDirect_def)
  show ?case
  proof (cases nh)
    case (Ref h)
    have "set (data_sectors h) \<subseteq> int ` ({..<bm_size m1} - bm_free m1)"
    proof
      fix x assume x: "x \<in> set (data_sectors h)"
      then obtain i where i: "x = int i" "i < bm_size m" "i \<notin> bm_free m" using "1.prems"(4) Ref by auto
      have "x \<notin> set (take (nat ns) ds)" using x "1.prems"(3) Ref by auto
      then have "i \<notin> set ?ks" using i(1) mapint by (metis image_eqI list.set_map)
      with i m1(3,4) show "x \<in> int ` ({..<bm_size m1} - bm_free m1)" by auto
    qed
    from "1.IH" [OF Ref _ m1(2) _ this] "1.prems"(1,3) Ref m1 short show ?thesis by auto
  qed (use "1.prems"(1) m1 short in auto)
qed

lemma Deallocate_allocated:
  assumes "allocated m n h m'" "bm_inv m"
  shows "\<exists>m''. FileHeader_Deallocate m' h = Inr m'' \<and> bm_inv m'' \<and> bm_size m'' = bm_size m
     \<and> bm_free m'' = bm_free m - nat ` set (header_sectors h)"
proof -
  have sub: "set (data_sectors h) \<subseteq> int ` bm_free m" "set (header_sectors h) \<subseteq> int ` bm_free m"
    and dist: "distinct (data_sectors h)" "set (data_sectors h) \<inter> set (header_sectors h) = {}"
    using assms(1) by (auto simp: allocated_def file_sectors_def)
  have free: "bm_free m' = bm_free m - nat ` set (file_sectors h)" "bm_size m' = bm_size m"
    using assms(1) by (auto simp: allocated_def)
  have "set (data_sectors h) \<subseteq> int ` ({..<bm_size m'} - bm_free m')"
  proof
    fix x assume x: "x \<in> set (data_sectors h)"
    then obtain i where i: "x = int i" "i \<in> bm_free m" using sub(1) by auto
    then have "i \<in> nat ` set (file_sectors h)" using x by (force simp: file_sectors_def)
    with i free bm_free_bounded [OF i(2)] show "x \<in> int ` ({..<bm_size m'} - bm_free m')" by auto
  qed
  from Deallocate_eq [OF _ _ dist(1) this] assms(1) obtain m'' where
    m'': "FileHeader_Deallocate m' h = Inr m''" "bm_inv m''" "bm_size m'' = bm_size m"
      "bm_free m'' = bm_free m' \<union> nat ` set (data_sectors h)"
    by (auto simp: allocated_def)
  have "bm_free m'' = bm_free m - nat ` set (header_sectors h)"
  proof -
    have "set (file_sectors h) \<subseteq> range int" using sub by (auto simp: file_sectors_def)
    then have inj: "nat x = nat y \<Longrightarrow> x \<in> set (file_sectors h) \<Longrightarrow> y \<in> set (file_sectors h) \<Longrightarrow> x = y" for x y
      by (metis imageE nat_int subsetD)
    have "nat ` set (data_sectors h) \<subseteq> bm_free m" using sub(1) by auto
    moreover have "nat ` set (data_sectors h) \<inter> nat ` set (header_sectors h) = {}"
      using dist(2) inj by (auto simp: file_sectors_def)
    ultimately show ?thesis
      unfolding m''(4) free by (auto simp: file_sectors_def image_Un)
  qed
  with m'' show ?thesis by auto
qed

lemma header_sectors_Nil: "hdr_ok h \<Longrightarrow> hdr_len h \<le> MaxFileSize \<Longrightarrow> (\<forall>h'. nextFileHeader h = Ref h' \<longrightarrow> 0 < hdr_len h') \<Longrightarrow> header_sectors h = []"
  by (cases h) (auto split: NextHeader.splits)

subsection \<open>Writing a header and reading it again\<close>

lemma length_FileHeader_bytes: "length (fh_dataSectors h) = 28 \<Longrightarrow> length (FileHeader_bytes h) = 128"
  by (cases h) simp

lemma bytes_FileHeader_bytes:
  assumes "int_fits nb" "int_fits ns" "length ds = 28" "list_all int_fits ds" "int_fits nx"
  shows "bytes_FileHeader (FileHeader_bytes (FH nb ns ds nx nh)) =
     FH nb ns ds nx (if nh = Null then Null else Stale)"
proof -
  have "bytes_ints 28 (ints_bytes ds @ int_bytes nx) = ds"
    using bytes_ints_ints_bytes [OF assms(4), of "int_bytes nx"] assms(3) by simp
  moreover have "int_fits 0" "int_fits 1" by (simp_all add: int_fits_def)
  ultimately show ?thesis
    using assms by (simp add: bytes_FileHeader_def bytes_int_int_bytes NumDirect_def)
qed

lemma hdr_ok_fits:
  "hdr_ok (FH nb ns ds nx nh) \<Longrightarrow>
   int_fits nb \<and> int_fits ns \<and> length ds = 28 \<and> list_all int_fits ds \<and> int_fits nx"
  using num_sectors_bounds [of nb] by (auto simp: file_consts int_fits_def)

text \<open>The chain as a relation: \<open>on_disk d s h\<close> says that \<open>h\<close> is what lies at sector \<open>s\<close>.\<close>

fun on_disk :: "image \<Rightarrow> int \<Rightarrow> FileHeader \<Rightarrow> bool" where
  "on_disk d s (FH nb ns ds nx nh) \<longleftrightarrow>
     0 \<le> s \<and> s < int (length d) \<and> d ! nat s = FileHeader_bytes (FH nb ns ds nx nh)
     \<and> (case nh of Null \<Rightarrow> nx = - 1 | Stale \<Rightarrow> False | Ref h \<Rightarrow> nx \<noteq> - 1 \<and> on_disk d nx h)"

lemma fetch_on_disk:
  "on_disk d s h \<Longrightarrow> hdr_ok h \<Longrightarrow> length (header_sectors h) < k \<Longrightarrow> fetch_chain k s d = Inr h"
proof (induction h arbitrary: s k rule: hdr_len.induct)
  case (1 nb ns ds nx nh)
  note fits = hdr_ok_fits [OF "1.prems"(2)]
  from "1.prems"(3) obtain j where k: "k = Suc j" by (cases k) auto
  have b: "bytes_FileHeader (d ! nat s) = FH nb ns ds nx (if nh = Null then Null else Stale)"
    using "1.prems"(1) bytes_FileHeader_bytes fits by (simp del: FileHeader_bytes.simps)
  show ?case
  proof (cases nh)
    case (Ref h)
    with "1.IH" [OF Ref, of nx j] "1.prems" k have "fetch_chain j nx d = Inr h" by auto
    with b k Ref "1.prems"(1) show ?thesis by (simp add: image_read_def)
  qed (use b k "1.prems" in \<open>auto simp: image_read_def\<close>)
qed

lemma on_disk_cong:
  "(\<And>i. i \<in> set (s # header_sectors h) \<Longrightarrow> d' ! nat i = d ! nat i) \<Longrightarrow> length d' = length d \<Longrightarrow>
   on_disk d s h \<Longrightarrow> on_disk d' s h"
  by (induction h arbitrary: s rule: hdr_len.induct) (auto split: NextHeader.splits)

lemma on_disk_range: "on_disk d s h \<Longrightarrow> i \<in> set (s # header_sectors h) \<Longrightarrow> 0 \<le> i \<and> i < int (length d)"
proof (induction h arbitrary: s rule: hdr_len.induct)
  case (1 nb ns ds nx nh)
  then show ?case by (cases nh) auto
qed

lemma WriteBack_eq:
  assumes "hdr_ok h" "distinct (s # header_sectors h)" "\<forall>i\<in>set (s # header_sectors h). 0 \<le> i \<and> i < int (length d)"
    "image_ok d"
  shows "\<exists>d'. FileHeader_WriteBack h s d = Inr d' \<and> on_disk d' s h \<and> length d' = length d \<and> image_ok d'
     \<and> (\<forall>i. 0 \<le> i \<longrightarrow> i \<notin> set (s # header_sectors h) \<longrightarrow> d' ! nat i = d ! nat i)"
  using assms
proof (induction h arbitrary: s d rule: hdr_len.induct)
  case (1 nb ns ds nx nh)
  let ?b = "FileHeader_bytes (FH nb ns ds nx nh)"
  have s: "0 \<le> s" "s < int (length d)" using "1.prems"(3) by auto
  have blen: "int (length ?b) = SectorSize"
    using hdr_ok_fits [OF "1.prems"(1)] length_FileHeader_bytes [of "FH nb ns ds nx nh"] by (simp add: SectorSize_def)
  let ?d = "d[nat s := ?b]"
  have w: "image_write s ?b d = Inr ?d" using s by (simp add: image_write_def)
  have ok: "image_ok ?d" using "1.prems"(4) blen unfolding image_ok_def
    by (metis insert_iff set_update_subset_insert subsetD)
  show ?case
  proof (cases nh)
    case (Ref h)
    from "1.IH" [OF Ref, of nx ?d] "1.prems" Ref ok obtain d' where
      d': "FileHeader_WriteBack h nx ?d = Inr d'" "on_disk d' nx h" "length d' = length d" "image_ok d'"
        "\<forall>i. 0 \<le> i \<longrightarrow> i \<notin> set (nx # header_sectors h) \<longrightarrow> d' ! nat i = ?d ! nat i"
      by (auto simp del: FileHeader_bytes.simps)
    have "d' ! nat s = ?b" using d'(5) s "1.prems"(2) Ref by (simp del: FileHeader_bytes.simps)
    moreover have "d' ! nat i = d ! nat i" if "0 \<le> i" "i \<notin> set (s # nx # header_sectors h)" for i
    proof -
      have "nat s \<noteq> nat i" using that s by auto
      then show ?thesis using d'(5) that by (simp del: FileHeader_bytes.simps)
    qed
    ultimately show ?thesis
      using w d' s Ref "1.prems"(1) by (auto simp del: FileHeader_bytes.simps)
  next
    case Null
    have "?d ! nat i = d ! nat i" if "0 \<le> i" "i \<noteq> s" for i
      using that s by (simp del: FileHeader_bytes.simps add: nth_list_update)
    with Null w ok s "1.prems"(1) show ?thesis by (auto simp del: FileHeader_bytes.simps)
  qed (use "1.prems"(1) in simp)
qed

lemma distinct_bounded_length:
  "distinct xs \<Longrightarrow> \<forall>i\<in>set xs. 0 \<le> i \<and> i < int n \<Longrightarrow> length xs \<le> n"
proof -
  assume *: "distinct xs" "\<forall>i\<in>set xs. 0 \<le> i \<and> i < int n"
  have "card (set xs) \<le> card {0..<int n}" by (rule card_mono) (use *(2) in auto)
  then show ?thesis using *(1) by (simp add: distinct_card)
qed

lemma FetchFrom_on_disk:
  assumes "on_disk d s h" "hdr_ok h" "distinct (s # header_sectors h)"
  shows "FileHeader_FetchFrom s d = Inr h"
proof -
  have "length (s # header_sectors h) \<le> length d"
    by (rule distinct_bounded_length [OF assms(3)]) (use on_disk_range [OF assms(1)] in blast)
  then show ?thesis
    unfolding FileHeader_FetchFrom_def by (intro fetch_on_disk [OF assms(1,2)]) simp
qed


subsection \<open>Which sector a byte lies in\<close>

lemma length_data_sectors:
  "hdr_ok h \<Longrightarrow> int (length (data_sectors h)) = divRoundUp (hdr_len h) SectorSize"
proof (induction h rule: hdr_len.induct)
  case (1 nb ns ds nx nh)
  note b = num_sectors_bounds [of nb]
  show ?case
  proof (cases nh)
    case (Ref h)
    then have h: "hdr_ok h" "nb = MaxFileSize" "ns = divRoundUp nb SectorSize" "length ds = 28"
      using "1.prems" by (auto simp: NumDirect_def)
    have nn: "0 \<le> hdr_len h" by (rule hdr_len_nonneg [OF h(1)])
    have "divRoundUp (3584 + hdr_len h) 128 = 28 + divRoundUp (hdr_len h) 128"
    proof (rule divRoundUp_unique)
      show "3584 + hdr_len h \<le> (28 + divRoundUp (hdr_len h) 128) * 128"
        "(28 + divRoundUp (hdr_len h) 128) * 128 < 3584 + hdr_len h + 128"
        using divRoundUp_bounds [OF nn, of 128] by (simp_all add: algebra_simps)
    qed (use nn in auto)
    moreover have "ns = 28" using h(2,3) by (simp add: file_consts divRoundUp_def)
    ultimately show ?thesis
      using "1.IH" [OF Ref h(1)] Ref h by (simp add: file_consts)
  qed (use "1.prems" b in \<open>auto simp: NumDirect_def\<close>)
qed

lemma ByteToSector_out:
  "hdr_ok h \<Longrightarrow> int_fits (hdr_len h) \<Longrightarrow> off < 0 \<or> hdr_len h \<le> off \<Longrightarrow>
   FileHeader_ByteToSector h off = Inr (- 1)"
  using FileLength_eq [of h] by (cases h) auto

lemma ByteToSector_eq:
  assumes "hdr_ok h" "int_fits (hdr_len h)" "0 \<le> off" "off < hdr_len h"
  shows "FileHeader_ByteToSector h off = Inr (data_sectors h ! nat (off div SectorSize))
     \<and> nat (off div SectorSize) < length (data_sectors h)"
  using assms
proof (induction h arbitrary: off rule: hdr_len.induct)
  case (1 nb ns ds nx nh)
  let ?h = "FH nb ns ds nx nh" and ?i = "off div 128"
  note len = FileLength_eq [OF "1.prems"(1,2)]
  have ds: "length ds = 28" "ns = divRoundUp nb 128" "0 \<le> nb" "nb \<le> 3584"
    using "1.prems"(1) by (auto simp: file_consts)
  have ns: "0 \<le> ns" "ns \<le> 28" "nb \<le> ns * 128" "ns * 128 < nb + 128"
    using num_sectors_bounds [of nb] divRoundUp_bounds [of nb 128] ds by (auto simp: file_consts)
  have i: "0 \<le> ?i" using "1.prems"(3) by (simp add: pos_imp_zdiv_nonneg_iff)
  have "?i * 128 \<le> off" "off < ?i * 128 + 128" using div_mult_mod_eq [of off 128] pos_mod_bound [of 128 off]
    pos_mod_sign [of 128 off] by linarith+
  show ?case
  proof (cases "?i < 28")
    case True
    have lt: "?i < ns"
    proof (cases nh)
      case (Ref h)
      then have "ns = 28" using "1.prems"(1) by (auto simp: file_consts divRoundUp_def)
      with True show ?thesis by simp
    next
      case Null
      then have "off < nb" using "1.prems"(4) by simp
      with \<open>?i * 128 \<le> off\<close> ns(3) show ?thesis by linarith
    qed (use "1.prems"(1) in simp)
    have "FileHeader_ByteToSector ?h off = Inr (ds ! nat ?i)"
      using len "1.prems"(3,4) True ds i
      by (auto simp: file_consts simp del: FileHeader_FileLength.simps hdr_len.simps)
    moreover have "data_sectors ?h ! nat ?i = ds ! nat ?i" "nat ?i < length (data_sectors ?h)"
      using lt i ns ds by (auto simp: nth_append)
    ultimately show ?thesis by (simp add: SectorSize_def)
  next
    case False
    show ?thesis
    proof (cases nh)
      case (Ref h)
      then have h: "hdr_ok h" "nb = 3584" "ns = 28" using "1.prems"(1) by (auto simp: file_consts divRoundUp_def)
      have "int_fits (hdr_len h)" using "1.prems"(2) Ref hdr_len_nonneg [OF h(1)] h(2) by (auto simp: int_fits_def)
      moreover have "0 \<le> off - 3584" using False by linarith
      moreover have "off - 3584 < hdr_len h" using "1.prems"(4) Ref h(2) by simp
      ultimately have ih: "FileHeader_ByteToSector h (off - 3584) = Inr (data_sectors h ! nat ((off - 3584) div 128))
          \<and> nat ((off - 3584) div 128) < length (data_sectors h)"
        using "1.IH" [OF Ref h(1)] by (simp add: SectorSize_def)
      have d: "nat ?i = 28 + nat ((off - 3584) div 128)" using False by linarith
      have "FileHeader_ByteToSector ?h off = FileHeader_ByteToSector h (off - 3584)"
        using len "1.prems"(3,4) False Ref
        by (auto simp: file_consts simp del: FileHeader_FileLength.simps hdr_len.simps)
      moreover have "data_sectors ?h = take 28 ds @ data_sectors h" using Ref h(3) by simp
      ultimately show ?thesis using ih d ds(1) by (simp add: SectorSize_def nth_append)
    next
      case Null
      then have "off < 3584" using "1.prems"(4) ds by simp
      with False show ?thesis by linarith
    qed (use "1.prems"(1) in simp)
  qed
qed

text \<open>A negative size is taken for a full header, because the comparison is unsigned.\<close>

lemma Allocate_negative:
  assumes "bm_inv m" "28 \<le> card (bm_free m)" "n < 0" "- (2 ^ 31) + MaxFileSize \<le> n"
  shows "\<exists>h m'. FileHeader_Allocate m n FileHeader_new = Inr (True, h, m')
     \<and> FileHeader_FileLength h = Inr MaxFileSize"
proof -
  have hb: "header_bytes n = 3584" using assms(3) by (simp add: header_bytes_def file_consts)
  have add: "addR n (- 3584) = Inr (n - 3584)"
    using assms(3,4) by (simp add: addR_def int_fits_def file_consts)
  have div: "divRoundUp 3584 128 = 28" by (simp add: divRoundUp_def)
  obtain ks m' where k: "grab Bitmap_FindAndSet 28 m = Inr (map int ks, m')"
    by (rule grab_sectors [OF assms(1,2)])
  obtain nb ns ds nx nh where new: "FileHeader_new = FH nb ns ds nx nh" by (cases FileHeader_new)
  have "nx = - 1" using blank_new [OF new] by (simp add: blank_def)
  then show ?thesis
    unfolding new using assms(2,3) k
    by (simp add: FileHeader_Allocate.simps hb add NumClear_eq [OF assms(1)]
        Let_def SectorSize_def div MaxFileSize_def NumDirect_def)
qed

text \<open>Closed form of the number of sectors: the data, and a header for every full one before it.\<close>

lemma sectors_needed_eq: "sectors_needed n = (n + 127) div 128 + (n - 1) div 3584"
proof (induction n rule: less_induct)
  case (less n)
  show ?case
  proof (cases "n \<le> 3584")
    case True
    then have "(n - 1) div 3584 = 0" by simp
    with True show ?thesis by (simp add: sectors_needed.simps [of n])
  next
    case False
    then obtain k where k: "n = 3584 + k" "0 < k" by (metis add.commute less_imp_add_positive not_le)
    have "(3584 + k + 127) div 128 = 28 + (k + 127) div 128" by simp
    moreover have "(3584 + k - 1) div 3584 = 1 + (k - 1) div 3584"
      using k(2) div_add_self1 [of 3584 "k - 1"] by simp
    moreover have "sectors_needed n = 29 + sectors_needed k"
      using False k(1) by (simp add: sectors_needed.simps [of "3584 + k"])
    ultimately show ?thesis using less [of k] k by simp
  qed
qed

text \<open>
  The chain of headers as it lies on the disk: the sector that comes \<open>i\<close> steps after \<open>s\<close>, and what a sector holds
  (the counts, the data sectors, the sector of the next header).
\<close>

definition sector_part :: "image \<Rightarrow> int \<Rightarrow> int \<times> int \<times> int list \<times> int" where
  "sector_part d s = (case bytes_FileHeader (d ! nat s) of FH nb ns ds nx nh \<Rightarrow> (nb, ns, ds, nx))"

definition chain_sector :: "image \<Rightarrow> int \<Rightarrow> nat \<Rightarrow> int" where
  "chain_sector d s i = ((\<lambda>x. snd (snd (snd (sector_part d x)))) ^^ i) s"

definition on_image :: "image \<Rightarrow> int \<Rightarrow> bool" where
  "on_image d s \<longleftrightarrow> 0 \<le> s \<and> s < int (length d)"

fun chain_parts :: "FileHeader \<Rightarrow> (int \<times> int \<times> int list \<times> int) list" where
  "chain_parts (FH nb ns ds nx nh) = (nb, ns, ds, nx) # (case nh of Ref h \<Rightarrow> chain_parts h | _ \<Rightarrow> [])"

lemma chain_sector_0 [simp]: "chain_sector d s 0 = s"
  by (simp add: chain_sector_def)

lemma chain_sector_Suc: "chain_sector d s (Suc i) = chain_sector d (chain_sector d s 1) i"
  by (simp add: chain_sector_def funpow_Suc_right del: funpow.simps(2))

lemma chain_sector_step: "chain_sector d s (Suc i) = snd (snd (snd (sector_part d (chain_sector d s i))))"
  by (simp add: chain_sector_def)

lemma fetch_chain_step:
  "fetch_chain (Suc k) s d = (if \<not> on_image d s then Inl AssertFailed
     else case sector_part d s of (nb, ns, ds, nx) \<Rightarrow>
       if nx \<noteq> - 1 then bindR (fetch_chain k nx d) (\<lambda>h. Inr (FH nb ns ds nx (Ref h)))
       else Inr (bytes_FileHeader (d ! nat s)))"
  by (cases "bytes_FileHeader (d ! nat s)") (auto simp: image_read_def on_image_def sector_part_def)

lemma last_part: "sector_part d s = p \<Longrightarrow> chain_parts (bytes_FileHeader (d ! nat s)) = [p]"
  by (auto simp: sector_part_def bytes_FileHeader_def)

text \<open>By how the chain ends within \<open>k\<close> sectors: not at all, with \<open>- 1\<close>, or outside the disk.\<close>

lemma fetch_chain_endless:
  "\<forall>i<k. on_image d (chain_sector d s i) \<and> chain_sector d s (Suc i) \<noteq> - 1 \<Longrightarrow> fetch_chain k s d = Inl NoReturn"
proof (induction k arbitrary: s)
  case (Suc k)
  have s: "on_image d s" "chain_sector d s 1 \<noteq> - 1" using Suc.prems [rule_format, of 0] by simp_all
  have "\<forall>i<k. on_image d (chain_sector d (chain_sector d s 1) i) \<and> chain_sector d (chain_sector d s 1) (Suc i) \<noteq> - 1"
    using Suc.prems unfolding chain_sector_Suc [symmetric] by auto
  from Suc.IH [OF this] s show ?case
    unfolding fetch_chain_step by (auto simp: chain_sector_def split: prod.split)
qed simp

lemma fetch_chain_ends:
  "i < k \<Longrightarrow> \<forall>j\<le>i. on_image d (chain_sector d s j) \<Longrightarrow> \<forall>j<i. chain_sector d s (Suc j) \<noteq> - 1 \<Longrightarrow>
   chain_sector d s (Suc i) = - 1 \<Longrightarrow>
   \<exists>h. fetch_chain k s d = Inr h \<and> chain_parts h = map (\<lambda>j. sector_part d (chain_sector d s j)) [0..<Suc i]"
proof (induction i arbitrary: s k)
  case 0
  then obtain k' where k: "k = Suc k'" by (cases k) auto
  have "on_image d s" "snd (snd (snd (sector_part d s))) = - 1" using 0 by (simp_all add: chain_sector_step)
  then show ?case unfolding k fetch_chain_step by (auto simp: last_part split: prod.split)
next
  case (Suc i)
  then obtain k' where k: "k = Suc k'" "i < k'" by (cases k) auto
  let ?s = "chain_sector d s 1"
  have s: "on_image d s" "?s \<noteq> - 1" using Suc.prems(2,3) by (auto dest: spec [of _ 0])
  have "\<forall>j\<le>i. on_image d (chain_sector d ?s j)" "\<forall>j<i. chain_sector d ?s (Suc j) \<noteq> - 1" "chain_sector d ?s (Suc i) = - 1"
    using Suc.prems(2-4) unfolding chain_sector_Suc [symmetric] by auto
  from Suc.IH [OF k(2) this] obtain h where h: "fetch_chain k' ?s d = Inr h"
    "chain_parts h = map (\<lambda>j. sector_part d (chain_sector d ?s j)) [0..<Suc i]" by blast
  obtain nb ns ds nx where p: "sector_part d s = (nb, ns, ds, nx)" by (cases "sector_part d s")
  then have nx: "?s = nx" by (simp add: chain_sector_def)
  have "fetch_chain k s d = Inr (FH nb ns ds nx (Ref h))"
    using s h(1) p unfolding k(1) fetch_chain_step nx by simp
  moreover have "[0..<Suc (Suc i)] = 0 # map Suc [0..<Suc i]" 
    using upt_conv_Cons [of 0 "Suc (Suc i)"] map_Suc_upt [of 0 "Suc i"] by (simp only: zero_less_Suc simp_thms)
  then have "map (\<lambda>j. sector_part d (chain_sector d s j)) [0..<Suc (Suc i)]
      = sector_part d s # map (\<lambda>j. sector_part d (chain_sector d ?s j)) [0..<Suc i]"
    by (simp only: list.map map_map comp_def chain_sector_0 chain_sector_Suc [symmetric])
  ultimately show ?case using h(2) p by simp
qed

lemma fetch_chain_leaves:
  "i < k \<Longrightarrow> \<forall>j<i. on_image d (chain_sector d s j) \<and> chain_sector d s (Suc j) \<noteq> - 1 \<Longrightarrow>
   \<not> on_image d (chain_sector d s i) \<Longrightarrow> fetch_chain k s d = Inl AssertFailed"
proof (induction i arbitrary: s k)
  case 0
  then show ?case by (cases k) (auto simp: fetch_chain_step simp del: fetch_chain.simps)
next
  case (Suc i)
  then obtain k' where k: "k = Suc k'" "i < k'" by (cases k) auto
  let ?s = "chain_sector d s 1"
  have s: "on_image d s" "?s \<noteq> - 1" using Suc.prems(2) by (auto dest: spec [of _ 0])
  have "\<forall>j<i. on_image d (chain_sector d ?s j) \<and> chain_sector d ?s (Suc j) \<noteq> - 1" "\<not> on_image d (chain_sector d ?s i)"
    using Suc.prems(2,3) unfolding chain_sector_Suc [symmetric] by auto
  from Suc.IH [OF k(2) this] s show ?case
    unfolding k(1) fetch_chain_step by (auto simp: chain_sector_def split: prod.split)
qed

text \<open>A chain that goes through more sectors than the disk has is a cycle, and goes on forever.\<close>

lemma chain_repeats:
  assumes "\<forall>i\<le>length d. on_image d (chain_sector d s i)"
  shows "\<exists>i j. i < j \<and> j \<le> length d \<and> chain_sector d s i = chain_sector d s j"
proof (rule ccontr)
  assume no: "\<not> ?thesis"
  have "inj_on (chain_sector d s) {..length d}"
    using no by (intro linorder_inj_onI) auto
  then have "card (chain_sector d s ` {..length d}) = Suc (length d)" by (simp add: card_image)
  moreover have "chain_sector d s ` {..length d} \<subseteq> {0..<int (length d)}" using assms by (auto simp: on_image_def)
  then have "card (chain_sector d s ` {..length d}) \<le> length d" using card_mono [of "{0..<int (length d)}"] by fastforce
  ultimately show False by simp
qed

lemma chain_endless:
  assumes "\<forall>i\<le>length d. on_image d (chain_sector d s i) \<and> chain_sector d s (Suc i) \<noteq> - 1"
  shows "on_image d (chain_sector d s i) \<and> chain_sector d s (Suc i) \<noteq> - 1"
proof (induction i rule: less_induct)
  case (less n)
  show ?case
  proof (cases "n \<le> length d")
    case False
    from chain_repeats [of d s] assms obtain i j where ij: "i < j" "j \<le> length d" "chain_sector d s i = chain_sector d s j" by blast
    have shift: "chain_sector d s (j + m) = chain_sector d s (i + m)" for m
      by (induction m) (simp_all add: ij(3) chain_sector_step)
    let ?m = "n - j"
    have "n = j + ?m" "i + ?m < n" using False ij(1,2) by simp_all
    then show ?thesis using less [of "i + ?m"] shift [of ?m] shift [of "Suc ?m"] by simp
  qed (use assms in simp)
qed

subsection \<open>Properties\<close>

definition clear_map :: "nat \<Rightarrow> Bitmap" where
  "clear_map n = \<lparr>numBits = 32 * int n, numWords = int n, bmap = replicate n 0\<rparr>"

lemma clear_map_ok: "0 < n \<Longrightarrow> bm_inv (clear_map n)" "bm_size (clear_map n) = 32 * n" "bm_free (clear_map n) = {..<32 * n}"
  by (auto simp: bm_inv_def clear_map_def divRoundUp_def BitsInWord_def bm_free_def bm_set_def bm_bit_def bm_size_def)

text \<open>
  C39: \<^verbatim>\<open>FetchFrom\<close> follows the chain of headers on the disk to its end, and fails or runs forever exactly when there is
  none. If the chain ends with \<open>- 1\<close> after some sectors of the disk, the object has one header for each of
  them, with the counts, data sectors and link that the sector holds; if a link leads outside the disk, the request for that sector
  fails; and the only other case is a chain that comes back to a sector, which the code follows forever.
\<close>

theorem FetchFrom_follows_chain:
  "(\<exists>i h. (\<forall>j\<le>i. on_image d (chain_sector d s j)) \<and> (\<forall>j<i. chain_sector d s (Suc j) \<noteq> - 1) \<and> chain_sector d s (Suc i) = - 1
      \<and> FileHeader_FetchFrom s d = Inr h \<and> chain_parts h = map (\<lambda>j. sector_part d (chain_sector d s j)) [0..<Suc i])
   \<or> (\<exists>i. (\<forall>j<i. on_image d (chain_sector d s j) \<and> chain_sector d s (Suc j) \<noteq> - 1) \<and> \<not> on_image d (chain_sector d s i)
      \<and> FileHeader_FetchFrom s d = Inl AssertFailed)
   \<or> (\<forall>i. on_image d (chain_sector d s i) \<and> chain_sector d s (Suc i) \<noteq> - 1)
      \<and> (\<exists>i j. i < j \<and> j \<le> length d \<and> chain_sector d s i = chain_sector d s j) \<and> FileHeader_FetchFrom s d = Inl NoReturn"
proof (cases "\<forall>i\<le>length d. on_image d (chain_sector d s i) \<and> chain_sector d s (Suc i) \<noteq> - 1")
  case True
  then have "FileHeader_FetchFrom s d = Inl NoReturn"
    unfolding FileHeader_FetchFrom_def by (intro fetch_chain_endless) simp
  then show ?thesis using chain_endless [OF True] chain_repeats [of d s] True by blast
next
  case False
  define P where "P i \<longleftrightarrow> \<not> (on_image d (chain_sector d s i) \<and> chain_sector d s (Suc i) \<noteq> - 1)" for i
  define i where "i = (LEAST i. P i)"
  from False obtain i0 where i0: "i0 \<le> length d" "P i0" unfolding P_def by blast
  have stop: "\<not> (on_image d (chain_sector d s i) \<and> chain_sector d s (Suc i) \<noteq> - 1)"
    using LeastI [of P, OF i0(2)] unfolding i_def P_def .
  have "i \<le> i0" unfolding i_def by (rule Least_le [of P, OF i0(2)])
  then have small: "i < Suc (length d)" using i0(1) by simp
  have before: "\<forall>j<i. on_image d (chain_sector d s j) \<and> chain_sector d s (Suc j) \<noteq> - 1"
    using not_less_Least [of _ P] unfolding i_def P_def by blast
  show ?thesis
  proof (cases "on_image d (chain_sector d s i)")
    case True
    then have upto: "\<forall>j\<le>i. on_image d (chain_sector d s j)" "\<forall>j<i. chain_sector d s (Suc j) \<noteq> - 1"
      using before by (auto simp: le_less)
    have "chain_sector d s (Suc i) = - 1" using stop True by blast
    with fetch_chain_ends [OF small upto this] upto show ?thesis unfolding FileHeader_FetchFrom_def by blast
  next
    case False
    with fetch_chain_leaves [OF small before] before show ?thesis unfolding FileHeader_FetchFrom_def by blast
  qed
qed

lemma FetchFrom_follows_chain_witness:
  "FileHeader_FetchFrom 0 [replicate 128 0] = Inl NoReturn"
proof -
  have "snd (snd (snd (sector_part [replicate 128 0] 0))) = 0" by code_simp
  then have "chain_sector [replicate 128 0] 0 i = 0" for i by (induction i) (simp_all add: chain_sector_step)
  then show ?thesis using FetchFrom_follows_chain [of "[replicate 128 0]" 0] by (auto simp: on_image_def)
qed

text \<open>
  C26: \<^verbatim>\<open>Allocate\<close> succeeds exactly when enough sectors are free for the data and for the chained
  headers; the header it builds has the requested length and holds that many different sectors,
  which were free and are free no more, and no other bit of the map changes.
\<close>

theorem Allocate_enough:
  assumes "bm_inv m" "bm_size m \<le> 2 ^ 31" "int_fits (int n)"
  shows "\<exists>b h m'. FileHeader_Allocate m (int n) FileHeader_new = Inr (b, h, m')
     \<and> (b \<longleftrightarrow> (n + 127) div 128 + (n - 1) div 3584 \<le> card (bm_free m))
     \<and> (b \<longrightarrow> FileHeader_FileLength h = Inr (int n) \<and> distinct (file_sectors h)
          \<and> length (file_sectors h) = (n + 127) div 128 + (n - 1) div 3584
          \<and> set (file_sectors h) \<subseteq> int ` bm_free m \<and> bm_free m' = bm_free m - nat ` set (file_sectors h))"
proof -
  obtain nb ns ds nx nh where new: "FileHeader_new = FH nb ns ds nx nh" by (cases FileHeader_new)
  have len: "FileHeader_FileLength h = Inr (int n)" if "allocated m (int n) h m'" for h m'
    using that FileLength_eq [of h] assms(3) by (simp add: allocated_def)
  from Allocate_eq [OF assms(1,2) blank_new [OF new] assms(3), of nb ns nh] len show ?thesis
    unfolding new sectors_needed_eq allocated_def by (auto split: if_splits)
qed

lemma Allocate_enough_witness:
  "\<exists>b h m'. FileHeader_Allocate (clear_map 2) (int 5000) FileHeader_new = Inr (b, h, m')
     \<and> (b \<longleftrightarrow> (5000 + 127) div 128 + (5000 - 1) div 3584 \<le> card (bm_free (clear_map 2)))
     \<and> (b \<longrightarrow> FileHeader_FileLength h = Inr (int 5000) \<and> distinct (file_sectors h)
          \<and> length (file_sectors h) = (5000 + 127) div 128 + (5000 - 1) div 3584
          \<and> set (file_sectors h) \<subseteq> int ` bm_free (clear_map 2)
          \<and> bm_free m' = bm_free (clear_map 2) - nat ` set (file_sectors h))"
  by (rule Allocate_enough) (simp_all add: clear_map_ok int_fits_def)

text \<open>
  giving a file back right after it was allocated frees the sectors of its data and of
  nothing else: the sectors of the chained headers of a file longer than 3584 bytes stay marked.
\<close>

theorem Deallocate_leaks_headers:
  assumes "bm_inv m" "bm_size m \<le> 2 ^ 31" "int_fits (int n)"
    "FileHeader_Allocate m (int n) FileHeader_new = Inr (True, h, m')"
  shows "\<exists>m''. FileHeader_Deallocate m' h = Inr m'' \<and> bm_free m'' = bm_free m - nat ` set (header_sectors h)
     \<and> length (header_sectors h) = (n - 1) div 3584
     \<and> card (bm_free m'') = card (bm_free m) - (n - 1) div 3584"
proof -
  obtain nb ns ds nx nh where new: "FileHeader_new = FH nb ns ds nx nh" by (cases FileHeader_new)
  have a: "allocated m (int n) h m'"
    using Allocate_eq [OF assms(1,2) blank_new [OF new] assms(3), of nb ns nh] assms(4)
    unfolding new by (auto split: if_splits)
  then have "length (data_sectors h) = (n + 127) div 128"
    using length_data_sectors [of h] by (simp add: allocated_def SectorSize_def divRoundUp_nat)
  then have len: "length (header_sectors h) = (n - 1) div 3584"
    using a by (simp add: allocated_def file_sectors_def sectors_needed_eq)
  have sub: "set (header_sectors h) \<subseteq> int ` bm_free m" "distinct (header_sectors h)"
    using a by (auto simp: allocated_def file_sectors_def)
  then have "\<forall>x\<in>set (header_sectors h). 0 \<le> x" by auto
  then have "inj_on nat (set (header_sectors h))" by (meson eq_nat_nat_iff inj_onI)
  then have "card (nat ` set (header_sectors h)) = (n - 1) div 3584"
    using len distinct_card [OF sub(2)] by (simp add: card_image)
  moreover have "nat ` set (header_sectors h) \<subseteq> bm_free m" using sub(1) by auto
  ultimately have "card (bm_free m - nat ` set (header_sectors h)) = card (bm_free m) - (n - 1) div 3584"
    by (simp add: card_Diff_subset)
  with Deallocate_allocated [OF a assms(1)] len show ?thesis by auto
qed

lemma Deallocate_leaks_headers_witness:
  "\<exists>h m' m''. FileHeader_Allocate (clear_map 2) (int 5000) FileHeader_new = Inr (True, h, m')
     \<and> FileHeader_Deallocate m' h = Inr m'' \<and> bm_free m'' = bm_free (clear_map 2) - nat ` set (header_sectors h)
     \<and> length (header_sectors h) = (5000 - 1) div 3584
     \<and> card (bm_free m'') = card (bm_free (clear_map 2)) - (5000 - 1) div 3584"
proof -
  obtain nb ns ds nx nh where new: "FileHeader_new = FH nb ns ds nx nh" by (cases FileHeader_new)
  have ok: "bm_inv (clear_map 2)" "bm_size (clear_map 2) \<le> 2 ^ 31" "int_fits (int 5000)"
    by (simp_all add: clear_map_ok int_fits_def)
  have "sectors_needed 5000 \<le> card (bm_free (clear_map 2))" by (simp add: clear_map_ok sectors_needed_eq)
  then obtain h m' where h: "FileHeader_Allocate (clear_map 2) (int 5000) FileHeader_new = Inr (True, h, m')"
    using Allocate_eq [OF ok(1,2) blank_new [OF new] ok(3), of nb ns nh] unfolding new by auto
  from Deallocate_leaks_headers [OF ok h] h show ?thesis by blast
qed

text \<open>
  C35: a header written to its sectors is fetched back unchanged, chained headers included, and
  no other sector of the disk is touched.
\<close>

theorem header_roundtrip:
  assumes "hdr_ok h" "distinct (s # header_sectors h)"
    "\<forall>i\<in>set (s # header_sectors h). 0 \<le> i \<and> i < int (length d)" "image_ok d"
  shows "\<exists>d'. FileHeader_WriteBack h s d = Inr d' \<and> FileHeader_FetchFrom s d' = Inr h \<and> length d' = length d
     \<and> (\<forall>i. 0 \<le> i \<longrightarrow> i \<notin> set (s # header_sectors h) \<longrightarrow> d' ! nat i = d ! nat i)"
  using WriteBack_eq [OF assms] FetchFrom_on_disk [OF _ assms(1,2)] by blast

definition sample_header :: FileHeader where
  "sample_header = FH 3584 28 (map int [10..<38]) 5 (Ref (FH 100 1 (38 # replicate 27 (- 1)) (- 1) Null))"

lemma sample_header_ok: "hdr_ok sample_header" "header_sectors sample_header = [5]" "hdr_len sample_header = 3684"
  "data_sectors sample_header = map int [10..<39]"
  by (simp_all add: sample_header_def file_consts divRoundUp_def int_fits_def list_all_iff upt_rec)

lemma header_roundtrip_witness:
  "\<exists>d'. FileHeader_WriteBack sample_header 3 (replicate 64 (replicate 128 0)) = Inr d'
     \<and> FileHeader_FetchFrom 3 d' = Inr sample_header \<and> length d' = length (replicate 64 (replicate 128 (0::byte)))
     \<and> (\<forall>i. 0 \<le> i \<longrightarrow> i \<notin> set (3 # header_sectors sample_header) \<longrightarrow>
          d' ! nat i = replicate 64 (replicate 128 0) ! nat i)"
  by (rule header_roundtrip [OF sample_header_ok(1)]) (simp_all add: sample_header_ok image_ok_def SectorSize_def)

text \<open>
  \<^verbatim>\<open>ByteToSector\<close> finds, for every offset inside the file, the sector that holds that byte: the
  sectors of all headers of the chain are numbered in file order. Outside the file it answers -1.
\<close>

theorem ByteToSector_index:
  assumes "hdr_ok h" "int_fits (hdr_len h)"
  shows "FileHeader_ByteToSector h off =
     (if 0 \<le> off \<and> off < hdr_len h then Inr (data_sectors h ! nat (off div SectorSize)) else Inr (- 1))"
  using ByteToSector_eq [OF assms] ByteToSector_out [OF assms] by auto

lemma ByteToSector_index_witness:
  "FileHeader_ByteToSector sample_header 3600 =
     (if 0 \<le> (3600 :: int) \<and> 3600 < hdr_len sample_header
      then Inr (data_sectors sample_header ! nat (3600 div SectorSize)) else Inr (- 1))"
  by (rule ByteToSector_index [OF sample_header_ok(1)]) (simp add: sample_header_ok int_fits_def)

text \<open>
  Asked for a negative number of bytes, \<^verbatim>\<open>Allocate\<close> takes a full header of 3584 bytes, because it
  compares the size with an unsigned constant.
\<close>

theorem Allocate_negative_size:
  assumes "bm_inv m" "28 \<le> card (bm_free m)" "n < 0" "- (2 ^ 31) + MaxFileSize \<le> n"
  shows "\<exists>h m'. FileHeader_Allocate m n FileHeader_new = Inr (True, h, m')
     \<and> FileHeader_FileLength h = Inr MaxFileSize"
  by (rule Allocate_negative [OF assms])

lemma Allocate_negative_size_witness:
  "\<exists>h m'. FileHeader_Allocate (clear_map 1) (- 1) FileHeader_new = Inr (True, h, m')
     \<and> FileHeader_FileLength h = Inr MaxFileSize"
  by (rule Allocate_negative_size) (simp_all add: clear_map_ok file_consts)

end
