(* ===== verification/OpenFiles.thy ===== *)
theory OpenFiles
  imports FileHdr
begin

text \<open>
  \<^verbatim>\<open>filesys/openfile.cc\<close> of the fourth assignment: reading and writing byte ranges of a file
  whose sectors are listed in its header. A request covers whole sectors; \<^verbatim>\<open>WriteAt\<close> first reads
  the sectors it changes only in part. Shown here: \<^verbatim>\<open>ReadAt\<close> returns the requested slice of the
  file's bytes, \<^verbatim>\<open>WriteAt\<close> overwrites exactly the requested range of them and no other sector of
  the disk, and the seek position moves by the number of bytes transferred.
\<close>

subsection \<open>Operations\<close>

record OpenFile =
  hdr :: FileHeader
  seekPosition :: int

definition OpenFile_new :: "int \<Rightarrow> image \<Rightarrow> OpenFile res" where
  "OpenFile_new sector d =
     bindR (FileHeader_FetchFrom sector d) (\<lambda>h. Inr \<lparr>hdr = h, seekPosition = 0\<rparr>)"

definition OpenFile_Length :: "OpenFile \<Rightarrow> int res" where
  "OpenFile_Length f = FileHeader_FileLength (hdr f)"

definition OpenFile_Seek :: "OpenFile \<Rightarrow> int \<Rightarrow> OpenFile" where
  "OpenFile_Seek f position = f\<lparr>seekPosition := position\<rparr>"

text \<open>The loops over the sectors \<open>i, i + 1, \<dots>\<close> of the file.\<close>

fun read_loop :: "FileHeader \<Rightarrow> nat \<Rightarrow> int \<Rightarrow> image \<Rightarrow> byte list res" where
  "read_loop h 0 i d = Inr []"
| "read_loop h (Suc k) i d =
     bindR (FileHeader_ByteToSector h (i * SectorSize)) (\<lambda>sector.
     bindR (image_read sector d) (\<lambda>b.
     bindR (read_loop h k (i + 1) d) (\<lambda>bs. Inr (b @ bs))))"

fun write_loop :: "FileHeader \<Rightarrow> nat \<Rightarrow> int \<Rightarrow> byte list \<Rightarrow> image \<Rightarrow> image res" where
  "write_loop h 0 i buf d = Inr d"
| "write_loop h (Suc k) i buf d =
     bindR (FileHeader_ByteToSector h (i * SectorSize)) (\<lambda>sector.
     bindR (image_write sector (take (nat SectorSize) buf) d) (\<lambda>d.
     write_loop h k (i + 1) (drop (nat SectorSize) buf) d))"

text \<open>The bytes copied into the caller's buffer; the code returns how many they are.\<close>

definition OpenFile_ReadAt :: "OpenFile \<Rightarrow> int \<Rightarrow> int \<Rightarrow> image \<Rightarrow> byte list res" where
  "OpenFile_ReadAt f numBytes position d =
     bindR (OpenFile_Length f) (\<lambda>fileLength.
       if numBytes \<le> 0 \<or> position \<ge> fileLength then Inr []
       else bindR (addR position numBytes) (\<lambda>end.
         let numBytes = (if end > fileLength then fileLength - position else numBytes);
             firstSector = divRoundDown position SectorSize;
             lastSector = divRoundDown (position + numBytes - 1) SectorSize;
             numSectors = 1 + lastSector - firstSector
         in bindR (read_loop (hdr f) (nat numSectors) firstSector d) (\<lambda>buf.
              inboundsR (position - firstSector * SectorSize) (int (length buf))
                (Inr (take (nat numBytes) (drop (nat (position - firstSector * SectorSize)) buf))))))"

definition OpenFile_WriteAt :: "OpenFile \<Rightarrow> byte list \<Rightarrow> int \<Rightarrow> int \<Rightarrow> image \<Rightarrow> (int \<times> image) res" where
  "OpenFile_WriteAt f data numBytes position d =
     bindR (OpenFile_Length f) (\<lambda>fileLength.
       if numBytes \<le> 0 \<or> position \<ge> fileLength then Inr (0, d)
       else bindR (addR position numBytes) (\<lambda>end.
         let numBytes = (if end > fileLength then fileLength - position else numBytes);
             firstSector = divRoundDown position SectorSize;
             lastSector = divRoundDown (position + numBytes - 1) SectorSize;
             numSectors = 1 + lastSector - firstSector;
             buf = replicate (nat (numSectors * SectorSize)) 0;
             firstAligned = (position = firstSector * SectorSize);
             lastAligned = (position + numBytes = (lastSector + 1) * SectorSize)
         in bindR (if \<not> firstAligned
                   then bindR (OpenFile_ReadAt f SectorSize (firstSector * SectorSize) d) (\<lambda>bs.
                          Inr (overwrite 0 bs buf))
                   else Inr buf) (\<lambda>buf.
            bindR (if \<not> lastAligned \<and> (firstSector \<noteq> lastSector \<or> firstAligned)
                   then bindR (OpenFile_ReadAt f SectorSize (lastSector * SectorSize) d) (\<lambda>bs.
                          Inr (overwrite (nat ((lastSector - firstSector) * SectorSize)) bs buf))
                   else Inr buf) (\<lambda>buf.
            if numBytes > int (length data) then Inl OutOfBounds
            else inboundsR (position - firstSector * SectorSize) (int (length buf))
              (let buf = overwrite (nat (position - firstSector * SectorSize)) (take (nat numBytes) data) buf
               in bindR (write_loop (hdr f) (nat numSectors) firstSector buf d) (\<lambda>d.
                    Inr (numBytes, d)))))))"

definition OpenFile_Read :: "OpenFile \<Rightarrow> int \<Rightarrow> image \<Rightarrow> (byte list \<times> OpenFile) res" where
  "OpenFile_Read f numBytes d =
     bindR (OpenFile_ReadAt f numBytes (seekPosition f) d) (\<lambda>bs.
       Inr (bs, f\<lparr>seekPosition := seekPosition f + int (length bs)\<rparr>))"

definition OpenFile_Write :: "OpenFile \<Rightarrow> byte list \<Rightarrow> int \<Rightarrow> image \<Rightarrow> (int \<times> OpenFile \<times> image) res" where
  "OpenFile_Write f data numBytes d =
     bindR (OpenFile_WriteAt f data numBytes (seekPosition f) d) (\<lambda>(result, d).
       Inr (result, f\<lparr>seekPosition := seekPosition f + result\<rparr>, d))"

subsection \<open>The bytes of a file\<close>

definition file_raw :: "FileHeader \<Rightarrow> image \<Rightarrow> byte list" where
  "file_raw h d = concat (map (\<lambda>s. d ! nat s) (data_sectors h))"

definition file_bytes :: "FileHeader \<Rightarrow> image \<Rightarrow> byte list" where
  "file_bytes h d = take (nat (hdr_len h)) (file_raw h d)"

definition file_ok :: "FileHeader \<Rightarrow> image \<Rightarrow> bool" where
  "file_ok h d \<longleftrightarrow> hdr_ok h \<and> int_fits (hdr_len h + SectorSize) \<and> image_ok d \<and> distinct (data_sectors h)
     \<and> (\<forall>s\<in>set (data_sectors h). 0 \<le> s \<and> s < int (length d))"

text \<open>
  The length leaves room for one more sector below \<open>2\<^sup>3\<^sup>1\<close>: \<^verbatim>\<open>WriteAt\<close> asks \<^verbatim>\<open>ReadAt\<close> for a whole
  sector at the end of the file.
\<close>

lemma file_ok_fits: "file_ok h d \<Longrightarrow> int_fits (hdr_len h)"
  using hdr_len_nonneg [of h] by (auto simp: file_ok_def int_fits_def SectorSize_def)

text \<open>Lists of sectors, all of the same size.\<close>

lemma length_concat_uniform:
  "\<forall>b\<in>set bs. length b = w \<Longrightarrow> length (concat bs) = w * length bs"
  by (induction bs) auto

lemma drop_concat_uniform:
  "\<forall>b\<in>set bs. length b = w \<Longrightarrow> drop (w * i) (concat bs) = concat (drop i bs)"
proof (induction bs arbitrary: i)
  case (Cons b bs)
  then show ?case by (cases i) auto
qed simp

lemma take_concat_uniform:
  "\<forall>b\<in>set bs. length b = w \<Longrightarrow> take (w * k) (concat bs) = concat (take k bs)"
proof (induction bs arbitrary: k)
  case (Cons b bs)
  then show ?case by (cases k) auto
qed simp

lemma concat_update_uniform:
  "\<forall>b\<in>set bs. length b = w \<Longrightarrow> i < length bs \<Longrightarrow> length c = w \<Longrightarrow>
   concat (bs[i := c]) = overwrite (w * i) c (concat bs)"
proof (induction bs arbitrary: i)
  case (Cons b bs)
  then show ?case by (cases i) (auto simp: overwrite_def ac_simps)
qed simp

lemma overwrite_append:
  "pos + length a + length b \<le> length xs \<Longrightarrow>
   overwrite (pos + length a) b (overwrite pos a xs) = overwrite pos (a @ b) xs"
  by (simp add: overwrite_def ac_simps)

lemma image_sector: "image_ok d \<Longrightarrow> 0 \<le> s \<Longrightarrow> s < int (length d) \<Longrightarrow> length (d ! nat s) = 128"
proof -
  assume "image_ok d" "0 \<le> s" "s < int (length d)"
  then have "int (length (d ! nat s)) = 128" by (simp add: image_ok_def SectorSize_def)
  then show ?thesis by linarith
qed

lemma file_sector_lengths: "file_ok h d \<Longrightarrow> \<forall>b\<in>set (map (\<lambda>s. d ! nat s) (data_sectors h)). length b = 128"
  using image_sector by (auto simp: file_ok_def)

lemma length_file_raw: "file_ok h d \<Longrightarrow> length (file_raw h d) = 128 * length (data_sectors h)"
  using length_concat_uniform [OF file_sector_lengths, of h d] by (simp add: file_raw_def)

lemma file_raw_long: "file_ok h d \<Longrightarrow> nat (hdr_len h) \<le> length (file_raw h d)"
proof -
  assume ok: "file_ok h d"
  then have "int (length (data_sectors h)) = divRoundUp (hdr_len h) 128" "0 \<le> hdr_len h"
    using length_data_sectors [of h] hdr_len_nonneg [of h] by (auto simp: file_ok_def SectorSize_def)
  then have "hdr_len h \<le> 128 * int (length (data_sectors h))"
    using divRoundUp_bounds(1) [of "hdr_len h" 128] by simp
  then show ?thesis unfolding length_file_raw [OF ok] by linarith
qed

lemma length_file_bytes: "file_ok h d \<Longrightarrow> length (file_bytes h d) = nat (hdr_len h)"
  using file_raw_long by (simp add: file_bytes_def)

subsection \<open>The loops\<close>

lemma ByteToSector_nth:
  assumes "file_ok h d" "128 * int i < hdr_len h"
  shows "FileHeader_ByteToSector h (int i * SectorSize) = Inr (data_sectors h ! i)
     \<and> i < length (data_sectors h)"
  using ByteToSector_eq [of h "int i * 128"] assms file_ok_fits [OF assms(1)]
  by (simp add: file_ok_def SectorSize_def mult.commute)

lemma read_loop_eq:
  assumes "file_ok h d" "k = 0 \<or> 128 * (int i + int k - 1) < hdr_len h"
  shows "read_loop h k (int i) d = Inr (take (128 * k) (drop (128 * i) (file_raw h d)))"
  using assms(2)
proof (induction k arbitrary: i)
  case 0
  then show ?case by simp
next
  case (Suc k)
  have i: "128 * int i < hdr_len h" using Suc.prems by auto
  note b = ByteToSector_nth [OF assms(1) i]
  let ?s = "data_sectors h ! i"
  have s: "0 \<le> ?s" "?s < int (length d)" using assms(1) b by (auto simp: file_ok_def)
  have ih: "read_loop h k (int i + 1) d = Inr (take (128 * k) (drop (128 * Suc i) (file_raw h d)))"
    using Suc.IH [of "Suc i"] Suc.prems by (auto simp: add.commute)
  note u = file_sector_lengths [OF assms(1)]
  have "drop (128 * i) (file_raw h d) = (d ! nat ?s) @ drop (128 * Suc i) (file_raw h d)"
    using drop_concat_uniform [OF u, of i] drop_concat_uniform [OF u, of "Suc i"] b
    by (simp add: file_raw_def drop_map Cons_nth_drop_Suc [symmetric])
  then show ?case
    using b ih s image_sector [of d ?s] assms(1)
    by (simp add: image_read_def file_ok_def)
qed

lemma write_loop_eq:
  assumes "file_ok h d" "k = 0 \<or> 128 * (int i + int k - 1) < hdr_len h" "length buf = 128 * k"
  shows "\<exists>d'. write_loop h k (int i) buf d = Inr d' \<and> file_ok h d' \<and> length d' = length d
     \<and> file_raw h d' = overwrite (128 * i) buf (file_raw h d)
     \<and> (\<forall>j. 0 \<le> j \<and> j \<notin> set (data_sectors h) \<longrightarrow> d' ! nat j = d ! nat j)"
  using assms
proof (induction k arbitrary: i buf d)
  case 0
  then show ?case by (auto simp: overwrite_def)
next
  case (Suc k)
  have i: "128 * int i < hdr_len h" using Suc.prems by auto
  note b = ByteToSector_nth [OF Suc.prems(1) i]
  let ?s = "data_sectors h ! i" and ?b = "take 128 buf"
  have s: "0 \<le> ?s" "?s < int (length d)" using Suc.prems(1) b by (auto simp: file_ok_def)
  have blen: "length ?b = 128" using Suc.prems(3) by simp
  let ?d = "d[nat ?s := ?b]"
  have ok: "file_ok h ?d"
    using Suc.prems(1) blen unfolding file_ok_def image_ok_def SectorSize_def
    by (auto dest!: set_update_subset_insert [THEN subsetD])
  have "map (\<lambda>s. ?d ! nat s) (data_sectors h) = (map (\<lambda>s. d ! nat s) (data_sectors h))[i := ?b]"
  proof (rule nth_equalityI)
    fix j assume j: "j < length (map (\<lambda>s. ?d ! nat s) (data_sectors h))"
    then have "0 \<le> data_sectors h ! j" using Suc.prems(1) by (auto simp: file_ok_def)
    moreover have "distinct (data_sectors h)" using Suc.prems(1) by (simp add: file_ok_def)
    ultimately have "nat (data_sectors h ! j) = nat ?s \<longleftrightarrow> j = i"
      using j b s(1) by (auto simp: nat_eq_iff distinct_conv_nth)
    then show "map (\<lambda>s. ?d ! nat s) (data_sectors h) ! j = (map (\<lambda>s. d ! nat s) (data_sectors h))[i := ?b] ! j"
      using j s b by (auto simp: nth_list_update)
  qed simp
  then have raw: "file_raw h ?d = overwrite (128 * i) ?b (file_raw h d)"
    using concat_update_uniform [OF file_sector_lengths [OF Suc.prems(1)], of i ?b] b blen
    by (simp add: file_raw_def)
  have "length (drop 128 buf) = 128 * k" using Suc.prems(3) by simp
  from Suc.IH [OF ok _ this, of "Suc i"] Suc.prems(2) obtain d' where
    d': "write_loop h k (int i + 1) (drop 128 buf) ?d = Inr d'" "file_ok h d'" "length d' = length d"
      "file_raw h d' = overwrite (128 * Suc i) (drop 128 buf) (file_raw h ?d)"
      "\<forall>j. 0 \<le> j \<and> j \<notin> set (data_sectors h) \<longrightarrow> d' ! nat j = ?d ! nat j"
    by (auto simp: add.commute)
  have "k = 0 \<or> i + k < length (data_sectors h)"
    using ByteToSector_nth [OF Suc.prems(1), of "i + k"] Suc.prems(2) by auto
  then have len: "128 * i + length ?b + length (drop 128 buf) \<le> length (file_raw h d)"
    using b Suc.prems(3) unfolding length_file_raw [OF Suc.prems(1)] by auto
  have "file_raw h d' = overwrite (128 * i) buf (file_raw h d)"
    using overwrite_append [OF len] blen unfolding d'(4) raw by (simp add: add.commute)
  moreover have "d' ! nat j = d ! nat j" if "0 \<le> j" "j \<notin> set (data_sectors h)" for j
  proof -
    have "nat ?s \<noteq> nat j" using that s(1) b by (auto simp: nat_eq_iff)
    then show ?thesis using d'(5) that by simp
  qed
  ultimately show ?case
    using b s d'(1-3) by (auto simp: image_write_def SectorSize_def)
qed


subsection \<open>ReadAt\<close>

lemma slice_of_sectors:
  "pos div 128 = (i::nat) \<Longrightarrow> pos + n \<le> 128 * (i + k) \<Longrightarrow>
   take n (drop (pos - 128 * i) (take (128 * k) (drop (128 * i) xs))) = take n (drop pos xs)"
proof -
  assume *: "pos div 128 = i" "pos + n \<le> 128 * (i + k)"
  have le: "128 * i \<le> pos" using *(1) by auto
  have "n \<le> 128 * k - (pos - 128 * i)" using * le by (simp add: algebra_simps)
  moreover have "pos - 128 * i + 128 * i = pos" using le by simp
  ultimately show ?thesis by (simp add: drop_take min_def)
qed

lemma take_slice: "pos + n \<le> len \<Longrightarrow> take n (drop pos (take len xs)) = take n (drop pos xs)"
  by (simp add: drop_take min_def)

lemma Length_ok: "file_ok (hdr f) d \<Longrightarrow> OpenFile_Length f = Inr (hdr_len (hdr f))"
  using file_ok_fits [of "hdr f" d] by (simp add: OpenFile_Length_def file_ok_def FileLength_eq)

text \<open>The arithmetic shared by the two routines: the sectors a request touches.\<close>

lemma request_sectors:
  assumes "0 \<le> pos" "0 < n" "pos + n \<le> len"
  shows "divRoundDown pos SectorSize = int (nat pos div 128)"
    "divRoundDown (pos + n - 1) SectorSize = int (nat (pos + n - 1) div 128)"
    "nat pos div 128 \<le> nat (pos + n - 1) div 128"
    "128 * int (nat (pos + n - 1) div 128) < len"
    "nat pos + nat n \<le> 128 * (nat (pos + n - 1) div 128 + 1)"
    "128 * (nat (pos + n - 1) div 128) < nat pos + nat n"
proof -
  show "divRoundDown pos SectorSize = int (nat pos div 128)"
    "divRoundDown (pos + n - 1) SectorSize = int (nat (pos + n - 1) div 128)"
    using assms by (simp_all add: divRoundDown_def SectorSize_def)
  show "nat pos div 128 \<le> nat (pos + n - 1) div 128"
    by (rule div_le_mono) (use assms in simp)
  obtain q where q: "q = nat (pos + n - 1) div 128" by simp
  have "128 * q \<le> nat (pos + n - 1)" "nat (pos + n - 1) < 128 * (q + 1)"
    unfolding q using dividend_less_times_div [of 128 "nat (pos + n - 1)"] by simp_all
  then show "128 * int (nat (pos + n - 1) div 128) < len"
    "nat pos + nat n \<le> 128 * (nat (pos + n - 1) div 128 + 1)"
    "128 * (nat (pos + n - 1) div 128) < nat pos + nat n"
    unfolding q [symmetric] using assms by linarith+
qed

lemma ReadAt_inside:
  assumes "file_ok (hdr f) d" "0 \<le> pos" "0 < n" "pos + n \<le> hdr_len (hdr f)"
  shows "OpenFile_ReadAt f n pos d = Inr (take (nat n) (drop (nat pos) (file_bytes (hdr f) d)))"
proof -
  let ?h = "hdr f" and ?len = "hdr_len (hdr f)"
  obtain i where i: "i = nat pos div 128" by simp
  obtain k where k: "nat (pos + n - 1) div 128 = i + k"
    using request_sectors(3) [OF assms(2-4)] i by (metis le_Suc_ex)
  note r = request_sectors [OF assms(2-4), folded i, unfolded k]
  have add: "addR pos n = Inr (pos + n)"
    using assms file_ok_fits [OF assms(1)] by (auto simp: addR_def int_fits_def)
  have loop: "read_loop ?h (Suc k) (int i) d = Inr (take (128 * Suc k) (drop (128 * i) (file_raw ?h d)))"
    by (rule read_loop_eq [OF assms(1)]) (use r(4) in simp)
  have ns: "nat (1 + int (i + k) - int i) = Suc k" by simp
  have first: "128 * i \<le> nat pos" unfolding i by simp
  have off: "nat (pos - int i * 128) = nat pos - 128 * i" "0 \<le> pos - int i * 128"
    using first assms(2) by linarith+
  have buf: "pos - int i * 128 < int (length (take (128 * Suc k) (drop (128 * i) (file_raw ?h d))))"
  proof -
    have "nat pos < 128 * (i + k + 1)" using r(5) assms(3) by linarith
    moreover have "nat pos < length (file_raw ?h d)" using file_raw_long [OF assms(1)] assms by linarith
    ultimately have "nat pos - 128 * i < length (take (128 * Suc k) (drop (128 * i) (file_raw ?h d)))"
      using first by (simp add: less_diff_conv2 diff_less_mono)
    then show ?thesis using off by linarith
  qed
  have "take (nat n) (drop (nat pos - 128 * i) (take (128 * Suc k) (drop (128 * i) (file_raw ?h d))))
      = take (nat n) (drop (nat pos) (file_raw ?h d))"
    by (rule slice_of_sectors) (use i r(5) in auto)
  also have "\<dots> = take (nat n) (drop (nat pos) (file_bytes ?h d))"
    unfolding file_bytes_def by (rule take_slice [symmetric]) (use assms in linarith)
  finally have slice: "take (nat n) (drop (nat pos - 128 * i) (take (128 * Suc k) (drop (128 * i) (file_raw ?h d))))
      = take (nat n) (drop (nat pos) (file_bytes ?h d))" .
  show ?thesis
    using assms(3,4) add ns off buf slice
    unfolding OpenFile_ReadAt_def Length_ok [OF assms(1)] bindR_simps r(1,2) Let_def
    by (simp add: SectorSize_def r(1,2) [unfolded SectorSize_def] loop del: read_loop.simps take_all_iff)
qed


text \<open>Any request: nothing for an empty one or one behind the end, cut off at the end otherwise.\<close>

lemma ReadAt_eq:
  assumes "file_ok (hdr f) d" "0 \<le> pos" "int_fits (pos + n)"
  shows "OpenFile_ReadAt f n pos d = Inr (take (nat n) (drop (nat pos) (file_bytes (hdr f) d)))"
proof (cases "n \<le> 0 \<or> hdr_len (hdr f) \<le> pos")
  case True
  then have "take (nat n) (drop (nat pos) (file_bytes (hdr f) d)) = []"
    using length_file_bytes [OF assms(1)] by auto
  with True show ?thesis by (simp add: OpenFile_ReadAt_def Length_ok [OF assms(1)])
next
  case False
  let ?len = "hdr_len (hdr f)"
  show ?thesis
  proof (cases "pos + n \<le> ?len")
    case True
    with False assms show ?thesis by (intro ReadAt_inside) auto
  next
    case beyond: False
    have fits: "int_fits (pos + (?len - pos))" using file_ok_fits [OF assms(1)] by simp
    have "OpenFile_ReadAt f n pos d = OpenFile_ReadAt f (?len - pos) pos d"
      using False beyond assms(3) fits
      by (simp add: OpenFile_ReadAt_def Length_ok [OF assms(1)])
    also have "\<dots> = Inr (take (nat (?len - pos)) (drop (nat pos) (file_bytes (hdr f) d)))"
      by (rule ReadAt_inside) (use False assms in auto)
    also have "take (nat (?len - pos)) (drop (nat pos) (file_bytes (hdr f) d))
        = take (nat n) (drop (nat pos) (file_bytes (hdr f) d))"
      using False beyond assms(2) length_file_bytes [OF assms(1)] by simp
    finally show ?thesis .
  qed
qed

lemma ReadAt_overflow:
  "file_ok (hdr f) d \<Longrightarrow> 0 < n \<Longrightarrow> pos < hdr_len (hdr f) \<Longrightarrow> \<not> int_fits (pos + n) \<Longrightarrow>
   OpenFile_ReadAt f n pos d = Inl SignedOverflow"
  by (simp add: OpenFile_ReadAt_def Length_ok addR_def)

lemma Read_eq:
  assumes "file_ok (hdr f) d" "0 \<le> seekPosition f" "int_fits (seekPosition f + n)"
  shows "\<exists>bs. OpenFile_Read f n d = Inr (bs, f\<lparr>seekPosition := seekPosition f + int (length bs)\<rparr>)
     \<and> bs = take (nat n) (drop (nat (seekPosition f)) (file_bytes (hdr f) d))"
  by (simp add: OpenFile_Read_def ReadAt_eq [OF assms])

subsection \<open>WriteAt\<close>

text \<open>
  The buffer just before it is written: outside the requested range it holds what the file
  holds there.
\<close>

lemma nth_take_drop: "i < n \<Longrightarrow> n \<le> length xs - p \<Longrightarrow> take n (drop p xs) ! i = xs ! (p + i)"
  by (cases "p \<le> length xs") auto

lemma overwrite_keeps:
  assumes "p + length a \<le> length b" "x < length b"
  shows "overwrite p a b ! x = (if p \<le> x \<and> x < p + length a then a ! (x - p) else b ! x)"
  by (rule nth_overwrite [OF assms])

lemma length_overwrite_le: "p + length a \<le> n \<Longrightarrow> length b = n \<Longrightarrow> length (overwrite p a b) = n"
  by simp

text \<open>Overwriting sectors with a prepared buffer changes the file's bytes in the range only.\<close>

lemma overwrite_sectors:
  assumes "length buf = 128 * k" "128 * i + 128 * k \<le> length raw" "p + n \<le> len" "len \<le> length raw"
    "128 * i \<le> p" "p + n \<le> 128 * i + 128 * k" "length data = n"
    and inside: "\<And>x. x < n \<Longrightarrow> buf ! (p - 128 * i + x) = data ! x"
    and outside: "\<And>x. 128 * i \<le> x \<Longrightarrow> x < 128 * i + 128 * k \<Longrightarrow> x < len \<Longrightarrow> x < p \<or> p + n \<le> x \<Longrightarrow>
       buf ! (x - 128 * i) = raw ! x"
  shows "take len (overwrite (128 * i) buf raw) = overwrite p data (take len raw)"
proof (rule nth_equalityI)
  show len: "length (take len (overwrite (128 * i) buf raw)) = length (overwrite p data (take len raw))"
    using assms by simp
  fix x assume "x < length (take len (overwrite (128 * i) buf raw))"
  then have x: "x < len" "x < length raw" using assms by auto
  have l: "take len (overwrite (128 * i) buf raw) ! x =
      (if 128 * i \<le> x \<and> x < 128 * i + 128 * k then buf ! (x - 128 * i) else raw ! x)"
    using x assms(1,2) by (simp add: nth_overwrite)
  have r: "overwrite p data (take len raw) ! x = (if p \<le> x \<and> x < p + n then data ! (x - p) else raw ! x)"
    using x assms(3,4,7) by (subst nth_overwrite) auto
  show "take len (overwrite (128 * i) buf raw) ! x = overwrite p data (take len raw) ! x"
  proof (cases "p \<le> x \<and> x < p + n")
    case True
    then have "x - p < n" by linarith
    from inside [OF this] True have "buf ! (x - 128 * i) = data ! (x - p)" using assms(5) by simp
    then show ?thesis unfolding l r using True assms(5,6) by auto
  next
    case False
    then show ?thesis unfolding l r using outside [of x] x(1) by auto
  qed
qed


text \<open>The two reads that fill the buffer where the request covers a sector only in part.\<close>

definition fill :: "bool \<Rightarrow> bool \<Rightarrow> nat \<Rightarrow> byte list \<Rightarrow> nat \<Rightarrow> byte list" where
  "fill fa la k file i =
     (let buf = replicate (128 * Suc k) 0;
          buf = (if \<not> fa then overwrite 0 (take 128 (drop (128 * i) file)) buf else buf)
      in if \<not> la \<and> (k \<noteq> 0 \<or> fa) then overwrite (128 * k) (take 128 (drop (128 * (i + k)) file)) buf else buf)"

lemma length_fill: "length (fill fa la k file i) = 128 * Suc k"
  by (auto simp: fill_def Let_def)

lemma fill_first:
  assumes "\<not> fa" "x < 128" "128 * i + x < length file"
  shows "fill fa la k file i ! x = file ! (128 * i + x)"
proof -
  let ?a = "take 128 (drop (128 * i) file)" and ?b = "take 128 (drop (128 * (i + k)) file)"
  have a: "x < length ?a" using assms by simp
  have one: "overwrite 0 ?a (replicate (128 * Suc k) 0) ! x = file ! (128 * i + x)"
    using a assms by (subst nth_overwrite) auto
  show ?thesis
  proof (cases "\<not> la \<and> k \<noteq> 0")
    case True
    then have "overwrite (128 * k) ?b (overwrite 0 ?a (replicate (128 * Suc k) 0)) ! x
        = overwrite 0 ?a (replicate (128 * Suc k) 0) ! x"
      using assms(2) by (subst nth_overwrite) auto
    with one True assms(1) show ?thesis by (simp add: fill_def Let_def)
  qed (use one assms(1) in \<open>auto simp: fill_def Let_def\<close>)
qed

lemma fill_last:
  assumes "\<not> la" "k \<noteq> 0 \<or> fa" "x < 128" "128 * (i + k) + x < length file"
  shows "fill fa la k file i ! (128 * k + x) = file ! (128 * (i + k) + x)"
proof -
  let ?b = "take 128 (drop (128 * (i + k)) file)"
  have b: "x < length ?b" using assms by simp
  have "overwrite (128 * k) ?b buf ! (128 * k + x) = file ! (128 * (i + k) + x)"
    if "length buf = 128 * Suc k" for buf
    using that b assms by (subst nth_overwrite) auto
  then show ?thesis using assms(1,2) by (auto simp: fill_def Let_def)
qed

lemma fill_outside:
  assumes "fa \<longleftrightarrow> p = 128 * i" "la \<longleftrightarrow> p + n = 128 * (i + k + 1)"
    "128 * i \<le> p" "p < 128 * (i + 1)" "128 * (i + k) < p + n"
    "128 * i \<le> x" "x < 128 * (i + k + 1)" "x < length file" "x < p \<or> p + n \<le> x"
  shows "fill fa la k file i ! (x - 128 * i) = file ! x"
proof (cases "x < p")
  case True
  then have "\<not> fa" "x - 128 * i < 128" "128 * i + (x - 128 * i) < length file"
    using assms by auto
  from fill_first [OF this] assms(6) show ?thesis by simp
next
  case False
  then have x: "p + n \<le> x" using assms(9) by simp
  then have la: "\<not> la" using assms by auto
  have last: "128 * (i + k) \<le> x" using x assms(5) by linarith
  show ?thesis
  proof (cases "k \<noteq> 0 \<or> fa")
    case True
    have "x - 128 * (i + k) < 128" "128 * (i + k) + (x - 128 * (i + k)) < length file"
      using last assms(7,8) by auto
    from fill_last [OF la True this] last show ?thesis
      by (simp add: algebra_simps)
  next
    case False
    then have "\<not> fa" "x - 128 * i < 128" "128 * i + (x - 128 * i) < length file" using assms by auto
    from fill_first [OF this] assms(6) show ?thesis by simp
  qed
qed


text \<open>What a write does: \<open>written h d p data d'\<close>.\<close>

definition written :: "FileHeader \<Rightarrow> image \<Rightarrow> nat \<Rightarrow> byte list \<Rightarrow> image \<Rightarrow> bool" where
  "written h d p bs d' \<longleftrightarrow> file_ok h d' \<and> length d' = length d
     \<and> file_bytes h d' = overwrite p bs (file_bytes h d)
     \<and> (\<forall>j. 0 \<le> j \<and> j \<notin> set (data_sectors h) \<longrightarrow> d' ! nat j = d ! nat j)"

lemma whole_sector:
  assumes "file_ok (hdr f) d" "128 * int i < hdr_len (hdr f)"
  shows "OpenFile_ReadAt f SectorSize (int i * SectorSize) d
     = Inr (take 128 (drop (128 * i) (file_bytes (hdr f) d)))"
proof -
  have "int_fits (int i * SectorSize + SectorSize)"
    using assms by (auto simp: file_ok_def int_fits_def SectorSize_def)
  from ReadAt_eq [OF assms(1) _ this] show ?thesis
    by (simp add: SectorSize_def nat_mult_distrib mult.commute)
qed

lemma WriteAt_inside:
  assumes "file_ok (hdr f) d" "0 \<le> pos" "0 < n" "pos + n \<le> hdr_len (hdr f)" "n \<le> int (length data)"
  shows "\<exists>d'. OpenFile_WriteAt f data n pos d = Inr (n, d')
     \<and> written (hdr f) d (nat pos) (take (nat n) data) d'"
proof -
  let ?h = "hdr f" and ?len = "hdr_len (hdr f)" and ?F = "file_bytes (hdr f) d"
  obtain i where i: "i = nat pos div 128" by simp
  obtain k where k: "nat (pos + n - 1) div 128 = i + k"
    using request_sectors(3) [OF assms(2-4)] i by (metis le_Suc_ex)
  note r = request_sectors [OF assms(2-4), folded i, unfolded k]
  obtain P N where PN: "pos = int P" "n = int N" "0 < N"
    using assms(2,3) by (metis nonneg_int_cases order_less_imp_le of_nat_0_less_iff)
  have iP: "128 * i \<le> P" "P < 128 * (i + 1)" unfolding i PN(1)
    using dividend_less_times_div [of 128 P] by simp_all
  have ikP: "P + N \<le> 128 * (i + k + 1)" "128 * (i + k) < P + N"
    using r(5,6) PN by simp_all
  have add: "addR pos n = Inr (pos + n)"
    using assms file_ok_fits [OF assms(1)] by (auto simp: addR_def int_fits_def)
  define fa where "fa \<longleftrightarrow> pos = int i * SectorSize"
  define la where "la \<longleftrightarrow> pos + n = (int (i + k) + 1) * SectorSize"
  have fa: "fa \<longleftrightarrow> P = 128 * i" unfolding fa_def PN SectorSize_def by linarith
  have la: "la \<longleftrightarrow> P + N = 128 * (i + k + 1)" 
  proof -
    have "int P + int N = (int (i + k) + 1) * 128 \<longleftrightarrow> int (P + N) = int (128 * (i + k + 1))" by auto
    then show ?thesis unfolding la_def PN SectorSize_def of_nat_eq_iff .
  qed
  have read1: "OpenFile_ReadAt f SectorSize (int i * SectorSize) d = Inr (take 128 (drop (128 * i) ?F))"
    by (rule whole_sector [OF assms(1)]) (use r(4) in simp)
  have read2: "OpenFile_ReadAt f SectorSize (int (i + k) * SectorSize) d = Inr (take 128 (drop (128 * (i + k)) ?F))"
    by (rule whole_sector [OF assms(1) r(4)])
  define B where "B = overwrite (P - 128 * i) (take N data) (fill fa la k ?F i)"
  have lenB: "length B = 128 * Suc k"
    unfolding B_def using iP ikP assms(5) PN by (intro length_overwrite_le length_fill) auto
  have loop: "k = 0 \<or> 128 * (int i + int k - 1) < ?len" "128 * (int i + int (Suc k) - 1) < ?len"
    using r(4) by auto
  from write_loop_eq [OF assms(1) disjI2 [OF loop(2)] lenB] obtain d' where
    d': "write_loop ?h (Suc k) (int i) B d = Inr d'" "file_ok ?h d'" "length d' = length d"
      "file_raw ?h d' = overwrite (128 * i) B (file_raw ?h d)"
      "\<forall>j. 0 \<le> j \<and> j \<notin> set (data_sectors ?h) \<longrightarrow> d' ! nat j = d ! nat j" by blast
  have F: "?F = take (nat ?len) (file_raw ?h d)" by (simp add: file_bytes_def)
  have "i + k < length (data_sectors ?h)"
    using ByteToSector_nth [OF assms(1) r(4)] by simp
  then have "128 * Suc (i + k) \<le> 128 * length (data_sectors ?h)" by (intro mult_le_mono2 Suc_leI)
  then have rawlen: "128 * i + 128 * Suc k \<le> length (file_raw ?h d)"
    unfolding length_file_raw [OF assms(1)] by simp
  have lenF: "length ?F = nat ?len" by (rule length_file_bytes [OF assms(1)])
  have PNlen: "P + N \<le> nat ?len" using assms(4) PN by linarith
  have "take (nat ?len) (overwrite (128 * i) B (file_raw ?h d))
      = overwrite P (take N data) (take (nat ?len) (file_raw ?h d))"
  proof (rule overwrite_sectors [OF lenB rawlen PNlen file_raw_long [OF assms(1)] iP(1)])
    show "P + N \<le> 128 * i + 128 * Suc k" using ikP by simp
    show lenN: "length (take N data) = N" using assms(5) PN by simp
    show "B ! (P - 128 * i + x) = take N data ! x" if "x < N" for x
      unfolding B_def using that lenN ikP iP
      by (subst overwrite_keeps) (auto simp: length_fill)
    fix x assume x: "128 * i \<le> x" "x < 128 * i + 128 * Suc k" "x < nat ?len" "x < P \<or> P + N \<le> x"
    have "B ! (x - 128 * i) = fill fa la k ?F i ! (x - 128 * i)"
      unfolding B_def using x lenN ikP iP by (subst overwrite_keeps) (auto simp: length_fill)
    also have "\<dots> = ?F ! x"
      by (rule fill_outside [OF fa la iP ikP(2) x(1) _ _ x(4)]) (use x lenF in auto)
    also have "\<dots> = file_raw ?h d ! x" unfolding F using x(3) by simp
    finally show "B ! (x - 128 * i) = file_raw ?h d ! x" .
  qed
  then have "written ?h d P (take N data) d'"
    using d' F by (simp add: written_def file_bytes_def)
  moreover have "OpenFile_WriteAt f data n pos d = Inr (n, d')"
  proof -
    have ns: "nat (1 + int (i + k) - int i) = Suc k" "nat ((1 + int (i + k) - int i) * SectorSize) = 128 * Suc k"
      "nat ((int (i + k) - int i) * SectorSize) = 128 * k" by (simp_all add: SectorSize_def)
    have ne: "int i \<noteq> int (i + k) \<longleftrightarrow> k \<noteq> 0" by simp
    have off: "nat (pos - int i * SectorSize) = P - 128 * i" "0 \<le> pos - int i * SectorSize"
      "pos - int i * SectorSize < int (length (fill fa la k ?F i))"
    proof -
      have "pos - int i * SectorSize = int (P - 128 * i)" using iP(1) by (simp add: PN SectorSize_def)
      moreover have "P - 128 * i < 128 * Suc k" using iP by auto
      ultimately show "nat (pos - int i * SectorSize) = P - 128 * i" "0 \<le> pos - int i * SectorSize"
        "pos - int i * SectorSize < int (length (fill fa la k ?F i))"
        unfolding length_fill by simp_all
    qed
    have "OpenFile_WriteAt f data n pos d =
       bindR (Inr (fill fa la k ?F i)) (\<lambda>buf.
          if n > int (length data) then Inl OutOfBounds
          else inboundsR (pos - int i * SectorSize) (int (length buf))
            (let buf = overwrite (nat (pos - int i * SectorSize)) (take (nat n) data) buf
             in bindR (write_loop ?h (Suc k) (int i) buf d) (\<lambda>d. Inr (n, d))))"
      using assms(3,4) add
      unfolding OpenFile_WriteAt_def Length_ok [OF assms(1)] bindR_simps
      by (simp add: Let_def r(1,2) read1 read2 ns ne fa_def [symmetric] la_def [symmetric] fill_def
          del: of_nat_add write_loop.simps)
    then show ?thesis
      using off assms(5) d'(1) unfolding PN B_def by (simp add: Let_def del: write_loop.simps)
  qed
  ultimately show ?thesis unfolding PN by auto
qed


text \<open>How many bytes a write request transfers.\<close>

definition transferred :: "int \<Rightarrow> int \<Rightarrow> int \<Rightarrow> int" where
  "transferred len n pos = (if n \<le> 0 \<or> len \<le> pos then 0 else min n (len - pos))"

lemma written_refl: "file_ok h d \<Longrightarrow> p \<le> length (file_bytes h d) \<Longrightarrow> written h d p [] d"
  by (simp add: written_def)

lemma WriteAt_clip:
  assumes "file_ok (hdr f) d" "0 < n" "pos < hdr_len (hdr f)" "int_fits (pos + n)"
  shows "OpenFile_WriteAt f data n pos d = OpenFile_WriteAt f data (min n (hdr_len (hdr f) - pos)) pos d"
proof (cases "pos + n \<le> hdr_len (hdr f)")
  case True
  then show ?thesis by (simp add: min_def)
next
  case False
  then have "min n (hdr_len (hdr f) - pos) = hdr_len (hdr f) - pos" by simp
  then show ?thesis
    using assms False file_ok_fits [OF assms(1)] by (simp add: OpenFile_WriteAt_def Length_ok [OF assms(1)])
qed

lemma WriteAt_eq:
  assumes "file_ok (hdr f) d" "0 \<le> pos" "int_fits (pos + n)" "n \<le> int (length data)"
  shows "\<exists>d'. OpenFile_WriteAt f data n pos d = Inr (transferred (hdr_len (hdr f)) n pos, d')
     \<and> written (hdr f) d (min (nat pos) (nat (hdr_len (hdr f))))
         (take (nat (transferred (hdr_len (hdr f)) n pos)) data) d'"
proof (cases "n \<le> 0 \<or> hdr_len (hdr f) \<le> pos")
  case True
  then show ?thesis
    using written_refl [OF assms(1)] length_file_bytes [OF assms(1)]
    by (simp add: OpenFile_WriteAt_def Length_ok [OF assms(1)] transferred_def)
next
  case False
  let ?len = "hdr_len (hdr f)"
  define k where "k = min n (?len - pos)"
  have k: "0 < k" "pos + k \<le> ?len" "k \<le> int (length data)"
    using False assms(4) by (auto simp: k_def)
  from WriteAt_inside [OF assms(1,2) k] obtain d' where
    d': "OpenFile_WriteAt f data k pos d = Inr (k, d')" "written (hdr f) d (nat pos) (take (nat k) data) d'" by blast
  have "OpenFile_WriteAt f data n pos d = OpenFile_WriteAt f data k pos d"
    unfolding k_def using False by (intro WriteAt_clip [OF assms(1) _ _ assms(3)]) auto
  moreover have "transferred ?len n pos = k" using False by (simp add: transferred_def k_def)
  moreover have "min (nat pos) (nat ?len) = nat pos" using False by linarith
  ultimately show ?thesis using d' by auto
qed

text \<open>A buffer shorter than what is to be transferred is overrun.\<close>

lemma WriteAt_short:
  assumes "file_ok (hdr f) d" "0 \<le> pos" "0 < n" "pos + n \<le> hdr_len (hdr f)" "int (length data) < n"
  shows "OpenFile_WriteAt f data n pos d = Inl OutOfBounds"
proof -
  have "n \<le> int (length (replicate (nat n) (0 :: byte)))" by simp
  from WriteAt_inside [OF assms(1-4) this] obtain d' where
    "OpenFile_WriteAt f (replicate (nat n) 0) n pos d = Inr (n, d')" by blast
  moreover have "addR pos n = Inr (pos + n)" "(n \<le> 0 \<or> hdr_len (hdr f) \<le> pos) = False" "(hdr_len (hdr f) < pos + n) = False"
    using assms file_ok_fits [OF assms(1)] by (auto simp: addR_def int_fits_def)
  ultimately show ?thesis
    using assms(5) unfolding OpenFile_WriteAt_def Length_ok [OF assms(1)]
    by (simp only: bindR_simps if_False if_True Let_def) (auto simp: resE bindR_eq_Inl split del: if_split)
qed

text \<open>Reading back what was written, and what lies around it.\<close>

lemma write_then_read:
  assumes "written h d p bs d'" "p + length bs \<le> length (file_bytes h d)"
  shows "take (length bs) (drop p (file_bytes h d')) = bs"
    "take p (file_bytes h d') = take p (file_bytes h d)"
    "drop (p + length bs) (file_bytes h d') = drop (p + length bs) (file_bytes h d)"
  using assms by (auto simp: written_def overwrite_def)

lemma written_other_file:
  assumes "written h d p bs d'" "set (data_sectors h) \<inter> set (data_sectors g) = {}" "file_ok g d"
  shows "file_bytes g d' = file_bytes g d \<and> file_ok g d'"
proof -
  have "file_raw g d' = file_raw g d"
    unfolding file_raw_def using assms by (auto simp: written_def file_ok_def intro!: arg_cong [of _ _ concat] map_cong)
  moreover have "file_ok g d'"
    using assms by (auto simp: written_def file_ok_def)
  ultimately show ?thesis by (simp add: file_bytes_def)
qed

lemma Write_eq:
  assumes "file_ok (hdr f) d" "0 \<le> seekPosition f" "int_fits (seekPosition f + n)" "n \<le> int (length data)"
  shows "\<exists>d' k. OpenFile_Write f data n d = Inr (k, f\<lparr>seekPosition := seekPosition f + k\<rparr>, d')
     \<and> k = transferred (hdr_len (hdr f)) n (seekPosition f)
     \<and> written (hdr f) d (min (nat (seekPosition f)) (nat (hdr_len (hdr f)))) (take (nat k) data) d'"
  using WriteAt_eq [OF assms] by (auto simp: OpenFile_Write_def)

subsection \<open>Properties\<close>

definition sample_image :: image where
  "sample_image = replicate 64 (replicate 128 0)"

definition sample_file :: OpenFile where
  "sample_file = \<lparr>hdr = sample_header, seekPosition = 0\<rparr>"

lemma sample_file_ok: "file_ok (hdr sample_file) sample_image" "hdr_len (hdr sample_file) = 3684"
  by (auto simp: sample_file_def file_ok_def sample_header_ok sample_image_def image_ok_def SectorSize_def int_fits_def)

text \<open>
  C34: \<^verbatim>\<open>ReadAt\<close> copies exactly the bytes of the file from the given position on, as many as were
  asked for or as there are, whatever the alignment to sectors and across chained headers.
\<close>

theorem ReadAt_reads:
  assumes "file_ok (hdr f) d" "0 \<le> pos" "int_fits (pos + n)"
  shows "OpenFile_ReadAt f n pos d = Inr (take (nat n) (drop (nat pos) (file_bytes (hdr f) d)))"
  by (rule ReadAt_eq [OF assms])

lemma ReadAt_reads_witness:
  "OpenFile_ReadAt sample_file 200 3500 sample_image
     = Inr (take (nat 200) (drop (nat 3500) (file_bytes (hdr sample_file) sample_image)))"
  by (rule ReadAt_reads [OF sample_file_ok(1)]) (simp_all add: int_fits_def)

text \<open>
  C20: a \<^verbatim>\<open>WriteAt\<close> that starts inside the file replaces the bytes at its position, up to the end of
  the file, and changes no other byte of the file, no byte of any other file and not the length of
  the file; it returns how many bytes it wrote.
\<close>

theorem WriteAt_writes:
  assumes "file_ok (hdr f) d" "0 \<le> pos" "pos < hdr_len (hdr f)" "0 < n" "int_fits (pos + n)" "n \<le> int (length data)"
  shows "\<exists>d' k. OpenFile_WriteAt f data n pos d = Inr (k, d') \<and> k = min n (hdr_len (hdr f) - pos)
     \<and> file_ok (hdr f) d' \<and> file_bytes (hdr f) d' = overwrite (nat pos) (take (nat k) data) (file_bytes (hdr f) d)
     \<and> (\<forall>g. file_ok g d \<longrightarrow> set (data_sectors (hdr f)) \<inter> set (data_sectors g) = {} \<longrightarrow>
          file_ok g d' \<and> file_bytes g d' = file_bytes g d)"
proof -
  let ?k = "min n (hdr_len (hdr f) - pos)"
  have k: "transferred (hdr_len (hdr f)) n pos = ?k" using assms(3,4) by (auto simp: transferred_def min_def)
  have p: "min (nat pos) (nat (hdr_len (hdr f))) = nat pos" using assms(2,3) by simp
  from WriteAt_eq [OF assms(1,2,5,6), unfolded k p] obtain d' where
    d': "OpenFile_WriteAt f data n pos d = Inr (?k, d')" "written (hdr f) d (nat pos) (take (nat ?k) data) d'" by blast
  then show ?thesis
    using written_other_file [OF d'(2)] by (intro exI [of _ d'] exI [of _ ?k]) (auto simp: written_def)
qed

lemma WriteAt_writes_witness:
  "\<exists>d' k. OpenFile_WriteAt sample_file (replicate 300 7) 300 3500 sample_image = Inr (k, d')
     \<and> k = min 300 (hdr_len (hdr sample_file) - 3500) \<and> file_ok (hdr sample_file) d'
     \<and> file_bytes (hdr sample_file) d'
         = overwrite (nat 3500) (take (nat k) (replicate 300 7)) (file_bytes (hdr sample_file) sample_image)
     \<and> (\<forall>g. file_ok g sample_image \<longrightarrow> set (data_sectors (hdr sample_file)) \<inter> set (data_sectors g) = {} \<longrightarrow>
          file_ok g d' \<and> file_bytes g d' = file_bytes g sample_image)"
  by (rule WriteAt_writes [OF sample_file_ok(1)]) (simp_all add: sample_file_ok int_fits_def)

text \<open>
  A request whose end does not fit into an \<^verbatim>\<open>int\<close> overflows before it is clipped to the length of
  the file.
\<close>

theorem ReadAt_overflows:
  assumes "file_ok (hdr f) d" "0 < n" "pos < hdr_len (hdr f)" "\<not> int_fits (pos + n)"
  shows "OpenFile_ReadAt f n pos d = Inl SignedOverflow"
  by (rule ReadAt_overflow [OF assms])

lemma ReadAt_overflows_witness: "OpenFile_ReadAt sample_file (2 ^ 31 - 1) 1 sample_image = Inl SignedOverflow"
  by (rule ReadAt_overflows [OF sample_file_ok(1)]) (simp_all add: sample_file_ok int_fits_def)

end
