(* ===== verification/Directories.thy ===== *)
theory Directories
  imports OpenFiles
begin

text \<open>
  \<^verbatim>\<open>filesys/directory.cc\<close> and \<^verbatim>\<open>filesys/pbitmap.cc\<close>: the table of file names and the free map,
  both kept as files. Names are compared and stored up to \<open>FileNameMaxLen\<close> characters; the
  abstraction \<open>dir_map\<close> reads a table as a map from such truncated names to header sectors, and
  the operations are shown to be lookup, insertion into a free slot and deletion in it. Storing
  and fetching the two tables are inverse.
\<close>

subsection \<open>C strings\<close>

definition FileNameMaxLen :: nat where "FileNameMaxLen = 9"

text \<open>The character at a position of a zero-terminated string.\<close>

definition char_at :: "byte list \<Rightarrow> byte" where
  "char_at xs = (case xs of [] \<Rightarrow> 0 | x # _ \<Rightarrow> x)"

text \<open>\<open>strncmp_eq n a b\<close> is \<^verbatim>\<open>!strncmp(a, b, n)\<close>, \<open>strncpy n a\<close> the \<open>n\<close> bytes \<^verbatim>\<open>strncpy\<close> stores.\<close>

fun strncmp_eq :: "nat \<Rightarrow> byte list \<Rightarrow> byte list \<Rightarrow> bool" where
  "strncmp_eq 0 a b = True"
| "strncmp_eq (Suc n) a b =
     (if char_at a \<noteq> char_at b then False else if char_at a = 0 then True else strncmp_eq n (tl a) (tl b))"

fun strncpy :: "nat \<Rightarrow> byte list \<Rightarrow> byte list" where
  "strncpy 0 a = []"
| "strncpy (Suc n) a = (if char_at a = 0 then replicate (Suc n) 0 else char_at a # strncpy n (tl a))"

definition key :: "byte list \<Rightarrow> byte list" where
  "key a = take FileNameMaxLen (takeWhile (\<lambda>c. c \<noteq> 0) a)"

lemma strncmp_eq_iff:
  "strncmp_eq n a b \<longleftrightarrow> take n (takeWhile (\<lambda>c. c \<noteq> 0) a) = take n (takeWhile (\<lambda>c. c \<noteq> 0) b)"
proof (induction n arbitrary: a b)
  case (Suc n)
  show ?case
    using Suc [of "tl a" "tl b"] by (cases a; cases b) (auto simp: char_at_def)
qed simp

lemma strncmp_key: "strncmp_eq FileNameMaxLen a b \<longleftrightarrow> key a = key b"
  by (simp add: key_def strncmp_eq_iff)

lemma length_strncpy [simp]: "length (strncpy n a) = n"
  by (induction n a rule: strncpy.induct) auto

lemma take_strncpy:
  "take n (takeWhile (\<lambda>c. c \<noteq> 0) (strncpy n a @ rest)) = take n (takeWhile (\<lambda>c. c \<noteq> 0) a)"
proof (induction n arbitrary: a)
  case (Suc n)
  show ?case using Suc [of "tl a"] by (cases a) (auto simp: char_at_def)
qed simp

lemma key_strncpy: "key (strncpy FileNameMaxLen a @ rest) = key a"
  by (simp add: key_def take_strncpy)

subsection \<open>The table\<close>

record DirectoryEntry =
  inUse :: bool
  sector :: int
  name :: "byte list"

record Directory =
  tableSize :: int
  table :: "DirectoryEntry list"

definition empty_entry :: DirectoryEntry where
  "empty_entry = \<lparr>inUse = False, sector = 0, name = replicate (Suc FileNameMaxLen) 0\<rparr>"

definition Directory_new :: "int \<Rightarrow> Directory" where
  "Directory_new n = \<lparr>tableSize = n, table = replicate (nat n) empty_entry\<rparr>"

fun find_index_from :: "nat \<Rightarrow> int \<Rightarrow> DirectoryEntry list \<Rightarrow> byte list \<Rightarrow> int" where
  "find_index_from 0 i t n = - 1"
| "find_index_from (Suc k) i t n =
     (if inUse (t ! nat i) \<and> strncmp_eq FileNameMaxLen (name (t ! nat i)) n then i
      else find_index_from k (i + 1) t n)"

definition Directory_FindIndex :: "Directory \<Rightarrow> byte list \<Rightarrow> int" where
  "Directory_FindIndex d n = find_index_from (nat (tableSize d)) 0 (table d) n"

definition Directory_Find :: "Directory \<Rightarrow> byte list \<Rightarrow> int" where
  "Directory_Find d n =
     (let i = Directory_FindIndex d n in if i \<noteq> - 1 then sector (table d ! nat i) else - 1)"

fun add_from :: "nat \<Rightarrow> nat \<Rightarrow> Directory \<Rightarrow> byte list \<Rightarrow> int \<Rightarrow> bool \<times> Directory" where
  "add_from 0 i d n newSector = (False, d)"
| "add_from (Suc k) i d n newSector =
     (let e = table d ! i
      in if \<not> inUse e
         then (True, d\<lparr>table := (table d)[i := e\<lparr>inUse := True,
                 name := overwrite 0 (strncpy FileNameMaxLen n) (name e), sector := newSector\<rparr>]\<rparr>)
         else add_from k (Suc i) d n newSector)"

definition Directory_Add :: "Directory \<Rightarrow> byte list \<Rightarrow> int \<Rightarrow> bool \<times> Directory" where
  "Directory_Add d n newSector =
     (if Directory_FindIndex d n \<noteq> - 1 then (False, d)
      else add_from (nat (tableSize d)) 0 d n newSector)"

definition Directory_Remove :: "Directory \<Rightarrow> byte list \<Rightarrow> bool \<times> Directory" where
  "Directory_Remove d n =
     (let i = Directory_FindIndex d n
      in if i = - 1 then (False, d)
         else (True, d\<lparr>table := (table d)[nat i := (table d ! nat i)\<lparr>inUse := False\<rparr>]\<rparr>))"

text \<open>\<^verbatim>\<open>Directory::List\<close>: the names it prints.\<close>

definition Directory_List :: "Directory \<Rightarrow> byte list list" where
  "Directory_List d =
     map (\<lambda>e. takeWhile (\<lambda>c. c \<noteq> 0) (name e)) (filter inUse (take (nat (tableSize d)) (table d)))"

subsection \<open>The table as a map\<close>

definition dir_inv :: "Directory \<Rightarrow> bool" where
  "dir_inv d \<longleftrightarrow> tableSize d = int (length (table d))
     \<and> (\<forall>e\<in>set (table d). length (name e) = Suc FileNameMaxLen \<and> last (name e) = 0 \<and> int_fits (sector e))
     \<and> distinct (map (key \<circ> name) (filter inUse (table d)))"

definition entries :: "Directory \<Rightarrow> (byte list \<times> int) list" where
  "entries d = map (\<lambda>e. (key (name e), sector e)) (filter inUse (table d))"

definition dir_map :: "Directory \<Rightarrow> byte list \<Rightarrow> int option" where
  "dir_map d n = map_of (entries d) (key n)"

definition free_slots :: "Directory \<Rightarrow> nat" where
  "free_slots d = length (filter (Not \<circ> inUse) (table d))"

lemma dir_inv_new: "0 \<le> n \<Longrightarrow> dir_inv (Directory_new n)"
  by (auto simp: dir_inv_def Directory_new_def empty_entry_def int_fits_def FileNameMaxLen_def)

lemma entries_new [simp]: "entries (Directory_new n) = []"
  by (auto simp: entries_def Directory_new_def empty_entry_def)


abbreviation matches :: "byte list \<Rightarrow> DirectoryEntry \<Rightarrow> bool" where
  "matches n e \<equiv> inUse e \<and> key (name e) = key n"

lemma find_index_from_cases:
  assumes "i + k = length t"
  shows "find_index_from k (int i) t n = - 1 \<and> (\<forall>e\<in>set (drop i t). \<not> matches n e)
     \<or> (\<exists>j. find_index_from k (int i) t n = int j \<and> j < length t \<and> matches n (t ! j))"
  using assms
proof (induction k arbitrary: i)
  case 0
  then show ?case by simp
next
  case (Suc k)
  then have d: "drop i t = t ! i # drop (Suc i) t" by (simp add: Cons_nth_drop_Suc)
  show ?case
  proof (cases "matches n (t ! i)")
    case True
    then show ?thesis using Suc.prems by (intro disjI2 exI [of _ i]) (auto simp: strncmp_key)
  next
    case False
    with Suc.IH [of "Suc i"] Suc.prems d show ?thesis
      by (auto simp: strncmp_key add.commute)
  qed
qed

lemma FindIndex_cases:
  assumes "dir_inv d"
  obtains "Directory_FindIndex d n = - 1" "\<forall>e\<in>set (table d). \<not> matches n e"
  | j where "Directory_FindIndex d n = int j" "j < length (table d)" "matches n (table d ! j)"
  using find_index_from_cases [of 0 "length (table d)" "table d" n] assms
  by (auto simp: Directory_FindIndex_def dir_inv_def)

lemma distinct_keys:
  "distinct (map f (filter P t)) \<Longrightarrow> i < length t \<Longrightarrow> j < length t \<Longrightarrow> P (t ! i) \<Longrightarrow> P (t ! j) \<Longrightarrow>
   f (t ! i) = f (t ! j) \<Longrightarrow> i = j"
proof (induction t arbitrary: i j)
  case (Cons x t)
  have *: "f (t ! k) \<in> f ` {x \<in> set t. P x}" if "k < length t" "P (t ! k)" for k using that by auto
  show ?case
  proof (cases i; cases j)
    fix k assume k: "i = 0" "j = Suc k"
    then have "f x \<in> f ` {x \<in> set t. P x}" using * [of k] Cons.prems by simp
    with k Cons.prems show ?thesis by simp
  next
    fix k assume k: "i = Suc k" "j = 0"
    then have a: "k < length t" "P (t ! k)" and b: "f (t ! k) = f x" "P x" using Cons.prems by simp_all
    have "P x \<longrightarrow> f x \<notin> f ` {x \<in> set t. P x}" using Cons.prems(1) by auto
    with b * [OF a] show ?thesis by metis
  next
    fix k l assume "i = Suc k" "j = Suc l"
    with Cons show ?thesis by (auto split: if_splits)
  qed simp
qed simp

lemma dir_map_None: "dir_map d n = None \<longleftrightarrow> (\<forall>e\<in>set (table d). \<not> matches n e)"
  unfolding dir_map_def map_of_eq_None_iff entries_def by (force simp: image_iff)

lemma dir_map_Some:
  assumes "dir_inv d" "j < length (table d)" "matches n (table d ! j)"
  shows "dir_map d n = Some (sector (table d ! j))"
proof -
  have "distinct (map fst (entries d))"
    using assms(1) by (simp add: dir_inv_def entries_def comp_def)
  moreover have "(key n, sector (table d ! j)) \<in> set (entries d)"
    using assms(2,3) by (force simp: entries_def)
  ultimately show ?thesis by (simp add: dir_map_def)
qed

text \<open>\<^verbatim>\<open>Find\<close> is lookup.\<close>

lemma Find_eq: "dir_inv d \<Longrightarrow> Directory_Find d n = (case dir_map d n of None \<Rightarrow> - 1 | Some s \<Rightarrow> s)"
  by (rule FindIndex_cases [of d n])
     (auto simp: Directory_Find_def dir_map_None [THEN iffD2] dir_map_Some)

lemma FindIndex_none: "dir_inv d \<Longrightarrow> Directory_FindIndex d n = - 1 \<longleftrightarrow> dir_map d n = None"
  by (rule FindIndex_cases [of d n]) (auto simp: dir_map_None [THEN iffD2] dir_map_Some)

subsection \<open>Adding and removing names\<close>

lemma add_from_full: "i + k = length (table d) \<Longrightarrow> \<forall>e\<in>set (drop i (table d)). inUse e \<Longrightarrow> add_from k i d n s = (False, d)"
proof (induction k arbitrary: i)
  case (Suc k)
  then have "drop i (table d) = table d ! i # drop (Suc i) (table d)" by (simp add: Cons_nth_drop_Suc)
  with Suc show ?case by simp
qed simp

lemma add_from_slot:
  assumes "i + k = length (table d)" "\<exists>e\<in>set (drop i (table d)). \<not> inUse e"
  shows "\<exists>j. j < length (table d) \<and> \<not> inUse (table d ! j) \<and> add_from k i d n s =
     (True, d\<lparr>table := (table d)[j := (table d ! j)\<lparr>inUse := True,
        name := overwrite 0 (strncpy FileNameMaxLen n) (name (table d ! j)), sector := s\<rparr>]\<rparr>)"
  using assms
proof (induction k arbitrary: i)
  case 0
  then show ?case by simp
next
  case (Suc k)
  then have d: "drop i (table d) = table d ! i # drop (Suc i) (table d)" by (simp add: Cons_nth_drop_Suc)
  show ?case
  proof (cases "inUse (table d ! i)")
    case True
    with Suc.IH [of "Suc i"] Suc.prems d show ?thesis by auto
  next
    case False
    then show ?thesis using Suc.prems by (intro exI [of _ i]) (auto simp: Let_def)
  qed
qed

lemma filter_update:
  "j < length t \<Longrightarrow> P x \<Longrightarrow> \<not> P (t ! j) \<Longrightarrow>
   mset (filter P (t[j := x])) = add_mset x (mset (filter P t))"
proof (induction t arbitrary: j)
  case (Cons y t)
  then show ?case by (cases j) auto
qed simp

lemma filter_update_out:
  "j < length t \<Longrightarrow> \<not> P x \<Longrightarrow> P (t ! j) \<Longrightarrow>
   add_mset (t ! j) (mset (filter P (t[j := x]))) = mset (filter P t)"
proof (induction t arbitrary: j)
  case (Cons y t)
  then show ?case by (cases j) auto
qed simp

lemma map_of_mset:
  "mset xs = mset ys \<Longrightarrow> distinct (map fst xs) \<Longrightarrow> map_of xs = map_of ys"
  by (metis map_of_inject_set mset_eq_imp_distinct_iff mset_map set_mset_mset)


text \<open>\<^verbatim>\<open>Add\<close> fails for a name that is there and for a full table, and enters the name otherwise.\<close>

lemma Add_present: "dir_inv d \<Longrightarrow> dir_map d n \<noteq> None \<Longrightarrow> Directory_Add d n s = (False, d)"
  using FindIndex_none [of d n] by (simp add: Directory_Add_def)

lemma Add_full:
  "dir_inv d \<Longrightarrow> free_slots d = 0 \<Longrightarrow> Directory_Add d n s = (False, d)"
  using add_from_full [of 0 "length (table d)" d n s]
  by (auto simp: Directory_Add_def free_slots_def filter_empty_conv dir_inv_def)

lemma overwrite_name:
  "length a = 10 \<Longrightarrow> last a = 0 \<Longrightarrow>
   \<exists>rest. overwrite 0 (strncpy FileNameMaxLen n) a = strncpy FileNameMaxLen n @ rest
      \<and> length (strncpy FileNameMaxLen n @ rest) = 10 \<and> last (strncpy FileNameMaxLen n @ rest) = 0"
proof -
  assume a: "length a = 10" "last a = 0"
  have "drop 9 a = [0]"
  proof (rule nth_equalityI)
    fix i assume "i < length (drop 9 a)"
    then show "drop 9 a ! i = [0] ! i" using a by (cases a rule: rev_cases) (auto simp: nth_append)
  qed (use a in simp)
  then have "overwrite 0 (strncpy FileNameMaxLen n) a = strncpy FileNameMaxLen n @ [0]"
    by (simp add: overwrite_def FileNameMaxLen_def)
  then show ?thesis by (intro exI [of _ "[0]"]) (simp add: FileNameMaxLen_def)
qed

lemma distinct_entries: "dir_inv d \<Longrightarrow> distinct (map fst (entries d))"
  by (simp add: dir_inv_def entries_def comp_def)

lemma entries_mset: "mset (entries d) = image_mset (\<lambda>e. (key (name e), sector e)) (mset (filter inUse (table d)))"
  by (simp add: entries_def)

lemma mset_map_cong: "mset xs = mset ys \<Longrightarrow> mset (map f xs) = mset (map f ys)"
  by simp

lemma distinct_mset_cong: "mset xs = mset ys \<Longrightarrow> distinct xs \<longleftrightarrow> distinct ys"
  by (rule mset_eq_imp_distinct_iff)

lemma free_slots_entries: "dir_inv d \<Longrightarrow> int (free_slots d) = tableSize d - int (length (entries d))"
proof -
  assume d: "dir_inv d"
  have "length (filter inUse t) + length (filter (Not \<circ> inUse) t) = length t" for t
    by (induction t) auto
  from this [of "table d"] d show ?thesis
    by (simp add: free_slots_def entries_def dir_inv_def)
qed

lemma Add_ok:
  assumes "dir_inv d" "dir_map d n = None" "0 < free_slots d" "int_fits s"
  shows "\<exists>d'. Directory_Add d n s = (True, d') \<and> dir_inv d' \<and> tableSize d' = tableSize d
     \<and> mset (entries d') = add_mset (key n, s) (mset (entries d))
     \<and> (\<forall>m. dir_map d' m = (if key m = key n then Some s else dir_map d m))"
proof -
  have "\<exists>e\<in>set (drop 0 (table d)). \<not> inUse e"
    using assms(3) by (auto simp: free_slots_def filter_empty_conv)
  from add_from_slot [OF _ this, of "length (table d)" n s] obtain j where
    j: "j < length (table d)" "\<not> inUse (table d ! j)"
      "add_from (length (table d)) 0 d n s = (True, d\<lparr>table := (table d)[j := (table d ! j)\<lparr>inUse := True,
        name := overwrite 0 (strncpy FileNameMaxLen n) (name (table d ! j)), sector := s\<rparr>]\<rparr>)" by auto
  let ?e = "(table d ! j)\<lparr>inUse := True,
        name := overwrite 0 (strncpy FileNameMaxLen n) (name (table d ! j)), sector := s\<rparr>"
  let ?d = "d\<lparr>table := (table d)[j := ?e]\<rparr>"
  have "length (name (table d ! j)) = 10" "last (name (table d ! j)) = 0"
    using assms(1) j(1) by (auto simp: dir_inv_def FileNameMaxLen_def)
  from overwrite_name [OF this, of n] obtain rest where
    e: "name ?e = strncpy FileNameMaxLen n @ rest" "length (name ?e) = 10" "last (name ?e) = 0" by auto
  have key_e: "key (name ?e) = key n" unfolding e(1) by (rule key_strncpy)
  have ms: "mset (filter inUse (table ?d)) = add_mset ?e (mset (filter inUse (table d)))"
    using filter_update [of j "table d" inUse ?e] j by simp
  have es: "mset (entries ?d) = add_mset (key n, s) (mset (entries d))"
    unfolding entries_mset ms using key_e by simp
  have fresh: "key n \<notin> set (map fst (entries d))"
    using assms(2) by (simp add: dir_map_def map_of_eq_None_iff)
  have perm: "mset (entries ?d) = mset ((key n, s) # entries d)" using es by simp
  then have "mset (map fst (entries ?d)) = mset (map fst ((key n, s) # entries d))" by (rule mset_map_cong)
  from distinct_mset_cong [OF this] have dist: "distinct (map fst (entries ?d))"
    using fresh distinct_entries [OF assms(1)] by simp
  have inv: "dir_inv ?d"
    unfolding dir_inv_def
  proof (intro conjI)
    show "tableSize ?d = int (length (table ?d))" using assms(1) by (simp add: dir_inv_def)
    show "\<forall>e\<in>set (table ?d). length (name e) = Suc FileNameMaxLen \<and> last (name e) = 0 \<and> int_fits (sector e)"
    proof
      fix x assume "x \<in> set (table ?d)"
      then have "x = ?e \<or> x \<in> set (table d)" using set_update_subset_insert [of "table d" j ?e] by auto
      then show "length (name x) = Suc FileNameMaxLen \<and> last (name x) = 0 \<and> int_fits (sector x)"
        using e assms(1,4) by (auto simp: dir_inv_def FileNameMaxLen_def)
    qed
    show "distinct (map (key \<circ> name) (filter inUse (table ?d)))"
      using dist by (simp add: entries_def comp_def)
  qed
  have "map_of (entries ?d) = map_of ((key n, s) # entries d)"
    by (rule map_of_mset [OF perm dist])
  then have "\<forall>m. dir_map ?d m = (if key m = key n then Some s else dir_map d m)"
    by (auto simp: dir_map_def)
  moreover have "Directory_Add d n s = (True, ?d)"
    using FindIndex_none [OF assms(1), of n] assms(1,2) j(3) by (simp add: Directory_Add_def dir_inv_def)
  ultimately show ?thesis using inv es by auto
qed

text \<open>\<^verbatim>\<open>Remove\<close> deletes the entry of a name that is there.\<close>

lemma Directory_Remove_absent: "dir_inv d \<Longrightarrow> dir_map d n = None \<Longrightarrow> Directory_Remove d n = (False, d)"
  using FindIndex_none [of d n] by (simp add: Directory_Remove_def)

lemma Directory_Remove_ok:
  assumes "dir_inv d" "dir_map d n = Some s"
  shows "\<exists>d'. Directory_Remove d n = (True, d') \<and> dir_inv d' \<and> tableSize d' = tableSize d
     \<and> add_mset (key n, s) (mset (entries d')) = mset (entries d)
     \<and> (\<forall>m. dir_map d' m = (if key m = key n then None else dir_map d m))"
  using assms(1)
proof (rule FindIndex_cases [of d n])
  assume "\<forall>e\<in>set (table d). \<not> matches n e"
  with assms(2) dir_map_None [of d n] show ?thesis by simp
next
  fix j assume j: "Directory_FindIndex d n = int j" "j < length (table d)" "matches n (table d ! j)"
  let ?e = "(table d ! j)\<lparr>inUse := False\<rparr>"
  let ?d = "d\<lparr>table := (table d)[j := ?e]\<rparr>"
  have s: "sector (table d ! j) = s" using dir_map_Some [OF assms(1) j(2,3)] assms(2) by simp
  have "add_mset (table d ! j) (mset (filter inUse (table ?d))) = mset (filter inUse (table d))"
    using filter_update_out [of j "table d" inUse ?e] j by simp
  then have "image_mset (\<lambda>e. (key (name e), sector e)) (add_mset (table d ! j) (mset (filter inUse (table ?d))))
    = mset (entries d)" unfolding entries_mset by (rule arg_cong)
  then have es: "add_mset (key n, s) (mset (entries ?d)) = mset (entries d)"
    unfolding entries_mset using j(3) s by simp
  then have perm: "mset (entries d) = mset ((key n, s) # entries ?d)" by simp
  then have "mset (map fst (entries d)) = mset (map fst ((key n, s) # entries ?d))" by (rule mset_map_cong)
  then have "distinct (map fst ((key n, s) # entries ?d))"
    using distinct_entries [OF assms(1)] distinct_mset_cong by blast
  then have dist: "distinct (map fst (entries ?d))" "key n \<notin> set (map fst (entries ?d))" by auto
  have inv: "dir_inv ?d"
    unfolding dir_inv_def
  proof (intro conjI)
    show "tableSize ?d = int (length (table ?d))" using assms(1) by (simp add: dir_inv_def)
    show "\<forall>e\<in>set (table ?d). length (name e) = Suc FileNameMaxLen \<and> last (name e) = 0 \<and> int_fits (sector e)"
    proof
      fix x assume "x \<in> set (table ?d)"
      then have "x = ?e \<or> x \<in> set (table d)" using set_update_subset_insert [of "table d" j ?e] by auto
      moreover have "table d ! j \<in> set (table d)" using j(2) by simp
      ultimately show "length (name x) = Suc FileNameMaxLen \<and> last (name x) = 0 \<and> int_fits (sector x)"
        using assms(1) by (auto simp: dir_inv_def)
    qed
    show "distinct (map (key \<circ> name) (filter inUse (table ?d)))"
      using dist by (simp add: entries_def comp_def)
  qed
  have "map_of (entries d) = map_of ((key n, s) # entries ?d)"
    by (rule map_of_mset [OF perm distinct_entries [OF assms(1)]])
  moreover have "map_of (entries ?d) (key n) = None" using dist(2) by (simp add: map_of_eq_None_iff)
  ultimately have "\<forall>m. dir_map ?d m = (if key m = key n then None else dir_map d m)"
    by (auto simp: dir_map_def)
  moreover have "Directory_Remove d n = (True, ?d)" using j(1) by (simp add: Directory_Remove_def)
  ultimately show ?thesis using inv es by auto
qed


subsection \<open>Entries and words as bytes\<close>

text \<open>
  An entry is 20 bytes long: the flag, three bytes of padding (zero since the table was cleared),
  the sector number, the name and two more bytes of padding.
\<close>

definition DirectoryEntry_bytes :: "DirectoryEntry \<Rightarrow> byte list" where
  "DirectoryEntry_bytes e =
     [if inUse e then 1 else 0, 0, 0, 0] @ int_bytes (sector e) @ name e @ [0, 0]"

definition bytes_DirectoryEntry :: "byte list \<Rightarrow> DirectoryEntry" where
  "bytes_DirectoryEntry bs =
     \<lparr>inUse = (bs ! 0 \<noteq> 0), sector = bytes_int (take 4 (drop 4 bs)), name = take 10 (drop 8 bs)\<rparr>"

definition entry_ok :: "DirectoryEntry \<Rightarrow> bool" where
  "entry_ok e \<longleftrightarrow> length (name e) = 10 \<and> int_fits (sector e)"

interpretation entry_codec: byte_codec DirectoryEntry_bytes bytes_DirectoryEntry 20 entry_ok
  by unfold_locales
     (auto simp: DirectoryEntry_bytes_def bytes_DirectoryEntry_def entry_ok_def bytes_int_int_bytes)

subsection \<open>Directory and free map as files\<close>

text \<open>
  \<^verbatim>\<open>ReadAt((char *)table, size, 0)\<close> overwrites the memory of the table with the bytes it got,
  \<^verbatim>\<open>WriteAt\<close> hands that memory over.
\<close>

definition entry_size :: int where "entry_size = 20"

definition Directory_bytes :: "Directory \<Rightarrow> byte list" where
  "Directory_bytes dir = concat (map DirectoryEntry_bytes (table dir))"

definition Directory_FetchFrom :: "Directory \<Rightarrow> OpenFile \<Rightarrow> image \<Rightarrow> Directory res" where
  "Directory_FetchFrom dir f d =
     bindR (OpenFile_ReadAt f (tableSize dir * entry_size) 0 d) (\<lambda>bs.
       Inr (dir\<lparr>table := map bytes_DirectoryEntry
                 (pieces 20 (length (table dir)) (overwrite 0 bs (Directory_bytes dir)))\<rparr>))"

definition Directory_WriteBack :: "Directory \<Rightarrow> OpenFile \<Rightarrow> image \<Rightarrow> image res" where
  "Directory_WriteBack dir f d =
     bindR (OpenFile_WriteAt f (Directory_bytes dir) (tableSize dir * entry_size) 0 d) (\<lambda>(_, d). Inr d)"

definition Bitmap_bytes :: "Bitmap \<Rightarrow> byte list" where
  "Bitmap_bytes m = concat (map word_bytes (bmap m))"

definition PersistentBitmap_FetchFrom :: "Bitmap \<Rightarrow> OpenFile \<Rightarrow> image \<Rightarrow> Bitmap res" where
  "PersistentBitmap_FetchFrom m f d =
     bindR (OpenFile_ReadAt f (numWords m * 4) 0 d) (\<lambda>bs.
       Inr (m\<lparr>bmap := map bytes_word (pieces 4 (length (bmap m)) (overwrite 0 bs (Bitmap_bytes m)))\<rparr>))"

definition PersistentBitmap_WriteBack :: "Bitmap \<Rightarrow> OpenFile \<Rightarrow> image \<Rightarrow> image res" where
  "PersistentBitmap_WriteBack m f d =
     bindR (OpenFile_WriteAt f (Bitmap_bytes m) (numWords m * 4) 0 d) (\<lambda>(_, d). Inr d)"

text \<open>The constructor that reads the map from a file.\<close>

definition PersistentBitmap_new :: "OpenFile \<Rightarrow> int \<Rightarrow> image \<Rightarrow> Bitmap res" where
  "PersistentBitmap_new f numItems d =
     bindR (Bitmap_new numItems) (\<lambda>m. PersistentBitmap_FetchFrom m f d)"

text \<open>A file that is exactly long enough for a table and holds it.\<close>

definition holds :: "OpenFile \<Rightarrow> image \<Rightarrow> byte list \<Rightarrow> bool" where
  "holds f d bs \<longleftrightarrow> file_ok (hdr f) d \<and> hdr_len (hdr f) = int (length bs) \<and> file_bytes (hdr f) d = bs"

lemma overwrite_whole: "length bs = length m \<Longrightarrow> overwrite 0 bs m = bs"
  by (rule overwrite_all)

lemma length_Directory_bytes: "dir_inv dir \<Longrightarrow> int (length (Directory_bytes dir)) = tableSize dir * entry_size"
proof -
  assume d: "dir_inv dir"
  then have "list_all entry_ok (table dir)"
    by (auto simp: dir_inv_def list_all_iff entry_ok_def FileNameMaxLen_def)
  from entry_codec.array_length [OF this] d show ?thesis
    by (simp add: Directory_bytes_def dir_inv_def entry_size_def)
qed

lemma length_Bitmap_bytes: "length (Bitmap_bytes m) = 4 * length (bmap m)"
proof -
  have "list_all (\<lambda>_. True) (bmap m)" by (simp add: list_all_iff)
  from word_codec.array_length [OF this] show ?thesis by (simp add: Bitmap_bytes_def)
qed

lemma ReadAt_whole:
  assumes "holds f d bs"
  shows "OpenFile_ReadAt f (int (length bs)) 0 d = Inr bs"
proof -
  have "int_fits (0 + int (length bs))"
    using assms file_ok_fits [of "hdr f" d] by (simp add: holds_def)
  from ReadAt_eq [OF _ _ this, of f d] assms show ?thesis by (simp add: holds_def)
qed

lemma WriteAt_whole:
  assumes "file_ok (hdr f) d" "hdr_len (hdr f) = int (length bs)"
  shows "\<exists>d'. OpenFile_WriteAt f bs (int (length bs)) 0 d = Inr (int (length bs), d') \<and> holds f d' bs
     \<and> length d' = length d \<and> (\<forall>j. 0 \<le> j \<and> j \<notin> set (data_sectors (hdr f)) \<longrightarrow> d' ! nat j = d ! nat j)"
proof -
  have "int_fits (0 + int (length bs))" using assms file_ok_fits [OF assms(1)] by simp
  from WriteAt_eq [OF assms(1) _ this, of bs] assms(2) obtain d' where
    "OpenFile_WriteAt f bs (int (length bs)) 0 d = Inr (int (length bs), d')"
    "written (hdr f) d 0 bs d'"
    by (cases "bs = []") (auto simp: transferred_def)
  then show ?thesis
    using overwrite_all [of bs "file_bytes (hdr f) d"] length_file_bytes [OF assms(1)] assms(2)
    by (auto simp: written_def holds_def)
qed

lemma Directory_WriteBack_eq:
  assumes "dir_inv dir" "file_ok (hdr f) d" "hdr_len (hdr f) = tableSize dir * entry_size"
  shows "\<exists>d'. Directory_WriteBack dir f d = Inr d' \<and> holds f d' (Directory_bytes dir)
     \<and> length d' = length d \<and> (\<forall>j. 0 \<le> j \<and> j \<notin> set (data_sectors (hdr f)) \<longrightarrow> d' ! nat j = d ! nat j)"
proof -
  have "hdr_len (hdr f) = int (length (Directory_bytes dir))"
    using assms(3) length_Directory_bytes [OF assms(1)] by simp
  from WriteAt_whole [OF assms(2) this] length_Directory_bytes [OF assms(1)] show ?thesis
    by (auto simp: Directory_WriteBack_def)
qed

lemma Directory_FetchFrom_eq:
  assumes "holds f d (Directory_bytes dir)" "dir_inv dir" "dir_inv dir0" "tableSize dir0 = tableSize dir"
  shows "Directory_FetchFrom dir0 f d = Inr dir"
proof -
  have len: "length (table dir0) = length (table dir)" using assms(2-4) by (simp add: dir_inv_def)
  have ok: "list_all entry_ok (table dir)"
    using assms(2) by (auto simp: dir_inv_def list_all_iff entry_ok_def FileNameMaxLen_def)
  have same: "length (Directory_bytes dir) = length (Directory_bytes dir0)"
    using length_Directory_bytes [OF assms(2)] length_Directory_bytes [OF assms(3)] assms(4) by simp
  have "map bytes_DirectoryEntry (pieces 20 (length (table dir)) (Directory_bytes dir)) = table dir"
    using entry_codec.array_roundtrip [OF ok, of "[]"] by (simp add: Directory_bytes_def)
  moreover have "dir0\<lparr>table := table dir\<rparr> = dir" using assms(4) by (cases dir0; cases dir) simp
  ultimately show ?thesis
    using ReadAt_whole [OF assms(1)] length_Directory_bytes [OF assms(2)] assms(4)
      overwrite_all [OF same]
    by (simp add: Directory_FetchFrom_def len)
qed

lemma Bitmap_WriteBack_eq:
  assumes "bm_inv m" "file_ok (hdr f) d" "hdr_len (hdr f) = numWords m * 4"
  shows "\<exists>d'. PersistentBitmap_WriteBack m f d = Inr d' \<and> holds f d' (Bitmap_bytes m)
     \<and> length d' = length d \<and> (\<forall>j. 0 \<le> j \<and> j \<notin> set (data_sectors (hdr f)) \<longrightarrow> d' ! nat j = d ! nat j)"
proof -
  have "0 \<le> numWords m" using assms(1) divRoundUp_nonneg by (simp add: bm_inv_def BitsInWord_def)
  then have l: "int (length (Bitmap_bytes m)) = numWords m * 4"
    using length_Bitmap_bytes [of m] assms(1) by (simp add: bm_inv_def)
  with assms(3) have "hdr_len (hdr f) = int (length (Bitmap_bytes m))" by simp
  from WriteAt_whole [OF assms(2) this] l show ?thesis
    by (auto simp: PersistentBitmap_WriteBack_def)
qed

lemma PersistentBitmap_new_eq:
  assumes "holds f d (Bitmap_bytes m)" "bm_inv m"
  shows "PersistentBitmap_new f (numBits m) d = Inr m"
proof -
  from Bitmap_new_eq [of "numBits m"] assms(2) obtain m0 where
    m0: "Bitmap_new (numBits m) = Inr m0" "bm_inv m0" "numBits m0 = numBits m"
    by (auto simp: bm_inv_def bm_size_def)
  have w: "numWords m0 = numWords m" "length (bmap m0) = length (bmap m)" "0 \<le> numWords m"
    using m0(2,3) assms(2) divRoundUp_nonneg by (simp_all add: bm_inv_def BitsInWord_def)
  have l: "int (length (Bitmap_bytes m)) = numWords m * 4"
    using length_Bitmap_bytes [of m] assms(2) w(3) by (simp add: bm_inv_def)
  have "list_all (\<lambda>_. True) (bmap m)" by (simp add: list_all_iff)
  from word_codec.array_roundtrip [OF this, of "[]"]
  have "map bytes_word (pieces 4 (length (bmap m)) (Bitmap_bytes m)) = bmap m"
    by (simp add: Bitmap_bytes_def)
  moreover have "overwrite 0 (Bitmap_bytes m) (Bitmap_bytes m0) = Bitmap_bytes m"
    by (rule overwrite_all) (simp add: length_Bitmap_bytes w)
  moreover have "m0\<lparr>bmap := bmap m\<rparr> = m" using m0(3) w(1) by (cases m0; cases m) simp
  ultimately show ?thesis
    using m0(1) ReadAt_whole [OF assms(1)] l w
    by (simp add: PersistentBitmap_new_def PersistentBitmap_FetchFrom_def)
qed

subsection \<open>Properties\<close>

text \<open>
  C36: the directory is a finite map from names (their first nine characters) to sectors: \<^verbatim>\<open>Find\<close>
  looks a name up, \<^verbatim>\<open>Add\<close> inserts a new name and fails exactly when it is present or no entry is
  free, \<^verbatim>\<open>Remove\<close> deletes a name and fails exactly when it is absent; both keep the table well formed.
\<close>

theorem Directory_is_map:
  assumes "dir_inv d" "int_fits s"
  shows "Directory_Find d n = (case dir_map d n of None \<Rightarrow> - 1 | Some t \<Rightarrow> t)
     \<and> (\<exists>b d'. Directory_Add d n s = (b, d') \<and> dir_inv d' \<and> (b \<longleftrightarrow> dir_map d n = None \<and> 0 < free_slots d)
          \<and> (\<forall>k. dir_map d' k = (if b \<and> key k = key n then Some s else dir_map d k)))
     \<and> (\<exists>b d'. Directory_Remove d n = (b, d') \<and> dir_inv d' \<and> (b \<longleftrightarrow> dir_map d n \<noteq> None)
          \<and> (\<forall>k. dir_map d' k = (if key k = key n then None else dir_map d k)))"
proof (intro conjI)
  show "Directory_Find d n = (case dir_map d n of None \<Rightarrow> - 1 | Some t \<Rightarrow> t)" by (rule Find_eq [OF assms(1)])
  show "\<exists>b d'. Directory_Add d n s = (b, d') \<and> dir_inv d' \<and> (b \<longleftrightarrow> dir_map d n = None \<and> 0 < free_slots d)
      \<and> (\<forall>k. dir_map d' k = (if b \<and> key k = key n then Some s else dir_map d k))"
    using Add_present [OF assms(1)] Add_full [OF assms(1)] Add_ok [OF assms(1) _ _ assms(2)] assms(1)
    by (cases "dir_map d n = None"; cases "free_slots d = 0") fastforce+
  have "dir_map d k = None" if "dir_map d n = None" "key k = key n" for k
    using that by (simp add: dir_map_def)
  then show "\<exists>b d'. Directory_Remove d n = (b, d') \<and> dir_inv d' \<and> (b \<longleftrightarrow> dir_map d n \<noteq> None)
      \<and> (\<forall>k. dir_map d' k = (if key k = key n then None else dir_map d k))"
    using Directory_Remove_absent [OF assms(1)] Directory_Remove_ok [OF assms(1)] assms(1)
    by (cases "dir_map d n") fastforce+
qed

lemma Directory_is_map_witness:
  "Directory_Find (Directory_new 10) [65] = (case dir_map (Directory_new 10) [65] of None \<Rightarrow> - 1 | Some t \<Rightarrow> t)
     \<and> (\<exists>b d'. Directory_Add (Directory_new 10) [65] 7 = (b, d') \<and> dir_inv d'
          \<and> (b \<longleftrightarrow> dir_map (Directory_new 10) [65] = None \<and> 0 < free_slots (Directory_new 10))
          \<and> (\<forall>k. dir_map d' k = (if b \<and> key k = key [65] then Some 7 else dir_map (Directory_new 10) k)))
     \<and> (\<exists>b d'. Directory_Remove (Directory_new 10) [65] = (b, d') \<and> dir_inv d'
          \<and> (b \<longleftrightarrow> dir_map (Directory_new 10) [65] \<noteq> None)
          \<and> (\<forall>k. dir_map d' k = (if key k = key [65] then None else dir_map (Directory_new 10) k)))"
  by (rule Directory_is_map [OF dir_inv_new]) (simp_all add: int_fits_def)

text \<open>
  a directory written back to its file is what a directory of the same size fetches from it, and
  only data sectors of that file are written.
\<close>

theorem Directory_roundtrip:
  assumes "dir_inv dir" "file_ok (hdr f) d" "hdr_len (hdr f) = tableSize dir * entry_size"
    "dir_inv dir0" "tableSize dir0 = tableSize dir"
  shows "\<exists>d'. Directory_WriteBack dir f d = Inr d' \<and> Directory_FetchFrom dir0 f d' = Inr dir
     \<and> (\<forall>j. 0 \<le> j \<and> j \<notin> set (data_sectors (hdr f)) \<longrightarrow> d' ! nat j = d ! nat j)"
  using Directory_WriteBack_eq [OF assms(1-3)] Directory_FetchFrom_eq [OF _ assms(1,4,5)] by blast

definition sample_dir_file :: OpenFile where
  "sample_dir_file = \<lparr>hdr = FH 200 2 ([10, 11] @ replicate 26 (- 1)) (- 1) Null, seekPosition = 0\<rparr>"

lemma sample_dir_file_ok: "file_ok (hdr sample_dir_file) sample_image" "hdr_len (hdr sample_dir_file) = 200"
  by (auto simp: sample_dir_file_def file_ok_def sample_image_def image_ok_def file_consts int_fits_def
      divRoundUp_def list_all_iff)

lemma Directory_roundtrip_witness:
  "\<exists>d'. Directory_WriteBack (snd (Directory_Add (Directory_new 10) [65] 7)) sample_dir_file sample_image = Inr d'
     \<and> Directory_FetchFrom (Directory_new 10) sample_dir_file d' = Inr (snd (Directory_Add (Directory_new 10) [65] 7))
     \<and> (\<forall>j. 0 \<le> j \<and> j \<notin> set (data_sectors (hdr sample_dir_file)) \<longrightarrow> d' ! nat j = sample_image ! nat j)"
proof -
  have "dir_map (Directory_new 10) [65] = None" "0 < free_slots (Directory_new 10)"
    by (simp add: dir_map_def) (simp add: free_slots_def Directory_new_def empty_entry_def)
  from Add_ok [OF dir_inv_new this, of 7] obtain d1 where
    d1: "Directory_Add (Directory_new 10) [65] 7 = (True, d1)" "dir_inv d1" "tableSize d1 = 10"
    by (auto simp: int_fits_def Directory_new_def)
  from Directory_roundtrip [OF d1(2) sample_dir_file_ok(1) _ dir_inv_new [of 10]] d1 show ?thesis
    by (simp add: sample_dir_file_ok entry_size_def Directory_new_def)
qed

end
