(* ===== verification/FileSys.thy ===== *)
theory FileSys
  imports Directories
begin

text \<open>
  \<^verbatim>\<open>filesys/filesys.cc\<close> of the fourth assignment: the file system with its two tables kept in
  files whose headers lie in sectors 0 and 1. The invariant \<open>fs_inv\<close> says that every object on
  the disk (the two tables and each file of the directory) is stored with its own sectors, none
  of them marked free. The relation \<open>fs_rep\<close> is the abstract view, a map from names to
  contents, with the number of free sectors and of free directory slots; every operation is
  shown to act on it as its comment says, where it does.
\<close>

subsection \<open>State and operations\<close>

text \<open>
  \<open>Dangling\<close> is a pointer to no live object: the constructors leave \<^verbatim>\<open>openedFile\<close> uninitialised, and
  \<^verbatim>\<open>Close\<close> deletes the object and keeps the pointer.
\<close>

datatype OpenFilePtr = NoFile | Opened OpenFile | Dangling

record FileSystem =
  disk :: image
  freeMapFile :: OpenFile
  directoryFile :: OpenFile
  openedFile :: OpenFilePtr

definition FreeMapSector :: int where "FreeMapSector = 0"
definition DirectorySector :: int where "DirectorySector = 1"
definition NumDirEntries :: int where "NumDirEntries = 10"
definition BitsInByte :: int where "BitsInByte = 8"
definition FreeMapFileSize :: "image \<Rightarrow> int" where "FreeMapFileSize d = int (length d) sdiv BitsInByte"
definition DirectoryFileSize :: int where "DirectoryFileSize = entry_size * NumDirEntries"

text \<open>\<^verbatim>\<open>FileSystem(FALSE)\<close>: open the two files. \<^verbatim>\<open>FileSystem(TRUE)\<close>: write them first.\<close>

definition FileSystem_mount :: "image \<Rightarrow> FileSystem res" where
  "FileSystem_mount d =
     bindR (OpenFile_new FreeMapSector d) (\<lambda>mf.
     bindR (OpenFile_new DirectorySector d) (\<lambda>df.
       Inr \<lparr>disk = d, freeMapFile = mf, directoryFile = df, openedFile = Dangling\<rparr>))"

definition FileSystem_format :: "image \<Rightarrow> FileSystem res" where
  "FileSystem_format d =
     bindR (Bitmap_new (int (length d))) (\<lambda>freeMap.
     let directory = Directory_new NumDirEntries in
     bindR (Bitmap_Mark freeMap FreeMapSector) (\<lambda>freeMap.
     bindR (Bitmap_Mark freeMap DirectorySector) (\<lambda>freeMap.
     bindR (FileHeader_Allocate freeMap (FreeMapFileSize d) FileHeader_new) (\<lambda>(b, mapHdr, freeMap). assertR b (
     bindR (FileHeader_Allocate freeMap DirectoryFileSize FileHeader_new) (\<lambda>(b, dirHdr, freeMap). assertR b (
     bindR (FileHeader_WriteBack mapHdr FreeMapSector d) (\<lambda>d.
     bindR (FileHeader_WriteBack dirHdr DirectorySector d) (\<lambda>d.
     bindR (OpenFile_new FreeMapSector d) (\<lambda>mf.
     bindR (OpenFile_new DirectorySector d) (\<lambda>df.
     bindR (PersistentBitmap_WriteBack freeMap mf d) (\<lambda>d.
     bindR (Directory_WriteBack directory df d) (\<lambda>d.
       Inr \<lparr>disk = d, freeMapFile = mf, directoryFile = df, openedFile = Dangling\<rparr>)))))))))))))"

text \<open>The first step of most operations: a table of names read from the directory file.\<close>

definition fetch_directory :: "FileSystem \<Rightarrow> Directory res" where
  "fetch_directory fs = Directory_FetchFrom (Directory_new NumDirEntries) (directoryFile fs) (disk fs)"

definition fetch_free_map :: "FileSystem \<Rightarrow> Bitmap res" where
  "fetch_free_map fs = PersistentBitmap_new (freeMapFile fs) (int (length (disk fs))) (disk fs)"

definition FileSystem_Create :: "byte list \<Rightarrow> int \<Rightarrow> FileSystem \<Rightarrow> (bool \<times> FileSystem) res" where
  "FileSystem_Create nm initialSize fs =
     bindR (fetch_directory fs) (\<lambda>directory.
       if Directory_Find directory nm \<noteq> - 1 then Inr (False, fs)
       else bindR (fetch_free_map fs) (\<lambda>freeMap.
         bindR (Bitmap_FindAndSet freeMap) (\<lambda>(sector, freeMap).
           if sector = - 1 then Inr (False, fs)
           else (case Directory_Add directory nm sector of (added, directory) \<Rightarrow>
             if \<not> added then Inr (False, fs)
             else bindR (FileHeader_Allocate freeMap initialSize FileHeader_new) (\<lambda>(b, hdr, freeMap).
               if \<not> b then Inr (False, fs)
               else bindR (FileHeader_WriteBack hdr sector (disk fs)) (\<lambda>d.
                 bindR (Directory_WriteBack directory (directoryFile fs) d) (\<lambda>d.
                 bindR (PersistentBitmap_WriteBack freeMap (freeMapFile fs) d) (\<lambda>d.
                   Inr (True, fs\<lparr>disk := d\<rparr>)))))))))"

definition FileSystem_OpenAsOpenFile :: "byte list \<Rightarrow> FileSystem \<Rightarrow> OpenFile option res" where
  "FileSystem_OpenAsOpenFile nm fs =
     bindR (fetch_directory fs) (\<lambda>directory.
       let sector = Directory_Find directory nm
       in if sector \<ge> 0 then bindR (OpenFile_new sector (disk fs)) (\<lambda>f. Inr (Some f)) else Inr None)"

definition FileSystem_Open :: "byte list \<Rightarrow> FileSystem \<Rightarrow> (int \<times> FileSystem) res" where
  "FileSystem_Open nm fs =
     bindR (FileSystem_OpenAsOpenFile nm fs) (\<lambda>f.
       Inr (1, fs\<lparr>openedFile := (case f of None \<Rightarrow> NoFile | Some f \<Rightarrow> Opened f)\<rparr>))"

definition opened :: "FileSystem \<Rightarrow> OpenFile res" where
  "opened fs = (case openedFile fs of NoFile \<Rightarrow> Inl NullPointer | Dangling \<Rightarrow> Inl UseAfterFree | Opened f \<Rightarrow> Inr f)"

definition FileSystem_Read :: "int \<Rightarrow> int \<Rightarrow> FileSystem \<Rightarrow> (byte list \<times> FileSystem) res" where
  "FileSystem_Read n ident fs =
     bindR (opened fs) (\<lambda>f. bindR (OpenFile_Read f n (disk fs)) (\<lambda>(bs, f).
       Inr (bs, fs\<lparr>openedFile := Opened f\<rparr>)))"

definition FileSystem_Write :: "byte list \<Rightarrow> int \<Rightarrow> int \<Rightarrow> FileSystem \<Rightarrow> (int \<times> FileSystem) res" where
  "FileSystem_Write buf n ident fs =
     bindR (opened fs) (\<lambda>f. bindR (OpenFile_Write f buf n (disk fs)) (\<lambda>(result, f, d).
       Inr (result, fs\<lparr>openedFile := Opened f, disk := d\<rparr>)))"

definition FileSystem_Close :: "int \<Rightarrow> FileSystem \<Rightarrow> (int \<times> FileSystem) res" where
  "FileSystem_Close ident fs =
     (case openedFile fs of NoFile \<Rightarrow> Inr (1, fs) | Dangling \<Rightarrow> Inl UseAfterFree
      | Opened f \<Rightarrow> Inr (1, fs\<lparr>openedFile := Dangling\<rparr>))"

definition FileSystem_Remove :: "byte list \<Rightarrow> FileSystem \<Rightarrow> (bool \<times> FileSystem) res" where
  "FileSystem_Remove nm fs =
     bindR (fetch_directory fs) (\<lambda>directory.
       let sector = Directory_Find directory nm
       in if sector = - 1 then Inr (False, fs)
          else bindR (FileHeader_FetchFrom sector (disk fs)) (\<lambda>fileHdr.
            bindR (fetch_free_map fs) (\<lambda>freeMap.
            bindR (FileHeader_Deallocate freeMap fileHdr) (\<lambda>freeMap.
            bindR (Bitmap_Clear freeMap sector) (\<lambda>freeMap.
            let directory = snd (Directory_Remove directory nm) in
            bindR (PersistentBitmap_WriteBack freeMap (freeMapFile fs) (disk fs)) (\<lambda>d.
            bindR (Directory_WriteBack directory (directoryFile fs) d) (\<lambda>d.
              Inr (True, fs\<lparr>disk := d\<rparr>))))))))"

definition FileSystem_List :: "FileSystem \<Rightarrow> byte list list res" where
  "FileSystem_List fs = bindR (fetch_directory fs) (\<lambda>directory. Inr (Directory_List directory))"

subsection \<open>Objects on the disk\<close>

definition footprint :: "int \<times> FileHeader \<Rightarrow> int list" where
  "footprint = (\<lambda>(s, h). s # file_sectors h)"

definition stored :: "image \<Rightarrow> int \<Rightarrow> FileHeader \<Rightarrow> bool" where
  "stored d s h \<longleftrightarrow> on_disk d s h \<and> file_ok h d \<and> distinct (footprint (s, h))
     \<and> (\<forall>i\<in>set (footprint (s, h)). 0 \<le> i \<and> i < int (length d))"

lemma stored_frame:
  assumes "stored d s h" "image_ok d'" "length d' = length d"
    "\<And>i. i \<in> set (footprint (s, h)) \<Longrightarrow> d' ! nat i = d ! nat i"
  shows "stored d' s h" "file_bytes h d' = file_bytes h d"
proof -
  have "on_disk d' s h"
    by (rule on_disk_cong [of s h d' d]) (use assms in \<open>auto simp: stored_def footprint_def file_sectors_def\<close>)
  then show "stored d' s h" using assms by (auto simp: stored_def file_ok_def)
  have "map (\<lambda>s. d' ! nat s) (data_sectors h) = map (\<lambda>s. d ! nat s) (data_sectors h)"
    using assms(4) by (auto simp: footprint_def file_sectors_def)
  then have "file_raw h d' = file_raw h d" unfolding file_raw_def by (rule arg_cong)
  then show "file_bytes h d' = file_bytes h d" by (simp add: file_bytes_def)
qed

lemma stored_fetch: "stored d s h \<Longrightarrow> FileHeader_FetchFrom s d = Inr h"
  by (rule FetchFrom_on_disk) (auto simp: stored_def file_ok_def footprint_def file_sectors_def)

lemma stored_open: "stored d s h \<Longrightarrow> OpenFile_new s d = Inr \<lparr>hdr = h, seekPosition = 0\<rparr>"
  by (simp add: OpenFile_new_def stored_fetch)

text \<open>Storing a freshly allocated header.\<close>

lemma store_new:
  assumes "hdr_ok h" "int_fits (hdr_len h + SectorSize)" "distinct (footprint (s, h))"
    "\<forall>i\<in>set (footprint (s, h)). 0 \<le> i \<and> i < int (length d)" "image_ok d"
  shows "\<exists>d'. FileHeader_WriteBack h s d = Inr d' \<and> stored d' s h \<and> image_ok d' \<and> length d' = length d
     \<and> (\<forall>i. 0 \<le> i \<longrightarrow> i \<notin> set (footprint (s, h)) \<longrightarrow> d' ! nat i = d ! nat i)"
proof -
  have "distinct (s # header_sectors h)" "\<forall>i\<in>set (s # header_sectors h). 0 \<le> i \<and> i < int (length d)"
    using assms(3,4) by (auto simp: footprint_def file_sectors_def)
  from WriteBack_eq [OF assms(1) this assms(5)] obtain d' where
    d': "FileHeader_WriteBack h s d = Inr d'" "on_disk d' s h" "length d' = length d" "image_ok d'"
      "\<forall>i. 0 \<le> i \<longrightarrow> i \<notin> set (s # header_sectors h) \<longrightarrow> d' ! nat i = d ! nat i" by blast
  then have "stored d' s h"
    using assms by (auto simp: stored_def file_ok_def footprint_def file_sectors_def)
  with d' show ?thesis by (auto simp: footprint_def file_sectors_def)
qed

lemma distinct_concat_mset:
  assumes "mset xs = mset ys"
  shows "distinct (concat (map f xs)) = distinct (concat (map f ys))"
proof -
  have "mset (concat (map f zs)) = sum_mset (image_mset (\<lambda>x. mset (f x)) (mset zs))" for zs
    by (induction zs) auto
  then have "mset (concat (map f xs)) = mset (concat (map f ys))" using assms by simp
  then show ?thesis by (rule mset_eq_imp_distinct_iff)
qed


subsection \<open>The invariant\<close>

definition objects :: "FileSystem \<Rightarrow> Directory \<Rightarrow> (int \<Rightarrow> FileHeader) \<Rightarrow> (int \<times> FileHeader) list" where
  "objects fs dir H = (FreeMapSector, hdr (freeMapFile fs)) # (DirectorySector, hdr (directoryFile fs))
     # map (\<lambda>(k, s). (s, H s)) (entries dir)"

definition fs_inv :: "FileSystem \<Rightarrow> Directory \<Rightarrow> Bitmap \<Rightarrow> (int \<Rightarrow> FileHeader) \<Rightarrow> bool" where
  "fs_inv fs dir m H \<longleftrightarrow>
     image_ok (disk fs) \<and> length (disk fs) \<le> 2 ^ 24
     \<and> bm_inv m \<and> numBits m = int (length (disk fs)) \<and> dir_inv dir \<and> tableSize dir = NumDirEntries
     \<and> holds (freeMapFile fs) (disk fs) (Bitmap_bytes m)
     \<and> holds (directoryFile fs) (disk fs) (Directory_bytes dir)
     \<and> (\<forall>(s, h)\<in>set (objects fs dir H). stored (disk fs) s h)
     \<and> distinct (concat (map footprint (objects fs dir H)))
     \<and> set (concat (map footprint (objects fs dir H))) \<inter> int ` bm_free m = {}"

text \<open>The abstract view: what a name stands for, and how much room is left.\<close>

definition fs_rep :: "FileSystem \<Rightarrow> (byte list \<Rightarrow> byte list option) \<Rightarrow> nat \<Rightarrow> nat \<Rightarrow> bool" where
  "fs_rep fs files sectors slots \<longleftrightarrow> (\<exists>dir m H. fs_inv fs dir m H
     \<and> sectors = card (bm_free m) \<and> slots = free_slots dir
     \<and> files = (\<lambda>n. map_option (\<lambda>s. file_bytes (H s) (disk fs)) (map_of (entries dir) n)))"

lemma objects_frame:
  "freeMapFile fs' = freeMapFile fs \<Longrightarrow> directoryFile fs' = directoryFile fs \<Longrightarrow>
   objects fs' dir H = objects fs dir H"
  by (simp add: objects_def)

lemma object_file: "(k, s) \<in> set (entries dir) \<Longrightarrow> (s, H s) \<in> set (objects fs dir H)"
  by (force simp: objects_def)

lemma object_tables:
  "(FreeMapSector, hdr (freeMapFile fs)) \<in> set (objects fs dir H)"
  "(DirectorySector, hdr (directoryFile fs)) \<in> set (objects fs dir H)"
  by (simp_all add: objects_def)

lemma fetch_directory_eq:
  "fs_inv fs dir m H \<Longrightarrow> fetch_directory fs = Inr dir"
  unfolding fetch_directory_def fs_inv_def
  by (intro Directory_FetchFrom_eq dir_inv_new) (auto simp: Directory_new_def NumDirEntries_def)

lemma fetch_free_map_eq:
  "fs_inv fs dir m H \<Longrightarrow> fetch_free_map fs = Inr m"
  using PersistentBitmap_new_eq [of "freeMapFile fs" "disk fs" m]
  by (auto simp: fetch_free_map_def fs_inv_def)

lemma entry_sector:
  assumes "fs_inv fs dir m H" "map_of (entries dir) n = Some s"
  shows "stored (disk fs) s (H s)" "0 \<le> s"
proof -
  have "(n, s) \<in> set (entries dir)" using assms(2) by (rule map_of_SomeD)
  with object_file [of n s dir H fs] assms(1) show "stored (disk fs) s (H s)"
    by (auto simp: fs_inv_def)
  then show "0 \<le> s" by (simp add: stored_def footprint_def)
qed

lemma Find_minus1:
  assumes "fs_inv fs dir m H"
  shows "Directory_Find dir nm = - 1 \<longleftrightarrow> map_of (entries dir) (key nm) = None"
    "Directory_Find dir nm \<ge> 0 \<longleftrightarrow> map_of (entries dir) (key nm) \<noteq> None"
proof -
  have "dir_inv dir" using assms by (simp add: fs_inv_def)
  note f = Find_eq [OF this, of nm]
  show "Directory_Find dir nm = - 1 \<longleftrightarrow> map_of (entries dir) (key nm) = None"
    "Directory_Find dir nm \<ge> 0 \<longleftrightarrow> map_of (entries dir) (key nm) \<noteq> None"
    using f entry_sector(2) [OF assms, of "key nm"] by (auto simp: dir_map_def split: option.splits)
qed

text \<open>
  Different objects have disjoint footprints.
\<close>

lemma distinct_concat_disjoint:
  "distinct (concat (map f xs)) \<Longrightarrow> x \<in> set xs \<Longrightarrow> y \<in> set xs \<Longrightarrow> x \<noteq> y \<Longrightarrow> set (f x) \<inter> set (f y) = {}"
proof (induction xs)
  case (Cons z xs)
  then show ?case by (auto simp: disjoint_iff)
qed simp

lemma disjoint_objects:
  assumes "fs_inv fs dir m H" "(s, h) \<in> set (objects fs dir H)" "(t, g) \<in> set (objects fs dir H)" "s \<noteq> t"
  shows "set (footprint (s, h)) \<inter> set (footprint (t, g)) = {}"
  using distinct_concat_disjoint [of footprint "objects fs dir H" "(s, h)" "(t, g)"] assms
  by (simp add: fs_inv_def)

subsection \<open>Opening\<close>

lemma OpenAsOpenFile_eq:
  assumes "fs_inv fs dir m H"
  shows "FileSystem_OpenAsOpenFile nm fs =
     Inr (map_option (\<lambda>s. \<lparr>hdr = H s, seekPosition = 0\<rparr>) (map_of (entries dir) (key nm)))"
proof (cases "map_of (entries dir) (key nm)")
  case None
  then show ?thesis
    using Find_minus1 [OF assms, of nm]
    by (simp add: FileSystem_OpenAsOpenFile_def fetch_directory_eq [OF assms])
next
  case (Some s)
  have "dir_inv dir" using assms by (simp add: fs_inv_def)
  with Some have "Directory_Find dir nm = s" by (simp add: Find_eq dir_map_def)
  with Some Find_minus1(2) [OF assms, of nm] stored_open [OF entry_sector(1) [OF assms Some]] show ?thesis
    by (simp add: FileSystem_OpenAsOpenFile_def fetch_directory_eq [OF assms])
qed


subsection \<open>Writing one object leaves the others\<close>

definition obj_ok :: "image \<Rightarrow> (int \<times> FileHeader) list \<Rightarrow> bool" where
  "obj_ok d objs \<longleftrightarrow> (\<forall>(s, h)\<in>set objs. stored d s h) \<and> distinct (concat (map footprint objs))"

lemma obj_write:
  assumes "obj_ok d objs" "(t, g) \<in> set objs" "image_ok d'" "length d' = length d"
    "\<forall>j. 0 \<le> j \<and> j \<notin> set (data_sectors g) \<longrightarrow> d' ! nat j = d ! nat j"
  shows "obj_ok d' objs" "(s, h) \<in> set objs \<Longrightarrow> s \<noteq> t \<Longrightarrow> file_bytes h d' = file_bytes h d"
proof -
  have other: "stored d' s h \<and> file_bytes h d' = file_bytes h d" if o: "(s, h) \<in> set objs" "(s, h) \<noteq> (t, g)" for s h
  proof -
    have st: "stored d s h" using assms(1) o(1) by (auto simp: obj_ok_def)
    have "set (footprint (s, h)) \<inter> set (footprint (t, g)) = {}"
      using distinct_concat_disjoint [of footprint objs] assms(1,2) o by (auto simp: obj_ok_def)
    then have "i \<notin> set (data_sectors g)" if "i \<in> set (footprint (s, h))" for i
      using that by (auto simp: footprint_def file_sectors_def)
    then have "d' ! nat i = d ! nat i" if "i \<in> set (footprint (s, h))" for i
      using that assms(5) st by (auto simp: stored_def)
    from stored_frame [OF st assms(3,4) this] show ?thesis by simp
  qed
  have self: "stored d' t g"
  proof -
    have st: "stored d t g" using assms(1,2) by (auto simp: obj_ok_def)
    have "d' ! nat i = d ! nat i" if "i \<in> set (t # header_sectors g)" for i
    proof -
      have "i \<notin> set (data_sectors g)" "0 \<le> i"
        using st that by (auto simp: stored_def footprint_def file_sectors_def)
      then show ?thesis using assms(5) by simp
    qed
    then have "on_disk d' t g" using on_disk_cong [of t g d' d] assms(4) st by (auto simp: stored_def)
    then show ?thesis using st assms(3,4) by (auto simp: stored_def file_ok_def)
  qed
  show "obj_ok d' objs" using assms(1) other self by (fastforce simp: obj_ok_def)
  show "(s, h) \<in> set objs \<Longrightarrow> s \<noteq> t \<Longrightarrow> file_bytes h d' = file_bytes h d" using other by auto
qed

lemma obj_file_ok: "obj_ok d objs \<Longrightarrow> (s, h) \<in> set objs \<Longrightarrow> file_ok h d"
  by (auto simp: obj_ok_def stored_def)

lemma holds_image_ok: "holds f d bs \<Longrightarrow> image_ok d"
  by (simp add: holds_def file_ok_def)

text \<open>
  The two tables written one after the other, in either order: all objects stay stored, and the
  contents of the files (the objects behind the first two) stay what they were.
\<close>

definition flushed :: "FileSystem \<Rightarrow> Directory \<Rightarrow> Bitmap \<Rightarrow> (int \<times> FileHeader) list \<Rightarrow> image \<Rightarrow> image \<Rightarrow> bool" where
  "flushed fs dir m objs d d' \<longleftrightarrow> obj_ok d' objs \<and> length d' = length d \<and> image_ok d'
     \<and> holds (freeMapFile fs) d' (Bitmap_bytes m) \<and> holds (directoryFile fs) d' (Directory_bytes dir)
     \<and> (\<forall>(s, h)\<in>set objs. s \<noteq> FreeMapSector \<and> s \<noteq> DirectorySector \<longrightarrow> file_bytes h d' = file_bytes h d)"

lemma holds_frame: "holds f d bs \<Longrightarrow> file_ok (hdr f) d' \<Longrightarrow> file_bytes (hdr f) d' = file_bytes (hdr f) d \<Longrightarrow> holds f d' bs"
  by (simp add: holds_def)

lemma flush_dir_map:
  assumes "obj_ok d objs" "(FreeMapSector, hdr (freeMapFile fs)) \<in> set objs"
    "(DirectorySector, hdr (directoryFile fs)) \<in> set objs"
    "dir_inv dir" "bm_inv m" "hdr_len (hdr (directoryFile fs)) = tableSize dir * entry_size"
    "hdr_len (hdr (freeMapFile fs)) = numWords m * 4"
  shows "\<exists>d1 d'. Directory_WriteBack dir (directoryFile fs) d = Inr d1
     \<and> PersistentBitmap_WriteBack m (freeMapFile fs) d1 = Inr d' \<and> flushed fs dir m objs d d'"
proof -
  from Directory_WriteBack_eq [OF assms(4) obj_file_ok [OF assms(1,3)] assms(6)] obtain d1 where
    d1: "Directory_WriteBack dir (directoryFile fs) d = Inr d1" "holds (directoryFile fs) d1 (Directory_bytes dir)"
      "length d1 = length d"
      "\<forall>j. 0 \<le> j \<and> j \<notin> set (data_sectors (hdr (directoryFile fs))) \<longrightarrow> d1 ! nat j = d ! nat j" by blast
  note o1 = obj_write [OF assms(1,3) holds_image_ok [OF d1(2)] d1(3,4)]
  from Bitmap_WriteBack_eq [OF assms(5) obj_file_ok [OF o1(1) assms(2)] assms(7)] obtain d' where
    d': "PersistentBitmap_WriteBack m (freeMapFile fs) d1 = Inr d'" "holds (freeMapFile fs) d' (Bitmap_bytes m)"
      "length d' = length d1"
      "\<forall>j. 0 \<le> j \<and> j \<notin> set (data_sectors (hdr (freeMapFile fs))) \<longrightarrow> d' ! nat j = d1 ! nat j" by blast
  note o2 = obj_write [OF o1(1) assms(2) holds_image_ok [OF d'(2)] d'(3,4)]
  have "holds (directoryFile fs) d' (Directory_bytes dir)"
    using holds_frame [OF d1(2) obj_file_ok [OF o2(1) assms(3)] o2(2) [OF assms(3)]]
    by (simp add: DirectorySector_def FreeMapSector_def)
  then have "flushed fs dir m objs d d'"
    using o1(2) o2 d1(3) d'(2,3) holds_image_ok [OF d'(2)] unfolding flushed_def by (auto 4 3)
  with d1(1) d'(1) show ?thesis by blast
qed

lemma flush_map_dir:
  assumes "obj_ok d objs" "(FreeMapSector, hdr (freeMapFile fs)) \<in> set objs"
    "(DirectorySector, hdr (directoryFile fs)) \<in> set objs"
    "dir_inv dir" "bm_inv m" "hdr_len (hdr (directoryFile fs)) = tableSize dir * entry_size"
    "hdr_len (hdr (freeMapFile fs)) = numWords m * 4"
  shows "\<exists>d1 d'. PersistentBitmap_WriteBack m (freeMapFile fs) d = Inr d1
     \<and> Directory_WriteBack dir (directoryFile fs) d1 = Inr d' \<and> flushed fs dir m objs d d'"
proof -
  from Bitmap_WriteBack_eq [OF assms(5) obj_file_ok [OF assms(1,2)] assms(7)] obtain d1 where
    d1: "PersistentBitmap_WriteBack m (freeMapFile fs) d = Inr d1" "holds (freeMapFile fs) d1 (Bitmap_bytes m)"
      "length d1 = length d"
      "\<forall>j. 0 \<le> j \<and> j \<notin> set (data_sectors (hdr (freeMapFile fs))) \<longrightarrow> d1 ! nat j = d ! nat j" by blast
  note o1 = obj_write [OF assms(1,2) holds_image_ok [OF d1(2)] d1(3,4)]
  from Directory_WriteBack_eq [OF assms(4) obj_file_ok [OF o1(1) assms(3)] assms(6)] obtain d' where
    d': "Directory_WriteBack dir (directoryFile fs) d1 = Inr d'" "holds (directoryFile fs) d' (Directory_bytes dir)"
      "length d' = length d1"
      "\<forall>j. 0 \<le> j \<and> j \<notin> set (data_sectors (hdr (directoryFile fs))) \<longrightarrow> d' ! nat j = d1 ! nat j" by blast
  note o2 = obj_write [OF o1(1) assms(3) holds_image_ok [OF d'(2)] d'(3,4)]
  have "holds (freeMapFile fs) d' (Bitmap_bytes m)"
    using holds_frame [OF d1(2) obj_file_ok [OF o2(1) assms(2)] o2(2) [OF assms(2)]]
    by (simp add: DirectorySector_def FreeMapSector_def)
  then have "flushed fs dir m objs d d'"
    using o1(2) o2 d1(3) d'(2,3) holds_image_ok [OF d'(2)] unfolding flushed_def by (auto 4 3)
  with d1(1) d'(1) show ?thesis by blast
qed

text \<open>The sizes of the two table files never change.\<close>

lemma table_sizes:
  assumes "fs_inv fs dir m H"
  shows "hdr_len (hdr (directoryFile fs)) = NumDirEntries * entry_size"
    "hdr_len (hdr (freeMapFile fs)) = numWords m * 4"
proof -
  show "hdr_len (hdr (directoryFile fs)) = NumDirEntries * entry_size"
    using assms length_Directory_bytes [of dir] by (simp add: fs_inv_def holds_def)
  have "0 \<le> numWords m" using assms divRoundUp_nonneg [of "numBits m" 32]
    by (auto simp: fs_inv_def bm_inv_def BitsInWord_def)
  then show "hdr_len (hdr (freeMapFile fs)) = numWords m * 4"
    using assms length_Bitmap_bytes [of m] by (simp add: fs_inv_def holds_def bm_inv_def)
qed

lemma fs_inv_intro:
  assumes "flushed fs dir' m' (objects fs dir' H') d1 d'" "length d1 = length (disk fs)" "fs_inv fs dir m H"
    "bm_inv m'" "numBits m' = numBits m" "dir_inv dir'" "tableSize dir' = tableSize dir"
    "set (concat (map footprint (objects fs dir' H'))) \<inter> int ` bm_free m' = {}"
  shows "fs_inv (fs\<lparr>disk := d'\<rparr>) dir' m' H'"
  using assms objects_frame [of "fs\<lparr>disk := d'\<rparr>" fs]
  unfolding fs_inv_def flushed_def obj_ok_def by simp


text \<open>No two objects share a header sector.\<close>

lemma distinct_headers: "distinct (concat (map footprint objs)) \<Longrightarrow> distinct (map fst objs)"
proof (induction objs)
  case (Cons x objs)
  have "fst x \<notin> fst ` set objs"
  proof
    assume "fst x \<in> fst ` set objs"
    then obtain y where y: "y \<in> set objs" "fst y = fst x" by force
    have "fst x \<in> set (footprint x)" "fst y \<in> set (footprint y)"
      by (simp_all add: footprint_def case_prod_beta')
    with Cons.prems y show False by auto
  qed
  with Cons show ?case by simp
qed simp

lemma entry_sectors:
  assumes "fs_inv fs dir m H"
  shows "distinct (map snd (entries dir))" "FreeMapSector \<notin> snd ` set (entries dir)"
    "DirectorySector \<notin> snd ` set (entries dir)"
proof -
  have "distinct (map fst (objects fs dir H))" using assms distinct_headers by (simp add: fs_inv_def)
  moreover have "map fst (objects fs dir H) = FreeMapSector # DirectorySector # map snd (entries dir)"
    by (simp add: objects_def comp_def case_prod_beta')
  ultimately show "distinct (map snd (entries dir))" "FreeMapSector \<notin> snd ` set (entries dir)"
    "DirectorySector \<notin> snd ` set (entries dir)" by auto
qed

lemma entry_not_table:
  "fs_inv fs dir m H \<Longrightarrow> (k, t) \<in> set (entries dir) \<Longrightarrow> t \<noteq> FreeMapSector \<and> t \<noteq> DirectorySector"
  using entry_sectors(2,3) by force

subsection \<open>Creating a file\<close>

lemma nat_image_inj:
  assumes "S \<subseteq> int ` F"
  shows "inj_on nat S" "nat ` S \<subseteq> F"
proof -
  have e: "\<exists>i. x = int i \<and> i \<in> F" if "x \<in> S" for x using assms that by blast
  show "inj_on nat S"
  proof (rule inj_onI)
    fix x y assume "x \<in> S" "y \<in> S" "nat x = nat y"
    with e [of x] e [of y] show "x = y" by fastforce
  qed
  show "nat ` S \<subseteq> F" using e by fastforce
qed

lemma allocated_card:
  assumes "allocated m n h m'"
  shows "card (nat ` set (file_sectors h)) = sectors_needed (nat n)" "nat ` set (file_sectors h) \<subseteq> bm_free m"
    "card (bm_free m') = card (bm_free m) - sectors_needed (nat n)"
proof -
  have a: "set (file_sectors h) \<subseteq> int ` bm_free m" "distinct (file_sectors h)"
    "length (file_sectors h) = sectors_needed (nat n)" "bm_free m' = bm_free m - nat ` set (file_sectors h)"
    using assms by (simp_all add: allocated_def)
  show c: "card (nat ` set (file_sectors h)) = sectors_needed (nat n)"
    using card_image [OF nat_image_inj(1) [OF a(1)]] distinct_card [OF a(2)] a(3) by simp
  show s: "nat ` set (file_sectors h) \<subseteq> bm_free m" by (rule nat_image_inj(2) [OF a(1)])
  show "card (bm_free m') = card (bm_free m) - sectors_needed (nat n)"
    unfolding a(4) using card_Diff_subset [OF _ s] c by simp
qed

lemma footprint_allocated:
  assumes "allocated m n h m'" "i \<notin> bm_free m" "bm_free m \<subseteq> bm_free m0" "i \<in> bm_free m0"
  shows "distinct (footprint (int i, h))" "set (footprint (int i, h)) \<subseteq> int ` bm_free m0"
proof -
  have sub: "set (file_sectors h) \<subseteq> int ` bm_free m" "distinct (file_sectors h)"
    using assms(1) by (simp_all add: allocated_def)
  have "int i \<notin> int ` bm_free m" using assms(2) by (metis imageE of_nat_eq_iff)
  with sub(1) have "int i \<notin> set (file_sectors h)" by (rule contra_subsetD)
  then show "distinct (footprint (int i, h))" using sub(2) by (simp add: footprint_def)
  have "set (file_sectors h) \<subseteq> int ` bm_free m0" using sub(1) image_mono [OF assms(3), of int] by (rule subset_trans)
  then show "set (footprint (int i, h)) \<subseteq> int ` bm_free m0" using assms(4) by (simp add: footprint_def)
qed

lemma objects_add:
  assumes "mset (entries dir') = add_mset (k, s) (mset (entries dir))"
    "\<forall>(k', s')\<in>set (entries dir). s' \<noteq> s"
  shows "mset (objects fs dir' (H(s := h))) = add_mset (s, h) (mset (objects fs dir H))"
proof -
  have "image_mset (\<lambda>(k, t). (t, (H(s := h)) t)) (mset (entries dir)) = image_mset (\<lambda>(k, t). (t, H t)) (mset (entries dir))"
    by (rule image_mset_cong) (use assms(2) in auto)
  then show ?thesis
    using assms(1) by (simp add: objects_def case_prod_beta')
qed

text \<open>The new object joins those already there.\<close>

lemma obj_ok_add:
  assumes "obj_ok d objs" "stored d' s h" "image_ok d'" "length d' = length d"
    "\<forall>i. 0 \<le> i \<longrightarrow> i \<notin> set (footprint (s, h)) \<longrightarrow> d' ! nat i = d ! nat i"
    "set (footprint (s, h)) \<inter> set (concat (map footprint objs)) = {}"
    "mset objs' = add_mset (s, h) (mset objs)"
  shows "obj_ok d' objs'" "\<forall>(t, g)\<in>set objs. file_bytes g d' = file_bytes g d"
proof -
  have old: "stored d' t g \<and> file_bytes g d' = file_bytes g d" if "(t, g) \<in> set objs" for t g
  proof -
    have st: "stored d t g" using assms(1) that by (auto simp: obj_ok_def)
    have "set (footprint (t, g)) \<inter> set (footprint (s, h)) = {}" using assms(6) that by auto
    then have "d' ! nat i = d ! nat i" if "i \<in> set (footprint (t, g))" for i
      using assms(5) that st by (auto simp: stored_def)
    from stored_frame [OF st assms(3,4) this] show ?thesis by simp
  qed
  then show "\<forall>(t, g)\<in>set objs. file_bytes g d' = file_bytes g d" by auto
  have perm: "mset objs' = mset ((s, h) # objs)" using assms(7) by simp
  have "distinct (concat (map footprint ((s, h) # objs)))"
    using assms(1,2,6) by (simp add: obj_ok_def stored_def)
  then have "distinct (concat (map footprint objs'))" using distinct_concat_mset [OF perm] by blast
  moreover have "set objs' = insert (s, h) (set objs)"
    using arg_cong [OF perm, of set_mset] by simp
  ultimately show "obj_ok d' objs'" using old assms(2) by (auto simp: obj_ok_def)
qed

lemma fs_inv_obj_ok: "fs_inv fs dir m H \<Longrightarrow> obj_ok (disk fs) (objects fs dir H)"
  by (auto simp: fs_inv_def obj_ok_def)

lemma concat_footprints_mset:
  "mset objs' = add_mset o1 (mset objs) \<Longrightarrow>
   set (concat (map footprint objs')) = set (footprint o1) \<union> set (concat (map footprint objs))"
  by (drule arg_cong [where f = set_mset]) auto

lemma Create_ok:
  assumes inv: "fs_inv fs dir m H" and new: "map_of (entries dir) (key nm) = None"
    and room: "0 < free_slots dir" "1 + sectors_needed n0 \<le> card (bm_free m)"
    and fits: "int_fits (int n0 + SectorSize)"
  shows "\<exists>fs' dir' m' s h. FileSystem_Create nm (int n0) fs = Inr (True, fs')
     \<and> fs_inv fs' dir' m' (H(s := h)) \<and> hdr_len h = int n0
     \<and> mset (entries dir') = add_mset (key nm, s) (mset (entries dir))
     \<and> free_slots dir' = free_slots dir - 1 \<and> card (bm_free m') = card (bm_free m) - (1 + sectors_needed n0)
     \<and> (\<forall>(k, t)\<in>set (entries dir). t \<noteq> s \<and> file_bytes (H t) (disk fs') = file_bytes (H t) (disk fs))"
proof -
  have bm: "bm_inv m" and di: "dir_inv dir" "tableSize dir = NumDirEntries"
    and n: "numBits m = int (length (disk fs))" "length (disk fs) \<le> 2 ^ 24" and img: "image_ok (disk fs)"
    using inv by (simp_all add: fs_inv_def)
  have bsize: "bm_size m = length (disk fs)" using n(1) by (simp add: bm_size_def)
  have "bm_free m \<noteq> {}" using room(2) by auto
  from FindAndSet_sector [OF bm this] obtain i m1 where
    i: "Bitmap_FindAndSet m = Inr (int i, m1)" "i \<in> bm_free m" "bm_inv m1" "bm_size m1 = bm_size m"
      "bm_free m1 = bm_free m - {i}" "card (bm_free m1) = card (bm_free m) - 1" by blast
  have irange: "i < length (disk fs)" using bm_free_bounded [OF i(2)] bsize by simp
  have "dir_map dir nm = None" using new by (simp add: dir_map_def)
  moreover have "int_fits (int i)" using irange n(2) by (simp add: int_fits_def)
  ultimately obtain dir' where dir': "Directory_Add dir nm (int i) = (True, dir')" "dir_inv dir'"
    "tableSize dir' = tableSize dir" "mset (entries dir') = add_mset (key nm, int i) (mset (entries dir))"
    using Add_ok [OF di(1) _ room(1)] by blast
  obtain nb ns ds nx nh where hn: "FileHeader_new = FH nb ns ds nx nh" by (cases FileHeader_new)
  have "sectors_needed n0 \<le> card (bm_free m1)" using room(2) i(6) by simp
  moreover have "int_fits (int n0)" using fits by (auto simp: int_fits_def SectorSize_def)
  moreover have "bm_size m1 \<le> 2 ^ 31" using i(4) bsize n(2) by simp
  ultimately obtain h m2 where
    h: "FileHeader_Allocate m1 (int n0) FileHeader_new = Inr (True, h, m2)" "allocated m1 (int n0) h m2"
    using Allocate_eq [OF i(3) _ blank_new [OF hn], of n0 nb ns nh] unfolding hn by auto
  note fp = footprint_allocated [OF h(2), of i m, unfolded i(5)]
  have fp: "distinct (footprint (int i, h))" "set (footprint (int i, h)) \<subseteq> int ` bm_free m"
    using fp i(2) by auto
  have "\<forall>j\<in>set (footprint (int i, h)). 0 \<le> j \<and> j < int (length (disk fs))"
    using fp(2) bm_free_bounded bsize by fastforce
  moreover have "hdr_ok h" "int_fits (hdr_len h + SectorSize)" using h(2) fits by (auto simp: allocated_def)
  ultimately obtain d1 where
    d1: "FileHeader_WriteBack h (int i) (disk fs) = Inr d1" "stored d1 (int i) h" "image_ok d1"
      "length d1 = length (disk fs)"
      "\<forall>j. 0 \<le> j \<longrightarrow> j \<notin> set (footprint (int i, h)) \<longrightarrow> d1 ! nat j = disk fs ! nat j"
    using store_new [OF _ _ fp(1) _ img] by blast
  let ?H = "H(int i := h)" and ?old = "objects fs dir H" and ?new = "objects fs dir' (H(int i := h))"
  have free_old: "set (concat (map footprint ?old)) \<inter> int ` bm_free m = {}"
    using inv by (simp add: fs_inv_def)
  have notin: "\<forall>(k, t)\<in>set (entries dir). t \<noteq> int i"
  proof clarify
    fix k assume "(k, int i) \<in> set (entries dir)"
    from object_file [OF this, of H fs] have "int i \<in> set (concat (map footprint ?old))"
      by (force simp: footprint_def)
    with free_old i(2) show False by auto
  qed
  note ms = objects_add [OF dir'(4) notin, of fs H h]
  have disj: "set (footprint (int i, h)) \<inter> set (concat (map footprint ?old)) = {}"
    using fp(2) free_old by blast
  note ok = obj_ok_add [OF fs_inv_obj_ok [OF inv] d1(2-5) disj ms]
  have bm2: "bm_inv m2" "bm_size m2 = bm_size m" using h(2) i(4) by (simp_all add: allocated_def)
  have nb2: "numBits m2 = numBits m" using bm2 bm by (simp add: bm_size_def bm_inv_def eq_nat_nat_iff)
  then have "numWords m2 = numWords m" using bm2(1) bm by (simp add: bm_inv_def)
  with flush_dir_map [OF ok(1) object_tables dir'(2) bm2(1)] table_sizes [OF inv] dir'(3) di(2)
  obtain d2 d3 where
    fl: "Directory_WriteBack dir' (directoryFile fs) d1 = Inr d2"
      "PersistentBitmap_WriteBack m2 (freeMapFile fs) d2 = Inr d3" "flushed fs dir' m2 ?new d1 d3"
    by auto
  have "set (concat (map footprint ?new)) \<inter> int ` bm_free m2 = {}"
    unfolding concat_footprints_mset [OF ms]
  proof -
    have free2: "bm_free m2 = bm_free m - {i} - nat ` set (file_sectors h)"
      using h(2) i(5) by (simp add: allocated_def)
    have "x \<notin> int ` bm_free m2" if "x \<in> set (footprint (int i, h))" for x
    proof
      assume "x \<in> int ` bm_free m2"
      then obtain j where j: "x = int j" "j \<noteq> i" "j \<notin> nat ` set (file_sectors h)"
        unfolding free2 by auto
      with that have "int j \<in> set (file_sectors h)" by (auto simp: footprint_def)
      with j(3) show False by (metis image_eqI nat_int)
    qed
    moreover have "int ` bm_free m2 \<subseteq> int ` bm_free m" unfolding free2 by auto
    ultimately show "(set (footprint (int i, h)) \<union> set (concat (map footprint ?old))) \<inter> int ` bm_free m2 = {}"
      using free_old by (auto simp only: disjoint_iff Un_iff)
  qed
  then have inv': "fs_inv (fs\<lparr>disk := d3\<rparr>) dir' m2 ?H"
    using fs_inv_intro [OF fl(3) d1(4) inv _ nb2 dir'(2,3)] h(2) by (simp add: allocated_def)
  have "FileSystem_Create nm (int n0) fs = Inr (True, fs\<lparr>disk := d3\<rparr>)"
    using Find_minus1(1) [OF inv, of nm] new i(1) dir'(1) h(1) d1(1) fl(1,2)
    by (simp add: FileSystem_Create_def fetch_directory_eq [OF inv] fetch_free_map_eq [OF inv])
  moreover have "file_bytes (H t) d3 = file_bytes (H t) (disk fs)" if t: "(k, t) \<in> set (entries dir)" for k t
  proof -
    note o = object_file [OF t, of H fs]
    have "(t, H t) \<in> set ?new"
      using o arg_cong [OF ms, of set_mset] by auto
    then have "file_bytes (H t) d3 = file_bytes (H t) d1"
      using fl(3) entry_not_table [OF inv t] unfolding flushed_def by blast
    moreover have "file_bytes (H t) d1 = file_bytes (H t) (disk fs)" using ok(2) o by blast
    ultimately show ?thesis by simp
  qed
  moreover have "free_slots dir' = free_slots dir - 1"
    using free_slots_entries [OF di(1)] free_slots_entries [OF dir'(2)] dir'(3) arg_cong [OF dir'(4), of size] by simp
  moreover have "card (bm_free m2) = card (bm_free m) - (1 + sectors_needed n0)"
    using allocated_card(3) [OF h(2)] i(6) by simp
  ultimately show ?thesis
    using inv' h(2) dir'(4) notin
    by (intro exI [of _ "fs\<lparr>disk := d3\<rparr>"] exI [of _ dir'] exI [of _ m2] exI [of _ "int i"] exI [of _ h])
       (auto simp: allocated_def)
qed

end
