(* ===== verification/FileSysLaws.thy ===== *)
theory FileSysLaws
  imports FileSys
begin

text \<open>
  What the operations of \<^verbatim>\<open>filesys/filesys.cc\<close> do to the abstract file system \<open>fs_rep\<close>: a map from
  names to contents, the number of free sectors and the number of free directory entries. Creating,
  opening, writing, removing and formatting, with every way they fail.
\<close>

subsection \<open>Creating a file fails\<close>

lemma Create_fails:
  assumes inv: "fs_inv fs dir m H" and fits: "int_fits (int n0)"
    and no: "map_of (entries dir) (key nm) \<noteq> None \<or> free_slots dir = 0 \<or> card (bm_free m) < 1 + sectors_needed n0"
  shows "FileSystem_Create nm (int n0) fs = Inr (False, fs)"
proof (cases "map_of (entries dir) (key nm) = None")
  case False
  with Find_minus1(1) [OF inv, of nm] show ?thesis
    by (simp add: FileSystem_Create_def fetch_directory_eq [OF inv])
next
  case True
  have bm: "bm_inv m" and di: "dir_inv dir" and n: "numBits m = int (length (disk fs))" "length (disk fs) \<le> 2 ^ 24"
    using inv by (simp_all add: fs_inv_def)
  have find: "Directory_Find dir nm = - 1" using Find_minus1(1) [OF inv, of nm] True by simp
  note start = FileSystem_Create_def fetch_directory_eq [OF inv] fetch_free_map_eq [OF inv] find
  show ?thesis
  proof (cases "bm_free m = {}")
    case True
    then show ?thesis by (simp add: start FindAndSet_eq [OF bm])
  next
    case False
    from FindAndSet_sector [OF bm False] obtain i m1 where
      i: "Bitmap_FindAndSet m = Inr (int i, m1)" "i \<in> bm_free m" "bm_inv m1" "bm_size m1 = bm_size m"
        "bm_free m1 = bm_free m - {i}" "card (bm_free m1) = card (bm_free m) - 1" by blast
    show ?thesis
    proof (cases "free_slots dir = 0")
      case True
      with Add_full [OF di] i(1) show ?thesis by (simp add: start)
    next
      case False
      have pos: "0 < card (bm_free m)" using i(2) by (auto simp: card_gt_0_iff)
      have few: "card (bm_free m) < 1 + sectors_needed n0" using no \<open>map_of _ _ = None\<close> False by simp
      have less: "\<not> sectors_needed n0 \<le> card (bm_free m1)" using few pos i(6) by linarith
      have "int_fits (int i)" using bm_free_bounded [OF i(2)] n by (simp add: int_fits_def bm_size_def)
      moreover have "dir_map dir nm = None" using \<open>map_of _ _ = None\<close> by (simp add: dir_map_def)
      ultimately obtain dir' where dir': "Directory_Add dir nm (int i) = (True, dir')"
        using Add_ok [OF di] False by blast
      obtain nb ns ds nx nh where hn: "FileHeader_new = FH nb ns ds nx nh" by (cases FileHeader_new)
      have "bm_size m1 \<le> 2 ^ 31" using i(4) n by (simp add: bm_size_def)
      then obtain h m2 where "FileHeader_Allocate m1 (int n0) FileHeader_new = Inr (False, h, m2)"
        using Allocate_eq [OF i(3) _ blank_new [OF hn] fits, of nb ns nh] less unfolding hn by auto
      with i(1) dir' show ?thesis by (simp add: start)
    qed
  qed
qed

subsection \<open>Removing a file\<close>

lemma objects_remove:
  assumes "add_mset (k, s) (mset (entries dir')) = mset (entries dir)"
  shows "mset (objects fs dir H) = add_mset (s, H s) (mset (objects fs dir' H))"
  by (simp add: objects_def assms [symmetric])

lemma Remove_absent_eq:
  assumes "fs_inv fs dir m H" "map_of (entries dir) (key nm) = None"
  shows "FileSystem_Remove nm fs = Inr (False, fs)"
  using Find_minus1(1) [OF assms(1), of nm] assms(2)
  by (simp add: FileSystem_Remove_def fetch_directory_eq [OF assms(1)])

lemma int_image_diff: "S \<subseteq> int ` {..<n} \<Longrightarrow> S \<inter> int ` F = {} \<Longrightarrow> S \<subseteq> int ` ({..<n} - F)"
  by blast

lemma nonneg_range: "(\<And>i. i \<in> S \<Longrightarrow> 0 \<le> i \<and> i < int n) \<Longrightarrow> S \<subseteq> int ` {..<n}"
proof
  fix x assume *: "\<And>i. i \<in> S \<Longrightarrow> 0 \<le> i \<and> i < int n" "x \<in> S"
  then have "0 \<le> x" "x < int n" by auto
  then have "x = int (nat x)" "nat x < n" by (simp_all add: nat_less_iff)
  then show "x \<in> int ` {..<n}" by blast
qed

text \<open>The sectors that become free are those of the data and of the first header.\<close>

lemma Remove_frees:
  assumes "stored d s h" "bm_inv m" "bm_size m = length d" "set (footprint (s, h)) \<inter> int ` bm_free m = {}"
  shows "\<exists>m1 m'. FileHeader_Deallocate m h = Inr m1 \<and> Bitmap_Clear m1 s = Inr m' \<and> bm_inv m' \<and> bm_size m' = bm_size m
     \<and> bm_free m' = bm_free m \<union> nat ` set (s # data_sectors h)
     \<and> card (bm_free m') = card (bm_free m) + 1 + length (data_sectors h)"
proof -
  have h: "hdr_ok h" "distinct (s # data_sectors h)" using assms(1)
    by (auto simp: stored_def file_ok_def footprint_def file_sectors_def)
  have r: "set (s # data_sectors h) \<subseteq> int ` {..<bm_size m}"
    by (rule nonneg_range) (use assms(1,3) in \<open>auto simp: stored_def footprint_def file_sectors_def\<close>)
  have d: "set (s # data_sectors h) \<inter> int ` bm_free m = {}"
    using assms(4) by (auto simp: footprint_def file_sectors_def)
  note sub = int_image_diff [OF r d]
  have "set (data_sectors h) \<subseteq> int ` ({..<bm_size m} - bm_free m)" using sub by simp
  from Deallocate_eq [OF h(1) assms(2) _ this] h(2) obtain m1 where
    m1: "FileHeader_Deallocate m h = Inr m1" "bm_inv m1" "bm_size m1 = bm_size m"
      "bm_free m1 = bm_free m \<union> nat ` set (data_sectors h)" by auto
  obtain i where i: "s = int i" "i < bm_size m" using r by auto
  let ?new = "nat ` set (s # data_sectors h)"
  have free: "bm_free (bm_clear m1 i) = bm_free m \<union> ?new"
    using m1 i by simp
  have "card (bm_free m \<union> ?new) = card (bm_free m) + card ?new"
  proof (rule card_Un_disjoint)
    show "bm_free m \<inter> ?new = {}" using sub by auto
  qed auto
  moreover have "card ?new = 1 + length (data_sectors h)"
    using card_image [OF nat_image_inj(1) [OF sub]] distinct_card [OF h(2)] by simp
  ultimately have card: "card (bm_free (bm_clear m1 i)) = card (bm_free m) + 1 + length (data_sectors h)"
    unfolding free by simp
  have "Bitmap_Clear m1 s = Inr (bm_clear m1 i)" "bm_inv (bm_clear m1 i)" "bm_size (bm_clear m1 i) = bm_size m"
    using Bitmap_Clear_eq [OF m1(2), of i] i m1 by simp_all
  with m1(1) free card show ?thesis by blast
qed

lemma FileSys_Remove_ok:
  assumes inv: "fs_inv fs dir m H" and there: "map_of (entries dir) (key nm) = Some s"
  shows "\<exists>fs' dir' m'. FileSystem_Remove nm fs = Inr (True, fs') \<and> fs_inv fs' dir' m' H
     \<and> add_mset (key nm, s) (mset (entries dir')) = mset (entries dir)
     \<and> free_slots dir' = free_slots dir + 1
     \<and> card (bm_free m') = card (bm_free m) + 1 + length (data_sectors (H s))
     \<and> (\<forall>(k, t)\<in>set (entries dir'). file_bytes (H t) (disk fs') = file_bytes (H t) (disk fs))"
proof -
  have bm: "bm_inv m" and di: "dir_inv dir" "tableSize dir = NumDirEntries"
    and n: "numBits m = int (length (disk fs))"
    using inv by (simp_all add: fs_inv_def)
  have bsize: "bm_size m = length (disk fs)" using n by (simp add: bm_size_def)
  note st = entry_sector [OF inv there]
  have find: "Directory_Find dir nm = s" using Find_eq [OF di(1)] there by (simp add: dir_map_def)
  have s: "s \<noteq> - 1" using st(2) by simp
  have "dir_map dir nm = Some s" using there by (simp add: dir_map_def)
  from Directory_Remove_ok [OF di(1) this] obtain dir' where
    dir': "Directory_Remove dir nm = (True, dir')" "dir_inv dir'" "tableSize dir' = tableSize dir"
      "add_mset (key nm, s) (mset (entries dir')) = mset (entries dir)" by blast
  note ms = objects_remove [OF dir'(4), of fs H]
  let ?old = "objects fs dir H" and ?new = "objects fs dir' H"
  have free_old: "set (concat (map footprint ?old)) \<inter> int ` bm_free m = {}" using inv by (simp add: fs_inv_def)
  have fp: "set (concat (map footprint ?old)) = set (footprint (s, H s)) \<union> set (concat (map footprint ?new))"
    by (rule concat_footprints_mset [OF ms])
  have "set (footprint (s, H s)) \<inter> int ` bm_free m = {}" using free_old unfolding fp by blast
  from Remove_frees [OF st(1) bm bsize this] obtain m1 m' where
    m': "FileHeader_Deallocate m (H s) = Inr m1" "Bitmap_Clear m1 s = Inr m'" "bm_inv m'" "bm_size m' = bm_size m"
      "bm_free m' = bm_free m \<union> nat ` set (s # data_sectors (H s))"
      "card (bm_free m') = card (bm_free m) + 1 + length (data_sectors (H s))" by blast
  have nb: "numBits m' = numBits m" using m'(3,4) bm by (simp add: bm_size_def bm_inv_def eq_nat_nat_iff)
  then have nw: "numWords m' = numWords m" using m'(3) bm by (simp add: bm_inv_def)
  have perm: "mset ?old = mset ((s, H s) # ?new)" using ms by simp
  have dist: "distinct (concat (map footprint ((s, H s) # ?new)))"
    using inv distinct_concat_mset [OF perm, of footprint] by (simp add: fs_inv_def)
  have "set ?new \<subseteq> set ?old" using arg_cong [OF perm, of set_mset] by auto
  then have ok: "obj_ok (disk fs) ?new"
    using fs_inv_obj_ok [OF inv] dist by (auto simp: obj_ok_def)
  from flush_map_dir [OF ok object_tables dir'(2) m'(3)] table_sizes [OF inv] dir'(3) di(2) nw obtain d1 d' where
    fl: "PersistentBitmap_WriteBack m' (freeMapFile fs) (disk fs) = Inr d1"
      "Directory_WriteBack dir' (directoryFile fs) d1 = Inr d'" "flushed fs dir' m' ?new (disk fs) d'"
    by auto
  have dn: "set (concat (map footprint ?new)) \<inter> set (footprint (s, H s)) = {}" using dist by auto
  have "x \<notin> int ` bm_free m'" if "x \<in> set (concat (map footprint ?new))" for x
  proof
    assume "x \<in> int ` bm_free m'"
    moreover have "x \<notin> int ` bm_free m" using that free_old unfolding fp by blast
    ultimately obtain y where y: "x = int (nat y)" "y \<in> set (s # data_sectors (H s))" unfolding m'(5) by blast
    have "0 \<le> y" using y(2) st by (auto simp: stored_def footprint_def file_sectors_def)
    then have "x \<in> set (footprint (s, H s))" using y by (auto simp: footprint_def file_sectors_def)
    then show False using that dn by blast
  qed
  then have "set (concat (map footprint ?new)) \<inter> int ` bm_free m' = {}" by blast
  then have inv': "fs_inv (fs\<lparr>disk := d'\<rparr>) dir' m' H"
    by (rule fs_inv_intro [OF fl(3) refl inv m'(3) nb dir'(2,3)])
  have "FileSystem_Remove nm fs = Inr (True, fs\<lparr>disk := d'\<rparr>)"
    using find s stored_fetch [OF st(1)] m'(1,2) dir'(1) fl(1,2)
    by (simp add: FileSystem_Remove_def fetch_directory_eq [OF inv] fetch_free_map_eq [OF inv])
  moreover have "file_bytes (H t) d' = file_bytes (H t) (disk fs)" if t: "(k, t) \<in> set (entries dir')" for k t
  proof -
    have "(k, t) \<in> set (entries dir)" using t arg_cong [OF dir'(4), of set_mset] by auto
    then show ?thesis
      using fl(3) entry_not_table [OF inv] object_file [OF t, of H fs] unfolding flushed_def by blast
  qed
  moreover have "free_slots dir' = free_slots dir + 1"
    using free_slots_entries [OF di(1)] free_slots_entries [OF dir'(2)] dir'(3) arg_cong [OF dir'(4), of size] by simp
  ultimately show ?thesis
    using inv' dir'(4) m'(6)
    by (intro exI [of _ "fs\<lparr>disk := d'\<rparr>"] exI [of _ dir'] exI [of _ m']) auto
qed

subsection \<open>Writing through the open file\<close>

lemma Write_ok:
  assumes inv: "fs_inv fs dir m H" and mem: "(k, s) \<in> set (entries dir)"
    and open_file: "openedFile fs = Opened f" "hdr f = H s" "0 \<le> seekPosition f" "seekPosition f \<le> hdr_len (H s)"
    and fits: "int_fits (seekPosition f + n)" "n \<le> int (length data)"
  shows "\<exists>fs' c. FileSystem_Write data n ident fs = Inr (c, fs') \<and> fs_inv fs' dir m H
     \<and> c = transferred (hdr_len (H s)) n (seekPosition f)
     \<and> openedFile fs' = Opened (f\<lparr>seekPosition := seekPosition f + c\<rparr>)
     \<and> file_bytes (H s) (disk fs')
         = overwrite (nat (seekPosition f)) (take (nat c) data) (file_bytes (H s) (disk fs))
     \<and> (\<forall>(l, t)\<in>set (entries dir). t \<noteq> s \<longrightarrow> file_bytes (H t) (disk fs') = file_bytes (H t) (disk fs))"
proof -
  let ?objs = "objects fs dir H"
  note obj = object_file [OF mem, of H fs]
  note ok = fs_inv_obj_ok [OF inv]
  have fok: "file_ok (hdr f) (disk fs)" unfolding open_file(2) by (rule obj_file_ok [OF ok obj])
  from Write_eq [OF fok open_file(3) fits] obtain d' c where
    w: "OpenFile_Write f data n (disk fs) = Inr (c, f\<lparr>seekPosition := seekPosition f + c\<rparr>, d')"
      "c = transferred (hdr_len (H s)) n (seekPosition f)"
      "written (H s) (disk fs) (min (nat (seekPosition f)) (nat (hdr_len (H s)))) (take (nat c) data) d'"
    unfolding open_file(2) by blast
  have pos: "min (nat (seekPosition f)) (nat (hdr_len (H s))) = nat (seekPosition f)"
    using open_file(4) by (simp add: min_def)
  have w3: "image_ok d'" "length d' = length (disk fs)"
    "file_bytes (H s) d' = overwrite (nat (seekPosition f)) (take (nat c) data) (file_bytes (H s) (disk fs))"
    "\<forall>j. 0 \<le> j \<and> j \<notin> set (data_sectors (H s)) \<longrightarrow> d' ! nat j = disk fs ! nat j"
    using w(3) pos by (auto simp: written_def file_ok_def)
  note ow = obj_write [OF ok obj w3(1,2,4)]
  let ?fs = "fs\<lparr>openedFile := Opened (f\<lparr>seekPosition := seekPosition f + c\<rparr>), disk := d'\<rparr>"
  have s: "s \<noteq> FreeMapSector" "s \<noteq> DirectorySector" using entry_not_table [OF inv mem] by auto
  have hm: "holds (freeMapFile fs) (disk fs) (Bitmap_bytes m)" and hd: "holds (directoryFile fs) (disk fs) (Directory_bytes dir)"
    using inv by (simp_all add: fs_inv_def)
  have "holds (freeMapFile fs) d' (Bitmap_bytes m)"
    using holds_frame [OF hm obj_file_ok [OF ow(1) object_tables(1)] ow(2) [OF object_tables(1)]] s(1) by simp
  moreover have "holds (directoryFile fs) d' (Directory_bytes dir)"
    using holds_frame [OF hd obj_file_ok [OF ow(1) object_tables(2)] ow(2) [OF object_tables(2)]] s(2) by simp
  moreover have "objects ?fs dir H = ?objs" by (rule objects_frame) simp_all
  ultimately have "fs_inv ?fs dir m H"
    using inv w3(1,2) ow(1) unfolding fs_inv_def obj_ok_def by simp
  moreover have "FileSystem_Write data n ident fs = Inr (c, ?fs)"
    using w(1) open_file(1) by (simp add: FileSystem_Write_def opened_def)
  moreover have "\<forall>(l, t)\<in>set (entries dir). t \<noteq> s \<longrightarrow> file_bytes (H t) d' = file_bytes (H t) (disk fs)"
    using ow(2) [OF object_file] by blast
  ultimately show ?thesis using w(2) w3(3) by (intro exI [of _ ?fs] exI [of _ c]) simp
qed

subsection \<open>The abstract file system\<close>

text \<open>Only the disk and the two table files matter.\<close>

lemma fs_rep_opened [simp]: "fs_rep (fs\<lparr>openedFile := p\<rparr>) files sectors slots = fs_rep fs files sectors slots"
  by (simp add: fs_rep_def fs_inv_def objects_def)

lemma fs_rep_cong:
  assumes "fs_inv fs dir m H" "mset (entries dir) = mset es" "\<And>k s. (k, s) \<in> set es \<Longrightarrow> G s = file_bytes (H s) (disk fs)"
  shows "fs_rep fs (\<lambda>n. map_option G (map_of es n)) (card (bm_free m)) (free_slots dir)"
proof -
  have "distinct (map fst (entries dir))" using assms(1) distinct_entries by (auto simp: fs_inv_def)
  then have eq: "map_of (entries dir) = map_of es" by (rule map_of_mset [OF assms(2)])
  have "map_option G (map_of es n) = map_option (\<lambda>s. file_bytes (H s) (disk fs)) (map_of (entries dir) n)" for n
    using assms(3) map_of_SomeD [of es n] unfolding eq by (cases "map_of es n") auto
  with assms(1) show ?thesis unfolding fs_rep_def by blast
qed

lemma fs_rep_ext: "fs_rep fs f a b \<Longrightarrow> (\<And>n. f n = g n) \<Longrightarrow> fs_rep fs g a b"
  by (metis ext)

text \<open>The three updates of the map of files.\<close>

lemma fs_rep_create:
  assumes inv: "fs_inv fs dir m H" and new: "map_of (entries dir) k = None"
    and inv': "fs_inv fs' dir' m' (H(s := h))" and ms: "mset (entries dir') = add_mset (k, s) (mset (entries dir))"
    and other: "\<forall>(k, t)\<in>set (entries dir). t \<noteq> s \<and> file_bytes (H t) (disk fs') = file_bytes (H t) (disk fs)"
  shows "fs_rep fs' ((\<lambda>n. map_option (\<lambda>s. file_bytes (H s) (disk fs)) (map_of (entries dir) n))(k \<mapsto> file_bytes h (disk fs')))
     (card (bm_free m')) (free_slots dir')"
proof -
  let ?G = "\<lambda>t. if t = s then file_bytes h (disk fs') else file_bytes (H t) (disk fs)"
  have "fs_rep fs' (\<lambda>n. map_option ?G (map_of ((k, s) # entries dir) n)) (card (bm_free m')) (free_slots dir')"
    by (rule fs_rep_cong [OF inv']) (use ms other in \<open>auto split: if_splits\<close>)
  moreover have "map_option ?G (map_of ((k, s) # entries dir) n)
      = ((\<lambda>n. map_option (\<lambda>s. file_bytes (H s) (disk fs)) (map_of (entries dir) n))(k \<mapsto> file_bytes h (disk fs'))) n" for n
    using other map_of_SomeD [of "entries dir" n] by (cases "map_of (entries dir) n") auto
  ultimately show ?thesis by (rule fs_rep_ext)
qed

lemma fs_rep_remove:
  assumes inv: "fs_inv fs dir m H" and inv': "fs_inv fs' dir' m' H"
    and ms: "add_mset (k, s) (mset (entries dir')) = mset (entries dir)"
    and other: "\<forall>(k, t)\<in>set (entries dir'). file_bytes (H t) (disk fs') = file_bytes (H t) (disk fs)"
  shows "fs_rep fs' ((\<lambda>n. map_option (\<lambda>s. file_bytes (H s) (disk fs)) (map_of (entries dir) n))(k := None))
     (card (bm_free m')) (free_slots dir')"
proof -
  let ?G = "\<lambda>t. file_bytes (H t) (disk fs)"
  have "fs_rep fs' (\<lambda>n. map_option ?G (map_of (entries dir') n)) (card (bm_free m')) (free_slots dir')"
    by (rule fs_rep_cong [OF inv' refl]) (use other in auto)
  moreover have "map_of (entries dir) = (map_of (entries dir'))(k \<mapsto> s)"
    using map_of_mset [of "entries dir" "(k, s) # entries dir'"] ms inv distinct_entries [of dir]
    by (simp add: fs_inv_def)
  moreover have "k \<notin> fst ` set (entries dir')"
  proof -
    have "distinct (map fst ((k, s) # entries dir'))"
      using inv distinct_entries [of dir] ms by (metis fs_inv_def mset.simps(2) mset_eq_imp_distinct_iff mset_map)
    then show ?thesis by auto
  qed
  then have "map_of (entries dir') k = None" by (simp add: map_of_eq_None_iff)
  ultimately show ?thesis by (auto intro: fs_rep_ext)
qed

lemma fs_rep_write:
  assumes inv: "fs_inv fs dir m H" and inv': "fs_inv fs' dir m H" and mem: "map_of (entries dir) k = Some s"
    and other: "\<forall>(l, t)\<in>set (entries dir). t \<noteq> s \<longrightarrow> file_bytes (H t) (disk fs') = file_bytes (H t) (disk fs)"
  shows "fs_rep fs' ((\<lambda>n. map_option (\<lambda>s. file_bytes (H s) (disk fs)) (map_of (entries dir) n))(k \<mapsto> file_bytes (H s) (disk fs')))
     (card (bm_free m)) (free_slots dir)"
proof -
  let ?G = "\<lambda>t. file_bytes (H t) (disk fs')"
  have "fs_rep fs' (\<lambda>n. map_option ?G (map_of (entries dir) n)) (card (bm_free m)) (free_slots dir)"
    by (rule fs_rep_cong [OF inv' refl]) simp
  moreover have "map_option ?G (map_of (entries dir) n) =
      ((\<lambda>n. map_option (\<lambda>s. file_bytes (H s) (disk fs)) (map_of (entries dir) n))(k \<mapsto> file_bytes (H s) (disk fs'))) n" for n
  proof (cases "map_of (entries dir) n")
    case (Some t)
    have "n = k" if "t = s"
      using entry_sectors(1) [OF inv] map_of_SomeD [OF Some] map_of_SomeD [OF mem] that
      by (metis (no_types, lifting) distinct_map fst_conv inj_onD snd_conv)
    with Some other map_of_SomeD [OF Some] mem show ?thesis by auto
  qed (use mem in auto)
  ultimately show ?thesis by (rule fs_rep_ext)
qed

subsection \<open>Formatting\<close>

lemma table_room: "32 \<le> n \<Longrightarrow> 4 + sectors_needed (n div 8) \<le> n" for n :: nat
proof -
  assume n: "32 \<le> n"
  obtain k where k: "k = n div 8" by simp
  have "4 \<le> k" "8 * k \<le> n" unfolding k using n by linarith+
  moreover have "(k + 127) div 128 + (k - 1) div 3584 \<le> k + 1" by linarith
  ultimately show ?thesis unfolding sectors_needed_eq k [symmetric] by linarith
qed

lemma Bitmap_new_free:
  assumes "0 < n"
  obtains m where "Bitmap_new (int n) = Inr m" "bm_inv m" "bm_size m = n" "bm_free m = {..<n}"
  using Bitmap_new_eq [of "int n"] assms that by (auto simp: bm_free_def)

lemma Allocate_table:
  assumes "bm_inv m" "bm_size m \<le> 2 ^ 31" "int_fits (int n)" "sectors_needed n \<le> card (bm_free m)"
  obtains h m' where "FileHeader_Allocate m (int n) FileHeader_new = Inr (True, h, m')" "allocated m (int n) h m'"
proof -
  obtain nb ns ds nx nh where new: "FileHeader_new = FH nb ns ds nx nh" by (cases FileHeader_new)
  from Allocate_eq [OF assms(1,2) blank_new [OF new] assms(3), of nb ns nh] assms(4) that show ?thesis
    unfolding new by auto
qed

lemma free_map_size:
  assumes "n = 32 * q" "numBits m = int n" "bm_inv m"
  shows "int n sdiv 8 = int (n div 8)" "int (n div 8) = numWords m * 4"
proof -
  show "int n sdiv 8 = int (n div 8)" by (simp add: sdiv_nonneg zdiv_int)
  have "numWords m = int q" using assms by (simp add: bm_inv_def BitsInWord_def divRoundUp_def)
  then show "int (n div 8) = numWords m * 4" using assms(1) by simp
qed

lemma taken_not_free: "S \<inter> int ` (F - nat ` S) = {}"
proof -
  have "int i \<notin> S" if "i \<notin> nat ` S" for i using that by (metis image_eqI nat_int)
  then show ?thesis by auto
qed

lemma disjoint_free_mono: "A \<subseteq> B \<Longrightarrow> S \<inter> int ` B = {} \<Longrightarrow> S \<inter> int ` A = {}"
  by blast

lemma format_ok:
  assumes img: "image_ok d" and n: "length d = 32 * q" "0 < q" "length d \<le> 2 ^ 24"
  shows "\<exists>fs m. FileSystem_format d = Inr fs \<and> fs_inv fs (Directory_new NumDirEntries) m (\<lambda>_. undefined)
     \<and> length (disk fs) = length d \<and> card (bm_free m) = length d - 4 - sectors_needed (length d div 8)"
proof -
  let ?n = "length d"
  have pos: "0 < ?n" "1 < ?n" using n(1,2) by auto
  obtain m0 where m0: "Bitmap_new (int ?n) = Inr m0" "bm_inv m0" "bm_size m0 = ?n" "bm_free m0 = {..<?n}"
    by (rule Bitmap_new_free [OF pos(1)])
  let ?m1 = "bm_mark m0 0"
  let ?m2 = "bm_mark ?m1 1"
  have mark: "Bitmap_Mark m0 (int 0) = Inr ?m1" "Bitmap_Mark ?m1 (int 1) = Inr ?m2"
    using m0 pos by (intro Bitmap_Mark_eq; simp)+
  have m2: "bm_inv ?m2" "bm_size ?m2 = ?n" "bm_free ?m2 = {..<?n} - {0} - {1}" using m0 pos by simp_all
  then have c2: "card (bm_free ?m2) = ?n - 2" using pos by (simp add: card_Diff_subset)
  have room: "4 + sectors_needed (?n div 8) \<le> ?n" by (rule table_room) (use n(1,2) in linarith)
  have fits: "int_fits (int (?n div 8) + SectorSize)" "int_fits (int (?n div 8))" "int_fits (int 200)" "bm_size ?m2 \<le> 2 ^ 31"
    using n(3) m2(2) by (auto simp: int_fits_def SectorSize_def)
  have "sectors_needed (?n div 8) \<le> card (bm_free ?m2)" using room unfolding c2 by linarith
  then obtain hm m3 where hm: "FileHeader_Allocate ?m2 (int (?n div 8)) FileHeader_new = Inr (True, hm, m3)"
    "allocated ?m2 (int (?n div 8)) hm m3" by (rule Allocate_table [OF m2(1) fits(4,2)])
  have c3: "card (bm_free m3) = ?n - 2 - sectors_needed (?n div 8)"
    using allocated_card(3) [OF hm(2)] c2 by simp
  have m3: "bm_inv m3" "bm_size m3 = ?n" "bm_free m3 = bm_free ?m2 - nat ` set (file_sectors hm)"
    using hm(2) m2(2) by (simp_all add: allocated_def)
  have two: "sectors_needed 200 = 2" by (simp add: sectors_needed_eq)
  have "sectors_needed 200 \<le> card (bm_free m3)" using room unfolding c3 two by linarith
  moreover have "bm_size m3 \<le> 2 ^ 31" using m3(2) fits(4) m2(2) by simp
  ultimately obtain hd m4 where hd: "FileHeader_Allocate m3 (int 200) FileHeader_new = Inr (True, hd, m4)"
    "allocated m3 (int 200) hd m4" using Allocate_table [OF m3(1) _ fits(3)] by blast
  have c4: "card (bm_free m4) = ?n - 4 - sectors_needed (?n div 8)"
    using allocated_card(3) [OF hd(2)] c3 two by simp
  have m4: "bm_inv m4" "bm_size m4 = ?n" "bm_free m4 = bm_free m3 - nat ` set (file_sectors hd)"
    using hd(2) m3(2) by (simp_all add: allocated_def)
  have fm: "distinct (footprint (0, hm))" "set (footprint (0, hm)) \<subseteq> int ` {..<?n}"
    using footprint_allocated [OF hm(2), of 0 m0] m2(3) m0(4) pos by auto
  have fd: "distinct (footprint (1, hd))" "set (footprint (1, hd)) \<subseteq> int ` {..<?n}"
    using footprint_allocated [OF hd(2), of 1 m0] m3(3) m2(3) m0(4) pos by auto
  have sub: "set (file_sectors hm) \<subseteq> int ` bm_free ?m2" "set (file_sectors hd) \<subseteq> int ` bm_free m3"
    using hm(2) hd(2) by (simp_all add: allocated_def)
  have disj: "set (footprint (1, hd)) \<inter> set (footprint (0, hm)) = {}"
  proof -
    have "set (file_sectors hm) \<inter> int ` bm_free m3 = {}" unfolding m3(3) by (rule taken_not_free)
    then have "set (file_sectors hm) \<inter> set (file_sectors hd) = {}" using sub(2) by blast
    moreover have "bm_free m3 \<subseteq> bm_free ?m2" unfolding m3(3) by (rule Diff_subset)
    then have "0 \<notin> bm_free ?m2" "1 \<notin> bm_free ?m2" "0 \<notin> bm_free m3" unfolding m2(3) by auto
    then have "1 \<notin> set (file_sectors hm)" "0 \<notin> set (file_sectors hd)"
      using sub by (metis imageE of_nat_eq_1_iff subsetD, metis imageE of_nat_eq_0_iff subsetD)
    ultimately show ?thesis by (auto simp: footprint_def)
  qed
  have range: "\<forall>i\<in>set xs. 0 \<le> i \<and> i < int ?n" if "set xs \<subseteq> int ` {..<?n}" for xs using that by auto
  have okm: "hdr_ok hm" "hdr_len hm = int (?n div 8)" and okd: "hdr_ok hd" "hdr_len hd = 200"
    using hm(2) hd(2) by (simp_all add: allocated_def)
  have "\<exists>d'. FileHeader_WriteBack hm 0 d = Inr d' \<and> stored d' 0 hm \<and> image_ok d' \<and> length d' = ?n
     \<and> (\<forall>i. 0 \<le> i \<longrightarrow> i \<notin> set (footprint (0, hm)) \<longrightarrow> d' ! nat i = d ! nat i)"
    by (rule store_new [OF okm(1) _ fm(1) range [OF fm(2)] img]) (use okm(2) fits(1) in simp)
  then obtain d1 where d1: "FileHeader_WriteBack hm 0 d = Inr d1" "stored d1 0 hm" "image_ok d1" "length d1 = ?n" by blast
  have "\<exists>d'. FileHeader_WriteBack hd 1 d1 = Inr d' \<and> stored d' 1 hd \<and> image_ok d' \<and> length d' = length d1
     \<and> (\<forall>i. 0 \<le> i \<longrightarrow> i \<notin> set (footprint (1, hd)) \<longrightarrow> d' ! nat i = d1 ! nat i)"
    by (rule store_new [OF okd(1) _ fd(1) range [OF fd(2), folded d1(4)] d1(3)]) (simp add: okd int_fits_def SectorSize_def)
  then obtain d2 where d2: "FileHeader_WriteBack hd 1 d1 = Inr d2" "stored d2 1 hd" "image_ok d2" "length d2 = length d1"
    "\<forall>i. 0 \<le> i \<longrightarrow> i \<notin> set (footprint (1, hd)) \<longrightarrow> d2 ! nat i = d1 ! nat i" by blast
  define fs0 where "fs0 = \<lparr>disk = d2, freeMapFile = \<lparr>hdr = hm, seekPosition = 0\<rparr>,
     directoryFile = \<lparr>hdr = hd, seekPosition = 0\<rparr>, openedFile = Dangling\<rparr>"
  let ?dir = "Directory_new NumDirEntries"
  have objs: "objects fs0 ?dir H = [(0, hm), (1, hd)]" for H
    by (simp add: objects_def fs0_def FreeMapSector_def DirectorySector_def)
  have ok1: "obj_ok d1 [(0, hm)]" using d1(2) fm(1) by (simp add: obj_ok_def)
  have ok2: "obj_ok d2 [(0, hm), (1, hd)]"
    by (rule obj_ok_add(1) [OF ok1 d2(2-5)]) (use disj in simp_all)
  have dir: "dir_inv ?dir" by (rule dir_inv_new) (simp add: NumDirEntries_def)
  have dir10: "tableSize ?dir = 10" by (simp add: NumDirEntries_def Directory_new_def)
  note dir = dir dir10
  have nb: "numBits m4 = int ?n" using m4(1,2) unfolding bm_size_def bm_inv_def by linarith
  note size = free_map_size [OF n(1) nb m4(1)]
  have "\<exists>d3 d4. PersistentBitmap_WriteBack m4 (freeMapFile fs0) d2 = Inr d3
     \<and> Directory_WriteBack ?dir (directoryFile fs0) d3 = Inr d4 \<and> flushed fs0 ?dir m4 [(0, hm), (1, hd)] d2 d4"
    by (rule flush_map_dir [OF ok2])
       (use dir(1) m4(1) okm(2) okd(2) size(2) dir(2) in
         \<open>simp_all add: fs0_def FreeMapSector_def DirectorySector_def entry_size_def\<close>)
  then obtain d3 d4 where fl: "PersistentBitmap_WriteBack m4 (freeMapFile fs0) d2 = Inr d3"
    "Directory_WriteBack ?dir (directoryFile fs0) d3 = Inr d4" "flushed fs0 ?dir m4 [(0, hm), (1, hd)] d2 d4" by blast
  have "bm_free m4 \<subseteq> bm_free m3 - nat ` set (file_sectors hd)" unfolding m4(3) by blast
  then have f1: "set (file_sectors hd) \<inter> int ` bm_free m4 = {}" by (rule disjoint_free_mono) (rule taken_not_free)
  have "bm_free m4 \<subseteq> bm_free m3" unfolding m4(3) by blast
  then have "bm_free m4 \<subseteq> bm_free ?m2 - nat ` set (file_sectors hm)" unfolding m3(3) .
  then have f2: "set (file_sectors hm) \<inter> int ` bm_free m4 = {}" by (rule disjoint_free_mono) (rule taken_not_free)
  have "bm_free m4 \<subseteq> bm_free ?m2" unfolding m4(3) m3(3) by (rule subset_trans [OF Diff_subset Diff_subset])
  moreover have "0 \<notin> bm_free ?m2" "1 \<notin> bm_free ?m2" unfolding m2(3) by simp_all
  ultimately have "0 \<notin> bm_free m4" "1 \<notin> bm_free m4" by (metis subsetD)+
  then have f3: "0 \<notin> int ` bm_free m4" "1 \<notin> int ` bm_free m4" by (metis imageE of_nat_eq_0_iff) (metis imageE of_nat_eq_1_iff \<open>1 \<notin> bm_free m4\<close>)
  have free: "(set (footprint (0, hm)) \<union> set (footprint (1, hd))) \<inter> int ` bm_free m4 = {}"
    using f1 f2 f3 by (simp add: footprint_def Int_Un_distrib2)
  have "fs_inv (fs0\<lparr>disk := d4\<rparr>) ?dir m4 (\<lambda>_. undefined)"
    using fl(3) m4(1) nb n(3) d1(4) d2(4) dir free objects_frame [of "fs0\<lparr>disk := d4\<rparr>" fs0 ?dir "\<lambda>_. undefined"]
    unfolding fs_inv_def flushed_def obj_ok_def objs by (simp add: NumDirEntries_def)
  moreover have "FileSystem_format d = Inr (fs0\<lparr>disk := d4\<rparr>)"
    using m0(1) mark hm(1) hd(1) d1(1) d2(1) fl(1,2) stored_open [OF d2(2)] size(1)
      stored_open [of d2 0 hm] ok2
    by (simp add: FileSystem_format_def FreeMapSector_def DirectorySector_def FreeMapFileSize_def BitsInByte_def
        DirectoryFileSize_def entry_size_def NumDirEntries_def Let_def fs0_def obj_ok_def)
  moreover have "length d4 = ?n" using fl(3) d1(4) d2(4) by (simp add: flushed_def)
  ultimately show ?thesis using c4 by (intro exI [of _ "fs0\<lparr>disk := d4\<rparr>"] exI [of _ m4]) simp
qed

subsection \<open>Formatting and creating, on the abstract file system\<close>

lemma format_rep:
  assumes "image_ok d" "length d = 32 * q" "0 < q" "length d \<le> 2 ^ 24"
  shows "\<exists>fs. FileSystem_format d = Inr fs \<and> length (disk fs) = length d
     \<and> fs_rep fs (\<lambda>_. None) (length d - 4 - sectors_needed (length d div 8)) 10"
proof -
  from format_ok [OF assms] obtain fs m where
    f: "FileSystem_format d = Inr fs" "fs_inv fs (Directory_new NumDirEntries) m (\<lambda>_. undefined)"
      "length (disk fs) = length d" "card (bm_free m) = length d - 4 - sectors_needed (length d div 8)" by blast
  have "free_slots (Directory_new NumDirEntries) = 10"
    by (simp add: free_slots_def Directory_new_def NumDirEntries_def empty_entry_def)
  then have "fs_rep fs (\<lambda>_. None) (length d - 4 - sectors_needed (length d div 8)) 10"
    unfolding fs_rep_def using f(2,4) entries_new [of NumDirEntries] by fastforce
  with f(1,3) show ?thesis by blast
qed

lemma Create_rep:
  assumes "fs_rep fs files sectors slots" "int_fits (int n + SectorSize)"
  shows "if files (key nm) = None \<and> 0 < slots \<and> 1 + sectors_needed n \<le> sectors
     then \<exists>fs' c. FileSystem_Create nm (int n) fs = Inr (True, fs') \<and> length c = n
        \<and> fs_rep fs' (files(key nm \<mapsto> c)) (sectors - (1 + sectors_needed n)) (slots - 1)
     else FileSystem_Create nm (int n) fs = Inr (False, fs)"
proof -
  from assms(1) obtain dir m H where r: "fs_inv fs dir m H" "sectors = card (bm_free m)" "slots = free_slots dir"
    "files = (\<lambda>n. map_option (\<lambda>s. file_bytes (H s) (disk fs)) (map_of (entries dir) n))" by (auto simp: fs_rep_def)
  have none: "files (key nm) = None \<longleftrightarrow> map_of (entries dir) (key nm) = None" by (simp add: r(4))
  show ?thesis
  proof (cases "files (key nm) = None \<and> 0 < slots \<and> 1 + sectors_needed n \<le> sectors")
    case True
    with Create_ok [OF r(1) _ _ _ assms(2), of nm] none r(2,3) obtain fs' dir' m' s h where
      c: "FileSystem_Create nm (int n) fs = Inr (True, fs')" "fs_inv fs' dir' m' (H(s := h))" "hdr_len h = int n"
        "mset (entries dir') = add_mset (key nm, s) (mset (entries dir))" "free_slots dir' = free_slots dir - 1"
        "card (bm_free m') = card (bm_free m) - (1 + sectors_needed n)"
        "\<forall>(k, t)\<in>set (entries dir). t \<noteq> s \<and> file_bytes (H t) (disk fs') = file_bytes (H t) (disk fs)" by auto
    have "fs_rep fs' (files(key nm \<mapsto> file_bytes h (disk fs'))) (sectors - (1 + sectors_needed n)) (slots - 1)"
      using fs_rep_create [OF r(1) _ c(2,4,7)] True none unfolding r(2-4) c(5,6) by simp
    moreover have "(s, h) \<in> set (objects fs' dir' (H(s := h)))"
    proof -
      have "(key nm, s) \<in> set (entries dir')" using arg_cong [OF c(4), of set_mset] by auto
      then show ?thesis using object_file [of "key nm" s dir' "H(s := h)" fs'] by simp
    qed
    then have "file_ok h (disk fs')" using obj_file_ok [OF fs_inv_obj_ok [OF c(2)]] by blast
    then have "length (file_bytes h (disk fs')) = n" using length_file_bytes [of h] c(3) by simp
    ultimately show ?thesis using True c(1) by auto
  next
    case False
    then have "FileSystem_Create nm (int n) fs = Inr (False, fs)"
      using none r(2,3) assms(2) by (intro Create_fails [OF r(1)]) (auto simp: int_fits_def SectorSize_def)
    then show ?thesis using False by auto
  qed
qed

subsection \<open>Properties\<close>

text \<open>
  C33: formatting a disk whose number of sectors is a multiple of 32 writes an empty file system: no
  names, ten free directory entries, and all sectors free but the two headers, the two sectors of
  the directory and those of the free map, whose own header is chained on large disks.
\<close>

theorem format_empty:
  assumes "image_ok d" "length d = 32 * q" "0 < q" "length d \<le> 2 ^ 24"
  shows "\<exists>fs. FileSystem_format d = Inr fs \<and> length (disk fs) = length d
     \<and> fs_rep fs (\<lambda>_. None) (length d - 4 - sectors_needed (length d div 8)) 10"
  by (rule format_rep [OF assms])

lemma format_empty_witness:
  "\<exists>fs. FileSystem_format (replicate 64 (replicate 128 0)) = Inr fs
     \<and> length (disk fs) = length (replicate 64 (replicate 128 (0::byte)))
     \<and> fs_rep fs (\<lambda>_. None) (length (replicate 64 (replicate 128 (0::byte))) - 4
          - sectors_needed (length (replicate 64 (replicate 128 (0::byte))) div 8)) 10"
  by (rule format_empty [where q = 2]) (simp_all add: image_ok_def SectorSize_def)

text \<open>
  C6: \<^verbatim>\<open>Create\<close> adds a file of the requested length under its name, using one sector for the header
  and those the contents need, and leaves every other file as it was. It fails, changing nothing,
  exactly when the name is taken, no directory entry is free or too few sectors are.
\<close>

theorem Create_refines:
  assumes "fs_rep fs files sectors slots" "int_fits (int n + SectorSize)"
  shows "if files (key nm) = None \<and> 0 < slots \<and> 1 + sectors_needed n \<le> sectors
     then \<exists>fs' c. FileSystem_Create nm (int n) fs = Inr (True, fs') \<and> length c = n
        \<and> fs_rep fs' (files(key nm \<mapsto> c)) (sectors - (1 + sectors_needed n)) (slots - 1)
     else FileSystem_Create nm (int n) fs = Inr (False, fs)"
  by (rule Create_rep [OF assms])

text \<open>
  C8: \<^verbatim>\<open>Remove\<close> deletes the file of that name and no other. It gives back the header sector and the
  sectors of the data, and no more: the sectors of chained headers are lost. It fails exactly when
  there is no such file.
\<close>

theorem Remove_refines:
  assumes "fs_rep fs files sectors slots"
  shows "case files (key nm) of
       None \<Rightarrow> FileSystem_Remove nm fs = Inr (False, fs)
     | Some c \<Rightarrow> \<exists>fs'. FileSystem_Remove nm fs = Inr (True, fs')
          \<and> fs_rep fs' (files(key nm := None)) (sectors + 1 + (length c + 127) div 128) (slots + 1)"
proof -
  from assms(1) obtain dir m H where r: "fs_inv fs dir m H" "sectors = card (bm_free m)" "slots = free_slots dir"
    "files = (\<lambda>n. map_option (\<lambda>s. file_bytes (H s) (disk fs)) (map_of (entries dir) n))" by (auto simp: fs_rep_def)
  show ?thesis
  proof (cases "map_of (entries dir) (key nm)")
    case None
    with Remove_absent_eq [OF r(1)] show ?thesis by (simp add: r(4))
  next
    case (Some s)
    from FileSys_Remove_ok [OF r(1) Some] obtain fs' dir' m' where
      c: "FileSystem_Remove nm fs = Inr (True, fs')" "fs_inv fs' dir' m' H"
        "add_mset (key nm, s) (mset (entries dir')) = mset (entries dir)" "free_slots dir' = free_slots dir + 1"
        "card (bm_free m') = card (bm_free m) + 1 + length (data_sectors (H s))"
        "\<forall>(k, t)\<in>set (entries dir'). file_bytes (H t) (disk fs') = file_bytes (H t) (disk fs)" by blast
    have ok: "file_ok (H s) (disk fs)" using entry_sector(1) [OF r(1) Some] by (simp add: stored_def)
    have "int (length (data_sectors (H s))) = divRoundUp (int (nat (hdr_len (H s)))) 128"
      using ok length_data_sectors [of "H s"] hdr_len_nonneg [of "H s"] by (simp add: file_ok_def SectorSize_def)
    then have "length (data_sectors (H s)) = (length (file_bytes (H s) (disk fs)) + 127) div 128"
      unfolding divRoundUp_nat using length_file_bytes [OF ok] by simp
    then show ?thesis
      using fs_rep_remove [OF r(1) c(2,3,6)] c(1,4,5) Some unfolding r(2-4) by auto
  qed
qed

text \<open>
  C19: opening an existing file and writing to it replaces the beginning of its contents and nothing
  else in the file system; a following write goes on where the first one ended.
\<close>

theorem Open_Write_refines:
  assumes "fs_rep fs files sectors slots" "files (key nm) = Some c" "n \<le> length data" "int_fits (int n)"
  shows "\<exists>fs1 fs2 k. FileSystem_Open nm fs = Inr (1, fs1) \<and> FileSystem_Write data (int n) 1 fs1 = Inr (int k, fs2)
     \<and> k = min n (length c) \<and> fs_rep fs2 (files(key nm \<mapsto> overwrite 0 (take k data) c)) sectors slots
     \<and> (\<exists>f. openedFile fs2 = Opened f \<and> seekPosition f = int k)"
proof -
  from assms(1) obtain dir m H where r: "fs_inv fs dir m H" "sectors = card (bm_free m)" "slots = free_slots dir"
    "files = (\<lambda>n. map_option (\<lambda>s. file_bytes (H s) (disk fs)) (map_of (entries dir) n))" by (auto simp: fs_rep_def)
  from assms(2) obtain s where s: "map_of (entries dir) (key nm) = Some s" "c = file_bytes (H s) (disk fs)"
    by (auto simp: r(4))
  let ?f = "\<lparr>hdr = H s, seekPosition = 0\<rparr>"
  let ?fs1 = "fs\<lparr>openedFile := Opened ?f\<rparr>"
  have o: "FileSystem_Open nm fs = Inr (1, ?fs1)"
    by (simp add: FileSystem_Open_def OpenAsOpenFile_eq [OF r(1)] s(1))
  have inv1: "fs_inv ?fs1 dir m H" using r(1) by (simp add: fs_inv_def objects_def)
  have ok: "file_ok (H s) (disk fs)" using entry_sector(1) [OF r(1) s(1)] by (simp add: stored_def)
  have len: "int (length c) = hdr_len (H s)" "0 \<le> hdr_len (H s)"
    using length_file_bytes [OF ok] hdr_len_nonneg [of "H s"] ok s(2) by (simp_all add: file_ok_def)
  have "\<exists>fs' k. FileSystem_Write data (int n) 1 ?fs1 = Inr (k, fs') \<and> fs_inv fs' dir m H
     \<and> k = transferred (hdr_len (H s)) (int n) (seekPosition ?f)
     \<and> openedFile fs' = Opened (?f\<lparr>seekPosition := seekPosition ?f + k\<rparr>)
     \<and> file_bytes (H s) (disk fs') = overwrite (nat (seekPosition ?f)) (take (nat k) data) (file_bytes (H s) (disk ?fs1))
     \<and> (\<forall>(l, t)\<in>set (entries dir). t \<noteq> s \<longrightarrow> file_bytes (H t) (disk fs') = file_bytes (H t) (disk ?fs1))"
    by (rule Write_ok [OF inv1 map_of_SomeD [OF s(1)]]) (use len assms(3,4) in simp_all)
  then obtain fs2 k where w: "FileSystem_Write data (int n) 1 ?fs1 = Inr (k, fs2)" "fs_inv fs2 dir m H"
    "k = transferred (hdr_len (H s)) (int n) 0" "openedFile fs2 = Opened (?f\<lparr>seekPosition := k\<rparr>)"
    "file_bytes (H s) (disk fs2) = overwrite 0 (take (nat k) data) c"
    "\<forall>(l, t)\<in>set (entries dir). t \<noteq> s \<longrightarrow> file_bytes (H t) (disk fs2) = file_bytes (H t) (disk fs)"
    unfolding s(2) by auto
  have k: "k = int (min n (length c))" unfolding w(3) transferred_def len(1) [symmetric] by auto
  have "fs_rep fs2 (files(key nm \<mapsto> overwrite 0 (take (min n (length c)) data) c)) sectors slots"
    using fs_rep_write [OF r(1) w(2) s(1) w(6)] unfolding r(2-4) w(5) k by simp
  then show ?thesis
    using o w(1,4) unfolding k by (intro exI [of _ ?fs1] exI [of _ fs2] exI [of _ "min n (length c)"]) auto
qed

text \<open>
  \<^verbatim>\<open>Open\<close> reports success for a name that is not there, and the next read or write through the
  null pointer it leaves behind faults; after \<^verbatim>\<open>Close\<close> the deleted object is still used.
\<close>

theorem Open_absent_and_Close:
  assumes "fs_rep fs files sectors slots" "files (key nm) = None" "openedFile fs' = Opened f"
  shows "\<exists>fs1 fs2. FileSystem_Open nm fs = Inr (1, fs1) \<and> FileSystem_Read n 1 fs1 = Inl NullPointer
     \<and> FileSystem_Write data n 1 fs1 = Inl NullPointer
     \<and> FileSystem_Close 1 fs' = Inr (1, fs2) \<and> FileSystem_Read n 1 fs2 = Inl UseAfterFree
     \<and> FileSystem_Write data n 1 fs2 = Inl UseAfterFree \<and> FileSystem_Close 1 fs2 = Inl UseAfterFree"
proof -
  from assms(1,2) obtain dir m H where "fs_inv fs dir m H" "map_of (entries dir) (key nm) = None"
    by (auto simp: fs_rep_def)
  then show ?thesis
    using assms(3) by (simp add: FileSystem_Open_def OpenAsOpenFile_eq FileSystem_Read_def FileSystem_Write_def
        FileSystem_Close_def opened_def)
qed

definition blank64 :: image where
  "blank64 = replicate 64 (replicate 128 0)"

lemma formatted: obtains fs where "FileSystem_format blank64 = Inr fs" "fs_rep fs (\<lambda>_. None) 59 10"
proof -
  have "image_ok blank64" "length blank64 = 32 * 2" "(0::nat) < 2" "length blank64 \<le> 2 ^ 24"
    by (simp_all add: blank64_def image_ok_def SectorSize_def)
  from format_rep [OF this] that show ?thesis by (auto simp: blank64_def sectors_needed_eq)
qed

lemma created: obtains fs fs' c where "FileSystem_format blank64 = Inr fs"
  "FileSystem_Create [65] 300 fs = Inr (True, fs')" "length c = 300" "fs_rep fs' [key [65] \<mapsto> c] 55 9"
proof -
  obtain fs where fs: "FileSystem_format blank64 = Inr fs" "fs_rep fs (\<lambda>_. None) 59 10" by (rule formatted)
  have "int_fits (int 300 + SectorSize)" by (simp add: int_fits_def SectorSize_def)
  from Create_rep [OF fs(2) this, of "[65]"] fs(1) that show ?thesis by (auto simp: sectors_needed_eq)
qed

lemma Create_refines_witness:
  "\<exists>fs fs' c. FileSystem_format blank64 = Inr fs \<and> FileSystem_Create [65] (int 300) fs = Inr (True, fs')
     \<and> length c = 300 \<and> fs_rep fs' [key [65] \<mapsto> c] 55 9"
proof -
  obtain fs where fs: "FileSystem_format blank64 = Inr fs" "fs_rep fs (\<lambda>_. None) 59 10" by (rule formatted)
  have "int_fits (int 300 + SectorSize)" by (simp add: int_fits_def SectorSize_def)
  from Create_refines [OF fs(2) this, of "[65]"] fs(1) show ?thesis by (auto simp: sectors_needed_eq)
qed

lemma Remove_refines_witness:
  "\<exists>fs fs' fs''. FileSystem_format blank64 = Inr fs \<and> FileSystem_Create [65] 300 fs = Inr (True, fs')
     \<and> FileSystem_Remove [65] fs' = Inr (True, fs'') \<and> fs_rep fs'' (\<lambda>_. None) 59 10"
proof (rule created)
  fix fs fs' c
  assume *: "FileSystem_format blank64 = Inr fs" "FileSystem_Create [65] 300 fs = Inr (True, fs')"
    "length (c :: byte list) = 300" "fs_rep fs' [key [65] \<mapsto> c] 55 9"
  from Remove_refines [OF *(4), of "[65]"] * show ?thesis by auto
qed

lemma Open_Write_refines_witness:
  "\<exists>fs fs' c fs1 fs2 k. FileSystem_format blank64 = Inr fs \<and> FileSystem_Create [65] 300 fs = Inr (True, fs')
     \<and> FileSystem_Open [65] fs' = Inr (1, fs1) \<and> FileSystem_Write (replicate 20 7) (int 20) 1 fs1 = Inr (int k, fs2)
     \<and> k = min 20 (length c)
     \<and> fs_rep fs2 ([key [65] \<mapsto> c](key [65] \<mapsto> overwrite 0 (take k (replicate 20 7)) c)) 55 9"
proof (rule created)
  fix fs fs' c
  assume *: "FileSystem_format blank64 = Inr fs" "FileSystem_Create [65] 300 fs = Inr (True, fs')"
    "length (c :: byte list) = 300" "fs_rep fs' [key [65] \<mapsto> c] 55 9"
  have "[key [65] \<mapsto> c] (key [65]) = Some c" "20 \<le> length (replicate 20 (7 :: byte))" "int_fits (int 20)"
    by (simp_all add: int_fits_def)
  from Open_Write_refines [OF *(4) this] * show ?thesis by blast
qed

lemma Open_absent_and_Close_witness:
  "\<exists>fs fs' fs1 fs2. FileSystem_format blank64 = Inr fs \<and> FileSystem_Open [66] fs = Inr (1, fs1)
     \<and> FileSystem_Read 5 1 fs1 = Inl NullPointer \<and> FileSystem_Write [1] 5 1 fs1 = Inl NullPointer
     \<and> FileSystem_Close 1 fs' = Inr (1, fs2) \<and> FileSystem_Read 5 1 fs2 = Inl UseAfterFree
     \<and> FileSystem_Write [1] 5 1 fs2 = Inl UseAfterFree \<and> FileSystem_Close 1 fs2 = Inl UseAfterFree"
proof -
  obtain fs where fs: "FileSystem_format blank64 = Inr fs" "fs_rep fs (\<lambda>_. None) 59 10" by (rule formatted)
  have "openedFile (fs\<lparr>openedFile := Opened sample_file\<rparr>) = Opened sample_file" by simp
  from Open_absent_and_Close [OF fs(2) _ this, of "[66]" 5 "[1]"] fs(1) show ?thesis by auto
qed

end
