(* ===== verification/Machines.thy ===== *)
theory Machines
  imports Bytes Interrupts
begin

text \<open>
  \<^verbatim>\<open>machine/machine.cc\<close> and \<^verbatim>\<open>machine/translate.cc\<close>: the CPU that user programs run on. Its state
  \<open>CPU\<close> (the register file, the main memory, the page table or TLB) is the device state of the
  simulated machine of theory \<open>Interrupts\<close>; \<open>os\<close> is whatever state the kernel adds. The exception
  handler of the kernel is an argument of the operations. The theory proves that address
  translation is safe and exact, that memory behaves as memory, and that processes whose page
  tables share no frame cannot see each other's writes.
\<close>

subsection \<open>State\<close>

definition PageSize :: int where "PageSize = 128"
definition NumPhysPages :: int where "NumPhysPages = 128"
definition MemorySize :: int where "MemorySize = NumPhysPages * PageSize"
definition TLBSize :: nat where "TLBSize = 4"

datatype ExceptionType =
    NoException | SyscallException | PageFaultException | ReadOnlyException | BusErrorException
  | AddressErrorException | OverflowException | IllegalInstrException

definition HiReg :: nat where "HiReg = 32"
definition LoReg :: nat where "LoReg = 33"
definition PCReg :: nat where "PCReg = 34"
definition NextPCReg :: nat where "NextPCReg = 35"
definition PrevPCReg :: nat where "PrevPCReg = 36"
definition LoadReg :: nat where "LoadReg = 37"
definition LoadValueReg :: nat where "LoadValueReg = 38"
definition BadVAddrReg :: nat where "BadVAddrReg = 39"
definition NumTotalRegs :: nat where "NumTotalRegs = 40"

lemmas reg_numbers = HiReg_def LoReg_def PCReg_def NextPCReg_def PrevPCReg_def LoadReg_def LoadValueReg_def
  BadVAddrReg_def NumTotalRegs_def

record TranslationEntry =
  virtualPage :: int
  physicalPage :: int
  valid :: bool
  readOnly :: bool
  used :: bool
  dirty :: bool

text \<open>\<open>None\<close> is the null pointer: exactly one of TLB and page table is in use.\<close>

record 'k CPU =
  registers :: "32 word list"
  mainMemory :: "byte list"
  tlb :: "TranslationEntry list option"
  pageTable :: "TranslationEntry list option"
  pageTableSize :: int
  os :: 'k

type_synonym 'k cpu = "'k CPU machine"
type_synonym 'k exception_handler = "ExceptionType \<Rightarrow> 'k cpu \<Rightarrow> 'k cpu res"

text \<open>How an operation of a thread ends: in the same thread, or at a \<^verbatim>\<open>SWITCH\<close> to another one.\<close>

datatype 'm control = Stays 'm | Switches nat 'm

text \<open>\<^verbatim>\<open>Machine::Machine\<close>, compiled with a linear page table (without \<^verbatim>\<open>USE_TLB\<close>).\<close>

definition Machine_new :: "'k \<Rightarrow> 'k CPU" where
  "Machine_new k = \<lparr>registers = replicate NumTotalRegs 0, mainMemory = replicate (nat MemorySize) 0,
     tlb = None, pageTable = None, pageTableSize = 0, os = k\<rparr>"

subsection \<open>Registers and exceptions\<close>

definition reg :: "nat \<Rightarrow> 'k cpu \<Rightarrow> 32 word" where
  "reg i m = registers (dev m) ! i"

definition set_reg :: "nat \<Rightarrow> 32 word \<Rightarrow> 'k cpu \<Rightarrow> 'k cpu" where
  "set_reg i v m = m\<lparr>dev := (dev m)\<lparr>registers := (registers (dev m))[i := v]\<rparr>\<rparr>"

definition Machine_ReadRegister :: "int \<Rightarrow> 'k cpu \<Rightarrow> 32 word res" where
  "Machine_ReadRegister num m = assertR (0 \<le> num \<and> num < int NumTotalRegs) (Inr (reg (nat num) m))"

definition Machine_WriteRegister :: "int \<Rightarrow> 32 word \<Rightarrow> 'k cpu \<Rightarrow> 'k cpu res" where
  "Machine_WriteRegister num v m = assertR (0 \<le> num \<and> num < int NumTotalRegs) (Inr (set_reg (nat num) v m))"

definition Machine_DelayedLoad :: "32 word \<Rightarrow> 32 word \<Rightarrow> 'k cpu \<Rightarrow> 'k cpu res" where
  "Machine_DelayedLoad nextReg nextValue m =
     (let target = sint (reg LoadReg m)
      in inboundsR target (int NumTotalRegs)
        (Inr (set_reg 0 0 (set_reg LoadValueReg nextValue (set_reg LoadReg nextReg
               (set_reg (nat target) (reg LoadValueReg m) m))))))"

definition Machine_RaiseException ::
  "'k exception_handler \<Rightarrow> ExceptionType \<Rightarrow> 32 word \<Rightarrow> 'k cpu \<Rightarrow> 'k cpu res" where
  "Machine_RaiseException ExceptionHandler which badVAddr m =
     bindR (Machine_DelayedLoad 0 0 (set_reg BadVAddrReg badVAddr m)) (\<lambda>m.
     bindR (ExceptionHandler which (m\<lparr>mstatus := SystemMode\<rparr>)) (\<lambda>m.
       Inr (m\<lparr>mstatus := UserMode\<rparr>)))"

subsection \<open>Address translation\<close>

text \<open>
  The part of \<^verbatim>\<open>Translate\<close> after the entry has been found; \<open>put\<close> stores the entry back into its
  table. The frame number is read as an unsigned number.
\<close>

definition use_entry ::
  "TranslationEntry \<Rightarrow> (TranslationEntry \<Rightarrow> 'k cpu) \<Rightarrow> int \<Rightarrow> int \<Rightarrow> bool \<Rightarrow> 'k cpu \<Rightarrow>
   (ExceptionType \<times> int \<times> 'k cpu) res" where
  "use_entry entry put offset sz writing m =
     (if readOnly entry \<and> writing then Inr (ReadOnlyException, 0, m)
      else let pageFrame = physicalPage entry mod 2 ^ 32
        in if pageFrame \<ge> NumPhysPages then Inr (BusErrorException, 0, m)
           else let m = put (entry\<lparr>used := True, dirty := dirty entry \<or> writing\<rparr>);
                    physAddr = pageFrame * PageSize + offset
             in assertR (0 \<le> physAddr \<and> physAddr + sz \<le> MemorySize) (Inr (NoException, physAddr, m)))"

definition Machine_Translate ::
  "32 word \<Rightarrow> int \<Rightarrow> bool \<Rightarrow> 'k cpu \<Rightarrow> (ExceptionType \<times> int \<times> 'k cpu) res" where
  "Machine_Translate virtAddr sz writing m =
     (if sz = 4 \<and> virtAddr AND 3 \<noteq> 0 \<or> sz = 2 \<and> virtAddr AND 1 \<noteq> 0 then Inr (AddressErrorException, 0, m)
      else assertR (tlb (dev m) = None \<or> pageTable (dev m) = None)
       (let vpn = uint virtAddr div PageSize; offset = uint virtAddr mod PageSize
        in case tlb (dev m) of
             Some t \<Rightarrow> inboundsR (int TLBSize - 1) (int (length t))
               (case List.find (\<lambda>i. valid (t ! i) \<and> virtualPage (t ! i) = vpn) [0..<TLBSize] of
                  None \<Rightarrow> Inr (PageFaultException, 0, m)
                | Some i \<Rightarrow> use_entry (t ! i) (\<lambda>e. m\<lparr>dev := (dev m)\<lparr>tlb := Some (t[i := e])\<rparr>\<rparr>) offset sz writing m)
           | None \<Rightarrow> (case pageTable (dev m) of
               None \<Rightarrow> Inl AssertFailed
             | Some t \<Rightarrow>
                 if vpn \<ge> pageTableSize (dev m) then Inr (AddressErrorException, 0, m)
                 else inboundsR vpn (int (length t))
                   (if \<not> valid (t ! nat vpn) then Inr (PageFaultException, 0, m)
                    else use_entry (t ! nat vpn)
                      (\<lambda>e. m\<lparr>dev := (dev m)\<lparr>pageTable := Some (t[nat vpn := e])\<rparr>\<rparr>) offset sz writing m))))"

subsection \<open>Memory\<close>

text \<open>\<open>None\<close> stands for the result \<^verbatim>\<open>FALSE\<close>: the exception handler has run.\<close>

definition Machine_ReadMem ::
  "'k exception_handler \<Rightarrow> 32 word \<Rightarrow> int \<Rightarrow> 'k cpu \<Rightarrow> (32 word option \<times> 'k cpu) res" where
  "Machine_ReadMem h addr sz m =
     bindR (Machine_Translate addr sz False m) (\<lambda>(exception, physicalAddress, m).
       if exception \<noteq> NoException
       then bindR (Machine_RaiseException h exception addr m) (\<lambda>m. Inr (None, m))
       else if sz = 1 \<or> sz = 2 \<or> sz = 4 then
         inboundsR (physicalAddress + sz - 1) (int (length (mainMemory (dev m))))
           (let bs = take (nat sz) (drop (nat physicalAddress) (mainMemory (dev m)))
            in Inr (Some (if sz = 1 then scast (hd bs) else bytes_word bs), m))
       else Inl AssertFailed)"

definition machine_bytes :: "int \<Rightarrow> 32 word \<Rightarrow> byte list" where
  "machine_bytes sz v = (if sz = 1 then [ucast (v AND 0xff)] else take (nat sz) (word_bytes v))"

definition Machine_WriteMem ::
  "'k exception_handler \<Rightarrow> 32 word \<Rightarrow> int \<Rightarrow> 32 word \<Rightarrow> 'k cpu \<Rightarrow> (bool \<times> 'k cpu) res" where
  "Machine_WriteMem h addr sz v m =
     bindR (Machine_Translate addr sz True m) (\<lambda>(exception, physicalAddress, m).
       if exception \<noteq> NoException
       then bindR (Machine_RaiseException h exception addr m) (\<lambda>m. Inr (False, m))
       else if sz = 1 \<or> sz = 2 \<or> sz = 4 then
         inboundsR (physicalAddress + sz - 1) (int (length (mainMemory (dev m))))
           (Inr (True, m\<lparr>dev := (dev m)\<lparr>mainMemory :=
              overwrite (nat physicalAddress) (machine_bytes sz v) (mainMemory (dev m))\<rparr>\<rparr>))
       else Inl AssertFailed)"

subsection \<open>Which accesses are allowed, and where they go\<close>

definition paged :: "TranslationEntry list \<Rightarrow> 'k cpu \<Rightarrow> bool" where
  "paged pt m \<longleftrightarrow> tlb (dev m) = None \<and> pageTable (dev m) = Some pt \<and> pageTableSize (dev m) = int (length pt)
     \<and> length (mainMemory (dev m)) = nat MemorySize"

definition aligned :: "32 word \<Rightarrow> int \<Rightarrow> bool" where
  "aligned va sz \<longleftrightarrow> uint va mod sz = 0"

definition frame :: "TranslationEntry \<Rightarrow> int" where
  "frame e = physicalPage e mod 2 ^ 32"

definition page_of :: "32 word \<Rightarrow> nat" where
  "page_of va = nat (uint va div PageSize)"

definition accessible :: "TranslationEntry list \<Rightarrow> 32 word \<Rightarrow> int \<Rightarrow> bool \<Rightarrow> bool" where
  "accessible pt va sz w \<longleftrightarrow> aligned va sz \<and> page_of va < length pt \<and> valid (pt ! page_of va)
     \<and> \<not> (readOnly (pt ! page_of va) \<and> w) \<and> frame (pt ! page_of va) < NumPhysPages"

definition phys :: "TranslationEntry list \<Rightarrow> 32 word \<Rightarrow> int" where
  "phys pt va = frame (pt ! page_of va) * PageSize + uint va mod PageSize"

text \<open>The only change a successful translation makes: the use and dirty bits of its entry.\<close>

definition touched :: "TranslationEntry list \<Rightarrow> 32 word \<Rightarrow> bool \<Rightarrow> TranslationEntry list" where
  "touched pt va w = pt[page_of va := (pt ! page_of va)
     \<lparr>used := True, dirty := dirty (pt ! page_of va) \<or> w\<rparr>]"

definition with_table :: "TranslationEntry list \<Rightarrow> 'k cpu \<Rightarrow> 'k cpu" where
  "with_table pt m = m\<lparr>dev := (dev m)\<lparr>pageTable := Some pt, pageTableSize := int (length pt)\<rparr>\<rparr>"

lemma uint_and_mask: "uint (va AND 3) = uint va mod 4" "uint (va AND 1) = uint va mod 2" for va :: "32 word"
proof -
  have "va AND 3 = take_bit 2 va" "va AND 1 = take_bit 1 va" by (simp_all add: take_bit_eq_mask mask_eq_exp_minus_1)
  moreover have "take_bit 2 (uint va) = uint va mod 4" "take_bit 1 (uint va) = uint va mod 2"
    by (simp_all only: take_bit_eq_mod) simp_all
  ultimately show "uint (va AND 3) = uint va mod 4" "uint (va AND 1) = uint va mod 2"
    by (simp_all only: unsigned_take_bit_eq)
qed

lemma alignment:
  fixes va :: "32 word"
  assumes "sz \<in> {1, 2, 4}"
  shows "(sz = 4 \<and> va AND 3 \<noteq> 0 \<or> sz = 2 \<and> va AND 1 \<noteq> 0) \<longleftrightarrow> \<not> aligned va sz"
proof -
  have "va AND 3 = 0 \<longleftrightarrow> uint va mod 4 = 0" "va AND 1 = 0 \<longleftrightarrow> uint va mod 2 = 0"
    by (simp_all only: uint_and_mask [symmetric] unsigned_eq_0_iff)
  with assms show ?thesis by (auto simp: aligned_def)
qed

lemma offset_room:
  assumes "aligned va sz" "sz \<in> {1, 2, 4}"
  shows "0 \<le> uint va mod PageSize" "uint va mod PageSize + sz \<le> PageSize"
proof -
  have "sz dvd 128" using assms(2) by auto
  then have m: "uint va mod 128 mod sz = 0" using assms(1) by (simp add: aligned_def mod_mod_cancel)
  have r: "0 \<le> uint va mod 128" "uint va mod 128 < 128" by simp_all
  show "0 \<le> uint va mod PageSize" by (simp add: PageSize_def)
  obtain k where "uint va mod 128 = sz * k" using m by auto
  then show "uint va mod PageSize + sz \<le> PageSize" using r assms(2) by (auto simp: PageSize_def)
qed

lemma phys_bounds:
  assumes "accessible pt va sz w" "sz \<in> {1, 2, 4}"
  shows "0 \<le> phys pt va" "phys pt va + sz \<le> MemorySize"
    "phys pt va div PageSize = frame (pt ! page_of va)" "(phys pt va + sz - 1) div PageSize = frame (pt ! page_of va)"
proof -
  have al: "aligned va sz" and f: "frame (pt ! page_of va) < 128"
    using assms(1) by (simp_all add: accessible_def NumPhysPages_def)
  note o = offset_room [OF al assms(2), unfolded PageSize_def]
  have f0: "0 \<le> frame (pt ! page_of va)" by (simp add: frame_def)
  have sz: "1 \<le> sz" using assms(2) by auto
  let ?f = "frame (pt ! page_of va)" and ?o = "uint va mod 128"
  show "0 \<le> phys pt va" "phys pt va + sz \<le> MemorySize"
    using f f0 o unfolding phys_def MemorySize_def PageSize_def NumPhysPages_def by linarith+
  have "(?f * 128 + x) div 128 = ?f" if "0 \<le> x" "x < 128" for x using that by simp
  from this [of ?o] this [of "?o + sz - 1"] o sz
  show "phys pt va div PageSize = ?f" "(phys pt va + sz - 1) div PageSize = ?f"
    unfolding phys_def PageSize_def by (simp_all add: add_diff_eq [symmetric])
qed

lemma paged_with_table: "paged pt m \<Longrightarrow> length pt' = length pt \<Longrightarrow> paged pt' (with_table pt' m)"
  by (simp add: paged_def with_table_def)

lemma length_touched [simp]: "length (touched pt va w) = length pt"
  by (simp add: touched_def)

lemma page_index: "0 \<le> uint va div PageSize" "nat (uint va div PageSize) = page_of va"
  "uint va div PageSize < int n \<longleftrightarrow> page_of va < n" "int n \<le> uint va div PageSize \<longleftrightarrow> n \<le> page_of va"
proof -
  show nn: "0 \<le> uint va div PageSize" by (simp add: PageSize_def pos_imp_zdiv_nonneg_iff)
  show "nat (uint va div PageSize) = page_of va" by (simp add: page_of_def)
  show "uint va div PageSize < int n \<longleftrightarrow> page_of va < n" "int n \<le> uint va div PageSize \<longleftrightarrow> n \<le> page_of va"
    using nn unfolding page_of_def by linarith+
qed

lemma Translate_accessible:
  assumes "paged pt m" "sz \<in> {1, 2, 4}" "accessible pt va sz w"
  shows "Machine_Translate va sz w m = Inr (NoException, phys pt va, with_table (touched pt va w) m)"
proof -
  have al: "\<not> (sz = 4 \<and> va AND 3 \<noteq> 0 \<or> sz = 2 \<and> va AND 1 \<noteq> 0)"
    using alignment [OF assms(2)] assms(3) by (simp add: accessible_def)
  have m: "with_table (touched pt va w) m = m\<lparr>dev := (dev m)\<lparr>pageTable := Some (touched pt va w)\<rparr>\<rparr>"
    using assms(1) by (simp add: with_table_def paged_def)
  have e: "page_of va < length pt" "valid (pt ! page_of va)" "\<not> (readOnly (pt ! page_of va) \<and> w)"
    "\<not> NumPhysPages \<le> physicalPage (pt ! page_of va) mod 2 ^ 32"
    using assms(3) by (auto simp: accessible_def frame_def)
  show ?thesis
    using assms(1) al e phys_bounds [OF assms(3,2)]
    unfolding Machine_Translate_def m paged_def
    by (simp add: page_index use_entry_def touched_def phys_def frame_def Let_def inboundsR_def
        not_le not_less del: de_Morgan_disj de_Morgan_conj)
qed

lemma Translate_denied:
  assumes "paged pt m" "sz \<in> {1, 2, 4}" "\<not> accessible pt va sz w"
  shows "\<exists>e. e \<noteq> NoException \<and> Machine_Translate va sz w m = Inr (e, 0, m)"
  using assms alignment [OF assms(2), of va]
  by (auto simp: Machine_Translate_def paged_def accessible_def use_entry_def frame_def page_index Let_def
      inboundsR_def)

subsection \<open>Memory behaves as memory\<close>

definition load_bytes :: "int \<Rightarrow> byte list \<Rightarrow> 32 word" where
  "load_bytes sz bs = (if sz = 1 then scast (hd bs) else bytes_word bs)"

definition bytes_at :: "int \<Rightarrow> int \<Rightarrow> 'k cpu \<Rightarrow> byte list" where
  "bytes_at pa sz m = take (nat sz) (drop (nat pa) (mainMemory (dev m)))"

definition store_at :: "int \<Rightarrow> byte list \<Rightarrow> 'k cpu \<Rightarrow> 'k cpu" where
  "store_at pa bs m = m\<lparr>dev := (dev m)\<lparr>mainMemory := overwrite (nat pa) bs (mainMemory (dev m))\<rparr>\<rparr>"

text \<open>What a read returns after a write of the same size.\<close>

definition truncated :: "int \<Rightarrow> 32 word \<Rightarrow> 32 word" where
  "truncated sz v = (if sz = 1 then scast (ucast v :: 8 word) else if sz = 2 then v AND 0xffff else v)"

lemma length_word_bytes [simp]: "length (word_bytes v) = 4"
  by (simp add: word_bytes_def)

lemma length_machine_bytes: "sz \<in> {1, 2, 4} \<Longrightarrow> length (machine_bytes sz v) = nat sz"
  by (auto simp: machine_bytes_def)

lemma bytes_word_2: "bytes_word (take 2 (word_bytes v)) = v AND 0xffff"
proof -
  let ?u = "uint v"
  have "?u mod (256 * 256) = 256 * (?u div 256 mod 256) + ?u mod 256" by (rule zmod_zmult2_eq) simp
  moreover have "uint (ucast v :: 8 word) = ?u mod 256" by (simp add: unsigned_ucast_eq take_bit_eq_mod)
  ultimately have "bytes_uint (take 2 (word_bytes v)) = ?u mod 65536"
    by (simp add: word_bytes_def int_bytes_4 bytes_uint_def eval_nat_numeral lessThan_Suc uint_word_of_int algebra_simps)
  moreover have "v AND 0xffff = take_bit 16 v" by (simp add: take_bit_eq_mask mask_eq_exp_minus_1)
  moreover have "take_bit 16 v = word_of_int (take_bit 16 ?u)"
    by (metis unsigned_take_bit_eq word_of_int_uint)
  moreover have "take_bit 16 ?u = ?u mod 65536" by (simp add: take_bit_eq_mod)
  ultimately show ?thesis by (simp add: bytes_word_def)
qed

lemma load_machine_bytes: "sz \<in> {1, 2, 4} \<Longrightarrow> load_bytes sz (machine_bytes sz v) = truncated sz v"
proof -
  have "v AND 0xff = take_bit 8 v" by (simp add: take_bit_eq_mask mask_eq_exp_minus_1)
  moreover have "ucast (take_bit 8 v) = (ucast v :: 8 word)" by (rule bit_word_eqI) (simp add: bit_simps)
  ultimately have "ucast (v AND 0xff) = (ucast v :: 8 word)" by simp
  then show "sz \<in> {1, 2, 4} \<Longrightarrow> load_bytes sz (machine_bytes sz v) = truncated sz v"
    using word_codec.dec_enc [of v] bytes_word_2 [of v]
    by (auto simp: load_bytes_def machine_bytes_def truncated_def)
qed

lemma ReadMem_ok:
  assumes "paged pt m" "sz \<in> {1, 2, 4}" "accessible pt va sz False"
  shows "Machine_ReadMem h va sz m
     = Inr (Some (load_bytes sz (bytes_at (phys pt va) sz m)), with_table (touched pt va False) m)"
proof -
  have "length (mainMemory (dev m)) = nat MemorySize" "sz = 1 \<or> sz = 2 \<or> sz = 4"
    using assms(1,2) by (auto simp: paged_def)
  then show ?thesis
    using phys_bounds [OF assms(3,2)]
    by (auto simp: Machine_ReadMem_def Translate_accessible [OF assms] load_bytes_def bytes_at_def with_table_def
        inboundsR_def Let_def)
qed

lemma WriteMem_ok:
  assumes "paged pt m" "sz \<in> {1, 2, 4}" "accessible pt va sz True"
  shows "Machine_WriteMem h va sz v m
     = Inr (True, store_at (phys pt va) (machine_bytes sz v) (with_table (touched pt va True) m))"
proof -
  have "length (mainMemory (dev m)) = nat MemorySize" "sz = 1 \<or> sz = 2 \<or> sz = 4"
    using assms(1,2) by (auto simp: paged_def)
  then show ?thesis
    using phys_bounds [OF assms(3,2)]
    by (auto simp: Machine_WriteMem_def Translate_accessible [OF assms] with_table_def store_at_def inboundsR_def)
qed

lemma denied_access:
  assumes "paged pt m" "sz \<in> {1, 2, 4}"
  shows "\<not> accessible pt va sz False \<Longrightarrow> \<exists>e. e \<noteq> NoException \<and> Machine_ReadMem h va sz m
       = bindR (Machine_RaiseException h e va m) (\<lambda>m. Inr (None, m))"
    "\<not> accessible pt va sz True \<Longrightarrow> \<exists>e. e \<noteq> NoException \<and> Machine_WriteMem h va sz v m
       = bindR (Machine_RaiseException h e va m) (\<lambda>m. Inr (False, m))"
  using Translate_denied [OF assms, of va]
  by (fastforce simp: Machine_ReadMem_def Machine_WriteMem_def)+

text \<open>The bytes of a frame, and two accesses to different frames.\<close>

lemma in_page:
  assumes "accessible pt va sz w" "sz \<in> {1, 2, 4}" "phys pt va \<le> a" "a < phys pt va + sz"
  shows "a div PageSize = frame (pt ! page_of va)"
proof -
  note b = phys_bounds [OF assms(1,2)]
  have "phys pt va div PageSize \<le> a div PageSize" "a div PageSize \<le> (phys pt va + sz - 1) div PageSize"
    using assms(3,4) by (simp_all add: PageSize_def zdiv_mono1)
  then show ?thesis unfolding b by simp
qed

lemma apart:
  assumes "accessible pt va sz w" "sz \<in> {1, 2, 4}" "accessible pt' va' sz' w'" "sz' \<in> {1, 2, 4}"
    "frame (pt ! page_of va) \<noteq> frame (pt' ! page_of va')"
  shows "phys pt va + sz \<le> phys pt' va' \<or> phys pt' va' + sz' \<le> phys pt va"
proof (rule ccontr)
  assume *: "\<not> ?thesis"
  let ?a = "max (phys pt va) (phys pt' va')"
  have pos: "0 < sz" "0 < sz'" using assms(2,4) by auto
  have "?a div PageSize = frame (pt ! page_of va)"
    by (rule in_page [OF assms(1,2)]) (use * pos in auto)
  moreover have "?a div PageSize = frame (pt' ! page_of va')"
    by (rule in_page [OF assms(3,4)]) (use * pos in auto)
  ultimately show False using assms(5) by simp
qed

lemma bytes_at_store_other:
  assumes "length (mainMemory (dev m)) = nat MemorySize" "0 \<le> pa" "pa + int (length bs) \<le> MemorySize"
    "0 \<le> qa" "0 \<le> sz" "qa + sz \<le> MemorySize" "pa + int (length bs) \<le> qa \<or> qa + sz \<le> pa"
  shows "bytes_at qa sz (store_at pa bs m) = bytes_at qa sz m"
proof -
  have "nat pa + length bs \<le> nat MemorySize" "nat qa + nat sz \<le> nat MemorySize"
    "nat qa + nat sz \<le> nat pa \<or> nat pa + length bs \<le> nat qa"
    using assms(2-7) by (simp_all add: nat_le_eq_zle nat_add_distrib [symmetric] zle_int [symmetric] del: zle_int) linarith+
  then show ?thesis
    using read_overwrite_other [of "nat pa" bs "mainMemory (dev m)" "nat qa" "nat sz"] assms(1)
    by (simp add: bytes_at_def store_at_def)
qed

text \<open>Use and dirty bits decide nothing.\<close>

lemma nth_update: "xs[j := x] ! i = (if i = j \<and> j < length xs then x else xs ! i)"
  by (cases "j < length xs") (auto simp: list_update_beyond)

lemma touched_nth:
  "valid (touched pt va w ! i) = valid (pt ! i)" "readOnly (touched pt va w ! i) = readOnly (pt ! i)"
  "frame (touched pt va w ! i) = frame (pt ! i)"
  unfolding touched_def nth_update frame_def by (simp_all split: if_split)

lemma touched_same [simp]:
  "accessible (touched pt va w) = accessible pt" "phys (touched pt va w) = phys pt"
  by (simp_all add: fun_eq_iff accessible_def phys_def touched_nth)

lemma store_simps [simp]:
  "bytes_at qa sz (with_table t m) = bytes_at qa sz m"
  "with_table t (store_at pa bs m) = store_at pa bs (with_table t m)"
  "with_table t (with_table t' m) = with_table t m"
  by (auto simp: paged_def store_at_def bytes_at_def with_table_def)

lemma paged_store:
  assumes "paged pt m" "0 \<le> pa" "pa + int (length bs) \<le> MemorySize"
  shows "paged pt (store_at pa bs m)"
proof -
  have "nat pa + length bs \<le> nat MemorySize" using assms(2,3) by linarith
  then show ?thesis using assms(1) by (simp add: paged_def store_at_def)
qed

lemma write_step:
  fixes v :: "32 word"
  assumes "paged pt m" "sz \<in> {1, 2, 4}" "accessible pt va sz True"
  defines "m' \<equiv> store_at (phys pt va) (machine_bytes sz v) (with_table (touched pt va True) m)"
  shows "Machine_WriteMem h va sz v m = Inr (True, m')" "paged (touched pt va True) m'"
    "bytes_at (phys pt va) sz m' = machine_bytes sz v"
    "0 \<le> qa \<Longrightarrow> 0 \<le> sz' \<Longrightarrow> qa + sz' \<le> MemorySize \<Longrightarrow> phys pt va + sz \<le> qa \<or> qa + sz' \<le> phys pt va \<Longrightarrow>
       bytes_at qa sz' m' = bytes_at qa sz' m"
proof -
  note b = phys_bounds [OF assms(3,2)] and len = length_machine_bytes [OF assms(2), of v]
  have sz: "0 < sz" using assms(2) by auto
  have p: "paged (touched pt va True) (with_table (touched pt va True) m)"
    by (rule paged_with_table [OF assms(1)]) simp
  then have mem: "length (mainMemory (dev (with_table (touched pt va True) m))) = nat MemorySize" by (simp add: paged_def)
  show "Machine_WriteMem h va sz v m = Inr (True, m')" unfolding m'_def by (rule WriteMem_ok [OF assms(1-3)])
  show "paged (touched pt va True) m'" unfolding m'_def by (rule paged_store [OF p]) (use b len sz in simp_all)
  have "nat (phys pt va) + length (machine_bytes sz v) \<le> nat MemorySize" using b(1,2) len sz by linarith
  with mem show "bytes_at (phys pt va) sz m' = machine_bytes sz v"
    using read_overwrite [of "nat (phys pt va)" "machine_bytes sz v" "mainMemory (dev (with_table (touched pt va True) m))"] len
    by (simp add: m'_def bytes_at_def store_at_def)
  assume "0 \<le> qa" "0 \<le> sz'" "qa + sz' \<le> MemorySize" "phys pt va + sz \<le> qa \<or> qa + sz' \<le> phys pt va"
  then have "bytes_at qa sz' m' = bytes_at qa sz' (with_table (touched pt va True) m)"
    unfolding m'_def by (intro bytes_at_store_other [OF mem]) (use b len sz in simp_all)
  then show "bytes_at qa sz' m' = bytes_at qa sz' m" by simp
qed

subsection \<open>Properties\<close>

text \<open>
  C37: address translation grants exactly the aligned accesses to a valid page with a frame of the
  machine, writes only if the page is not read-only; the physical address lies in that frame inside the memory,
  and nothing changes but the use and dirty bits of that page. Every other access gets an
  exception and changes nothing; the assertion of the routine never fails.
\<close>

theorem Translate_exact:
  assumes "paged pt m" "sz \<in> {1, 2, 4}"
  shows "if accessible pt va sz w
     then Machine_Translate va sz w m = Inr (NoException, phys pt va, with_table (touched pt va w) m)
        \<and> 0 \<le> phys pt va \<and> phys pt va + sz \<le> MemorySize \<and> phys pt va div PageSize = frame (pt ! page_of va)
        \<and> phys pt va mod PageSize = uint va mod PageSize
     else \<exists>e. e \<noteq> NoException \<and> Machine_Translate va sz w m = Inr (e, 0, m)"
  using Translate_accessible [OF assms] Translate_denied [OF assms] phys_bounds [OF _ assms(2)]
  by (auto simp: phys_def PageSize_def)

definition sample_table :: "TranslationEntry list" where
  "sample_table = [\<lparr>virtualPage = 0, physicalPage = 5, valid = True, readOnly = False, used = False, dirty = False\<rparr>]"

definition other_table :: "TranslationEntry list" where
  "other_table = [\<lparr>virtualPage = 0, physicalPage = 6, valid = True, readOnly = False, used = False, dirty = False\<rparr>]"

definition sample_cpu :: "unit cpu" where
  "sample_cpu = with_table sample_table (Interrupt_new (Machine_new ()))"

lemma sample_cpu_ok: "paged sample_table sample_cpu" "length sample_table = 1"
  "accessible sample_table 8 4 w" "accessible other_table 8 4 w"
  by (auto simp: paged_def sample_cpu_def with_table_def Interrupt_new_def Machine_new_def accessible_def aligned_def
      page_of_def PageSize_def sample_table_def other_table_def frame_def NumPhysPages_def)

lemma Translate_exact_witness:
  "if accessible sample_table 8 4 True
     then Machine_Translate 8 4 True sample_cpu = Inr (NoException, phys sample_table 8, with_table (touched sample_table 8 True) sample_cpu)
        \<and> 0 \<le> phys sample_table 8 \<and> phys sample_table 8 + 4 \<le> MemorySize
        \<and> phys sample_table 8 div PageSize = frame (sample_table ! page_of 8)
        \<and> phys sample_table 8 mod PageSize = uint (8 :: 32 word) mod PageSize
     else \<exists>e. e \<noteq> NoException \<and> Machine_Translate 8 4 True sample_cpu = Inr (e, 0, sample_cpu)"
  by (rule Translate_exact [OF sample_cpu_ok(1)]) simp

text \<open>
  memory is memory: a granted write followed by a read of the same size at the same address
  returns the value written (its low half or its sign-extended low byte for the short sizes), and any granted
  read that does not overlap the write returns what it returned before.
\<close>

theorem memory_roundtrip:
  assumes "paged pt m" "sz \<in> {1, 2, 4}" "accessible pt va sz True"
  shows "\<exists>m' m''. Machine_WriteMem h va sz v m = Inr (True, m') \<and> Machine_ReadMem h va sz m' = Inr (Some (truncated sz v), m'')
     \<and> (\<forall>va' sz'. sz' \<in> {1, 2, 4} \<longrightarrow> accessible pt va' sz' False \<longrightarrow>
          phys pt va + sz \<le> phys pt va' \<or> phys pt va' + sz' \<le> phys pt va \<longrightarrow>
          (\<exists>x m1 m2. Machine_ReadMem h va' sz' m = Inr (x, m1) \<and> Machine_ReadMem h va' sz' m' = Inr (x, m2)))"
proof -
  let ?m' = "store_at (phys pt va) (machine_bytes sz v) (with_table (touched pt va True) m)"
  note w = write_step(1) [OF assms, where h = h and v = v] write_step(2-4) [OF assms, where v = v]
  have acc: "accessible (touched pt va True) va sz False" using assms(3) by (simp add: accessible_def touched_nth)
  note r = ReadMem_ok [OF w(2) assms(2) acc, where h = h]
  have other: "\<exists>x m1 m2. Machine_ReadMem h va' sz' m = Inr (x, m1) \<and> Machine_ReadMem h va' sz' ?m' = Inr (x, m2)"
    if "sz' \<in> {1, 2, 4}" "accessible pt va' sz' False" "phys pt va + sz \<le> phys pt va' \<or> phys pt va' + sz' \<le> phys pt va"
    for va' sz'
  proof -
    have "accessible (touched pt va True) va' sz' False" using that(2) by simp
    note r' = ReadMem_ok [OF w(2) that(1) this, where h = h]
    have "bytes_at (phys pt va') sz' ?m' = bytes_at (phys pt va') sz' m"
      by (rule w(4)) (use phys_bounds [OF that(2,1)] that(1,3) in auto)
    with r' ReadMem_ok [OF assms(1) that(1,2), where h = h] show ?thesis by auto
  qed
  show ?thesis
    using w(1) r w(3) load_machine_bytes [OF assms(2), of v] other by - (rule exI [of _ ?m'], auto)
qed

lemma memory_roundtrip_witness:
  "\<exists>m' m''. Machine_WriteMem (\<lambda>e. Inr) 8 4 77 sample_cpu = Inr (True, m')
     \<and> Machine_ReadMem (\<lambda>e. Inr) 8 4 m' = Inr (Some (truncated 4 77), m'')
     \<and> (\<forall>va' sz'. sz' \<in> {1, 2, 4} \<longrightarrow> accessible sample_table va' sz' False \<longrightarrow>
          phys sample_table 8 + 4 \<le> phys sample_table va' \<or> phys sample_table va' + sz' \<le> phys sample_table 8 \<longrightarrow>
          (\<exists>x m1 m2. Machine_ReadMem (\<lambda>e. Inr) va' sz' sample_cpu = Inr (x, m1)
             \<and> Machine_ReadMem (\<lambda>e. Inr) va' sz' m' = Inr (x, m2)))"
  by (rule memory_roundtrip [OF sample_cpu_ok(1)]) (simp_all add: sample_cpu_ok)

text \<open>
  C18: processes are isolated: whatever a process writes through its page table, a process whose
  page table shares no frame with it reads the same values as before at every address.
\<close>

theorem processes_isolated:
  assumes "paged pt m" "sz \<in> {1, 2, 4}" "accessible pt va sz True"
    "\<forall>e\<in>set pt. \<forall>e'\<in>set pt'. valid e \<longrightarrow> valid e' \<longrightarrow> frame e \<noteq> frame e'"
  shows "\<exists>m'. Machine_WriteMem h va sz v m = Inr (True, m')
     \<and> (\<forall>va' sz'. sz' \<in> {1, 2, 4} \<longrightarrow> accessible pt' va' sz' False \<longrightarrow>
          (\<exists>x m1 m2. Machine_ReadMem h va' sz' (with_table pt' m) = Inr (x, m1)
             \<and> Machine_ReadMem h va' sz' (with_table pt' m') = Inr (x, m2)))"
proof -
  let ?m' = "store_at (phys pt va) (machine_bytes sz v) (with_table (touched pt va True) m)"
  note w = write_step(1) [OF assms(1-3), where h = h and v = v] write_step(2-4) [OF assms(1-3), where v = v]
  have paged': "paged pt' (with_table pt' m)" "paged pt' (with_table pt' ?m')"
    using assms(1) w(2) by (auto simp: paged_def with_table_def)
  have "\<exists>x m1 m2. Machine_ReadMem h va' sz' (with_table pt' m) = Inr (x, m1)
      \<and> Machine_ReadMem h va' sz' (with_table pt' ?m') = Inr (x, m2)"
    if "sz' \<in> {1, 2, 4}" "accessible pt' va' sz' False" for va' sz'
  proof -
    have "pt ! page_of va \<in> set pt" "valid (pt ! page_of va)" "pt' ! page_of va' \<in> set pt'" "valid (pt' ! page_of va')"
      using assms(3) that(2) by (auto simp: accessible_def)
    then have "frame (pt ! page_of va) \<noteq> frame (pt' ! page_of va')" using assms(4) by blast
    note ap = apart [OF assms(3,2) that(2,1) this]
    have "bytes_at (phys pt' va') sz' ?m' = bytes_at (phys pt' va') sz' m"
      by (rule w(4)) (use phys_bounds [OF that(2,1)] that(1) ap in auto)
    then have "bytes_at (phys pt' va') sz' (with_table pt' ?m') = bytes_at (phys pt' va') sz' (with_table pt' m)"
      by (simp add: bytes_at_def with_table_def)
    with ReadMem_ok [OF paged'(1) that, where h = h] ReadMem_ok [OF paged'(2) that, where h = h] show ?thesis by auto
  qed
  with w(1) show ?thesis by blast
qed

lemma processes_isolated_witness:
  "\<exists>m'. Machine_WriteMem (\<lambda>e. Inr) 8 4 77 sample_cpu = Inr (True, m')
     \<and> (\<forall>va' sz'. sz' \<in> {1, 2, 4} \<longrightarrow> accessible other_table va' sz' False \<longrightarrow>
          (\<exists>x m1 m2. Machine_ReadMem (\<lambda>e. Inr) va' sz' (with_table other_table sample_cpu) = Inr (x, m1)
             \<and> Machine_ReadMem (\<lambda>e. Inr) va' sz' (with_table other_table m') = Inr (x, m2)))"
  by (rule processes_isolated [OF sample_cpu_ok(1)])
     (simp_all add: sample_cpu_ok, simp add: sample_table_def other_table_def frame_def)

end
