(* ===== verification/Mips.thy ===== *)
theory Mips
  imports Machines
begin

text \<open>
  \<^verbatim>\<open>machine/mipssim.cc\<close> and \<^verbatim>\<open>mipssim.h\<close>: the simulated MIPS processor. The decoder and its tables,
  the multiplication routine, and \<^verbatim>\<open>OneInstruction\<close>, one definition per stretch of its \<^verbatim>\<open>switch\<close>,
  compiled with \<^verbatim>\<open>SIM_FIX\<close> on a little-endian host as the Makefile says. Registers are words:
  their arithmetic wraps, as the overflow tests of the code expect. The theory proves that decoding
  is well-formed, that \<^verbatim>\<open>Mult\<close> is multiplication, and that no program can make the simulator
  fail except by the one division that traps.
\<close>

subsection \<open>Instructions\<close>

datatype (plugins only: code) OpCode =
    OP_ADD | OP_ADDI | OP_ADDIU | OP_ADDU | OP_AND | OP_ANDI | OP_BEQ | OP_BGEZ | OP_BGEZAL | OP_BGTZ |
    OP_BLEZ | OP_BLTZ | OP_BLTZAL | OP_BNE | OP_DIV | OP_DIVU | OP_J | OP_JAL | OP_JALR | OP_JR |
    OP_LB | OP_LBU | OP_LH | OP_LHU | OP_LUI | OP_LW | OP_LWL | OP_LWR | OP_MFHI | OP_MFLO | OP_MTHI |
    OP_MTLO | OP_MULT | OP_MULTU | OP_NOR | OP_OR | OP_ORI | OP_RFE | OP_SB | OP_SH | OP_SLL | OP_SLLV |
    OP_SLT | OP_SLTI | OP_SLTIU | OP_SLTU | OP_SRA | OP_SRAV | OP_SRL | OP_SRLV | OP_SUB | OP_SUBU |
    OP_SW | OP_SWL | OP_SWR | OP_XOR | OP_XORI | OP_SYSCALL | OP_UNIMP | OP_RES | SPECIAL | BCOND

datatype Format = IFMT | JFMT | RFMT

definition opTable :: "(OpCode \<times> Format) list" where
  "opTable = [
     (SPECIAL, RFMT), (BCOND, IFMT), (OP_J, JFMT), (OP_JAL, JFMT), (OP_BEQ, IFMT), (OP_BNE, IFMT),
     (OP_BLEZ, IFMT), (OP_BGTZ, IFMT), (OP_ADDI, IFMT), (OP_ADDIU, IFMT), (OP_SLTI, IFMT),
     (OP_SLTIU, IFMT), (OP_ANDI, IFMT), (OP_ORI, IFMT), (OP_XORI, IFMT), (OP_LUI, IFMT),
     (OP_UNIMP, IFMT), (OP_UNIMP, IFMT), (OP_UNIMP, IFMT), (OP_UNIMP, IFMT), (OP_RES, IFMT),
     (OP_RES, IFMT), (OP_RES, IFMT), (OP_RES, IFMT), (OP_RES, IFMT), (OP_RES, IFMT), (OP_RES, IFMT),
     (OP_RES, IFMT), (OP_RES, IFMT), (OP_RES, IFMT), (OP_RES, IFMT), (OP_RES, IFMT), (OP_LB, IFMT),
     (OP_LH, IFMT), (OP_LWL, IFMT), (OP_LW, IFMT), (OP_LBU, IFMT), (OP_LHU, IFMT), (OP_LWR, IFMT),
     (OP_RES, IFMT), (OP_SB, IFMT), (OP_SH, IFMT), (OP_SWL, IFMT), (OP_SW, IFMT), (OP_RES, IFMT),
     (OP_RES, IFMT), (OP_SWR, IFMT), (OP_RES, IFMT), (OP_UNIMP, IFMT), (OP_UNIMP, IFMT),
     (OP_UNIMP, IFMT), (OP_UNIMP, IFMT), (OP_RES, IFMT), (OP_RES, IFMT), (OP_RES, IFMT), (OP_RES, IFMT),
     (OP_UNIMP, IFMT), (OP_UNIMP, IFMT), (OP_UNIMP, IFMT), (OP_UNIMP, IFMT), (OP_RES, IFMT),
     (OP_RES, IFMT), (OP_RES, IFMT), (OP_RES, IFMT)]"

definition specialTable :: "OpCode list" where
  "specialTable = [
     OP_SLL, OP_RES, OP_SRL, OP_SRA, OP_SLLV, OP_RES, OP_SRLV, OP_SRAV, OP_JR, OP_JALR, OP_RES, OP_RES,
     OP_SYSCALL, OP_UNIMP, OP_RES, OP_RES, OP_MFHI, OP_MTHI, OP_MFLO, OP_MTLO, OP_RES, OP_RES, OP_RES,
     OP_RES, OP_MULT, OP_MULTU, OP_DIV, OP_DIVU, OP_RES, OP_RES, OP_RES, OP_RES, OP_ADD, OP_ADDU,
     OP_SUB, OP_SUBU, OP_AND, OP_OR, OP_XOR, OP_NOR, OP_RES, OP_RES, OP_SLT, OP_SLTU, OP_RES, OP_RES,
     OP_RES, OP_RES, OP_RES, OP_RES, OP_RES, OP_RES, OP_RES, OP_RES, OP_RES, OP_RES, OP_RES, OP_RES,
     OP_RES, OP_RES, OP_RES, OP_RES, OP_RES, OP_RES]"

record Instruction =
  opCode :: OpCode
  i_rs :: nat
  i_rt :: nat
  i_rd :: nat
  extra :: "32 word"

definition SIGN_BIT :: "32 word" where "SIGN_BIT = 0x80000000"
definition IndexToAddr :: "32 word \<Rightarrow> 32 word" where "IndexToAddr x = push_bit 2 x"
definition R31 :: nat where "R31 = 31"

definition Instruction_Decode :: "32 word \<Rightarrow> Instruction" where
  "Instruction_Decode v =
     (case opTable ! unat (drop_bit 26 v AND 0x3f) of (op, format) \<Rightarrow>
      \<lparr>opCode = (if op = SPECIAL then specialTable ! unat (v AND 0x3f)
                 else if op = BCOND then
                   (let i = v AND 0x1f0000
                    in if i = 0 then OP_BLTZ else if i = 0x10000 then OP_BGEZ
                       else if i = 0x100000 then OP_BLTZAL else if i = 0x110000 then OP_BGEZAL
                       else OP_UNIMP)
                 else op),
       i_rs = unat (drop_bit 21 v AND 0x1f),
       i_rt = unat (drop_bit 16 v AND 0x1f),
       i_rd = unat (drop_bit 11 v AND 0x1f),
       extra = (case format of
           IFMT \<Rightarrow> (let e = v AND 0xffff in if e AND 0x8000 \<noteq> 0 then e OR 0xffff0000 else e)
         | RFMT \<Rightarrow> drop_bit 6 v AND 0x1f
         | JFMT \<Rightarrow> v AND 0x3ffffff)\<rparr>)"

subsection \<open>Multiplication\<close>

text \<open>The loop over the bits of \<open>a\<close>; \<open>>>=\<close> on the \<^verbatim>\<open>int\<close> copies the sign.\<close>

fun mult_loop ::
  "nat \<Rightarrow> 32 word \<Rightarrow> 32 word \<Rightarrow> 32 word \<Rightarrow> 32 word \<Rightarrow> 32 word \<Rightarrow> 32 word \<times> 32 word" where
  "mult_loop 0 a bHi bLo hi lo = (hi, lo)"
| "mult_loop (Suc k) a bHi bLo hi lo =
     (let (hi, lo) = (if a AND 1 \<noteq> 0
            then (let lo = lo + bLo; hi = (if lo < bLo then hi + 1 else hi) in (hi + bHi, lo))
            else (hi, lo))
      in if a AND 1 \<noteq> 0 \<and> a AND 0xfffffffe = 0 then (hi, lo)
         else mult_loop k (signed_drop_bit 1 a)
                (let b = push_bit 1 bHi in if bLo AND 0x80000000 \<noteq> 0 then b OR 1 else b)
                (push_bit 1 bLo) hi lo)"

definition Mult :: "32 word \<Rightarrow> 32 word \<Rightarrow> bool \<Rightarrow> 32 word \<times> 32 word" where
  "Mult a b signedArith =
     (if a = 0 \<or> b = 0 then (0, 0)
      else let negative = (signedArith \<and> (sint a < 0) \<noteq> (sint b < 0));
               a = (if signedArith \<and> sint a < 0 then - a else a);
               b = (if signedArith \<and> sint b < 0 then - b else b);
               (hi, lo) = mult_loop 32 a 0 b 0 0
           in if negative
              then (let lo = NOT lo + 1 in (if lo = 0 then NOT hi + 1 else NOT hi, lo))
              else (hi, lo))"

subsection \<open>Execution\<close>

text \<open>
  How the \<^verbatim>\<open>switch\<close> ends: by \<^verbatim>\<open>return\<close> after an exception has been handled, or with the values
  \<^verbatim>\<open>pcAfter\<close>, \<^verbatim>\<open>nextLoadReg\<close> and \<^verbatim>\<open>nextLoadValue\<close>.
\<close>

datatype 'k outcome = Trapped "'k cpu" | Executed "'k cpu" "32 word" nat "32 word"

definition raise_in :: "'k exception_handler \<Rightarrow> ExceptionType \<Rightarrow> 32 word \<Rightarrow> 'k cpu \<Rightarrow> 'k outcome res" where
  "raise_in h which a m = bindR (Machine_RaiseException h which a m) (\<lambda>m. Inr (Trapped m))"

definition proceed :: "32 word \<Rightarrow> 'k cpu \<Rightarrow> 'k outcome res" where
  "proceed pcAfter m = Inr (Executed m pcAfter 0 0)"

definition read_or_trap ::
  "'k exception_handler \<Rightarrow> 32 word \<Rightarrow> int \<Rightarrow> 'k cpu \<Rightarrow> (32 word \<Rightarrow> 'k cpu \<Rightarrow> 'k outcome res) \<Rightarrow> 'k outcome res" where
  "read_or_trap h a sz m f =
     bindR (Machine_ReadMem h a sz m) (\<lambda>(x, m). case x of None \<Rightarrow> Inr (Trapped m) | Some v \<Rightarrow> f v m)"

definition write_or_trap ::
  "'k exception_handler \<Rightarrow> 32 word \<Rightarrow> int \<Rightarrow> 32 word \<Rightarrow> 32 word \<Rightarrow> 'k cpu \<Rightarrow> 'k outcome res" where
  "write_or_trap h a sz v pcAfter m =
     bindR (Machine_WriteMem h a sz v m) (\<lambda>(b, m). if b then proceed pcAfter m else Inr (Trapped m))"

definition exec_rest :: "'k exception_handler \<Rightarrow> Instruction \<Rightarrow> 32 word \<Rightarrow> 'k cpu \<Rightarrow> 'k outcome res" where
  "exec_rest h i pcAfter m =
     (let S = reg (i_rs i) m; T = reg (i_rt i) m
      in case opCode i of
        OP_SYSCALL \<Rightarrow> raise_in h SyscallException 0 m
      | OP_XOR \<Rightarrow> proceed pcAfter (set_reg (i_rd i) (S XOR T) m)
      | OP_XORI \<Rightarrow> proceed pcAfter (set_reg (i_rt i) (S XOR (extra i AND 0xffff)) m)
      | OP_RES \<Rightarrow> raise_in h IllegalInstrException 0 m
      | OP_UNIMP \<Rightarrow> raise_in h IllegalInstrException 0 m
      | _ \<Rightarrow> Inl AssertFailed)"

definition exec_swr :: "'k exception_handler \<Rightarrow> Instruction \<Rightarrow> 32 word \<Rightarrow> 'k cpu \<Rightarrow> 'k outcome res" where
  "exec_swr h i pcAfter m =
     (case opCode i of
        OP_SWR \<Rightarrow>
          (let tmp = reg (i_rs i) m + extra i; byte = tmp AND 3
           in read_or_trap h (tmp - byte) 4 m (\<lambda>v m.
             let T = reg (i_rt i) m;
                 v = (if 3 - byte = 0 then (v AND 0xffffff) OR push_bit 24 T
                      else if 3 - byte = 1 then (v AND 0xffff) OR push_bit 16 T
                      else if 3 - byte = 2 then (v AND 0xff) OR push_bit 8 T
                      else T)
             in write_or_trap h (tmp - byte) 4 v pcAfter m))
      | _ \<Rightarrow> exec_rest h i pcAfter m)"

definition exec_swl :: "'k exception_handler \<Rightarrow> Instruction \<Rightarrow> 32 word \<Rightarrow> 'k cpu \<Rightarrow> 'k outcome res" where
  "exec_swl h i pcAfter m =
     (case opCode i of
        OP_SWL \<Rightarrow>
          (let tmp = reg (i_rs i) m + extra i; byte = tmp AND 3
           in read_or_trap h (tmp - byte) 4 m (\<lambda>v m.
             let T = reg (i_rt i) m;
                 v = (if 3 - byte = 0 then T
                      else if 3 - byte = 1 then (v AND 0xff000000) OR (signed_drop_bit 8 T AND 0xffffff)
                      else if 3 - byte = 2 then (v AND 0xffff0000) OR (signed_drop_bit 16 T AND 0xffff)
                      else (v AND 0xffffff00) OR (signed_drop_bit 24 T AND 0xff))
             in write_or_trap h (tmp - byte) 4 v pcAfter m))
      | _ \<Rightarrow> exec_swr h i pcAfter m)"

text \<open>Shifts, comparisons, subtraction and \<^verbatim>\<open>SW\<close>. In \<^verbatim>\<open>SRL\<close> and \<^verbatim>\<open>SRLV\<close> the shifted \<^verbatim>\<open>tmp\<close> is an \<^verbatim>\<open>int\<close>.\<close>

definition exec_shift :: "'k exception_handler \<Rightarrow> Instruction \<Rightarrow> 32 word \<Rightarrow> 'k cpu \<Rightarrow> 'k outcome res" where
  "exec_shift h i pcAfter m =
     (let S = reg (i_rs i) m; T = reg (i_rt i) m;
          rd = (\<lambda>v. proceed pcAfter (set_reg (i_rd i) v m));
          rt = (\<lambda>v. proceed pcAfter (set_reg (i_rt i) v m))
      in case opCode i of
        OP_SLL \<Rightarrow> rd (push_bit (unat (extra i)) T)
      | OP_SLLV \<Rightarrow> rd (push_bit (unat (S AND 0x1f)) T)
      | OP_SLT \<Rightarrow> rd (if sint S < sint T then 1 else 0)
      | OP_SLTI \<Rightarrow> rt (if sint S < sint (extra i) then 1 else 0)
      | OP_SLTIU \<Rightarrow> rt (if S < extra i then 1 else 0)
      | OP_SLTU \<Rightarrow> rd (if S < T then 1 else 0)
      | OP_SRA \<Rightarrow> rd (signed_drop_bit (unat (extra i)) T)
      | OP_SRAV \<Rightarrow> rd (signed_drop_bit (unat (S AND 0x1f)) T)
      | OP_SRL \<Rightarrow> rd (signed_drop_bit (unat (extra i)) T)
      | OP_SRLV \<Rightarrow> rd (signed_drop_bit (unat (S AND 0x1f)) T)
      | OP_SUB \<Rightarrow>
          (let diff = S - T
           in if (S XOR T) AND SIGN_BIT \<noteq> 0 \<and> (S XOR diff) AND SIGN_BIT \<noteq> 0
              then raise_in h OverflowException 0 m else rd diff)
      | OP_SUBU \<Rightarrow> rd (S - T)
      | OP_SW \<Rightarrow> write_or_trap h (S + extra i) 4 T pcAfter m
      | _ \<Rightarrow> exec_swl h i pcAfter m)"

definition exec_logic :: "'k exception_handler \<Rightarrow> Instruction \<Rightarrow> 32 word \<Rightarrow> 'k cpu \<Rightarrow> 'k outcome res" where
  "exec_logic h i pcAfter m =
     (let S = reg (i_rs i) m; T = reg (i_rt i) m
      in case opCode i of
        OP_NOR \<Rightarrow> proceed pcAfter (set_reg (i_rd i) (NOT (S OR T)) m)
      | OP_OR \<Rightarrow> proceed pcAfter (set_reg (i_rd i) (S OR T) m)
      | OP_ORI \<Rightarrow> proceed pcAfter (set_reg (i_rt i) (S OR (extra i AND 0xffff)) m)
      | OP_SB \<Rightarrow> write_or_trap h (S + extra i) 1 T pcAfter m
      | OP_SH \<Rightarrow> write_or_trap h (S + extra i) 2 T pcAfter m
      | _ \<Rightarrow> exec_shift h i pcAfter m)"

definition exec_hilo :: "'k exception_handler \<Rightarrow> Instruction \<Rightarrow> 32 word \<Rightarrow> 'k cpu \<Rightarrow> 'k outcome res" where
  "exec_hilo h i pcAfter m =
     (let S = reg (i_rs i) m; T = reg (i_rt i) m;
          hilo = (\<lambda>(hi, lo). proceed pcAfter (set_reg LoReg lo (set_reg HiReg hi m)))
      in case opCode i of
        OP_MFHI \<Rightarrow> proceed pcAfter (set_reg (i_rd i) (reg HiReg m) m)
      | OP_MFLO \<Rightarrow> proceed pcAfter (set_reg (i_rd i) (reg LoReg m) m)
      | OP_MTHI \<Rightarrow> proceed pcAfter (set_reg HiReg S m)
      | OP_MTLO \<Rightarrow> proceed pcAfter (set_reg LoReg S m)
      | OP_MULT \<Rightarrow> hilo (Mult S T True)
      | OP_MULTU \<Rightarrow> hilo (Mult S T False)
      | _ \<Rightarrow> exec_logic h i pcAfter m)"

text \<open>
  The value a partial load merges into: the register, or what the load in progress will put there.
\<close>

definition merge_target :: "nat \<Rightarrow> 'k cpu \<Rightarrow> 32 word" where
  "merge_target r m = (if reg LoadReg m = of_nat r then reg LoadValueReg m else reg r m)"

definition exec_lwr :: "'k exception_handler \<Rightarrow> Instruction \<Rightarrow> 32 word \<Rightarrow> 'k cpu \<Rightarrow> 'k outcome res" where
  "exec_lwr h i pcAfter m =
     (case opCode i of
        OP_LWR \<Rightarrow>
          (let tmp = reg (i_rs i) m + extra i; byte = tmp AND 3
           in read_or_trap h (tmp - byte) 4 m (\<lambda>v m.
             let old = merge_target (i_rt i) m
             in Inr (Executed m pcAfter (i_rt i)
                  (if 3 - byte = 0 then (old AND 0xffffff00) OR (signed_drop_bit 24 v AND 0xff)
                   else if 3 - byte = 1 then (old AND 0xffff0000) OR (signed_drop_bit 16 v AND 0xffff)
                   else if 3 - byte = 2 then (old AND 0xff000000) OR (signed_drop_bit 8 v AND 0xffffff)
                   else v))))
      | _ \<Rightarrow> exec_hilo h i pcAfter m)"

definition exec_lwl :: "'k exception_handler \<Rightarrow> Instruction \<Rightarrow> 32 word \<Rightarrow> 'k cpu \<Rightarrow> 'k outcome res" where
  "exec_lwl h i pcAfter m =
     (case opCode i of
        OP_LWL \<Rightarrow>
          (let tmp = reg (i_rs i) m + extra i; byte = tmp AND 3
           in read_or_trap h (tmp - byte) 4 m (\<lambda>v m.
             let old = merge_target (i_rt i) m
             in Inr (Executed m pcAfter (i_rt i)
                  (if 3 - byte = 0 then v
                   else if 3 - byte = 1 then (old AND 0xff) OR push_bit 8 v
                   else if 3 - byte = 2 then (old AND 0xffff) OR push_bit 16 v
                   else (old AND 0xffffff) OR push_bit 24 v))))
      | _ \<Rightarrow> exec_lwr h i pcAfter m)"

definition exec_load :: "'k exception_handler \<Rightarrow> Instruction \<Rightarrow> 32 word \<Rightarrow> 'k cpu \<Rightarrow> 'k outcome res" where
  "exec_load h i pcAfter m =
     (let tmp = reg (i_rs i) m + extra i;
          byte = (\<lambda>signed. read_or_trap h tmp 1 m (\<lambda>v m. Inr (Executed m pcAfter (i_rt i)
             (if v AND 0x80 \<noteq> 0 \<and> signed then v OR 0xffffff00 else v AND 0xff))));
          half = (\<lambda>signed. if tmp AND 1 \<noteq> 0 then raise_in h AddressErrorException tmp m
             else read_or_trap h tmp 2 m (\<lambda>v m. Inr (Executed m pcAfter (i_rt i)
             (if v AND 0x8000 \<noteq> 0 \<and> signed then v OR 0xffff0000 else v AND 0xffff))))
      in case opCode i of
        OP_LB \<Rightarrow> byte True
      | OP_LBU \<Rightarrow> byte False
      | OP_LH \<Rightarrow> half True
      | OP_LHU \<Rightarrow> half False
      | OP_LUI \<Rightarrow> proceed pcAfter (set_reg (i_rt i) (push_bit 16 (extra i)) m)
      | OP_LW \<Rightarrow> (if tmp AND 3 \<noteq> 0 then raise_in h AddressErrorException tmp m
          else read_or_trap h tmp 4 m (\<lambda>v m. Inr (Executed m pcAfter (i_rt i) v)))
      | _ \<Rightarrow> exec_lwl h i pcAfter m)"

text \<open>
  Division and jumps. The host's division of the smallest integer by -1 overflows and traps.
\<close>

definition exec_div_jump :: "'k exception_handler \<Rightarrow> Instruction \<Rightarrow> 32 word \<Rightarrow> 'k cpu \<Rightarrow> 'k outcome res" where
  "exec_div_jump h i pcAfter m =
     (let S = reg (i_rs i) m; T = reg (i_rt i) m; link = reg NextPCReg m + 4;
          lohi = (\<lambda>lo hi. proceed pcAfter (set_reg HiReg hi (set_reg LoReg lo m)))
      in case opCode i of
        OP_DIV \<Rightarrow>
          if T = 0 then lohi 0 0
          else if \<not> int_fits (sint S sdiv sint T) then Inl DivideTrap
          else lohi (word_of_int (sint S sdiv sint T)) (word_of_int (sint S smod sint T))
      | OP_DIVU \<Rightarrow> if T = 0 then lohi 0 0 else lohi (S div T) (S mod T)
      | OP_JAL \<Rightarrow> proceed ((pcAfter AND 0xf0000000) OR IndexToAddr (extra i)) (set_reg R31 link m)
      | OP_J \<Rightarrow> proceed ((pcAfter AND 0xf0000000) OR IndexToAddr (extra i)) m
      | OP_JALR \<Rightarrow> (let m = set_reg (i_rd i) link m in proceed (reg (i_rs i) m) m)
      | OP_JR \<Rightarrow> proceed S m
      | _ \<Rightarrow> exec_load h i pcAfter m)"

definition exec_add_branch :: "'k exception_handler \<Rightarrow> Instruction \<Rightarrow> 32 word \<Rightarrow> 'k cpu \<Rightarrow> 'k outcome res" where
  "exec_add_branch h i pcAfter m =
     (let S = reg (i_rs i) m; T = reg (i_rt i) m; x = extra i;
          branch = (\<lambda>b m. proceed (if b then reg NextPCReg m + IndexToAddr x else pcAfter) m);
          linked = set_reg R31 (reg NextPCReg m + 4) m
      in case opCode i of
        OP_ADD \<Rightarrow>
          (let sum = S + T
           in if (S XOR T) AND SIGN_BIT = 0 \<and> (S XOR sum) AND SIGN_BIT \<noteq> 0
              then raise_in h OverflowException 0 m else proceed pcAfter (set_reg (i_rd i) sum m))
      | OP_ADDI \<Rightarrow>
          (let sum = S + x
           in if (S XOR x) AND SIGN_BIT = 0 \<and> (x XOR sum) AND SIGN_BIT \<noteq> 0
              then raise_in h OverflowException 0 m else proceed pcAfter (set_reg (i_rt i) sum m))
      | OP_ADDIU \<Rightarrow> proceed pcAfter (set_reg (i_rt i) (S + x) m)
      | OP_ADDU \<Rightarrow> proceed pcAfter (set_reg (i_rd i) (S + T) m)
      | OP_AND \<Rightarrow> proceed pcAfter (set_reg (i_rd i) (S AND T) m)
      | OP_ANDI \<Rightarrow> proceed pcAfter (set_reg (i_rt i) (S AND (x AND 0xffff)) m)
      | OP_BEQ \<Rightarrow> branch (S = T) m
      | OP_BGEZAL \<Rightarrow> branch (reg (i_rs i) linked AND SIGN_BIT = 0) linked
      | OP_BGEZ \<Rightarrow> branch (S AND SIGN_BIT = 0) m
      | OP_BGTZ \<Rightarrow> branch (sint S > 0) m
      | OP_BLEZ \<Rightarrow> branch (sint S \<le> 0) m
      | OP_BLTZAL \<Rightarrow> branch (reg (i_rs i) linked AND SIGN_BIT \<noteq> 0) linked
      | OP_BLTZ \<Rightarrow> branch (S AND SIGN_BIT \<noteq> 0) m
      | OP_BNE \<Rightarrow> branch (S \<noteq> T) m
      | _ \<Rightarrow> exec_div_jump h i pcAfter m)"

text \<open>The delayed load and the program counters, once the instruction has been executed.\<close>

definition complete :: "'k outcome \<Rightarrow> 'k cpu res" where
  "complete r = (case r of
       Trapped m \<Rightarrow> Inr m
     | Executed m pcAfter nextLoadReg nextLoadValue \<Rightarrow>
         bindR (Machine_DelayedLoad (of_nat nextLoadReg) nextLoadValue m) (\<lambda>m.
           let m = set_reg PrevPCReg (reg PCReg m) m; m = set_reg PCReg (reg NextPCReg m) m
           in Inr (set_reg NextPCReg pcAfter m)))"

definition Machine_OneInstruction :: "'k exception_handler \<Rightarrow> 'k cpu \<Rightarrow> 'k cpu res" where
  "Machine_OneInstruction h m =
     bindR (Machine_ReadMem h (reg PCReg m) 4 m) (\<lambda>(raw, m).
       case raw of None \<Rightarrow> Inr m
       | Some v \<Rightarrow> bindR (exec_add_branch h (Instruction_Decode v) (reg NextPCReg m + 4) m) complete)"

text \<open>
  \<^verbatim>\<open>Machine::Run\<close> never returns; this is its state after \<open>n\<close> rounds of its loop.
\<close>

fun run_rounds :: "nat \<Rightarrow> 'k exception_handler \<Rightarrow> 'k CPU hooks \<Rightarrow> 'k cpu \<Rightarrow> 'k cpu res" where
  "run_rounds 0 h k m = Inr m"
| "run_rounds (Suc n) h k m =
     bindR (Machine_OneInstruction h m) (\<lambda>m. bindR (Interrupt_OneTick k m) (run_rounds n h k))"

definition Machine_Run :: "nat \<Rightarrow> 'k exception_handler \<Rightarrow> 'k CPU hooks \<Rightarrow> 'k cpu \<Rightarrow> 'k cpu res" where
  "Machine_Run n h k m = run_rounds n h k (m\<lparr>mstatus := UserMode\<rparr>)"

end
