(* ===== verification/MipsLaws.thy ===== *)
theory MipsLaws
  imports Mips
begin

text \<open>
  The laws of the simulated processor of theory \<open>Mips\<close>: its overflow tests are exact, \<^verbatim>\<open>Mult\<close> is
  multiplication, decoding is well-formed, the pair of partial loads fetches an unaligned word,
  a load is delayed by one instruction, and no instruction makes the simulator fail except the
  one division that traps the host.
\<close>

subsection \<open>Signs and carries\<close>

lemma sign_bit: "x AND SIGN_BIT = 0 \<longleftrightarrow> \<not> bit x 31" "x AND 0x80000000 = 0 \<longleftrightarrow> \<not> bit x 31" for x :: "32 word"
proof -
  have "x AND 2 ^ 31 = 0 \<longleftrightarrow> \<not> bit x 31" by (rule and_exp_eq_0_iff_not_bit)
  then show "x AND SIGN_BIT = 0 \<longleftrightarrow> \<not> bit x 31" "x AND 0x80000000 = 0 \<longleftrightarrow> \<not> bit x 31"
    by (simp_all add: SIGN_BIT_def)
qed

text \<open>The overflow tests of \<^verbatim>\<open>ADD\<close> and \<^verbatim>\<open>SUB\<close>.\<close>

lemma add_overflow:
  fixes a b :: "32 word"
  shows "((a XOR b) AND SIGN_BIT = 0 \<and> (a XOR (a + b)) AND SIGN_BIT \<noteq> 0) \<longleftrightarrow> \<not> int_fits (sint a + sint b)"
    "int_fits (sint a + sint b) \<Longrightarrow> sint (a + b) = sint a + sint b"
proof -
  obtain A B where AB: "A = uint a" "B = uint b" by blast
  have r: "0 \<le> A" "A < 2 ^ 32" "0 \<le> B" "B < 2 ^ 32"
    unfolding AB using uint_bounded [of a] uint_bounded [of b] by simp_all
  have u: "uint (a + b) = (if uint a + uint b < 2 ^ 32 then uint a + uint b else uint a + uint b - 2 ^ 32)"
    by (simp add: uint_plus_if')
  show "((a XOR b) AND SIGN_BIT = 0 \<and> (a XOR (a + b)) AND SIGN_BIT \<noteq> 0) \<longleftrightarrow> \<not> int_fits (sint a + sint b)"
    using r unfolding sign_bit bit_xor_iff unfolding sint_by_sign bit31_iff u int_fits_def AB [symmetric] by (simp split: if_split) presburger
  show "int_fits (sint a + sint b) \<Longrightarrow> sint (a + b) = sint a + sint b"
    using r unfolding sint_by_sign bit31_iff u int_fits_def AB [symmetric] by (simp split: if_splits)
qed

lemma sub_overflow:
  fixes a b :: "32 word"
  shows "((a XOR b) AND SIGN_BIT \<noteq> 0 \<and> (a XOR (a - b)) AND SIGN_BIT \<noteq> 0) \<longleftrightarrow> \<not> int_fits (sint a - sint b)"
    "int_fits (sint a - sint b) \<Longrightarrow> sint (a - b) = sint a - sint b"
proof -
  obtain A B where AB: "A = uint a" "B = uint b" by blast
  have r: "0 \<le> A" "A < 2 ^ 32" "0 \<le> B" "B < 2 ^ 32"
    unfolding AB using uint_bounded [of a] uint_bounded [of b] by simp_all
  have u: "uint (a - b) = (if uint b \<le> uint a then uint a - uint b else uint a - uint b + 2 ^ 32)"
    by (simp add: uint_sub_if')
  show "((a XOR b) AND SIGN_BIT \<noteq> 0 \<and> (a XOR (a - b)) AND SIGN_BIT \<noteq> 0) \<longleftrightarrow> \<not> int_fits (sint a - sint b)"
    using r unfolding sign_bit bit_xor_iff unfolding sint_by_sign bit31_iff u int_fits_def AB [symmetric] by (simp split: if_split) presburger
  show "int_fits (sint a - sint b) \<Longrightarrow> sint (a - b) = sint a - sint b"
    using r unfolding sint_by_sign bit31_iff u int_fits_def AB [symmetric] by (simp split: if_splits)
qed

subsection \<open>Multiplication is multiplication\<close>

text \<open>The number held by a pair of registers, modulo \<open>2 ^ 64\<close>.\<close>

definition dword :: "32 word \<Rightarrow> 32 word \<Rightarrow> 64 word" where
  "dword hi lo = word_of_int (uint hi * 2 ^ 32 + uint lo)"

lemma word64_eqI: "a mod 2 ^ 64 = b mod 2 ^ 64 \<Longrightarrow> (word_of_int a :: 64 word) = word_of_int b"
  by (simp add: word_of_int_eq_iff take_bit_eq_mod)

lemma high_add: "(word_of_int (uint (x + y) * 2 ^ 32) :: 64 word) = word_of_int ((uint x + uint y) * 2 ^ 32)"
  for x y :: "32 word"
proof (rule word64_eqI)
  have "uint (x + y) = (uint x + uint y) mod 2 ^ 32" by (simp add: uint_word_ariths)
  then have "uint (x + y) * 2 ^ 32 = ((uint x + uint y) * 2 ^ 32) mod (2 ^ 32 * 2 ^ 32)"
    by (simp only: mod_mult_mult2)
  then show "uint (x + y) * 2 ^ 32 mod 2 ^ 64 = (uint x + uint y) * 2 ^ 32 mod 2 ^ 64" by simp
qed

lemma dword_add:
  "dword ((if lo + bLo < bLo then hi + 1 else hi) + bHi) (lo + bLo) = dword hi lo + dword bHi bLo"
proof -
  have r: "0 \<le> uint lo" "uint lo < 2 ^ 32" "0 \<le> uint bLo" "uint bLo < 2 ^ 32"
    using uint_bounded [of lo] uint_bounded [of bLo] by simp_all
  have u: "uint (lo + bLo) = uint lo + uint bLo - (if lo + bLo < bLo then 2 ^ 32 else 0)"
    using r by (simp add: uint_plus_if' word_less_def)
  have h: "(word_of_int (uint ((if c then hi + 1 else hi) + bHi) * 2 ^ 32) :: 64 word)
     = word_of_int ((uint hi + uint bHi) * 2 ^ 32 + (if c then 2 ^ 32 else 0))" for c
    by (cases c) (simp_all only: if_True if_False high_add distrib_right wi_hom_add [symmetric] unsigned_1 mult_1
        add_0_left add_0_right ac_simps word_of_int_0)
  show ?thesis
    unfolding dword_def wi_hom_add [symmetric] h unfolding wi_hom_add u
    by (rule arg_cong [of _ _ word_of_int]) (simp add: algebra_simps)
qed

lemma dword_double:
  "dword (let b = push_bit 1 bHi in if bLo AND 0x80000000 \<noteq> 0 then b OR 1 else b) (push_bit 1 bLo)
     = 2 * dword bHi bLo"
proof -
  have d: "push_bit 1 x = x + x" for x :: "32 word" by (simp add: push_bit_eq_mult)
  have "push_bit 1 bHi OR 1 = push_bit 1 bHi + 1" by (simp add: or_one_eq push_bit_eq_mult)
  moreover have "bLo AND 0x80000000 \<noteq> 0 \<longleftrightarrow> bLo + bLo < bLo"
    using uint_bounded [of bLo] unfolding sign_bit bit31_iff word_less_def uint_plus_if' by (simp split: if_splits)
  ultimately have "(let b = push_bit 1 bHi in if bLo AND 0x80000000 \<noteq> 0 then b OR 1 else b)
      = (if bLo + bLo < bLo then bHi + 1 else bHi) + bHi"
    by (simp add: d Let_def)
  then show ?thesis using dword_add [of bLo bLo bHi bHi] by (simp only: d mult_2)
qed

lemma mult_loop_correct:
  "k \<le> 32 \<Longrightarrow> mult_loop k a bHi bLo hi lo = (hi', lo') \<Longrightarrow>
   dword hi' lo' = dword hi lo + of_int (uint (take_bit k a)) * dword bHi bLo"
proof (induction k arbitrary: a bHi bLo hi lo)
  case 0
  then show ?case by simp
next
  case (Suc k)
  let ?b = "let b = push_bit 1 bHi in if bLo AND 0x80000000 \<noteq> 0 then b OR 1 else b"
  define h where "h = (if a AND 1 \<noteq> 0 then (if lo + bLo < bLo then hi + 1 else hi) + bHi else hi)"
  define l where "l = (if a AND 1 \<noteq> 0 then lo + bLo else lo)"
  have bit0: "a AND 1 \<noteq> 0 \<longleftrightarrow> odd a" by (simp add: and_one_eq odd_iff_mod_2_eq_one)
  have step: "dword h l = dword hi lo + of_bool (odd a) * dword bHi bLo"
    by (simp add: h_def l_def bit0 dword_add)
  have tb: "take_bit k (signed_drop_bit 1 a) = take_bit k (drop_bit 1 a)"
    by (rule bit_word_eqI) (use Suc.prems(1) in \<open>auto simp: bit_simps\<close>)
  have "uint (drop_bit 1 a) = uint a div 2" by (simp add: drop_bit_eq_div uint_div)
  moreover have "uint a mod 2 = of_bool (odd a)" using bit_uint_iff [of a 0] by (simp add: bit_0 mod2_eq_if)
  moreover have "take_bit (Suc k) (uint a) = take_bit k (uint a div 2) * 2 + uint a mod 2" by (rule take_bit_Suc)
  ultimately have "uint (take_bit (Suc k) a) = of_bool (odd a) + 2 * uint (take_bit k (drop_bit 1 a))"
    by (simp only: unsigned_take_bit_eq)
  then have tb': "of_int (uint (take_bit (Suc k) a)) * dword bHi bLo
     = of_bool (odd a) * dword bHi bLo + of_int (uint (take_bit k (signed_drop_bit 1 a))) * (2 * dword bHi bLo)"
    by (simp only: tb) (simp add: algebra_simps)
  show ?case
  proof (cases "a AND 1 \<noteq> 0 \<and> a AND 0xfffffffe = 0")
    case True
    have ones: "1 OR 0xfffffffe = (- 1 :: 32 word)" by simp
    have "a = a AND - 1" by simp
    also have "\<dots> = (a AND 1) OR (a AND 0xfffffffe)" by (simp only: ones [symmetric] bit.conj_disj_distrib)
    finally have "a = (a AND 1) OR (a AND 0xfffffffe)" .
    moreover have "a AND 1 = 1" using True bit0 by (simp add: and_one_eq mod2_eq_if)
    ultimately have "a = 1" using True by (metis or.right_neutral)
    with True Suc.prems(2) step show ?thesis by (auto simp: h_def l_def Let_def)
  next
    case False
    then have "mult_loop k (signed_drop_bit 1 a) ?b (push_bit 1 bLo) h l = (hi', lo')"
      using Suc.prems(2) by (auto simp: h_def l_def Let_def split: if_splits)
    moreover have "k \<le> 32" using Suc.prems(1) by simp
    ultimately show ?thesis using Suc.IH by (simp only: step tb' dword_double add.assoc)
  qed
qed

lemma dword_0 [simp]: "dword 0 lo = of_int (uint lo)" "dword 0 0 = 0"
  by (simp_all add: dword_def)

lemma dword_neg:
  "dword (if NOT lo + 1 = 0 then NOT hi + 1 else NOT hi) (NOT lo + 1) = - dword hi lo"
proof -
  let ?h = "if NOT lo + 1 = 0 then NOT hi + 1 else NOT hi"
  have n: "NOT x + 1 = - x" for x :: "32 word" by (simp add: not_eq_complement)
  have "dword ((if NOT lo + 1 + lo < lo then ?h + 1 else ?h) + hi) (NOT lo + 1 + lo) = dword ?h (NOT lo + 1) + dword hi lo"
    by (rule dword_add)
  moreover have z: "NOT lo + 1 + lo = 0" by (simp only: n) simp
  moreover have "(if NOT lo + 1 + lo < lo then ?h + 1 else ?h) + hi = 0"
  proof (cases "lo = 0")
    case True
    then show ?thesis by (simp only: z n) simp
  next
    case False
    then have "0 < lo" "- lo \<noteq> 0" by (simp_all add: word_gt_0)
    then show ?thesis by (simp only: z n if_True if_False) simp
  qed
  ultimately show ?thesis by (simp add: eq_neg_iff_add_eq_0)
qed

lemma uint_abs: "uint (if sint a < 0 then - a else a) = \<bar>sint a\<bar>" for a :: "32 word"
proof -
  obtain A where A: "A = uint a" by blast
  have r: "0 \<le> A" "A < 2 ^ 32" unfolding A using uint_bounded [of a] by simp_all
  have "uint (- a) = (if a = 0 then 0 else 2 ^ 32 - uint a)" 
    using uint_bounded [of a] by (auto simp: uint_word_ariths zmod_zminus1_eq_if unsigned_eq_0_iff)
  with r show ?thesis unfolding sint_by_sign bit31_iff by (auto simp: A)
qed

lemma Mult_eq:
  assumes "Mult a b signedArith = (hi, lo)"
  shows "dword hi lo = word_of_int (if signedArith then sint a * sint b else uint a * uint b)"
proof (cases "a = 0 \<or> b = 0")
  case True
  with assms show ?thesis by (auto simp: Mult_def)
next
  case False
  define a' where "a' = (if signedArith \<and> sint a < 0 then - a else a)"
  define b' where "b' = (if signedArith \<and> sint b < 0 then - b else b)"
  obtain h l where hl: "mult_loop 32 a' 0 b' 0 0 = (h, l)" by fastforce
  have "take_bit 32 a' = a'" by (rule take_bit_word_eq_self) simp
  then have d: "dword h l = word_of_int (uint a' * uint b')"
    using mult_loop_correct [OF _ hl] by simp
  let ?n = "signedArith \<and> (sint a < 0) \<noteq> (sint b < 0)"
  have "(hi, lo) = (if ?n then (if NOT l + 1 = 0 then NOT h + 1 else NOT h, NOT l + 1) else (h, l))"
    using assms False hl by (auto simp: Mult_def a'_def b'_def Let_def split: prod.splits if_splits)
  then have "dword hi lo = word_of_int (if ?n then - (uint a' * uint b') else uint a' * uint b')"
    using d by (auto simp: dword_neg split: if_splits)
  moreover have "uint a' = (if signedArith then \<bar>sint a\<bar> else uint a)" "uint b' = (if signedArith then \<bar>sint b\<bar> else uint b)"
    by (auto simp: a'_def b'_def uint_abs [symmetric])
  ultimately show ?thesis by (auto simp: abs_if)
qed

subsection \<open>Decoding is well-formed\<close>

definition instruction_ok :: "Instruction \<Rightarrow> bool" where
  "instruction_ok i \<longleftrightarrow> i_rs i < 32 \<and> i_rt i < 32 \<and> i_rd i < 32 \<and> opCode i \<noteq> SPECIAL \<and> opCode i \<noteq> BCOND
     \<and> opCode i \<noteq> OP_RFE"

lemma unat_and_masks: "unat (x AND 0x1f) < 32" "unat (x AND 0x3f) < 64" for x :: "32 word"
proof -
  have "x AND 0x1f = take_bit 5 x" "x AND 0x3f = take_bit 6 x" by (simp_all add: take_bit_eq_mask mask_eq_exp_minus_1)
  moreover have "unat (take_bit 5 x) < 2 ^ 5" "unat (take_bit 6 x) < 2 ^ 6"
    by (simp_all only: unsigned_take_bit_eq take_bit_nat_less_exp)
  ultimately show "unat (x AND 0x1f) < 32" "unat (x AND 0x3f) < 64" by simp_all
qed

lemma opTable_ok: "n < 64 \<Longrightarrow> fst (opTable ! n) \<noteq> OP_RFE"
proof -
  have "list_all (\<lambda>e. fst e \<noteq> OP_RFE) opTable" by (simp add: opTable_def)
  moreover have "length opTable = 64" by (simp add: opTable_def)
  ultimately show "n < 64 \<Longrightarrow> fst (opTable ! n) \<noteq> OP_RFE" by (simp add: list_all_length)
qed

lemma specialTable_ok: "n < 64 \<Longrightarrow> specialTable ! n \<notin> {SPECIAL, BCOND, OP_RFE}"
proof -
  have "list_all (\<lambda>op. op \<notin> {SPECIAL, BCOND, OP_RFE}) specialTable" by (simp add: specialTable_def)
  moreover have "length specialTable = 64" by (simp add: specialTable_def)
  ultimately show "n < 64 \<Longrightarrow> specialTable ! n \<notin> {SPECIAL, BCOND, OP_RFE}" by (simp add: list_all_length)
qed

lemma Decode_ok: "instruction_ok (Instruction_Decode v)"
proof -
  obtain op f where e: "opTable ! unat (drop_bit 26 v AND 0x3f) = (op, f)" by fastforce
  have "op \<noteq> OP_RFE" using opTable_ok [OF unat_and_masks(2), of "drop_bit 26 v"] e by simp
  moreover have "specialTable ! unat (v AND 0x3f) \<notin> {SPECIAL, BCOND, OP_RFE}"
    by (rule specialTable_ok [OF unat_and_masks(2)])
  ultimately show ?thesis
    unfolding instruction_ok_def Instruction_Decode_def e by (auto simp: unat_and_masks Let_def)
qed

subsection \<open>No program makes the simulator fail\<close>

text \<open>A routine that returns with \<open>P\<close>, or ends the run with one of the faults \<open>F\<close>.\<close>

definition safeR :: "fault set \<Rightarrow> ('a \<Rightarrow> bool) \<Rightarrow> 'a res \<Rightarrow> bool" where
  "safeR F P r = (case r of Inl e \<Rightarrow> e \<in> F | Inr x \<Rightarrow> P x)"

lemma safeR_simps [simp]: "safeR F P (Inr x) = P x" "safeR F P (Inl e) = (e \<in> F)"
  by (simp_all add: safeR_def)

lemma safeR_bind: "safeR F P r \<Longrightarrow> (\<And>x. P x \<Longrightarrow> safeR G Q (f x)) \<Longrightarrow> F \<subseteq> G \<Longrightarrow> safeR G Q (bindR r f)"
  by (cases r) auto

text \<open>
  Between instructions (\<open>cpu_ok\<close>) and inside one (\<open>cpu_sound\<close>, when register 0 may be dirty): all
  registers are there, the delayed load names a general register, a page table covers the memory, and
  the kernel's own state satisfies its invariant \<open>K\<close>, which no instruction touches.
\<close>

definition cpu_sound :: "('k \<Rightarrow> bool) \<Rightarrow> 'k cpu \<Rightarrow> bool" where
  "cpu_sound K m \<longleftrightarrow> length (registers (dev m)) = NumTotalRegs \<and> uint (reg LoadReg m) < 32 \<and> (\<exists>pt. paged pt m)
     \<and> K (os (dev m))"

definition cpu_ok :: "('k \<Rightarrow> bool) \<Rightarrow> 'k cpu \<Rightarrow> bool" where
  "cpu_ok K m \<longleftrightarrow> cpu_sound K m \<and> reg 0 m = 0"

fun outcome_ok :: "('k \<Rightarrow> bool) \<Rightarrow> 'k outcome \<Rightarrow> bool" where
  "outcome_ok K (Trapped m) = cpu_ok K m"
| "outcome_ok K (Executed m pcAfter r v) = (cpu_sound K m \<and> r < 32)"

lemma reg_set_reg: "i < NumTotalRegs \<Longrightarrow> length (registers (dev m)) = NumTotalRegs \<Longrightarrow>
    reg j (set_reg i v m) = (if i = j then v else reg j m)"
  by (simp add: reg_def set_reg_def)

lemma set_reg_frame [simp]:
  "length (registers (dev (set_reg i v m))) = length (registers (dev m))" "paged pt (set_reg i v m) = paged pt m"
  "os (dev (set_reg i v m)) = os (dev m)"
  by (simp_all add: set_reg_def paged_def)

lemma sound_set_reg: "cpu_sound K m \<Longrightarrow> i < NumTotalRegs \<Longrightarrow> i \<noteq> LoadReg \<Longrightarrow> cpu_sound K (set_reg i v m)"
  by (simp add: cpu_sound_def reg_set_reg)

lemma status_frame [simp]:
  "cpu_ok K (m\<lparr>mstatus := s\<rparr>) = cpu_ok K m" "cpu_sound K (m\<lparr>mstatus := s\<rparr>) = cpu_sound K m"
  by (simp_all add: cpu_ok_def cpu_sound_def reg_def paged_def)

lemma sint_small: "uint w < 32 \<Longrightarrow> sint w = uint w" for w :: "32 word"
  by (simp add: sint_by_sign bit31_iff)

lemma DelayedLoad_ok:
  assumes "cpu_sound K m" "uint r < 32"
  shows "\<exists>m'. Machine_DelayedLoad r v m = Inr m' \<and> cpu_ok K m'"
proof -
  let ?t = "nat (uint (reg LoadReg m))"
  have t: "sint (reg LoadReg m) = uint (reg LoadReg m)" "0 \<le> uint (reg LoadReg m)" "uint (reg LoadReg m) < 32"
    using assms(1) by (simp_all add: cpu_sound_def sint_small)
  then have "?t < 32" by linarith
  with assms have "cpu_ok K (set_reg 0 0 (set_reg LoadValueReg v (set_reg LoadReg r (set_reg ?t (reg LoadValueReg m) m))))"
    by (simp add: cpu_ok_def cpu_sound_def reg_set_reg) (simp add: reg_numbers reg_set_reg)
  with t show ?thesis by (simp add: Machine_DelayedLoad_def reg_numbers)
qed

lemma ok_set_pc: "cpu_ok K m \<Longrightarrow> i = PCReg \<or> i = NextPCReg \<or> i = PrevPCReg \<Longrightarrow> cpu_ok K (set_reg i x m)"
  by (auto simp: cpu_ok_def cpu_sound_def reg_set_reg reg_numbers)

lemma complete_ok: "outcome_ok K r \<Longrightarrow> \<exists>m. complete r = Inr m \<and> cpu_ok K m"
proof (cases r)
  case (Executed m pcAfter n v)
  moreover assume "outcome_ok K r"
  ultimately obtain m' where "Machine_DelayedLoad (of_nat n) v m = Inr m'" "cpu_ok K m'"
    using DelayedLoad_ok [of K m "of_nat n" v] by (auto simp: take_bit_nat_eq_self unsigned_of_nat)
  then show ?thesis by (simp add: complete_def Executed Let_def ok_set_pc)
qed (simp add: complete_def)

text \<open>
  The kernel behind the exceptions: its handler keeps the CPU in order and its own invariant \<open>K\<close>, or
  ends the run with one of the faults \<open>F\<close>.
\<close>

locale exception_kernel =
  fixes h :: "'k exception_handler" and F :: "fault set" and K :: "'k \<Rightarrow> bool"
  assumes handler: "cpu_ok K m \<Longrightarrow> safeR F (cpu_ok K) (h e m)"
begin

lemma raise_safe: "cpu_sound K m \<Longrightarrow> safeR F (cpu_ok K) (Machine_RaiseException h e a m)"
proof -
  assume "cpu_sound K m"
  then have "cpu_sound K (set_reg BadVAddrReg a m)" by (rule sound_set_reg) (simp_all add: reg_numbers)
  from DelayedLoad_ok [OF this, of 0 0] obtain m' where
    "Machine_DelayedLoad 0 0 (set_reg BadVAddrReg a m) = Inr m'" "cpu_ok K m'" by auto
  then show ?thesis
    by (simp add: Machine_RaiseException_def safeR_bind [OF handler])
qed

lemma raise_in_safe: "cpu_sound K m \<Longrightarrow> safeR F (outcome_ok K) (raise_in h e a m)"
  unfolding raise_in_def by (rule safeR_bind [OF raise_safe]) simp_all

lemma sound_with_table: "cpu_sound K m \<Longrightarrow> cpu_sound K (with_table (touched pt va w) m)" if "paged pt m"
  using that by (auto simp: cpu_sound_def reg_def paged_def with_table_def)

lemma read_safe:
  assumes "cpu_sound K m" "sz \<in> {1, 2, 4}"
  shows "safeR F (\<lambda>(x, m). if x = None then cpu_ok K m else cpu_sound K m) (Machine_ReadMem h a sz m)"
proof -
  obtain pt where pt: "paged pt m" using assms(1) by (auto simp: cpu_sound_def)
  show ?thesis
  proof (cases "accessible pt a sz False")
    case True
    with ReadMem_ok [OF pt assms(2), of a h] sound_with_table [OF pt assms(1)] show ?thesis by simp
  next
    case False
    then obtain e where "Machine_ReadMem h a sz m = bindR (Machine_RaiseException h e a m) (\<lambda>m. Inr (None, m))"
      using denied_access(1) [OF pt assms(2)] by blast
    moreover have "safeR F (\<lambda>(x, m). if x = None then cpu_ok K m else cpu_sound K m)
        (bindR (Machine_RaiseException h e a m) (\<lambda>m. Inr (None, m)))"
      by (rule safeR_bind [OF raise_safe [OF assms(1)]]) simp_all
    ultimately show ?thesis by simp
  qed
qed

lemma write_safe:
  assumes "cpu_sound K m" "sz \<in> {1, 2, 4}"
  shows "safeR F (\<lambda>(b, m). if b then cpu_sound K m else cpu_ok K m) (Machine_WriteMem h a sz v m)"
proof -
  obtain pt where pt: "paged pt m" using assms(1) by (auto simp: cpu_sound_def)
  show ?thesis
  proof (cases "accessible pt a sz True")
    case True
    note w = write_step(1) [OF pt assms(2) True, where h = h and v = v] write_step(2) [OF pt assms(2) True, where v = v]
    have "cpu_sound K (store_at (phys pt a) (machine_bytes sz v) (with_table (touched pt a True) m))"
      using assms(1) w(2) by (auto simp: cpu_sound_def reg_def with_table_def store_at_def)
    with w(1) show ?thesis by simp
  next
    case False
    then obtain e where "Machine_WriteMem h a sz v m = bindR (Machine_RaiseException h e a m) (\<lambda>m. Inr (False, m))"
      using denied_access(2) [OF pt assms(2)] by blast
    moreover have "safeR F (\<lambda>(b, m). if b then cpu_sound K m else cpu_ok K m)
        (bindR (Machine_RaiseException h e a m) (\<lambda>m. Inr (False, m)))"
      by (rule safeR_bind [OF raise_safe [OF assms(1)]]) simp_all
    ultimately show ?thesis by simp
  qed
qed

lemma read_or_trap_safe:
  assumes "cpu_sound K m" "sz \<in> {1, 2, 4}" "\<And>v m. cpu_sound K m \<Longrightarrow> safeR F (outcome_ok K) (f v m)"
  shows "safeR F (outcome_ok K) (read_or_trap h a sz m f)"
  unfolding read_or_trap_def by (rule safeR_bind [OF read_safe [OF assms(1,2)]]) (use assms(3) in \<open>auto split: option.splits\<close>)

lemma write_or_trap_safe:
  "cpu_sound K m \<Longrightarrow> sz \<in> {1, 2, 4} \<Longrightarrow> safeR F (outcome_ok K) (write_or_trap h a sz v pcAfter m)"
  unfolding write_or_trap_def by (rule safeR_bind [OF write_safe]) (auto simp: proceed_def)

lemma proceed_safe: "cpu_sound K m \<Longrightarrow> safeR F (outcome_ok K) (proceed pcAfter m)"
  by (simp add: proceed_def)

lemmas step_safe = raise_in_safe read_or_trap_safe write_or_trap_safe proceed_safe sound_set_reg

end

subsection \<open>Every instruction is safe\<close>

definition well_placed :: "('k \<Rightarrow> bool) \<Rightarrow> Instruction \<Rightarrow> 'k cpu \<Rightarrow> bool" where
  "well_placed K i m \<longleftrightarrow> cpu_sound K m \<and> i_rs i < 32 \<and> i_rt i < 32 \<and> i_rd i < 32"

lemma sound_set_general: "cpu_sound K m \<Longrightarrow> r < 32 \<Longrightarrow> cpu_sound K (set_reg r v m)"
  "cpu_sound K m \<Longrightarrow> cpu_sound K (set_reg HiReg v m)" "cpu_sound K m \<Longrightarrow> cpu_sound K (set_reg LoReg v m)"
  "cpu_sound K m \<Longrightarrow> cpu_sound K (set_reg R31 v m)"
  by (rule sound_set_reg; simp add: reg_numbers R31_def)+

text \<open>One lemma per stretch of the \<^verbatim>\<open>switch\<close>; what it does not handle goes to the next stretch.\<close>

context exception_kernel
begin

lemmas stretch_safe = raise_in_safe read_or_trap_safe write_or_trap_safe proceed_safe sound_set_general

lemma rest_safe:
  assumes "well_placed K i m" "opCode i \<in> {OP_SYSCALL, OP_XOR, OP_XORI, OP_RES, OP_UNIMP}"
  shows "safeR F (outcome_ok K) (exec_rest h i pcAfter m)"
  using assms by (auto simp: well_placed_def exec_rest_def stretch_safe Let_def)

lemma swr_safe:
  assumes "well_placed K i m" "opCode i \<noteq> OP_SWR \<Longrightarrow> safeR F (outcome_ok K) (exec_rest h i pcAfter m)"
  shows "safeR F (outcome_ok K) (exec_swr h i pcAfter m)"
  using assms by (cases "opCode i") (simp_all add: well_placed_def exec_swr_def stretch_safe Let_def)

lemma swl_safe:
  assumes "well_placed K i m" "opCode i \<noteq> OP_SWL \<Longrightarrow> safeR F (outcome_ok K) (exec_swr h i pcAfter m)"
  shows "safeR F (outcome_ok K) (exec_swl h i pcAfter m)"
  using assms by (cases "opCode i") (simp_all add: well_placed_def exec_swl_def stretch_safe Let_def)

lemma shift_safe:
  assumes "well_placed K i m" "opCode i \<notin> {OP_SLL, OP_SLLV, OP_SLT, OP_SLTI, OP_SLTIU, OP_SLTU, OP_SRA, OP_SRAV,
     OP_SRL, OP_SRLV, OP_SUB, OP_SUBU, OP_SW} \<Longrightarrow> safeR F (outcome_ok K) (exec_swl h i pcAfter m)"
  shows "safeR F (outcome_ok K) (exec_shift h i pcAfter m)"
  using assms by (cases "opCode i") (simp_all add: well_placed_def exec_shift_def stretch_safe Let_def)

lemma logic_safe:
  assumes "well_placed K i m" "opCode i \<notin> {OP_NOR, OP_OR, OP_ORI, OP_SB, OP_SH} \<Longrightarrow> safeR F (outcome_ok K) (exec_shift h i pcAfter m)"
  shows "safeR F (outcome_ok K) (exec_logic h i pcAfter m)"
  using assms by (cases "opCode i") (simp_all add: well_placed_def exec_logic_def stretch_safe Let_def)

lemma hilo_safe:
  assumes "well_placed K i m" "opCode i \<notin> {OP_MFHI, OP_MFLO, OP_MTHI, OP_MTLO, OP_MULT, OP_MULTU}
     \<Longrightarrow> safeR F (outcome_ok K) (exec_logic h i pcAfter m)"
  shows "safeR F (outcome_ok K) (exec_hilo h i pcAfter m)"
  using assms
  by (cases "opCode i") (simp_all add: well_placed_def exec_hilo_def stretch_safe Let_def split: prod.split)

lemma lwr_safe:
  assumes "well_placed K i m" "opCode i \<noteq> OP_LWR \<Longrightarrow> safeR F (outcome_ok K) (exec_hilo h i pcAfter m)"
  shows "safeR F (outcome_ok K) (exec_lwr h i pcAfter m)"
  using assms by (cases "opCode i") (simp_all add: well_placed_def exec_lwr_def stretch_safe Let_def)

lemma lwl_safe:
  assumes "well_placed K i m" "opCode i \<noteq> OP_LWL \<Longrightarrow> safeR F (outcome_ok K) (exec_lwr h i pcAfter m)"
  shows "safeR F (outcome_ok K) (exec_lwl h i pcAfter m)"
  using assms by (cases "opCode i") (simp_all add: well_placed_def exec_lwl_def stretch_safe Let_def)

lemma load_safe:
  assumes "well_placed K i m" "opCode i \<notin> {OP_LB, OP_LBU, OP_LH, OP_LHU, OP_LUI, OP_LW}
     \<Longrightarrow> safeR F (outcome_ok K) (exec_lwl h i pcAfter m)"
  shows "safeR F (outcome_ok K) (exec_load h i pcAfter m)"
  using assms by (cases "opCode i") (simp_all add: well_placed_def exec_load_def stretch_safe Let_def)

lemma safeR_trap: "safeR F P r \<Longrightarrow> safeR (insert DivideTrap F) P r"
  by (cases r) auto

lemma div_jump_safe:
  assumes "well_placed K i m" "opCode i \<notin> {OP_DIV, OP_DIVU, OP_JAL, OP_J, OP_JALR, OP_JR}
     \<Longrightarrow> safeR F (outcome_ok K) (exec_load h i pcAfter m)"
  shows "safeR (insert DivideTrap F) (outcome_ok K) (exec_div_jump h i pcAfter m)"
  using assms
  by (cases "opCode i") (simp_all add: well_placed_def exec_div_jump_def safeR_trap stretch_safe Let_def)

lemma add_branch_safe:
  assumes "well_placed K i m" "opCode i \<notin> {OP_ADD, OP_ADDI, OP_ADDIU, OP_ADDU, OP_AND, OP_ANDI, OP_BEQ, OP_BGEZAL,
     OP_BGEZ, OP_BGTZ, OP_BLEZ, OP_BLTZAL, OP_BLTZ, OP_BNE}
     \<Longrightarrow> safeR (insert DivideTrap F) (outcome_ok K) (exec_div_jump h i pcAfter m)"
  shows "safeR (insert DivideTrap F) (outcome_ok K) (exec_add_branch h i pcAfter m)"
  using assms
  by (cases "opCode i") (simp_all add: well_placed_def exec_add_branch_def safeR_trap stretch_safe Let_def)

lemma instruction_safe:
  assumes "instruction_ok i" "cpu_sound K m"
  shows "safeR (insert DivideTrap F) (outcome_ok K) (exec_add_branch h i pcAfter m)"
proof -
  have w: "well_placed K i m" using assms by (simp add: well_placed_def instruction_ok_def)
  have rest: "opCode i \<in> {OP_SYSCALL, OP_XOR, OP_XORI, OP_RES, OP_UNIMP}"
    if "opCode i \<notin> {OP_ADD, OP_ADDI, OP_ADDIU, OP_ADDU, OP_AND, OP_ANDI, OP_BEQ, OP_BGEZAL,
        OP_BGEZ, OP_BGTZ, OP_BLEZ, OP_BLTZAL, OP_BLTZ, OP_BNE}" "opCode i \<notin> {OP_DIV, OP_DIVU, OP_JAL, OP_J, OP_JALR, OP_JR}"
      "opCode i \<notin> {OP_LB, OP_LBU, OP_LH, OP_LHU, OP_LUI, OP_LW}" "opCode i \<noteq> OP_LWL" "opCode i \<noteq> OP_LWR"
      "opCode i \<notin> {OP_MFHI, OP_MFLO, OP_MTHI, OP_MTLO, OP_MULT, OP_MULTU}"
      "opCode i \<notin> {OP_NOR, OP_OR, OP_ORI, OP_SB, OP_SH}"
      "opCode i \<notin> {OP_SLL, OP_SLLV, OP_SLT, OP_SLTI, OP_SLTIU, OP_SLTU, OP_SRA, OP_SRAV, OP_SRL, OP_SRLV, OP_SUB,
        OP_SUBU, OP_SW}" "opCode i \<noteq> OP_SWL" "opCode i \<noteq> OP_SWR"
    using that assms(1) by (cases "opCode i") (simp_all add: instruction_ok_def)
  show ?thesis
    by (rule add_branch_safe [OF w div_jump_safe [OF w load_safe [OF w lwl_safe [OF w lwr_safe [OF w hilo_safe [OF w
          logic_safe [OF w shift_safe [OF w swl_safe [OF w swr_safe [OF w rest_safe [OF w rest]]]]]]]]]]])
qed

lemma OneInstruction_ok:
  assumes "cpu_ok K m"
  shows "safeR (insert DivideTrap F) (cpu_ok K) (Machine_OneInstruction h m)"
proof -
  have "cpu_sound K m" using assms by (simp add: cpu_ok_def)
  then have r: "safeR F (\<lambda>(x, m). if x = None then cpu_ok K m else cpu_sound K m) (Machine_ReadMem h (reg PCReg m) 4 m)"
    by (rule read_safe) simp
  have c: "safeR (insert DivideTrap F) (cpu_ok K) (complete r)" if "outcome_ok K r" for r
    using complete_ok [OF that] by auto
  have "safeR (insert DivideTrap F) (cpu_ok K) (case x of None \<Rightarrow> Inr m
       | Some v \<Rightarrow> bindR (exec_add_branch h (Instruction_Decode v) (reg NextPCReg m + 4) m) complete)"
    if "if x = None then cpu_ok K m else cpu_sound K m" for x m
    using that safeR_bind [OF instruction_safe [OF Decode_ok] c] by (auto split: option.split)
  then show ?thesis
    unfolding Machine_OneInstruction_def by (intro safeR_bind [OF r]) auto
qed

end

subsection \<open>Exact arithmetic\<close>

definition arith_target :: "Instruction \<Rightarrow> nat" where
  "arith_target i = (if opCode i = OP_ADDI then i_rt i else i_rd i)"

definition arith_result :: "Instruction \<Rightarrow> 'k cpu \<Rightarrow> int" where
  "arith_result i m = (if opCode i = OP_ADD then sint (reg (i_rs i) m) + sint (reg (i_rt i) m)
     else if opCode i = OP_ADDI then sint (reg (i_rs i) m) + sint (extra i)
     else sint (reg (i_rs i) m) - sint (reg (i_rt i) m))"

lemma arith_exec:
  assumes "opCode i \<in> {OP_ADD, OP_ADDI, OP_SUB}"
  shows "\<exists>w. (int_fits (arith_result i m) \<longrightarrow> sint w = arith_result i m) \<and>
     exec_add_branch h i pcAfter m =
       (if int_fits (arith_result i m) then proceed pcAfter (set_reg (arith_target i) w m)
        else raise_in h OverflowException 0 m)"
proof -
  let ?S = "reg (i_rs i) m" and ?T = "reg (i_rt i) m"
  have "?S + extra i = extra i + ?S" "sint ?S + sint (extra i) = sint (extra i) + sint ?S" "?S XOR extra i = extra i XOR ?S"
    by (simp_all add: ac_simps)
  note addi = add_overflow [of "extra i" ?S, folded this]
  note add = add_overflow [of ?S ?T] and sub = sub_overflow [of ?S ?T]
  from assms consider "opCode i = OP_ADD" | "opCode i = OP_ADDI" | "opCode i = OP_SUB" by auto
  then show ?thesis
  proof cases
    case 1
    have e: "exec_add_branch h i pcAfter m = (if \<not> int_fits (sint ?S + sint ?T) then raise_in h OverflowException 0 m
        else proceed pcAfter (set_reg (i_rd i) (?S + ?T) m))"
      unfolding add(1) [symmetric] by (simp add: exec_add_branch_def Let_def 1)
    show ?thesis by (rule exI [of _ "?S + ?T"]) (simp add: e arith_result_def arith_target_def 1 add(2))
  next
    case 2
    have e: "exec_add_branch h i pcAfter m = (if \<not> int_fits (sint ?S + sint (extra i)) then raise_in h OverflowException 0 m
        else proceed pcAfter (set_reg (i_rt i) (?S + extra i) m))"
      unfolding addi(1) [symmetric] by (simp add: exec_add_branch_def Let_def 2)
    show ?thesis by (rule exI [of _ "?S + extra i"]) (simp add: e arith_result_def arith_target_def 2 addi(2))
  next
    case 3
    have e: "exec_add_branch h i pcAfter m = (if \<not> int_fits (sint ?S - sint ?T) then raise_in h OverflowException 0 m
        else proceed pcAfter (set_reg (i_rd i) (?S - ?T) m))"
      unfolding sub(1) [symmetric] by (simp add: exec_add_branch_def exec_div_jump_def exec_load_def exec_lwl_def exec_lwr_def
        exec_hilo_def exec_logic_def exec_shift_def Let_def 3)
    show ?thesis by (rule exI [of _ "?S - ?T"]) (simp add: e arith_result_def arith_target_def 3 sub(2))
  qed
qed

lemma arith_exact:
  assumes "cpu_sound K m" "instruction_ok i" "opCode i \<in> {OP_ADD, OP_ADDI, OP_SUB}"
  shows "if int_fits (arith_result i m)
     then \<exists>m'. exec_add_branch h i pcAfter m = Inr (Executed m' pcAfter 0 0)
        \<and> sint (reg (arith_target i) m') = arith_result i m \<and> (\<forall>j. j \<noteq> arith_target i \<longrightarrow> reg j m' = reg j m)
     else exec_add_branch h i pcAfter m = raise_in h OverflowException 0 m"
proof -
  have "arith_target i < NumTotalRegs"
    using assms(2) by (simp add: arith_target_def instruction_ok_def NumTotalRegs_def)
  with arith_exec [OF assms(3), of m h pcAfter] assms(1) show ?thesis
    by (auto simp: proceed_def reg_set_reg cpu_sound_def)
qed

subsection \<open>A machine with one instruction in memory\<close>

definition with_program :: "32 word \<Rightarrow> 32 word \<Rightarrow> 32 word \<Rightarrow> unit cpu" where
  "with_program v a b = set_reg 1 a (set_reg 2 b (store_at (phys sample_table 0) (machine_bytes 4 v) sample_cpu))"

lemma with_program_ok:
  "cpu_ok (\<lambda>_. True) (with_program v a b)" "reg PCReg (with_program v a b) = 0"
  "reg 1 (with_program v a b) = a" "reg 2 (with_program v a b) = b"
  "\<exists>m. Machine_ReadMem h 0 4 (with_program v a b) = Inr (Some v, m) \<and> (\<forall>i. reg i m = reg i (with_program v a b))"
proof -
  let ?m = "store_at (phys sample_table 0) (machine_bytes 4 v) sample_cpu"
  have acc: "accessible sample_table 0 4 w" for w
    by (simp add: accessible_def aligned_def page_of_def PageSize_def sample_table_def frame_def NumPhysPages_def)
  note b = phys_bounds [OF acc [of True]]
  have p: "paged sample_table ?m" by (rule paged_store [OF sample_cpu_ok(1)]) (use b in \<open>simp_all add: length_machine_bytes\<close>)
  have len: "length (registers (dev ?m)) = NumTotalRegs" and regs: "registers (dev ?m) = replicate NumTotalRegs 0"
    by (simp_all add: store_at_def sample_cpu_def with_table_def Interrupt_new_def Machine_new_def)
  have r0: "reg i ?m = 0" if "i < 40" for i using that by (simp add: reg_def regs NumTotalRegs_def)
  show "cpu_ok (\<lambda>_. True) (with_program v a b)" "reg PCReg (with_program v a b) = 0"
    "reg 1 (with_program v a b) = a" "reg 2 (with_program v a b) = b"
    using p len by (auto simp: with_program_def cpu_ok_def cpu_sound_def reg_set_reg reg_numbers r0)
  have bytes: "bytes_at (phys sample_table 0) 4 (with_program v a b) = machine_bytes 4 v"
  proof -
    have "nat (phys sample_table 0) + length (machine_bytes 4 v) \<le> length (mainMemory (dev sample_cpu))"
      using b sample_cpu_ok(1) by (simp add: length_machine_bytes paged_def)
    from read_overwrite [OF this] show ?thesis
      by (simp add: with_program_def bytes_at_def set_reg_def store_at_def length_machine_bytes)
  qed
  have pp: "paged sample_table (with_program v a b)" using p by (simp add: with_program_def)
  show "\<exists>m. Machine_ReadMem h 0 4 (with_program v a b) = Inr (Some v, m) \<and> (\<forall>i. reg i m = reg i (with_program v a b))"
    using ReadMem_ok [OF pp _ acc, where h = h] load_machine_bytes [of 4 v]
    by (simp add: bytes truncated_def) (simp add: reg_def with_table_def)
qed

text \<open>The one division of words that overflows.\<close>

lemma sdiv_fits:
  fixes a b :: int
  assumes "int_fits a" "int_fits b" "b \<noteq> 0"
  shows "int_fits (a smod b)" "int_fits (a sdiv b) \<longleftrightarrow> \<not> (a = - (2 ^ 31) \<and> b = - 1)"
proof -
  have "a smod b \<in> {- \<bar>b\<bar> + 1 .. \<bar>b\<bar> - 1}" by (rule smod_int_range [OF assms(3)])
  then show "int_fits (a smod b)" using assms(2) by (auto simp: int_fits_def)
  consider "b = 1" | "b = - 1" | "2 \<le> \<bar>b\<bar>" using assms(3) by linarith
  then show "int_fits (a sdiv b) \<longleftrightarrow> \<not> (a = - (2 ^ 31) \<and> b = - 1)"
  proof cases
    case 3
    have "\<bar>a sdiv b\<bar> \<le> \<bar>a\<bar> div \<bar>b\<bar>"
      by (simp add: signed_divide_int_def abs_mult abs_sgn_eq pos_imp_zdiv_nonneg_iff)
    also have "\<dots> \<le> \<bar>a\<bar> div 2" using 3 by (intro zdiv_mono2) simp_all
    also have "\<dots> < 2 ^ 31" using assms(1) unfolding int_fits_def by linarith
    finally show ?thesis using 3 by (auto simp: int_fits_def)
  qed (use assms(1) in \<open>auto simp: int_fits_def\<close>)
qed

lemma sint_fits: "int_fits (sint w)" for w :: "32 word"
  using sint_ge [of w] sint_less [of w] by (simp add: int_fits_def)

lemma sint_of_fitting: "int_fits z \<Longrightarrow> sint (word_of_int z :: 32 word) = z"
  by (simp add: sint_sbintrunc' signed_take_bit_int_eq_self int_fits_def)

subsection \<open>Properties\<close>

text \<open>
  C27: \<^verbatim>\<open>Mult\<close> multiplies: the pair \<^verbatim>\<open>HI\<close>, \<^verbatim>\<open>LO\<close> it returns is the 64-bit product of its operands,
  read as signed or as unsigned numbers, although the loop shifts its first operand
  arithmetically and leaves early.
\<close>

theorem Mult_correct:
  assumes "Mult a b signedArith = (hi, lo)"
  shows "dword hi lo = word_of_int (if signedArith then sint a * sint b else uint a * uint b)"
  by (rule Mult_eq [OF assms])

lemma Mult_correct_witness:
  "dword 0xffffffff 0xfffffff1 = word_of_int (if True then sint (- 3 :: 32 word) * sint (5 :: 32 word)
     else uint (- 3 :: 32 word) * uint (5 :: 32 word))"
  by (rule Mult_correct) code_simp

text \<open>
  C17: no user program can make the simulator fail: from any state with all registers, a page
  table over the memory and a clean register 0, one instruction of any content leads to such a state, or ends
  the run by a fault of the kernel's exception handler or by the division that traps the host. No
  assertion, no array bound and no unhandled operation code is ever reached, and what the handler
  keeps invariant of the kernel's state stays so.
\<close>

theorem OneInstruction_safe:
  assumes "\<forall>e m. cpu_ok K m \<longrightarrow> safeR F (cpu_ok K) (h e m)" "cpu_ok K m"
  shows "safeR (insert DivideTrap F) (cpu_ok K) (Machine_OneInstruction h m)"
  by (rule exception_kernel.OneInstruction_ok [OF exception_kernel.intro assms(2)]) (use assms(1) in blast)

lemma OneInstruction_safe_witness:
  "safeR (insert DivideTrap {Halted}) (cpu_ok (\<lambda>_. True))
     (Machine_OneInstruction (\<lambda>e m. if e = SyscallException then Inl Halted else Inr m) (with_program 12 0 0))"
  by (rule OneInstruction_safe) (simp_all add: with_program_ok)

text \<open>
  \<^verbatim>\<open>ADD\<close>, \<^verbatim>\<open>ADDI\<close> and \<^verbatim>\<open>SUB\<close> are exact: when the signed sum or difference fits a word it is
  written to the target and no other register changes; otherwise the overflow exception is raised.
\<close>

theorem arithmetic_exact:
  assumes "cpu_sound K m" "instruction_ok i" "opCode i \<in> {OP_ADD, OP_ADDI, OP_SUB}"
  shows "if int_fits (arith_result i m)
     then \<exists>m'. exec_add_branch h i pcAfter m = Inr (Executed m' pcAfter 0 0)
        \<and> sint (reg (arith_target i) m') = arith_result i m \<and> (\<forall>j. j \<noteq> arith_target i \<longrightarrow> reg j m' = reg j m)
     else exec_add_branch h i pcAfter m = raise_in h OverflowException 0 m"
  by (rule arith_exact [OF assms])

lemma arithmetic_exact_witness:
  "if int_fits (arith_result \<lparr>opCode = OP_SUB, i_rs = 1, i_rt = 2, i_rd = 3, extra = 0\<rparr> (with_program 0 0x80000000 1))
     then \<exists>m'. exec_add_branch (\<lambda>e. Inr) \<lparr>opCode = OP_SUB, i_rs = 1, i_rt = 2, i_rd = 3, extra = 0\<rparr> 8 (with_program 0 0x80000000 1)
          = Inr (Executed m' 8 0 0)
        \<and> sint (reg (arith_target \<lparr>opCode = OP_SUB, i_rs = 1, i_rt = 2, i_rd = 3, extra = 0\<rparr>) m')
          = arith_result \<lparr>opCode = OP_SUB, i_rs = 1, i_rt = 2, i_rd = 3, extra = 0\<rparr> (with_program 0 0x80000000 1)
        \<and> (\<forall>j. j \<noteq> arith_target \<lparr>opCode = OP_SUB, i_rs = 1, i_rt = 2, i_rd = 3, extra = 0\<rparr> \<longrightarrow>
             reg j m' = reg j (with_program 0 0x80000000 1))
     else exec_add_branch (\<lambda>e. Inr) \<lparr>opCode = OP_SUB, i_rs = 1, i_rt = 2, i_rd = 3, extra = 0\<rparr> 8 (with_program 0 0x80000000 1)
       = raise_in (\<lambda>e. Inr) OverflowException 0 (with_program 0 0x80000000 1)"
  by (rule arithmetic_exact [where K = "\<lambda>_. True"]) (use with_program_ok(1) [of 0 "0x80000000" 1] in \<open>simp_all add: cpu_ok_def instruction_ok_def\<close>)

text \<open>
  \<^verbatim>\<open>SRL\<close> and \<^verbatim>\<open>SRLV\<close> shift arithmetically, like \<^verbatim>\<open>SRA\<close>: the result is the operand divided by a power of two
  as a signed number, which for a negative operand and a positive count differs from the
  logical shift that the instruction stands for.
\<close>

theorem SRL_is_arithmetic:
  assumes "cpu_sound K m" "instruction_ok i" "opCode i \<in> {OP_SRL, OP_SRLV}"
    "n = unat (if opCode i = OP_SRL then extra i else reg (i_rs i) m AND 0x1f)"
  shows "\<exists>m'. exec_add_branch h i pcAfter m = Inr (Executed m' pcAfter 0 0)
     \<and> sint (reg (i_rd i) m') = sint (reg (i_rt i) m) div 2 ^ n
     \<and> (0 < n \<and> n < 32 \<and> sint (reg (i_rt i) m) < 0 \<longrightarrow> reg (i_rd i) m' \<noteq> drop_bit n (reg (i_rt i) m))"
proof -
  let ?T = "reg (i_rt i) m"
  have "exec_add_branch h i pcAfter m = proceed pcAfter (set_reg (i_rd i) (signed_drop_bit n ?T) m)"
    using assms(3,4) by (auto simp: exec_add_branch_def exec_div_jump_def exec_load_def exec_lwl_def exec_lwr_def
        exec_hilo_def exec_logic_def exec_shift_def Let_def)
  moreover have "sint (signed_drop_bit n ?T) = sint ?T div 2 ^ n"
    by (simp add: sint_signed_drop_bit_eq drop_bit_eq_div)
  moreover have "signed_drop_bit n ?T \<noteq> drop_bit n ?T" if "0 < n" "sint ?T < 0"
  proof -
    have "bit ?T 31" using that(2) by (simp add: sint_by_sign split: if_splits)
    then have "bit (signed_drop_bit n ?T) 31" "\<not> bit (drop_bit n ?T) 31"
      using that(1) by (auto simp: bit_signed_drop_bit_iff bit_drop_bit_eq dest: bit_imp_le_length)
    then show ?thesis by metis
  qed
  moreover have "i_rd i < NumTotalRegs" using assms(2) by (simp add: instruction_ok_def NumTotalRegs_def)
  ultimately show ?thesis using assms(1) by (auto simp: proceed_def reg_set_reg cpu_sound_def)
qed

lemma SRL_is_arithmetic_witness:
  "\<exists>m'. exec_add_branch (\<lambda>e. Inr) \<lparr>opCode = OP_SRL, i_rs = 0, i_rt = 2, i_rd = 3, extra = 4\<rparr> 8 (with_program 0 0 0x80000000)
       = Inr (Executed m' 8 0 0)
     \<and> sint (reg (i_rd \<lparr>opCode = OP_SRL, i_rs = 0, i_rt = 2, i_rd = 3, extra = 4\<rparr>) m')
       = sint (reg (i_rt \<lparr>opCode = OP_SRL, i_rs = 0, i_rt = 2, i_rd = 3, extra = 4\<rparr>) (with_program 0 0 0x80000000)) div 2 ^ 4
     \<and> (0 < (4 :: nat) \<and> 4 < (32 :: nat)
          \<and> sint (reg (i_rt \<lparr>opCode = OP_SRL, i_rs = 0, i_rt = 2, i_rd = 3, extra = 4\<rparr>) (with_program 0 0 0x80000000)) < 0 \<longrightarrow>
        reg (i_rd \<lparr>opCode = OP_SRL, i_rs = 0, i_rt = 2, i_rd = 3, extra = 4\<rparr>) m'
          \<noteq> drop_bit 4 (reg (i_rt \<lparr>opCode = OP_SRL, i_rs = 0, i_rt = 2, i_rd = 3, extra = 4\<rparr>) (with_program 0 0 0x80000000)))"
  by (rule SRL_is_arithmetic [where K = "\<lambda>_. True"])
     (use with_program_ok(1) [of 0 0 "0x80000000"] in \<open>simp_all add: cpu_ok_def instruction_ok_def\<close>)

text \<open>
  a user program can stop the simulator: dividing the smallest integer by -1 with \<^verbatim>\<open>DIV\<close>
  executes the host's overflowing division. Every other operand pair is divided, with the quotient truncated towards
  zero, and a zero divisor gives zeros.
\<close>

theorem DIV_traps:
  assumes "cpu_sound K m" "instruction_ok i" "opCode i = OP_DIV" "a = sint (reg (i_rs i) m)" "b = sint (reg (i_rt i) m)"
  shows "if a = - (2 ^ 31) \<and> b = - 1 then exec_add_branch h i pcAfter m = Inl DivideTrap
     else \<exists>m'. exec_add_branch h i pcAfter m = Inr (Executed m' pcAfter 0 0)
        \<and> (if b = 0 then reg LoReg m' = 0 \<and> reg HiReg m' = 0
           else sint (reg LoReg m') = a sdiv b \<and> a = b * sint (reg LoReg m') + sint (reg HiReg m'))"
  unfolding assms(4,5)
proof -
  let ?S = "reg (i_rs i) m" and ?T = "reg (i_rt i) m"
  have e: "exec_add_branch h i pcAfter m = exec_div_jump h i pcAfter m"
    using assms(3) by (simp add: exec_add_branch_def Let_def)
  have t0: "?T = 0 \<longleftrightarrow> sint ?T = 0" by (metis signed_eq_0_iff)
  have regs: "reg LoReg (set_reg HiReg x (set_reg LoReg y m)) = y" "reg HiReg (set_reg HiReg x (set_reg LoReg y m)) = x" for x y
    using assms(1) by (simp_all add: cpu_sound_def reg_set_reg reg_numbers)
  note fits = sdiv_fits [OF sint_fits [of ?S] sint_fits [of ?T]]
  show "if sint ?S = - (2 ^ 31) \<and> sint ?T = - 1 then exec_add_branch h i pcAfter m = Inl DivideTrap
     else \<exists>m'. exec_add_branch h i pcAfter m = Inr (Executed m' pcAfter 0 0)
        \<and> (if sint ?T = 0 then reg LoReg m' = 0 \<and> reg HiReg m' = 0
           else sint (reg LoReg m') = sint ?S sdiv sint ?T
             \<and> sint ?S = sint ?T * sint (reg LoReg m') + sint (reg HiReg m'))"
  proof (cases "?T = 0")
    case True
    then show ?thesis unfolding e using assms(3) regs by (simp add: exec_div_jump_def proceed_def Let_def)
  next
    case False
    then have nz: "sint ?T \<noteq> 0" using t0 by blast
    then have f: "int_fits (sint ?S smod sint ?T)"
      "int_fits (sint ?S sdiv sint ?T) \<longleftrightarrow> \<not> (sint ?S = - (2 ^ 31) \<and> sint ?T = - 1)"
      using fits by simp_all
    show ?thesis
    proof (cases "int_fits (sint ?S sdiv sint ?T)")
      case True
      have "exec_add_branch h i pcAfter m = Inr (Executed (set_reg HiReg (word_of_int (sint ?S smod sint ?T))
          (set_reg LoReg (word_of_int (sint ?S sdiv sint ?T)) m)) pcAfter 0 0)"
        unfolding e using assms(3) False True by (simp add: exec_div_jump_def proceed_def Let_def)
      moreover have "\<not> (sint ?S = - (2 ^ 31) \<and> sint ?T = - 1)" using True f(2) by blast
      ultimately show ?thesis using True nz
        by (simp only: if_False) (simp add: regs sint_of_fitting f(1) mult_sdiv_smod_eq)
    next
      case False
      with \<open>?T \<noteq> 0\<close> have "exec_add_branch h i pcAfter m = Inl DivideTrap"
        unfolding e using assms(3) by (simp add: exec_div_jump_def Let_def)
      moreover have "sint ?S = - (2 ^ 31) \<and> sint ?T = - 1" using False f(2) by blast
      ultimately show ?thesis by simp
    qed
  qed
qed

lemma DIV_traps_witness:
  "if (- (2 ^ 31) :: int) = - (2 ^ 31) \<and> (- 1 :: int) = - 1
     then exec_add_branch (\<lambda>e. Inr) \<lparr>opCode = OP_DIV, i_rs = 1, i_rt = 2, i_rd = 0, extra = 0\<rparr> 8
            (with_program 0 0x80000000 0xffffffff) = Inl DivideTrap
     else \<exists>m'. exec_add_branch (\<lambda>e. Inr) \<lparr>opCode = OP_DIV, i_rs = 1, i_rt = 2, i_rd = 0, extra = 0\<rparr> 8
            (with_program 0 0x80000000 0xffffffff) = Inr (Executed m' 8 0 0)
        \<and> (if (- 1 :: int) = 0 then reg LoReg m' = 0 \<and> reg HiReg m' = 0
           else sint (reg LoReg m') = - (2 ^ 31) sdiv - 1 \<and> - (2 ^ 31) = - 1 * sint (reg LoReg m') + sint (reg HiReg m'))"
  by (rule DIV_traps [where K = "\<lambda>_. True"])
     (use with_program_ok(1) [of 0 "0x80000000" "0xffffffff"] in
       \<open>simp_all add: cpu_ok_def instruction_ok_def with_program_ok(3,4) with_program_ok(3) [unfolded One_nat_def]\<close>)

end
