(* ===== verification/Threads.thy ===== *)
theory Threads
  imports Machines "HOL-Library.Log_Nat"
begin

text \<open>
  \<^verbatim>\<open>threads/thread.h\<close> and \<^verbatim>\<open>threads/thread.cc\<close> of the scheduling assignment (MP3): the thread control
  block and its \<^verbatim>\<open>ThreadStateController\<close>, which keeps the approximated burst time and the aging
  priority of a thread as it changes between the states ready, running and waiting. The theory
  shows that the accounting is exact along every history of a thread.
\<close>

subsection \<open>Numbers of type \<^verbatim>\<open>double\<close>\<close>

text \<open>
  A double is a rational number; every operation rounds its exact result to 53 significant bits,
  ties to even, with the smallest exponent of binary64. Burst times stay far below the largest
  double, so overflow to infinity is left out.
\<close>

definition exponent :: "rat \<Rightarrow> int" where
  "exponent x = (case quotient_of \<bar>x\<bar> of (p, q) \<Rightarrow>
     let e = bitlen p - bitlen q in if 2 powi e \<le> \<bar>x\<bar> then e else e - 1)"

definition round_even :: "rat \<Rightarrow> int" where
  "round_even x = (let n = \<lfloor>x\<rfloor>; r = x - of_int n
     in if r < 1 / 2 \<or> r = 1 / 2 \<and> even n then n else n + 1)"

definition fl :: "rat \<Rightarrow> rat" where
  "fl x = (if x = 0 then 0
     else let e = max (exponent x - 52) (- 1074) in of_int (round_even (x * 2 powi (- e))) * 2 powi e)"

text \<open>\<^verbatim>\<open>static_cast<int>\<close> cuts off the fraction; outside the range of \<^verbatim>\<open>int\<close> it is undefined.\<close>

definition cast_int :: "rat \<Rightarrow> int res" where
  "cast_int x = (let n = (if 0 \<le> x then \<lfloor>x\<rfloor> else \<lceil>x\<rceil>) in if int_fits n then Inr n else Inl SignedOverflow)"

subsection \<open>The thread control block\<close>

datatype ThreadStatus = NEW | READY | RUNNING | WAITING | TERMINATED | ZOMBIE

text \<open>
  The fields of \<^verbatim>\<open>Thread\<close> with those of its \<^verbatim>\<open>orderManager\<close>. \<open>stack\<close> is the word at the bottom of the
  stack, where the fence post is, and \<open>None\<close> for a null pointer; \<open>space\<close> is the page table and
  the number of pages of the user program, if any.
\<close>

record Thread =
  ID :: int
  tstatus :: ThreadStatus
  isExec :: bool
  stack :: "int option"
  userRegisters :: "32 word list"
  space :: "(TranslationEntry list \<times> int) option"
  priority :: int
  init_priority :: int
  remainBurstTime :: rat
  currentBurstTime :: rat
  lastBurstTime :: rat
  tick_cache :: int

definition STACK_FENCEPOST :: int where "STACK_FENCEPOST = 0xdedbeef"
definition AGING_TICK :: int where "AGING_TICK = 1500"

definition Thread_new :: "int \<Rightarrow> int \<Rightarrow> int \<Rightarrow> Thread" where
  "Thread_new threadID initPriority n =
     \<lparr>ID = threadID, tstatus = NEW, isExec = False, stack = None,
      userRegisters = replicate NumTotalRegs 0, space = None,
      priority = initPriority, init_priority = initPriority, remainBurstTime = 0, currentBurstTime = 0,
      lastBurstTime = 0, tick_cache = n\<rparr>"

subsection \<open>The state controller\<close>

text \<open>The argument \<open>n\<close> is \<^verbatim>\<open>kernel->stats->totalTicks\<close>.\<close>

definition leaveRun :: "int \<Rightarrow> Thread \<Rightarrow> Thread" where
  "leaveRun n t =
     (let c = fl (currentBurstTime t + of_int (n - tick_cache t))
      in t\<lparr>currentBurstTime := c, tick_cache := n, lastBurstTime := c\<rparr>)"

definition runToWait :: "int \<Rightarrow> Thread \<Rightarrow> Thread" where
  "runToWait n t =
     (let t = leaveRun n t;
          t = t\<lparr>remainBurstTime := fl (fl (1 / 2 * currentBurstTime t) + fl (1 / 2 * remainBurstTime t))\<rparr>
      in t\<lparr>currentBurstTime := 0\<rparr>)"

definition readyToRun :: "int \<Rightarrow> Thread \<Rightarrow> Thread" where
  "readyToRun n t = t\<lparr>tick_cache := n\<rparr>"

definition toReady :: "int \<Rightarrow> Thread \<Rightarrow> Thread" where
  "toReady n t = t\<lparr>tick_cache := n, priority := init_priority t\<rparr>"

definition setPriority :: "int \<Rightarrow> Thread \<Rightarrow> Thread" where
  "setPriority p t = (if priority t \<noteq> p then t\<lparr>priority := p\<rparr> else t)"

definition runToReady :: "int \<Rightarrow> Thread \<Rightarrow> Thread" where
  "runToReady n t = toReady n (leaveRun n t)"

definition waitToReady :: "int \<Rightarrow> Thread \<Rightarrow> Thread" where "waitToReady n t = toReady n t"
definition newToReady :: "int \<Rightarrow> Thread \<Rightarrow> Thread" where "newToReady n t = toReady n t"
definition runToTerminated :: "int \<Rightarrow> Thread \<Rightarrow> Thread" where "runToTerminated n t = leaveRun n t"

definition getRemainTime :: "int \<Rightarrow> Thread \<Rightarrow> rat" where
  "getRemainTime n t =
     (if tstatus t = RUNNING
      then fl (remainBurstTime t - fl (fl (currentBurstTime t + of_int n) - of_int (tick_cache t)))
      else fl (remainBurstTime t - currentBurstTime t))"

definition Controller_aging :: "int \<Rightarrow> Thread \<Rightarrow> Thread res" where
  "Controller_aging n t =
     assertR (tstatus t = READY)
       (let age = (n - tick_cache t) sdiv AGING_TICK
        in if age \<noteq> 0
           then let t = t\<lparr>tick_cache := tick_cache t + age * AGING_TICK\<rparr>
                in Inr (setPriority (min (priority t + 10 * age) 149) t)
           else Inr t)"

definition Thread_setStatus :: "ThreadStatus \<Rightarrow> int \<Rightarrow> Thread \<Rightarrow> Thread res" where
  "Thread_setStatus st n t =
     bindR (case st of
         READY \<Rightarrow> (case tstatus t of NEW \<Rightarrow> Inr (newToReady n t) | RUNNING \<Rightarrow> Inr (runToReady n t)
                    | WAITING \<Rightarrow> Inr (waitToReady n t) | _ \<Rightarrow> Inl AssertFailed)
       | RUNNING \<Rightarrow> assertR (tstatus t = READY) (Inr (readyToRun n t))
       | WAITING \<Rightarrow> assertR (tstatus t = RUNNING) (Inr (runToWait n t))
       | TERMINATED \<Rightarrow> assertR (tstatus t = RUNNING) (Inr (runToTerminated n t))
       | _ \<Rightarrow> Inr t)
       (\<lambda>t. Inr (t\<lparr>tstatus := st\<rparr>))"

subsection \<open>Comparisons\<close>

definition comparable :: "Thread \<Rightarrow> Thread \<Rightarrow> bool" where
  "comparable t1 t2 \<longleftrightarrow> tstatus t1 = READY \<and> tstatus t2 = READY \<or> tstatus t1 = READY \<and> tstatus t2 = RUNNING
     \<or> tstatus t1 = RUNNING \<and> tstatus t2 = READY"

definition Thread_compareTime :: "int \<Rightarrow> Thread \<Rightarrow> Thread \<Rightarrow> int res" where
  "Thread_compareTime n t1 t2 =
     assertR (comparable t1 t2) (cast_int (fl (getRemainTime n t1 - getRemainTime n t2)))"

definition Thread_comparePriority :: "Thread \<Rightarrow> Thread \<Rightarrow> int res" where
  "Thread_comparePriority t1 t2 = assertR (comparable t1 t2) (addR (priority t2) (- priority t1))"

definition Thread_CheckOverflow :: "Thread \<Rightarrow> unit res" where
  "Thread_CheckOverflow t =
     (case stack t of None \<Rightarrow> Inr () | Some w \<Rightarrow> assertR (w = STACK_FENCEPOST) (Inr ()))"

definition StackAllocate :: "Thread \<Rightarrow> Thread" where
  "StackAllocate t = t\<lparr>stack := Some STACK_FENCEPOST\<rparr>"

subsection \<open>Small numbers are exact\<close>

lemma exponent_le: "x \<noteq> 0 \<Longrightarrow> 2 powi exponent x \<le> \<bar>x\<bar>"
proof -
  assume nz: "x \<noteq> 0"
  obtain p q where pq: "quotient_of \<bar>x\<bar> = (p, q)" by fastforce
  then have q: "0 < q" by (rule quotient_of_denom_pos)
  have x: "\<bar>x\<bar> = of_int p / of_int q" by (rule quotient_of_div [OF pq])
  have "0 < \<bar>x\<bar>" using nz by simp
  then have p: "0 < p" unfolding x using q by (simp add: zero_less_divide_iff)
  obtain a b where ab: "bitlen p = int (Suc a)" "bitlen q = int b"
  proof -
    have "0 \<le> bitlen q" "0 \<le> bitlen p" by (simp_all add: bitlen_nonneg)
    moreover have "bitlen p \<noteq> 0" using p by (simp add: bitlen_eq_zero_iff)
    ultimately show ?thesis using that [of "nat (bitlen p) - 1" "nat (bitlen q)"] by simp
  qed
  have "of_int (2 ^ a) \<le> (of_int p :: rat)" "of_int q \<le> (of_int (2 ^ b) :: rat)"
    using bitlen_bounds [OF p] bitlen_bounds [OF q] ab by (simp_all only: of_int_le_iff) simp_all
  then have "(2 :: rat) ^ a / 2 ^ b \<le> of_int p / of_int q"
    using p q by (intro frac_le) simp_all
  moreover have "(2 :: rat) ^ a / 2 ^ b = 2 powi (bitlen p - bitlen q - 1)"
    by (simp add: ab power_int_diff)
  ultimately show ?thesis
    unfolding exponent_def pq using x by (simp add: Let_def)
qed

lemma powi_le_iff: "(2 :: rat) powi m < 2 powi n \<longleftrightarrow> m < n"
  using power_int_strict_increasing [of m n "2 :: rat"] power_int_increasing [of n m "2 :: rat"] by (cases "m < n") simp_all

lemma fl_exact:
  assumes "\<bar>k\<bar> < 2 ^ 53" "- 1074 \<le> e"
  shows "fl (of_int k * 2 powi e) = of_int k * 2 powi e"
proof (cases "k = 0")
  case True
  then show ?thesis by (simp add: fl_def)
next
  case False
  let ?x = "of_int k * 2 powi e :: rat"
  have nz: "?x \<noteq> 0" using False by simp
  have "2 powi exponent ?x \<le> \<bar>?x\<bar>" by (rule exponent_le [OF nz])
  also have "\<bar>?x\<bar> = of_int \<bar>k\<bar> * 2 powi e" by (simp add: abs_mult)
  also have "\<dots> < of_int (2 ^ 53) * 2 powi e"
    using assms(1) by (intro mult_strict_right_mono) (simp_all only: of_int_less_iff, simp)
  also have "\<dots> = 2 powi (53 + e)" by (simp add: power_int_add)
  finally have "exponent ?x < 53 + e" by (simp only: powi_le_iff)
  define f where "f = max (exponent ?x - 52) (- 1074)"
  have f: "f \<le> e" using \<open>exponent ?x < 53 + e\<close> assms(2) by (simp add: f_def)
  have "(2 :: rat) powi e * 2 powi (- f) = 2 powi (e - f)" by (simp add: power_int_add [symmetric])
  also have "\<dots> = of_int (2 ^ nat (e - f))" using f by (simp add: power_int_def)
  finally have "?x * 2 powi (- f) = of_int (k * 2 ^ nat (e - f))" by (simp add: mult.assoc)
  then have "round_even (?x * 2 powi (- f)) = k * 2 ^ nat (e - f)"
    by (simp only: round_even_def floor_of_int) (simp add: Let_def)
  then have "fl ?x = of_int (k * 2 ^ nat (e - f)) * 2 powi f"
    using nz by (simp add: fl_def Let_def f_def [symmetric])
  also have "\<dots> = of_int k * (2 powi (e - f) * 2 powi f)"
    using f by (simp add: power_int_def)
  also have "2 powi (e - f) * 2 powi f = (2 powi e :: rat)" by (simp add: power_int_add [symmetric])
  finally show ?thesis .
qed

lemma fl_int: "\<bar>k\<bar> < 2 ^ 53 \<Longrightarrow> fl (of_int k) = of_int k"
  using fl_exact [of k 0] by simp

lemma fl_half: "\<bar>k\<bar> < 2 ^ 53 \<Longrightarrow> fl (of_int k / 2) = of_int k / 2"
  using fl_exact [of k "- 1"] by (simp add: power_int_minus)

subsection \<open>The history of a thread\<close>

text \<open>
  \<open>history n t e\<close>: at tick \<open>n\<close> the control block is \<open>t\<close>, and the thread has run for \<open>e\<close> ticks since it
  was created or last waited. A history is made of the passing of time, changes of status by
  \<^verbatim>\<open>setStatus\<close> and aging.
\<close>

inductive history :: "int \<Rightarrow> Thread \<Rightarrow> int \<Rightarrow> bool" where
  created: "0 \<le> n \<Longrightarrow> p \<le> 149 \<Longrightarrow> history n (Thread_new i p n) 0"
| passes: "history n t e \<Longrightarrow> 0 \<le> d \<Longrightarrow> history (n + d) t (if tstatus t = RUNNING then e + d else e)"
| changes: "history n t e \<Longrightarrow> st \<in> {READY, RUNNING, WAITING, TERMINATED} \<Longrightarrow> Thread_setStatus st n t = Inr t' \<Longrightarrow>
    history n t' (if st = WAITING then 0 else e)"
| ages: "history n t e \<Longrightarrow> Controller_aging n t = Inr t' \<Longrightarrow> history n t' e"

inductive_cases history_createdE: "history n (Thread_new i p n) e"

text \<open>The books of a thread.\<close>

definition accounted :: "int \<Rightarrow> Thread \<Rightarrow> int \<Rightarrow> bool" where
  "accounted n t e \<longleftrightarrow> 0 \<le> tick_cache t \<and> tick_cache t \<le> n \<and> 0 \<le> e \<and> e \<le> n
     \<and> init_priority t \<le> priority t \<and> priority t \<le> 149
     \<and> (if tstatus t = RUNNING then 0 \<le> e - (n - tick_cache t) \<and> currentBurstTime t = of_int (e - (n - tick_cache t))
        else currentBurstTime t = of_int e)"

lemma leaveRun_accounted:
  assumes "accounted n t e" "tstatus t = RUNNING" "n < 2 ^ 52"
  shows "leaveRun n t = t\<lparr>currentBurstTime := of_int e, tick_cache := n, lastBurstTime := of_int e\<rparr>"
proof -
  have "currentBurstTime t + of_int (n - tick_cache t) = of_int e" "\<bar>e\<bar> < 2 ^ 53"
    using assms by (auto simp: accounted_def)
  then show ?thesis by (simp add: leaveRun_def Let_def fl_int)
qed

lemma aging_eq:
  assumes "tstatus t = READY" "tick_cache t \<le> n" "priority t \<le> 149"
  shows "Controller_aging n t = Inr (t\<lparr>tick_cache := n - (n - tick_cache t) mod AGING_TICK,
     priority := min (priority t + 10 * ((n - tick_cache t) div AGING_TICK)) 149\<rparr>)"
proof -
  let ?d = "n - tick_cache t"
  have d: "?d sdiv AGING_TICK = ?d div AGING_TICK" using assms(2) by (simp add: AGING_TICK_def)
  have m: "tick_cache t + ?d div AGING_TICK * AGING_TICK = n - ?d mod AGING_TICK"
    by (simp add: minus_mod_eq_div_mult [symmetric])
  show ?thesis
  proof (cases "?d div AGING_TICK = 0")
    case True
    then have "?d mod AGING_TICK = ?d" using m by simp
    with True d assms show ?thesis by (simp add: Controller_aging_def Let_def)
  next
    case False
    with d assms(1) show ?thesis by (simp add: Controller_aging_def Let_def setPriority_def m)
  qed
qed

lemma setStatus_accounted:
  assumes "accounted n t e" "st \<in> {READY, RUNNING, WAITING, TERMINATED}" "Thread_setStatus st n t = Inr t'" "n < 2 ^ 52"
  shows "accounted n t' (if st = WAITING then 0 else e)"
  using assms leaveRun_accounted [OF assms(1) _ assms(4)]
  by (auto simp: Thread_setStatus_def bindR_eq_Inr assertR_eq_Inr accounted_def newToReady_def waitToReady_def
      runToReady_def toReady_def readyToRun_def runToWait_def runToTerminated_def Let_def
      split: ThreadStatus.splits if_splits)

lemma history_accounted: "history n t e \<Longrightarrow> n < 2 ^ 52 \<Longrightarrow> accounted n t e"
proof (induction rule: history.induct)
  case (created n p i)
  then show ?case by (simp add: accounted_def Thread_new_def)
next
  case (passes n t e d)
  then show ?case by (simp add: accounted_def split: if_splits)
next
  case (changes n t e st t')
  then show ?case using setStatus_accounted by blast
next
  case (ages n t e t')
  then have a: "accounted n t e" "tstatus t = READY"
    by (auto simp: Controller_aging_def assertR_eq_Inr)
  then have "t' = t\<lparr>tick_cache := n - (n - tick_cache t) mod AGING_TICK,
     priority := min (priority t + 10 * ((n - tick_cache t) div AGING_TICK)) 149\<rparr>"
    using ages(2) aging_eq [of t n] by (simp add: accounted_def)
  moreover have "0 \<le> (n - tick_cache t) mod AGING_TICK" "(n - tick_cache t) mod AGING_TICK \<le> n - tick_cache t"
    "0 \<le> (n - tick_cache t) div AGING_TICK"
    using a by (simp_all add: AGING_TICK_def accounted_def pos_imp_zdiv_nonneg_iff zmod_le_nonneg_dividend)
  ultimately show ?case using a by (auto simp: accounted_def)
qed

lemma remain_accounted: "accounted n t e \<Longrightarrow> n < 2 ^ 52 \<Longrightarrow> getRemainTime n t = fl (remainBurstTime t - of_int e)"
proof (cases "tstatus t = RUNNING")
  case True
  assume a: "accounted n t e" "n < 2 ^ 52"
  then have c: "currentBurstTime t + of_int n = of_int (e + tick_cache t)" "\<bar>e + tick_cache t\<bar> < 2 ^ 53" "\<bar>e\<bar> < 2 ^ 53"
    using True by (auto simp: accounted_def)
  then show ?thesis using True by (simp add: getRemainTime_def fl_int del: of_int_add) (simp add: fl_int)
qed (auto simp: accounted_def getRemainTime_def)

subsection \<open>Properties\<close>

text \<open>
  C23: burst times are accounted exactly: along every history of a thread, preemptions included, the remaining time
  is the estimate less the ticks the thread has run since it last waited, and when it waits the new
  estimate is the mean of the old one and of those ticks (rounded as doubles are).
\<close>

theorem burst_accounting:
  assumes "history n t e" "n < 2 ^ 52"
  shows "0 \<le> e \<and> e \<le> n \<and> getRemainTime n t = fl (remainBurstTime t - of_int e)
     \<and> (tstatus t = RUNNING \<longrightarrow> (\<exists>t'. Thread_setStatus WAITING n t = Inr t'
          \<and> remainBurstTime t' = fl (fl (of_int e / 2) + fl (remainBurstTime t / 2)) \<and> currentBurstTime t' = 0))"
proof -
  note a = history_accounted [OF assms]
  have "Thread_setStatus WAITING n t = Inr ((runToWait n t)\<lparr>tstatus := WAITING\<rparr>)" if "tstatus t = RUNNING"
    using that by (simp add: Thread_setStatus_def)
  then show ?thesis
    using a leaveRun_accounted [OF a _ assms(2)] remain_accounted [OF a assms(2)]
    by (auto simp: accounted_def runToWait_def Let_def)
qed

lemma sample_history: "history 13 ((Thread_new 1 60 3)\<lparr>tstatus := RUNNING\<rparr>) 10"
proof -
  have "history 3 (Thread_new 1 60 3) 0" by (rule created) simp_all
  then have "history 3 ((Thread_new 1 60 3)\<lparr>tstatus := READY\<rparr>) 0"
    by (rule changes [where st = READY, simplified])
       (simp add: Thread_setStatus_def newToReady_def toReady_def Thread_new_def)
  then have "history 3 ((Thread_new 1 60 3)\<lparr>tstatus := RUNNING\<rparr>) 0"
    by (rule changes [where st = RUNNING, simplified])
       (simp add: Thread_setStatus_def readyToRun_def Thread_new_def)
  from passes [OF this, of 10] show ?thesis by simp
qed

lemma burst_accounting_witness:
  "getRemainTime 13 ((Thread_new 1 60 3)\<lparr>tstatus := RUNNING\<rparr>)
       = fl (remainBurstTime ((Thread_new 1 60 3)\<lparr>tstatus := RUNNING\<rparr>) - of_int 10)
     \<and> (\<exists>t'. Thread_setStatus WAITING 13 ((Thread_new 1 60 3)\<lparr>tstatus := RUNNING\<rparr>) = Inr t'
          \<and> remainBurstTime t' = fl (fl (of_int 10 / 2) + fl (remainBurstTime ((Thread_new 1 60 3)\<lparr>tstatus := RUNNING\<rparr>) / 2))
          \<and> currentBurstTime t' = 0)"
  using burst_accounting [OF sample_history] by simp

text \<open>
  aging is exact: for every 1500 ticks that a ready thread has waited, its priority grows by ten, up to 149, the
  remainder of the waiting time is carried over, and no waiting time is counted twice.
\<close>

theorem aging_exact:
  assumes "history n t e" "n < 2 ^ 52" "tstatus t = READY"
  shows "\<exists>t'. Controller_aging n t = Inr t'
     \<and> priority t' = min (priority t + 10 * ((n - tick_cache t) div AGING_TICK)) 149
     \<and> init_priority t \<le> priority t \<and> priority t \<le> priority t'
     \<and> n - tick_cache t' = (n - tick_cache t) mod AGING_TICK \<and> Controller_aging n t' = Inr t'"
proof -
  note a = history_accounted [OF assms(1,2)]
  let ?d = "n - tick_cache t"
  let ?t = "t\<lparr>tick_cache := n - ?d mod AGING_TICK, priority := min (priority t + 10 * (?d div AGING_TICK)) 149\<rparr>"
  have 1: "Controller_aging n t = Inr ?t" using a assms(3) by (intro aging_eq) (simp_all add: accounted_def)
  have r: "0 \<le> ?d mod AGING_TICK" "?d mod AGING_TICK < AGING_TICK" "0 \<le> ?d div AGING_TICK"
    using a by (simp_all add: AGING_TICK_def accounted_def pos_imp_zdiv_nonneg_iff)
  have "Controller_aging n ?t = Inr ?t"
    using r a assms(3) by (subst aging_eq) (simp_all add: accounted_def div_pos_pos_trivial mod_pos_pos_trivial)
  with 1 r a show ?thesis by (auto simp: accounted_def)
qed

lemma aging_exact_witness:
  "\<exists>t'. Controller_aging 4003 ((Thread_new 1 60 3)\<lparr>tstatus := READY\<rparr>) = Inr t'
     \<and> priority t' = min (priority ((Thread_new 1 60 3)\<lparr>tstatus := READY\<rparr>)
          + 10 * ((4003 - tick_cache ((Thread_new 1 60 3)\<lparr>tstatus := READY\<rparr>)) div AGING_TICK)) 149
     \<and> init_priority ((Thread_new 1 60 3)\<lparr>tstatus := READY\<rparr>) \<le> priority ((Thread_new 1 60 3)\<lparr>tstatus := READY\<rparr>)
     \<and> priority ((Thread_new 1 60 3)\<lparr>tstatus := READY\<rparr>) \<le> priority t'
     \<and> 4003 - tick_cache t' = (4003 - tick_cache ((Thread_new 1 60 3)\<lparr>tstatus := READY\<rparr>)) mod AGING_TICK
     \<and> Controller_aging 4003 t' = Inr t'"
proof -
  have "history 3 (Thread_new 1 60 3) 0" by (rule created) simp_all
  then have "history 3 ((Thread_new 1 60 3)\<lparr>tstatus := READY\<rparr>) 0"
    by (rule changes [where st = READY, simplified])
       (simp add: Thread_setStatus_def newToReady_def toReady_def Thread_new_def)
  from passes [OF this, of 4000] have "history 4003 ((Thread_new 1 60 3)\<lparr>tstatus := READY\<rparr>) 0" by simp
  then show ?thesis by (rule aging_exact) simp_all
qed

text \<open>
  Rounding: \<^verbatim>\<open>compareTime\<close> does not see fractions of a tick: it puts a thread before another only when its remaining time is
  shorter by at least one whole tick, although the estimates are halved at every wait and so have
  fractions.
\<close>

theorem compareTime_truncates:
  assumes "comparable t1 t2" "int_fits \<lfloor>d\<rfloor>" "int_fits \<lceil>d\<rceil>" "d = fl (getRemainTime n t1 - getRemainTime n t2)"
  shows "\<exists>r. Thread_compareTime n t1 t2 = Inr r \<and> (r < 0 \<longleftrightarrow> d \<le> - 1) \<and> (r > 0 \<longleftrightarrow> d \<ge> 1)"
  using assms by (auto simp: Thread_compareTime_def cast_int_def Let_def)

lemma compareTime_truncates_witness:
  "\<exists>r. Thread_compareTime 0 ((Thread_new 1 120 0)\<lparr>tstatus := READY, remainBurstTime := 3 / 4\<rparr>)
         ((Thread_new 2 120 0)\<lparr>tstatus := READY, remainBurstTime := 3 / 2\<rparr>) = Inr r
     \<and> (r < 0 \<longleftrightarrow> (- 3 / 4 :: rat) \<le> - 1) \<and> (r > 0 \<longleftrightarrow> (- 3 / 4 :: rat) \<ge> 1)"
proof (rule compareTime_truncates)
  have f: "fl (- (3 / 4)) = - 3 / 4" "fl (3 / 4) = 3 / 4" "fl (3 / 2) = 3 / 2"
    using fl_exact [of "- 3" "- 2"] fl_exact [of 3 "- 2"] fl_exact [of 3 "- 1"] by (simp_all add: power_int_minus power2_eq_square)
  show "- 3 / 4 = fl (getRemainTime 0 ((Thread_new 1 120 0)\<lparr>tstatus := READY, remainBurstTime := 3 / 4\<rparr>)
      - getRemainTime 0 ((Thread_new 2 120 0)\<lparr>tstatus := READY, remainBurstTime := 3 / 2\<rparr>))"
    by (simp add: getRemainTime_def Thread_new_def f)
qed (simp_all add: comparable_def int_fits_def)

end
