(* ===== verification/Schedulers.thy ===== *)
theory Schedulers
  imports Threads Interrupts
begin

text \<open>
  \<^verbatim>\<open>threads/scheduler.h\<close>, \<^verbatim>\<open>threads/scheduler.cc\<close>, \<^verbatim>\<open>threads/alarm.cc\<close> and the thread operations of
  \<^verbatim>\<open>threads/thread.cc\<close> that use them (MP3): the ready queue of three levels, aging and preemption
  at every timer interrupt, dispatching, and fork, yield, sleep and finish. The state \<open>Kernel\<close>
  is the part of the machine that the operating system adds to the CPU of theory \<open>Machines\<close>.
  A context switch is split where \<^verbatim>\<open>SWITCH\<close> changes stacks: what \<^verbatim>\<open>Scheduler::Run\<close> does before it, on
  behalf of the old thread, and what the thread that gets the CPU does after it.
\<close>

subsection \<open>State\<close>

text \<open>
  Threads are objects with an address; a deleted object is no longer in \<open>threads\<close>. The three lists
  hold addresses.
\<close>

record Kernel =
  threads :: "nat \<rightharpoonup> Thread"
  nextThread :: nat
  currentThread :: nat
  L1 :: "nat List"
  L2 :: "nat List"
  L3 :: "nat List"
  toBeDestroyed :: "nat option"
  execExit :: bool
  execRunningNum :: int

type_synonym kern = "Kernel cpu"

abbreviation kos :: "kern \<Rightarrow> Kernel" where "kos m \<equiv> os (dev m)"

definition put_os :: "(Kernel \<Rightarrow> Kernel) \<Rightarrow> kern \<Rightarrow> kern" where
  "put_os f m = m\<lparr>dev := (dev m)\<lparr>os := f (os (dev m))\<rparr>\<rparr>"

definition get_thread :: "nat \<Rightarrow> kern \<Rightarrow> Thread res" where
  "get_thread t m = (case threads (kos m) t of None \<Rightarrow> Inl UseAfterFree | Some r \<Rightarrow> Inr r)"

definition put_thread :: "nat \<Rightarrow> Thread \<Rightarrow> kern \<Rightarrow> kern" where
  "put_thread t r = put_os (\<lambda>k. k\<lparr>threads := (threads k)(t \<mapsto> r)\<rparr>)"

definition upd_thread :: "nat \<Rightarrow> (Thread \<Rightarrow> Thread res) \<Rightarrow> kern \<Rightarrow> kern res" where
  "upd_thread t f m = bindR (get_thread t m) (\<lambda>r. bindR (f r) (\<lambda>r. Inr (put_thread t r m)))"

definition setStatus :: "ThreadStatus \<Rightarrow> nat \<Rightarrow> kern \<Rightarrow> kern res" where
  "setStatus st t m = upd_thread t (Thread_setStatus st (now m)) m"

definition compareTime :: "kern \<Rightarrow> nat \<Rightarrow> nat \<Rightarrow> int res" where
  "compareTime m a b = bindR (get_thread a m) (\<lambda>x. bindR (get_thread b m) (Thread_compareTime (now m) x))"

definition comparePriority :: "kern \<Rightarrow> nat \<Rightarrow> nat \<Rightarrow> int res" where
  "comparePriority m a b = bindR (get_thread a m) (\<lambda>x. bindR (get_thread b m) (Thread_comparePriority x))"

subsection \<open>The ready queue\<close>

datatype Level = Lv1 | Lv2 | Lv3

fun level_rank :: "Level \<Rightarrow> nat" where
  "level_rank Lv1 = 0" | "level_rank Lv2 = 1" | "level_rank Lv3 = 2"

instantiation Level :: linorder
begin

definition less_eq_Level :: "Level \<Rightarrow> Level \<Rightarrow> bool" where
  "a \<le> b \<longleftrightarrow> level_rank a \<le> level_rank b"

definition less_Level :: "Level \<Rightarrow> Level \<Rightarrow> bool" where
  "a < b \<longleftrightarrow> level_rank a < level_rank b"

instance
proof
  fix a b :: Level
  show "a \<le> b \<Longrightarrow> b \<le> a \<Longrightarrow> a = b" by (cases a; cases b) (simp_all add: less_eq_Level_def)
qed (auto simp: less_eq_Level_def less_Level_def)

end

definition getQueueLevel :: "Thread \<Rightarrow> Level" where
  "getQueueLevel t = (if priority t \<ge> 100 then Lv1 else if priority t \<ge> 50 then Lv2 else Lv3)"

fun queue :: "Level \<Rightarrow> Kernel \<Rightarrow> nat List" where
  "queue Lv1 k = L1 k" | "queue Lv2 k = L2 k" | "queue Lv3 k = L3 k"

fun set_queue :: "Level \<Rightarrow> nat List \<Rightarrow> Kernel \<Rightarrow> Kernel" where
  "set_queue Lv1 l k = k\<lparr>L1 := l\<rparr>" | "set_queue Lv2 l k = k\<lparr>L2 := l\<rparr>" | "set_queue Lv3 l k = k\<lparr>L3 := l\<rparr>"

definition MultilevelThreadQueue_Append :: "nat \<Rightarrow> kern \<Rightarrow> kern res" where
  "MultilevelThreadQueue_Append t m =
     bindR (get_thread t m) (\<lambda>r.
       let lv = getQueueLevel r
       in bindR (case lv of Lv1 \<Rightarrow> SortedList_Insert (compareTime m) (L1 (kos m)) t
                 | Lv2 \<Rightarrow> SortedList_Insert (comparePriority m) (L2 (kos m)) t
                 | Lv3 \<Rightarrow> List_Append (L3 (kos m)) t)
            (\<lambda>l. Inr (put_os (set_queue lv l) m)))"

definition MultilevelThreadQueue_IsEmpty :: "kern \<Rightarrow> bool" where
  "MultilevelThreadQueue_IsEmpty m \<longleftrightarrow>
     List_IsEmpty (L1 (kos m)) \<and> List_IsEmpty (L2 (kos m)) \<and> List_IsEmpty (L3 (kos m))"

definition MultilevelThreadQueue_RemoveFront :: "kern \<Rightarrow> (nat \<times> kern) res" where
  "MultilevelThreadQueue_RemoveFront m =
     (let lv = (if \<not> List_IsEmpty (L1 (kos m)) then Lv1 else if \<not> List_IsEmpty (L2 (kos m)) then Lv2 else Lv3)
      in bindR (List_RemoveFront (queue lv (kos m))) (\<lambda>(t, l). Inr (t, put_os (set_queue lv l) m)))"

text \<open>\<^verbatim>\<open>Apply\<close> calls a function on the threads of the three lists, which it does not change.\<close>

definition apply_to :: "(nat \<Rightarrow> kern \<Rightarrow> kern res) \<Rightarrow> nat List \<Rightarrow> kern \<Rightarrow> kern res" where
  "apply_to f l m = bindR (items_from (brk l) (cells l) (lfirst l)) (\<lambda>ts. eachR f ts m)"

definition MultilevelThreadQueue_Apply :: "(nat \<Rightarrow> kern \<Rightarrow> kern res) \<Rightarrow> kern \<Rightarrow> kern res" where
  "MultilevelThreadQueue_Apply f m =
     bindR (apply_to f (L1 (kos m)) m) (\<lambda>m. bindR (apply_to f (L2 (kos m)) m) (\<lambda>m. apply_to f (L3 (kos m)) m))"

definition Thread_Aging :: "nat \<Rightarrow> kern \<Rightarrow> kern res" where
  "Thread_Aging t m = upd_thread t (Controller_aging (now m)) m"

text \<open>
  The loop of \<^verbatim>\<open>PromoteThreads\<close> over the list of level \<open>lv\<close>. After \<^verbatim>\<open>Remove\<close> the iterator still points to
  the cell that was deleted; \<^verbatim>\<open>Next\<close> reads it.
\<close>

fun promote_from :: "nat \<Rightarrow> Level \<Rightarrow> nat option \<Rightarrow> kern \<Rightarrow> kern res" where
  "promote_from 0 lv it m = (if ListIterator_IsDone it then Inr m else Inl NoReturn)"
| "promote_from (Suc n) lv it m =
     (if ListIterator_IsDone it then Inr m
      else bindR (ListIterator_Item (queue lv (kos m)) it) (\<lambda>t.
        bindR (get_thread t m) (\<lambda>r.
        bindR (if getQueueLevel r < lv
               then bindR (List_Remove (queue lv (kos m)) t) (\<lambda>l.
                      MultilevelThreadQueue_Append t (put_os (set_queue lv l) m))
               else Inr m) (\<lambda>m.
        bindR (ListIterator_Next (queue lv (kos m)) it) (\<lambda>it. promote_from n lv it m)))))"

definition MultilevelThreadQueue_PromoteThreads :: "Level \<Rightarrow> kern \<Rightarrow> kern res" where
  "MultilevelThreadQueue_PromoteThreads lv m =
     promote_from (brk (queue lv (kos m))) lv (ListIterator_new (queue lv (kos m))) m"

definition MultilevelThreadQueue_Aging :: "kern \<Rightarrow> kern res" where
  "MultilevelThreadQueue_Aging m =
     bindR (MultilevelThreadQueue_Apply Thread_Aging m) (\<lambda>m.
     bindR (MultilevelThreadQueue_PromoteThreads Lv3 m) (\<lambda>m.
       MultilevelThreadQueue_PromoteThreads Lv2 m))"

definition MultilevelThreadQueue_ShouldPreempt :: "kern \<Rightarrow> bool res" where
  "MultilevelThreadQueue_ShouldPreempt m =
     bindR (get_thread (currentThread (kos m)) m) (\<lambda>r.
       if getQueueLevel r = Lv3 then Inr True
       else if List_IsEmpty (L1 (kos m)) then Inr False
       else if getQueueLevel r = Lv2 then Inr True
       else bindR (List_Front (L1 (kos m))) (\<lambda>f.
              bindR (compareTime m (currentThread (kos m)) f) (\<lambda>c. Inr (c > 0))))"

subsection \<open>The scheduler\<close>

definition Kernel_new :: "nat \<Rightarrow> (nat \<rightharpoonup> Thread) \<Rightarrow> nat \<Rightarrow> Kernel" where
  "Kernel_new cur ths n = \<lparr>threads = ths, nextThread = n, currentThread = cur, L1 = List_new, L2 = List_new,
     L3 = List_new, toBeDestroyed = None, execExit = False, execRunningNum = 0\<rparr>"

definition Scheduler_ReadyToRun :: "nat \<Rightarrow> kern \<Rightarrow> kern res" where
  "Scheduler_ReadyToRun t m =
     assertR (level m = IntOff) (bindR (setStatus READY t m) (MultilevelThreadQueue_Append t))"

definition Scheduler_FindNextToRun :: "kern \<Rightarrow> (nat option \<times> kern) res" where
  "Scheduler_FindNextToRun m =
     assertR (level m = IntOff)
       (if MultilevelThreadQueue_IsEmpty m then Inr (None, m)
        else bindR (MultilevelThreadQueue_RemoveFront m) (\<lambda>(t, m). Inr (Some t, m)))"

definition Thread_SaveUserState :: "nat \<Rightarrow> kern \<Rightarrow> kern res" where
  "Thread_SaveUserState t m =
     forR NumTotalRegs 0 (\<lambda>i m. upd_thread t (\<lambda>r. bindR (Machine_ReadRegister (int i) m) (\<lambda>v.
       Inr (r\<lparr>userRegisters := (userRegisters r)[i := v]\<rparr>))) m) m"

definition Thread_RestoreUserState :: "nat \<Rightarrow> kern \<Rightarrow> kern res" where
  "Thread_RestoreUserState t m =
     forR NumTotalRegs 0 (\<lambda>i m. bindR (get_thread t m) (\<lambda>r. Machine_WriteRegister (int i) (userRegisters r ! i) m)) m"

text \<open>
  \<^verbatim>\<open>AddrSpace::SaveState\<close> has an empty body: the machine works on the page table of the space itself. Here
  the table is a value in both places, so the bits the machine has set are copied back.
\<close>

definition AddrSpace_SaveState :: "nat \<Rightarrow> kern \<Rightarrow> kern res" where
  "AddrSpace_SaveState t m = upd_thread t (\<lambda>r. Inr (r\<lparr>space := (case (space r, pageTable (dev m)) of
     (Some (pt, n), Some pt') \<Rightarrow> Some (pt', n) | (s, _) \<Rightarrow> s)\<rparr>)) m"

definition AddrSpace_RestoreState :: "TranslationEntry list \<times> int \<Rightarrow> kern \<Rightarrow> kern" where
  "AddrSpace_RestoreState s m = m\<lparr>dev := (dev m)\<lparr>pageTable := Some (fst s), pageTableSize := snd s\<rparr>\<rparr>"

text \<open>\<^verbatim>\<open>delete\<close> on a thread.\<close>

definition Thread_delete :: "nat \<Rightarrow> kern \<Rightarrow> kern res" where
  "Thread_delete t m = bindR (get_thread t m) (\<lambda>_. assertR (t \<noteq> currentThread (kos m))
     (Inr (put_os (\<lambda>k. k\<lparr>threads := (threads k)(t := None)\<rparr>) m)))"

definition Scheduler_CheckToBeDestroyed :: "kern \<Rightarrow> kern res" where
  "Scheduler_CheckToBeDestroyed m =
     (case toBeDestroyed (kos m) of None \<Rightarrow> Inr m
      | Some t \<Rightarrow> bindR (Thread_delete t m) (\<lambda>m. Inr (put_os (\<lambda>k. k\<lparr>toBeDestroyed := None\<rparr>) m)))"

text \<open>\<^verbatim>\<open>Scheduler::Run\<close> up to \<^verbatim>\<open>SWITCH\<close>, and from there on when the old thread gets the CPU again.\<close>

definition Scheduler_Run :: "nat \<Rightarrow> bool \<Rightarrow> kern \<Rightarrow> kern res" where
  "Scheduler_Run next finishing m =
     (let oldThread = currentThread (kos m)
      in assertR (level m = IntOff)
       (bindR (if finishing then assertR (toBeDestroyed (kos m) = None)
                 (Inr (put_os (\<lambda>k. k\<lparr>toBeDestroyed := Some oldThread\<rparr>) m)) else Inr m) (\<lambda>m.
        bindR (get_thread oldThread m) (\<lambda>r.
        bindR (if space r \<noteq> None
               then bindR (Thread_SaveUserState oldThread m) (AddrSpace_SaveState oldThread) else Inr m) (\<lambda>m.
        bindR (bindR (get_thread oldThread m) Thread_CheckOverflow) (\<lambda>_.
          setStatus RUNNING next (put_os (\<lambda>k. k\<lparr>currentThread := next\<rparr>) m)))))))"

definition Scheduler_Run_resumed :: "nat \<Rightarrow> kern \<Rightarrow> kern res" where
  "Scheduler_Run_resumed oldThread m =
     assertR (level m = IntOff)
      (bindR (Scheduler_CheckToBeDestroyed m) (\<lambda>m.
       bindR (get_thread oldThread m) (\<lambda>r.
         case space r of None \<Rightarrow> Inr m
         | Some s \<Rightarrow> bindR (Thread_RestoreUserState oldThread m) (\<lambda>m. Inr (AddrSpace_RestoreState s m)))))"

subsection \<open>The operations of threads\<close>

definition Thread_Fork :: "Kernel CPU hooks \<Rightarrow> nat \<Rightarrow> kern \<Rightarrow> kern res" where
  "Thread_Fork h t m =
     bindR (upd_thread t (\<lambda>r. Inr (StackAllocate r)) m) (\<lambda>m.
     bindR (Interrupt_SetLevel h IntOff m) (\<lambda>(oldLevel, m).
     bindR (Scheduler_ReadyToRun t m) (\<lambda>m.
     bindR (Interrupt_SetLevel h oldLevel m) (\<lambda>(_, m). Inr m))))"

definition Thread_Begin :: "Kernel CPU hooks \<Rightarrow> nat \<Rightarrow> kern \<Rightarrow> kern res" where
  "Thread_Begin h t m =
     assertR (t = currentThread (kos m))
      (bindR (Scheduler_CheckToBeDestroyed m) (\<lambda>m.
       bindR (Interrupt_SetLevel h IntOn m) (\<lambda>(_, m).
       bindR (get_thread t m) (\<lambda>r.
         Inr (if execExit (kos m) \<and> isExec r then put_os (\<lambda>k. k\<lparr>execRunningNum := execRunningNum k + 1\<rparr>) m else m)))))"

definition Thread_Yield :: "Kernel CPU hooks \<Rightarrow> nat \<Rightarrow> kern \<Rightarrow> kern control res" where
  "Thread_Yield h t m =
     bindR (Interrupt_SetLevel h IntOff m) (\<lambda>(oldLevel, m).
     assertR (t = currentThread (kos m))
      (bindR (Scheduler_FindNextToRun m) (\<lambda>(next, m).
         case next of
           Some n \<Rightarrow> bindR (Scheduler_ReadyToRun t m) (\<lambda>m. bindR (Scheduler_Run n False m) (\<lambda>m. Inr (Switches n m)))
         | None \<Rightarrow> bindR (Interrupt_SetLevel h oldLevel m) (\<lambda>(_, m). Inr (Stays m)))))"

definition Thread_Yield_resumed :: "Kernel CPU hooks \<Rightarrow> nat \<Rightarrow> IntStatus \<Rightarrow> kern \<Rightarrow> kern res" where
  "Thread_Yield_resumed h t oldLevel m =
     bindR (Scheduler_Run_resumed t m) (\<lambda>m. bindR (Interrupt_SetLevel h oldLevel m) (\<lambda>(_, m). Inr m))"

text \<open>The waiting loop of \<^verbatim>\<open>Sleep\<close>, for a number of idle rounds.\<close>

fun idle_until_ready :: "nat \<Rightarrow> Kernel CPU hooks \<Rightarrow> kern \<Rightarrow> (nat \<times> kern) res" where
  "idle_until_ready 0 h m = Inl NoReturn"
| "idle_until_ready (Suc n) h m =
     bindR (Scheduler_FindNextToRun m) (\<lambda>(next, m).
       case next of Some t \<Rightarrow> Inr (t, m)
       | None \<Rightarrow> bindR (Interrupt_Idle h m) (idle_until_ready n h))"

definition Thread_Sleep :: "nat \<Rightarrow> Kernel CPU hooks \<Rightarrow> nat \<Rightarrow> bool \<Rightarrow> kern \<Rightarrow> kern control res" where
  "Thread_Sleep rounds h t finishing m =
     assertR (t = currentThread (kos m))
      (assertR (level m = IntOff)
        (bindR (setStatus (if finishing then TERMINATED else WAITING) t m) (\<lambda>m.
         bindR (idle_until_ready rounds h m) (\<lambda>(next, m).
         bindR (Scheduler_Run next finishing m) (\<lambda>m. Inr (Switches next m))))))"

definition Thread_Finish :: "nat \<Rightarrow> Kernel CPU hooks \<Rightarrow> nat \<Rightarrow> kern \<Rightarrow> kern control res" where
  "Thread_Finish rounds h t m =
     bindR (Interrupt_SetLevel h IntOff m) (\<lambda>(_, m).
     assertR (t = currentThread (kos m))
      (bindR (get_thread t m) (\<lambda>r.
       bindR (if execExit (kos m) \<and> isExec r
              then let m = put_os (\<lambda>k. k\<lparr>execRunningNum := execRunningNum k - 1\<rparr>) m
                   in if execRunningNum (kos m) = 0 then Inl Halted else Inr m
              else Inr m) (\<lambda>m.
         Thread_Sleep rounds h t True m))))"

subsection \<open>The timer\<close>

definition Alarm_CallBack :: "kern \<Rightarrow> kern res" where
  "Alarm_CallBack m =
     (let status = mstatus m
      in bindR (MultilevelThreadQueue_Aging m) (\<lambda>m.
           if status = IdleMode then Inr m
           else bindR (MultilevelThreadQueue_ShouldPreempt m) (\<lambda>b.
                  if b then Interrupt_YieldOnReturn m else Inr m)))"

text \<open>
  The timer device: \<open>disable\<close> and \<open>randomize\<close> are its flags, and \<open>r\<close> is what \<^verbatim>\<open>RandomNumber\<close> returns.
\<close>

definition Timer_SetInterrupt :: "bool \<Rightarrow> bool \<Rightarrow> 32 word \<Rightarrow> 'd machine \<Rightarrow> 'd machine res" where
  "Timer_SetInterrupt disable randomize r m =
     (if disable then Inr m
      else Interrupt_Schedule TheTimer (if randomize then 1 + uint r mod (TimerTicks * 2) else TimerTicks) TimerInt m)"

definition Timer_CallBack :: "bool \<Rightarrow> bool \<Rightarrow> 32 word \<Rightarrow> ('d machine \<Rightarrow> 'd machine res) \<Rightarrow> 'd machine \<Rightarrow> 'd machine res" where
  "Timer_CallBack disable randomize r callPeriodically m =
     bindR (callPeriodically m) (Timer_SetInterrupt disable randomize r)"

subsection \<open>Access to the threads\<close>

lemma kernel_access [simp]:
  "kos (put_os f m) = f (kos m)" "stats (put_os f m) = stats m" "level (put_os f m) = level m"
  "mstatus (put_os f m) = mstatus m" "inHandler (put_os f m) = inHandler m"
  "kos (put_thread t r m) = (kos m)\<lparr>threads := (threads (kos m))(t \<mapsto> r)\<rparr>"
  "stats (put_thread t r m) = stats m" "level (put_thread t r m) = level m"
  by (simp_all add: put_os_def put_thread_def)

lemma set_queue_frame [simp]:
  "threads (set_queue lv l k) = threads k" "currentThread (set_queue lv l k) = currentThread k"
  "toBeDestroyed (set_queue lv l k) = toBeDestroyed k" "queue lv (set_queue lv l k) = l"
  "lv \<noteq> lv' \<Longrightarrow> queue lv' (set_queue lv l k) = queue lv' k"
  by (cases lv; cases lv'; simp)+

lemma queue_threads [simp]: "queue lv (k\<lparr>threads := ths\<rparr>) = queue lv k"
  by (cases lv) simp_all

lemma get_thread_Some [simp]: "threads (kos m) t = Some r \<Longrightarrow> get_thread t m = Inr r"
  by (simp add: get_thread_def)

lemma upd_thread_ok: "threads (kos m) t = Some r \<Longrightarrow> f r = Inr r' \<Longrightarrow> upd_thread t f m = Inr (put_thread t r' m)"
  by (simp add: upd_thread_def)

subsection \<open>Sizes of rounded numbers\<close>

lemma round_even_bound: "\<bar>of_int (round_even x)\<bar> \<le> \<bar>x\<bar> + 1"
proof -
  define n where "n = \<lfloor>x\<rfloor>"
  have "of_int n \<le> x" "x < of_int n + 1" unfolding n_def using floor_correct [of x] by simp_all
  then show ?thesis unfolding round_even_def Let_def n_def [symmetric] by (simp split: if_split) linarith
qed

lemma fl_bound: "\<bar>fl x\<bar> \<le> 2 * \<bar>x\<bar> + 1"
proof (cases "x = 0")
  case False
  define f where "f = max (exponent x - 52) (- 1074)"
  define u where "u = (2 :: rat) powi f"
  have u: "0 < u" by (simp add: u_def)
  have "u \<le> \<bar>x\<bar> + 1"
  proof (cases "f = - 1074")
    case True
    have "u \<le> 2 powi 0" unfolding u_def True by (rule power_int_increasing) simp_all
    then show ?thesis by simp
  next
    case False
    then have "f \<le> exponent x" by (simp add: f_def max_def split: if_splits)
    then have "u \<le> 2 powi exponent x" unfolding u_def by (rule power_int_increasing) simp
    then show ?thesis using exponent_le [OF \<open>x \<noteq> 0\<close>] by simp
  qed
  have "fl x = of_int (round_even (x * 2 powi (- f))) * u"
    using False by (simp add: fl_def Let_def f_def u_def)
  moreover have "x * 2 powi (- f) = x / u" by (simp add: u_def power_int_minus divide_inverse)
  ultimately have "\<bar>fl x\<bar> = \<bar>of_int (round_even (x / u))\<bar> * u" using u by (simp add: abs_mult)
  also have "\<dots> \<le> (\<bar>x / u\<bar> + 1) * u" by (rule mult_right_mono [OF round_even_bound]) (use u in simp)
  also have "\<dots> = \<bar>x\<bar> + u" using u by (simp add: abs_divide distrib_right)
  finally show ?thesis using \<open>u \<le> \<bar>x\<bar> + 1\<close> by simp
qed (simp add: fl_def)

lemma cast_int_ok: "\<bar>x\<bar> \<le> 2 ^ 30 \<Longrightarrow> \<exists>r. cast_int x = Inr r"
proof -
  assume x: "\<bar>x\<bar> \<le> 2 ^ 30"
  then have "- (2 ^ 30) \<le> \<lfloor>x\<rfloor>" "\<lfloor>x\<rfloor> \<le> 2 ^ 30" "- (2 ^ 30) \<le> \<lceil>x\<rceil>" "\<lceil>x\<rceil> \<le> 2 ^ 30"
    by (simp_all add: le_floor_iff floor_le_iff ceiling_le_iff le_ceiling_iff abs_le_iff)
  then show ?thesis by (simp add: cast_int_def Let_def int_fits_def)
qed

text \<open>Threads whose burst times are below \<open>2 ^ 24\<close> ticks and whose priorities are in range.\<close>

definition tame :: "Thread \<Rightarrow> bool" where
  "tame r \<longleftrightarrow> \<bar>remainBurstTime r\<bar> \<le> 2 ^ 24 \<and> \<bar>currentBurstTime r\<bar> \<le> 2 ^ 24 \<and> 0 \<le> priority r \<and> priority r \<le> 149"

lemma compare_ready:
  assumes "tstatus a = READY" "tstatus b = READY" "tame a" "tame b"
  shows "\<exists>c. Thread_compareTime n a b = Inr c" "Thread_comparePriority a b = Inr (priority b - priority a)"
proof -
  have g: "\<bar>getRemainTime n r\<bar> \<le> 2 ^ 26 + 1" if "tstatus r = READY" "tame r" for r
  proof -
    have "\<bar>remainBurstTime r - currentBurstTime r\<bar> \<le> 2 ^ 25" using that(2) by (auto simp: tame_def abs_le_iff)
    with fl_bound [of "remainBurstTime r - currentBurstTime r"] that(1) show ?thesis by (simp add: getRemainTime_def)
  qed
  have "\<bar>fl (getRemainTime n a - getRemainTime n b)\<bar> \<le> 2 ^ 30"
    using fl_bound [of "getRemainTime n a - getRemainTime n b"] g [OF assms(1,3)] g [OF assms(2,4)]
      abs_triangle_ineq4 [of "getRemainTime n a" "getRemainTime n b"] by simp
  from cast_int_ok [OF this] show "\<exists>c. Thread_compareTime n a b = Inr c"
    using assms(1,2) by (simp add: Thread_compareTime_def comparable_def)
  show "Thread_comparePriority a b = Inr (priority b - priority a)"
    using assms by (simp add: Thread_comparePriority_def comparable_def tame_def addR_def int_fits_def)
qed

subsection \<open>The contents of the ready queue\<close>

type_synonym ready = "nat list \<times> nat list \<times> nat list"

fun all_ready :: "ready \<Rightarrow> nat list" where
  "all_ready (q1, q2, q3) = q1 @ q2 @ q3"

fun level_of :: "Level \<Rightarrow> ready \<Rightarrow> nat list" where
  "level_of Lv1 (q1, q2, q3) = q1" | "level_of Lv2 (q1, q2, q3) = q2" | "level_of Lv3 (q1, q2, q3) = q3"

fun set_level :: "Level \<Rightarrow> nat list \<Rightarrow> ready \<Rightarrow> ready" where
  "set_level Lv1 q (q1, q2, q3) = (q, q2, q3)" | "set_level Lv2 q (q1, q2, q3) = (q1, q, q3)"
| "set_level Lv3 q (q1, q2, q3) = (q1, q2, q)"

definition queued_ok :: "nat \<Rightarrow> kern \<Rightarrow> bool" where
  "queued_ok t m \<longleftrightarrow> (\<exists>r. threads (kos m) t = Some r \<and> tstatus r = READY \<and> tame r)"

definition ready_queue :: "kern \<Rightarrow> ready \<Rightarrow> bool" where
  "ready_queue m Q \<longleftrightarrow> (\<forall>lv. list_repr (queue lv (kos m)) (level_of lv Q)) \<and> distinct (all_ready Q)
     \<and> (\<forall>t\<in>set (all_ready Q). queued_ok t m)"

text \<open>The order of the first two levels, as the comparisons of the code give it.\<close>

definition order_of :: "Level \<Rightarrow> kern \<Rightarrow> nat \<Rightarrow> nat \<Rightarrow> int" where
  "order_of lv m a b = (case (if lv = Lv1 then compareTime m a b else comparePriority m a b) of Inr c \<Rightarrow> c | Inl _ \<Rightarrow> 0)"

definition enqueue :: "kern \<Rightarrow> nat \<Rightarrow> ready \<Rightarrow> ready" where
  "enqueue m t Q =
     (let lv = getQueueLevel (the (threads (kos m) t))
      in set_level lv (if lv = Lv3 then level_of Lv3 Q @ [t] else insert_before (order_of lv m t) t (level_of lv Q)) Q)"

lemma all_ready_level: "all_ready Q = level_of Lv1 Q @ level_of Lv2 Q @ level_of Lv3 Q"
  by (cases Q) simp

lemma set_level_simps [simp]: "level_of lv (set_level lv q Q) = q" "lv \<noteq> lv' \<Longrightarrow> level_of lv' (set_level lv q Q) = level_of lv' Q"
  by (cases Q; cases lv; cases lv'; simp)+

lemma level_subset: "set (level_of lv Q) \<subseteq> set (all_ready Q)" "set (all_ready Q) = (\<Union>lv. set (level_of lv Q))"
proof -
  show "set (level_of lv Q) \<subseteq> set (all_ready Q)" for lv by (cases Q; cases lv) auto
  moreover have "set (all_ready Q) \<subseteq> (\<Union>lv. set (level_of lv Q))" by (auto simp: all_ready_level)
  ultimately show "set (all_ready Q) = (\<Union>lv. set (level_of lv Q))" by blast
qed

lemma mset_set_level: "mset (all_ready (set_level lv q Q)) + mset (level_of lv Q) = mset (all_ready Q) + mset q"
  by (cases Q; cases lv) simp_all

lemma enqueue_mset: "mset (all_ready (enqueue m t Q)) = add_mset t (mset (all_ready Q))"
proof -
  have "mset (all_ready (set_level lv q Q)) = add_mset t (mset (all_ready Q))"
    if "mset q = add_mset t (mset (level_of lv Q))" for lv q
    using mset_set_level [of lv q Q] that by simp
  then show ?thesis by (simp add: enqueue_def Let_def mset_insert_before)
qed

lemma enqueue_set: "set (all_ready (enqueue m t Q)) = insert t (set (all_ready Q))"
  by (metis enqueue_mset set_mset_add_mset_insert set_mset_mset)

lemma enqueue_distinct: "distinct (all_ready (enqueue m t Q)) \<longleftrightarrow> t \<notin> set (all_ready Q) \<and> distinct (all_ready Q)"
proof -
  have "distinct (all_ready (enqueue m t Q)) \<longleftrightarrow> distinct (t # all_ready Q)"
    by (rule mset_eq_imp_distinct_iff) (simp add: enqueue_mset)
  then show ?thesis by auto
qed

end
