(* ===== verification/SchedulerLaws.thy ===== *)
theory SchedulerLaws
  imports Schedulers
begin

text \<open>
  The laws of the scheduler of theory \<open>Schedulers\<close>: the three lists are one ready queue ordered by level,
  readying a thread puts it where its level says and the dispatcher takes the head; a context
  switch keeps the invariant of the thread table and preserves the registers of user programs; yielding
  goes round the threads of the lowest level; aging promotes no thread without reading freed
  memory.
\<close>

subsection \<open>Queueing\<close>

lemma threads_set_queue [simp]: "queued_ok t (put_os (set_queue lv l) m) = queued_ok t m"
  by (simp add: queued_ok_def)

lemma ready_queue_level: "ready_queue m Q \<Longrightarrow> list_repr (queue lv (kos m)) (level_of lv Q)"
  by (simp add: ready_queue_def)

lemma ready_queue_member: "ready_queue m Q \<Longrightarrow> t \<in> set (level_of lv Q) \<Longrightarrow> queued_ok t m"
  using level_subset(1) [of lv Q] by (auto simp: ready_queue_def)

lemma compareTime_queued:
  "queued_ok a m \<Longrightarrow> queued_ok b m \<Longrightarrow> compareTime m a b = Inr (order_of Lv1 m a b)"
  "queued_ok a m \<Longrightarrow> queued_ok b m \<Longrightarrow> comparePriority m a b = Inr (order_of Lv2 m a b)"
  using compare_ready(1) [of _ _ "now m"] compare_ready(2)
  by (fastforce simp: queued_ok_def compareTime_def comparePriority_def order_of_def)+

lemma ready_queue_set:
  assumes "ready_queue m Q" "list_repr l q" "distinct (all_ready (set_level lv q Q))"
    "\<forall>t\<in>set (all_ready (set_level lv q Q)). queued_ok t m"
  shows "ready_queue (put_os (set_queue lv l) m) (set_level lv q Q)"
proof -
  have "list_repr (queue lv' (set_queue lv l (kos m))) (level_of lv' (set_level lv q Q))" for lv'
    using assms(1,2) by (cases "lv' = lv") (auto simp: ready_queue_def)
  with assms(3,4) show ?thesis by (simp add: ready_queue_def)
qed

lemma Append_queue:
  assumes "ready_queue m Q" "t \<notin> set (all_ready Q)" "queued_ok t m"
    "lv = getQueueLevel (the (threads (kos m) t))"
  shows "\<exists>l. MultilevelThreadQueue_Append t m = Inr (put_os (set_queue lv l) m)
     \<and> ready_queue (put_os (set_queue lv l) m) (enqueue m t Q)"
proof -
  obtain r where r: "threads (kos m) t = Some r" using assms(3) by (auto simp: queued_ok_def)
  let ?q = "if lv = Lv3 then level_of Lv3 Q @ [t] else insert_before (order_of lv m t) t (level_of lv Q)"
  have notin: "t \<notin> set (level_of lv Q)" using assms(2) level_subset(1) [of lv Q] by auto
  note repr = ready_queue_level [OF assms(1), of lv]
  have cmp: "compareTime m t y = Inr (order_of Lv1 m t y)" "comparePriority m t y = Inr (order_of Lv2 m t y)"
    if "y \<in> set (level_of lv' Q)" for y lv'
    using compareTime_queued [OF assms(3) ready_queue_member [OF assms(1) that]] by simp_all
  have "\<exists>l. (case lv of Lv1 \<Rightarrow> SortedList_Insert (compareTime m) (L1 (kos m)) t
                 | Lv2 \<Rightarrow> SortedList_Insert (comparePriority m) (L2 (kos m)) t
                 | Lv3 \<Rightarrow> List_Append (L3 (kos m)) t) = Inr l \<and> list_repr l ?q"
  proof (cases lv)
    case Lv1
    with repr notin show ?thesis using Insert_ok [of "L1 (kos m)" "level_of Lv1 Q" t "compareTime m"] cmp(1) by auto
  next
    case Lv2
    with repr notin show ?thesis using Insert_ok [of "L2 (kos m)" "level_of Lv2 Q" t "comparePriority m"] cmp(2) by auto
  next
    case Lv3
    with repr notin show ?thesis using Append_ok [of "L3 (kos m)" "level_of Lv3 Q" t] by auto
  qed
  then obtain l where l: "(case lv of Lv1 \<Rightarrow> SortedList_Insert (compareTime m) (L1 (kos m)) t
                 | Lv2 \<Rightarrow> SortedList_Insert (comparePriority m) (L2 (kos m)) t
                 | Lv3 \<Rightarrow> List_Append (L3 (kos m)) t) = Inr l" "list_repr l ?q" by blast
  have e: "enqueue m t Q = set_level lv ?q Q" using assms(4) by (simp add: enqueue_def Let_def)
  have "ready_queue (put_os (set_queue lv l) m) (enqueue m t Q)"
    unfolding e
    by (rule ready_queue_set [OF assms(1) l(2)])
       (use assms(1-3) in \<open>auto simp: ready_queue_def enqueue_distinct enqueue_set simp flip: e\<close>)
  moreover have "MultilevelThreadQueue_Append t m = Inr (put_os (set_queue lv l) m)"
    using l(1) r assms(4) by (simp add: MultilevelThreadQueue_Append_def Let_def)
  ultimately show ?thesis by blast
qed

text \<open>The level of the head of the queue.\<close>

definition head_level :: "ready \<Rightarrow> Level" where
  "head_level Q = (if level_of Lv1 Q \<noteq> [] then Lv1 else if level_of Lv2 Q \<noteq> [] then Lv2 else Lv3)"

definition dequeue :: "ready \<Rightarrow> ready" where
  "dequeue Q = set_level (head_level Q) (tl (level_of (head_level Q) Q)) Q"

lemma all_ready_head: "all_ready Q \<noteq> [] \<Longrightarrow> all_ready Q = hd (level_of (head_level Q) Q) # all_ready (dequeue Q)"
  "all_ready Q \<noteq> [] \<Longrightarrow> level_of (head_level Q) Q \<noteq> []"
proof -
  obtain q1 q2 q3 where Q: "Q = (q1, q2, q3)" by (cases Q)
  show "all_ready Q \<noteq> [] \<Longrightarrow> all_ready Q = hd (level_of (head_level Q) Q) # all_ready (dequeue Q)"
    "all_ready Q \<noteq> [] \<Longrightarrow> level_of (head_level Q) Q \<noteq> []"
    unfolding Q by (cases q1; cases q2; cases q3; simp add: head_level_def dequeue_def)+
qed

lemma queue_empty: "ready_queue m Q \<Longrightarrow> MultilevelThreadQueue_IsEmpty m \<longleftrightarrow> all_ready Q = []"
  using ready_queue_level [of m Q Lv1] ready_queue_level [of m Q Lv2] ready_queue_level [of m Q Lv3]
  by (simp add: MultilevelThreadQueue_IsEmpty_def list_repr_empty all_ready_level)

lemma RemoveFront_queue:
  assumes "ready_queue m Q" "all_ready Q = t # ts"
  shows "\<exists>l. MultilevelThreadQueue_RemoveFront m = Inr (t, put_os (set_queue (head_level Q) l) m)
     \<and> ready_queue (put_os (set_queue (head_level Q) l) m) (dequeue Q) \<and> all_ready (dequeue Q) = ts"
proof -
  let ?lv = "head_level Q"
  have h: "t = hd (level_of ?lv Q)" "all_ready (dequeue Q) = ts" "level_of ?lv Q \<noteq> []"
    using all_ready_head [of Q] assms(2) by auto
  then have "list_repr (queue ?lv (kos m)) (t # tl (level_of ?lv Q))"
    using ready_queue_level [OF assms(1)] by simp
  from RemoveFront_ok [OF this] obtain l where
    l: "List_RemoveFront (queue ?lv (kos m)) = Inr (t, l)" "list_repr l (tl (level_of ?lv Q))" by auto
  have lv: "(if \<not> List_IsEmpty (L1 (kos m)) then Lv1 else if \<not> List_IsEmpty (L2 (kos m)) then Lv2 else Lv3) = ?lv"
    using list_repr_empty [OF ready_queue_level [OF assms(1)], of Lv1]
      list_repr_empty [OF ready_queue_level [OF assms(1)], of Lv2] by (simp add: head_level_def)
  have "ready_queue (put_os (set_queue ?lv l) m) (dequeue Q)"
    unfolding dequeue_def
    by (rule ready_queue_set [OF assms(1) l(2)])
       (use assms h(2) in \<open>auto simp: ready_queue_def simp flip: dequeue_def\<close>)
  with l(1) h(2) show ?thesis unfolding MultilevelThreadQueue_RemoveFront_def lv Let_def by auto
qed

lemma ready_queue_put_thread: "ready_queue m Q \<Longrightarrow> t \<notin> set (all_ready Q) \<Longrightarrow> ready_queue (put_thread t r m) Q"
  by (auto simp: ready_queue_def queued_ok_def)

lemma ready_queue_put_os:
  "ready_queue m Q \<Longrightarrow> (\<And>lv. queue lv (f (kos m)) = queue lv (kos m)) \<Longrightarrow>
   (\<And>t. t \<in> set (all_ready Q) \<Longrightarrow> threads (f (kos m)) t = threads (kos m) t) \<Longrightarrow> ready_queue (put_os f m) Q"
  by (auto simp: ready_queue_def queued_ok_def)

lemma setStatus_eq:
  "threads (kos m) t = Some r \<Longrightarrow> Thread_setStatus st (now m) r = Inr r' \<Longrightarrow> setStatus st t m = Inr (put_thread t r' m)"
  by (simp add: setStatus_def upd_thread_ok)

lemma ReadyToRun_ok:
  assumes "level m = IntOff" "ready_queue m Q" "t \<notin> set (all_ready Q)" "threads (kos m) t = Some r"
    "Thread_setStatus READY (now m) r = Inr r'" "tame r'"
  shows "\<exists>l. Scheduler_ReadyToRun t m = Inr (put_os (set_queue (getQueueLevel r') l) (put_thread t r' m))
     \<and> ready_queue (put_os (set_queue (getQueueLevel r') l) (put_thread t r' m)) (enqueue (put_thread t r' m) t Q)"
proof -
  have "tstatus r' = READY" using assms(5) by (auto simp: Thread_setStatus_def bindR_eq_Inr)
  then have "queued_ok t (put_thread t r' m)" using assms(6) by (simp add: queued_ok_def)
  from Append_queue [OF ready_queue_put_thread [OF assms(2,3)] assms(3) this] setStatus_eq [OF assms(4,5)] assms(1)
  show ?thesis by (simp add: Scheduler_ReadyToRun_def)
qed

lemma FindNextToRun_ok:
  assumes "level m = IntOff" "ready_queue m Q"
  shows "all_ready Q = [] \<Longrightarrow> Scheduler_FindNextToRun m = Inr (None, m)"
    "all_ready Q = t # ts \<Longrightarrow> \<exists>l. Scheduler_FindNextToRun m = Inr (Some t, put_os (set_queue (head_level Q) l) m)
       \<and> ready_queue (put_os (set_queue (head_level Q) l) m) (dequeue Q) \<and> all_ready (dequeue Q) = ts"
  using assms(1) queue_empty [OF assms(2)] RemoveFront_queue [OF assms(2), of t ts]
  by (auto simp: Scheduler_FindNextToRun_def)

subsection \<open>User registers survive a context switch\<close>

lemma queue_frame [simp]:
  "queue lv (k\<lparr>currentThread := c\<rparr>) = queue lv k" "queue lv (k\<lparr>toBeDestroyed := d\<rparr>) = queue lv k"
  "queue lv (k\<lparr>execRunningNum := e\<rparr>) = queue lv k"
  by (cases lv; simp)+

lemma dev_put_os [simp]:
  "registers (dev (put_os f m)) = registers (dev m)" "pageTable (dev (put_os f m)) = pageTable (dev m)"
  "pageTableSize (dev (put_os f m)) = pageTableSize (dev m)" "registers (dev (put_thread t r m)) = registers (dev m)"
  "pageTable (dev (put_thread t r m)) = pageTable (dev m)" "pageTableSize (dev (put_thread t r m)) = pageTableSize (dev m)"
  by (simp_all add: put_os_def put_thread_def)

lemma put_thread_twice [simp]: "put_thread t r (put_thread t r' m) = put_thread t r m"
  by (simp add: put_thread_def put_os_def)

lemma put_thread_same: "threads (kos m) t = Some r \<Longrightarrow> put_thread t r m = m"
  by (simp add: put_thread_def put_os_def map_upd_triv)

lemma take_drop_update:
  "length xs = n \<Longrightarrow> length ys = n \<Longrightarrow> j < n \<Longrightarrow> (take j xs @ drop j ys)[j := xs ! j] = take (Suc j) xs @ drop (Suc j) ys"
  by (rule nth_equalityI) (auto simp: nth_append nth_list_update min_def less_Suc_eq)

lemma SaveUserState_ok:
  assumes "threads (kos m) t = Some r" "length (userRegisters r) = NumTotalRegs" "length (registers (dev m)) = NumTotalRegs"
  shows "Thread_SaveUserState t m = Inr (put_thread t (r\<lparr>userRegisters := registers (dev m)\<rparr>) m)"
proof -
  let ?s = "\<lambda>i. put_thread t (r\<lparr>userRegisters := take i (registers (dev m)) @ drop i (userRegisters r)\<rparr>) m"
  have "\<exists>s. Thread_SaveUserState t m = Inr s \<and> s = ?s (0 + NumTotalRegs)"
    unfolding Thread_SaveUserState_def
  proof (rule forR_invariant [where P = "\<lambda>i s. s = ?s i"])
    show "m = ?s 0" using assms(1) by (simp add: put_thread_same)
    fix j s
    assume "0 \<le> j" "j < 0 + NumTotalRegs" "s = ?s j"
    then show "\<exists>s'. upd_thread t (\<lambda>r. bindR (Machine_ReadRegister (int j) s) (\<lambda>v.
        Inr (r\<lparr>userRegisters := (userRegisters r)[j := v]\<rparr>))) s = Inr s' \<and> s' = ?s (Suc j)"
      using assms by (simp add: upd_thread_def Machine_ReadRegister_def reg_def take_drop_update)
  qed
  then show ?thesis using assms(2,3) by simp
qed

lemma RestoreUserState_ok:
  assumes "threads (kos m) t = Some r" "length (userRegisters r) = NumTotalRegs" "length (registers (dev m)) = NumTotalRegs"
  shows "Thread_RestoreUserState t m = Inr (m\<lparr>dev := (dev m)\<lparr>registers := userRegisters r\<rparr>\<rparr>)"
proof -
  let ?s = "\<lambda>i. m\<lparr>dev := (dev m)\<lparr>registers := take i (userRegisters r) @ drop i (registers (dev m))\<rparr>\<rparr>"
  have "\<exists>s. Thread_RestoreUserState t m = Inr s \<and> s = ?s (0 + NumTotalRegs)"
    unfolding Thread_RestoreUserState_def
  proof (rule forR_invariant [where P = "\<lambda>i s. s = ?s i"])
    fix j s
    assume "0 \<le> j" "j < 0 + NumTotalRegs" "s = ?s j"
    then show "\<exists>s'. bindR (get_thread t s) (\<lambda>r. Machine_WriteRegister (int j) (userRegisters r ! j) s) = Inr s'
        \<and> s' = ?s (Suc j)"
      using assms by (simp add: get_thread_def Machine_WriteRegister_def set_reg_def take_drop_update)
  qed simp
  then show ?thesis using assms(2,3) by simp
qed

lemma Run_eq:
  assumes "level m = IntOff" "t = currentThread (kos m)" "threads (kos m) t = Some r" "Thread_CheckOverflow r = Inr ()"
    "length (userRegisters r) = NumTotalRegs" "length (registers (dev m)) = NumTotalRegs"
    "next \<noteq> t" "threads (kos m) next = Some s" "Thread_setStatus RUNNING (now m) s = Inr s'"
    "finishing \<Longrightarrow> toBeDestroyed (kos m) = None"
  defines "r' \<equiv> (if space r = None then r else r\<lparr>userRegisters := registers (dev m),
     space := (case (space r, pageTable (dev m)) of (Some (pt, n), Some pt') \<Rightarrow> Some (pt', n) | (s, _) \<Rightarrow> s)\<rparr>)"
  shows "Scheduler_Run next finishing m = Inr (put_os (\<lambda>k. k\<lparr>threads := (threads k)(t \<mapsto> r', next \<mapsto> s'),
     currentThread := next, toBeDestroyed := (if finishing then Some t else toBeDestroyed k)\<rparr>) m)"
proof -
  define m1 where "m1 = (if finishing then put_os (\<lambda>k. k\<lparr>toBeDestroyed := Some t\<rparr>) m else m)"
  have th: "threads (kos m1) = threads (kos m)" "registers (dev m1) = registers (dev m)" "now m1 = now m"
    "pageTable (dev m1) = pageTable (dev m)" "level m1 = IntOff"
    using assms(1) by (simp_all add: m1_def)
  have tr: "threads (kos m1) t = Some r" using th assms(3) by simp
  have save: "(if space r \<noteq> None then bindR (Thread_SaveUserState t m1) (AddrSpace_SaveState t) else Inr m1)
      = Inr (put_thread t r' m1)"
  proof (cases "space r = None")
    case True
    with tr show ?thesis by (simp add: r'_def put_thread_same)
  next
    case False
    with SaveUserState_ok [OF tr assms(5)] th assms(6) show ?thesis
      by (auto simp: r'_def AddrSpace_SaveState_def upd_thread_def)
  qed
  have "Thread_CheckOverflow r' = Inr ()" using assms(4) by (simp add: r'_def Thread_CheckOverflow_def)
  moreover have "(if finishing then assertR (toBeDestroyed (kos m) = None)
       (Inr (put_os (\<lambda>k. k\<lparr>toBeDestroyed := Some t\<rparr>) m)) else Inr m) = Inr m1"
    using assms(10) by (simp add: m1_def)
  moreover have "setStatus RUNNING next (put_os (\<lambda>k. k\<lparr>currentThread := next\<rparr>) (put_thread t r' m1))
      = Inr (put_thread next s' (put_os (\<lambda>k. k\<lparr>currentThread := next\<rparr>) (put_thread t r' m1)))"
    by (rule setStatus_eq) (use assms(7,8,9) th in simp_all)
  moreover have "put_thread next s' (put_os (\<lambda>k. k\<lparr>currentThread := next\<rparr>) (put_thread t r' m1))
      = put_os (\<lambda>k. k\<lparr>threads := (threads k)(t \<mapsto> r', next \<mapsto> s'),
     currentThread := next, toBeDestroyed := (if finishing then Some t else toBeDestroyed k)\<rparr>) m"
    by (simp add: m1_def put_thread_def put_os_def)
  ultimately show ?thesis
    unfolding Scheduler_Run_def Let_def assms(2) [symmetric] using assms(1) tr save by simp
qed

lemma resumed_eq:
  assumes "level m = IntOff" "toBeDestroyed (kos m) = None" "threads (kos m) t = Some r" "space r = Some (pt, n)"
    "length (userRegisters r) = NumTotalRegs" "length (registers (dev m)) = NumTotalRegs"
  shows "Scheduler_Run_resumed t m = Inr (m\<lparr>dev := (dev m)\<lparr>registers := userRegisters r,
     pageTable := Some pt, pageTableSize := n\<rparr>\<rparr>)"
  using assms RestoreUserState_ok [OF assms(3,5,6)]
  by (simp add: Scheduler_Run_resumed_def Scheduler_CheckToBeDestroyed_def AddrSpace_RestoreState_def)

subsection \<open>Yielding\<close>

text \<open>
  The threads between two operations of the kernel: one is running, the ready ones are queued, every stack and
  register save area is in order.
\<close>

definition threads_ok :: "kern \<Rightarrow> ready \<Rightarrow> bool" where
  "threads_ok m Q \<longleftrightarrow> ready_queue m Q \<and> length (registers (dev m)) = NumTotalRegs
     \<and> (\<forall>t r. threads (kos m) t = Some r \<longrightarrow> length (userRegisters r) = NumTotalRegs
          \<and> Thread_CheckOverflow r = Inr () \<and> (tstatus r = READY \<longleftrightarrow> t \<in> set (all_ready Q))
          \<and> (tstatus r = RUNNING \<longleftrightarrow> t = currentThread (kos m)))
     \<and> threads (kos m) (currentThread (kos m)) \<noteq> None"

lemma setStatus_fields:
  assumes "Thread_setStatus st n r = Inr r'"
  shows "tstatus r' = st \<and> userRegisters r' = userRegisters r \<and> stack r' = stack r \<and> space r' = space r"
  using assms
  by (auto simp: Thread_setStatus_def bindR_eq_Inr assertR_eq_Inr newToReady_def waitToReady_def runToReady_def
      toReady_def readyToRun_def runToWait_def runToTerminated_def leaveRun_def Let_def split: ThreadStatus.splits)

lemma CheckOverflow_cong: "stack r' = stack r \<Longrightarrow> Thread_CheckOverflow r' = Thread_CheckOverflow r"
  by (simp add: Thread_CheckOverflow_def)

lemma enqueue_cong:
  assumes "threads (kos m) = threads (kos m')" "now m = now m'"
  shows "enqueue m t Q = enqueue m' t Q"
proof -
  have "order_of lv m = order_of lv m'" for lv
    using assms by (simp add: fun_eq_iff order_of_def compareTime_def comparePriority_def get_thread_def)
  then show ?thesis by (simp only: enqueue_def assms(1))
qed

lemma queued_thread: "ready_queue m Q \<Longrightarrow> t \<in> set (all_ready Q) \<Longrightarrow> \<exists>r. threads (kos m) t = Some r \<and> tstatus r = READY \<and> tame r"
  by (auto simp: ready_queue_def queued_ok_def)

lemma Yield_ok:
  assumes "threads_ok m Q" "level m = IntOff" "t = currentThread (kos m)" "all_ready Q = n # ts"
    "threads (kos m) t = Some r" "Thread_setStatus READY (now m) r = Inr r'" "tame r'"
  defines "Q' \<equiv> enqueue (put_thread t r' m) t (dequeue Q)"
  shows "\<exists>m'. Thread_Yield h t m = Inr (Switches n m') \<and> threads_ok m' Q' \<and> currentThread (kos m') = n
     \<and> level m' = IntOff \<and> registers (dev m') = registers (dev m)"
proof -
  note rq = assms(1) [unfolded threads_ok_def, THEN conjunct1]
  have ok: "length (registers (dev m)) = NumTotalRegs"
    "\<And>t r. threads (kos m) t = Some r \<Longrightarrow> length (userRegisters r) = NumTotalRegs \<and> Thread_CheckOverflow r = Inr ()
       \<and> (tstatus r = READY \<longleftrightarrow> t \<in> set (all_ready Q)) \<and> (tstatus r = RUNNING \<longleftrightarrow> t = currentThread (kos m))"
    using assms(1) by (simp_all add: threads_ok_def)
  have run: "tstatus r = RUNNING" using ok(2) [OF assms(5)] assms(3) by blast
  then have "tstatus r \<noteq> READY" by simp
  then have out: "t \<notin> set (all_ready Q)" using ok(2) [OF assms(5)] by blast
  obtain l where l: "Scheduler_FindNextToRun m = Inr (Some n, put_os (set_queue (head_level Q) l) m)"
    "ready_queue (put_os (set_queue (head_level Q) l) m) (dequeue Q)" "all_ready (dequeue Q) = ts"
    using FindNextToRun_ok(2) [OF assms(2) rq assms(4)] by blast
  define m1 where "m1 = put_os (set_queue (head_level Q) l) m"
  have m1: "threads (kos m1) = threads (kos m)" "now m1 = now m" "level m1 = IntOff" "currentThread (kos m1) = t"
    "toBeDestroyed (kos m1) = toBeDestroyed (kos m)" "registers (dev m1) = registers (dev m)"
    using assms(2,3) by (simp_all add: m1_def)
  have "t \<notin> set (all_ready (dequeue Q))" using out assms(4) l(3) by simp
  then obtain l' where l': "Scheduler_ReadyToRun t m1 = Inr (put_os (set_queue (getQueueLevel r') l') (put_thread t r' m1))"
    "ready_queue (put_os (set_queue (getQueueLevel r') l') (put_thread t r' m1)) (enqueue (put_thread t r' m1) t (dequeue Q))"
    using ReadyToRun_ok [of m1 "dequeue Q" t r r'] m1 l(2) assms(5-7) unfolding m1_def [symmetric] by auto
  define m2 where "m2 = put_os (set_queue (getQueueLevel r') l') (put_thread t r' m1)"
  have Q': "enqueue (put_thread t r' m1) t (dequeue Q) = Q'"
    unfolding Q'_def by (rule enqueue_cong) (simp_all add: m1)
  obtain s where s: "threads (kos m) n = Some s" "tstatus s = READY"
    using queued_thread [OF rq, of n] assms(4) by auto
  have nt: "n \<noteq> t" using out assms(4) by auto
  define s' where "s' = (readyToRun (now m) s)\<lparr>tstatus := RUNNING\<rparr>"
  have s': "Thread_setStatus RUNNING (now m2) s = Inr s'"
    using s(2) by (simp add: Thread_setStatus_def s'_def m2_def m1)
  note f' = setStatus_fields [OF assms(6)] and fs = setStatus_fields [OF s']
  define r2 where "r2 = (if space r' = None then r' else r'\<lparr>userRegisters := registers (dev m2),
     space := (case (space r', pageTable (dev m2)) of (Some (pt, n), Some pt') \<Rightarrow> Some (pt', n) | (s, _) \<Rightarrow> s)\<rparr>)"
  have m2: "level m2 = IntOff" "t = currentThread (kos m2)" "threads (kos m2) t = Some r'" "threads (kos m2) n = Some s"
    "registers (dev m2) = registers (dev m)"
    using nt s(1) m1 by (simp_all add: m2_def)
  have old: "length (userRegisters r') = NumTotalRegs" "Thread_CheckOverflow r' = Inr ()"
    using f' ok(2) [OF assms(5)] CheckOverflow_cong [of r' r] by simp_all
  have r2: "Scheduler_Run n False m2 = Inr (put_os (\<lambda>k. k\<lparr>threads := (threads k)(t \<mapsto> r2, n \<mapsto> s'),
       currentThread := n, toBeDestroyed := toBeDestroyed k\<rparr>) m2)"
    using Run_eq [OF m2(1-3) old(2,1) _ nt m2(4) s', of False] ok(1) m2(5) by (simp add: r2_def)
  have r2': "tstatus r2 = READY" "length (userRegisters r2) = NumTotalRegs" "stack r2 = stack r" "tame r2"
    using f' ok(1) old assms(7) m2(5) by (simp_all add: r2_def tame_def)
  let ?m = "put_os (\<lambda>k. k\<lparr>threads := (threads k)(t \<mapsto> r2, n \<mapsto> s'), currentThread := n,
     toBeDestroyed := toBeDestroyed k\<rparr>) m2"
  have setQ': "set (all_ready Q') = insert t (set ts)" by (simp add: Q'_def enqueue_set l(3))
  have nts: "n \<notin> set ts" "set (all_ready Q) = insert n (set ts)"
    using rq assms(4) by (auto simp: ready_queue_def)
  have th2: "threads (kos m2) = (threads (kos m))(t \<mapsto> r')" by (simp add: m2_def m1)
  have "queued_ok u ?m" if "u \<in> set (all_ready Q')" for u
  proof (cases "u = t")
    case True
    then show ?thesis using nt r2'(1,4) by (simp add: queued_ok_def)
  next
    case False
    then have "u \<in> set ts" using that setQ' by simp
    then have "u \<noteq> n" "queued_ok u m" using nts rq by (auto simp: ready_queue_def)
    with False show ?thesis by (simp add: queued_ok_def th2)
  qed
  moreover have "\<forall>lv. list_repr (queue lv (kos ?m)) (level_of lv Q')" "distinct (all_ready Q')"
    using l'(2) unfolding Q' m2_def [symmetric] by (auto simp: ready_queue_def queue_frame)
  ultimately have rq': "ready_queue ?m Q'" by (simp add: ready_queue_def)
  have "length (userRegisters ru) = NumTotalRegs \<and> Thread_CheckOverflow ru = Inr ()
      \<and> (tstatus ru = READY \<longleftrightarrow> u \<in> set (all_ready Q')) \<and> (tstatus ru = RUNNING \<longleftrightarrow> u = n)"
    if "threads (kos ?m) u = Some ru" for u ru
  proof -
    consider "u = n" "ru = s'" | "u = t" "ru = r2" | "u \<noteq> n" "u \<noteq> t" "threads (kos m) u = Some ru"
      using \<open>threads (kos ?m) u = Some ru\<close> by (auto simp: th2 split: if_splits)
    then show ?thesis
    proof cases
      case 1
      then show ?thesis using fs ok(2) [OF s(1)] CheckOverflow_cong [of s' s] nts nt by (simp add: setQ')
    next
      case 2
      then show ?thesis using r2' ok(2) [OF assms(5)] CheckOverflow_cong [of r2 r] nt by (simp add: setQ')
    next
      case 3
      then show ?thesis using ok(2) [OF 3(3)] nts assms(3) by (simp add: setQ')
    qed
  qed
  then have "threads_ok ?m Q'" using rq' ok(1) by (simp add: threads_ok_def m2_def m1)
  moreover have off: "m\<lparr>level := IntOff\<rparr> = m" using assms(2) by (cases m) simp
  have "Thread_Yield h t m = Inr (Switches n ?m)"
    using l l'(1) r2 m1 assms(2,3)
    by (simp add: Thread_Yield_def Interrupt_SetLevel_def m1_def m2_def off)
  ultimately show ?thesis by (auto simp: m2_def m1 assms(2))
qed

subsection \<open>Aging\<close>

definition aged :: "int \<Rightarrow> Thread \<Rightarrow> Thread" where
  "aged n r = r\<lparr>tick_cache := n - (n - tick_cache r) mod AGING_TICK,
     priority := min (priority r + 10 * ((n - tick_cache r) div AGING_TICK)) 149\<rparr>"

definition age_threads :: "int \<Rightarrow> nat list \<Rightarrow> Kernel \<Rightarrow> Kernel" where
  "age_threads n ts k = k\<lparr>threads := (\<lambda>t. if t \<in> set ts then map_option (aged n) (threads k t) else threads k t)\<rparr>"

lemma age_threads_Nil [simp]: "age_threads n [] k = k"
  by (simp add: age_threads_def)

lemma age_threads_append: "distinct (xs @ ys) \<Longrightarrow> age_threads n ys (age_threads n xs k) = age_threads n (xs @ ys) k"
  by (cases k) (auto simp: age_threads_def fun_eq_iff)

lemma queue_age [simp]: "queue lv (age_threads n ts k) = queue lv k" "L1 (age_threads n ts k) = L1 k"
  "L2 (age_threads n ts k) = L2 k" "L3 (age_threads n ts k) = L3 k"
  by (simp_all add: age_threads_def)

definition waiting_since :: "kern \<Rightarrow> nat \<Rightarrow> bool" where
  "waiting_since m t \<longleftrightarrow> (\<exists>r. threads (kos m) t = Some r \<and> tstatus r = READY \<and> tick_cache r \<le> now m \<and> priority r \<le> 149)"

lemma Aging_each:
  assumes "distinct ts" "\<forall>t\<in>set ts. waiting_since m t"
  shows "eachR Thread_Aging ts m = Inr (put_os (age_threads (now m) ts) m)"
  using assms
proof (induction ts arbitrary: m)
  case Nil
  then show ?case by (simp add: put_os_def)
next
  case (Cons t ts)
  then obtain r where r: "threads (kos m) t = Some r" "tstatus r = READY" "tick_cache r \<le> now m" "priority r \<le> 149"
    by (auto simp: waiting_since_def)
  let ?m = "put_thread t (aged (now m) r) m"
  have step: "Thread_Aging t m = Inr ?m"
    unfolding Thread_Aging_def using aging_eq [OF r(2-4)] by (intro upd_thread_ok [OF r(1)]) (simp add: aged_def)
  have "\<forall>u\<in>set ts. waiting_since ?m u" using Cons.prems by (auto simp: waiting_since_def)
  from Cons.IH [OF _ this] Cons.prems(1)
  have "eachR Thread_Aging ts ?m = Inr (put_os (age_threads (now m) ts) ?m)" by simp
  moreover have "put_os (age_threads (now m) ts) ?m = put_os (age_threads (now m) (t # ts)) m"
    using Cons.prems(1) r(1) by (auto simp: put_os_def put_thread_def age_threads_def fun_eq_iff)
  ultimately show ?case using step by simp
qed

lemma apply_to_eq: "list_repr l ts \<Longrightarrow> apply_to f l m = eachR f ts m"
  by (simp add: apply_to_def list_repr_items)

lemma waiting_put: "waiting_since m u \<Longrightarrow> u \<notin> set ts \<Longrightarrow> waiting_since (put_os (age_threads n ts) m) u"
  by (auto simp: waiting_since_def age_threads_def)

lemma put_os_put_os [simp]: "put_os f (put_os g m) = put_os (\<lambda>k. f (g k)) m"
  by (simp add: put_os_def)

lemma Apply_Aging:
  assumes "ready_queue m Q" "\<forall>t\<in>set (all_ready Q). waiting_since m t"
  shows "MultilevelThreadQueue_Apply Thread_Aging m = Inr (put_os (age_threads (now m) (all_ready Q)) m)"
proof -
  let ?q = "\<lambda>lv. level_of lv Q"
  let ?age = "\<lambda>ts. put_os (age_threads (now m) ts) m"
  note repr = ready_queue_level [OF assms(1)]
  have d: "distinct (?q Lv1 @ ?q Lv2 @ ?q Lv3)" using assms(1) by (simp add: ready_queue_def all_ready_level)
  have w: "waiting_since m t" if "t \<in> set (?q lv)" for t lv using assms(2) that level_subset(1) [of lv Q] by auto
  have w2: "\<forall>t\<in>set (?q Lv2). waiting_since (?age (?q Lv1)) t" using d by (auto intro!: waiting_put w)
  have w3: "\<forall>t\<in>set (?q Lv3). waiting_since (?age (?q Lv1 @ ?q Lv2)) t" using d by (auto intro!: waiting_put w)
  have "eachR Thread_Aging (?q Lv1) m = Inr (?age (?q Lv1))"
    by (rule Aging_each) (use d w in auto)
  moreover have "eachR Thread_Aging (?q Lv2) (?age (?q Lv1)) = Inr (?age (?q Lv1 @ ?q Lv2))"
    using Aging_each [of "?q Lv2" "?age (?q Lv1)"] w2 d by (simp add: age_threads_append disjoint_iff)
  moreover have "eachR Thread_Aging (?q Lv3) (?age (?q Lv1 @ ?q Lv2)) = Inr (?age (all_ready Q))"
    using Aging_each [of "?q Lv3" "?age (?q Lv1 @ ?q Lv2)"] w3 d
    by (simp add: age_threads_append disjoint_iff all_ready_level)
  ultimately show ?thesis
    using repr [of Lv1] repr [of Lv2] repr [of Lv3]
    by (simp add: MultilevelThreadQueue_Apply_def apply_to_eq)
qed

subsection \<open>Promotion reads freed memory\<close>

lemma remove_walk_frees:
  "path (cells l) p as xs None \<Longrightarrow> remove_walk k x prev p l = Inr (True, l') \<Longrightarrow> i < length xs \<Longrightarrow> xs ! i = x \<Longrightarrow>
   x \<notin> set (take i xs) \<Longrightarrow> cells l' (as ! i) = None"
proof (induction as arbitrary: p xs k prev i)
  case Nil
  then show ?case by simp
next
  case (Cons a as)
  then obtain y ys n j where n: "xs = y # ys" "p = Some a" "cells l a = Some \<lparr>item = y, nxt = n\<rparr>"
    "path (cells l) n as ys None" "k = Suc j"
    by (cases k) (auto simp: path_Cons1)
  show ?case
  proof (cases i)
    case 0
    with Cons.prems n show ?thesis by (auto simp: Let_def bindR_eq_Inr split: if_splits)
  next
    case (Suc i')
    then have "x \<noteq> y" using Cons.prems(5) n(1) by auto
    with Cons.prems(2) n have "remove_walk j x (Some a) n l = Inr (True, l')" by simp
    from Cons.IH [OF n(4) this, of i'] Cons.prems(3-5) n(1) Suc show ?thesis by simp
  qed
qed

lemma Remove_frees_cell:
  assumes "list_cells l as xs" "List_Remove l x = Inr l'" "i < length xs" "xs ! i = x"
  shows "cells l' (as ! i) = None"
proof -
  have p: "path (cells l) (lfirst l) as xs None" "distinct xs" using assms(1) by (auto simp: list_cells_def)
  obtain a as' y ys n where a: "as = a # as'" "xs = y # ys" "lfirst l = Some a" "cells l a = Some \<lparr>item = y, nxt = n\<rparr>"
    "path (cells l) n as' ys None"
    using p(1) assms(3) by (cases as) (auto simp: path_Cons1)
  show ?thesis
  proof (cases i)
    case 0
    then have "x = y" using assms(4) a by simp
    then obtain z where "List_RemoveFront l = Inr (z, l')" using assms(2) a by (auto simp: List_Remove_def resE)
    then show ?thesis using 0 a by (auto simp: List_RemoveFront_def resE)
  next
    case (Suc i')
    then have "x = ys ! i'" "i' < length ys" using assms(3,4) a by auto
    then have "x \<noteq> y" "x \<notin> set (take i' ys)"
      using p(2) a(2) by (auto simp: in_set_conv_nth nth_eq_iff_index_eq)
    moreover from this(1) have "remove_walk (brk l) x (Some a) n l = Inr (True, l')"
      using assms(2) a by (auto simp: List_Remove_def resE)
    ultimately have "cells l' (as' ! i') = None"
      using remove_walk_frees [OF a(5)] \<open>x = ys ! i'\<close> \<open>i' < length ys\<close> by metis
    then show ?thesis by (simp add: Suc a(1))
  qed
qed

definition level_now :: "kern \<Rightarrow> nat \<Rightarrow> Level" where
  "level_now m t = getQueueLevel (the (threads (kos m) t))"

lemma promote_from_eq:
  assumes "ready_queue m Q" "list_cells (queue lv (kos m)) (as @ bs) (xs @ ys)" "length as = length xs"
    "level_of lv Q = xs @ ys" "length bs \<le> n" "it = (case bs of [] \<Rightarrow> None | b # _ \<Rightarrow> Some b)"
  shows "promote_from n lv it m = (if \<exists>t\<in>set ys. level_now m t < lv then Inl UseAfterFree else Inr m)"
  using assms
proof (induction bs arbitrary: as xs ys n it)
  case Nil
  then have "ys = []" using list_cells_lengths [OF Nil.prems(2)] by simp
  with Nil show ?case by (cases n) (simp_all add: ListIterator_IsDone_def)
next
  case (Cons b bs)
  then obtain y zs n' where y: "ys = y # zs" "n = Suc n'"
    using list_cells_lengths [OF Cons.prems(2)] by (cases ys; cases n) auto
  let ?l = "queue lv (kos m)"
  from list_cells_midD [of ?l as b bs xs y zs] Cons.prems(2,3) y obtain nx where
    nx: "cells ?l b = Some \<lparr>item = y, nxt = nx\<rparr>" "nx = (case bs of [] \<Rightarrow> None | c # _ \<Rightarrow> Some c)" by auto
  have "y \<in> set (all_ready Q)" using Cons.prems(4) y level_subset(1) [of lv Q] by auto
  then obtain r where r: "threads (kos m) y = Some r" "tstatus r = READY" "tame r"
    using queued_thread [OF Cons.prems(1)] by blast
  have it: "\<not> ListIterator_IsDone it" "ListIterator_Item ?l it = Inr y" "ListIterator_Next ?l it = Inr nx"
    using Cons.prems(6) nx(1) by (simp_all add: ListIterator_IsDone_def ListIterator_Item_def ListIterator_Next_def)
  show ?case
  proof (cases "level_now m y < lv")
    case False
    have "promote_from n' lv nx m = (if \<exists>t\<in>set zs. level_now m t < lv then Inl UseAfterFree else Inr m)"
      by (rule Cons.IH [of "as @ [b]" "xs @ [y]"]) (use Cons.prems nx(2) y in auto)
    then show ?thesis using False it r(1) y by (simp add: level_now_def)
  next
    case True
    have "y \<in> set (level_of lv Q)" using Cons.prems(4) y by simp
    then obtain l' where l': "List_Remove ?l y = Inr l'" "list_repr l' (remove1 y (level_of lv Q))"
      using Remove_ok [OF ready_queue_level [OF Cons.prems(1)]] by blast
    have freed: "cells l' b = None"
      using Remove_frees_cell [OF Cons.prems(2) l'(1), of "length xs"] Cons.prems(3) y(1)
      by (simp add: nth_append)
    let ?m = "put_os (set_queue lv l') m"
    let ?Q = "set_level lv (remove1 y (level_of lv Q)) Q"
    have ms: "mset (all_ready Q) = add_mset y (mset (all_ready ?Q))"
    proof -
      have shift: "q = add_mset y r \<Longrightarrow> a + q = b + r \<Longrightarrow> b = add_mset y a" for a b q r :: "nat multiset" by simp
      have "mset (level_of lv Q) = add_mset y (mset (remove1 y (level_of lv Q)))"
        using \<open>y \<in> set (level_of lv Q)\<close> by simp
      from shift [OF this mset_set_level] show ?thesis .
    qed
    then have set: "set (all_ready ?Q) \<subseteq> set (all_ready Q)"
      by (metis set_mset_mset set_mset_add_mset_insert subset_insertI)
    have "distinct (y # all_ready ?Q)"
      using mset_eq_imp_distinct_iff [of "all_ready Q" "y # all_ready ?Q"] ms Cons.prems(1) by (simp add: ready_queue_def)
    then have dist: "distinct (all_ready ?Q)" "y \<notin> set (all_ready ?Q)" by simp_all
    have rq: "ready_queue ?m ?Q"
      by (rule ready_queue_set [OF Cons.prems(1) l'(2) dist(1)]) (use set Cons.prems(1) in \<open>auto simp: ready_queue_def\<close>)
    have qy: "queued_ok y ?m" using r by (simp add: queued_ok_def)
    have lvy: "getQueueLevel r \<noteq> lv" using True r(1) by (simp add: level_now_def)
    obtain l2 where app: "MultilevelThreadQueue_Append y ?m = Inr (put_os (set_queue (getQueueLevel r) l2) ?m)"
      using Append_queue [OF rq dist(2) qy refl] r(1) by auto
    have "ListIterator_Next (queue lv (kos (put_os (set_queue (getQueueLevel r) l2) ?m))) it = Inl UseAfterFree"
      using lvy freed Cons.prems(6) by (simp add: ListIterator_Next_def)
    with app l'(1) it r(1) y True show ?thesis by (auto simp: level_now_def)
  qed
qed

lemma PromoteThreads_eq:
  assumes "ready_queue m Q"
  shows "MultilevelThreadQueue_PromoteThreads lv m
     = (if \<exists>t\<in>set (level_of lv Q). level_now m t < lv then Inl UseAfterFree else Inr m)"
proof -
  obtain as where as: "list_cells (queue lv (kos m)) as (level_of lv Q)"
    using ready_queue_level [OF assms] by (auto simp: list_repr_def)
  have "lfirst (queue lv (kos m)) = (case as of [] \<Rightarrow> None | b # _ \<Rightarrow> Some b)"
    using as by (cases as; cases "level_of lv Q") (auto simp: list_cells_def)
  then show ?thesis
    unfolding MultilevelThreadQueue_PromoteThreads_def ListIterator_new_def
    using promote_from_eq [OF assms, of lv "[]" as "[]"] as list_cells_bound [OF as] by simp
qed

lemma aged_queue:
  assumes "ready_queue m Q" "\<forall>t\<in>set (all_ready Q). waiting_since m t"
  shows "ready_queue (put_os (age_threads (now m) (all_ready Q)) m) Q"
proof -
  have "queued_ok t (put_os (age_threads (now m) (all_ready Q)) m)" if mem: "t \<in> set (all_ready Q)" for t
  proof -
    obtain r where r: "threads (kos m) t = Some r" "tstatus r = READY" "tame r" "tick_cache r \<le> now m"
      using queued_thread [OF assms(1) mem] assms(2) mem by (auto simp: waiting_since_def)
    then have "0 \<le> (now m - tick_cache r) div AGING_TICK" by (simp add: AGING_TICK_def pos_imp_zdiv_nonneg_iff)
    with r that show ?thesis by (auto simp: queued_ok_def age_threads_def aged_def tame_def)
  qed
  then show ?thesis using assms(1) by (simp add: ready_queue_def)
qed

lemma Aging_eq:
  assumes "ready_queue m Q" "\<forall>t\<in>set (all_ready Q). waiting_since m t"
    "m' = put_os (age_threads (now m) (all_ready Q)) m"
  shows "MultilevelThreadQueue_Aging m =
    (if (\<exists>t\<in>set (level_of Lv3 Q). level_now m' t < Lv3) \<or> (\<exists>t\<in>set (level_of Lv2 Q). level_now m' t < Lv2)
     then Inl UseAfterFree else Inr m')"
  using PromoteThreads_eq [OF aged_queue [OF assms(1,2)]] Apply_Aging [OF assms(1,2)]
  by (simp add: MultilevelThreadQueue_Aging_def assms(3))

subsection \<open>A kernel with two threads\<close>

definition one_queued :: "nat \<Rightarrow> nat List" where
  "one_queued t = (case List_Append List_new t of Inr l \<Rightarrow> l | Inl _ \<Rightarrow> List_new)"

lemma one_queued_ok: "list_repr (one_queued t) [t]"
  using Append_ok [OF list_repr_new, of t] by (auto simp: one_queued_def)

text \<open>A yield that switches does so whatever the interrupt level was, and it is put back when the thread is resumed.\<close>

lemma Yield_switches:
  "Thread_Yield h t (m\<lparr>level := IntOff\<rparr>) = Inr (Switches n m') \<Longrightarrow> Thread_Yield h t m = Inr (Switches n m')"
  by (auto simp: Thread_Yield_def SetLevel_off bindR_eq_Inr assertR_eq_Inr split: option.splits)

definition resumable :: "nat \<Rightarrow> kern \<Rightarrow> bool" where
  "resumable t m \<longleftrightarrow> level m = IntOff \<and> irq m [] \<and> \<not> yieldOnReturn m \<and> \<not> inHandler m \<and> toBeDestroyed (kos m) = None
     \<and> length (registers (dev m)) = NumTotalRegs \<and> (\<exists>r. threads (kos m) t = Some r \<and> length (userRegisters r) = NumTotalRegs)"

lemma Yield_returns:
  assumes "resumable t m"
  shows "\<exists>m'. Thread_Yield_resumed h t l m = Inr m' \<and> level m' = l \<and> threads (kos m') = threads (kos m)"
proof -
  note a = assms [unfolded resumable_def]
  from a obtain r where r: "threads (kos m) t = Some r" "length (userRegisters r) = NumTotalRegs" by blast
  have "\<exists>d. Scheduler_Run_resumed t m = Inr (m\<lparr>dev := d\<rparr>) \<and> os d = os (dev m)"
  proof (cases "space r")
    case None
    then show ?thesis using a r by (intro exI [of _ "dev m"]) (simp add: Scheduler_Run_resumed_def Scheduler_CheckToBeDestroyed_def)
  next
    case (Some s)
    then show ?thesis using resumed_eq [of m t r "fst s" "snd s"] a r by (cases s) auto
  qed
  then obtain d where d: "Scheduler_Run_resumed t m = Inr (m\<lparr>dev := d\<rparr>)" "os d = os (dev m)" by blast
  show ?thesis
  proof (cases l)
    case IntOff
    then show ?thesis using d by (simp add: Thread_Yield_resumed_def SetLevel_off)
  next
    case IntOn
    then show ?thesis using d a by (simp add: Thread_Yield_resumed_def SetLevel_on_quiet)
  qed
qed

lemma threads_ok_level: "threads_ok m Q \<Longrightarrow> threads_ok (m\<lparr>level := l\<rparr>) Q"
  by (simp add: threads_ok_def ready_queue_def queued_ok_def)

definition sample_thread :: "ThreadStatus \<Rightarrow> int \<Rightarrow> Thread" where
  "sample_thread st p = (Thread_new 1 p 0)\<lparr>tstatus := st, space := Some ([], 0)\<rparr>"

definition two_threads :: "int \<Rightarrow> int \<Rightarrow> kern" where
  "two_threads p n = (let m = Interrupt_new (Machine_new ((Kernel_new 0
       [0 \<mapsto> sample_thread RUNNING p, 1 \<mapsto> sample_thread READY p] 2)\<lparr>L3 := one_queued 1\<rparr>))
     in m\<lparr>stats := (stats m)\<lparr>totalTicks := n\<rparr>, dev := (dev m)\<lparr>pageTable := Some []\<rparr>\<rparr>)"

lemma two_threads_fields [simp]:
  "level (two_threads p n) = IntOff" "currentThread (kos (two_threads p n)) = 0" "now (two_threads p n) = n"
  "threads (kos (two_threads p n)) = [0 \<mapsto> sample_thread RUNNING p, 1 \<mapsto> sample_thread READY p]"
  "registers (dev (two_threads p n)) = replicate NumTotalRegs 0" "toBeDestroyed (kos (two_threads p n)) = None"
  "pageTable (dev (two_threads p n)) = Some []"
  by (simp_all add: two_threads_def Interrupt_new_def Machine_new_def Kernel_new_def Let_def)

lemma two_threads_ready: "0 \<le> p \<Longrightarrow> p \<le> 149 \<Longrightarrow> ready_queue (two_threads p n) ([], [], [1])"
proof -
  assume p: "0 \<le> p" "p \<le> 149"
  have "list_repr (queue lv (kos (two_threads p n))) (level_of lv ([], [], [1]))" for lv
    by (cases lv) (simp_all add: two_threads_def Interrupt_new_def Machine_new_def Kernel_new_def list_repr_new
        one_queued_ok Let_def)
  then show ?thesis using p by (simp add: ready_queue_def queued_ok_def sample_thread_def Thread_new_def tame_def)
qed

lemma two_threads_ok: "0 \<le> p \<Longrightarrow> p \<le> 149 \<Longrightarrow> threads_ok (two_threads p n) ([], [], [1])"
  using two_threads_ready [of p n]
  by (auto simp: threads_ok_def sample_thread_def Thread_new_def Thread_CheckOverflow_def split: if_splits)

lemma sample_readied:
  "\<bar>n\<bar> < 2 ^ 53 \<Longrightarrow> Thread_setStatus READY n (sample_thread RUNNING p) =
     Inr ((sample_thread READY p)\<lparr>tick_cache := n, currentBurstTime := of_int n, lastBurstTime := of_int n\<rparr>)"
  using fl_int [of n]
  by (simp add: Thread_setStatus_def runToReady_def leaveRun_def toReady_def sample_thread_def Thread_new_def Let_def)

lemma two_threads_resumable: "resumable 0 (two_threads p n)"
proof -
  have "irq (two_threads p n) []" unfolding two_threads_def Let_def irq_upd by (rule irq_new)
  then show ?thesis
    by (simp add: resumable_def sample_thread_def Thread_new_def) (simp add: two_threads_def Interrupt_new_def Let_def)
qed

subsection \<open>Properties\<close>

text \<open>
  C10: the ready queue is one sequence, level 1 before level 2 before level 3: \<^verbatim>\<open>ReadyToRun\<close> resets the priority of the thread
  and inserts it at its level, in the order of the comparison or at the end of level 3, keeping every other
  thread, and \<^verbatim>\<open>FindNextToRun\<close> removes the head.
\<close>

theorem ready_queue_refines:
  assumes "level m = IntOff" "ready_queue m Q" "t \<notin> set (all_ready Q)" "threads (kos m) t = Some r"
    "Thread_setStatus READY (now m) r = Inr r'" "tame r'"
  shows "\<exists>m'. Scheduler_ReadyToRun t m = Inr m' \<and> ready_queue m' (enqueue (put_thread t r' m) t Q)
     \<and> mset (all_ready (enqueue (put_thread t r' m) t Q)) = add_mset t (mset (all_ready Q))
     \<and> (\<exists>m''. Scheduler_FindNextToRun m' = Inr (Some (hd (all_ready (enqueue (put_thread t r' m) t Q))), m'')
          \<and> ready_queue m'' (dequeue (enqueue (put_thread t r' m) t Q))
          \<and> all_ready (dequeue (enqueue (put_thread t r' m) t Q)) = tl (all_ready (enqueue (put_thread t r' m) t Q)))"
proof -
  let ?Q = "enqueue (put_thread t r' m) t Q"
  obtain l where l: "Scheduler_ReadyToRun t m = Inr (put_os (set_queue (getQueueLevel r') l) (put_thread t r' m))"
    "ready_queue (put_os (set_queue (getQueueLevel r') l) (put_thread t r' m)) ?Q"
    using ReadyToRun_ok [OF assms] by blast
  have "all_ready ?Q \<noteq> []" using enqueue_set [of "put_thread t r' m" t Q] by auto
  then have "all_ready ?Q = hd (all_ready ?Q) # tl (all_ready ?Q)" by simp
  from FindNextToRun_ok(2) [OF _ l(2) this] assms(1) l show ?thesis by (fastforce simp: enqueue_mset)
qed

lemma ready_queue_refines_witness:
  "\<exists>m'. Scheduler_ReadyToRun 0 (two_threads 30 7) = Inr m'
     \<and> ready_queue m' (enqueue (put_thread 0 ((sample_thread READY 30)\<lparr>tick_cache := 7, currentBurstTime := 7,
          lastBurstTime := 7\<rparr>) (two_threads 30 7)) 0 ([], [], [1]))"
proof -
  note sample_readied [of 7 30, simplified]
  then show ?thesis
    using ready_queue_refines [OF _ two_threads_ready [of 30 7], of 0 "sample_thread RUNNING 30"
        "(sample_thread READY 30)\<lparr>tick_cache := 7, currentBurstTime := 7, lastBurstTime := 7\<rparr>"]
    by (auto simp: tame_def sample_thread_def Thread_new_def)
qed

text \<open>
  C21: yielding is fair among equals and safe: when another thread is ready, \<^verbatim>\<open>Yield\<close> gives the CPU to the head of the ready
  queue, with interrupts off, and queues the running thread, at the very end if it belongs to level 3; afterwards there is
  again exactly one running thread, the current one, and the ready threads are exactly the queued ones. When the
  thread is resumed later, with no thread to destroy and no interrupt pending, \<^verbatim>\<open>Yield\<close> returns with the interrupt
  level it was called with.
\<close>

theorem Yield_round_robin:
  assumes "threads_ok m Q" "t = currentThread (kos m)" "all_ready Q = n # ts"
    "threads (kos m) t = Some r" "Thread_setStatus READY (now m) r = Inr r'" "tame r'"
  shows "\<exists>m' Q'. Thread_Yield h t m = Inr (Switches n m') \<and> threads_ok m' Q' \<and> currentThread (kos m') = n \<and> level m' = IntOff
     \<and> mset (all_ready Q') = add_mset t (mset ts) \<and> (getQueueLevel r' = Lv3 \<longrightarrow> all_ready Q' = ts @ [t])
     \<and> (\<forall>m2. resumable t m2 \<longrightarrow> (\<exists>m3. Thread_Yield_resumed h t (level m) m2 = Inr m3 \<and> level m3 = level m
          \<and> threads (kos m3) = threads (kos m2)))"
proof -
  let ?m = "m\<lparr>level := IntOff\<rparr>" and ?Q' = "enqueue (put_thread t r' m) t (dequeue Q)"
  have Q': "enqueue (put_thread t r' ?m) t (dequeue Q) = ?Q'" by (rule enqueue_cong) simp_all
  have ts: "all_ready (dequeue Q) = ts" using all_ready_head(1) [of Q] assms(3) by simp
  have last: "getQueueLevel r' = Lv3 \<Longrightarrow> all_ready ?Q' = ts @ [t]"
    by (cases "dequeue Q") (use ts in \<open>simp add: enqueue_def\<close>)
  obtain m' where m': "Thread_Yield h t ?m = Inr (Switches n m')" "threads_ok m' ?Q'" "currentThread (kos m') = n" "level m' = IntOff"
    using Yield_ok [of ?m Q t n ts r r' h] threads_ok_level [OF assms(1)] assms(2-6) unfolding Q' by auto
  have "Thread_Yield h t m = Inr (Switches n m')"
    using m'(1) Yield_switches [of h t m n m'] by simp
  then show ?thesis
    using m'(2-4) last Yield_returns by (intro exI [of _ m'] exI [of _ ?Q']) (simp add: enqueue_mset ts)
qed

lemma Yield_round_robin_witness:
  "\<exists>m' Q'. Thread_Yield \<lparr>onCallBack = \<lambda>d. Inr, onDelayedLoad = Inr, onYield = Inr\<rparr> 0 (two_threads 30 7)
       = Inr (Switches 1 m') \<and> threads_ok m' Q' \<and> all_ready Q' = [0]
     \<and> (\<exists>m3. Thread_Yield_resumed \<lparr>onCallBack = \<lambda>d. Inr, onDelayedLoad = Inr, onYield = Inr\<rparr> 0 (level (two_threads 30 7)) (two_threads 30 7) = Inr m3)"
proof -
  let ?h = "\<lparr>onCallBack = \<lambda>d. Inr, onDelayedLoad = Inr, onYield = Inr\<rparr>"
  let ?r = "(sample_thread READY 30)\<lparr>tick_cache := 7, currentBurstTime := 7, lastBurstTime := 7\<rparr>"
  have "getQueueLevel ?r = Lv3" "tame ?r"
    by (simp_all add: getQueueLevel_def tame_def sample_thread_def Thread_new_def)
  moreover have "resumable 0 (two_threads 30 7)" by (rule two_threads_resumable)
  ultimately show ?thesis
    using Yield_round_robin [OF two_threads_ok [of 30 7], of 0 1 "[]" "sample_thread RUNNING 30" ?r ?h]
      sample_readied [of 7 30] by simp blast
qed

text \<open>
  a context switch does not disturb user programs: when a thread with an address space gives up the CPU and gets
  it back later, whatever ran in between, the machine has the same user registers, page table and table size again.
\<close>

theorem context_switch_roundtrip:
  assumes "level m = IntOff" "t = currentThread (kos m)" "threads (kos m) t = Some r" "Thread_CheckOverflow r = Inr ()"
    "length (userRegisters r) = NumTotalRegs" "length (registers (dev m)) = NumTotalRegs"
    "next \<noteq> t" "threads (kos m) next = Some s" "tstatus s = READY" "space r = Some (pt0, n)" "pageTable (dev m) = Some pt"
  shows "\<exists>m1 r1. Scheduler_Run next False m = Inr m1 \<and> currentThread (kos m1) = next \<and> threads (kos m1) t = Some r1
     \<and> (\<forall>m2 r2. level m2 = IntOff \<longrightarrow> toBeDestroyed (kos m2) = None \<longrightarrow> threads (kos m2) t = Some r2 \<longrightarrow>
          userRegisters r2 = userRegisters r1 \<longrightarrow> space r2 = space r1 \<longrightarrow> length (registers (dev m2)) = NumTotalRegs \<longrightarrow>
          (\<exists>m3. Scheduler_Run_resumed t m2 = Inr m3 \<and> registers (dev m3) = registers (dev m)
             \<and> pageTable (dev m3) = pageTable (dev m) \<and> pageTableSize (dev m3) = n))"
proof -
  have "Thread_setStatus RUNNING (now m) s = Inr ((readyToRun (now m) s)\<lparr>tstatus := RUNNING\<rparr>)"
    using assms(9) by (simp add: Thread_setStatus_def)
  from Run_eq [OF assms(1-8) this, of False] assms(6,7,10,11) show ?thesis
    by (auto simp: resumed_eq)
qed

lemma context_switch_roundtrip_witness:
  "\<exists>m1 r1. Scheduler_Run 1 False (two_threads 30 7) = Inr m1 \<and> currentThread (kos m1) = 1 \<and> threads (kos m1) 0 = Some r1"
  using context_switch_roundtrip [of "two_threads 30 7" 0 "sample_thread RUNNING 30" 1 "sample_thread READY 30" "[]" 0 "[]"]
  by (auto simp: sample_thread_def Thread_new_def Thread_CheckOverflow_def)

text \<open>
  C38: aging never promotes a thread: it ages every ready thread as specified, but as soon as the new priority of one
  of them belongs to a higher level, the loop that moves it follows the \<^verbatim>\<open>next\<close> pointer of the list
  cell it has just deleted.
\<close>

theorem Aging_promotion_uses_freed:
  assumes "ready_queue m Q" "\<forall>t\<in>set (all_ready Q). waiting_since m t"
    "m' = put_os (age_threads (now m) (all_ready Q)) m"
  shows "MultilevelThreadQueue_Aging m =
    (if (\<exists>t\<in>set (level_of Lv3 Q). level_now m' t < Lv3) \<or> (\<exists>t\<in>set (level_of Lv2 Q). level_now m' t < Lv2)
     then Inl UseAfterFree else Inr m')"
  by (rule Aging_eq [OF assms])

lemma Aging_promotion_uses_freed_witness:
  "MultilevelThreadQueue_Aging (two_threads 45 1500) = Inl UseAfterFree"
  by (subst Aging_promotion_uses_freed [OF two_threads_ready _ refl])
     (simp_all add: waiting_since_def sample_thread_def Thread_new_def level_now_def age_threads_def aged_def
        AGING_TICK_def getQueueLevel_def less_Level_def)

end
