(* ===== verification/Synch.thy ===== *)
theory Synch
  imports Machines
begin

text \<open>
  \<^verbatim>\<open>threads/synch.cc\<close> with the threads and the scheduler of MP4 (\<^verbatim>\<open>threads/thread.cc\<close>,
  \<^verbatim>\<open>threads/scheduler.cc\<close>, one first-in-first-out ready list): semaphores, locks and condition variables.
  The state \<open>Sys\<close> is what the kernel adds to the CPU of theory \<open>Machines\<close>; objects are addresses, and a deleted
  object is no longer in its map. A context switch is split where \<^verbatim>\<open>SWITCH\<close> changes stacks: an
  operation that gives up the CPU ends in \<open>Switches\<close>, and what the thread does when it gets the CPU back is a
  routine of its own. The theory shows what each operation does to the lists of waiting threads; theory
  \<open>Monitors\<close> lets threads call them in any interleaving.
\<close>

subsection \<open>Threads and the kernel\<close>

datatype ThreadState = JUST_CREATED | RUNNING | READY | BLOCKED | ZOMBIE

text \<open>
  Of the stack only the word is modelled that \<^verbatim>\<open>CheckOverflow\<close> looks at; the registers of the host are not.
\<close>

record TCB =
  ID :: int
  status :: ThreadState
  stack :: "int option"
  userRegisters :: "32 word list"
  space :: "(TranslationEntry list \<times> int) option"

record Semaphore =
  val :: int
  sleepers :: "nat List"

record Lock =
  lockHolder :: "nat option"
  semaphore :: nat

record Condition =
  waitQueue :: "nat List"

record Sys =
  threads :: "nat \<rightharpoonup> TCB"
  currentThread :: nat
  readyList :: "nat List"
  toBeDestroyed :: "nat option"
  semaphores :: "nat \<rightharpoonup> Semaphore"
  nextSemaphore :: nat
  locks :: "nat \<rightharpoonup> Lock"
  conditions :: "nat \<rightharpoonup> Condition"
  timerDisabled :: bool
  consoleDisabled :: bool

type_synonym sys = "Sys cpu"

abbreviation sos :: "sys \<Rightarrow> Sys" where "sos m \<equiv> os (dev m)"

definition put_sys :: "(Sys \<Rightarrow> Sys) \<Rightarrow> sys \<Rightarrow> sys" where
  "put_sys f m = m\<lparr>dev := (dev m)\<lparr>os := f (os (dev m))\<rparr>\<rparr>"

text \<open>An access to an object through a pointer.\<close>

definition live :: "'a option \<Rightarrow> 'a res" where
  "live p = (case p of None \<Rightarrow> Inl UseAfterFree | Some r \<Rightarrow> Inr r)"

lemma live_simps [simp]: "live (Some r) = Inr r" "live None = Inl UseAfterFree" "live p = Inr r \<longleftrightarrow> p = Some r"
  by (auto simp: live_def split: option.splits)

definition put_tcb :: "nat \<Rightarrow> TCB \<Rightarrow> sys \<Rightarrow> sys" where
  "put_tcb t r = put_sys (\<lambda>k. k\<lparr>threads := (threads k)(t \<mapsto> r)\<rparr>)"

definition upd_tcb :: "nat \<Rightarrow> (TCB \<Rightarrow> TCB res) \<Rightarrow> sys \<Rightarrow> sys res" where
  "upd_tcb t f m = bindR (live (threads (sos m) t)) (\<lambda>r. bindR (f r) (\<lambda>r. Inr (put_tcb t r m)))"

definition set_status :: "ThreadState \<Rightarrow> nat \<Rightarrow> sys \<Rightarrow> sys res" where
  "set_status st t = upd_tcb t (\<lambda>r. Inr (r\<lparr>status := st\<rparr>))"

definition FENCEPOST :: int where "FENCEPOST = 0xdedbeef"

definition TCB_new :: "int \<Rightarrow> TCB" where
  "TCB_new threadID = \<lparr>ID = threadID, status = JUST_CREATED, stack = None,
     userRegisters = replicate NumTotalRegs 0, space = None\<rparr>"

definition CheckOverflow :: "TCB \<Rightarrow> unit res" where
  "CheckOverflow r = (case stack r of None \<Rightarrow> Inr () | Some w \<Rightarrow> assertR (w = FENCEPOST) (Inr ()))"

definition SaveUserState :: "nat \<Rightarrow> sys \<Rightarrow> sys res" where
  "SaveUserState t m =
     forR NumTotalRegs 0 (\<lambda>i m. upd_tcb t (\<lambda>r. bindR (Machine_ReadRegister (int i) m) (\<lambda>v.
       Inr (r\<lparr>userRegisters := (userRegisters r)[i := v]\<rparr>))) m) m"

definition RestoreUserState :: "nat \<Rightarrow> sys \<Rightarrow> sys res" where
  "RestoreUserState t m =
     forR NumTotalRegs 0 (\<lambda>i m. bindR (live (threads (sos m) t)) (\<lambda>r.
       Machine_WriteRegister (int i) (userRegisters r ! i) m)) m"

text \<open>
  \<^verbatim>\<open>AddrSpace::SaveState\<close> does nothing: machine and space share the page table. Here the table is a value
  in both places, so the bits the machine has set are copied back.
\<close>

definition SaveState :: "nat \<Rightarrow> sys \<Rightarrow> sys res" where
  "SaveState t m = upd_tcb t (\<lambda>r. Inr (r\<lparr>space := (case (space r, pageTable (dev m)) of
     (Some (pt, n), Some pt') \<Rightarrow> Some (pt', n) | (s, _) \<Rightarrow> s)\<rparr>)) m"

definition RestoreState :: "TranslationEntry list \<times> int \<Rightarrow> sys \<Rightarrow> sys" where
  "RestoreState s m = m\<lparr>dev := (dev m)\<lparr>pageTable := Some (fst s), pageTableSize := snd s\<rparr>\<rparr>"

subsection \<open>The scheduler\<close>

definition Sys_new :: "nat \<Rightarrow> TCB \<Rightarrow> Sys" where
  "Sys_new t r = \<lparr>threads = [t \<mapsto> r], currentThread = t, readyList = List_new, toBeDestroyed = None,
     semaphores = Map.empty, nextSemaphore = 0, locks = Map.empty, conditions = Map.empty,
     timerDisabled = False, consoleDisabled = False\<rparr>"

definition ReadyToRun :: "nat \<Rightarrow> sys \<Rightarrow> sys res" where
  "ReadyToRun t m = assertR (level m = IntOff)
     (bindR (set_status READY t m) (\<lambda>m. bindR (List_Append (readyList (sos m)) t) (\<lambda>l.
        Inr (put_sys (\<lambda>k. k\<lparr>readyList := l\<rparr>) m))))"

definition FindNextToRun :: "sys \<Rightarrow> (nat option \<times> sys) res" where
  "FindNextToRun m = assertR (level m = IntOff)
     (if List_IsEmpty (readyList (sos m)) then Inr (None, m)
      else bindR (List_RemoveFront (readyList (sos m))) (\<lambda>(t, l).
        Inr (Some t, put_sys (\<lambda>k. k\<lparr>readyList := l\<rparr>) m)))"

definition CheckToBeDestroyed :: "sys \<Rightarrow> sys res" where
  "CheckToBeDestroyed m =
     (case toBeDestroyed (sos m) of None \<Rightarrow> Inr m
      | Some t \<Rightarrow> bindR (live (threads (sos m) t)) (\<lambda>_. assertR (t \<noteq> currentThread (sos m))
          (Inr (put_sys (\<lambda>k. k\<lparr>threads := (threads k)(t := None), toBeDestroyed := None\<rparr>) m))))"

text \<open>\<^verbatim>\<open>Scheduler::Run\<close> up to \<^verbatim>\<open>SWITCH\<close>, and what \<open>oldThread\<close> does in it when it gets the CPU again.\<close>

definition Run :: "nat \<Rightarrow> bool \<Rightarrow> sys \<Rightarrow> sys res" where
  "Run nextThread finishing m =
     (let oldThread = currentThread (sos m)
      in assertR (level m = IntOff)
       (bindR (if finishing then assertR (toBeDestroyed (sos m) = None)
                 (Inr (put_sys (\<lambda>k. k\<lparr>toBeDestroyed := Some oldThread\<rparr>) m)) else Inr m) (\<lambda>m.
        bindR (live (threads (sos m) oldThread)) (\<lambda>r.
        bindR (if space r \<noteq> None
               then bindR (SaveUserState oldThread m) (SaveState oldThread) else Inr m) (\<lambda>m.
        bindR (bindR (live (threads (sos m) oldThread)) CheckOverflow) (\<lambda>_.
          set_status RUNNING nextThread (put_sys (\<lambda>k. k\<lparr>currentThread := nextThread\<rparr>) m)))))))"

definition Run_resumed :: "nat \<Rightarrow> sys \<Rightarrow> sys res" where
  "Run_resumed oldThread m =
     assertR (level m = IntOff)
      (bindR (CheckToBeDestroyed m) (\<lambda>m.
       bindR (live (threads (sos m) oldThread)) (\<lambda>r.
         case space r of None \<Rightarrow> Inr m
         | Some s \<Rightarrow> bindR (RestoreUserState oldThread m) (\<lambda>m. Inr (RestoreState s m)))))"

subsection \<open>The operations of threads\<close>

definition Fork :: "Sys CPU hooks \<Rightarrow> nat \<Rightarrow> sys \<Rightarrow> sys res" where
  "Fork h t m =
     bindR (upd_tcb t (\<lambda>r. Inr (r\<lparr>stack := Some FENCEPOST\<rparr>)) m) (\<lambda>m.
     bindR (Interrupt_SetLevel h IntOff m) (\<lambda>(oldLevel, m).
     bindR (ReadyToRun t m) (\<lambda>m.
     bindR (Interrupt_SetLevel h oldLevel m) (\<lambda>(_, m). Inr m))))"

definition Begin :: "Sys CPU hooks \<Rightarrow> nat \<Rightarrow> sys \<Rightarrow> sys res" where
  "Begin h t m = assertR (t = currentThread (sos m))
     (bindR (CheckToBeDestroyed m) (\<lambda>m. bindR (Interrupt_SetLevel h IntOn m) (\<lambda>(_, m). Inr m)))"

definition Yield :: "Sys CPU hooks \<Rightarrow> nat \<Rightarrow> sys \<Rightarrow> sys control res" where
  "Yield h t m =
     bindR (Interrupt_SetLevel h IntOff m) (\<lambda>(oldLevel, m).
     assertR (t = currentThread (sos m))
      (bindR (FindNextToRun m) (\<lambda>(nextThread, m).
         case nextThread of
           Some n \<Rightarrow> bindR (ReadyToRun t m) (\<lambda>m. bindR (Run n False m) (\<lambda>m. Inr (Switches n m)))
         | None \<Rightarrow> bindR (Interrupt_SetLevel h oldLevel m) (\<lambda>(_, m). Inr (Stays m)))))"

definition PrepareToEnd :: "sys \<Rightarrow> sys" where
  "PrepareToEnd = put_sys (\<lambda>k. k\<lparr>timerDisabled := True, consoleDisabled := True\<rparr>)"

text \<open>The waiting loop of \<^verbatim>\<open>Sleep\<close>, for a number of idle rounds.\<close>

fun idle_loop :: "nat \<Rightarrow> Sys CPU hooks \<Rightarrow> sys \<Rightarrow> (nat \<times> sys) res" where
  "idle_loop 0 h m = Inl NoReturn"
| "idle_loop (Suc n) h m =
     bindR (FindNextToRun m) (\<lambda>(nextThread, m).
       case nextThread of Some t \<Rightarrow> Inr (t, m)
       | None \<Rightarrow> bindR (Interrupt_Idle h (PrepareToEnd m)) (idle_loop n h))"

definition Sleep :: "nat \<Rightarrow> Sys CPU hooks \<Rightarrow> nat \<Rightarrow> bool \<Rightarrow> sys \<Rightarrow> sys control res" where
  "Sleep rounds h t finishing m =
     assertR (t = currentThread (sos m))
      (assertR (level m = IntOff)
        (bindR (set_status BLOCKED t m) (\<lambda>m.
         bindR (idle_loop rounds h m) (\<lambda>(nextThread, m).
         bindR (Run nextThread finishing m) (\<lambda>m. Inr (Switches nextThread m))))))"

definition Finish :: "nat \<Rightarrow> Sys CPU hooks \<Rightarrow> nat \<Rightarrow> sys \<Rightarrow> sys control res" where
  "Finish rounds h t m =
     bindR (Interrupt_SetLevel h IntOff m) (\<lambda>(_, m).
     assertR (t = currentThread (sos m)) (Sleep rounds h t True m))"

definition Alarm4_CallBack :: "sys \<Rightarrow> sys res" where
  "Alarm4_CallBack m = (if mstatus m \<noteq> IdleMode then Interrupt_YieldOnReturn m else Inr m)"

subsection \<open>Semaphores\<close>

definition put_sem :: "nat \<Rightarrow> Semaphore \<Rightarrow> sys \<Rightarrow> sys" where
  "put_sem s x = put_sys (\<lambda>k. k\<lparr>semaphores := (semaphores k)(s \<mapsto> x)\<rparr>)"

definition Semaphore_new :: "int \<Rightarrow> sys \<Rightarrow> nat \<times> sys" where
  "Semaphore_new initialValue m = (nextSemaphore (sos m),
     put_sys (\<lambda>k. k\<lparr>semaphores := (semaphores k)(nextSemaphore k \<mapsto> \<lparr>val = initialValue, sleepers = List_new\<rparr>),
       nextSemaphore := Suc (nextSemaphore k)\<rparr>) m)"

definition Semaphore_delete :: "nat \<Rightarrow> sys \<Rightarrow> sys res" where
  "Semaphore_delete s m = bindR (live (semaphores (sos m) s)) (\<lambda>_.
     Inr (put_sys (\<lambda>k. k\<lparr>semaphores := (semaphores k)(s := None)\<rparr>) m))"

text \<open>
  \<^verbatim>\<open>P\<close> is entered with the interrupts at \<open>oldLevel\<close> and disables them. Its loop runs until the value is not 0
  or the thread sleeps; after the sleep \<open>Run_resumed\<close> comes first and the loop is run again.
\<close>

definition P_loop :: "nat \<Rightarrow> Sys CPU hooks \<Rightarrow> nat \<Rightarrow> nat \<Rightarrow> sys \<Rightarrow> sys control res" where
  "P_loop rounds h s t m =
     bindR (live (semaphores (sos m) s)) (\<lambda>x.
       if val x = 0
       then bindR (List_Append (sleepers x) t) (\<lambda>l. Sleep rounds h t False (put_sem s (x\<lparr>sleepers := l\<rparr>) m))
       else bindR (addR (val x) (- 1)) (\<lambda>v. Inr (Stays (put_sem s (x\<lparr>val := v\<rparr>) m))))"

definition P_end :: "Sys CPU hooks \<Rightarrow> IntStatus \<Rightarrow> sys control \<Rightarrow> sys control res" where
  "P_end h oldLevel c = (case c of Switches n m \<Rightarrow> Inr (Switches n m)
     | Stays m \<Rightarrow> bindR (Interrupt_SetLevel h oldLevel m) (\<lambda>(_, m). Inr (Stays m)))"

definition Semaphore_P :: "nat \<Rightarrow> Sys CPU hooks \<Rightarrow> nat \<Rightarrow> sys \<Rightarrow> sys control res" where
  "Semaphore_P rounds h s m =
     (let t = currentThread (sos m)
      in bindR (Interrupt_SetLevel h IntOff m) (\<lambda>(oldLevel, m). bindR (P_loop rounds h s t m) (P_end h oldLevel)))"

definition Semaphore_P_resumed :: "nat \<Rightarrow> Sys CPU hooks \<Rightarrow> nat \<Rightarrow> nat \<Rightarrow> IntStatus \<Rightarrow> sys \<Rightarrow> sys control res" where
  "Semaphore_P_resumed rounds h s t oldLevel m =
     bindR (Run_resumed t m) (\<lambda>m. bindR (P_loop rounds h s t m) (P_end h oldLevel))"

definition Semaphore_V :: "Sys CPU hooks \<Rightarrow> nat \<Rightarrow> sys \<Rightarrow> sys res" where
  "Semaphore_V h s m =
     bindR (Interrupt_SetLevel h IntOff m) (\<lambda>(oldLevel, m).
     bindR (live (semaphores (sos m) s)) (\<lambda>x.
     bindR (if \<not> List_IsEmpty (sleepers x)
            then bindR (List_RemoveFront (sleepers x)) (\<lambda>(t, l). ReadyToRun t (put_sem s (x\<lparr>sleepers := l\<rparr>) m))
            else Inr m) (\<lambda>m.
     bindR (live (semaphores (sos m) s)) (\<lambda>x.
     bindR (addR (val x) 1) (\<lambda>v.
     bindR (Interrupt_SetLevel h oldLevel (put_sem s (x\<lparr>val := v\<rparr>) m)) (\<lambda>(_, m). Inr m))))))"

subsection \<open>Locks and conditions\<close>

definition put_lock :: "nat \<Rightarrow> Lock \<Rightarrow> sys \<Rightarrow> sys" where
  "put_lock l x = put_sys (\<lambda>k. k\<lparr>locks := (locks k)(l \<mapsto> x)\<rparr>)"

definition Lock_new :: "nat \<Rightarrow> sys \<Rightarrow> sys" where
  "Lock_new l m = (case Semaphore_new 1 m of (s, m) \<Rightarrow> put_lock l \<lparr>lockHolder = None, semaphore = s\<rparr> m)"

definition IsHeldByCurrentThread :: "Lock \<Rightarrow> sys \<Rightarrow> bool" where
  "IsHeldByCurrentThread x m \<longleftrightarrow> lockHolder x = Some (currentThread (sos m))"

text \<open>\<^verbatim>\<open>Acquire\<close> is \<^verbatim>\<open>P\<close> on the semaphore and then \<open>Lock_Acquire_granted\<close>.\<close>

definition Lock_Acquire :: "nat \<Rightarrow> Sys CPU hooks \<Rightarrow> nat \<Rightarrow> sys \<Rightarrow> sys control res" where
  "Lock_Acquire rounds h l m = bindR (live (locks (sos m) l)) (\<lambda>x. Semaphore_P rounds h (semaphore x) m)"

definition Lock_Acquire_granted :: "nat \<Rightarrow> sys \<Rightarrow> sys res" where
  "Lock_Acquire_granted l m = bindR (live (locks (sos m) l)) (\<lambda>x.
     Inr (put_lock l (x\<lparr>lockHolder := Some (currentThread (sos m))\<rparr>) m))"

definition Lock_Release :: "Sys CPU hooks \<Rightarrow> nat \<Rightarrow> sys \<Rightarrow> sys res" where
  "Lock_Release h l m = bindR (live (locks (sos m) l)) (\<lambda>x.
     assertR (IsHeldByCurrentThread x m) (Semaphore_V h (semaphore x) (put_lock l (x\<lparr>lockHolder := None\<rparr>) m)))"

definition put_condition :: "nat \<Rightarrow> nat List \<Rightarrow> sys \<Rightarrow> sys" where
  "put_condition c q = put_sys (\<lambda>k. k\<lparr>conditions := (conditions k)(c \<mapsto> \<lparr>waitQueue = q\<rparr>)\<rparr>)"

text \<open>
  \<^verbatim>\<open>Wait\<close> up to the release of the lock; then follow \<^verbatim>\<open>conditionLock->Release()\<close>, \<^verbatim>\<open>waiter->P()\<close>,
  \<^verbatim>\<open>conditionLock->Acquire()\<close> and \<^verbatim>\<open>delete waiter\<close>.
\<close>

definition Condition_Wait_enter :: "nat \<Rightarrow> nat \<Rightarrow> sys \<Rightarrow> (nat \<times> sys) res" where
  "Condition_Wait_enter c l m =
     bindR (live (locks (sos m) l)) (\<lambda>x. assertR (IsHeldByCurrentThread x m)
      (case Semaphore_new 0 m of (waiter, m) \<Rightarrow>
         bindR (live (conditions (sos m) c)) (\<lambda>y.
         bindR (List_Append (waitQueue y) waiter) (\<lambda>q. Inr (waiter, put_condition c q m)))))"

definition Condition_Signal :: "Sys CPU hooks \<Rightarrow> nat \<Rightarrow> nat \<Rightarrow> sys \<Rightarrow> sys res" where
  "Condition_Signal h c l m =
     bindR (live (locks (sos m) l)) (\<lambda>x. assertR (IsHeldByCurrentThread x m)
      (bindR (live (conditions (sos m) c)) (\<lambda>y.
         if \<not> List_IsEmpty (waitQueue y)
         then bindR (List_RemoveFront (waitQueue y)) (\<lambda>(waiter, q). Semaphore_V h waiter (put_condition c q m))
         else Inr m)))"

text \<open>The loop of \<^verbatim>\<open>Broadcast\<close>: \<open>True\<close> when another \<^verbatim>\<open>Signal\<close> follows.\<close>

definition Condition_Broadcast_test :: "nat \<Rightarrow> sys \<Rightarrow> bool res" where
  "Condition_Broadcast_test c m = bindR (live (conditions (sos m) c)) (\<lambda>y. Inr (\<not> List_IsEmpty (waitQueue y)))"

subsection \<open>Where the threads are\<close>

text \<open>
  An abstract view of the kernel: each thread runs, is ready, sleeps on a semaphore, or has just been taken off a
  list (\<open>Chosen\<close>); the lists of the code are sequences.
\<close>

datatype place = OnCPU | Ready | Chosen | Asleep nat

record mon =
  cur :: nat
  pl :: "nat \<Rightarrow> place"
  rdy :: "nat list"
  sem :: "nat \<rightharpoonup> int \<times> nat list"
  fresh :: nat
  lk :: "nat \<rightharpoonup> nat option \<times> nat"
  wq :: "nat \<rightharpoonup> nat list"

definition state_ok :: "place \<Rightarrow> ThreadState \<Rightarrow> bool" where
  "state_ok p st \<longleftrightarrow> (case p of OnCPU \<Rightarrow> st = RUNNING | Ready \<Rightarrow> st = READY | Chosen \<Rightarrow> True | Asleep s \<Rightarrow> st = BLOCKED)"

definition tcb_ok :: "TCB \<Rightarrow> bool" where
  "tcb_ok r \<longleftrightarrow> length (userRegisters r) = NumTotalRegs \<and> CheckOverflow r = Inr ()"

definition placed :: "nat set \<Rightarrow> mon \<Rightarrow> bool" where
  "placed T a \<longleftrightarrow> cur a \<in> T \<and> (\<forall>t. t \<in> set (rdy a) \<longleftrightarrow> t \<in> T \<and> pl a t = Ready)
     \<and> (\<forall>s v q t. sem a s = Some (v, q) \<longrightarrow> (t \<in> set q \<longleftrightarrow> t \<in> T \<and> pl a t = Asleep s))
     \<and> (\<forall>t. t \<in> T \<longrightarrow> pl a t = OnCPU \<longrightarrow> t = cur a) \<and> (\<forall>t s. t \<in> T \<longrightarrow> pl a t = Asleep s \<longrightarrow> sem a s \<noteq> None)"

lemma placedI:
  assumes "cur a \<in> T" "\<And>t. t \<in> set (rdy a) \<longleftrightarrow> t \<in> T \<and> pl a t = Ready"
    "\<And>s v q t. sem a s = Some (v, q) \<Longrightarrow> t \<in> set q \<longleftrightarrow> t \<in> T \<and> pl a t = Asleep s"
    "\<And>t. t \<in> T \<Longrightarrow> pl a t = OnCPU \<Longrightarrow> t = cur a" "\<And>t s. t \<in> T \<Longrightarrow> pl a t = Asleep s \<Longrightarrow> sem a s \<noteq> None"
  shows "placed T a"
  unfolding placed_def using assms by blast

lemma placedD:
  assumes "placed T a"
  shows "cur a \<in> T" "t \<in> set (rdy a) \<longleftrightarrow> t \<in> T \<and> pl a t = Ready"
    "sem a s = Some (v, q) \<Longrightarrow> t \<in> set q \<longleftrightarrow> t \<in> T \<and> pl a t = Asleep s"
    "t \<in> T \<Longrightarrow> pl a t = OnCPU \<Longrightarrow> t = cur a" "t \<in> T \<Longrightarrow> pl a t = Asleep s \<Longrightarrow> sem a s \<noteq> None"
  using assms unfolding placed_def by blast+

definition sem_repr :: "Semaphore option \<Rightarrow> (int \<times> nat list) option \<Rightarrow> bool" where
  "sem_repr = rel_option (\<lambda>x (v, q). val x = v \<and> list_repr (sleepers x) q)"

text \<open>
  The abstract state of a kernel in which interrupts are off: from there the calls of \<^verbatim>\<open>SetLevel\<close> in the
  routines change nothing, and what may happen while interrupts are on is added as steps of its own in theory \<open>Monitors\<close>.
\<close>

definition view :: "nat set \<Rightarrow> sys \<Rightarrow> mon \<Rightarrow> bool" where
  "view T m a \<longleftrightarrow> level m = IntOff \<and> length (registers (dev m)) = NumTotalRegs \<and> toBeDestroyed (sos m) = None
     \<and> (\<forall>t\<in>T. \<exists>r. threads (sos m) t = Some r \<and> tcb_ok r \<and> state_ok (pl a t) (status r))
     \<and> currentThread (sos m) = cur a \<and> list_repr (readyList (sos m)) (rdy a)
     \<and> (\<forall>s. sem_repr (semaphores (sos m) s) (sem a s)) \<and> nextSemaphore (sos m) = fresh a
     \<and> (\<forall>l. map_option (\<lambda>x. (lockHolder x, semaphore x)) (locks (sos m) l) = lk a l)
     \<and> (\<forall>c. rel_option (\<lambda>y q. list_repr (waitQueue y) q) (conditions (sos m) c) (wq a c))"

lemma sys_access [simp]:
  "sos (put_sys f m) = f (sos m)" "level (put_sys f m) = level m" "registers (dev (put_sys f m)) = registers (dev m)"
  "pageTable (dev (put_sys f m)) = pageTable (dev m)" "put_sys f (put_sys g m) = put_sys (\<lambda>k. f (g k)) m"
  by (simp_all add: put_sys_def)

lemma viewD:
  assumes "view T m a"
  shows "level m = IntOff" "length (registers (dev m)) = NumTotalRegs" "toBeDestroyed (sos m) = None"
    "currentThread (sos m) = cur a" "list_repr (readyList (sos m)) (rdy a)" "nextSemaphore (sos m) = fresh a"
  using assms by (simp_all add: view_def)

lemma view_thread:
  "view T m a \<Longrightarrow> t \<in> T \<Longrightarrow> \<exists>r. threads (sos m) t = Some r \<and> tcb_ok r \<and> state_ok (pl a t) (status r)"
  by (simp add: view_def)

lemma view_lists:
  assumes "view T m a"
  shows "sem_repr (semaphores (sos m) s) (sem a s)"
    "map_option (\<lambda>x. (lockHolder x, semaphore x)) (locks (sos m) l) = lk a l"
    "rel_option (\<lambda>y q. list_repr (waitQueue y) q) (conditions (sos m) c) (wq a c)"
  using assms by (simp_all add: view_def)

lemma view_sem: "view T m a \<Longrightarrow> sem a s = Some (v, q) \<Longrightarrow>
   \<exists>x. semaphores (sos m) s = Some x \<and> val x = v \<and> list_repr (sleepers x) q"
proof -
  assume v: "view T m a" and s: "sem a s = Some (v, q)"
  show ?thesis using view_lists(1) [OF v, of s] unfolding s by (cases "semaphores (sos m) s") (simp_all add: sem_repr_def)
qed

lemma view_no_sem: "view T m a \<Longrightarrow> semaphores (sos m) s = None \<longleftrightarrow> sem a s = None"
proof -
  assume v: "view T m a"
  show ?thesis
    using view_lists(1) [OF v, of s] by (cases "semaphores (sos m) s"; cases "sem a s") (simp_all add: sem_repr_def)
qed

lemma view_lock: "view T m a \<Longrightarrow> lk a l = Some (h, s) \<Longrightarrow> locks (sos m) l = Some \<lparr>lockHolder = h, semaphore = s\<rparr>"
proof -
  assume v: "view T m a" and "lk a l = Some (h, s)"
  with view_lists(2) [OF v, of l] obtain x where "locks (sos m) l = Some x" "lockHolder x = h" "semaphore x = s" by auto
  then show ?thesis by (cases x) simp
qed

lemma view_lockD: "view T m a \<Longrightarrow> locks (sos m) l = Some x \<Longrightarrow> lk a l = Some (lockHolder x, semaphore x)"
proof -
  assume v: "view T m a" and "locks (sos m) l = Some x"
  with view_lists(2) [OF v, of l] show ?thesis by simp
qed

lemma view_cond: "view T m a \<Longrightarrow> wq a c = Some q \<Longrightarrow> \<exists>y. conditions (sos m) c = Some y \<and> list_repr (waitQueue y) q"
proof -
  assume v: "view T m a" and c: "wq a c = Some q"
  show ?thesis using view_lists(3) [OF v, of c] unfolding c by (cases "conditions (sos m) c") simp_all
qed

lemma view_condD: "view T m a \<Longrightarrow> conditions (sos m) c = Some y \<Longrightarrow> \<exists>q. wq a c = Some q \<and> list_repr (waitQueue y) q"
proof -
  assume v: "view T m a" and c: "conditions (sos m) c = Some y"
  show ?thesis using view_lists(3) [OF v, of c] unfolding c by (cases "wq a c") simp_all
qed

lemma view_put_tcb:
  "view T m a \<Longrightarrow> tcb_ok r \<Longrightarrow> state_ok p (status r) \<Longrightarrow> view T (put_tcb t r m) (a\<lparr>pl := (pl a)(t := p)\<rparr>)"
  by (simp add: view_def put_tcb_def)

lemma view_update_tcb:
  assumes "view T m a" "t \<in> T \<Longrightarrow> tcb_ok r \<and> state_ok (pl a t) (status r)"
  shows "view T (put_tcb t r m) a"
  using assms by (auto simp: view_def put_tcb_def)

lemma view_put_ready: "view T m a \<Longrightarrow> list_repr l q \<Longrightarrow> view T (put_sys (\<lambda>k. k\<lparr>readyList := l\<rparr>) m) (a\<lparr>rdy := q\<rparr>)"
  by (simp add: view_def)

lemma view_put_cur: "view T m a \<Longrightarrow> view T (put_sys (\<lambda>k. k\<lparr>currentThread := n\<rparr>) m) (a\<lparr>cur := n\<rparr>)"
  by (simp add: view_def)

lemma view_put_sem:
  "view T m a \<Longrightarrow> list_repr (sleepers x) q \<Longrightarrow> view T (put_sem s x m) (a\<lparr>sem := (sem a)(s \<mapsto> (val x, q))\<rparr>)"
  by (simp add: view_def put_sem_def sem_repr_def)

lemma view_put_lock:
  "view T m a \<Longrightarrow> view T (put_lock l x m) (a\<lparr>lk := (lk a)(l \<mapsto> (lockHolder x, semaphore x))\<rparr>)"
  by (simp add: view_def put_lock_def)

lemma view_put_condition:
  "view T m a \<Longrightarrow> list_repr l q \<Longrightarrow> view T (put_condition c l m) (a\<lparr>wq := (wq a)(c \<mapsto> q)\<rparr>)"
  by (simp add: view_def put_condition_def)

lemma view_chosen: "view T m a \<Longrightarrow> view T m (a\<lparr>pl := (pl a)(t := Chosen)\<rparr>)"
  by (auto simp: view_def state_ok_def)

lemma view_PrepareToEnd: "view T m a \<Longrightarrow> view T (PrepareToEnd m) a"
  by (simp add: view_def PrepareToEnd_def)

subsection \<open>The operations on the abstract view\<close>

lemma FindNextToRun_view:
  assumes "view T m a"
  shows "rdy a = [] \<Longrightarrow> FindNextToRun m = Inr (None, m)"
    "rdy a = n # r \<Longrightarrow> \<exists>m'. FindNextToRun m = Inr (Some n, m') \<and> view T m' (a\<lparr>rdy := r\<rparr>)"
proof -
  note v = viewD [OF assms]
  show "rdy a = [] \<Longrightarrow> FindNextToRun m = Inr (None, m)"
    using v list_repr_empty [OF v(5)] by (simp add: FindNextToRun_def)
  assume r: "rdy a = n # r"
  from RemoveFront_ok [OF v(5) [unfolded r]] obtain l where
    l: "List_RemoveFront (readyList (sos m)) = Inr (n, l)" "list_repr l r" by blast
  show "\<exists>m'. FindNextToRun m = Inr (Some n, m') \<and> view T m' (a\<lparr>rdy := r\<rparr>)"
    using v l list_repr_empty [OF v(5)] r view_put_ready [OF assms l(2)] by (simp add: FindNextToRun_def)
qed

lemma ReadyToRun_view:
  assumes "view T m a" "t \<in> T" "t \<notin> set (rdy a)"
  shows "\<exists>m'. ReadyToRun t m = Inr m' \<and> view T m' (a\<lparr>pl := (pl a)(t := Ready), rdy := rdy a @ [t]\<rparr>)"
proof -
  from view_thread [OF assms(1,2)] obtain r where r: "threads (sos m) t = Some r" "tcb_ok r" by blast
  let ?m = "put_tcb t (r\<lparr>status := READY\<rparr>) m"
  have v: "view T ?m (a\<lparr>pl := (pl a)(t := Ready)\<rparr>)"
    by (rule view_put_tcb [OF assms(1)]) (use r(2) in \<open>simp_all add: tcb_ok_def CheckOverflow_def state_ok_def\<close>)
  from Append_ok [OF viewD(5) [OF v], of t] assms(3) obtain l where
    l: "List_Append (readyList (sos ?m)) t = Inr l" "list_repr l (rdy a @ [t])" by auto
  from view_put_ready [OF v l(2)] l(1) r(1) viewD(1) [OF assms(1)] show ?thesis
    by (simp add: ReadyToRun_def set_status_def upd_tcb_def)
qed

lemma update_prefix:
  "length xs = n \<Longrightarrow> length ys = n \<Longrightarrow> j < n \<Longrightarrow> (take j xs @ drop j ys)[j := xs ! j] = take (Suc j) xs @ drop (Suc j) ys"
  by (rule nth_equalityI) (auto simp: nth_append nth_list_update min_def less_Suc_eq)

lemma put_tcb_access [simp]:
  "sos (put_tcb t r m) = (sos m)\<lparr>threads := (threads (sos m))(t \<mapsto> r)\<rparr>" "level (put_tcb t r m) = level m"
  "registers (dev (put_tcb t r m)) = registers (dev m)" "pageTable (dev (put_tcb t r m)) = pageTable (dev m)"
  "put_tcb t r' (put_tcb t r m) = put_tcb t r' m"
  by (simp_all add: put_tcb_def)

lemma put_tcb_same: "threads (sos m) t = Some r \<Longrightarrow> put_tcb t r m = m"
  by (simp add: put_tcb_def put_sys_def map_upd_triv)

lemma SaveUserState_view:
  assumes "threads (sos m) t = Some r" "length (userRegisters r) = NumTotalRegs" "length (registers (dev m)) = NumTotalRegs"
  shows "SaveUserState t m = Inr (put_tcb t (r\<lparr>userRegisters := registers (dev m)\<rparr>) m)"
proof -
  let ?s = "\<lambda>i. put_tcb t (r\<lparr>userRegisters := take i (registers (dev m)) @ drop i (userRegisters r)\<rparr>) m"
  have "\<exists>s. SaveUserState t m = Inr s \<and> s = ?s (0 + NumTotalRegs)"
    unfolding SaveUserState_def
  proof (rule forR_invariant [where P = "\<lambda>i s. s = ?s i"])
    show "m = ?s 0" using assms(1) by (simp add: put_tcb_same)
    fix j s
    assume "0 \<le> j" "j < 0 + NumTotalRegs" "s = ?s j"
    then show "\<exists>s'. upd_tcb t (\<lambda>r. bindR (Machine_ReadRegister (int j) s) (\<lambda>v.
        Inr (r\<lparr>userRegisters := (userRegisters r)[j := v]\<rparr>))) s = Inr s' \<and> s' = ?s (Suc j)"
      using assms by (simp add: upd_tcb_def Machine_ReadRegister_def reg_def update_prefix)
  qed
  then show ?thesis using assms(2,3) by simp
qed

lemma RestoreUserState_view:
  assumes "threads (sos m) t = Some r" "length (userRegisters r) = NumTotalRegs" "length (registers (dev m)) = NumTotalRegs"
  shows "RestoreUserState t m = Inr (m\<lparr>dev := (dev m)\<lparr>registers := userRegisters r\<rparr>\<rparr>)"
proof -
  let ?s = "\<lambda>i. m\<lparr>dev := (dev m)\<lparr>registers := take i (userRegisters r) @ drop i (registers (dev m))\<rparr>\<rparr>"
  have "\<exists>s. RestoreUserState t m = Inr s \<and> s = ?s (0 + NumTotalRegs)"
    unfolding RestoreUserState_def
  proof (rule forR_invariant [where P = "\<lambda>i s. s = ?s i"])
    fix j s
    assume "0 \<le> j" "j < 0 + NumTotalRegs" "s = ?s j"
    then show "\<exists>s'. bindR (live (threads (sos s) t)) (\<lambda>r. Machine_WriteRegister (int j) (userRegisters r ! j) s) = Inr s'
        \<and> s' = ?s (Suc j)"
      using assms by (simp add: Machine_WriteRegister_def set_reg_def update_prefix)
  qed simp
  then show ?thesis using assms(2,3) by simp
qed

lemma Run_view:
  assumes "view T m a" "cur a \<in> T" "n \<in> T"
  shows "\<exists>m'. Run n False m = Inr m' \<and> view T m' (a\<lparr>cur := n, pl := (pl a)(n := OnCPU)\<rparr>)"
proof -
  note v = viewD [OF assms(1)]
  from view_thread [OF assms(1,2)] obtain r where
    r: "threads (sos m) (cur a) = Some r" "tcb_ok r" "state_ok (pl a (cur a)) (status r)" by blast
  let ?sp = "case (space r, pageTable (dev m)) of (Some (pt, n), Some pt') \<Rightarrow> Some (pt', n) | (s, _) \<Rightarrow> s"
  obtain r' where r': "(if space r \<noteq> None then bindR (SaveUserState (cur a) m) (SaveState (cur a)) else Inr m)
      = Inr (put_tcb (cur a) r' m)" "tcb_ok r'" "state_ok (pl a (cur a)) (status r')"
  proof (cases "space r = None")
    case True
    with r that [of r] show ?thesis by (simp add: put_tcb_same)
  next
    case False
    with SaveUserState_view [OF r(1) _ v(2)] r v(2)
      that [of "r\<lparr>userRegisters := registers (dev m), space := ?sp\<rparr>"] show ?thesis
      by (simp add: tcb_ok_def CheckOverflow_def SaveState_def upd_tcb_def)
  qed
  let ?m = "put_sys (\<lambda>k. k\<lparr>currentThread := n\<rparr>) (put_tcb (cur a) r' m)"
  have "view T (put_tcb (cur a) r' m) a"
    by (rule view_update_tcb [OF assms(1)]) (use r' in simp)
  from view_put_cur [OF this, of n] have w: "view T ?m (a\<lparr>cur := n\<rparr>)" .
  from view_thread [OF w assms(3)] obtain s where s: "threads (sos ?m) n = Some s" "tcb_ok s" by blast
  have "view T (put_tcb n (s\<lparr>status := RUNNING\<rparr>) ?m) (a\<lparr>cur := n, pl := (pl a)(n := OnCPU)\<rparr>)"
    using view_put_tcb [OF w, of "s\<lparr>status := RUNNING\<rparr>" OnCPU n] s(2)
    by (simp add: tcb_ok_def CheckOverflow_def state_ok_def)
  moreover have "Run n False m = Inr (put_tcb n (s\<lparr>status := RUNNING\<rparr>) ?m)"
    using v(1,4) r(1) r' s(1) by (simp add: Run_def Let_def tcb_ok_def set_status_def upd_tcb_def)
  ultimately show ?thesis by blast
qed

text \<open>Getting the CPU back changes only the machine.\<close>

lemma Run_resumed_view:
  assumes "view T m a" "cur a \<in> T"
  shows "\<exists>m'. Run_resumed (cur a) m = Inr m' \<and> view T m' a"
proof -
  note v = viewD [OF assms(1)]
  from view_thread [OF assms] obtain r where r: "threads (sos m) (cur a) = Some r" "tcb_ok r" by blast
  show ?thesis
  proof (cases "space r")
    case None
    then show ?thesis using assms(1) v r by (simp add: Run_resumed_def CheckToBeDestroyed_def)
  next
    case (Some s)
    have ur: "length (userRegisters r) = NumTotalRegs" using r(2) by (simp add: tcb_ok_def)
    have "view T (RestoreState s (m\<lparr>dev := (dev m)\<lparr>registers := userRegisters r\<rparr>\<rparr>)) a"
      using assms(1) ur by (simp add: view_def RestoreState_def)
    then show ?thesis using Some v r RestoreUserState_view [OF r(1) ur v(2)]
      by (simp add: Run_resumed_def CheckToBeDestroyed_def)
  qed
qed

lemma SetLevel_same: "level m = IntOff \<Longrightarrow> Interrupt_SetLevel h IntOff m = Inr (IntOff, m)"
  by (cases m) (simp add: SetLevel_off)

text \<open>\<^verbatim>\<open>V\<close>: one more, and the first sleeper is ready.\<close>

definition wake :: "nat \<Rightarrow> mon \<Rightarrow> mon" where
  "wake s a = (case sem a s of None \<Rightarrow> a
     | Some (v, []) \<Rightarrow> a\<lparr>sem := (sem a)(s \<mapsto> (v + 1, []))\<rparr>
     | Some (v, t # q) \<Rightarrow> a\<lparr>pl := (pl a)(t := Ready), rdy := rdy a @ [t], sem := (sem a)(s \<mapsto> (v + 1, q))\<rparr>)"

text \<open>The current thread falls asleep.\<close>

definition doze :: "nat \<Rightarrow> mon \<Rightarrow> mon" where
  "doze s a = (case sem a s of None \<Rightarrow> a
     | Some (v, q) \<Rightarrow> a\<lparr>sem := (sem a)(s \<mapsto> (v, q @ [cur a])), pl := (pl a)(cur a := Asleep s)\<rparr>)"

text \<open>The first ready thread gets the CPU.\<close>

definition dispatch :: "mon \<Rightarrow> mon" where
  "dispatch a = a\<lparr>rdy := tl (rdy a), cur := hd (rdy a), pl := (pl a)(hd (rdy a) := OnCPU)\<rparr>"

definition rotated :: "mon \<Rightarrow> mon" where
  "rotated a = a\<lparr>rdy := tl (rdy a) @ [cur a], cur := hd (rdy a), pl := (pl a)(cur a := Ready, hd (rdy a) := OnCPU)\<rparr>"

lemma V_view:
  assumes "view T m a" "placed T a" "sem a s = Some (v, q)"
  shows "\<exists>m'. Semaphore_V h s m = (if int_fits (v + 1) then Inr m' else Inl SignedOverflow) \<and> view T m' (wake s a)"
proof -
  note w = viewD [OF assms(1)]
  from view_sem [OF assms(1,3)] obtain x where
    x: "semaphores (sos m) s = Some x" "val x = v" "list_repr (sleepers x) q" by blast
  show ?thesis
  proof (cases q)
    case Nil
    with x list_repr_empty [OF x(3)] view_put_sem [OF assms(1), of "x\<lparr>val := v + 1\<rparr>" "[]" s] w(1) assms(3)
    show ?thesis
      by (intro exI [of _ "put_sem s (x\<lparr>val := v + 1\<rparr>) m"])
         (simp add: Semaphore_V_def SetLevel_same wake_def put_sem_def addR_def)
  next
    case (Cons t ts)
    from RemoveFront_ok [OF x(3) [unfolded Cons]] obtain l where
      l: "List_RemoveFront (sleepers x) = Inr (t, l)" "list_repr l ts" by blast
    let ?m = "put_sem s (x\<lparr>sleepers := l\<rparr>) m" and ?a = "a\<lparr>sem := (sem a)(s \<mapsto> (v, ts))\<rparr>"
    have v1: "view T ?m ?a" using view_put_sem [OF assms(1), of "x\<lparr>sleepers := l\<rparr>" ts s] l(2) x(2) by simp
    have t: "t \<in> T" "t \<notin> set (rdy ?a)" using placedD(3) [OF assms(2,3), of t] placedD(2) [OF assms(2), of t] Cons by auto
    from ReadyToRun_view [OF v1 t] obtain m2 where
      m2: "ReadyToRun t ?m = Inr m2" "view T m2 (?a\<lparr>pl := (pl ?a)(t := Ready), rdy := rdy ?a @ [t]\<rparr>)" by blast
    from view_sem [OF m2(2), of s v ts] obtain y where
      y: "semaphores (sos m2) s = Some y" "val y = v" "list_repr (sleepers y) ts" by auto
    have "view T (put_sem s (y\<lparr>val := v + 1\<rparr>) m2) (wake s a)"
      using view_put_sem [OF m2(2), of "y\<lparr>val := v + 1\<rparr>" ts s] y(3) assms(3) Cons
      by (cases a) (simp add: wake_def)
    then show ?thesis
      using x list_repr_empty [OF x(3)] l m2 y w(1) viewD(1) [OF m2(2)] Cons
      by (intro exI [of _ "put_sem s (y\<lparr>val := v + 1\<rparr>) m2"]) (simp add: Semaphore_V_def put_sem_def SetLevel_same addR_def)
  qed
qed

lemma wake_frame [simp]: "cur (wake s a) = cur a" "fresh (wake s a) = fresh a" "lk (wake s a) = lk a" "wq (wake s a) = wq a"
  by (auto simp: wake_def split: option.split list.split)

lemma placed_wake:
  assumes "placed T a" "distinct q" "sem a s = Some (v, q)"
  shows "placed T (wake s a)"
proof (cases q)
  case Nil
  show ?thesis
    using assms(1,3) Nil placedD(3) [OF assms(1,3)] unfolding placed_def by (simp add: wake_def)
next
  case (Cons t ts)
  note q = placedD(3) [OF assms(1,3), unfolded Cons]
  have t: "t \<in> T" "pl a t = Asleep s" "t \<notin> set ts" using q [of t] assms(2) Cons by simp_all
  have w: "wake s a = a\<lparr>pl := (pl a)(t := Ready), rdy := rdy a @ [t], sem := (sem a)(s \<mapsto> (v + 1, ts))\<rparr>"
    using assms(3) Cons by (simp add: wake_def)
  have ts: "u \<in> set ts \<longleftrightarrow> u \<noteq> t \<and> u \<in> T \<and> pl a u = Asleep s" for u
    using q [of u] t(3) by auto
  show ?thesis unfolding w
  proof (rule placedI, goal_cases)
    case 1
    show ?case using placedD(1) [OF assms(1)] t by simp
  next
    case (2 u)
    show ?case using placedD(2) [OF assms(1), of u] t by auto
  next
    case (4 u)
    then show ?case using placedD(4) [OF assms(1), of u] t by (auto split: if_splits)
  next
    case (5 u s')
    then show ?case using placedD(5) [OF assms(1), of u s'] t by (auto split: if_splits)
  next
    case (3 s' v' q' u)
    then show ?case using t ts [of u] placedD(3) [OF assms(1), of s' v' q' u] by (auto split: if_splits)
  qed
qed

lemma placed_doze:
  assumes "placed T a" "pl a (cur a) = OnCPU" "sem a s = Some (v, q)"
  shows "placed T (doze s a)"
proof -
  have d: "doze s a = a\<lparr>sem := (sem a)(s \<mapsto> (v, q @ [cur a])), pl := (pl a)(cur a := Asleep s)\<rparr>"
    using assms(3) by (simp add: doze_def)
  show ?thesis unfolding d
  proof (rule placedI, goal_cases)
    case 1
    show ?case using placedD(1) [OF assms(1)] assms(2,3) by simp
  next
    case (2 u)
    show ?case using placedD(2) [OF assms(1), of u] assms(2,3) by auto
  next
    case (4 u)
    then show ?case using placedD(4) [OF assms(1), of u] assms(2,3) by (auto split: if_splits)
  next
    case (5 u s')
    then show ?case using placedD(5) [OF assms(1), of u s'] assms(2,3) by (auto split: if_splits)
  next
    case (3 s' v' q' u)
    then show ?case
      using assms(2) placedD(1) [OF assms(1)] placedD(3) [OF assms(1), of s' v' q' u] placedD(3) [OF assms(1,3), of u]
      by (auto split: if_splits)
  qed
qed

lemma placed_dispatch:
  assumes "placed T a" "pl a (cur a) \<noteq> OnCPU" "distinct (rdy a)" "rdy a = n # r"
  shows "placed T (dispatch a)"
proof -
  note q = placedD(2) [OF assms(1), unfolded assms(4)]
  have n: "n \<in> T" "pl a n = Ready" "n \<notin> set r" using q [of n] assms(3,4) by simp_all
  have r: "u \<in> set r \<longleftrightarrow> u \<noteq> n \<and> u \<in> T \<and> pl a u = Ready" for u using q [of u] n(3) by auto
  show ?thesis unfolding dispatch_def assms(4)
  proof (rule placedI, goal_cases)
    case 1
    show ?case using placedD(1) [OF assms(1)] n assms(2) by simp
  next
    case (2 u)
    show ?case using r [of u] placedD(1) [OF assms(1)] n assms(2) by auto
  next
    case (4 u)
    then show ?case using placedD(4) [OF assms(1), of u] n assms(2) by (auto split: if_splits)
  next
    case (5 u s')
    then show ?case using placedD(5) [OF assms(1), of u s'] n assms(2) by (auto split: if_splits)
  next
    case (3 s' v' q' u)
    then show ?case using n placedD(3) [OF assms(1), of s' v' q' u] by auto
  qed
qed

lemma placed_rotated:
  assumes "placed T a" "pl a (cur a) = OnCPU" "distinct (rdy a)" "rdy a = n # r"
  shows "placed T (rotated a)"
proof -
  note q = placedD(2) [OF assms(1), unfolded assms(4)]
  have n: "n \<in> T" "pl a n = Ready" "n \<notin> set r" using q [of n] assms(3,4) by simp_all
  have r: "u \<in> set r \<longleftrightarrow> u \<noteq> n \<and> u \<in> T \<and> pl a u = Ready" for u using q [of u] n(3) by auto
  show ?thesis unfolding rotated_def assms(4)
  proof (rule placedI, goal_cases)
    case 1
    show ?case using placedD(1) [OF assms(1)] n assms(2) by simp
  next
    case (2 u)
    show ?case using r [of u] placedD(1) [OF assms(1)] n assms(2) by auto
  next
    case (4 u)
    then show ?case using placedD(4) [OF assms(1), of u] n assms(2) by (auto split: if_splits)
  next
    case (5 u s')
    then show ?case using placedD(5) [OF assms(1), of u s'] n assms(2) by (auto split: if_splits)
  next
    case (3 s' v' q' u)
    then show ?case using n assms(2) placedD(3) [OF assms(1), of s' v' q' u] by auto
  qed
qed

lemma view_distinct: "view T m a \<Longrightarrow> distinct (rdy a)" "view T m a \<Longrightarrow> sem a s = Some (v, q) \<Longrightarrow> distinct q"
  "view T m a \<Longrightarrow> wq a c = Some ws \<Longrightarrow> distinct ws"
  by (blast intro: list_repr_distinct viewD(5)) (blast dest: view_sem view_cond intro: list_repr_distinct)+

lemma rdy_running: "placed T a \<Longrightarrow> pl a (cur a) = OnCPU \<Longrightarrow> cur a \<notin> set (rdy a)"
  by (simp add: placed_def)

lemma dispatch_view:
  assumes "view T m a" "placed T a" "rdy a = n # r"
  shows "\<exists>m1 m2. FindNextToRun m = Inr (Some n, m1) \<and> Run n False m1 = Inr m2 \<and> view T m2 (dispatch a)"
proof -
  have n: "cur a \<in> T" "n \<in> T" using placedD(1) [OF assms(2)] placedD(2) [OF assms(2), of n] assms(3) by simp_all
  from FindNextToRun_view(2) [OF assms(1,3)] obtain m1 where
    m1: "FindNextToRun m = Inr (Some n, m1)" "view T m1 (a\<lparr>rdy := r\<rparr>)" by blast
  from Run_view [OF m1(2)] n obtain m2 where
    "Run n False m1 = Inr m2" "view T m2 (a\<lparr>rdy := r, cur := n, pl := (pl a)(n := OnCPU)\<rparr>)" by auto
  with m1(1) assms(3) show ?thesis by (simp add: dispatch_def)
qed

lemma Yield_view:
  assumes "view T m a" "placed T a" "pl a (cur a) = OnCPU"
  shows "rdy a = [] \<Longrightarrow> Yield h (cur a) m = Inr (Stays m)"
    "rdy a = n # r \<Longrightarrow> \<exists>m'. Yield h (cur a) m = Inr (Switches n m') \<and> view T m' (rotated a)"
proof -
  note w = viewD [OF assms(1)]
  show "rdy a = [] \<Longrightarrow> Yield h (cur a) m = Inr (Stays m)"
    using w FindNextToRun_view(1) [OF assms(1)] by (simp add: Yield_def SetLevel_same)
  assume r: "rdy a = n # r"
  have t: "cur a \<in> T" "cur a \<notin> set r" "n \<in> T" using placedD(1) [OF assms(2)] placedD(2) [OF assms(2), of n] r rdy_running [OF assms(2,3)] by simp_all
  from FindNextToRun_view(2) [OF assms(1) r] obtain m1 where
    m1: "FindNextToRun m = Inr (Some n, m1)" "view T m1 (a\<lparr>rdy := r\<rparr>)" by blast
  from ReadyToRun_view [OF m1(2) t(1)] t(2) obtain m2 where
    m2: "ReadyToRun (cur a) m1 = Inr m2" "view T m2 (a\<lparr>rdy := r, pl := (pl a)(cur a := Ready), rdy := r @ [cur a]\<rparr>)"
    by auto
  from Run_view [OF m2(2)] t obtain m3 where
    m3: "Run n False m2 = Inr m3"
      "view T m3 (a\<lparr>rdy := r, pl := (pl a)(cur a := Ready), rdy := r @ [cur a], cur := n,
        pl := (pl a)(cur a := Ready, n := OnCPU)\<rparr>)" by auto
  then have "view T m3 (rotated a)" using r by (cases a) (simp add: rotated_def)
  with w m1(1) m2(1) m3(1) show "\<exists>m'. Yield h (cur a) m = Inr (Switches n m') \<and> view T m' (rotated a)"
    by (simp add: Yield_def SetLevel_same)
qed

subsection \<open>Consistent places\<close>

definition sane :: "nat set \<Rightarrow> mon \<Rightarrow> bool" where
  "sane T a \<longleftrightarrow> placed T a \<and> distinct (rdy a) \<and> (\<forall>s v q. sem a s = Some (v, q) \<longrightarrow> distinct q)"

lemma saneD:
  assumes "sane T a"
  shows "placed T a" "distinct (rdy a)" "sem a s = Some (v, q) \<Longrightarrow> distinct q"
  using assms by (auto simp: sane_def)

lemma sane_view: "view T m a \<Longrightarrow> placed T a \<Longrightarrow> sane T a"
  using view_distinct by (fastforce simp: sane_def)

lemma sane_wake:
  assumes "sane T a"
  shows "sane T (wake s a)"
proof (cases "sem a s")
  case None
  then show ?thesis using assms by (simp add: wake_def)
next
  case (Some x)
  obtain v q where x: "sem a s = Some (v, q)" using Some by (cases x) simp
  note p = placed_wake [OF saneD(1) [OF assms] saneD(3) [OF assms x] x]
  have "t \<notin> set (rdy a)" if "t \<in> set q" for t
    using placedD(2,3) [OF saneD(1) [OF assms]] x that by auto
  then show ?thesis
    using p saneD(2) [OF assms] saneD(3) [OF assms x] saneD(3) [OF assms] x
    by (cases q) (auto simp: sane_def wake_def split: if_splits)
qed

lemma sane_doze:
  assumes "sane T a" "pl a (cur a) = OnCPU" "sem a s = Some (v, q)"
  shows "sane T (doze s a)"
proof -
  have "cur a \<notin> set q" using placedD(3) [OF saneD(1) [OF assms(1)] assms(3), of "cur a"] assms(2) by simp
  then show ?thesis
    using placed_doze [OF saneD(1) [OF assms(1)] assms(2,3)] saneD(2) [OF assms(1)] saneD(3) [OF assms(1)] assms(3)
    by (auto simp: sane_def doze_def split: if_splits)
qed

definition wakes :: "nat list \<Rightarrow> mon \<Rightarrow> mon" where
  "wakes ss = fold wake ss"

lemma wakes_simps [simp]: "wakes [] a = a" "wakes (s # ss) a = wakes ss (wake s a)" "wakes (ss @ us) a = wakes us (wakes ss a)"
  by (simp_all add: wakes_def)

lemma sane_wakes: "sane T a \<Longrightarrow> sane T (wakes ss a)"
  by (induction ss arbitrary: a) (simp_all add: sane_wake)

lemma wakes_frame [simp]: "cur (wakes ss a) = cur a" "fresh (wakes ss a) = fresh a" "lk (wakes ss a) = lk a" "wq (wakes ss a) = wq a"
  by (induction ss arbitrary: a) simp_all

lemma wake_places: "pl (wake s a) t = pl a t \<or> pl (wake s a) t = Ready"
  by (auto simp: wake_def split: option.split list.split)

lemma wakes_off: "pl a t \<noteq> OnCPU \<Longrightarrow> pl (wakes ss a) t \<noteq> OnCPU"
proof (induction ss arbitrary: a)
  case (Cons s ss)
  have "pl (wake s a) t \<noteq> OnCPU" using wake_places [of s a t] Cons.prems by (elim disjE) simp_all
  from Cons.IH [OF this] show ?case by simp
qed simp

subsection \<open>Waiting\<close>

text \<open>
  What the kernel relies on while it idles: interrupt handlers do nothing to threads, semaphores, locks and
  conditions but call \<^verbatim>\<open>V\<close> on semaphores in \<open>C\<close>, and leave the interrupts disabled.
\<close>

definition handlers_signal :: "nat set \<Rightarrow> Sys CPU hooks \<Rightarrow> bool" where
  "handlers_signal C h \<longleftrightarrow> (\<forall>m m' T a. Interrupt_Idle h m = Inr m' \<longrightarrow> view T m a \<longrightarrow> sane T a \<longrightarrow>
     (\<exists>ss. set ss \<subseteq> C \<and> view T m' (wakes ss a)))"

lemma idle_loop_view:
  assumes "handlers_signal C h" "view T m a" "sane T a" "idle_loop k h m = Inr (n, m')"
  shows "\<exists>ss m1 r. set ss \<subseteq> C \<and> view T m1 (wakes ss a) \<and> FindNextToRun m1 = Inr (Some n, m') \<and> rdy (wakes ss a) = n # r"
  using assms(2-4)
proof (induction k arbitrary: m a)
  case (Suc k)
  note f = FindNextToRun_view [OF Suc.prems(1)]
  show ?case
  proof (cases "rdy a")
    case Nil
    with f(1) Suc.prems(3) obtain m2 where
      m2: "Interrupt_Idle h (PrepareToEnd m) = Inr m2" "idle_loop k h m2 = Inr (n, m')" by (auto simp: bindR_eq_Inr)
    from assms(1) m2(1) view_PrepareToEnd [OF Suc.prems(1)] Suc.prems(2) obtain ss where
      ss: "set ss \<subseteq> C" "view T m2 (wakes ss a)" unfolding handlers_signal_def by blast
    from Suc.IH [OF ss(2) sane_wakes [OF Suc.prems(2)] m2(2)] obtain us m1 r where
      "set us \<subseteq> C" "view T m1 (wakes (ss @ us) a)" "FindNextToRun m1 = Inr (Some n, m')" "rdy (wakes (ss @ us) a) = n # r"
      by auto
    with ss(1) show ?thesis by (intro exI [of _ "ss @ us"]) auto
  next
    case (Cons t r)
    from f(2) [OF this] obtain m1 where m1: "FindNextToRun m = Inr (Some t, m1)" by blast
    then have "n = t" "m' = m1" using Suc.prems(3) by simp_all
    with m1 Suc.prems(1) Cons show ?thesis by (intro exI [of _ "[]"]) auto
  qed
qed simp

text \<open>\<^verbatim>\<open>P\<close> on a semaphore that is 0: the caller sleeps, and the CPU goes to another thread.\<close>

lemma P_doze:
  assumes "view T m a" "sane T a" "pl a (cur a) = OnCPU" "sem a s = Some (0, q)"
  shows "\<exists>m1. view T m1 (doze s a) \<and> Semaphore_P rounds h s m =
    bindR (idle_loop rounds h m1) (\<lambda>(n, m). bindR (Run n False m) (\<lambda>m. Inr (Switches n m)))"
proof -
  note w = viewD [OF assms(1)]
  let ?t = "cur a"
  from view_sem [OF assms(1,4)] obtain x where
    x: "semaphores (sos m) s = Some x" "val x = 0" "list_repr (sleepers x) q" by blast
  have t: "?t \<in> T" "?t \<notin> set q" using placedD(1) [OF saneD(1) [OF assms(2)]]
      placedD(3) [OF saneD(1) [OF assms(2)] assms(4), of ?t] assms(3) by simp_all
  from Append_ok [OF x(3) t(2)] obtain l where l: "List_Append (sleepers x) ?t = Inr l" "list_repr l (q @ [?t])" by blast
  from view_thread [OF assms(1) t(1)] obtain r where r: "threads (sos m) ?t = Some r" "tcb_ok r" by blast
  let ?m1 = "put_sem s (x\<lparr>sleepers := l\<rparr>) m"
  let ?m2 = "put_tcb ?t (r\<lparr>status := BLOCKED\<rparr>) ?m1"
  have "view T ?m1 (a\<lparr>sem := (sem a)(s \<mapsto> (0, q @ [?t]))\<rparr>)"
    using view_put_sem [OF assms(1), of "x\<lparr>sleepers := l\<rparr>" "q @ [?t]" s] l(2) x(2) by simp
  from view_put_tcb [OF this, of "r\<lparr>status := BLOCKED\<rparr>" "Asleep s" ?t] r(2) assms(4)
  have "view T ?m2 (doze s a)" by (simp add: tcb_ok_def CheckOverflow_def state_ok_def doze_def)
  moreover have "P_loop rounds h s ?t m =
      bindR (idle_loop rounds h ?m2) (\<lambda>(n, m). bindR (Run n False m) (\<lambda>m. Inr (Switches n m)))"
    using x l(1) r(1) w(1,4) by (simp add: P_loop_def Sleep_def set_status_def upd_tcb_def put_sem_def)
  then have "Semaphore_P rounds h s m =
      bindR (idle_loop rounds h ?m2) (\<lambda>(n, m). bindR (Run n False m) (\<lambda>m. Inr (Switches n m)))"
    using w(1,4) by (simp add: Semaphore_P_def SetLevel_same bindR_assoc case_prod_beta' P_end_def)
  ultimately show ?thesis by blast
qed

lemma P_sleeps:
  assumes "view T m a" "sane T a" "pl a (cur a) = OnCPU" "sem a s = Some (0, q)" "rdy a = n # r"
  shows "\<exists>m'. Semaphore_P (Suc k) h s m = Inr (Switches n m') \<and> view T m' (dispatch (doze s a))"
proof -
  from P_doze [OF assms(1-4), of "Suc k" h] obtain m1 where m1: "view T m1 (doze s a)" "Semaphore_P (Suc k) h s m =
    bindR (idle_loop (Suc k) h m1) (\<lambda>(n, m). bindR (Run n False m) (\<lambda>m. Inr (Switches n m)))" by blast
  have "rdy (doze s a) = n # r" using assms(4,5) by (simp add: doze_def)
  from dispatch_view [OF m1(1) saneD(1) [OF sane_doze [OF assms(2-4)]] this] m1(2) show ?thesis by auto
qed

lemma P_view:
  assumes "handlers_signal C h" "view T m a" "sane T a" "pl a (cur a) = OnCPU" "sem a s = Some (v, q)"
    "Semaphore_P rounds h s m = Inr c"
  shows "v \<noteq> 0 \<Longrightarrow> \<exists>m'. c = Stays m' \<and> view T m' (a\<lparr>sem := (sem a)(s \<mapsto> (v - 1, q))\<rparr>)"
    "v = 0 \<Longrightarrow> \<exists>n m' ss b. c = Switches n m' \<and> set ss \<subseteq> C \<and> b = wakes ss (doze s a) \<and> rdy b \<noteq> []
       \<and> view T m' (dispatch b)"
proof -
  note w = viewD [OF assms(2)]
  from view_sem [OF assms(2,5)] obtain x where
    x: "semaphores (sos m) s = Some x" "val x = v" "list_repr (sleepers x) q" by blast
  show "\<exists>m'. c = Stays m' \<and> view T m' (a\<lparr>sem := (sem a)(s \<mapsto> (v - 1, q))\<rparr>)" if v: "v \<noteq> 0"
  proof -
    from assms(6) v x obtain k where k: "addR v (- 1) = Inr k" "c = Stays (put_sem s (x\<lparr>val := k\<rparr>) m)"
      using w(1,4) by (auto simp: Semaphore_P_def P_loop_def P_end_def bindR_eq_Inr SetLevel_same put_sem_def)
    then show ?thesis
      using view_put_sem [OF assms(2), of "x\<lparr>val := k\<rparr>" q s] x(3) by (simp add: addR_eq_Inr)
  qed
  assume v: "v = 0"
  note s0 = assms(5) [unfolded v]
  from P_doze [OF assms(2-4) s0, of rounds h] obtain m2 where v2: "view T m2 (doze s a)" "Semaphore_P rounds h s m =
    bindR (idle_loop rounds h m2) (\<lambda>(n, m). bindR (Run n False m) (\<lambda>m. Inr (Switches n m)))" by blast
  from assms(6) obtain n m3 m4 where
    n: "idle_loop rounds h m2 = Inr (n, m3)" "Run n False m3 = Inr m4" "c = Switches n m4"
    unfolding v2(2) by (auto simp: bindR_eq_Inr split: prod.splits)
  note sd = sane_doze [OF assms(3-5)]
  from idle_loop_view [OF assms(1) v2(1) sd n(1)] obtain ss m5 rs where
    ss: "set ss \<subseteq> C" "view T m5 (wakes ss (doze s a))" "FindNextToRun m5 = Inr (Some n, m3)"
      "rdy (wakes ss (doze s a)) = n # rs" by blast
  from dispatch_view [OF ss(2) saneD(1) [OF sane_wakes [OF sd]] ss(4)] ss(3) n(2)
  have "view T m4 (dispatch (wakes ss (doze s a)))" by simp
  with n(3) ss(1,4) show "\<exists>n m' ss b. c = Switches n m' \<and> set ss \<subseteq> C \<and> b = wakes ss (doze s a) \<and> rdy b \<noteq> []
       \<and> view T m' (dispatch b)" by auto
qed

end
