(* ===== verification/Monitors.thy ===== *)
theory Monitors
  imports Synch
begin

text \<open>
  Any number of threads that call the routines of \<^verbatim>\<open>threads/synch.cc\<close> in any order, preempted anywhere. What
  a thread has still to do in the kernel is a list of fragments, the pieces of the routines between the
  points where the CPU can change hands; \<open>kstep\<close> runs the fragments on the model of the
  kernel. The abstract machine \<open>astep\<close> does the same on sequences; the invariants are shown for it
  and carried over to the kernel.
\<close>

subsection \<open>Fragments of the routines\<close>

datatype frag =
    Resume
  | P nat
  | V nat
  | Acquire nat
  | Grant nat
  | Release nat
  | Wait nat nat
  | Signal nat nat
  | Broadcast nat nat
  | Destroy nat

type_synonym todo = "nat \<Rightarrow> frag list"

text \<open>
  Running a fragment gives the fragments that come next in the routine. A thread that sleeps in \<^verbatim>\<open>P\<close> runs the rest of
  \<^verbatim>\<open>Scheduler::Run\<close> and the loop of \<^verbatim>\<open>P\<close> again when it has the CPU back.
\<close>

definition stays :: "frag list \<Rightarrow> sys res \<Rightarrow> (frag list \<times> sys) res" where
  "stays fs r = bindR r (\<lambda>m. Inr (fs, m))"

definition sleeping :: "frag \<Rightarrow> frag list \<Rightarrow> sys control res \<Rightarrow> (frag list \<times> sys) res" where
  "sleeping f fs r = bindR r (\<lambda>c. Inr (case c of Stays m \<Rightarrow> (fs, m) | Switches n m \<Rightarrow> ([Resume, f], m)))"

fun exec :: "nat \<Rightarrow> Sys CPU hooks \<Rightarrow> frag \<Rightarrow> sys \<Rightarrow> (frag list \<times> sys) res" where
  "exec rounds h Resume m = stays [] (Run_resumed (currentThread (sos m)) m)"
| "exec rounds h (P s) m = sleeping (P s) [] (Semaphore_P rounds h s m)"
| "exec rounds h (V s) m = stays [] (Semaphore_V h s m)"
| "exec rounds h (Acquire l) m = sleeping (Acquire l) [Grant l] (Lock_Acquire rounds h l m)"
| "exec rounds h (Grant l) m = stays [] (Lock_Acquire_granted l m)"
| "exec rounds h (Release l) m = stays [] (Lock_Release h l m)"
| "exec rounds h (Wait c l) m = bindR (Condition_Wait_enter c l m) (\<lambda>(waiter, m).
     Inr ([Release l, P waiter, Acquire l, Destroy waiter], m))"
| "exec rounds h (Signal c l) m = stays [] (Condition_Signal h c l m)"
| "exec rounds h (Broadcast c l) m = bindR (Condition_Broadcast_test c m) (\<lambda>more.
     Inr (if more then [Signal c l, Broadcast c l] else [], m))"
| "exec rounds h (Destroy s) m = stays [] (Semaphore_delete s m)"

text \<open>The routines a thread may call: \<^verbatim>\<open>P\<close> and \<^verbatim>\<open>V\<close> directly only on the semaphores in \<open>C\<close>, which no lock or condition uses.\<close>

definition calls :: "nat set \<Rightarrow> frag set" where
  "calls C = {P s |s. s \<in> C} \<union> {V s |s. s \<in> C} \<union> range Acquire \<union> range Release
     \<union> {Wait c l |c l. True} \<union> {Signal c l |c l. True} \<union> {Broadcast c l |c l. True}"

text \<open>
  The steps of the system: the running thread runs a fragment, calls a routine, or is preempted by the timer
  (which makes it yield); an interrupt handler signals a semaphore.
\<close>

inductive kstep :: "nat \<Rightarrow> Sys CPU hooks \<Rightarrow> nat set \<Rightarrow> sys \<times> todo \<Rightarrow> sys \<times> todo \<Rightarrow> bool"
  for rounds h C where
  run: "t = currentThread (sos m) \<Longrightarrow> todo t = f # fs \<Longrightarrow> exec rounds h f m = Inr (gs, m') \<Longrightarrow>
     kstep rounds h C (m, todo) (m', todo(t := gs @ fs))"
| call: "t = currentThread (sos m) \<Longrightarrow> todo t = [] \<Longrightarrow> f \<in> calls C \<Longrightarrow>
     kstep rounds h C (m, todo) (m, todo(t := [f]))"
| preempt: "t = currentThread (sos m) \<Longrightarrow> Yield h t m = Inr (Switches n m') \<Longrightarrow>
     kstep rounds h C (m, todo) (m', todo(t := Resume # todo t))"
| interrupt: "s \<in> C \<Longrightarrow> Semaphore_V h s m = Inr m' \<Longrightarrow> kstep rounds h C (m, todo) (m', todo)"

subsection \<open>The abstract machine\<close>

definition waits_on :: "mon \<Rightarrow> frag \<Rightarrow> nat \<Rightarrow> bool" where
  "waits_on a f s \<longleftrightarrow> f = P s \<or> (\<exists>l. f = Acquire l \<and> (\<exists>h. lk a l = Some (h, s)))"

text \<open>What follows when a fragment has taken its semaphore.\<close>

fun granted :: "frag \<Rightarrow> frag list" where
  "granted (Acquire l) = [Grant l]"
| "granted f = []"

definition silent :: "frag \<Rightarrow> frag list \<Rightarrow> bool" where
  "silent f gs \<longleftrightarrow> f = Resume \<and> gs = [] \<or> (\<exists>c l. f = Signal c l \<and> gs = [])
     \<or> (\<exists>c l. f = Broadcast c l \<and> (gs = [] \<or> gs = [Signal c l, Broadcast c l]))"

inductive astep :: "nat set \<Rightarrow> mon \<times> todo \<Rightarrow> mon \<times> todo \<Rightarrow> bool" for C where
  a_silent: "pl a (cur a) = OnCPU \<Longrightarrow> todo (cur a) = f # fs \<Longrightarrow> silent f gs \<Longrightarrow>
     astep C (a, todo) (a, todo(cur a := gs @ fs))"
| a_call: "pl a (cur a) = OnCPU \<Longrightarrow> todo (cur a) = [] \<Longrightarrow> f \<in> calls C \<Longrightarrow> astep C (a, todo) (a, todo(cur a := [f]))"
| a_take: "pl a (cur a) = OnCPU \<Longrightarrow> todo (cur a) = f # fs \<Longrightarrow> waits_on a f s \<Longrightarrow> sem a s = Some (v, q) \<Longrightarrow> v \<noteq> 0 \<Longrightarrow>
     astep C (a, todo) (a\<lparr>sem := (sem a)(s \<mapsto> (v - 1, q))\<rparr>, todo(cur a := granted f @ fs))"
| a_doze: "pl a (cur a) = OnCPU \<Longrightarrow> todo (cur a) = f # fs \<Longrightarrow> waits_on a f s \<Longrightarrow> sem a s = Some (0, q) \<Longrightarrow>
     astep C (a, todo) (doze s a, todo(cur a := Resume # f # fs))"
| a_dispatch: "pl a (cur a) \<noteq> OnCPU \<Longrightarrow> rdy a \<noteq> [] \<Longrightarrow> astep C (a, todo) (dispatch a, todo)"
| a_yield: "pl a (cur a) = OnCPU \<Longrightarrow> rdy a \<noteq> [] \<Longrightarrow> astep C (a, todo) (rotated a, todo(cur a := Resume # todo (cur a)))"
| a_interrupt: "s \<in> C \<Longrightarrow> astep C (a, todo) (wake s a, todo)"
| a_V: "pl a (cur a) = OnCPU \<Longrightarrow> todo (cur a) = V s # fs \<Longrightarrow> astep C (a, todo) (wake s a, todo(cur a := fs))"
| a_grant: "pl a (cur a) = OnCPU \<Longrightarrow> todo (cur a) = Grant l # fs \<Longrightarrow> lk a l = Some (k, s) \<Longrightarrow>
     astep C (a, todo) (a\<lparr>lk := (lk a)(l \<mapsto> (Some (cur a), s))\<rparr>, todo(cur a := fs))"
| a_release: "pl a (cur a) = OnCPU \<Longrightarrow> todo (cur a) = Release l # fs \<Longrightarrow> lk a l = Some (Some (cur a), s) \<Longrightarrow>
     astep C (a, todo) (wake s (a\<lparr>lk := (lk a)(l \<mapsto> (None, s))\<rparr>), todo(cur a := fs))"
| a_wait: "pl a (cur a) = OnCPU \<Longrightarrow> todo (cur a) = Wait c l # fs \<Longrightarrow> wq a c = Some ws \<Longrightarrow> w = fresh a \<Longrightarrow>
     astep C (a, todo) (a\<lparr>sem := (sem a)(w \<mapsto> (0, [])), fresh := Suc w, wq := (wq a)(c \<mapsto> ws @ [w])\<rparr>,
       todo(cur a := Release l # P w # Acquire l # Destroy w # fs))"
| a_signal: "pl a (cur a) = OnCPU \<Longrightarrow> todo (cur a) = Signal c l # fs \<Longrightarrow> wq a c = Some (w # ws) \<Longrightarrow>
     astep C (a, todo) (wake w (a\<lparr>wq := (wq a)(c \<mapsto> ws)\<rparr>), todo(cur a := fs))"
| a_destroy: "pl a (cur a) = OnCPU \<Longrightarrow> todo (cur a) = Destroy w # fs \<Longrightarrow>
     astep C (a, todo) (a\<lparr>sem := (sem a)(w := None)\<rparr>, todo(cur a := fs))"

subsection \<open>Who uses which semaphore\<close>

definition owned :: "mon \<Rightarrow> nat \<Rightarrow> bool" where
  "owned a s \<longleftrightarrow> (\<exists>l h. lk a l = Some (h, s))"

fun use_ok :: "nat set \<Rightarrow> mon \<Rightarrow> frag \<Rightarrow> bool" where
  "use_ok C a (P s) \<longleftrightarrow> s < fresh a \<and> \<not> owned a s"
| "use_ok C a (V s) \<longleftrightarrow> s \<in> C"
| "use_ok C a (Destroy s) \<longleftrightarrow> s < fresh a \<and> \<not> owned a s \<and> s \<notin> C"
| "use_ok C a f \<longleftrightarrow> True"

text \<open>
  The semaphores of \<open>C\<close>, of the locks and of the waiters of the conditions are different ones, and each lock has
  its own.
\<close>

definition roles :: "nat set \<Rightarrow> nat set \<Rightarrow> mon \<Rightarrow> todo \<Rightarrow> bool" where
  "roles T C a todo \<longleftrightarrow> (\<forall>s\<in>C. s < fresh a \<and> \<not> owned a s) \<and> (\<forall>s. owned a s \<longrightarrow> s < fresh a)
     \<and> (\<forall>l l' h h' s. lk a l = Some (h, s) \<longrightarrow> lk a l' = Some (h', s) \<longrightarrow> l = l')
     \<and> (\<forall>s. sem a s \<noteq> None \<longrightarrow> s < fresh a) \<and> (\<forall>t\<in>T. \<forall>f\<in>set (todo t). use_ok C a f)
     \<and> (\<forall>c ws s. wq a c = Some ws \<longrightarrow> s \<in> set ws \<longrightarrow> s < fresh a \<and> \<not> owned a s \<and> s \<notin> C)"

definition running :: "nat set \<Rightarrow> mon \<Rightarrow> bool" where
  "running T a \<longleftrightarrow> finite T \<and> sane T a \<and> (\<forall>t\<in>T. pl a t \<noteq> Chosen)"

lemma running_cur: "running T a \<Longrightarrow> cur a \<in> T"
  using placedD(1) saneD(1) by (auto simp: running_def)

lemma ready_head:
  assumes "running T a" "rdy a \<noteq> []"
  shows "hd (rdy a) \<in> T" "pl a (hd (rdy a)) = Ready"
  using placedD(2) [OF saneD(1), of T a "hd (rdy a)"] assms by (simp_all add: running_def)

lemma owned_cong: "lk b = lk a \<Longrightarrow> owned b s = owned a s"
  by (simp add: owned_def)

lemma owned_holder:
  assumes "lk a l = Some (k, s)" "lk b = (lk a)(l \<mapsto> (h, s))"
  shows "owned b = owned a"
proof
  fix u show "owned b u = owned a u"
  proof
    assume "owned b u"
    then obtain l' h' where "lk b l' = Some (h', u)" by (auto simp: owned_def)
    with assms show "owned a u" unfolding owned_def by (cases "l' = l") auto
  next
    assume "owned a u"
    then obtain l' h' where "lk a l' = Some (h', u)" by (auto simp: owned_def)
    with assms show "owned b u" unfolding owned_def by (cases "l' = l") auto
  qed
qed

lemma use_ok_cong: "fresh a \<le> fresh b \<Longrightarrow> owned b = owned a \<Longrightarrow> use_ok C a f \<Longrightarrow> use_ok C b f"
  by (cases f) auto

lemma calls_ok: "f \<in> calls C \<Longrightarrow> \<forall>s\<in>C. s < fresh a \<and> \<not> owned a s \<Longrightarrow> use_ok C a f"
  by (auto simp: calls_def)

lemma granted_ok [simp]: "g \<in> set (granted f) \<Longrightarrow> use_ok C a g"
  by (cases f) auto

lemma silent_ok: "silent f gs \<Longrightarrow> g \<in> set gs \<Longrightarrow> use_ok C a g"
  by (auto simp: silent_def)

lemma wake_sem: "sem (wake s a) u \<noteq> None \<longleftrightarrow> sem a u \<noteq> None"
  by (auto simp: wake_def split: option.split list.split)

text \<open>The general form of a step: nothing is used in a new role.\<close>

lemma roles_step:
  assumes "roles T C a todo" "owned b = owned a" "fresh a \<le> fresh b"
    "\<And>l h s. lk b l = Some (h, s) \<Longrightarrow> \<exists>h'. lk a l = Some (h', s)"
    "\<And>s. sem b s \<noteq> None \<Longrightarrow> sem a s \<noteq> None \<or> s < fresh b"
    "\<And>t f. t \<in> T \<Longrightarrow> f \<in> set (todo' t) \<Longrightarrow> f \<in> set (todo t) \<or> use_ok C b f"
    "\<And>c ws s. wq b c = Some ws \<Longrightarrow> s \<in> set ws \<Longrightarrow>
       (\<exists>ws'. wq a c = Some ws' \<and> s \<in> set ws') \<or> (s < fresh b \<and> \<not> owned b s \<and> s \<notin> C)"
  shows "roles T C b todo'"
proof -
  have r: "\<forall>s\<in>C. s < fresh a \<and> \<not> owned a s" "\<forall>s. owned a s \<longrightarrow> s < fresh a"
    "\<And>l l' h h' s. lk a l = Some (h, s) \<Longrightarrow> lk a l' = Some (h', s) \<Longrightarrow> l = l'"
    "\<forall>s. sem a s \<noteq> None \<longrightarrow> s < fresh a" "\<And>t f. t \<in> T \<Longrightarrow> f \<in> set (todo t) \<Longrightarrow> use_ok C a f"
    "\<And>c ws s. wq a c = Some ws \<Longrightarrow> s \<in> set ws \<Longrightarrow> s < fresh a \<and> \<not> owned a s \<and> s \<notin> C"
    using assms(1) unfolding roles_def by blast+
  show ?thesis unfolding roles_def
  proof (intro conjI allI ballI impI)
    fix l l' h h' s assume "lk b l = Some (h, s)" "lk b l' = Some (h', s)"
    with assms(4) r(3) show "l = l'" by blast
  next
    fix s assume "sem b s \<noteq> None"
    with assms(5) r(4) assms(3) show "s < fresh b" by (meson less_le_trans)
  next
    fix t f assume "t \<in> T" "f \<in> set (todo' t)"
    with assms(6) r(5) use_ok_cong [OF assms(3,2)] show "use_ok C b f" by blast
  next
    fix c ws s assume w: "wq b c = Some ws" "s \<in> set ws"
    from assms(7) [OF w] r(6) assms(2,3) show "s < fresh b" "\<not> owned b s" "s \<notin> C"
      by (metis less_le_trans)+
  qed (use r assms(2,3) in \<open>auto intro: less_le_trans\<close>)
qed

lemma roles_astep: "astep C x y \<Longrightarrow> roles T C (fst x) (snd x) \<Longrightarrow> running T (fst x) \<Longrightarrow> roles T C (fst y) (snd y)"
proof (induction rule: astep.induct)
  case (a_silent a todo f fs gs)
  show ?case
    by (rule roles_step [OF a_silent.prems(1)]) (use a_silent silent_ok in \<open>auto split: if_splits\<close>)
next
  case (a_call a todo f)
  have "use_ok C a f" using a_call.prems(1) calls_ok [OF a_call.hyps(3)] by (simp add: roles_def)
  then show ?case by - (rule roles_step [OF a_call.prems(1)], use a_call in \<open>auto split: if_splits\<close>)
next
  case (a_take a todo f fs s v q)
  show ?case
    by (rule roles_step [OF a_take.prems(1)]) (use a_take in \<open>auto simp: owned_def split: if_splits\<close>)
next
  case (a_doze a todo f fs s q)
  show ?case
    by (rule roles_step [OF a_doze.prems(1)])
       (use a_doze in \<open>auto simp: owned_def doze_def split: if_splits\<close>)
next
  case (a_dispatch a todo)
  show ?case
    by (rule roles_step [OF a_dispatch.prems(1)]) (auto simp: owned_def dispatch_def)
next
  case (a_yield a todo)
  show ?case
    by (rule roles_step [OF a_yield.prems(1)]) (auto simp: owned_def rotated_def split: if_splits)
next
  case (a_interrupt s a todo)
  show ?case
    by (rule roles_step [OF a_interrupt.prems(1)]) (use wake_sem [of s a] in \<open>auto simp: owned_def\<close>)
next
  case (a_V a todo s fs)
  show ?case
    by (rule roles_step [OF a_V.prems(1)]) (use a_V wake_sem [of s a] in \<open>auto simp: owned_def split: if_splits\<close>)
next
  case (a_grant a todo l fs k s)
  show ?case
    by (rule roles_step [OF a_grant.prems(1)])
       (use a_grant owned_holder [OF a_grant.hyps(3)] in \<open>auto split: if_splits\<close>)
next
  case (a_release a todo l fs s)
  let ?b = "a\<lparr>lk := (lk a)(l \<mapsto> (None, s))\<rparr>"
  have "owned (wake s ?b) = owned a"
    by (rule owned_holder [OF a_release.hyps(3), where h = None]) simp
  then show ?case
    by - (rule roles_step [OF a_release.prems(1)], use a_release wake_sem [of s ?b] in \<open>auto split: if_splits\<close>)
next
  case (a_wait a todo c l fs ws w)
  let ?b = "a\<lparr>sem := (sem a)(w \<mapsto> (0, [])), fresh := Suc w, wq := (wq a)(c \<mapsto> ws @ [w])\<rparr>"
  have "\<forall>s\<in>C. s < fresh a" "\<forall>s. owned a s \<longrightarrow> s < fresh a" using a_wait.prems(1) by (simp_all add: roles_def)
  then have w: "w < fresh ?b" "\<not> owned ?b w" "w \<notin> C" using a_wait.hyps(4) by (auto simp: owned_def)
  show ?case
    by (rule roles_step [OF a_wait.prems(1)]) (use a_wait w in \<open>auto simp: owned_def split: if_splits\<close>)
next
  case (a_signal a todo c l fs w ws)
  show ?case
    by (rule roles_step [OF a_signal.prems(1)])
       (use a_signal wake_sem [of w "a\<lparr>wq := (wq a)(c \<mapsto> ws)\<rparr>"] in \<open>auto simp: owned_def split: if_splits\<close>)
next
  case (a_destroy a todo w fs)
  show ?case
    by (rule roles_step [OF a_destroy.prems(1)]) (use a_destroy in \<open>auto simp: owned_def split: if_splits\<close>)
qed

subsection \<open>Locks\<close>

text \<open>How often a fragment is still to be run.\<close>

definition total :: "nat set \<Rightarrow> frag \<Rightarrow> todo \<Rightarrow> int" where
  "total T f todo = (\<Sum>t\<in>T. int (count_list (todo t) f))"

lemma total_upd:
  assumes "finite T" "t \<in> T"
  shows "total T f (todo(t := fs)) = total T f todo - int (count_list (todo t) f) + int (count_list fs f)"
proof -
  have "total T f todo' = int (count_list (todo' t) f) + (\<Sum>u\<in>T - {t}. int (count_list (todo' u) f))" for todo' :: todo
    unfolding total_def by (rule sum.remove [OF assms])
  then show ?thesis by simp
qed

lemma total_nonneg: "0 \<le> total T f todo"
  by (simp add: total_def sum_nonneg)

lemma total_ge:
  assumes "finite T" "t \<in> T"
  shows "int (count_list (todo t) f) \<le> total T f todo"
  unfolding total_def using member_le_sum [OF assms(2), of "\<lambda>t. int (count_list (todo t) f)"] assms(1) by simp

text \<open>One unit per lock: in the semaphore, with the holder, or with a thread that has taken the semaphore and is about to become the holder.\<close>

definition lock_units :: "nat set \<Rightarrow> mon \<Rightarrow> todo \<Rightarrow> bool" where
  "lock_units T a todo \<longleftrightarrow> (\<forall>l h s. lk a l = Some (h, s) \<longrightarrow> (\<exists>v q. sem a s = Some (v, q) \<and> 0 \<le> v
     \<and> v + (if h = None then 0 else 1) + total T (Grant l) todo = 1))"

lemma lock_unitsD:
  "lock_units T a todo \<Longrightarrow> lk a l = Some (h, s) \<Longrightarrow>
   \<exists>v q. sem a s = Some (v, q) \<and> 0 \<le> v \<and> v + (if h = None then 0 else 1) + total T (Grant l) todo = 1"
  by (simp add: lock_units_def)

lemma lock_units_frame:
  assumes "lock_units T a todo" "lk b = lk a" "\<And>l. total T (Grant l) todo' = total T (Grant l) todo"
    "\<And>s. owned a s \<Longrightarrow> map_option fst (sem b s) = map_option fst (sem a s)"
  shows "lock_units T b todo'"
  unfolding lock_units_def
proof (intro allI impI)
  fix l h s assume l: "lk b l = Some (h, s)"
  then have la: "lk a l = Some (h, s)" "owned a s" using assms(2) by (auto simp: owned_def)
  from lock_unitsD [OF assms(1) la(1)] obtain v q where
    v: "sem a s = Some (v, q)" "0 \<le> v" "v + (if h = None then 0 else 1) + total T (Grant l) todo = 1" by blast
  moreover from assms(4) [OF la(2)] v(1) obtain q' where "sem b s = Some (v, q')" by (cases "sem b s") auto
  ultimately show "\<exists>v q. sem b s = Some (v, q) \<and> 0 \<le> v \<and> v + (if h = None then 0 else 1) + total T (Grant l) todo' = 1"
    using assms(3) by simp
qed

lemma wake_val: "u \<noteq> s \<Longrightarrow> sem (wake s a) u = sem a u"
  "sem a s = Some (v, q) \<Longrightarrow> sem (wake s a) s = Some (v + 1, tl q)"
  by (auto simp: wake_def split: option.split list.split)

lemma count_silent: "silent f gs \<Longrightarrow> count_list gs (Grant l) = 0" "silent f gs \<Longrightarrow> f \<noteq> Grant l"
  by (auto simp: silent_def)

lemma calls_Grant: "f \<in> calls C \<Longrightarrow> f \<noteq> Grant l"
  by (auto simp: calls_def)

lemma roles_unowned:
  assumes "roles T C a todo"
  shows "s \<in> C \<Longrightarrow> \<not> owned a s" "wq a c = Some ws \<Longrightarrow> s \<in> set ws \<Longrightarrow> \<not> owned a s"
    "t \<in> T \<Longrightarrow> todo t = f # fs \<Longrightarrow> use_ok C a f" "\<not> owned a (fresh a)"
proof -
  show "s \<in> C \<Longrightarrow> \<not> owned a s" "wq a c = Some ws \<Longrightarrow> s \<in> set ws \<Longrightarrow> \<not> owned a s"
    using assms unfolding roles_def by blast+
  show "t \<in> T \<Longrightarrow> todo t = f # fs \<Longrightarrow> use_ok C a f" using assms unfolding roles_def by (metis list.set_intros(1))
  show "\<not> owned a (fresh a)" using assms unfolding roles_def by blast
qed

lemma roles_lock: "roles T C a todo \<Longrightarrow> lk a l = Some (h, s) \<Longrightarrow> lk a l' = Some (h', s) \<Longrightarrow> l' = l"
  unfolding roles_def by blast

text \<open>A thread that takes a semaphore is in \<^verbatim>\<open>P\<close> itself, or in \<^verbatim>\<open>Acquire\<close> and takes the unit of the lock.\<close>

lemma lock_units_take:
  assumes "lock_units T a todo" "roles T C a todo" "finite T" "cur a \<in> T" "todo (cur a) = f # fs" "waits_on a f s"
    "sem a s = Some (v, q)" "v \<noteq> 0"
  shows "lock_units T (a\<lparr>sem := (sem a)(s \<mapsto> (v - 1, q))\<rparr>) (todo(cur a := granted f @ fs))"
proof (cases "owned a s")
  case False
  then have "f = P s" using assms(6) by (auto simp: waits_on_def owned_def)
  then show ?thesis using False
    by (intro lock_units_frame [OF assms(1)]) (auto simp: total_upd [OF assms(3,4)] assms(5))
next
  case True
  have "\<not> owned a u" if "f = P u" for u using roles_unowned(3) [OF assms(2,4,5)] that by simp
  then obtain l h where l: "f = Acquire l" "lk a l = Some (h, s)" using True assms(6) by (auto simp: waits_on_def)
  have g: "total T (Grant k) (todo(cur a := granted f @ fs)) = total T (Grant k) todo + (if k = l then 1 else 0)" for k
    using l(1) by (simp add: total_upd [OF assms(3,4)] assms(5))
  show ?thesis unfolding lock_units_def
  proof (intro allI impI)
    fix l' h' s' assume "lk (a\<lparr>sem := (sem a)(s \<mapsto> (v - 1, q))\<rparr>) l' = Some (h', s')"
    then have l': "lk a l' = Some (h', s')" by simp
    from lock_unitsD [OF assms(1) l'] obtain v' q' where
      v': "sem a s' = Some (v', q')" "0 \<le> v'" "v' + (if h' = None then 0 else 1) + total T (Grant l') todo = 1" by blast
    show "\<exists>v'' q''. sem (a\<lparr>sem := (sem a)(s \<mapsto> (v - 1, q))\<rparr>) s' = Some (v'', q'') \<and> 0 \<le> v''
      \<and> v'' + (if h' = None then 0 else 1) + total T (Grant l') (todo(cur a := granted f @ fs)) = 1"
    proof (cases "s' = s")
      case True
      then have "l' = l" using roles_lock [OF assms(2) l(2)] l' by simp
      with True v' assms(7,8) show ?thesis by (simp add: g)
    next
      case False
      then have "l' \<noteq> l" using l(2) l' by auto
      with False v' show ?thesis by (simp add: g)
    qed
  qed
qed

text \<open>Becoming the holder, and giving the unit back.\<close>

lemma lock_units_grant:
  assumes "lock_units T a todo" "finite T" "cur a \<in> T" "todo (cur a) = Grant l # fs" "lk a l = Some (k, s)"
  shows "k = None" "lock_units T (a\<lparr>lk := (lk a)(l \<mapsto> (Some (cur a), s))\<rparr>) (todo(cur a := fs))"
proof -
  from lock_unitsD [OF assms(1,5)] obtain v q where
    v: "sem a s = Some (v, q)" "0 \<le> v" "v + (if k = None then 0 else 1) + total T (Grant l) todo = 1" by blast
  moreover have "1 \<le> total T (Grant l) todo" using total_ge [OF assms(2,3), of todo "Grant l"] assms(4) by simp
  ultimately show k: "k = None" by (auto split: if_splits)
  have g: "total T (Grant l') (todo(cur a := fs)) = total T (Grant l') todo - (if l' = l then 1 else 0)" for l'
    by (auto simp: total_upd [OF assms(2,3)] assms(4))
  show "lock_units T (a\<lparr>lk := (lk a)(l \<mapsto> (Some (cur a), s))\<rparr>) (todo(cur a := fs))"
    unfolding lock_units_def
  proof (intro allI impI)
    fix l' h' s' assume l': "lk (a\<lparr>lk := (lk a)(l \<mapsto> (Some (cur a), s))\<rparr>) l' = Some (h', s')"
    show "\<exists>v q. sem (a\<lparr>lk := (lk a)(l \<mapsto> (Some (cur a), s))\<rparr>) s' = Some (v, q) \<and> 0 \<le> v
      \<and> v + (if h' = None then 0 else 1) + total T (Grant l') (todo(cur a := fs)) = 1"
    proof (cases "l' = l")
      case True
      with l' v k show ?thesis by (auto simp: g)
    next
      case False
      with l' have "lk a l' = Some (h', s')" by simp
      from lock_unitsD [OF assms(1) this] False show ?thesis by (simp add: g)
    qed
  qed
qed

lemma lock_units_release:
  assumes "lock_units T a todo" "roles T C a todo" "finite T" "cur a \<in> T" "todo (cur a) = Release l # fs"
    "lk a l = Some (Some t, s)"
  shows "lock_units T (wake s (a\<lparr>lk := (lk a)(l \<mapsto> (None, s))\<rparr>)) (todo(cur a := fs))"
proof -
  let ?b = "a\<lparr>lk := (lk a)(l \<mapsto> (None, s))\<rparr>"
  have g: "total T (Grant l') (todo(cur a := fs)) = total T (Grant l') todo" for l'
    by (simp add: total_upd [OF assms(3,4)] assms(5))
  show ?thesis unfolding lock_units_def
  proof (intro allI impI)
    fix l' h' s' assume l': "lk (wake s ?b) l' = Some (h', s')"
    show "\<exists>v q. sem (wake s ?b) s' = Some (v, q) \<and> 0 \<le> v
      \<and> v + (if h' = None then 0 else 1) + total T (Grant l') (todo(cur a := fs)) = 1"
    proof (cases "l' = l")
      case True
      with l' have h: "h' = None" "s' = s" by auto
      from lock_unitsD [OF assms(1,6)] obtain v q where v: "sem ?b s = Some (v, q)" "0 \<le> v" "v + 1 + total T (Grant l) todo = 1"
        by auto
      from wake_val(2) [OF v(1)] v(2,3) h True show ?thesis by (simp add: g)
    next
      case False
      with l' have la: "lk a l' = Some (h', s')" by simp
      have "s' \<noteq> s" using roles_lock [OF assms(2) assms(6)] la False by blast
      with lock_unitsD [OF assms(1) la] wake_val(1) [of s' s ?b] show ?thesis by (simp add: g)
    qed
  qed
qed

lemma lock_units_todo:
  assumes "lock_units T a todo" "running T a" "lk b = lk a"
    "\<And>l. count_list fs (Grant l) = count_list (todo (cur a)) (Grant l)"
    "\<And>s. owned a s \<Longrightarrow> map_option fst (sem b s) = map_option fst (sem a s)"
  shows "lock_units T b (todo(cur a := fs))"
proof (rule lock_units_frame [OF assms(1,3) _ assms(5)])
  have "finite T" using assms(2) by (simp add: running_def)
  from total_upd [OF this running_cur [OF assms(2)]] assms(4)
  show "total T (Grant l) (todo(cur a := fs)) = total T (Grant l) todo" for l by simp
qed

lemma lock_units_astep:
  "astep C x y \<Longrightarrow> lock_units T (fst x) (snd x) \<Longrightarrow> roles T C (fst x) (snd x) \<Longrightarrow> running T (fst x) \<Longrightarrow> lock_units T (fst y) (snd y)"
proof (induction rule: astep.induct)
  case (a_silent a todo f fs gs)
  show ?case unfolding fst_conv snd_conv
    by (rule lock_units_todo) (use a_silent count_silent [OF a_silent.hyps(3)] in simp_all)
next
  case (a_call a todo f)
  show ?case unfolding fst_conv snd_conv
    by (rule lock_units_todo) (use a_call calls_Grant [OF a_call.hyps(3)] in simp_all)
next
  case (a_take a todo f fs s v q)
  note t = running_cur [OF a_take.prems(3) [unfolded fst_conv]]
  have "finite T" using a_take.prems(3) by (simp add: running_def)
  from lock_units_take [OF a_take.prems(1,2) [unfolded fst_conv snd_conv] this t a_take.hyps(2-5)] show ?case unfolding fst_conv snd_conv .
next
  case (a_doze a todo f fs s q)
  show ?case unfolding fst_conv snd_conv
    by (rule lock_units_todo) (use a_doze in \<open>simp_all add: doze_def\<close>)
next
  case (a_dispatch a todo)
  show ?case unfolding fst_conv snd_conv
    by (rule lock_units_frame [OF a_dispatch.prems(1) [unfolded fst_conv snd_conv]]) (simp_all add: dispatch_def)
next
  case (a_yield a todo)
  show ?case unfolding fst_conv snd_conv
    by (rule lock_units_todo) (use a_yield in \<open>simp_all add: rotated_def\<close>)
next
  case (a_interrupt s a todo)
  have "u \<noteq> s" if "owned a u" for u
    using roles_unowned(1) [OF a_interrupt.prems(2) [unfolded fst_conv snd_conv] a_interrupt.hyps] that by blast
  then show ?case unfolding fst_conv snd_conv
    by - (rule lock_units_frame [OF a_interrupt.prems(1) [unfolded fst_conv snd_conv]], simp_all add: wake_val(1))
next
  case (a_V a todo s fs)
  note t = running_cur [OF a_V.prems(3) [unfolded fst_conv]]
  have "s \<in> C" using roles_unowned(3) [OF a_V.prems(2) [unfolded fst_conv snd_conv] t a_V.hyps(2)] by simp
  then have "u \<noteq> s" if "owned a u" for u
    using roles_unowned(1) [OF a_V.prems(2) [unfolded fst_conv snd_conv]] that by blast
  then show ?case unfolding fst_conv snd_conv
    by - (rule lock_units_todo, use a_V in \<open>simp_all add: wake_val(1)\<close>)
next
  case (a_grant a todo l fs k s)
  note t = running_cur [OF a_grant.prems(3) [unfolded fst_conv]]
  have "finite T" using a_grant.prems(3) by (simp add: running_def)
  from lock_units_grant(2) [OF a_grant.prems(1) [unfolded fst_conv snd_conv] this t a_grant.hyps(2,3)] show ?case unfolding fst_conv snd_conv .
next
  case (a_release a todo l fs s)
  note t = running_cur [OF a_release.prems(3) [unfolded fst_conv]]
  have "finite T" using a_release.prems(3) by (simp add: running_def)
  from lock_units_release [OF a_release.prems(1,2) [unfolded fst_conv snd_conv] this t a_release.hyps(2,3)] show ?case unfolding fst_conv snd_conv .
next
  case (a_wait a todo c l fs ws w)
  have "u \<noteq> w" if "owned a u" for u
    using roles_unowned(4) [OF a_wait.prems(2) [unfolded fst_conv snd_conv]] a_wait.hyps(4) that by blast
  then show ?case unfolding fst_conv snd_conv
    by - (rule lock_units_todo, use a_wait in simp_all)
next
  case (a_signal a todo c l fs w ws)
  have "\<not> owned a w" using roles_unowned(2) [OF a_signal.prems(2) [unfolded fst_conv snd_conv] a_signal.hyps(3)] by simp
  then have "u \<noteq> w" if "owned a u" for u using that by blast
  then show ?case unfolding fst_conv snd_conv
    by - (rule lock_units_todo, use a_signal in \<open>simp_all add: wake_val(1)\<close>)
next
  case (a_destroy a todo w fs)
  note t = running_cur [OF a_destroy.prems(3) [unfolded fst_conv]]
  have "\<not> owned a w" using roles_unowned(3) [OF a_destroy.prems(2) [unfolded fst_conv snd_conv] t a_destroy.hyps(2)] by simp
  then have "u \<noteq> w" if "owned a u" for u using that by blast
  then show ?case unfolding fst_conv snd_conv
    by - (rule lock_units_todo, use a_destroy in simp_all)
qed

subsection \<open>No wakeup is lost\<close>

fun first :: "frag list \<Rightarrow> frag option" where
  "first [] = None"
| "first (f # fs) = (if f = Resume then first fs else Some f)"

text \<open>The thread is in the loop of \<^verbatim>\<open>P\<close> on semaphore \<open>s\<close>.\<close>

definition at_P :: "mon \<Rightarrow> todo \<Rightarrow> nat \<Rightarrow> nat \<Rightarrow> bool" where
  "at_P a todo t s \<longleftrightarrow> (\<exists>f. first (todo t) = Some f \<and> waits_on a f s)"

text \<open>Those of them that are awake and will test the value.\<close>

definition takers :: "nat set \<Rightarrow> mon \<Rightarrow> todo \<Rightarrow> nat \<Rightarrow> nat set" where
  "takers T a todo s = {t \<in> T. pl a t \<noteq> Asleep s \<and> at_P a todo t s}"

definition wakeup :: "nat set \<Rightarrow> mon \<Rightarrow> todo \<Rightarrow> bool" where
  "wakeup T a todo \<longleftrightarrow> (\<forall>t\<in>T. \<forall>s. pl a t = Asleep s \<longrightarrow> at_P a todo t s)
     \<and> (\<forall>s v q. sem a s = Some (v, q) \<longrightarrow> 0 \<le> v \<and> (q \<noteq> [] \<longrightarrow> v \<le> int (card (takers T a todo s))))"

lemma wakeupD:
  assumes "wakeup T a todo"
  shows "t \<in> T \<Longrightarrow> pl a t = Asleep s \<Longrightarrow> at_P a todo t s" "sem a s = Some (v, q) \<Longrightarrow> 0 \<le> v"
    "sem a s = Some (v, q) \<Longrightarrow> q \<noteq> [] \<Longrightarrow> v \<le> int (card (takers T a todo s))"
  using assms unfolding wakeup_def by blast+

lemma waits_on_cong: "lk b = lk a \<Longrightarrow> waits_on b f s = waits_on a f s"
  by (simp add: waits_on_def)

lemma waits_on_holder:
  "lk a l = Some (k, s) \<Longrightarrow> waits_on (b\<lparr>lk := (lk a)(l \<mapsto> (h, s))\<rparr>) f u = waits_on a f u"
  by (auto simp: waits_on_def)

lemma wakeup_mono:
  assumes "wakeup T a todo" "finite T"
    "\<And>t s. t \<in> T \<Longrightarrow> at_P a todo t s \<Longrightarrow> at_P b todo' t s"
    "\<And>t s. t \<in> T \<Longrightarrow> pl b t = Asleep s \<longleftrightarrow> pl a t = Asleep s"
    "\<And>s v q. sem b s = Some (v, q) \<Longrightarrow> sem a s = Some (v, q) \<or> v = 0"
  shows "wakeup T b todo'"
  unfolding wakeup_def
proof (intro conjI ballI allI impI)
  fix t s assume "t \<in> T" "pl b t = Asleep s"
  with assms(3,4) wakeupD(1) [OF assms(1)] show "at_P b todo' t s" by blast
next
  fix s v q assume s: "sem b s = Some (v, q)"
  from assms(5) [OF this] wakeupD(2) [OF assms(1)] show "0 \<le> v" by auto
  assume q: "q \<noteq> []"
  have "takers T a todo s \<subseteq> takers T b todo' s" using assms(3,4) unfolding takers_def by blast
  moreover have "finite (takers T b todo' s)" using assms(2) by (simp add: takers_def)
  ultimately have "card (takers T a todo s) \<le> card (takers T b todo' s)" by (intro card_mono)
  with assms(5) [OF s] wakeupD(3) [OF assms(1) _ q, of s v] show "v \<le> int (card (takers T b todo' s))" by auto
qed

text \<open>The common case: the running thread goes on from a fragment that does not wait.\<close>

lemma wakeup_todo:
  assumes "wakeup T a todo" "finite T" "lk b = lk a" "\<And>t s. t \<in> T \<Longrightarrow> pl b t = Asleep s \<longleftrightarrow> pl a t = Asleep s"
    "\<And>s v q. sem b s = Some (v, q) \<Longrightarrow> sem a s = Some (v, q) \<or> v = 0"
    "\<And>s. at_P a todo c s \<Longrightarrow> at_P a (todo(c := fs)) c s"
  shows "wakeup T b (todo(c := fs))"
proof (rule wakeup_mono [OF assms(1,2) _ assms(4,5)])
  fix t s assume "t \<in> T" "at_P a todo t s"
  then have "at_P a (todo(c := fs)) t s" using assms(6) by (cases "t = c") (simp_all add: at_P_def)
  then show "at_P b (todo(c := fs)) t s" using waits_on_cong [OF assms(3)] by (simp add: at_P_def)
qed

lemma not_waiting:
  "todo c = f # fs \<Longrightarrow> f \<noteq> Resume \<Longrightarrow> (\<And>s. \<not> waits_on a f s) \<Longrightarrow> \<not> at_P a todo c s"
  by (simp add: at_P_def)

lemma wakeup_wake:
  assumes "wakeup T a todo" "finite T" "sane T a"
  shows "wakeup T (wake s a) todo"
proof (cases "sem a s")
  case None
  then show ?thesis using assms(1) by (simp add: wake_def)
next
  case (Some x)
  obtain v q where x: "sem a s = Some (v, q)" using Some by (cases x) simp
  have lk: "at_P (wake s a) todo t u = at_P a todo t u" for t u
    by (simp add: at_P_def waits_on_cong [OF wake_frame(3)])
  show ?thesis
  proof (cases q)
    case Nil
    then have w: "wake s a = a\<lparr>sem := (sem a)(s \<mapsto> (v + 1, []))\<rparr>" using x by (simp add: wake_def)
    show ?thesis unfolding wakeup_def lk takers_def
      using wakeupD [OF assms(1)] wakeupD(2) [OF assms(1) x] unfolding w takers_def by (auto split: if_splits)
  next
    case (Cons t ts)
    then have w: "wake s a = a\<lparr>pl := (pl a)(t := Ready), rdy := rdy a @ [t], sem := (sem a)(s \<mapsto> (v + 1, ts))\<rparr>"
      using x by (simp add: wake_def)
    have t: "t \<in> T" "pl a t = Asleep s" using placedD(3) [OF saneD(1) [OF assms(3)] x, of t] Cons by simp_all
    have ts: "at_P a todo t s" by (rule wakeupD(1) [OF assms(1) t])
    have other: "takers T a todo u \<subseteq> takers T (wake s a) todo u" for u
      unfolding takers_def lk unfolding w using t(2) by auto
    have fin: "finite (takers T (wake s a) todo u)" for u using assms(2) by (simp add: takers_def)
    have new: "insert t (takers T a todo s) \<subseteq> takers T (wake s a) todo s" "t \<notin> takers T a todo s"
      using t ts unfolding takers_def lk unfolding w by auto
    show ?thesis unfolding wakeup_def lk
    proof (intro conjI ballI allI impI)
      fix u r assume "u \<in> T" "pl (wake s a) u = Asleep r"
      then show "at_P a todo u r" using wakeupD(1) [OF assms(1)] by (simp add: w split: if_splits)
    next
      fix r k p assume r: "sem (wake s a) r = Some (k, p)"
      show "0 \<le> k" using r wakeupD(2) [OF assms(1)] wakeupD(2) [OF assms(1) x] by (auto simp: w split: if_splits)
      assume p: "p \<noteq> []"
      show "k \<le> int (card (takers T (wake s a) todo r))"
      proof (cases "r = s")
        case True
        with r have "k = v + 1" by (simp add: w)
        moreover have "v \<le> int (card (takers T a todo s))" using wakeupD(3) [OF assms(1) x] Cons by simp
        moreover have "Suc (card (takers T a todo s)) \<le> card (takers T (wake s a) todo s)"
          using card_mono [OF fin new(1)] new(2) assms(2) by (simp add: takers_def)
        ultimately show ?thesis using True by simp
      next
        case False
        with r have "sem a r = Some (k, p)" by (simp add: w)
        from wakeupD(3) [OF assms(1) this p] card_mono [OF fin other, of r] show ?thesis by linarith
      qed
    qed
  qed
qed

lemma waits_unique:
  "roles T C a todo \<Longrightarrow> waits_on a f s \<Longrightarrow> waits_on a f u \<Longrightarrow> u = s"
  by (auto simp: waits_on_def)

text \<open>A thread takes the semaphore: one less, and one less to take it.\<close>

lemma wakeup_take:
  assumes "wakeup T a todo" "finite T" "roles T C a todo" "c \<in> T" "todo c = f # fs" "waits_on a f s" "sem a s = Some (v, q)"
    "v \<noteq> 0" "pl a c = OnCPU"
  shows "wakeup T (a\<lparr>sem := (sem a)(s \<mapsto> (v - 1, q))\<rparr>) (todo(c := gs))"
proof -
  let ?b = "a\<lparr>sem := (sem a)(s \<mapsto> (v - 1, q))\<rparr>"
  have f: "f \<noteq> Resume" using assms(6) by (auto simp: waits_on_def)
  have lk: "at_P ?b todo' t u = at_P a todo' t u" for todo' t u by (simp add: at_P_def waits_on_def)
  have sub: "takers T a todo u - {c} \<subseteq> takers T ?b (todo(c := gs)) u" for u
    unfolding takers_def lk by (auto simp: at_P_def)
  have fin: "finite (takers T ?b (todo(c := gs)) u)" for u using assms(2) by (simp add: takers_def)
  have c: "c \<notin> takers T a todo u" if "u \<noteq> s" for u
    using that waits_unique [OF assms(3,6), of u] assms(5) f by (auto simp: takers_def at_P_def)
  show ?thesis unfolding wakeup_def lk
  proof (intro conjI ballI allI impI)
    fix t u assume "t \<in> T" "pl ?b t = Asleep u"
    then show "at_P a (todo(c := gs)) t u"
      using wakeupD(1) [OF assms(1), of t u] assms(9) by (cases "t = c") (simp_all add: at_P_def)
  next
    fix u k p assume u: "sem ?b u = Some (k, p)"
    show "0 \<le> k" using u wakeupD(2) [OF assms(1)] wakeupD(2) [OF assms(1,7)] assms(8) by (auto split: if_splits)
    assume p: "p \<noteq> []"
    show "k \<le> int (card (takers T ?b (todo(c := gs)) u))"
    proof (cases "u = s")
      case True
      with u have "k = v - 1" "p = q" by auto
      moreover have "card (takers T a todo s) \<le> Suc (card (takers T a todo s - {c}))"
        using card_Suc_Diff1 [of "takers T a todo s" c] assms(2) by (cases "c \<in> takers T a todo s") (simp_all add: takers_def)
      moreover have "v \<le> int (card (takers T a todo s))" using wakeupD(3) [OF assms(1,7)] p \<open>p = q\<close> by simp
      ultimately show ?thesis using card_mono [OF fin sub, of s] unfolding True by linarith
    next
      case False
      with u have "sem a u = Some (k, p)" by simp
      moreover have "takers T a todo u - {c} = takers T a todo u" using c [OF False] by simp
      ultimately show ?thesis using wakeupD(3) [OF assms(1) _ p, of u k] card_mono [OF fin sub, of u] by simp
    qed
  qed
qed

lemma wakeup_doze:
  assumes "wakeup T a todo" "finite T" "roles T C a todo" "cur a \<in> T" "todo (cur a) = f # fs" "waits_on a f s" "sem a s = Some (0, q)"
  shows "wakeup T (doze s a) (todo(cur a := Resume # f # fs))"
proof -
  have d: "doze s a = a\<lparr>sem := (sem a)(s \<mapsto> (0, q @ [cur a])), pl := (pl a)(cur a := Asleep s)\<rparr>"
    using assms(7) by (simp add: doze_def)
  have f: "f \<noteq> Resume" using assms(6) by (auto simp: waits_on_def)
  have lk: "at_P (doze s a) (todo(cur a := Resume # f # fs)) t u = at_P a todo t u" for t u
    using assms(5) by (simp add: at_P_def waits_on_def d)
  have "at_P a todo (cur a) u \<longleftrightarrow> waits_on a f u" for u using assms(5) f by (simp add: at_P_def)
  then have at: "at_P a todo (cur a) u \<longleftrightarrow> u = s" for u using waits_unique [OF assms(3,6)] assms(6) by blast
  have sub: "takers T a todo u \<subseteq> takers T (doze s a) (todo(cur a := Resume # f # fs)) u" if "u \<noteq> s" for u
    using that at unfolding takers_def lk by (auto simp: d)
  have fin: "finite (takers T (doze s a) todo' u)" for todo' u using assms(2) by (simp add: takers_def)
  show ?thesis unfolding wakeup_def lk
  proof (intro conjI ballI allI impI)
    fix t u assume "t \<in> T" "pl (doze s a) t = Asleep u"
    then show "at_P a todo t u" using wakeupD(1) [OF assms(1), of t u] at by (cases "t = cur a") (simp_all add: d)
  next
    fix u k p assume u: "sem (doze s a) u = Some (k, p)"
    show "0 \<le> k" using u wakeupD(2) [OF assms(1)] by (auto simp: d split: if_splits)
    assume p: "p \<noteq> []"
    show "k \<le> int (card (takers T (doze s a) (todo(cur a := Resume # f # fs)) u))"
    proof (cases "u = s")
      case True
      with u show ?thesis by (simp add: d)
    next
      case False
      with u have "sem a u = Some (k, p)" by (simp add: d)
      from wakeupD(3) [OF assms(1) this p] card_mono [OF fin sub [OF False]] show ?thesis by linarith
    qed
  qed
qed

lemma wakeup_astep:
  "astep C x y \<Longrightarrow> wakeup T (fst x) (snd x) \<Longrightarrow> roles T C (fst x) (snd x) \<Longrightarrow> running T (fst x) \<Longrightarrow> wakeup T (fst y) (snd y)"
proof (induction rule: astep.induct)
  case (a_silent a todo f fs gs)
  have "at_P a todo (cur a) s \<Longrightarrow> at_P a (todo(cur a := gs @ fs)) (cur a) s" for s
    using a_silent.hyps(2,3) by (auto simp: silent_def at_P_def waits_on_def)
  then show ?case using a_silent.prems unfolding fst_conv snd_conv running_def
    by (intro wakeup_todo [where a = a]) simp_all
next
  case (a_call a todo f)
  have "\<not> at_P a todo (cur a) s" for s using a_call.hyps(2) by (simp add: at_P_def)
  then show ?case using a_call.prems unfolding fst_conv snd_conv running_def
    by (intro wakeup_todo [where a = a]) simp_all
next
  case (a_take a todo f fs s v q)
  show ?case unfolding fst_conv snd_conv
    by (rule wakeup_take) (use a_take running_cur in \<open>simp_all add: running_def\<close>)
next
  case (a_doze a todo f fs s q)
  show ?case unfolding fst_conv snd_conv
    by (rule wakeup_doze) (use a_doze running_cur in \<open>simp_all add: running_def\<close>)
next
  case (a_dispatch a todo)
  have "pl a (hd (rdy a)) = Ready" using ready_head a_dispatch.prems(3) a_dispatch.hyps(2) by simp
  then have p: "pl (dispatch a) t = Asleep s \<longleftrightarrow> pl a t = Asleep s" for t s
    using a_dispatch.hyps(1) by (simp add: dispatch_def)
  show ?case unfolding fst_conv snd_conv
  proof (rule wakeup_mono)
    show "wakeup T a todo" "finite T" using a_dispatch.prems by (simp_all add: running_def)
    show "at_P (dispatch a) todo t s" if "at_P a todo t s" for t s
      using that by (simp add: at_P_def waits_on_def dispatch_def)
  qed (simp_all add: p, simp add: dispatch_def)
next
  case (a_yield a todo)
  have "pl a (hd (rdy a)) = Ready" using ready_head a_yield.prems(3) a_yield.hyps(2) by simp
  then have p: "pl (rotated a) t = Asleep s \<longleftrightarrow> pl a t = Asleep s" for t s
    using a_yield.hyps(1) by (simp add: rotated_def)
  show ?case unfolding fst_conv snd_conv
  proof (rule wakeup_mono)
    show "wakeup T a todo" "finite T" using a_yield.prems by (simp_all add: running_def)
    show "at_P (rotated a) (todo(cur a := Resume # todo (cur a))) t s" if "at_P a todo t s" for t s
      using that by (cases "t = cur a") (simp_all add: at_P_def waits_on_def rotated_def)
  qed (simp_all add: p, simp add: rotated_def)
next
  case (a_interrupt s a todo)
  then show ?case by (simp add: wakeup_wake running_def)
next
  case (a_V a todo s fs)
  have "wakeup T a (todo(cur a := fs))"
    by (rule wakeup_todo) (use a_V not_waiting [of todo "cur a" "V s" fs a] in \<open>auto simp: running_def waits_on_def\<close>)
  then show ?case unfolding fst_conv snd_conv
    by (rule wakeup_wake) (use a_V.prems(3) in \<open>simp_all add: running_def\<close>)
next
  case (a_grant a todo l fs k s)
  have n: "\<not> at_P a todo (cur a) u" for u
    using not_waiting [where c = "cur a" and todo = todo, OF a_grant.hyps(2)] by (simp add: waits_on_def)
  show ?case unfolding fst_conv snd_conv
  proof (rule wakeup_mono)
    show "wakeup T a todo" "finite T" using a_grant.prems by (simp_all add: running_def)
    show "at_P (a\<lparr>lk := (lk a)(l \<mapsto> (Some (cur a), s))\<rparr>) (todo(cur a := fs)) t u" if at: "at_P a todo t u" for t u
    proof -
      have "t \<noteq> cur a" using at n by blast
      then show ?thesis using at waits_on_holder [OF a_grant.hyps(3)] by (simp add: at_P_def)
    qed
  qed simp_all
next
  case (a_release a todo l fs s)
  let ?b = "a\<lparr>lk := (lk a)(l \<mapsto> (None, s))\<rparr>"
  have n: "\<not> at_P a todo (cur a) u" for u
    using not_waiting [where c = "cur a" and todo = todo, OF a_release.hyps(2)] by (simp add: waits_on_def)
  have "wakeup T ?b (todo(cur a := fs))"
  proof (rule wakeup_mono)
    show "wakeup T a todo" "finite T" using a_release.prems by (simp_all add: running_def)
    show "at_P ?b (todo(cur a := fs)) t u" if at: "at_P a todo t u" for t u
    proof -
      have "t \<noteq> cur a" using at n by blast
      then show ?thesis using at waits_on_holder [OF a_release.hyps(3)] by (simp add: at_P_def)
    qed
  qed simp_all
  then show ?case unfolding fst_conv snd_conv
    by (rule wakeup_wake) (use a_release.prems(3) in \<open>simp_all add: running_def sane_def placed_def\<close>)
next
  case (a_wait a todo c l fs ws w)
  show ?case unfolding fst_conv snd_conv
    by (rule wakeup_todo) (use a_wait not_waiting [where c = "cur a" and todo = todo, OF a_wait.hyps(2)] in \<open>auto simp: running_def waits_on_def split: if_splits\<close>)
next
  case (a_signal a todo c l fs w ws)
  have "wakeup T (a\<lparr>wq := (wq a)(c \<mapsto> ws)\<rparr>) (todo(cur a := fs))"
    by (rule wakeup_todo) (use a_signal not_waiting [where c = "cur a" and todo = todo, OF a_signal.hyps(2)] in \<open>auto simp: running_def waits_on_def\<close>)
  then show ?case unfolding fst_conv snd_conv
    by (rule wakeup_wake) (use a_signal.prems(3) in \<open>simp_all add: running_def sane_def placed_def\<close>)
next
  case (a_destroy a todo w fs)
  show ?case unfolding fst_conv snd_conv
    by (rule wakeup_todo) (use a_destroy not_waiting [where c = "cur a" and todo = todo, OF a_destroy.hyps(2)] in \<open>auto simp: running_def waits_on_def split: if_splits\<close>)
qed

subsection \<open>The semaphores of waiting threads\<close>

text \<open>A semaphore made by \<^verbatim>\<open>Wait\<close> is deleted once, by the thread that made it, after its \<^verbatim>\<open>P\<close>.\<close>

fun guarded :: "nat set \<Rightarrow> frag list \<Rightarrow> bool" where
  "guarded C [] \<longleftrightarrow> True"
| "guarded C (f # fs) \<longleftrightarrow> guarded C fs \<and> (\<forall>w. f = P w \<longrightarrow> w \<notin> C \<longrightarrow> Destroy w \<in> set fs)"

definition queued :: "mon \<Rightarrow> nat \<Rightarrow> bool" where
  "queued a w \<longleftrightarrow> (\<exists>c ws. wq a c = Some ws \<and> w \<in> set ws)"

definition queues_ok :: "mon \<Rightarrow> bool" where
  "queues_ok a \<longleftrightarrow> (\<forall>c ws. wq a c = Some ws \<longrightarrow> distinct ws)
     \<and> (\<forall>c c' ws ws' w. wq a c = Some ws \<longrightarrow> wq a c' = Some ws' \<longrightarrow> w \<in> set ws \<longrightarrow> w \<in> set ws' \<longrightarrow> c = c')"

definition waiters :: "nat set \<Rightarrow> nat set \<Rightarrow> mon \<Rightarrow> todo \<Rightarrow> bool" where
  "waiters T C a todo \<longleftrightarrow> (\<forall>t\<in>T. guarded C (todo t)) \<and> (\<forall>w. total T (Destroy w) todo \<le> 1) \<and> queues_ok a
     \<and> (\<forall>w. queued a w \<longrightarrow> (\<exists>q. sem a w = Some (0, q)) \<and> (\<exists>t\<in>T. P w \<in> set (todo t)))"

lemma guarded_append: "guarded C fs \<Longrightarrow> (\<And>w. P w \<notin> set gs) \<Longrightarrow> guarded C (gs @ fs)"
  by (induction gs) auto

lemma waitersD:
  assumes "waiters T C a todo"
  shows "t \<in> T \<Longrightarrow> guarded C (todo t)" "total T (Destroy w) todo \<le> 1" "queues_ok a"
    "queued a w \<Longrightarrow> \<exists>q. sem a w = Some (0, q)" "queued a w \<Longrightarrow> \<exists>t\<in>T. P w \<in> set (todo t)"
  using assms unfolding waiters_def by blast+

text \<open>The running thread goes on.\<close>

lemma waiters_todo:
  assumes "waiters T C a todo" "running T a" "guarded C gs" "queues_ok b"
    "\<And>w. count_list gs (Destroy w) \<le> count_list (todo (cur a)) (Destroy w)"
    "\<And>w. queued b w \<Longrightarrow> queued a w" "\<And>w. queued b w \<Longrightarrow> P w \<in> set (todo (cur a)) \<Longrightarrow> P w \<in> set gs"
    "\<And>w q. queued b w \<Longrightarrow> sem a w = Some (0, q) \<Longrightarrow> \<exists>q. sem b w = Some (0, q)"
  shows "waiters T C b (todo(cur a := gs))"
  unfolding waiters_def
proof (intro conjI ballI allI impI)
  have fin: "finite T" using assms(2) by (simp add: running_def)
  show "guarded C ((todo(cur a := gs)) t)" if "t \<in> T" for t using waitersD(1) [OF assms(1) that] assms(3) by simp
  fix w
  show "total T (Destroy w) (todo(cur a := gs)) \<le> 1"
    using total_upd [OF fin running_cur [OF assms(2)], of "Destroy w" todo gs] waitersD(2) [OF assms(1), of w] assms(5) [of w]
    by linarith
  assume w: "queued b w"
  from assms(6) [OF this] have "queued a w" .
  from waitersD(4) [OF assms(1) this] assms(8) [OF w] show "\<exists>q. sem b w = Some (0, q)" by blast
  from waitersD(5) [OF assms(1) \<open>queued a w\<close>] obtain t where "t \<in> T" "P w \<in> set (todo t)" by blast
  with assms(7) [OF w] show "\<exists>t\<in>T. P w \<in> set ((todo(cur a := gs)) t)"
    by (intro bexI [of _ t]) (auto split: if_splits)
qed (rule assms(4))

text \<open>Nobody sleeps on a semaphore that is about to be deleted.\<close>

lemma destroy_empty:
  assumes "waiters T C a todo" "wakeup T a todo" "roles T C a todo" "running T a" "pl a (cur a) = OnCPU"
    "todo (cur a) = Destroy w # fs"
  shows "u \<in> T \<Longrightarrow> pl a u \<noteq> Asleep w" "P w \<notin> set (todo u) \<or> u \<notin> T"
proof -
  have c: "cur a \<in> T" and fin: "finite T" using running_cur [OF assms(4)] assms(4) by (simp_all add: running_def)
  have w: "w \<notin> C" "\<not> owned a w" using roles_unowned(3) [OF assms(3) c assms(6)] by simp_all
  show P: "P w \<notin> set (todo u) \<or> u \<notin> T" for u
  proof (rule ccontr)
    assume "\<not> (P w \<notin> set (todo u) \<or> u \<notin> T)"
    then have u: "P w \<in> set (todo u)" "u \<in> T" by simp_all
    have "Destroy w \<in> set fs" if "guarded C fs" "P w \<in> set fs" for fs using that w(1) by (induction fs) auto
    then have d: "1 \<le> count_list fs (Destroy w)" if "guarded C fs" "P w \<in> set fs" for fs
      using that count_list_0_iff [of fs "Destroy w"] by (simp add: Suc_le_eq)
    show False
    proof (cases "u = cur a")
      case True
      then have "guarded C fs" "P w \<in> set fs" using u waitersD(1) [OF assms(1) c] assms(6) by simp_all
      from d [OF this] have "2 \<le> count_list (todo (cur a)) (Destroy w)" using assms(6) by simp
      with total_ge [OF fin c, of todo "Destroy w"] waitersD(2) [OF assms(1), of w] show False by linarith
    next
      case False
      have "1 \<le> count_list (todo u) (Destroy w)" using d [OF waitersD(1) [OF assms(1) u(2)] u(1)] .
      moreover have "total T (Destroy w) todo = int (count_list (todo (cur a)) (Destroy w)) + total (T - {cur a}) (Destroy w) todo"
        unfolding total_def by (rule sum.remove [OF fin c])
      moreover have "int (count_list (todo u) (Destroy w)) \<le> total (T - {cur a}) (Destroy w) todo"
        by (rule total_ge) (use fin u(2) False in simp_all)
      moreover have "1 \<le> count_list (todo (cur a)) (Destroy w)" using assms(6) by simp
      ultimately show False using waitersD(2) [OF assms(1), of w] by linarith
    qed
  qed
  show "pl a u \<noteq> Asleep w" if "u \<in> T"
  proof
    assume "pl a u = Asleep w"
    from wakeupD(1) [OF assms(2) that this] w(2) have "first (todo u) = Some (P w)"
      by (auto simp: at_P_def waits_on_def owned_def)
    moreover have "first fs = Some f \<Longrightarrow> f \<in> set fs" for fs f by (induction fs) (auto split: if_splits)
    ultimately show False using P [of u] that by blast
  qed
qed

lemma waiters_frame:
  assumes "waiters T C a todo" "wq b = wq a" "\<And>w q. queued a w \<Longrightarrow> sem a w = Some (0, q) \<Longrightarrow> \<exists>q. sem b w = Some (0, q)"
  shows "waiters T C b todo"
  using assms unfolding waiters_def queued_def queues_ok_def by simp metis

lemma queued_frame: "wq b = wq a \<Longrightarrow> queued b = queued a" "wq b = wq a \<Longrightarrow> queues_ok b = queues_ok a"
  by (simp_all add: queued_def queues_ok_def fun_eq_iff)

lemma queue_pop:
  assumes "queues_ok a" "wq a c = Some (w # ws)"
  defines "b \<equiv> a\<lparr>wq := (wq a)(c \<mapsto> ws)\<rparr>"
  shows "queues_ok b" "queued b u \<Longrightarrow> queued a u \<and> u \<noteq> w"
proof -
  have d: "wq a c' = Some p \<Longrightarrow> distinct p" for c' p using assms(1) unfolding queues_ok_def by blast
  have one: "wq a c1 = Some p \<Longrightarrow> wq a c2 = Some p' \<Longrightarrow> x \<in> set p \<Longrightarrow> x \<in> set p' \<Longrightarrow> c1 = c2" for c1 c2 p p' x
    using assms(1) unfolding queues_ok_def by blast
  have sub: "\<exists>p'. wq a c' = Some p' \<and> set p \<subseteq> set p' - {w} \<and> distinct p" if "wq b c' = Some p" for c' p
  proof (cases "c' = c")
    case True
    then show ?thesis using that assms(2) d [OF assms(2)] by (auto simp: b_def)
  next
    case False
    then have p: "wq a c' = Some p" using that by (simp add: b_def)
    then have "w \<notin> set p" using one [OF p assms(2), of w] False by auto
    with p d show ?thesis by blast
  qed
  show "queues_ok b" unfolding queues_ok_def
  proof (intro conjI allI impI)
    show "distinct p" if "wq b c' = Some p" for c' p using sub [OF that] by blast
    show "c1 = c2" if "wq b c1 = Some p" "wq b c2 = Some p'" "x \<in> set p" "x \<in> set p'" for c1 c2 p p' x
      using sub [OF that(1)] sub [OF that(2)] that(3,4) one by blast
  qed
  show "queued a u \<and> u \<noteq> w" if "queued b u"
    using that sub unfolding queued_def by blast
qed

lemma queued_roles: "roles T C a todo \<Longrightarrow> queued a w \<Longrightarrow> w < fresh a \<and> \<not> owned a w \<and> w \<notin> C"
  unfolding roles_def queued_def by blast

lemma waits_owned: "waits_on a f s \<Longrightarrow> f = P s \<or> owned a s"
  by (auto simp: waits_on_def owned_def)

lemma calls_guarded: "f \<in> calls C \<Longrightarrow> guarded C [f]" "f \<in> calls C \<Longrightarrow> f \<noteq> Destroy w"
  by (auto simp: calls_def)

lemma granted_Destroy [simp]: "Destroy w \<notin> set (granted f)" "P w \<notin> set (granted f)" "count_list (granted f) (Destroy w) = 0"
  by (cases f; simp)+

lemma silent_Destroy: "silent f gs \<Longrightarrow> count_list gs (Destroy w) = 0" "silent f gs \<Longrightarrow> P w \<notin> set gs"
    "silent f gs \<Longrightarrow> f \<noteq> P w"
  by (auto simp: silent_def)

lemma guarded_tl: "waiters T C a todo \<Longrightarrow> running T a \<Longrightarrow> todo (cur a) = f # fs \<Longrightarrow> guarded C fs"
  using waitersD(1) [OF _ running_cur] by fastforce

lemma waiters_wait:
  assumes "waiters T C a todo" "roles T C a todo" "running T a" "todo (cur a) = Wait c l # fs" "wq a c = Some ws" "w = fresh a"
  shows "waiters T C (a\<lparr>sem := (sem a)(w \<mapsto> (0, [])), fresh := Suc w, wq := (wq a)(c \<mapsto> ws @ [w])\<rparr>)
    (todo(cur a := Release l # P w # Acquire l # Destroy w # fs))" (is "waiters T C ?b ?todo")
proof -
  have fin: "finite T" and c: "cur a \<in> T" using assms(3) running_cur [OF assms(3)] by (simp_all add: running_def)
  have new: "\<not> queued a w" using queued_roles [OF assms(2)] assms(6) by blast
  then have nw: "wq a c' = Some ws' \<Longrightarrow> w \<notin> set ws'" for c' ws' by (auto simp: queued_def)
  have nd: "Destroy w \<notin> set (todo t)" if "t \<in> T" for t
  proof
    assume "Destroy w \<in> set (todo t)"
    with that assms(2) have "use_ok C a (Destroy w)" unfolding roles_def by blast
    with assms(6) show False by simp
  qed
  have q: "queued ?b u \<longleftrightarrow> u = w \<or> queued a u" for u
    using assms(5) by (auto simp: queued_def split: if_splits) (metis option.inject)
  have g: "guarded C (todo (cur a))" by (rule waitersD(1) [OF assms(1) c])
  show ?thesis unfolding waiters_def
  proof (intro conjI ballI allI impI)
    show "guarded C (?todo t)" if "t \<in> T" for t
      using waitersD(1) [OF assms(1) that] g assms(4) by simp
  next
    fix u show "total T (Destroy u) ?todo \<le> 1"
    proof (cases "u = w")
      case True
      have "total T (Destroy w) todo = 0" unfolding total_def using nd by (intro sum.neutral) (simp add: count_list_0_iff)
      moreover have "count_list fs (Destroy w) = 0" using nd [OF c] assms(4) by (simp add: count_list_0_iff)
      ultimately show ?thesis using True assms(4) by (simp add: total_upd [OF fin c])
    next
      case False
      then show ?thesis using waitersD(2) [OF assms(1), of u] assms(4) by (simp add: total_upd [OF fin c])
    qed
  next
    show "queues_ok ?b"
      using waitersD(3) [OF assms(1)] assms(5) nw unfolding queues_ok_def by (auto split: if_splits)
  next
    fix u assume "queued ?b u"
    with q have u: "u = w \<or> queued a u" by blast
    show "\<exists>q. sem ?b u = Some (0, q)"
      using u waitersD(4) [OF assms(1), of u] by (cases "u = w") simp_all
    show "\<exists>t\<in>T. P u \<in> set (?todo t)"
    proof (cases "u = w")
      case True
      then show ?thesis using c by (intro bexI [of _ "cur a"]) simp_all
    next
      case False
      with u waitersD(5) [OF assms(1), of u] obtain t where "t \<in> T" "P u \<in> set (todo t)" by blast
      then show ?thesis using assms(4) by (intro bexI [of _ t]) (auto split: if_splits)
    qed
  qed
qed

lemma waiters_astep:
  "astep C x y \<Longrightarrow> waiters T C (fst x) (snd x) \<Longrightarrow> roles T C (fst x) (snd x) \<Longrightarrow> running T (fst x) \<Longrightarrow>
   wakeup T (fst x) (snd x) \<Longrightarrow> waiters T C (fst y) (snd y)"
proof (induction rule: astep.induct)
  case (a_silent a todo f fs gs)
  show ?case unfolding fst_conv snd_conv
  proof (rule waiters_todo)
    show "guarded C (gs @ fs)"
      using guarded_tl [where todo = todo and a = a, OF _ _ a_silent.hyps(2)] a_silent.prems silent_Destroy(2) [OF a_silent.hyps(3)] by (simp add: guarded_append)
    show "P w \<in> set (gs @ fs)" if "P w \<in> set (todo (cur a))" for w
      using that a_silent.hyps(2) silent_Destroy(3) [OF a_silent.hyps(3), of w] by auto
  qed (use a_silent waitersD(3) silent_Destroy(1) [OF a_silent.hyps(3)] in auto)
next
  case (a_call a todo f)
  show ?case unfolding fst_conv snd_conv
    by (rule waiters_todo) (use a_call waitersD(3) calls_guarded [OF a_call.hyps(3)] in auto)
next
  case (a_take a todo f fs s v q)
  let ?b = "a\<lparr>sem := (sem a)(s \<mapsto> (v - 1, q))\<rparr>"
  have s: "\<not> queued a s" using waitersD(4) [OF a_take.prems(1) [unfolded fst_conv snd_conv], of s] a_take.hyps(4,5) by auto
  have fs: "P w \<in> set (todo (cur a)) \<Longrightarrow> w \<noteq> s \<Longrightarrow> P w \<in> set fs" for w
    using a_take.hyps(2,3) by (auto simp: waits_on_def)
  show ?case unfolding fst_conv snd_conv
  proof (rule waiters_todo)
    show "guarded C (granted f @ fs)"
      using guarded_tl [where todo = todo and a = a, OF _ _ a_take.hyps(2)] a_take.prems by (simp add: guarded_append)
    show "queues_ok ?b" using waitersD(3) [OF a_take.prems(1) [unfolded fst_conv snd_conv]] by (simp add: queues_ok_def)
    show "P w \<in> set (granted f @ fs)" if "queued ?b w" "P w \<in> set (todo (cur a))" for w
      using that fs s by (auto simp: queued_def)
    show "\<exists>q. sem ?b w = Some (0, q)" if "queued ?b w" "sem a w = Some (0, q)" for w q
      using that s by (cases "w = s") (simp_all add: queued_def)
  qed (use a_take in \<open>simp_all add: queued_def\<close>)
next
  case (a_doze a todo f fs s q)
  have d: "wq (doze s a) = wq a" "sem a w = Some (0, p) \<Longrightarrow> \<exists>p. sem (doze s a) w = Some (0, p)" for w p
    using a_doze.hyps(4) by (simp_all add: doze_def)
  have g: "guarded C (todo (cur a))"
    using a_doze.prems running_cur waitersD(1) by (simp add: running_def)
  show ?case unfolding fst_conv snd_conv
    by (rule waiters_todo)
       (use a_doze waitersD(3) queued_frame [OF d(1)] d(2) g in auto)
next
  case (a_dispatch a todo)
  show ?case unfolding fst_conv snd_conv
    by (rule waiters_frame [OF a_dispatch.prems(1) [unfolded fst_conv snd_conv]]) (auto simp: dispatch_def)
next
  case (a_yield a todo)
  have d: "wq (rotated a) = wq a" "sem (rotated a) = sem a" by (simp_all add: rotated_def)
  have g: "guarded C (todo (cur a))"
    using a_yield.prems running_cur waitersD(1) by (simp add: running_def)
  show ?case unfolding fst_conv snd_conv
    by (rule waiters_todo) (use a_yield waitersD(3) queued_frame [OF d(1)] d(2) g in auto)
next
  case (a_interrupt s a todo)
  have "w \<noteq> s" if "queued a w" for w
    using queued_roles [OF a_interrupt.prems(2) [unfolded fst_conv snd_conv] that] a_interrupt.hyps by blast
  then show ?case unfolding fst_conv snd_conv
    by - (rule waiters_frame [OF a_interrupt.prems(1) [unfolded fst_conv snd_conv]], auto simp: wake_val(1))
next
  case (a_V a todo s fs)
  note t = running_cur [OF a_V.prems(3) [unfolded fst_conv]]
  have "s \<in> C" using roles_unowned(3) [OF a_V.prems(2) [unfolded fst_conv snd_conv] t a_V.hyps(2)] by simp
  then have s: "w \<noteq> s" if "queued a w" for w
    using queued_roles [OF a_V.prems(2) [unfolded fst_conv snd_conv] that] by blast
  have q: "queued (wake s a) = queued a" "queues_ok (wake s a) = queues_ok a" by (rule queued_frame(1), simp) (rule queued_frame(2), simp)
  show ?case unfolding fst_conv snd_conv
  proof (rule waiters_todo)
    show "guarded C fs" using guarded_tl [where todo = todo and a = a, OF _ _ a_V.hyps(2)] a_V.prems by simp
    show "\<exists>q. sem (wake s a) w = Some (0, q)" if "queued (wake s a) w" "sem a w = Some (0, q)" for w q
      using that s [of w] by (simp add: q wake_val(1))
  qed (use a_V waitersD(3) in \<open>auto simp: q\<close>)
next
  case (a_grant a todo l fs k s)
  let ?b = "a\<lparr>lk := (lk a)(l \<mapsto> (Some (cur a), s))\<rparr>"
  have q: "queued ?b = queued a" "queues_ok ?b = queues_ok a" by (rule queued_frame(1), simp) (rule queued_frame(2), simp)
  show ?case unfolding fst_conv snd_conv
  proof (rule waiters_todo)
    show "guarded C fs" using guarded_tl [where todo = todo and a = a, OF _ _ a_grant.hyps(2)] a_grant.prems by simp
  qed (use a_grant waitersD(3) in \<open>auto simp: q\<close>)
next
  case (a_release a todo l fs s)
  let ?b = "wake s (a\<lparr>lk := (lk a)(l \<mapsto> (None, s))\<rparr>)"
  have q: "queued ?b = queued a" "queues_ok ?b = queues_ok a" by (rule queued_frame(1), simp) (rule queued_frame(2), simp)
  have "owned a s" using a_release.hyps(3) by (auto simp: owned_def)
  then have s: "w \<noteq> s" if "queued a w" for w
    using queued_roles [OF a_release.prems(2) [unfolded fst_conv snd_conv] that] by blast
  show ?case unfolding fst_conv snd_conv
  proof (rule waiters_todo)
    show "guarded C fs" using guarded_tl [where todo = todo and a = a, OF _ _ a_release.hyps(2)] a_release.prems by simp
    show "\<exists>q. sem ?b w = Some (0, q)" if "queued ?b w" "sem a w = Some (0, q)" for w q
      using that s [of w] by (simp add: q wake_val(1))
  qed (use a_release waitersD(3) in \<open>auto simp: q\<close>)
next
  case (a_wait a todo c l fs ws w)
  show ?case unfolding fst_conv snd_conv
    by (rule waiters_wait) (use a_wait in simp_all)
next
  case (a_signal a todo c l fs w ws)
  let ?a = "a\<lparr>wq := (wq a)(c \<mapsto> ws)\<rparr>"
  let ?b = "wake w ?a"
  have ok: "queues_ok a" using waitersD(3) a_signal.prems(1) by simp
  have same: "queued ?b = queued ?a" "queues_ok ?b = queues_ok ?a" by (rule queued_frame(1), simp) (rule queued_frame(2), simp)
  have qb: "queues_ok ?b" unfolding same by (rule queue_pop(1) [OF ok a_signal.hyps(3)])
  have q: "queued ?b u \<Longrightarrow> queued a u \<and> u \<noteq> w" for u
    unfolding same by (rule queue_pop(2) [OF ok a_signal.hyps(3)])
  show ?case unfolding fst_conv snd_conv
  proof (rule waiters_todo)
    show "guarded C fs" using guarded_tl [where todo = todo and a = a, OF _ _ a_signal.hyps(2)] a_signal.prems by simp
    show "\<exists>q. sem ?b u = Some (0, q)" if "queued ?b u" "sem a u = Some (0, q)" for u q
      using that q [of u] by (simp add: wake_val(1))
  qed (use a_signal q qb in auto)
next
  case (a_destroy a todo w fs)
  let ?b = "a\<lparr>sem := (sem a)(w := None)\<rparr>"
  have q: "queued ?b = queued a" "queues_ok ?b = queues_ok a" by (rule queued_frame(1), simp) (rule queued_frame(2), simp)
  have "u \<noteq> w" if "queued a u" for u
    using waitersD(5) [OF a_destroy.prems(1) [unfolded fst_conv snd_conv] that]
      destroy_empty(2) [OF a_destroy.prems(1,4,2,3) [unfolded fst_conv snd_conv] a_destroy.hyps] by blast
  then have s: "\<exists>q. sem ?b u = Some (0, q)" if "queued ?b u" "sem a u = Some (0, q)" for u q
    using that by (simp add: q)
  show ?case unfolding fst_conv snd_conv
  proof (rule waiters_todo)
    show "guarded C fs" using guarded_tl [where todo = todo and a = a, OF _ _ a_destroy.hyps(2)] a_destroy.prems by simp
  qed (use a_destroy waitersD(3) s in \<open>auto simp: q\<close>)
qed

subsection \<open>The invariant\<close>

lemma sane_frame: "sane T a \<Longrightarrow> cur b = cur a \<Longrightarrow> rdy b = rdy a \<Longrightarrow> pl b = pl a \<Longrightarrow> sem b = sem a \<Longrightarrow> sane T b"
  by (simp add: sane_def placed_def)

lemma sane_next:
  assumes "sane T a" "rdy a \<noteq> []"
  shows "pl a (cur a) \<noteq> OnCPU \<Longrightarrow> sane T (dispatch a)" "pl a (cur a) = OnCPU \<Longrightarrow> sane T (rotated a)"
proof -
  obtain n r where r: "rdy a = n # r" using assms(2) by (cases "rdy a") auto
  note s = saneD [OF assms(1)]
  show "pl a (cur a) \<noteq> OnCPU \<Longrightarrow> sane T (dispatch a)"
    using placed_dispatch [OF s(1) _ s(2) r] s(2,3) r by (auto simp: sane_def dispatch_def)
  assume c: "pl a (cur a) = OnCPU"
  have "cur a \<notin> set (rdy a)" by (rule rdy_running [OF s(1) c])
  then show "sane T (rotated a)"
    using placed_rotated [OF s(1) c s(2) r] s(2,3) r by (auto simp: sane_def rotated_def)
qed

lemma sane_astep:
  "astep C x y \<Longrightarrow> running T (fst x) \<Longrightarrow> roles T C (fst x) (snd x) \<Longrightarrow> wakeup T (fst x) (snd x) \<Longrightarrow>
   waiters T C (fst x) (snd x) \<Longrightarrow> sane T (fst y)"
proof (induction rule: astep.induct)
  case (a_take a todo f fs s v q)
  then have "sane T a" by (simp add: running_def)
  then show ?case using a_take.hyps(4) unfolding fst_conv sane_def placed_def
    by (auto split: if_splits)
next
  case (a_doze a todo f fs s q)
  then show ?case by (simp add: running_def sane_doze)
next
  case (a_dispatch a todo)
  then show ?case by (simp add: running_def sane_next)
next
  case (a_yield a todo)
  then show ?case by (simp add: running_def sane_next)
next
  case (a_release a todo l fs s)
  then show ?case using sane_frame [of T a "a\<lparr>lk := (lk a)(l \<mapsto> (None, s))\<rparr>"] by (simp add: running_def sane_wake)
next
  case (a_signal a todo c l fs w ws)
  then show ?case using sane_frame [of T a "a\<lparr>wq := (wq a)(c \<mapsto> ws)\<rparr>"] by (simp add: running_def sane_wake)
next
  case (a_grant a todo l fs k s)
  then show ?case using sane_frame [of T a "a\<lparr>lk := (lk a)(l \<mapsto> (Some (cur a), s))\<rparr>"] by (simp add: running_def)
next
  case (a_wait a todo c l fs ws w)
  have s: "sane T a" using a_wait.prems(1) by (simp add: running_def)
  have "sem a w \<noteq> None \<longrightarrow> w < fresh a" using a_wait.prems(2) unfolding roles_def by simp
  then have "sem a w = None" using a_wait.hyps(4) by (cases "sem a w") auto
  then have "\<forall>t\<in>T. pl a t \<noteq> Asleep w" using placedD(5) [OF saneD(1) [OF s], of _ w] by blast
  with s show ?case unfolding fst_conv sane_def placed_def by (auto split: if_splits)
next
  case (a_destroy a todo w fs)
  have s: "sane T a" using a_destroy.prems(1) by (simp add: running_def)
  have "\<forall>t\<in>T. pl a t \<noteq> Asleep w"
    using destroy_empty(1) [OF a_destroy.prems(4,3,2,1) [unfolded fst_conv snd_conv] a_destroy.hyps] by blast
  with s show ?case unfolding fst_conv sane_def placed_def by (auto split: if_splits)
qed (simp_all add: running_def sane_wake)

lemma settled_astep:
  "astep C x y \<Longrightarrow> pl (fst x) t \<noteq> Chosen \<Longrightarrow> pl (fst y) t \<noteq> Chosen"
proof (induction rule: astep.induct)
  case (a_interrupt s a todo)
  then show ?case using wake_places [of s a t] by (elim disjE) simp_all
next
  case (a_V a todo s fs)
  then show ?case using wake_places [of s a t] by (elim disjE) simp_all
next
  case (a_release a todo l fs s)
  then show ?case using wake_places [of s "a\<lparr>lk := (lk a)(l \<mapsto> (None, s))\<rparr>" t] by (elim disjE) simp_all
next
  case (a_signal a todo c l fs w ws)
  then show ?case using wake_places [of w "a\<lparr>wq := (wq a)(c \<mapsto> ws)\<rparr>" t] by (elim disjE) simp_all
qed (simp_all add: doze_def dispatch_def rotated_def)

definition coherent :: "nat set \<Rightarrow> nat set \<Rightarrow> mon \<Rightarrow> todo \<Rightarrow> bool" where
  "coherent T C a todo \<longleftrightarrow> running T a \<and> roles T C a todo \<and> lock_units T a todo \<and> wakeup T a todo \<and> waiters T C a todo"

lemma coherent_step: "astep C x y \<Longrightarrow> coherent T C (fst x) (snd x) \<Longrightarrow> coherent T C (fst y) (snd y)"
proof -
  assume st: "astep C x y" and c: "coherent T C (fst x) (snd x)"
  have "running T (fst y)"
    using sane_astep [OF st] settled_astep [OF st] c unfolding coherent_def running_def by blast
  with st c show ?thesis
    by (simp add: coherent_def roles_astep lock_units_astep wakeup_astep waiters_astep)
qed

lemma coherent_steps: "(astep C)\<^sup>*\<^sup>* x y \<Longrightarrow> coherent T C (fst x) (snd x) \<Longrightarrow> coherent T C (fst y) (snd y)"
  by (induction rule: rtranclp_induct) (auto intro: coherent_step)

subsection \<open>The kernel implements the abstract machine\<close>

lemma V_Inr:
  assumes "view T m a" "sane T a" "Semaphore_V h s m = Inr m'"
  shows "view T m' (wake s a)"
proof (cases "sem a s")
  case None
  then have "semaphores (sos m) s = None" using view_no_sem [OF assms(1)] by simp
  then have False using assms(3) viewD(1) [OF assms(1)] by (simp add: Semaphore_V_def SetLevel_same)
  then show ?thesis ..
next
  case (Some x)
  obtain v q where x: "sem a s = Some (v, q)" using Some by (cases x) simp
  from V_view [OF assms(1) saneD(1) [OF assms(2)] x] obtain m2 where
    "Semaphore_V h s m = (if int_fits (v + 1) then Inr m2 else Inl SignedOverflow)" "view T m2 (wake s a)" by blast
  then show ?thesis using assms(3) by (auto split: if_splits)
qed

lemma wake_on: "sane T a \<Longrightarrow> pl a (cur a) = OnCPU \<Longrightarrow> pl (wake s a) (cur a) = OnCPU"
proof -
  assume a: "sane T a" "pl a (cur a) = OnCPU"
  have "t \<noteq> cur a" if "sem a s = Some (v, t # q)" for v t q
    using placedD(3) [OF saneD(1) [OF a(1)] that, of t] a(2) by auto
  then show ?thesis using a(2) by (auto simp: wake_def split: option.split list.split)
qed

lemma wakes_astep: "set ss \<subseteq> C \<Longrightarrow> (astep C)\<^sup>*\<^sup>* (a, todo) (wakes ss a, todo)"
proof (induction ss arbitrary: a)
  case (Cons s ss)
  then have "astep C (a, todo) (wake s a, todo)" by (simp add: a_interrupt)
  moreover have "(astep C)\<^sup>*\<^sup>* (wake s a, todo) (wakes ss (wake s a), todo)" using Cons by simp
  ultimately show ?case by (simp add: converse_rtranclp_into_rtranclp)
qed simp

text \<open>\<^verbatim>\<open>P\<close>, called by \<^verbatim>\<open>P\<close> itself or by \<^verbatim>\<open>Acquire\<close>.\<close>

lemma P_simulated:
  assumes "handlers_signal C h" "view T m a" "sane T a" "pl a (cur a) = OnCPU" "todo (cur a) = f # fs" "waits_on a f s"
    "sleeping f (granted f) (Semaphore_P rounds h s m) = Inr (gs, m')"
  shows "\<exists>b. view T m' b \<and> pl b (cur b) = OnCPU \<and> (astep C)\<^sup>*\<^sup>* (a, todo) (b, todo(cur a := gs @ fs))"
proof (cases "sem a s")
  case None
  then have "semaphores (sos m) s = None" using view_no_sem [OF assms(2)] by simp
  then have False using assms(7) viewD(1) [OF assms(2)]
    by (simp add: Semaphore_P_def SetLevel_same P_loop_def sleeping_def)
  then show ?thesis ..
next
  case (Some x)
  obtain v q where x: "sem a s = Some (v, q)" using Some by (cases x) simp
  from assms(7) obtain c where c: "Semaphore_P rounds h s m = Inr c"
    "(gs, m') = (case c of Stays m \<Rightarrow> (granted f, m) | Switches n m \<Rightarrow> ([Resume, f], m))"
    by (auto simp: sleeping_def bindR_eq_Inr)
  note p = P_view [OF assms(1-4) x c(1)]
  show ?thesis
  proof (cases "v = 0")
    case False
    from p(1) [OF this] c(2) have v: "gs = granted f" "view T m' (a\<lparr>sem := (sem a)(s \<mapsto> (v - 1, q))\<rparr>)" by auto
    have "astep C (a, todo) (a\<lparr>sem := (sem a)(s \<mapsto> (v - 1, q))\<rparr>, todo(cur a := gs @ fs))"
      unfolding v(1) by (rule a_take [where a = a and todo = todo, OF assms(4-6) x False])
    with v(2) assms(4) show ?thesis by (intro exI [of _ "a\<lparr>sem := (sem a)(s \<mapsto> (v - 1, q))\<rparr>"]) auto
  next
    case True
    from p(2) [OF this] c(2) obtain ss b where
      b: "gs = [Resume, f]" "set ss \<subseteq> C" "b = wakes ss (doze s a)" "rdy b \<noteq> []" "view T m' (dispatch b)" by auto
    let ?todo = "todo(cur a := Resume # f # fs)"
    have "astep C (a, todo) (doze s a, ?todo)"
      using a_doze [where a = a and todo = todo, OF assms(4-6)] x True by simp
    moreover have "(astep C)\<^sup>*\<^sup>* (doze s a, ?todo) (b, ?todo)" unfolding b(3) by (rule wakes_astep [OF b(2)])
    moreover have "astep C (b, ?todo) (dispatch b, ?todo)"
    proof (rule a_dispatch [OF _ b(4)])
      have "cur b = cur a" unfolding b(3) using x by (simp add: doze_def)
      moreover have "pl (doze s a) (cur a) \<noteq> OnCPU" using x by (simp add: doze_def)
      ultimately show "pl b (cur b) \<noteq> OnCPU" using wakes_off b(3) by simp
    qed
    ultimately have "(astep C)\<^sup>*\<^sup>* (a, todo) (dispatch b, todo(cur a := gs @ fs))"
      using b(1) by (simp add: converse_rtranclp_into_rtranclp)
    with b(5) show ?thesis by (intro exI [of _ "dispatch b"]) (simp add: dispatch_def)
  qed
qed

lemma Wait_simulated:
  assumes "view T m a" "Condition_Wait_enter c l m = Inr (w, m')"
  shows "\<exists>ws. w = fresh a \<and> wq a c = Some ws
    \<and> view T m' (a\<lparr>sem := (sem a)(w \<mapsto> (0, [])), fresh := Suc w, wq := (wq a)(c \<mapsto> ws @ [w])\<rparr>)"
proof -
  let ?m = "put_sys (\<lambda>k. k\<lparr>semaphores := (semaphores k)(nextSemaphore k \<mapsto> \<lparr>val = 0, sleepers = List_new\<rparr>),
       nextSemaphore := Suc (nextSemaphore k)\<rparr>) m"
  have new: "view T ?m (a\<lparr>sem := (sem a)(fresh a \<mapsto> (0, [])), fresh := Suc (fresh a)\<rparr>)"
    using assms(1) list_repr_new by (auto simp: view_def sem_repr_def)
  from assms(2) obtain y q where
    y: "w = nextSemaphore (sos m)" "conditions (sos m) c = Some y" "List_Append (waitQueue y) w = Inr q" "m' = put_condition c q ?m"
    by (auto simp: Condition_Wait_enter_def Semaphore_new_def bindR_eq_Inr assertR_eq_Inr)
  from view_condD [OF assms(1) y(2)] obtain ws where ws: "wq a c = Some ws" "list_repr (waitQueue y) ws" by blast
  have "w \<notin> set ws" using Append_dup [OF ws(2), of w] y(3) by auto
  from Append_ok [OF ws(2) this] y(3) have "list_repr q (ws @ [w])" by auto
  from view_put_condition [OF new this, of c] y(1,4) viewD(6) [OF assms(1)] ws(1) show ?thesis by auto
qed

lemma Signal_simulated:
  assumes "view T m a" "sane T a" "Condition_Signal h c l m = Inr m'"
  shows "m' = m \<or> (\<exists>w ws. wq a c = Some (w # ws) \<and> view T m' (wake w (a\<lparr>wq := (wq a)(c \<mapsto> ws)\<rparr>)))"
proof -
  from assms(3) obtain y where y: "conditions (sos m) c = Some y"
    "(if \<not> List_IsEmpty (waitQueue y)
         then bindR (List_RemoveFront (waitQueue y)) (\<lambda>(waiter, q). Semaphore_V h waiter (put_condition c q m))
         else Inr m) = Inr m'"
    by (auto simp: Condition_Signal_def bindR_eq_Inr assertR_eq_Inr)
  from view_condD [OF assms(1) y(1)] obtain ws where ws: "wq a c = Some ws" "list_repr (waitQueue y) ws" by blast
  show ?thesis
  proof (cases ws)
    case Nil
    with y(2) list_repr_empty [OF ws(2)] show ?thesis by simp
  next
    case (Cons w us)
    from RemoveFront_ok [OF ws(2) [unfolded Cons]] obtain q where
      q: "List_RemoveFront (waitQueue y) = Inr (w, q)" "list_repr q us" by blast
    have V: "Semaphore_V h w (put_condition c q m) = Inr m'" using y(2) list_repr_empty [OF ws(2)] Cons q(1) by simp
    have "sane T (a\<lparr>wq := (wq a)(c \<mapsto> us)\<rparr>)" by (rule sane_frame [OF assms(2)]) simp_all
    from V_Inr [OF view_put_condition [OF assms(1) q(2)] this V] ws(1) Cons show ?thesis by blast
  qed
qed

lemma staysD: "stays gs r = Inr (hs, m') \<Longrightarrow> hs = gs \<and> r = Inr m'"
  by (auto simp: stays_def bindR_eq_Inr)

lemma exec_simulated:
  assumes "handlers_signal C h" "view T m a" "sane T a" "pl a (cur a) = OnCPU" "todo (cur a) = f # fs"
    "exec rounds h f m = Inr (gs, m')"
  shows "\<exists>b. view T m' b \<and> pl b (cur b) = OnCPU \<and> (astep C)\<^sup>*\<^sup>* (a, todo) (b, todo(cur a := gs @ fs))"
proof -
  note w = viewD(4) [OF assms(2)]
  have one: ?thesis if "view T m' b" "pl b (cur b) = OnCPU" "astep C (a, todo) (b, todo(cur a := gs @ fs))" for b
    using that by blast
  show ?thesis
  proof (cases f)
    case Resume
    then have r: "gs = []" "Run_resumed (cur a) m = Inr m'" using assms(6) w by (simp_all add: staysD)
    have "view T m' a" using Run_resumed_view [OF assms(2) placedD(1) [OF saneD(1) [OF assms(3)]]] r(2) by auto
    then show ?thesis
      by (rule one) (use assms(4) a_silent [where a = a and todo = todo, OF assms(4,5)] Resume r(1) in \<open>simp_all add: silent_def\<close>)
  next
    case (P s)
    show ?thesis
      by (rule P_simulated [where a = a and todo = todo, OF assms(1-5)]) (use assms(6) P in \<open>simp_all add: waits_on_def\<close>)
  next
    case (V s)
    then have r: "gs = []" "Semaphore_V h s m = Inr m'" using assms(6) by (simp_all add: staysD)
    show ?thesis
      by (rule one [OF V_Inr [OF assms(2,3) r(2)]])
         (use wake_on [OF assms(3,4)] a_V [where a = a and todo = todo, OF assms(4)] assms(5) V r(1) in simp_all)
  next
    case (Acquire l)
    then have e: "sleeping (Acquire l) [Grant l] (Lock_Acquire rounds h l m) = Inr (gs, m')" using assms(6) by simp
    then obtain x where x: "locks (sos m) l = Some x" by (auto simp: Lock_Acquire_def sleeping_def bindR_eq_Inr)
    have lk: "lk a l = Some (lockHolder x, semaphore x)" by (rule view_lockD [OF assms(2) x])
    show ?thesis
      by (rule P_simulated [where a = a and todo = todo and s = "semaphore x", OF assms(1-5)]) (use e x lk Acquire in \<open>auto simp: waits_on_def Lock_Acquire_def\<close>)
  next
    case (Grant l)
    then have e: "gs = []" "Lock_Acquire_granted l m = Inr m'" using assms(6) by (simp_all add: staysD)
    then obtain x where x: "locks (sos m) l = Some x" "m' = put_lock l (x\<lparr>lockHolder := Some (cur a)\<rparr>) m"
      using w by (auto simp: Lock_Acquire_granted_def bindR_eq_Inr)
    have lk: "lk a l = Some (lockHolder x, semaphore x)" by (rule view_lockD [OF assms(2) x(1)])
    show ?thesis
      by (rule one [OF view_put_lock [OF assms(2), of l "x\<lparr>lockHolder := Some (cur a)\<rparr>", folded x(2)]])
         (use a_grant [where a = a and todo = todo, OF assms(4) _ lk] assms(4,5) Grant e(1) in simp_all)
  next
    case (Release l)
    then have e: "gs = []" "Lock_Release h l m = Inr m'" using assms(6) by (simp_all add: staysD)
    then obtain x where x: "locks (sos m) l = Some x" "lockHolder x = Some (cur a)"
      "Semaphore_V h (semaphore x) (put_lock l (x\<lparr>lockHolder := None\<rparr>) m) = Inr m'"
      using w by (auto simp: Lock_Release_def bindR_eq_Inr assertR_eq_Inr IsHeldByCurrentThread_def)
    have lk: "lk a l = Some (Some (cur a), semaphore x)" using view_lockD [OF assms(2) x(1)] x(2) by simp
    let ?b = "a\<lparr>lk := (lk a)(l \<mapsto> (None, semaphore x))\<rparr>"
    have b: "view T (put_lock l (x\<lparr>lockHolder := None\<rparr>) m) ?b"
      using view_put_lock [OF assms(2), of l "x\<lparr>lockHolder := None\<rparr>"] by simp
    have sb: "sane T ?b" by (rule sane_frame [OF assms(3)]) simp_all
    show ?thesis
      by (rule one [OF V_Inr [OF b sb x(3)]])
         (use a_release [where a = a and todo = todo, OF assms(4) _ lk] wake_on [OF sb, of "semaphore x"] assms(4,5) Release e(1) in simp_all)
  next
    case (Wait c l)
    with assms(6) obtain u where u: "Condition_Wait_enter c l m = Inr (u, m')"
      "gs = [Release l, P u, Acquire l, Destroy u]" by (auto simp: bindR_eq_Inr)
    from Wait_simulated [OF assms(2) u(1)] obtain ws where
      ws: "u = fresh a" "wq a c = Some ws"
        "view T m' (a\<lparr>sem := (sem a)(u \<mapsto> (0, [])), fresh := Suc u, wq := (wq a)(c \<mapsto> ws @ [u])\<rparr>)" by blast
    show ?thesis
      by (rule one [OF ws(3)])
         (use a_wait [where a = a and todo = todo, OF assms(4) _ ws(2,1)] assms(4,5) Wait u(2) in simp_all)
  next
    case (Signal c l)
    then have e: "gs = []" "Condition_Signal h c l m = Inr m'" using assms(6) by (simp_all add: staysD)
    from Signal_simulated [OF assms(2,3) e(2)] consider "m' = m"
      | u ws where "wq a c = Some (u # ws)" "view T m' (wake u (a\<lparr>wq := (wq a)(c \<mapsto> ws)\<rparr>))" by blast
    then show ?thesis
    proof cases
      case 1
      show ?thesis
        by (rule one [of a]) (use a_silent [where a = a and todo = todo, OF assms(4,5)] assms(2,4) Signal 1 e(1) in \<open>simp_all add: silent_def\<close>)
    next
      case 2
      have sb: "sane T (a\<lparr>wq := (wq a)(c \<mapsto> ws)\<rparr>)" by (rule sane_frame [OF assms(3)]) simp_all
      show ?thesis
        by (rule one [OF 2(2)])
           (use a_signal [where a = a and todo = todo, OF assms(4) _ 2(1)] wake_on [OF sb, of u] assms(4,5) Signal e(1) in simp_all)
    qed
  next
    case (Broadcast c l)
    with assms(6) have "m' = m" "gs = [] \<or> gs = [Signal c l, Broadcast c l]" by (auto simp: bindR_eq_Inr split: if_splits)
    then show ?thesis
      by - (rule one [of a], use a_silent [where a = a and todo = todo, OF assms(4,5)] assms(2,4) Broadcast in \<open>auto simp: silent_def\<close>)
  next
    case (Destroy u)
    then have e: "gs = []" "Semaphore_delete u m = Inr m'" using assms(6) by (simp_all add: staysD)
    then have "m' = put_sys (\<lambda>k. k\<lparr>semaphores := (semaphores k)(u := None)\<rparr>) m"
      by (auto simp: Semaphore_delete_def bindR_eq_Inr)
    then have "view T m' (a\<lparr>sem := (sem a)(u := None)\<rparr>)" using assms(2) by (simp add: view_def sem_repr_def)
    then show ?thesis
      by (rule one) (use a_destroy [where a = a and todo = todo, OF assms(4)] assms(4,5) Destroy e(1) in simp_all)
  qed
qed

lemma kstep_simulated:
  "kstep rounds h C x y \<Longrightarrow> handlers_signal C h \<Longrightarrow> view T (fst x) a \<Longrightarrow> sane T a \<Longrightarrow> pl a (cur a) = OnCPU \<Longrightarrow>
   \<exists>b. view T (fst y) b \<and> pl b (cur b) = OnCPU \<and> (astep C)\<^sup>*\<^sup>* (a, snd x) (b, snd y)"
proof (induction rule: kstep.induct)
  case (run t m todo f fs gs m')
  then have t: "t = cur a" using viewD(4) by simp
  show ?case unfolding fst_conv snd_conv t
    by (rule exec_simulated [where rounds = rounds]) (use run t in auto)
next
  case (call t m todo f)
  then have t: "t = cur a" using viewD(4) by simp
  have "astep C (a, todo) (a, todo(cur a := [f]))" by (rule a_call) (use call t in auto)
  then show ?case using call.prems unfolding fst_conv snd_conv t by blast
next
  case (preempt t m n m' todo)
  then have t: "t = cur a" using viewD(4) by simp
  note v = preempt.prems(2) [unfolded fst_conv]
  show ?case
  proof (cases "rdy a")
    case Nil
    with Yield_view(1) [OF v saneD(1) [OF preempt.prems(3)] preempt.prems(4)] preempt.hyps(2) t show ?thesis by simp
  next
    case (Cons k r)
    from Yield_view(2) [where h = h, OF v saneD(1) [OF preempt.prems(3)] preempt.prems(4) Cons] preempt.hyps(2) t
    have "view T m' (rotated a)" by auto
    moreover have "astep C (a, todo) (rotated a, todo(cur a := Resume # todo (cur a)))"
      by (rule a_yield [OF preempt.prems(4)]) (use Cons in simp)
    moreover have "pl (rotated a) (cur (rotated a)) = OnCPU" by (simp add: rotated_def)
    ultimately show ?thesis unfolding fst_conv snd_conv t by blast
  qed
next
  case (interrupt s m m' todo)
  have "view T m' (wake s a)" by (rule V_Inr [OF interrupt.prems(2) [unfolded fst_conv] interrupt.prems(3) interrupt.hyps(2)])
  moreover have "astep C (a, todo) (wake s a, todo)" by (rule a_interrupt [OF interrupt.hyps(1)])
  ultimately show ?case using wake_on [OF interrupt.prems(3,4), of s] unfolding fst_conv snd_conv
    by (intro exI [of _ "wake s a"]) auto
qed

lemma ksteps_coherent:
  "(kstep rounds h C)\<^sup>*\<^sup>* x y \<Longrightarrow> handlers_signal C h \<Longrightarrow> view T (fst x) a \<Longrightarrow> coherent T C a (snd x) \<Longrightarrow> pl a (cur a) = OnCPU \<Longrightarrow>
   \<exists>b. view T (fst y) b \<and> coherent T C b (snd y) \<and> pl b (cur b) = OnCPU \<and> (astep C)\<^sup>*\<^sup>* (a, snd x) (b, snd y)"
proof (induction rule: rtranclp_induct)
  case (step y z)
  then obtain b where b: "view T (fst y) b" "coherent T C b (snd y)" "pl b (cur b) = OnCPU" "(astep C)\<^sup>*\<^sup>* (a, snd x) (b, snd y)"
    by blast
  have "sane T b" using b(2) by (simp add: coherent_def running_def)
  from kstep_simulated [OF step.hyps(2) step.prems(1) b(1) this b(3)] obtain d where
    d: "view T (fst z) d" "pl d (cur d) = OnCPU" "(astep C)\<^sup>*\<^sup>* (b, snd y) (d, snd z)" by blast
  from coherent_steps [OF d(3), of T] b(2) have "coherent T C d (snd z)" by simp
  with d b(4) show ?case by (meson rtranclp_trans)
qed blast

end
