(* ===== verification/MonitorLaws.thy ===== *)
theory MonitorLaws
  imports Monitors
begin

text \<open>
  What the synchronisation of threads guarantees on the model of the kernel, for the interrupt handlers that
  NachOS installs: the timer of \<^verbatim>\<open>threads/alarm.cc\<close> and the devices whose \<^verbatim>\<open>CallBack\<close> is one \<^verbatim>\<open>V\<close>
  (\<^verbatim>\<open>SynchDisk\<close>, \<^verbatim>\<open>SynchConsoleInput\<close>, \<^verbatim>\<open>SynchConsoleOutput\<close>).
\<close>

subsection \<open>Interrupt handlers\<close>

lemma view_cong: "dev m' = dev m \<Longrightarrow> level m' = level m \<Longrightarrow> view T m' a = view T m a"
  by (simp add: view_def)

locale interrupt_source =
  fixes h :: "Sys CPU hooks" and C :: "nat set"
  assumes callback: "onCallBack h d m = Inr m' \<Longrightarrow> view T m a \<Longrightarrow> sane T a \<Longrightarrow> \<exists>ss. set ss \<subseteq> C \<and> view T m' (wakes ss a)"
    and delayed: "onDelayedLoad h m = Inr m' \<Longrightarrow> view T m a \<Longrightarrow> view T m' a"
begin

lemma fire_due_signals:
  "fire_due k h m = Inr m' \<Longrightarrow> view T m a \<Longrightarrow> sane T a \<Longrightarrow> \<exists>ss. set ss \<subseteq> C \<and> view T m' (wakes ss a)"
proof (induction k arbitrary: m a)
  case (Suc k)
  from Suc.prems(1) obtain p l m1 where
    p: "List_RemoveFront (pending m) = Inr (p, l)" "onCallBack h (callOnInterrupt p) (m\<lparr>pending := l\<rparr>) = Inr m1"
      "m' = m1 \<or> fire_due k h m1 = Inr m'"
    by (auto simp: bindR_eq_Inr split: if_splits)
  have "view T (m\<lparr>pending := l\<rparr>) a" using Suc.prems(2) by (simp add: view_def)
  from callback [OF p(2) this Suc.prems(3)] obtain ss where ss: "set ss \<subseteq> C" "view T m1 (wakes ss a)" by blast
  from p(3) show ?case
  proof
    assume "fire_due k h m1 = Inr m'"
    from Suc.IH [OF this ss(2) sane_wakes [OF Suc.prems(3)]] obtain us where
      "set us \<subseteq> C" "view T m' (wakes (ss @ us) a)" by auto
    with ss(1) show ?thesis by (intro exI [of _ "ss @ us"]) simp
  qed (use ss in blast)
qed simp

lemma invoke_handlers_signals:
  assumes "invoke_handlers h m = Inr (b, m')" "view T m a" "sane T a"
  shows "\<exists>ss. set ss \<subseteq> C \<and> view T m' (wakes ss a)"
proof -
  from assms(1) obtain m1 m2 where m: "onDelayedLoad h m = Inr m1"
    "fire_due (nat (numInList (pending m1))) h (m1\<lparr>inHandler := True\<rparr>) = Inr m2" "m' = m2\<lparr>inHandler := False\<rparr>"
    by (auto simp: invoke_handlers_def bindR_eq_Inr)
  have "view T (m1\<lparr>inHandler := True\<rparr>) a" using delayed [OF m(1) assms(2)] by (simp add: view_def)
  from fire_due_signals [OF m(2) this assms(3)] show ?thesis unfolding m(3) by (auto simp: view_def)
qed

lemma signals: "handlers_signal C h"
  unfolding handlers_signal_def
proof (intro allI impI)
  fix m m' T a assume m: "Interrupt_Idle h m = Inr m'" and v: "view T m a" and s: "sane T a"
  from m obtain m1 where m1: "Interrupt_CheckIfDue h True (m\<lparr>mstatus := IdleMode\<rparr>) = Inr (True, m1)" "m' = m1\<lparr>mstatus := SystemMode\<rparr>"
    by (auto simp: Interrupt_Idle_def bindR_eq_Inr split: if_splits)
  from m1(1) obtain st where "invoke_handlers h (m\<lparr>mstatus := IdleMode, stats := st\<rparr>) = Inr (True, m1)
      \<or> invoke_handlers h (m\<lparr>mstatus := IdleMode\<rparr>) = Inr (True, m1)"
    by (auto simp: Interrupt_CheckIfDue_def bindR_eq_Inr assertR_eq_Inr split: if_splits)
  moreover have "view T (m\<lparr>mstatus := IdleMode, stats := st\<rparr>) a" "view T (m\<lparr>mstatus := IdleMode\<rparr>) a"
    using v by (simp_all add: view_def)
  ultimately have "\<exists>ss. set ss \<subseteq> C \<and> view T m1 (wakes ss a)"
    using invoke_handlers_signals s by blast
  then show "\<exists>ss. set ss \<subseteq> C \<and> view T m' (wakes ss a)" unfolding m1(2) by (auto simp: view_def)
qed

end

text \<open>The handlers of the kernel: \<open>waitFor\<close> gives the semaphore of each device; without one, it is the timer.\<close>

definition no_hooks :: "Sys CPU hooks" where
  "no_hooks = \<lparr>onCallBack = (\<lambda>d. Inr), onDelayedLoad = Inr, onYield = Inr\<rparr>"

definition device_CallBack :: "(CallBackObj \<rightharpoonup> nat) \<Rightarrow> CallBackObj \<Rightarrow> sys \<Rightarrow> sys res" where
  "device_CallBack waitFor d m =
     (case waitFor d of None \<Rightarrow> Alarm4_CallBack m | Some s \<Rightarrow> Semaphore_V no_hooks s m)"

definition kernel_hooks :: "(CallBackObj \<rightharpoonup> nat) \<Rightarrow> Sys CPU hooks" where
  "kernel_hooks waitFor = \<lparr>onCallBack = device_CallBack waitFor, onDelayedLoad = Machine_DelayedLoad 0 0, onYield = Inr\<rparr>"

interpretation kernel_irq: interrupt_source "kernel_hooks waitFor" "ran waitFor" for waitFor
proof
  fix d m m' T a
  assume "onCallBack (kernel_hooks waitFor) d m = Inr m'" and v: "view T m a" and s: "sane T a"
  then have d: "device_CallBack waitFor d m = Inr m'" by (simp add: kernel_hooks_def)
  show "\<exists>ss. set ss \<subseteq> ran waitFor \<and> view T m' (wakes ss a)"
  proof (cases "waitFor d")
    case None
    then have "dev m' = dev m" "level m' = level m"
      using d by (auto simp: device_CallBack_def Alarm4_CallBack_def Interrupt_YieldOnReturn_def assertR_eq_Inr split: if_splits)
    then have "view T m' a" using view_cong v by blast
    then show ?thesis by (intro exI [of _ "[]"]) simp
  next
    case (Some u)
    then have "Semaphore_V no_hooks u m = Inr m'" using d by (simp add: device_CallBack_def)
    from V_Inr [OF v s this] Some show ?thesis by (intro exI [of _ "[u]"]) (auto intro: ranI)
  qed
next
  fix m m' T a
  assume "onDelayedLoad (kernel_hooks waitFor) m = Inr m'" and v: "view T m a"
  then have "Machine_DelayedLoad 0 0 m = Inr m'" by (simp add: kernel_hooks_def)
  then have "sos m' = sos m" "level m' = level m" "length (registers (dev m')) = length (registers (dev m))"
    by (auto simp: Machine_DelayedLoad_def Let_def inboundsR_eq_Inr set_reg_def)
  with v show "view T m' a" by (simp add: view_def)
qed

lemma handlers_signal_mono: "handlers_signal C h \<Longrightarrow> C \<subseteq> D \<Longrightarrow> handlers_signal D h"
  unfolding handlers_signal_def by (meson order_trans)

lemma kernel_signals: "ran waitFor \<subseteq> C \<Longrightarrow> handlers_signal C (kernel_hooks waitFor)"
  by (rule handlers_signal_mono [OF kernel_irq.signals])

subsection \<open>Configurations\<close>

definition well_formed :: "nat set \<Rightarrow> nat set \<Rightarrow> sys \<Rightarrow> todo \<Rightarrow> bool" where
  "well_formed T C m todo \<longleftrightarrow> (\<exists>a. view T m a \<and> coherent T C a todo \<and> pl a (cur a) = OnCPU)"

lemma reachable_view:
  assumes "well_formed T C m todo" "ran waitFor \<subseteq> C" "(kstep rounds (kernel_hooks waitFor) C)\<^sup>*\<^sup>* (m, todo) (m', todo')"
  obtains a where "view T m' a" "coherent T C a todo'" "pl a (cur a) = OnCPU"
proof -
  from assms(1) obtain a where a: "view T m a" "coherent T C a todo" "pl a (cur a) = OnCPU" by (auto simp: well_formed_def)
  from ksteps_coherent [OF assms(3) kernel_signals [OF assms(2)]] a that show ?thesis by fastforce
qed

text \<open>The thread is in the loop of \<^verbatim>\<open>P\<close> on \<open>s\<close>, called directly, by \<^verbatim>\<open>Wait\<close> or by \<^verbatim>\<open>Acquire\<close>.\<close>

definition in_P :: "sys \<Rightarrow> todo \<Rightarrow> nat \<Rightarrow> nat \<Rightarrow> bool" where
  "in_P m todo t s \<longleftrightarrow> (case first (todo t) of
     Some (P u) \<Rightarrow> u = s
   | Some (Acquire l) \<Rightarrow> (case locks (sos m) l of Some x \<Rightarrow> semaphore x = s | None \<Rightarrow> False)
   | _ \<Rightarrow> False)"

lemma in_P_view: "view T m a \<Longrightarrow> at_P a todo t s \<Longrightarrow> in_P m todo t s"
  using view_lock by (fastforce simp: at_P_def waits_on_def in_P_def)

definition awake :: "sys \<Rightarrow> nat \<Rightarrow> bool" where
  "awake m t \<longleftrightarrow> (\<exists>r. threads (sos m) t = Some r \<and> status r \<in> {RUNNING, READY})"

lemma takers_awake:
  assumes "view T m a" "coherent T C a todo" "t \<in> takers T a todo s"
  shows "awake m t" "in_P m todo t s"
proof -
  have t: "t \<in> T" "pl a t \<noteq> Asleep s" "at_P a todo t s" using assms(3) by (auto simp: takers_def)
  have c: "pl a t \<noteq> Chosen" "wakeup T a todo" "roles T C a todo" using assms(2) t(1) by (auto simp: coherent_def running_def)
  have "pl a t \<noteq> Asleep u" for u
  proof
    assume u: "pl a t = Asleep u"
    from wakeupD(1) [OF c(2) t(1) this] t(3) obtain f where "waits_on a f u" "waits_on a f s" by (auto simp: at_P_def)
    from waits_unique [OF c(3) this] u t(2) show False by simp
  qed
  then have "pl a t = OnCPU \<or> pl a t = Ready" using c(1) by (cases "pl a t") auto
  then show "awake m t" using view_thread [OF assms(1) t(1)] by (auto simp: awake_def state_ok_def)
  show "in_P m todo t s" by (rule in_P_view [OF assms(1) t(3)])
qed

subsection \<open>A kernel with two threads\<close>

definition one_ready :: "nat List" where
  "one_ready = (case List_Append List_new 1 of Inr l \<Rightarrow> l | Inl e \<Rightarrow> List_new)"

definition boot :: sys where
  "boot = Interrupt_new (Machine_new \<lparr>threads = [0 \<mapsto> (TCB_new 0)\<lparr>status := RUNNING\<rparr>, 1 \<mapsto> (TCB_new 1)\<lparr>status := READY\<rparr>],
     currentThread = 0, readyList = one_ready, toBeDestroyed = None,
     semaphores = [0 \<mapsto> \<lparr>val = 1, sleepers = List_new\<rparr>, 1 \<mapsto> \<lparr>val = 0, sleepers = List_new\<rparr>], nextSemaphore = 2,
     locks = [0 \<mapsto> \<lparr>lockHolder = None, semaphore = 0\<rparr>], conditions = [0 \<mapsto> \<lparr>waitQueue = List_new\<rparr>],
     timerDisabled = False, consoleDisabled = False\<rparr>)"

definition boot_todo :: todo where
  "boot_todo = (\<lambda>t. if t = 0 then [] else [Resume])"

definition boot_view :: mon where
  "boot_view = \<lparr>cur = 0, pl = (\<lambda>t. if t = 0 then OnCPU else Ready), rdy = [1], sem = [0 \<mapsto> (1, []), 1 \<mapsto> (0, [])],
     fresh = 2, lk = [0 \<mapsto> (None, 0)], wq = [0 \<mapsto> []]\<rparr>"

lemma boot_ok: "view {0, 1} boot boot_view" "coherent {0, 1} {1} boot_view boot_todo" "pl boot_view (cur boot_view) = OnCPU"
proof -
  from Append_ok [OF list_repr_new, of "1 :: nat"] have r: "list_repr one_ready [1]"
    by (auto simp: one_ready_def simp del: One_nat_def)
  show "view {0, 1} boot boot_view"
    using r unfolding view_def
    by (simp add: boot_def boot_view_def Interrupt_new_def Machine_new_def TCB_new_def tcb_ok_def CheckOverflow_def
        state_ok_def sem_repr_def list_repr_new)
  have "sane {0, 1} boot_view" unfolding sane_def placed_def by (auto simp: boot_view_def split: if_splits)
  then have "running {0, 1} boot_view" by (simp add: running_def boot_view_def)
  moreover have "roles {0, 1} {1} boot_view boot_todo"
    unfolding roles_def by (auto simp: boot_view_def boot_todo_def owned_def split: if_splits)
  moreover have "lock_units {0, 1} boot_view boot_todo"
    by (auto simp: lock_units_def boot_view_def boot_todo_def total_def split: if_splits)
  moreover have "wakeup {0, 1} boot_view boot_todo"
    unfolding wakeup_def by (auto simp: boot_view_def split: if_splits)
  moreover have "waiters {0, 1} {1} boot_view boot_todo"
    by (auto simp: waiters_def boot_view_def boot_todo_def total_def queued_def queues_ok_def split: if_splits)
  ultimately show "coherent {0, 1} {1} boot_view boot_todo" by (simp add: coherent_def)
  show "pl boot_view (cur boot_view) = OnCPU" by (simp add: boot_view_def)
qed

lemma boot_well_formed: "well_formed {0, 1} {1} boot boot_todo"
  using boot_ok by (auto simp: well_formed_def)

subsection \<open>Properties\<close>

text \<open>
  C1: the kernel refines the abstract machine: every run of threads through the routines of \<^verbatim>\<open>synch.cc\<close>,
  with preemptions and interrupts anywhere, is a run of the machine on sequences, and the places of the threads, the
  semaphore values, the waiting lists, the lock holders and the condition queues agree all the way.
\<close>

theorem synch_refines:
  assumes "view T m a" "coherent T C a todo" "pl a (cur a) = OnCPU" "ran waitFor \<subseteq> C"
    "(kstep rounds (kernel_hooks waitFor) C)\<^sup>*\<^sup>* (m, todo) (m', todo')"
  shows "\<exists>b. view T m' b \<and> pl b (cur b) = OnCPU \<and> coherent T C b todo' \<and> (astep C)\<^sup>*\<^sup>* (a, todo) (b, todo')"
  using ksteps_coherent [OF assms(5) kernel_signals [OF assms(4)], of T a] assms(1-3) by auto

text \<open>A thread acquires the lock of the sample kernel.\<close>

lemma boot_acquire:
  assumes "ran waitFor \<subseteq> {1}"
  obtains m where "(kstep 5 (kernel_hooks waitFor) {1})\<^sup>*\<^sup>* (boot, boot_todo) (m, boot_todo(0 := [Grant 0]))"
    "locks (sos m) 0 = Some \<lparr>lockHolder = None, semaphore = 0\<rparr>"
proof -
  let ?h = "kernel_hooks waitFor" and ?m = "put_sem 0 \<lparr>val = 0, sleepers = List_new\<rparr> boot"
  have c: "currentThread (sos boot) = 0" "semaphores (sos boot) 0 = Some \<lparr>val = 1, sleepers = List_new\<rparr>"
    "locks (sos boot) 0 = Some \<lparr>lockHolder = None, semaphore = 0\<rparr>" "level boot = IntOff"
    by (simp_all add: boot_def Interrupt_new_def Machine_new_def)
  have "kstep 5 ?h {1} (boot, boot_todo) (boot, boot_todo(0 := [Acquire 0]))"
    by (rule kstep.call) (simp_all add: c boot_todo_def calls_def)
  moreover have "exec 5 ?h (Acquire 0) boot = Inr ([Grant 0], ?m)"
    using c by (simp add: sleeping_def Lock_Acquire_def Semaphore_P_def SetLevel_same P_loop_def P_end_def int_fits_def put_sem_def)
  from kstep.run [where todo = "boot_todo(0 := [Acquire 0])" and t = 0, OF _ _ this, of "[]" "{1}"]
  have "kstep 5 ?h {1} (boot, boot_todo(0 := [Acquire 0])) (?m, (boot_todo(0 := [Acquire 0]))(0 := [Grant 0] @ []))"
    using c(1) by simp
  ultimately have "(kstep 5 ?h {1})\<^sup>*\<^sup>* (boot, boot_todo) (?m, boot_todo(0 := [Grant 0]))"
    by (simp add: converse_rtranclp_into_rtranclp)
  then show ?thesis by (rule that) (simp add: c put_sem_def)
qed

lemma synch_refines_witness:
  "\<exists>m b. view {0, 1} m b \<and> coherent {0, 1} {1} b (boot_todo(0 := [Grant 0]))
     \<and> (astep {1})\<^sup>*\<^sup>* (boot_view, boot_todo) (b, boot_todo(0 := [Grant 0]))"
proof -
  from boot_acquire [of "[TheDisk \<mapsto> 1]"] obtain m where
    "(kstep 5 (kernel_hooks [TheDisk \<mapsto> 1]) {1})\<^sup>*\<^sup>* (boot, boot_todo) (m, boot_todo(0 := [Grant 0]))" by auto
  from synch_refines [OF boot_ok _ this] show ?thesis by auto
qed

text \<open>
  C7: locks exclude each other: when a thread has passed \<^verbatim>\<open>P\<close> in \<^verbatim>\<open>Acquire\<close> and is about to become the holder, the lock has no
  holder, no other thread is at that point and the semaphore is 0; and while a thread holds the lock, no
  thread is at that point. So \<^verbatim>\<open>lockHolder\<close> changes from one thread to another only through \<^verbatim>\<open>Release\<close>, whose assertion
  admits only the holder.
\<close>

theorem lock_exclusive:
  assumes "well_formed T C m todo" "ran waitFor \<subseteq> C" "(kstep rounds (kernel_hooks waitFor) C)\<^sup>*\<^sup>* (m, todo) (m', todo')"
    "locks (sos m') l = Some x" "t \<in> T" "Grant l \<in> set (todo' t)"
  shows "lockHolder x = None \<and> (\<exists>y. semaphores (sos m') (semaphore x) = Some y \<and> val y = 0)
     \<and> (\<forall>u\<in>T. Grant l \<in> set (todo' u) \<longrightarrow> u = t)"
proof -
  from reachable_view [OF assms(1-3)] obtain a where a: "view T m' a" "coherent T C a todo'" by blast
  have lk: "lk a l = Some (lockHolder x, semaphore x)" by (rule view_lockD [OF a(1) assms(4)])
  have fin: "finite T" and u: "lock_units T a todo'" using a(2) by (simp_all add: coherent_def running_def)
  from lock_unitsD [OF u lk] obtain v q where
    v: "sem a (semaphore x) = Some (v, q)" "0 \<le> v" "v + (if lockHolder x = None then 0 else 1) + total T (Grant l) todo' = 1"
    by blast
  have one: "1 \<le> int (count_list (todo' u) (Grant l))" if "Grant l \<in> set (todo' u)" for u
    using that count_list_0_iff [of "todo' u" "Grant l"] by (simp add: Suc_le_eq)
  have g: "1 \<le> total T (Grant l) todo'" using total_ge [OF fin assms(5), of todo' "Grant l"] one [OF assms(6)] by simp
  have "u = t" if u: "u \<in> T" "Grant l \<in> set (todo' u)" for u
  proof (rule ccontr)
    assume "u \<noteq> t"
    have "total T (Grant l) todo' = int (count_list (todo' t) (Grant l)) + total (T - {t}) (Grant l) todo'"
      unfolding total_def by (rule sum.remove [OF fin assms(5)])
    moreover have "int (count_list (todo' u) (Grant l)) \<le> total (T - {t}) (Grant l) todo'"
      by (rule total_ge) (use fin u(1) \<open>u \<noteq> t\<close> in simp_all)
    ultimately show False using one [OF assms(6)] one [OF u(2)] v(2,3) by (auto split: if_splits)
  qed
  moreover have "lockHolder x = None" "v = 0" using g v(2,3) by (auto split: if_splits)
  ultimately show ?thesis using view_sem [OF a(1) v(1)] by auto
qed

lemma lock_exclusive_witness:
  "\<exists>m x. (kstep 5 (kernel_hooks [TheDisk \<mapsto> 1]) {1})\<^sup>*\<^sup>* (boot, boot_todo) (m, boot_todo(0 := [Grant 0]))
     \<and> locks (sos m) 0 = Some x \<and> lockHolder x = None \<and> (\<exists>y. semaphores (sos m) (semaphore x) = Some y \<and> val y = 0)"
proof -
  from boot_acquire [of "[TheDisk \<mapsto> 1]"] obtain m where
    m: "(kstep 5 (kernel_hooks [TheDisk \<mapsto> 1]) {1})\<^sup>*\<^sup>* (boot, boot_todo) (m, boot_todo(0 := [Grant 0]))"
      "locks (sos m) 0 = Some \<lparr>lockHolder = None, semaphore = 0\<rparr>" by auto
  from lock_exclusive [OF boot_well_formed _ m(1,2), of 0] m show ?thesis by auto
qed

text \<open>
  C5: no wakeup is lost: whenever threads sleep on a semaphore, its value is at most the number of threads that are
  awake in the loop of \<^verbatim>\<open>P\<close> on it and will test it. In particular, if the value is positive, a thread that
  will take it is already running or ready; the order in which threads barge in does not matter.
\<close>

theorem no_lost_wakeup:
  assumes "well_formed T C m todo" "ran waitFor \<subseteq> C" "(kstep rounds (kernel_hooks waitFor) C)\<^sup>*\<^sup>* (m, todo) (m', todo')"
    "semaphores (sos m') s = Some x" "list_repr (sleepers x) q" "q \<noteq> []"
  shows "0 \<le> val x \<and> val x \<le> int (card {t \<in> T. t \<notin> set q \<and> awake m' t \<and> in_P m' todo' t s})"
proof -
  from reachable_view [OF assms(1-3)] obtain a where a: "view T m' a" "coherent T C a todo'" by blast
  have c: "finite T" "sane T a" "wakeup T a todo'" using a(2) by (simp_all add: coherent_def running_def)
  have "sem a s \<noteq> None" using view_no_sem [OF a(1), of s] assms(4) by auto
  then obtain v p where v: "sem a s = Some (v, p)" by (cases "sem a s") auto
  from view_sem [OF a(1) v] assms(4) have x: "val x = v" "list_repr (sleepers x) p" by auto
  have p: "p = q" by (rule list_repr_unique [OF x(2) assms(5)])
  have "takers T a todo' s \<subseteq> {t \<in> T. t \<notin> set q \<and> awake m' t \<and> in_P m' todo' t s}"
    using takers_awake [OF a] placedD(3) [OF saneD(1) [OF c(2)] v] p by (auto simp: takers_def)
  then have "card (takers T a todo' s) \<le> card {t \<in> T. t \<notin> set q \<and> awake m' t \<and> in_P m' todo' t s}"
    by (intro card_mono) (use c(1) in simp_all)
  with wakeupD(2,3) [OF c(3) v] x(1) p assms(6) show ?thesis by fastforce
qed

text \<open>The first thread of the sample kernel falls asleep on semaphore 1.\<close>

lemma boot_sleeps:
  "\<exists>m. (kstep 5 (kernel_hooks waitFor) {1})\<^sup>*\<^sup>* (boot, boot_todo) (m, boot_todo(0 := [Resume, P 1]))
     \<and> view {0, 1} m (dispatch (doze 1 boot_view))"
proof -
  let ?h = "kernel_hooks waitFor"
  have c: "currentThread (sos boot) = 0" by (simp add: boot_def Interrupt_new_def Machine_new_def)
  have "sane {0, 1} boot_view" using boot_ok(2) by (simp add: coherent_def running_def)
  from P_sleeps [OF boot_ok(1) this boot_ok(3), of 1 "[]" 1 "[]" 4 ?h] obtain m where
    m: "Semaphore_P 5 ?h 1 boot = Inr (Switches 1 m)" "view {0, 1} m (dispatch (doze 1 boot_view))"
    by (auto simp: boot_view_def)
  have "kstep 5 ?h {1} (boot, boot_todo) (boot, boot_todo(0 := [P 1]))"
    by (rule kstep.call) (simp_all add: c boot_todo_def calls_def)
  moreover have "exec 5 ?h (P 1) boot = Inr ([Resume, P 1], m)"
    by (simp only: exec.simps sleeping_def m(1) bindR_simps control.case)
  from kstep.run [where todo = "boot_todo(0 := [P 1])" and t = 0, OF _ _ this, of "[]" "{1}"]
  have "kstep 5 ?h {1} (boot, boot_todo(0 := [P 1])) (m, (boot_todo(0 := [P 1]))(0 := [Resume, P 1] @ []))"
    using c by simp
  ultimately have "(kstep 5 ?h {1})\<^sup>*\<^sup>* (boot, boot_todo) (m, boot_todo(0 := [Resume, P 1]))"
    by (simp add: converse_rtranclp_into_rtranclp)
  with m(2) show ?thesis by blast
qed

lemma no_lost_wakeup_witness:
  "\<exists>m x. (kstep 5 (kernel_hooks [TheDisk \<mapsto> 1]) {1})\<^sup>*\<^sup>* (boot, boot_todo) (m, boot_todo(0 := [Resume, P 1]))
     \<and> semaphores (sos m) 1 = Some x \<and> list_repr (sleepers x) [0]
     \<and> val x \<le> int (card {t \<in> {0, 1}. t \<notin> set [0] \<and> awake m t \<and> in_P m (boot_todo(0 := [Resume, P 1])) t 1})"
proof -
  from boot_sleeps [of "[TheDisk \<mapsto> 1]"] obtain m where
    m: "(kstep 5 (kernel_hooks [TheDisk \<mapsto> 1]) {1})\<^sup>*\<^sup>* (boot, boot_todo) (m, boot_todo(0 := [Resume, P 1]))"
      "view {0, 1} m (dispatch (doze 1 boot_view))" by blast
  have "sem (dispatch (doze 1 boot_view)) 1 = Some (0, [0])" by (simp add: dispatch_def doze_def boot_view_def)
  from view_sem [OF m(2) this] obtain x where x: "semaphores (sos m) 1 = Some x" "list_repr (sleepers x) [0]" by blast
  from no_lost_wakeup [OF boot_well_formed _ m(1) x] m(1) x show ?thesis by auto
qed

text \<open>
  C22: deleting the semaphore of a waiter is safe: when \<^verbatim>\<open>Wait\<close> is about to \<^verbatim>\<open>delete waiter\<close>, no thread sleeps on it and no
  condition still lists it, so no later \<^verbatim>\<open>Signal\<close> can reach the deleted object.
\<close>

theorem waiter_deleted_unused:
  assumes "well_formed T C m todo" "ran waitFor \<subseteq> C" "(kstep rounds (kernel_hooks waitFor) C)\<^sup>*\<^sup>* (m, todo) (m', todo')"
    "todo' (currentThread (sos m')) = Destroy w # fs" "semaphores (sos m') w = Some x"
  shows "list_repr (sleepers x) [] \<and> (\<forall>c y q. conditions (sos m') c = Some y \<longrightarrow> list_repr (waitQueue y) q \<longrightarrow> w \<notin> set q)"
proof -
  from reachable_view [OF assms(1-3)] obtain a where a: "view T m' a" "coherent T C a todo'" "pl a (cur a) = OnCPU" by blast
  have c: "running T a" "waiters T C a todo'" "wakeup T a todo'" "roles T C a todo'" using a(2) by (simp_all add: coherent_def)
  note e = destroy_empty [OF c(2,3,4,1) a(3) assms(4) [unfolded viewD(4) [OF a(1)]]]
  have "sem a w \<noteq> None" using view_no_sem [OF a(1), of w] assms(5) by auto
  then obtain v p where v: "sem a w = Some (v, p)" by (cases "sem a w") auto
  have "p = []" using placedD(3) [OF saneD(1) v] c(1) e(1) by (cases p) (fastforce simp: running_def)+
  with view_sem [OF a(1) v] assms(5) have "list_repr (sleepers x) []" by auto
  moreover have "w \<notin> set q" if y: "conditions (sos m') k = Some y" "list_repr (waitQueue y) q" for k y q
  proof -
    from view_condD [OF a(1) y(1)] obtain ws where ws: "wq a k = Some ws" "list_repr (waitQueue y) ws" by blast
    have "ws = q" by (rule list_repr_unique [OF ws(2) y(2)])
    moreover have "\<not> queued a w" using waitersD(5) [OF c(2), of w] e(2) by blast
    ultimately show ?thesis using ws(1) by (auto simp: queued_def)
  qed
  ultimately show ?thesis by blast
qed

lemma waiter_deleted_unused_witness:
  "\<exists>m x. well_formed {0, 1} {1} m (boot_todo(0 := [Destroy 2])) \<and> semaphores (sos m) 2 = Some x \<and> list_repr (sleepers x) []"
proof -
  let ?todo = "boot_todo(0 := [Destroy 2])"
  let ?m = "snd (Semaphore_new 0 boot)" and ?a = "boot_view\<lparr>sem := (sem boot_view)(2 \<mapsto> (0, [])), fresh := 3\<rparr>"
  have f: "fresh boot_view = 2" by (simp add: boot_view_def)
  have n: "nextSemaphore (sos boot) = 2" by (simp add: boot_def Interrupt_new_def Machine_new_def)
  have v: "view {0, 1} ?m ?a"
    using boot_ok(1) n by (simp add: view_def Semaphore_new_def sem_repr_def list_repr_new)
  have "sane {0, 1} ?a" unfolding sane_def placed_def by (auto simp: boot_view_def split: if_splits)
  then have "running {0, 1} ?a" by (simp add: running_def boot_view_def)
  moreover have "roles {0, 1} {1} ?a ?todo"
    unfolding roles_def by (auto simp: boot_view_def boot_todo_def owned_def split: if_splits)
  moreover have "lock_units {0, 1} ?a ?todo"
    by (auto simp: lock_units_def boot_view_def boot_todo_def total_def split: if_splits)
  moreover have "wakeup {0, 1} ?a ?todo" unfolding wakeup_def by (auto simp: boot_view_def split: if_splits)
  moreover have "waiters {0, 1} {1} ?a ?todo"
    by (auto simp: waiters_def boot_view_def boot_todo_def total_def queued_def queues_ok_def split: if_splits)
  ultimately have "coherent {0, 1} {1} ?a ?todo" by (simp add: coherent_def)
  moreover have "pl ?a (cur ?a) = OnCPU" by (simp add: boot_view_def)
  ultimately have w: "well_formed {0, 1} {1} ?m ?todo" unfolding well_formed_def using v by blast
  have c: "currentThread (sos ?m) = 0" "semaphores (sos ?m) 2 = Some \<lparr>val = 0, sleepers = List_new\<rparr>"
    using n by (simp_all add: Semaphore_new_def boot_def Interrupt_new_def Machine_new_def)
  from waiter_deleted_unused [OF w _ rtranclp.rtrancl_refl, of "[TheDisk \<mapsto> 1]" 2 "[]"] c have "list_repr (List_new :: nat List) []"
    by auto
  with w c(2) show ?thesis by (intro exI [of _ ?m]) auto
qed

end
