(* ===== verification/FileSysKeeps.thy ===== *)
theory FileSysKeeps
  imports FileSysLaws MipsLaws
begin

text \<open>
  What stays true of the file system whatever its callers ask for: sizes of any sign and magnitude,
  requests longer than the file or than the buffer, files that are not there. The invariant \<open>fs_ok\<close>
  adds to \<open>fs_inv\<close> that an open file has the header of a file of the directory and a position inside
  it, and that the files \<open>L\<close>, pairs of names and lengths, are there. An operation keeps it, or ends the run with one of few faults. System calls pass the values of
  a user program on unchecked, so this is what the kernel can rely on.
\<close>

definition open_file_ok :: "FileSystem \<Rightarrow> Directory \<Rightarrow> (int \<Rightarrow> FileHeader) \<Rightarrow> bool" where
  "open_file_ok fs dir H \<longleftrightarrow> (\<forall>f. openedFile fs = Opened f \<longrightarrow>
     (\<exists>k s. (k, s) \<in> set (entries dir) \<and> hdr f = H s \<and> 0 \<le> seekPosition f \<and> seekPosition f \<le> hdr_len (H s)))"

definition has_files :: "(byte list \<times> int) set \<Rightarrow> Directory \<Rightarrow> (int \<Rightarrow> FileHeader) \<Rightarrow> bool" where
  "has_files L dir H \<longleftrightarrow> (\<forall>(k, l)\<in>L. \<exists>s. (k, s) \<in> set (entries dir) \<and> hdr_len (H s) = l)"

definition fs_ok :: "(byte list \<times> int) set \<Rightarrow> FileSystem \<Rightarrow> bool" where
  "fs_ok L fs \<longleftrightarrow> (\<exists>dir m H. fs_inv fs dir m H \<and> open_file_ok fs dir H \<and> has_files L dir H)"

lemma fs_okI: "fs_inv fs dir m H \<Longrightarrow> open_file_ok fs dir H \<Longrightarrow> has_files L dir H \<Longrightarrow> fs_ok L fs"
  by (auto simp: fs_ok_def)

lemma fs_okE: "fs_ok L fs \<Longrightarrow>
    (\<And>dir m H. fs_inv fs dir m H \<Longrightarrow> open_file_ok fs dir H \<Longrightarrow> has_files L dir H \<Longrightarrow> P) \<Longrightarrow> P"
  by (auto simp: fs_ok_def)

text \<open>In the abstract view: the files of a map, with their lengths.\<close>

definition all_files :: "(byte list \<Rightarrow> byte list option) \<Rightarrow> (byte list \<times> int) set" where
  "all_files files = {(k, int (length c)) |k c. files k = Some c}"

lemma file_lengths:
  assumes "fs_inv fs dir m H" "map_of (entries dir) k = Some s"
  shows "int (length (file_bytes (H s) (disk fs))) = hdr_len (H s)"
proof -
  have "file_ok (H s) (disk fs)" using entry_sector(1) [OF assms] by (simp add: stored_def)
  with length_file_bytes [OF this] hdr_len_nonneg [of "H s"] show ?thesis by (simp add: file_ok_def)
qed

lemma fs_ok_rep:
  assumes "fs_ok L fs"
  shows "\<exists>files sectors slots. fs_rep fs files sectors slots \<and> L \<subseteq> all_files files"
  using assms
proof (rule fs_okE)
  fix dir m H assume r: "fs_inv fs dir m H" "has_files L dir H"
  let ?files = "\<lambda>n. map_option (\<lambda>s. file_bytes (H s) (disk fs)) (map_of (entries dir) n)"
  have "(k, l) \<in> all_files ?files" if kl: "(k, l) \<in> L" for k l
  proof -
    from r(2) kl obtain s where s: "(k, s) \<in> set (entries dir)" "hdr_len (H s) = l" by (auto simp: has_files_def)
    have "distinct (map fst (entries dir))" using r(1) distinct_entries by (auto simp: fs_inv_def)
    with s(1) have "map_of (entries dir) k = Some s" by simp
    with file_lengths [OF r(1) this] s(2) show ?thesis by (simp add: all_files_def)
  qed
  then have "L \<subseteq> all_files ?files" by auto
  moreover have "fs_rep fs ?files (card (bm_free m)) (free_slots dir)" unfolding fs_rep_def using r(1) by blast
  ultimately show ?thesis by blast
qed

lemma fs_inv_opened [simp]: "fs_inv (fs\<lparr>openedFile := p\<rparr>) dir m H = fs_inv fs dir m H"
  by (simp add: fs_inv_def objects_def)

lemma fs_rep_ok:
  assumes "fs_rep fs files sectors slots" "\<And>f. openedFile fs \<noteq> Opened f"
  shows "fs_ok (all_files files) fs"
proof -
  from assms(1) obtain dir m H where r: "fs_inv fs dir m H"
    "files = (\<lambda>n. map_option (\<lambda>s. file_bytes (H s) (disk fs)) (map_of (entries dir) n))" by (auto simp: fs_rep_def)
  have "has_files (all_files files) dir H"
    using file_lengths [OF r(1)] by (auto simp: has_files_def all_files_def r(2) dest: map_of_SomeD)
  with r(1) assms(2) show ?thesis by (auto simp: fs_ok_def open_file_ok_def)
qed

subsection \<open>Create\<close>

text \<open>A negative size is a request for a full header, or overflows.\<close>

lemma Allocate_any_negative:
  assumes "n < 0"
  shows "FileHeader_Allocate m n h = FileHeader_Allocate m 3584 h \<or> FileHeader_Allocate m n h = Inl SignedOverflow"
proof -
  obtain nb ns ds nx nh where h: "h = FH nb ns ds nx nh" by (cases h)
  have hb: "header_bytes n = 3584" "header_bytes 3584 = 3584"
    using assms by (simp_all add: header_bytes_def file_consts)
  have full: "addR 3584 (- 3584) = Inr 0" by (simp add: addR_def int_fits_def)
  show ?thesis
  proof (cases "int_fits (n - 3584)")
    case True
    then have r: "addR n (- 3584) = Inr (n - 3584)" by (simp add: addR_def)
    have "(0 < n - 3584) = False" "(0 < (0 :: int)) = False" using assms by simp_all
    then show ?thesis
      unfolding h FileHeader_Allocate.simps hb full r bindR_simps Let_def by (simp only: if_False simp_thms)
  next
    case False
    then have "addR n (- 3584) = Inl SignedOverflow" by (simp add: addR_def)
    then show ?thesis unfolding h FileHeader_Allocate.simps hb by simp
  qed
qed

lemma Create_any_negative:
  assumes "n < 0"
  shows "FileSystem_Create nm n fs = FileSystem_Create nm 3584 fs \<or> FileSystem_Create nm n fs = Inl SignedOverflow"
proof -
  note a = Allocate_any_negative [OF assms, of _ FileHeader_new]
  show ?thesis
  proof (cases "fetch_directory fs")
    case d: (Inr d)
    show ?thesis
    proof (cases "fetch_free_map fs")
      case f: (Inr fm)
      show ?thesis
      proof (cases "Bitmap_FindAndSet fm")
        case (Inr r)
        then obtain s fm' where "Bitmap_FindAndSet fm = Inr (s, fm')" by (cases r) simp
        with a [of fm'] show ?thesis
          by (cases "Directory_Add d nm s") (auto simp: FileSystem_Create_def d f)
      qed (simp add: FileSystem_Create_def d f)
    qed (simp add: FileSystem_Create_def d)
  qed (simp add: FileSystem_Create_def)
qed

text \<open>A size too large for one more sector below \<open>2\<^sup>3\<^sup>1\<close> does not fit on any disk.\<close>

lemma too_large:
  assumes "fs_inv fs dir m H" "\<not> int_fits (int n + SectorSize)"
  shows "card (bm_free m) < 1 + sectors_needed n"
proof -
  have "bm_size m = length (disk fs)" "length (disk fs) \<le> 2 ^ 24"
    using assms(1) by (simp_all add: fs_inv_def bm_size_def)
  then have "bm_free m \<subseteq> {..<2 ^ 24}" using bm_free_bounded by fastforce
  then have "card (bm_free m) \<le> card {..<(2 ^ 24 :: nat)}" by (rule card_mono [OF finite_lessThan])
  moreover have "2 ^ 31 \<le> n + 128" using assms(2) by (auto simp: int_fits_def SectorSize_def)
  then have "2 ^ 31 - 1 \<le> n + 127" "3584 \<le> n - 1" by simp_all
  then have "(2 ^ 31 - 1) div 128 \<le> (n + 127) div 128" "3584 div 3584 \<le> (n - 1) div 3584"
    by (blast intro: div_le_mono)+
  then have "2 ^ 24 - 1 \<le> (n + 127) div 128" "1 \<le> (n - 1) div 3584" by simp_all
  ultimately show ?thesis unfolding sectors_needed_eq card_lessThan by linarith
qed

lemma safeR_any: "(\<And>x. safeR UNIV Q (f x)) \<Longrightarrow> safeR UNIV Q (bindR r f)"
  by (rule safeR_bind [where P = "\<lambda>_. True" and F = UNIV]) (simp_all add: safeR_def split: sum.split)

lemma Create_opened: "FileSystem_Create nm n fs = Inr (b, fs') \<Longrightarrow> openedFile fs' = openedFile fs"
proof -
  have "safeR UNIV (\<lambda>(b, fs'). openedFile fs' = openedFile fs) (FileSystem_Create nm n fs)"
    unfolding FileSystem_Create_def by (auto intro!: safeR_any split: prod.split)
  moreover assume "FileSystem_Create nm n fs = Inr (b, fs')"
  ultimately show ?thesis by simp
qed

lemma Create_keeps_nonneg:
  assumes "fs_ok L fs" "int_fits (int n)"
  shows "\<exists>b fs'. FileSystem_Create nm (int n) fs = Inr (b, fs') \<and> fs_ok L fs'"
  using assms(1)
proof (rule fs_okE)
  fix dir m H assume r: "fs_inv fs dir m H" "open_file_ok fs dir H" and L: "has_files L dir H"
  let ?room = "map_of (entries dir) (key nm) = None \<and> 0 < free_slots dir \<and> 1 + sectors_needed n \<le> card (bm_free m)"
  show ?thesis
  proof (cases ?room)
    case True
    then have fits: "int_fits (int n + SectorSize)" using too_large [OF r(1), of n] by linarith
    from True Create_ok [OF r(1) _ _ _ fits, of nm] obtain fs' dir' m' s h where
      c: "FileSystem_Create nm (int n) fs = Inr (True, fs')" "fs_inv fs' dir' m' (H(s := h))"
        "mset (entries dir') = add_mset (key nm, s) (mset (entries dir))"
        "\<forall>(k, t)\<in>set (entries dir). t \<noteq> s \<and> file_bytes (H t) (disk fs') = file_bytes (H t) (disk fs)"
      by auto
    have e: "set (entries dir') = insert (key nm, s) (set (entries dir))"
      using arg_cong [OF c(3), of set_mset] by simp
    have "open_file_ok fs' dir' (H(s := h))" unfolding open_file_ok_def
    proof (intro allI impI)
      fix f assume "openedFile fs' = Opened f"
      then obtain k t where t: "(k, t) \<in> set (entries dir)" "hdr f = H t" "0 \<le> seekPosition f" "seekPosition f \<le> hdr_len (H t)"
        using r(2) Create_opened [OF c(1)] unfolding open_file_ok_def by metis
      then have "t \<noteq> s" using c(4) by blast
      with t e show "\<exists>k t. (k, t) \<in> set (entries dir') \<and> hdr f = (H(s := h)) t \<and> 0 \<le> seekPosition f
          \<and> seekPosition f \<le> hdr_len ((H(s := h)) t)"
        by (intro exI [of _ k] exI [of _ t]) simp
    qed
    moreover have "has_files L dir' (H(s := h))" unfolding has_files_def
    proof clarify
      fix k l assume "(k, l) \<in> L"
      with L obtain t where t: "(k, t) \<in> set (entries dir)" "hdr_len (H t) = l" by (auto simp: has_files_def)
      then have "t \<noteq> s" using c(4) by blast
      with t e show "\<exists>t. (k, t) \<in> set (entries dir') \<and> hdr_len ((H(s := h)) t) = l" by (intro exI [of _ t]) simp
    qed
    ultimately show ?thesis using c(1,2) by (blast intro: fs_okI)
  next
    case False
    then have "FileSystem_Create nm (int n) fs = Inr (False, fs)"
      by (intro Create_fails [OF r(1) assms(2)]) auto
    with assms(1) show ?thesis by blast
  qed
qed

lemma Create_keeps:
  assumes "fs_ok L fs" "int_fits n"
  shows "safeR {SignedOverflow} (\<lambda>(b, fs). fs_ok L fs) (FileSystem_Create nm n fs)"
proof (cases "0 \<le> n")
  case True
  with Create_keeps_nonneg [OF assms(1), of "nat n" nm] assms(2) show ?thesis by auto
next
  case False
  then have "FileSystem_Create nm n fs = FileSystem_Create nm 3584 fs \<or> FileSystem_Create nm n fs = Inl SignedOverflow"
    by (intro Create_any_negative) simp
  with Create_keeps_nonneg [OF assms(1), of 3584 nm] show ?thesis by (auto simp: int_fits_def)
qed

subsection \<open>Open and Close\<close>

lemma Open_keeps:
  assumes "fs_ok L fs"
  shows "\<exists>fs'. FileSystem_Open nm fs = Inr (1, fs') \<and> fs_ok L fs'"
  using assms
proof (rule fs_okE)
  fix dir m H assume r: "fs_inv fs dir m H" and L: "has_files L dir H"
  let ?p = "case map_of (entries dir) (key nm) of None \<Rightarrow> NoFile | Some s \<Rightarrow> Opened \<lparr>hdr = H s, seekPosition = 0\<rparr>"
  have "FileSystem_Open nm fs = Inr (1, fs\<lparr>openedFile := ?p\<rparr>)"
    by (auto simp: FileSystem_Open_def OpenAsOpenFile_eq [OF r] split: option.split)
  moreover have "open_file_ok (fs\<lparr>openedFile := ?p\<rparr>) dir H"
  proof (cases "map_of (entries dir) (key nm)")
    case (Some s)
    then have "stored (disk fs) s (H s)" "(key nm, s) \<in> set (entries dir)"
      using entry_sector(1) [OF r] by (auto dest: map_of_SomeD)
    then show ?thesis using hdr_len_nonneg [of "H s"] Some by (auto simp: open_file_ok_def stored_def file_ok_def)
  qed (simp add: open_file_ok_def)
  ultimately show ?thesis using r L by (auto intro: fs_okI)
qed

lemma Close_keeps: "fs_ok L fs \<Longrightarrow> safeR {UseAfterFree} (\<lambda>(c, fs). fs_ok L fs) (FileSystem_Close ident fs)"
  by (auto simp: FileSystem_Close_def fs_ok_def open_file_ok_def split: OpenFilePtr.split)

subsection \<open>Read and Write\<close>

text \<open>The open file, in a file system in order.\<close>

lemma opened_cases:
  assumes "fs_ok L fs"
  obtains "opened fs = Inl NullPointer" | "opened fs = Inl UseAfterFree"
  | f dir m H k s where "opened fs = Inr f" "openedFile fs = Opened f" "fs_inv fs dir m H" "(k, s) \<in> set (entries dir)"
      "hdr f = H s" "0 \<le> seekPosition f" "seekPosition f \<le> hdr_len (H s)" "file_ok (hdr f) (disk fs)"
      "has_files L dir H"
proof (cases "openedFile fs")
  case (Opened f)
  from assms obtain dir m H where r: "fs_inv fs dir m H" "open_file_ok fs dir H" "has_files L dir H" by (rule fs_okE)
  then obtain k s where "(k, s) \<in> set (entries dir)" "hdr f = H s" "0 \<le> seekPosition f" "seekPosition f \<le> hdr_len (H s)"
    using Opened unfolding open_file_ok_def by blast
  moreover have "file_ok (H s) (disk fs)" using obj_file_ok [OF fs_inv_obj_ok [OF r(1)] object_file] calculation(1) by blast
  ultimately show thesis using that(3) [of f] Opened r(1,3) by (simp add: opened_def)
qed (use that(1,2) in \<open>auto simp: opened_def\<close>)

text \<open>A request that overflows starts inside the file; any other one is cut to what there is.\<close>

lemma request_cases:
  assumes "0 \<le> pos" "pos \<le> len" "int_fits len" "int_fits n"
  obtains "int_fits (pos + n)" | "pos = len" "0 < n" | "0 < n" "pos < len" "\<not> int_fits (pos + n)"
  using assms that unfolding int_fits_def by linarith

lemma Read_cases:
  assumes "file_ok (hdr f) d" "0 \<le> seekPosition f" "seekPosition f \<le> hdr_len (hdr f)" "int_fits n"
  shows "OpenFile_Read f n d = Inl SignedOverflow \<or>
     (\<exists>bs. OpenFile_Read f n d = Inr (bs, f\<lparr>seekPosition := seekPosition f + int (length bs)\<rparr>)
        \<and> bs = take (nat n) (drop (nat (seekPosition f)) (file_bytes (hdr f) d))
        \<and> seekPosition f + int (length bs) \<le> hdr_len (hdr f))"
proof (rule request_cases [OF assms(2,3) file_ok_fits [OF assms(1)] assms(4)])
  have len: "int (length (file_bytes (hdr f) d)) = hdr_len (hdr f)"
    using length_file_bytes [OF assms(1)] assms(2,3) by simp
  then have short: "seekPosition f + int (length (take (nat n) (drop (nat (seekPosition f)) (file_bytes (hdr f) d))))
      \<le> hdr_len (hdr f)" using assms(2,3) by auto
  show ?thesis if "int_fits (seekPosition f + n)" using Read_eq [OF assms(1,2) that] short by blast
  show ?thesis if "seekPosition f = hdr_len (hdr f)" "0 < n"
  proof -
    have "drop (nat (seekPosition f)) (file_bytes (hdr f) d) = []" using that len by simp
    then show ?thesis using that by (simp add: OpenFile_Read_def OpenFile_ReadAt_def Length_ok [OF assms(1)])
  qed
  show ?thesis if "0 < n" "seekPosition f < hdr_len (hdr f)" "\<not> int_fits (seekPosition f + n)"
    using ReadAt_overflow [OF assms(1) that] by (simp add: OpenFile_Read_def)
qed

definition read_ok :: "(byte list \<times> int) set \<Rightarrow> int \<Rightarrow> byte list \<times> FileSystem \<Rightarrow> bool" where
  "read_ok L n r \<longleftrightarrow> fs_ok L (snd r) \<and> length (fst r) \<le> nat n"

lemma Read_keeps:
  assumes "fs_ok L fs" "int_fits n"
  shows "safeR {NullPointer, UseAfterFree, SignedOverflow} (read_ok L n) (FileSystem_Read n ident fs)"
  using assms(1)
proof (cases rule: opened_cases)
  case (3 f dir m H k s)
  from Read_cases [OF 3(8,6) _ assms(2)] 3(5,7)
  consider "OpenFile_Read f n (disk fs) = Inl SignedOverflow"
    | bs where "OpenFile_Read f n (disk fs) = Inr (bs, f\<lparr>seekPosition := seekPosition f + int (length bs)\<rparr>)"
        "length bs \<le> nat n" "seekPosition f + int (length bs) \<le> hdr_len (H s)" by auto
  then show ?thesis
  proof cases
    case (2 bs)
    then have "open_file_ok (fs\<lparr>openedFile := Opened (f\<lparr>seekPosition := seekPosition f + int (length bs)\<rparr>)\<rparr>) dir H"
      unfolding open_file_ok_def using 3(4-6) by (auto intro!: exI [of _ k] exI [of _ s])
    with 2 3(1,3,9) show ?thesis by (auto simp: FileSystem_Read_def read_ok_def intro: fs_okI)
  qed (simp add: FileSystem_Read_def 3(1))
qed (simp_all add: FileSystem_Read_def)

text \<open>A write request does what the shorter one does that it is cut to.\<close>

lemma Write_cut:
  assumes "file_ok (hdr f) d" "0 \<le> seekPosition f" "seekPosition f \<le> hdr_len (hdr f)" "int_fits n"
  shows "OpenFile_Write f data n d \<in> {Inl SignedOverflow, Inl OutOfBounds} \<or>
     (\<exists>k. OpenFile_Write f data n d = OpenFile_Write f data k d \<and> int_fits (seekPosition f + k) \<and> k \<le> int (length data))"
  (is "?P n")
proof (rule request_cases [OF assms(2,3) file_ok_fits [OF assms(1)] assms(4)])
  note defs = OpenFile_Write_def OpenFile_WriteAt_def Length_ok [OF assms(1)]
  have fits: "int_fits (seekPosition f)" using assms(2,3) file_ok_fits [OF assms(1)] by (simp add: int_fits_def)
  have none: "OpenFile_Write f data n d = OpenFile_Write f data 0 d" if "n \<le> 0 \<or> hdr_len (hdr f) \<le> seekPosition f"
    using that by (simp add: defs)
  show "?P n" if "seekPosition f = hdr_len (hdr f)" "0 < n"
    using none that fits by (intro disjI2 exI [of _ 0]) simp
  show "?P n" if "0 < n" "seekPosition f < hdr_len (hdr f)" "\<not> int_fits (seekPosition f + n)"
    using that by (simp add: defs addR_def)
  show "?P n" if add: "int_fits (seekPosition f + n)"
  proof (cases "n \<le> 0 \<or> hdr_len (hdr f) \<le> seekPosition f")
    case True
    with none fits show ?thesis by (intro disjI2 exI [of _ 0]) simp
  next
    case False
    let ?k = "min n (hdr_len (hdr f) - seekPosition f)"
    have k: "0 < ?k" "seekPosition f + ?k \<le> hdr_len (hdr f)" using False by auto
    have e: "OpenFile_Write f data n d = OpenFile_Write f data ?k d"
      using WriteAt_clip [OF assms(1) _ _ add] False by (simp add: OpenFile_Write_def)
    show ?thesis
    proof (cases "?k \<le> int (length data)")
      case True
      have "int_fits (seekPosition f + ?k)" using k assms(2) file_ok_fits [OF assms(1)] unfolding int_fits_def by linarith
      with e True show ?thesis by blast
    next
      case False
      then have less: "int (length data) < ?k" by linarith
      have "OpenFile_Write f data ?k d = Inl OutOfBounds"
        unfolding OpenFile_Write_def WriteAt_short [OF assms(1,2) k less] by simp
      with e show ?thesis by simp
    qed
  qed
qed

lemma Write_keeps:
  assumes "fs_ok L fs" "int_fits n"
  shows "safeR {NullPointer, UseAfterFree, SignedOverflow, OutOfBounds} (\<lambda>(c, fs). fs_ok L fs) (FileSystem_Write data n ident fs)"
  using assms(1)
proof (cases rule: opened_cases)
  case (3 f dir m H k s)
  from Write_cut [OF 3(8,6) _ assms(2), of data] 3(5,7)
  consider "OpenFile_Write f data n (disk fs) \<in> {Inl SignedOverflow, Inl OutOfBounds}"
    | j where "OpenFile_Write f data n (disk fs) = OpenFile_Write f data j (disk fs)" "int_fits (seekPosition f + j)"
        "j \<le> int (length data)" by auto
  then show ?thesis
  proof cases
    case (2 j)
    from Write_ok [OF 3(3,4,2,5,6,7) 2(2,3), of ident] obtain fs' c where
      w: "FileSystem_Write data j ident fs = Inr (c, fs')" "fs_inv fs' dir m H"
        "c = transferred (hdr_len (H s)) j (seekPosition f)" "openedFile fs' = Opened (f\<lparr>seekPosition := seekPosition f + c\<rparr>)"
      by blast
    have "0 \<le> c" "seekPosition f + c \<le> hdr_len (H s)" using 3(7) by (auto simp: w(3) transferred_def)
    then have "open_file_ok fs' dir H"
      unfolding open_file_ok_def using 3(4-6) w(4) by (auto intro!: exI [of _ k] exI [of _ s])
    moreover have "FileSystem_Write data n ident fs = FileSystem_Write data j ident fs"
      by (simp add: FileSystem_Write_def 3(1) 2(1))
    ultimately show ?thesis using w(1,2) 3(9) by (auto intro: fs_okI)
  qed (auto simp: FileSystem_Write_def 3(1))
qed (simp_all add: FileSystem_Write_def)

end
