(* ===== verification/SysCalls.thy ===== *)
theory SysCalls
  imports FileSysKeeps
begin

text \<open>
  \<^verbatim>\<open>userprog/exception.cc\<close> and \<^verbatim>\<open>userprog/ksyscall.h\<close> of the fourth assignment: the kernel's exception
  handler, which serves the system calls of user programs from the file system. The kernel's part
  \<open>os\<close> of the machine is the file system. Addresses of names and buffers are used as indices into
  the main memory without translation. The theory proves that no user program can bring the file
  system out of order, what the calls do to files and memory, and that the \<^verbatim>\<open>Add\<close> call cannot be reached.
\<close>

subsection \<open>System call codes\<close>

definition SC_Halt :: int where "SC_Halt = 0"
definition SC_Exit :: int where "SC_Exit = 1"
definition SC_Create :: int where "SC_Create = 4"
definition SC_Open :: int where "SC_Open = 6"
definition SC_Read :: int where "SC_Read = 7"
definition SC_Write :: int where "SC_Write = 8"
definition SC_Close :: int where "SC_Close = 10"
definition SC_Add :: int where "SC_Add = 42"
definition SC_MSG :: int where "SC_MSG = 100"

lemmas call_codes = SC_Halt_def SC_Exit_def SC_Create_def SC_Open_def SC_Read_def SC_Write_def SC_Close_def
  SC_Add_def SC_MSG_def

type_synonym kernel = "FileSystem cpu"

definition fileSystem :: "kernel \<Rightarrow> FileSystem" where
  "fileSystem m = os (dev m)"

definition set_fileSystem :: "FileSystem \<Rightarrow> kernel \<Rightarrow> kernel" where
  "set_fileSystem fs m = m\<lparr>dev := (dev m)\<lparr>os := fs\<rparr>\<rparr>"

definition set_memory :: "byte list \<Rightarrow> kernel \<Rightarrow> kernel" where
  "set_memory mem m = m\<lparr>dev := (dev m)\<lparr>mainMemory := mem\<rparr>\<rparr>"

subsection \<open>What lies at an address\<close>

text \<open>
  \<^verbatim>\<open>&mainMemory[val]\<close> as a buffer: the bytes from there to the end of the memory, none if the address
  is outside. As a name it must end, or fill the length of a name, before the memory does; as a
  message it must end.
\<close>

definition user_bytes :: "int \<Rightarrow> kernel \<Rightarrow> byte list" where
  "user_bytes val m = (if val < 0 then [] else drop (nat val) (mainMemory (dev m)))"

definition user_name :: "int \<Rightarrow> kernel \<Rightarrow> byte list res" where
  "user_name val m =
     (let bs = user_bytes val m
      in if length bs < FileNameMaxLen \<and> 0 \<notin> set bs then Inl OutOfBounds else Inr bs)"

definition user_message :: "int \<Rightarrow> kernel \<Rightarrow> byte list res" where
  "user_message val m =
     (let bs = user_bytes val m in if 0 \<notin> set bs then Inl OutOfBounds else Inr (takeWhile (\<lambda>c. c \<noteq> 0) bs))"

subsection \<open>ksyscall.h\<close>

definition SysHalt :: "kernel \<Rightarrow> kernel res" where
  "SysHalt m = Inl Halted"

definition SysAdd :: "int \<Rightarrow> int \<Rightarrow> int res" where
  "SysAdd op1 op2 = addR op1 op2"

definition SysCreate :: "int \<Rightarrow> int \<Rightarrow> kernel \<Rightarrow> (int \<times> kernel) res" where
  "SysCreate filename sz m =
     bindR (user_name filename m) (\<lambda>nm.
     bindR (FileSystem_Create nm sz (fileSystem m)) (\<lambda>(b, fs). Inr (of_bool b, set_fileSystem fs m)))"

definition SysOpen :: "int \<Rightarrow> kernel \<Rightarrow> (int \<times> kernel) res" where
  "SysOpen filename m =
     bindR (user_name filename m) (\<lambda>nm.
     bindR (FileSystem_Open nm (fileSystem m)) (\<lambda>(ident, fs). Inr (ident, set_fileSystem fs m)))"

text \<open>The bytes read are copied to the buffer, and their number is returned.\<close>

definition SysRead :: "int \<Rightarrow> int \<Rightarrow> int \<Rightarrow> kernel \<Rightarrow> (int \<times> kernel) res" where
  "SysRead buf sz ident m =
     bindR (FileSystem_Read sz ident (fileSystem m)) (\<lambda>(bs, fs).
       if bs \<noteq> [] \<and> \<not> (0 \<le> buf \<and> buf + int (length bs) \<le> int (length (mainMemory (dev m)))) then Inl OutOfBounds
       else Inr (int (length bs), set_fileSystem fs (set_memory (overwrite (nat buf) bs (mainMemory (dev m))) m)))"

definition SysWrite :: "int \<Rightarrow> int \<Rightarrow> int \<Rightarrow> kernel \<Rightarrow> (int \<times> kernel) res" where
  "SysWrite buf sz ident m =
     bindR (FileSystem_Write (user_bytes buf m) sz ident (fileSystem m)) (\<lambda>(c, fs). Inr (c, set_fileSystem fs m))"

definition SysClose :: "int \<Rightarrow> kernel \<Rightarrow> (int \<times> kernel) res" where
  "SysClose ident m =
     bindR (FileSystem_Close ident (fileSystem m)) (\<lambda>(c, fs). Inr (c, set_fileSystem fs m))"

subsection \<open>The exception handler\<close>

definition exception_number :: "ExceptionType \<Rightarrow> int" where
  "exception_number e = (case e of NoException \<Rightarrow> 0 | SyscallException \<Rightarrow> 1 | PageFaultException \<Rightarrow> 2
     | ReadOnlyException \<Rightarrow> 3 | BusErrorException \<Rightarrow> 4 | AddressErrorException \<Rightarrow> 5 | OverflowException \<Rightarrow> 6
     | IllegalInstrException \<Rightarrow> 7)"

text \<open>The argument registers, and the program counters moved past the instruction.\<close>

definition arg :: "nat \<Rightarrow> kernel \<Rightarrow> int" where
  "arg i m = sint (reg i m)"

definition advance_pc :: "kernel \<Rightarrow> kernel" where
  "advance_pc m =
     (let m = set_reg PrevPCReg (reg PCReg m) m;
          m = set_reg PCReg (reg PCReg m + 4) m
      in set_reg NextPCReg (reg PCReg m + 4) m)"

definition return_value :: "(int \<times> kernel) res \<Rightarrow> kernel res" where
  "return_value r = bindR r (\<lambda>(status, m). Inr (advance_pc (set_reg 2 (word_of_int status) m)))"

text \<open>
  The \<^verbatim>\<open>switch\<close> over the call code. \<^verbatim>\<open>Exit\<close> calls \<^verbatim>\<open>Finish\<close>, which does not return to this thread; an
  unknown code is reported and skipped.
\<close>

definition system_call :: "kernel \<Rightarrow> kernel res" where
  "system_call m =
     (let type = arg 2 m
      in if type = SC_Halt then SysHalt m
         else if type = SC_MSG then bindR (user_message (arg 4 m) m) (\<lambda>_. SysHalt m)
         else if type = SC_Create then return_value (SysCreate (arg 4 m) (arg 5 m) m)
         else if type = SC_Open then return_value (SysOpen (arg 4 m) m)
         else if type = SC_Read then return_value (SysRead (arg 4 m) (arg 5 m) (arg 6 m) m)
         else if type = SC_Write then return_value (SysWrite (arg 4 m) (arg 5 m) (arg 6 m) m)
         else if type = SC_Close then return_value (SysClose (arg 4 m) m)
         else if type = SC_Exit then Inl NoReturn
         else Inr (advance_pc m))"

text \<open>
  The outer \<^verbatim>\<open>switch\<close>, over the exception: the case for \<^verbatim>\<open>SC_Add\<close> is one of its cases, not one of those
  for the call codes.
\<close>

definition ExceptionHandler :: "ExceptionType \<Rightarrow> kernel \<Rightarrow> kernel res" where
  "ExceptionHandler which m =
     (if which = SyscallException then system_call m
      else if exception_number which = SC_Add
      then return_value (bindR (SysAdd (arg 4 m) (arg 5 m)) (\<lambda>r. Inr (r, m)))
      else Inl AssertFailed)"

subsection \<open>The CPU stays in order\<close>

lemma fileSystem_simps [simp]:
  "fileSystem (set_reg i v m) = fileSystem m" "fileSystem (set_fileSystem fs m) = fs"
  "fileSystem (set_memory mem m) = fileSystem m"
  by (simp_all add: fileSystem_def set_reg_def set_fileSystem_def set_memory_def)

lemma mainMemory_simps [simp]:
  "mainMemory (dev (set_reg i v m)) = mainMemory (dev m)"
  "mainMemory (dev (set_fileSystem fs m)) = mainMemory (dev m)" "mainMemory (dev (set_memory mem m)) = mem"
  by (simp_all add: set_reg_def set_fileSystem_def set_memory_def)

lemma registers_simps [simp]:
  "registers (dev (set_fileSystem fs m)) = registers (dev m)" "registers (dev (set_memory mem m)) = registers (dev m)"
  by (simp_all add: set_fileSystem_def set_memory_def)

lemma ok_set_fileSystem: "cpu_ok K m \<Longrightarrow> J fs \<Longrightarrow> cpu_ok J (set_fileSystem fs m)"
  by (auto simp: cpu_ok_def cpu_sound_def reg_def paged_def set_fileSystem_def)

lemma ok_set_memory: "cpu_ok K m \<Longrightarrow> length mem = length (mainMemory (dev m)) \<Longrightarrow> cpu_ok K (set_memory mem m)"
  by (auto simp: cpu_ok_def cpu_sound_def reg_def paged_def set_memory_def)

lemma ok_set_reg: "cpu_ok K m \<Longrightarrow> 0 < i \<Longrightarrow> i < 32 \<Longrightarrow> cpu_ok K (set_reg i v m)"
  using sound_set_general(1) [of K m i v] by (simp add: cpu_ok_def cpu_sound_def reg_set_reg reg_numbers)

lemma ok_advance_pc: "cpu_ok K m \<Longrightarrow> cpu_ok K (advance_pc m)"
  unfolding advance_pc_def Let_def by (intro ok_set_pc) simp_all

lemma ok_return_value:
  "safeR F (\<lambda>(c, m). cpu_ok K m) r \<Longrightarrow> safeR F (cpu_ok K) (return_value r)"
  unfolding return_value_def by (erule safeR_bind) (auto intro!: ok_advance_pc ok_set_reg)

lemma int_fits_arg: "int_fits (arg i m)"
  by (simp add: arg_def sint_fits)

subsection \<open>The kernel stays in order\<close>

text \<open>How a user program can end the simulator through the kernel.\<close>

definition kernel_faults :: "fault set" where
  "kernel_faults = {Halted, NoReturn, AssertFailed, NullPointer, UseAfterFree, OutOfBounds, SignedOverflow}"

lemma kernel_faults_iff: "e \<in> kernel_faults \<longleftrightarrow> e \<notin> {DivideTrap, Uninitialised, Unspecified}"
  by (cases e) (simp_all add: kernel_faults_def)

lemma ok_kernel: "cpu_ok (fs_ok L) m \<Longrightarrow> fs_ok L (fileSystem m)"
  by (simp add: cpu_ok_def cpu_sound_def fileSystem_def)

text \<open>One lemma per call: it lifts what the file system keeps.\<close>

lemma SysCreate_ok:
  assumes "cpu_ok (fs_ok L) m" "int_fits sz"
  shows "safeR kernel_faults (\<lambda>(c, m). cpu_ok (fs_ok L) m) (SysCreate filename sz m)"
proof -
  have "safeR kernel_faults (\<lambda>(c, m). cpu_ok (fs_ok L) m)
      (bindR (FileSystem_Create nm sz (fileSystem m)) (\<lambda>(b, fs). Inr (of_bool b, set_fileSystem fs m)))" for nm
    by (rule safeR_bind [OF Create_keeps [OF ok_kernel [OF assms(1)] assms(2)]])
       (auto simp: kernel_faults_iff intro: ok_set_fileSystem [OF assms(1)])
  then show ?thesis by (auto simp: SysCreate_def user_name_def Let_def kernel_faults_iff)
qed

lemma SysOpen_ok:
  assumes "cpu_ok (fs_ok L) m"
  shows "safeR kernel_faults (\<lambda>(c, m). cpu_ok (fs_ok L) m) (SysOpen filename m)"
proof -
  have "safeR kernel_faults (\<lambda>(c, m). cpu_ok (fs_ok L) m)
      (bindR (FileSystem_Open nm (fileSystem m)) (\<lambda>(ident, fs). Inr (ident, set_fileSystem fs m)))" for nm
    using Open_keeps [OF ok_kernel [OF assms], of nm] ok_set_fileSystem [OF assms, of "fs_ok L"] by auto
  then show ?thesis by (auto simp: SysOpen_def user_name_def Let_def kernel_faults_iff)
qed

lemma SysRead_ok:
  assumes "cpu_ok (fs_ok L) m" "int_fits sz"
  shows "safeR kernel_faults (\<lambda>(c, m). cpu_ok (fs_ok L) m) (SysRead buf sz ident m)"
  unfolding SysRead_def
proof (rule safeR_bind [OF Read_keeps [OF ok_kernel [OF assms(1)] assms(2)]])
  fix r assume "read_ok L sz r"
  then obtain bs fs where r: "r = (bs, fs)" "fs_ok L fs" by (cases r) (simp add: read_ok_def)
  let ?inside = "0 \<le> buf \<and> buf + int (length bs) \<le> int (length (mainMemory (dev m)))"
  have len: "length (overwrite (nat buf) bs (mainMemory (dev m))) = length (mainMemory (dev m))"
    if "bs \<noteq> [] \<Longrightarrow> ?inside"
    using that by (cases "bs = []") (auto simp: overwrite_def)
  have "cpu_ok (fs_ok L) (set_fileSystem fs (set_memory (overwrite (nat buf) bs (mainMemory (dev m))) m))"
    if "bs \<noteq> [] \<Longrightarrow> ?inside"
    using ok_set_fileSystem [OF ok_set_memory [OF assms(1) len [OF that]], of "fs_ok L"] r(2) by simp
  then show "safeR kernel_faults (\<lambda>(c, m). cpu_ok (fs_ok L) m) (case r of (bs, fs) \<Rightarrow>
      if bs \<noteq> [] \<and> \<not> (0 \<le> buf \<and> buf + int (length bs) \<le> int (length (mainMemory (dev m)))) then Inl OutOfBounds
      else Inr (int (length bs), set_fileSystem fs (set_memory (overwrite (nat buf) bs (mainMemory (dev m))) m)))"
    unfolding r(1) by (auto simp: kernel_faults_iff)
qed (simp add: kernel_faults_iff)

lemma SysWrite_ok:
  assumes "cpu_ok (fs_ok L) m" "int_fits sz"
  shows "safeR kernel_faults (\<lambda>(c, m). cpu_ok (fs_ok L) m) (SysWrite buf sz ident m)"
  unfolding SysWrite_def
  by (rule safeR_bind [OF Write_keeps [OF ok_kernel [OF assms(1)] assms(2)]])
     (auto simp: kernel_faults_iff intro: ok_set_fileSystem [OF assms(1)])

lemma SysClose_ok:
  assumes "cpu_ok (fs_ok L) m"
  shows "safeR kernel_faults (\<lambda>(c, m). cpu_ok (fs_ok L) m) (SysClose ident m)"
  unfolding SysClose_def
  by (rule safeR_bind [OF Close_keeps [OF ok_kernel [OF assms]]])
     (auto simp: kernel_faults_iff intro: ok_set_fileSystem [OF assms])

lemma if_safe: "(b \<Longrightarrow> safeR F P r) \<Longrightarrow> (\<not> b \<Longrightarrow> safeR F P s) \<Longrightarrow> safeR F P (if b then r else s)"
  by simp

lemma call_halts: "safeR kernel_faults P (SysHalt m)" "safeR kernel_faults P (bindR (user_message a m) (\<lambda>_. SysHalt m))"
  "safeR kernel_faults P (Inl NoReturn)"
  by (simp_all add: SysHalt_def user_message_def Let_def kernel_faults_iff)

lemma system_call_ok:
  assumes "cpu_ok (fs_ok L) m"
  shows "safeR kernel_faults (cpu_ok (fs_ok L)) (system_call m)"
proof -
  note calls = SysCreate_ok [OF assms int_fits_arg] SysOpen_ok [OF assms] SysRead_ok [OF assms int_fits_arg]
    SysWrite_ok [OF assms int_fits_arg] SysClose_ok [OF assms]
  show ?thesis
    unfolding system_call_def Let_def
    by (intro if_safe call_halts ok_return_value calls) (simp add: ok_advance_pc assms)
qed

lemma Add_not_raised: "exception_number e \<noteq> SC_Add"
  by (simp add: exception_number_def SC_Add_def split: ExceptionType.split)

lemma handler_ok: "cpu_ok (fs_ok L) m \<Longrightarrow> safeR kernel_faults (cpu_ok (fs_ok L)) (ExceptionHandler e m)"
  by (auto simp: ExceptionHandler_def Add_not_raised system_call_ok) (simp add: kernel_faults_iff)

interpretation syscalls: exception_kernel ExceptionHandler kernel_faults "fs_ok L" for L
  by unfold_locales (rule handler_ok)

subsection \<open>Programs\<close>

text \<open>The state after \<open>n\<close> instructions of a user program.\<close>

definition instructions :: "nat \<Rightarrow> kernel \<Rightarrow> kernel res" where
  "instructions n = forR n 0 (\<lambda>_. Machine_OneInstruction ExceptionHandler)"

lemma safeR_mono: "safeR F P r \<Longrightarrow> (\<And>x. P x \<Longrightarrow> Q x) \<Longrightarrow> safeR F Q r"
  by (cases r) auto

lemma forR_safe: "(\<And>i s. P s \<Longrightarrow> safeR F P (body i s)) \<Longrightarrow> P s \<Longrightarrow> safeR F P (forR n i body s)"
proof (induction n arbitrary: i s)
  case (Suc n)
  then show ?case by (auto intro!: safeR_bind [where P = P and F = F])
qed simp

lemma instructions_ok:
  "cpu_ok (fs_ok L) m \<Longrightarrow> safeR (insert DivideTrap kernel_faults) (cpu_ok (fs_ok L)) (instructions n m)"
  unfolding instructions_def by (rule forR_safe) (auto intro: syscalls.OneInstruction_ok)

text \<open>A user program's call: the arguments put into their registers, then the trap.\<close>

definition trap_registers :: "int \<Rightarrow> int \<Rightarrow> int \<Rightarrow> int \<Rightarrow> kernel \<Rightarrow> kernel" where
  "trap_registers code a b c m =
     set_reg 2 (word_of_int code) (set_reg 4 (word_of_int a) (set_reg 5 (word_of_int b) (set_reg 6 (word_of_int c) m)))"

definition trap :: "int \<Rightarrow> int \<Rightarrow> int \<Rightarrow> int \<Rightarrow> kernel \<Rightarrow> kernel res" where
  "trap code a b c m = ExceptionHandler SyscallException (trap_registers code a b c m)"

lemma trap_registers_simps [simp]:
  "fileSystem (trap_registers code a b c m) = fileSystem m"
  "mainMemory (dev (trap_registers code a b c m)) = mainMemory (dev m)"
  by (simp_all add: trap_registers_def)

lemma trap_registers_ok: "cpu_ok K m \<Longrightarrow> cpu_ok K (trap_registers code a b c m)"
  unfolding trap_registers_def by (intro ok_set_reg) simp_all

lemma trap_args:
  assumes "length (registers (dev m)) = NumTotalRegs" "int_fits code" "int_fits a" "int_fits b" "int_fits c"
  shows "arg 2 (trap_registers code a b c m) = code" "arg 4 (trap_registers code a b c m) = a"
    "arg 5 (trap_registers code a b c m) = b" "arg 6 (trap_registers code a b c m) = c"
    "reg PCReg (trap_registers code a b c m) = reg PCReg m"
  using assms by (simp_all add: trap_registers_def arg_def reg_set_reg reg_numbers sint_of_fitting)

text \<open>What a call that returned leaves behind.\<close>

definition returned :: "kernel \<Rightarrow> int \<Rightarrow> FileSystem \<Rightarrow> byte list \<Rightarrow> kernel \<Rightarrow> bool" where
  "returned m v fs mem m' \<longleftrightarrow> fileSystem m' = fs \<and> mainMemory (dev m') = mem \<and> reg 2 m' = word_of_int v
     \<and> reg PCReg m' = reg PCReg m + 4 \<and> reg NextPCReg m' = reg PCReg m' + 4 \<and> cpu_ok (\<lambda>_. True) m'"

lemma set_memory_same: "mem = mainMemory (dev m) \<Longrightarrow> set_memory mem m = m"
  by (simp add: set_memory_def)

lemma returnedI:
  assumes "cpu_ok (\<lambda>_. True) m" "length mem = length (mainMemory (dev m))"
  shows "\<exists>m'. return_value (Inr (v, set_fileSystem fs (set_memory mem m))) = Inr m' \<and> returned m v fs mem m'"
proof -
  let ?m = "set_reg 2 (word_of_int v) (set_fileSystem fs (set_memory mem m))"
  have ok: "cpu_ok (\<lambda>_. True) ?m"
    using assms by (intro ok_set_reg ok_set_fileSystem [where K = "\<lambda>_. True"] ok_set_memory) simp_all
  then have l: "length (registers (dev ?m)) = NumTotalRegs" by (simp add: cpu_ok_def cpu_sound_def)
  have r: "reg i (set_fileSystem fs (set_memory mem m)) = reg i m" for i by (simp add: reg_def)
  have "length (registers (dev m)) = NumTotalRegs" using assms(1) by (simp add: cpu_ok_def cpu_sound_def)
  then have "returned m v fs mem (advance_pc ?m)"
    using ok_advance_pc [OF ok] by (simp add: returned_def advance_pc_def Let_def reg_set_reg r reg_numbers)
  then show ?thesis by (simp add: return_value_def)
qed

lemmas call_differs = SC_Halt_def SC_MSG_def SC_Create_def SC_Open_def SC_Read_def SC_Write_def SC_Close_def SC_Exit_def

text \<open>A user process ready to run, with its memory mapped by a page table.\<close>

definition process :: "FileSystem \<Rightarrow> kernel" where
  "process fs = with_table sample_table (Interrupt_new (Machine_new fs))"

lemma process_ok:
  "cpu_ok K (process fs) \<longleftrightarrow> K fs" "fileSystem (process fs) = fs"
  "mainMemory (dev (process fs)) = replicate (nat MemorySize) 0" "length (registers (dev (process fs))) = NumTotalRegs"
  by (auto simp: cpu_ok_def cpu_sound_def paged_def process_def with_table_def Interrupt_new_def Machine_new_def
      fileSystem_def reg_def reg_numbers MemorySize_def)

lemma format_opened: "FileSystem_format d = Inr fs \<Longrightarrow> openedFile fs = Dangling"
proof -
  have "safeR UNIV (\<lambda>fs. openedFile fs = Dangling) (FileSystem_format d)"
    unfolding FileSystem_format_def by (auto intro!: safeR_any simp: assertR_def Let_def split: prod.split)
  moreover assume "FileSystem_format d = Inr fs"
  ultimately show ?thesis by simp
qed

subsection \<open>The calls on files\<close>

lemma user_name_frame: "mainMemory (dev m') = mainMemory (dev m) \<Longrightarrow> user_name a m' = user_name a m"
  by (simp add: user_name_def user_bytes_def)

lemma trap_Open:
  assumes "cpu_ok (\<lambda>_. True) m" "int_fits a" "user_name a m = Inr nm" "FileSystem_Open nm (fileSystem m) = Inr (v, fs)"
  shows "\<exists>m'. trap SC_Open a 0 0 m = Inr m' \<and> returned m v fs (mainMemory (dev m)) m'"
proof -
  let ?m = "trap_registers SC_Open a 0 0 m"
  have l: "length (registers (dev m)) = NumTotalRegs" using assms(1) by (simp add: cpu_ok_def cpu_sound_def)
  have "int_fits SC_Open" "int_fits 0" by (simp_all add: call_codes int_fits_def)
  note args = trap_args [OF l this(1) assms(2) this(2,2)]
  have "trap SC_Open a 0 0 m = return_value (SysOpen a ?m)"
    by (simp add: trap_def ExceptionHandler_def system_call_def args Let_def) (simp add: call_codes)
  also have "SysOpen a ?m = Inr (v, set_fileSystem fs (set_memory (mainMemory (dev ?m)) ?m))"
    using assms(3,4) user_name_frame [of ?m m a] by (simp add: SysOpen_def set_memory_same)
  finally show ?thesis
    using returnedI [OF trap_registers_ok [OF assms(1)], of "mainMemory (dev m)" SC_Open a 0 0 v fs] args(5)
    by (simp add: returned_def)
qed

lemma trap_Write:
  assumes "cpu_ok (\<lambda>_. True) m" "int_fits buf" "int_fits n"
    "FileSystem_Write (user_bytes buf m) n 1 (fileSystem m) = Inr (v, fs)"
  shows "\<exists>m'. trap SC_Write buf n 1 m = Inr m' \<and> returned m v fs (mainMemory (dev m)) m'"
proof -
  let ?m = "trap_registers SC_Write buf n 1 m"
  have l: "length (registers (dev m)) = NumTotalRegs" using assms(1) by (simp add: cpu_ok_def cpu_sound_def)
  have "int_fits SC_Write" "int_fits 1" by (simp_all add: call_codes int_fits_def)
  note args = trap_args [OF l this(1) assms(2,3) this(2)]
  have "trap SC_Write buf n 1 m = return_value (SysWrite buf n 1 ?m)"
    by (simp add: trap_def ExceptionHandler_def system_call_def args Let_def) (simp add: call_codes)
  also have "SysWrite buf n 1 ?m = Inr (v, set_fileSystem fs (set_memory (mainMemory (dev ?m)) ?m))"
    using assms(4) by (auto simp add: SysWrite_def user_bytes_def set_memory_same)
  finally show ?thesis
    using returnedI [OF trap_registers_ok [OF assms(1)], of "mainMemory (dev m)" SC_Write buf n 1 v fs] args(5)
    by (simp add: returned_def)
qed

lemma trap_Read:
  assumes "cpu_ok (\<lambda>_. True) m" "int_fits buf" "int_fits n" "0 \<le> buf"
    "FileSystem_Read n 1 (fileSystem m) = Inr (bs, fs)" "buf + int (length bs) \<le> int (length (mainMemory (dev m)))"
  shows "\<exists>m'. trap SC_Read buf n 1 m = Inr m'
     \<and> returned m (int (length bs)) fs (overwrite (nat buf) bs (mainMemory (dev m))) m'"
proof -
  let ?m = "trap_registers SC_Read buf n 1 m" and ?mem = "overwrite (nat buf) bs (mainMemory (dev m))"
  have l: "length (registers (dev m)) = NumTotalRegs" using assms(1) by (simp add: cpu_ok_def cpu_sound_def)
  have "int_fits SC_Read" "int_fits 1" by (simp_all add: call_codes int_fits_def)
  note args = trap_args [OF l this(1) assms(2,3) this(2)]
  have "trap SC_Read buf n 1 m = return_value (SysRead buf n 1 ?m)"
    by (simp add: trap_def ExceptionHandler_def system_call_def args Let_def) (simp add: call_codes)
  also have "SysRead buf n 1 ?m = Inr (int (length bs), set_fileSystem fs (set_memory ?mem ?m))"
    using assms(4-6) by (simp add: SysRead_def)
  finally show ?thesis
    using returnedI [OF trap_registers_ok [OF assms(1)], of ?mem SC_Read buf n 1 "int (length bs)" fs] args(5) assms(4,6)
    by (simp add: returned_def length_overwrite)
qed

text \<open>A buffer in memory, written to a file from its beginning and read back from there.\<close>

definition write_and_read :: "int \<Rightarrow> int \<Rightarrow> int \<Rightarrow> int \<Rightarrow> kernel \<Rightarrow> kernel res" where
  "write_and_read a buf n buf2 m =
     bindR (trap SC_Open a 0 0 m) (\<lambda>m. bindR (trap SC_Write buf n 1 m) (\<lambda>m.
     bindR (trap SC_Open a 0 0 m) (trap SC_Read buf2 n 1)))"

text \<open>Reading through a newly opened file gives the beginning of its contents.\<close>

lemma Open_Read:
  assumes "fs_rep fs files sectors slots" "files (key nm) = Some c" "int_fits n"
  shows "\<exists>fs1 fs2. FileSystem_Open nm fs = Inr (1, fs1) \<and> FileSystem_Read n 1 fs1 = Inr (take (nat n) c, fs2)
     \<and> fs_rep fs2 files sectors slots"
proof -
  from assms(1) obtain dir m H where r: "fs_inv fs dir m H"
    "files = (\<lambda>n. map_option (\<lambda>s. file_bytes (H s) (disk fs)) (map_of (entries dir) n))" by (auto simp: fs_rep_def)
  from assms(2) obtain s where s: "map_of (entries dir) (key nm) = Some s" "c = file_bytes (H s) (disk fs)"
    by (auto simp: r(2))
  let ?f = "\<lparr>hdr = H s, seekPosition = 0\<rparr>"
  have "file_ok (hdr ?f) (disk fs)" using entry_sector(1) [OF r(1) s(1)] by (simp add: stored_def)
  from Read_eq [OF this, of n] assms(3) s(2) obtain f' where "OpenFile_Read ?f n (disk fs) = Inr (take (nat n) c, f')"
    by auto
  then have "FileSystem_Read n 1 (fs\<lparr>openedFile := Opened ?f\<rparr>) = Inr (take (nat n) c, fs\<lparr>openedFile := Opened f'\<rparr>)"
    by (simp add: FileSystem_Read_def opened_def)
  moreover have "FileSystem_Open nm fs = Inr (1, fs\<lparr>openedFile := Opened ?f\<rparr>)"
    by (simp add: FileSystem_Open_def OpenAsOpenFile_eq [OF r(1)] s(1))
  ultimately show ?thesis using assms(1) by auto
qed

subsection \<open>Properties\<close>

text \<open>
  C2: no user program can damage the file system. Whatever its instructions and system calls are,
  after any number of instructions the file system is still in order, no file is gone and none has
  changed its length, unless the run has ended: by \<^verbatim>\<open>Halt\<close>, \<^verbatim>\<open>MSG\<close> or \<^verbatim>\<open>Exit\<close>, by an exception the kernel does not
  handle, or by a fault that the unchecked arguments of a system call cause.
\<close>

theorem programs_keep_files:
  assumes "cpu_ok (\<lambda>_. True) m" "fs_rep (fileSystem m) files sectors slots" "\<forall>f. openedFile (fileSystem m) \<noteq> Opened f"
  shows "safeR (insert DivideTrap kernel_faults)
     (\<lambda>m'. \<exists>files' sectors' slots'. fs_rep (fileSystem m') files' sectors' slots'
        \<and> (\<forall>k c. files k = Some c \<longrightarrow> (\<exists>c'. files' k = Some c' \<and> length c' = length c)))
     (instructions n m)"
proof -
  have "fs_ok (all_files files) (fileSystem m)" using assms(2,3) by (intro fs_rep_ok) auto
  then have "cpu_ok (fs_ok (all_files files)) m"
    using assms(1) by (simp add: cpu_ok_def cpu_sound_def fileSystem_def)
  then have "safeR (insert DivideTrap kernel_faults) (cpu_ok (fs_ok (all_files files))) (instructions n m)"
    by (rule instructions_ok)
  then show ?thesis
  proof (rule safeR_mono)
    fix m' assume "cpu_ok (fs_ok (all_files files)) m'"
    from fs_ok_rep [OF ok_kernel [OF this]] obtain files' sectors' slots' where
      f: "fs_rep (fileSystem m') files' sectors' slots'" "all_files files \<subseteq> all_files files'" by blast
    have "\<exists>c'. files' k = Some c' \<and> length c' = length c" if "files k = Some c" for k c
    proof -
      from that have "(k, int (length c)) \<in> all_files files" by (auto simp: all_files_def)
      with f(2) have "(k, int (length c)) \<in> all_files files'" by blast
      then show ?thesis by (auto simp: all_files_def)
    qed
    with f(1) show "\<exists>files' sectors' slots'. fs_rep (fileSystem m') files' sectors' slots'
        \<and> (\<forall>k c. files k = Some c \<longrightarrow> (\<exists>c'. files' k = Some c' \<and> length c' = length c))" by blast
  qed
qed

lemma process_created:
  obtains fs c where "\<exists>fs0. FileSystem_format blank64 = Inr fs0 \<and> FileSystem_Create [65] 300 fs0 = Inr (True, fs)"
    "length c = 300" "fs_rep fs [key [65] \<mapsto> c] 55 9" "openedFile fs = Dangling"
proof (rule created)
  fix fs fs' c
  assume *: "FileSystem_format blank64 = Inr fs" "FileSystem_Create [65] 300 fs = Inr (True, fs')"
    "length (c :: byte list) = 300" "fs_rep fs' [key [65] \<mapsto> c] 55 9"
  moreover have "openedFile fs' = Dangling" using Create_opened [OF *(2)] format_opened [OF *(1)] by simp
  ultimately show thesis using that by blast
qed

lemma programs_keep_files_witness:
  "\<exists>fs c. (\<exists>fs0. FileSystem_format blank64 = Inr fs0 \<and> FileSystem_Create [65] 300 fs0 = Inr (True, fs))
     \<and> length (c :: byte list) = 300 \<and> safeR (insert DivideTrap kernel_faults)
       (\<lambda>m'. \<exists>files' sectors' slots'. fs_rep (fileSystem m') files' sectors' slots'
          \<and> (\<forall>k d. [key [65] \<mapsto> c] k = Some d \<longrightarrow> (\<exists>c'. files' k = Some c' \<and> length c' = length d)))
       (instructions 1000 (process fs))"
proof (rule process_created)
  fix fs c
  assume *: "\<exists>fs0. FileSystem_format blank64 = Inr fs0 \<and> FileSystem_Create [65] 300 fs0 = Inr (True, fs)"
    "length (c :: byte list) = 300" "fs_rep fs [key [65] \<mapsto> c] 55 9" "openedFile fs = Dangling"
  have "cpu_ok (\<lambda>_. True) (process fs)" "fs_rep (fileSystem (process fs)) [key [65] \<mapsto> c] 55 9"
    "\<forall>f. openedFile (fileSystem (process fs)) \<noteq> Opened f" using *(3,4) by (simp_all add: process_ok)
  from programs_keep_files [OF this, of 1000] show ?thesis
    by - (rule exI [of _ fs], rule exI [of _ c], intro conjI, rule *(1), rule *(2), assumption)
qed

text \<open>
  C16: a user program's data survives in a file: a buffer written with \<^verbatim>\<open>Open\<close> and \<^verbatim>\<open>Write\<close> and read with
  \<^verbatim>\<open>Open\<close> and \<^verbatim>\<open>Read\<close> arrives in memory at the second address as it was at the first, cut to the length of the file; the
  calls return the numbers of bytes, touch no other memory and continue after the traps.
\<close>

theorem calls_roundtrip:
  assumes "cpu_ok (\<lambda>_. True) m" "fs_rep (fileSystem m) files sectors slots"
    "user_name a m = Inr nm" "files (key nm) = Some c" "int_fits a"
    "0 \<le> buf" "buf + int n \<le> MemorySize" "0 \<le> buf2" "buf2 + int n \<le> MemorySize"
    "data = take (min n (length c)) (drop (nat buf) (mainMemory (dev m)))"
  shows "\<exists>m'. write_and_read a buf (int n) buf2 m = Inr m'
     \<and> mainMemory (dev m') = overwrite (nat buf2) data (mainMemory (dev m))
     \<and> reg 2 m' = word_of_int (int (min n (length c))) \<and> reg PCReg m' = reg PCReg m + 16
     \<and> fs_rep (fileSystem m') (files(key nm \<mapsto> overwrite 0 data c)) sectors slots"
proof -
  let ?mem = "mainMemory (dev m)" and ?k = "min n (length c)" and ?files = "files(key nm \<mapsto> overwrite 0 data c)"
  have mem: "int (length ?mem) = MemorySize" "MemorySize < 2 ^ 31"
    using assms(1) by (auto simp: cpu_ok_def cpu_sound_def paged_def MemorySize_def NumPhysPages_def PageSize_def)
  have fits: "int_fits (int n)" "int_fits buf" "int_fits buf2" "n \<le> length (user_bytes buf m)"
    using assms(6-9) mem by (auto simp: int_fits_def user_bytes_def)
  from Open_Write_refines [OF assms(2,4) fits(4,1)] obtain fs1 fs2 where
    w: "FileSystem_Open nm (fileSystem m) = Inr (1, fs1)"
      "FileSystem_Write (user_bytes buf m) (int n) 1 fs1 = Inr (int ?k, fs2)" "fs_rep fs2 ?files sectors slots"
    using assms(6) by (auto simp: user_bytes_def assms(10))
  have len: "length data = ?k" using assms(6,7,10) mem(1) by simp
  have "?files (key nm) = Some (overwrite 0 data c)" by simp
  from Open_Read [OF w(3) this fits(1), unfolded nat_int] obtain fs3 fs4 where
    r: "FileSystem_Open nm fs2 = Inr (1, fs3)" "FileSystem_Read (int n) 1 fs3 = Inr (take n (overwrite 0 data c), fs4)"
      "fs_rep fs4 ?files sectors slots" by blast
  have data: "take n (overwrite 0 data c) = data" using len by (auto simp: overwrite_def min_def)
  from trap_Open [OF assms(1,5,3) w(1)] obtain m1 where
    m1: "trap SC_Open a 0 0 m = Inr m1" "returned m 1 fs1 ?mem m1" by blast
  from m1(2) have "FileSystem_Write (user_bytes buf m1) (int n) 1 (fileSystem m1) = Inr (int ?k, fs2)" "cpu_ok (\<lambda>_. True) m1"
    using w(2) assms(6) by (simp_all add: returned_def user_bytes_def)
  from trap_Write [OF this(2) fits(2,1) this(1)] m1(2) obtain m2 where
    m2: "trap SC_Write buf (int n) 1 m1 = Inr m2" "returned m1 (int ?k) fs2 ?mem m2" by (auto simp: returned_def)
  then have "user_name a m2 = Inr nm" "cpu_ok (\<lambda>_. True) m2" "FileSystem_Open nm (fileSystem m2) = Inr (1, fs3)"
    using assms(3) user_name_frame [of m2 m a] r(1) by (simp_all add: returned_def)
  from trap_Open [OF this(2) assms(5) this(1,3)] m2(2) obtain m3 where
    m3: "trap SC_Open a 0 0 m2 = Inr m3" "returned m2 1 fs3 ?mem m3" by (auto simp: returned_def)
  then have "cpu_ok (\<lambda>_. True) m3" "FileSystem_Read (int n) 1 (fileSystem m3) = Inr (data, fs4)"
    "buf2 + int (length data) \<le> int (length (mainMemory (dev m3)))"
    using r(2) data len assms(9) mem(1) by (auto simp: returned_def)
  from trap_Read [OF this(1) fits(3,1) assms(8) this(2,3)] m3(2) obtain m4 where
    m4: "trap SC_Read buf2 (int n) 1 m3 = Inr m4" "returned m3 (int ?k) fs4 (overwrite (nat buf2) data ?mem) m4"
    by (auto simp: returned_def len)
  have "write_and_read a buf (int n) buf2 m = Inr m4"
    by (simp add: write_and_read_def m1(1) m2(1) m3(1) m4(1))
  then show ?thesis using m1(2) m2(2) m3(2) m4(2) r(3) by (simp add: returned_def)
qed

definition named_process :: "FileSystem \<Rightarrow> kernel" where
  "named_process fs = set_memory (65 # replicate (nat MemorySize - 1) 0) (process fs)"

lemma named_process_ok:
  "cpu_ok (\<lambda>_. True) (named_process fs)" "fileSystem (named_process fs) = fs"
  "user_name 0 (named_process fs) = Inr (65 # replicate (nat MemorySize - 1) 0)"
  "key (65 # replicate (nat MemorySize - 1) 0) = key [65]"
proof -
  have "0 < nat MemorySize - 1" by (simp add: MemorySize_def NumPhysPages_def PageSize_def)
  then have "0 \<in> set (replicate (nat MemorySize - 1) (0 :: byte))" by (simp add: in_set_replicate)
  then show "user_name 0 (named_process fs) = Inr (65 # replicate (nat MemorySize - 1) 0)"
    by (simp add: user_name_def user_bytes_def named_process_def Let_def)
  show "cpu_ok (\<lambda>_. True) (named_process fs)"
    unfolding named_process_def
    by (rule ok_set_memory) (simp_all add: process_ok MemorySize_def NumPhysPages_def PageSize_def)
  show "key (65 # replicate (nat MemorySize - 1) 0) = key [65]"
    by (cases "nat MemorySize - 1") (simp_all add: key_def)
qed (simp add: named_process_def process_ok)

lemma calls_roundtrip_witness:
  "\<exists>fs c m'. length (c :: byte list) = 300 \<and> write_and_read 0 0 (int 20) 1000 (named_process fs) = Inr m'
     \<and> mainMemory (dev m') = overwrite (nat 1000) (take (min 20 (length c)) (drop (nat 0) (mainMemory (dev (named_process fs)))))
          (mainMemory (dev (named_process fs)))
     \<and> reg 2 m' = word_of_int (int (min 20 (length c))) \<and> reg PCReg m' = reg PCReg (named_process fs) + 16"
proof (rule process_created)
  fix fs c
  assume *: "length (c :: byte list) = 300" "fs_rep fs [key [65] \<mapsto> c] 55 9"
  note p = named_process_ok(1-3) [of fs] named_process_ok(4)
  have "fs_rep (fileSystem (named_process fs)) [key [65] \<mapsto> c] 55 9" using *(2) p(2) by simp
  from calls_roundtrip [OF p(1) this p(3), unfolded p(4), of c 0 20 1000] *(1) show ?thesis
    by (fastforce simp: MemorySize_def NumPhysPages_def PageSize_def int_fits_def)
qed

text \<open>
  the system call \<^verbatim>\<open>Add\<close> does not add. Its case is written in the \<^verbatim>\<open>switch\<close> over exceptions, where
  its number 42 never occurs; as a call code it is taken for an unknown call, which leaves 42 itself
  in the result register.
\<close>

theorem Add_not_served:
  assumes "cpu_ok (\<lambda>_. True) m" "int_fits a" "int_fits b"
  shows "\<exists>m'. trap SC_Add a b 0 m = Inr m' \<and> reg 2 m' = 42 \<and> reg PCReg m' = reg PCReg m + 4
     \<and> fileSystem m' = fileSystem m \<and> (\<forall>e. exception_number e \<noteq> SC_Add)"
proof -
  let ?m = "trap_registers SC_Add a b 0 m"
  have l: "length (registers (dev m)) = NumTotalRegs" using assms(1) by (simp add: cpu_ok_def cpu_sound_def)
  have fits: "int_fits SC_Add" "int_fits 0" by (simp_all add: call_codes int_fits_def)
  note args = trap_args [OF l fits(1) assms(2,3) fits(2)]
  have "trap SC_Add a b 0 m = Inr (advance_pc ?m)"
    by (simp add: trap_def ExceptionHandler_def system_call_def args Let_def) (simp add: call_codes)
  moreover have "reg 2 (advance_pc ?m) = 42" "reg PCReg (advance_pc ?m) = reg PCReg m + 4"
    using l by (simp_all add: advance_pc_def trap_registers_def Let_def reg_set_reg reg_numbers SC_Add_def)
  moreover have "fileSystem (advance_pc ?m) = fileSystem m" by (simp add: advance_pc_def Let_def)
  ultimately show ?thesis using Add_not_raised by blast
qed

lemma Add_not_served_witness:
  "\<exists>m'. trap SC_Add 2 3 0 (process (FileSystem.make blank64 sample_file sample_file NoFile)) = Inr m' \<and> reg 2 m' = 42
     \<and> reg PCReg m' = reg PCReg (process (FileSystem.make blank64 sample_file sample_file NoFile)) + 4
     \<and> fileSystem m' = fileSystem (process (FileSystem.make blank64 sample_file sample_file NoFile))
     \<and> (\<forall>e. exception_number e \<noteq> SC_Add)"
  by (rule Add_not_served) (simp_all add: process_ok int_fits_def)

end
