(* ===== verification/AddrSpaces.thy ===== *)
theory AddrSpaces
  imports FileHdr MipsLaws
begin

text \<open>
  \<^verbatim>\<open>userprog/addrspace.cc\<close> and \<^verbatim>\<open>userprog/noff.h\<close> of the third assignment: loading an executable into
  frames taken from the bitmap \<^verbatim>\<open>pageBitmap\<close>, and starting it. The executable is a file of the host,
  given by its bytes (\<open>None\<close> if there is none), since the stub file system calls the host's \<^verbatim>\<open>lseek\<close> and
  \<^verbatim>\<open>read\<close>. The theory proves that a loaded program has its own frames holding the bytes of its segments
  and disturbs no other frame, how many frames loading really asks for, and that deleting an address
  space gives its frames back.
\<close>

subsection \<open>noff.h\<close>

record Segment =
  virtualAddr :: "32 word"
  inFileAddr :: "32 word"
  seg_size :: "32 word"

record NoffHeader =
  noffMagic :: "32 word"
  code :: Segment
  initData :: Segment
  readonlyData :: Segment
  uninitData :: Segment

definition NOFFMAGIC :: "32 word" where "NOFFMAGIC = 0xbadfad"
definition sizeof_NoffHeader :: nat where "sizeof_NoffHeader = 52"
definition UserStackSize :: int where "UserStackSize = 1024"
definition StackReg :: nat where "StackReg = 29"

definition word_at :: "nat \<Rightarrow> byte list \<Rightarrow> 32 word" where
  "word_at i bs = bytes_word (take 4 (drop i bs))"

definition bytes_Segment :: "nat \<Rightarrow> byte list \<Rightarrow> Segment" where
  "bytes_Segment i bs = \<lparr>virtualAddr = word_at i bs, inFileAddr = word_at (i + 4) bs, seg_size = word_at (i + 8) bs\<rparr>"

definition bytes_NoffHeader :: "byte list \<Rightarrow> NoffHeader" where
  "bytes_NoffHeader bs = \<lparr>noffMagic = word_at 0 bs, code = bytes_Segment 4 bs, initData = bytes_Segment 16 bs,
     readonlyData = bytes_Segment 28 bs, uninitData = bytes_Segment 40 bs\<rparr>"

text \<open>On a little-endian host (\<^verbatim>\<open>HOST_IS_BIG_ENDIAN\<close> is not set).\<close>

definition WordToHost :: "32 word \<Rightarrow> 32 word" where
  "WordToHost w = w"

definition swap_Segment :: "Segment \<Rightarrow> Segment" where
  "swap_Segment g = \<lparr>virtualAddr = WordToHost (virtualAddr g), inFileAddr = WordToHost (inFileAddr g),
     seg_size = WordToHost (seg_size g)\<rparr>"

definition SwapHeader :: "NoffHeader \<Rightarrow> NoffHeader" where
  "SwapHeader h = \<lparr>noffMagic = WordToHost (noffMagic h), code = swap_Segment (code h),
     initData = swap_Segment (initData h), readonlyData = swap_Segment (readonlyData h),
     uninitData = swap_Segment (uninitData h)\<rparr>"

subsection \<open>The address space\<close>

record AddrSpace =
  spaceTable :: "TranslationEntry list"
  numPages :: int

definition AddrSpace_new :: AddrSpace where
  "AddrSpace_new = \<lparr>spaceTable = [], numPages = 0\<rparr>"

text \<open>\<^verbatim>\<open>OpenFile::ReadAt\<close> of the stub file system: what there is of the \<open>n\<close> bytes from \<open>pos\<close> on.\<close>

definition host_ReadAt :: "byte list \<Rightarrow> int \<Rightarrow> int \<Rightarrow> byte list res" where
  "host_ReadAt exe n pos = assertR (0 \<le> pos) (Inr (take (nat n) (drop (nat pos) exe)))"

text \<open>The physical address is only assigned when the translation succeeds.\<close>

definition AddrSpace_Translate ::
  "32 word \<Rightarrow> bool \<Rightarrow> AddrSpace \<Rightarrow> (ExceptionType \<times> int option \<times> AddrSpace) res" where
  "AddrSpace_Translate vaddr isReadWrite s =
     (let vpn = uint vaddr div PageSize; offset = uint vaddr mod PageSize
      in if vpn \<ge> numPages s then Inr (AddressErrorException, None, s)
         else inboundsR vpn (int (length (spaceTable s)))
          (let pte = spaceTable s ! nat vpn; pfn = physicalPage pte
           in if isReadWrite \<and> readOnly pte then Inr (ReadOnlyException, None, s)
              else if pfn \<ge> NumPhysPages then Inr (BusErrorException, None, s)
              else let pte = pte\<lparr>used := True, dirty := dirty pte \<or> isReadWrite\<rparr>;
                       paddr = (pfn * PageSize + offset) mod 2 ^ 32
                in assertR (paddr < MemorySize)
                    (Inr (NoException, Some paddr, s\<lparr>spaceTable := (spaceTable s)[nat vpn := pte]\<rparr>))))"

subsection \<open>Load\<close>

definition fetch_header :: "byte list \<Rightarrow> NoffHeader res" where
  "fetch_header exe =
     bindR (host_ReadAt exe (int sizeof_NoffHeader) 0) (\<lambda>bs.
       if length bs < sizeof_NoffHeader then Inl Uninitialised else Inr (bytes_NoffHeader bs))"

text \<open>The sizes are added as \<^verbatim>\<open>int\<close>s, and their sum becomes unsigned.\<close>

definition address_space_size :: "NoffHeader \<Rightarrow> int res" where
  "address_space_size h =
     bindR (addR (sint (seg_size (code h))) (sint (seg_size (readonlyData h)))) (\<lambda>n.
     bindR (addR n (sint (seg_size (initData h)))) (\<lambda>n.
     bindR (addR n (sint (seg_size (uninitData h)))) (\<lambda>n.
     bindR (addR n UserStackSize) (\<lambda>n. Inr (n mod 2 ^ 32)))))"

text \<open>
  One round of the loop over the pages. When memory is short the exception handler is called for
  \<^verbatim>\<open>MemoryLimitException\<close>, which halts the machine.
\<close>

definition allocate_page ::
  "int \<Rightarrow> nat \<Rightarrow> TranslationEntry list \<times> Bitmap \<Rightarrow> (TranslationEntry list \<times> Bitmap) res" where
  "allocate_page n i = (\<lambda>(pt, pageBitmap).
     bindR (Bitmap_NumClear pageBitmap) (\<lambda>c.
       if n > c then Inl Halted
       else bindR (Bitmap_FindAndSet pageBitmap) (\<lambda>(freePage, pageBitmap).
         assertR (freePage \<noteq> - 1)
           (Inr (pt @ [\<lparr>virtualPage = int i, physicalPage = freePage, valid = True, readOnly = False,
                        used = False, dirty = False\<rparr>], pageBitmap)))))"

text \<open>One byte of a segment; the result of \<^verbatim>\<open>Translate\<close> is ignored.\<close>

definition load_byte ::
  "byte list \<Rightarrow> Segment \<Rightarrow> nat \<Rightarrow> AddrSpace \<times> byte list \<Rightarrow> (AddrSpace \<times> byte list) res" where
  "load_byte exe g i = (\<lambda>(s, mem).
     bindR (AddrSpace_Translate (virtualAddr g + of_nat i) True s) (\<lambda>(e, physAddr, s).
       case physAddr of None \<Rightarrow> Inl Uninitialised
       | Some physAddr \<Rightarrow>
           bindR (host_ReadAt exe 1 (sint (inFileAddr g + of_nat i))) (\<lambda>bs.
             inboundsR physAddr (int (length mem)) (Inr (s, overwrite (nat physAddr) bs mem)))))"

definition load_segment ::
  "byte list \<Rightarrow> Segment \<Rightarrow> AddrSpace \<times> byte list \<Rightarrow> (AddrSpace \<times> byte list) res" where
  "load_segment exe g = forR (unat (seg_size g)) 0 (load_byte exe g)"

text \<open>The read-only data goes to its virtual address, used as a physical one.\<close>

definition load_readonly :: "byte list \<Rightarrow> Segment \<Rightarrow> byte list \<Rightarrow> byte list res" where
  "load_readonly exe g mem =
     (if sint (seg_size g) > 0
      then bindR (host_ReadAt exe (sint (seg_size g)) (sint (inFileAddr g))) (\<lambda>bs.
        if bs \<noteq> [] \<and> \<not> (0 \<le> sint (virtualAddr g) \<and> sint (virtualAddr g) + int (length bs) \<le> int (length mem))
        then Inl OutOfBounds
        else Inr (overwrite (nat (sint (virtualAddr g))) bs mem))
      else Inr mem)"

definition AddrSpace_Load ::
  "byte list option \<Rightarrow> AddrSpace \<Rightarrow> Bitmap \<Rightarrow> byte list \<Rightarrow> (bool \<times> AddrSpace \<times> Bitmap \<times> byte list) res" where
  "AddrSpace_Load executable s pageBitmap mem =
     (case executable of None \<Rightarrow> Inr (False, s, pageBitmap, mem)
      | Some exe \<Rightarrow>
          bindR (fetch_header exe) (\<lambda>noffH.
          let noffH = (if noffMagic noffH \<noteq> NOFFMAGIC \<and> WordToHost (noffMagic noffH) = NOFFMAGIC
                       then SwapHeader noffH else noffH)
          in assertR (noffMagic noffH = NOFFMAGIC)
           (bindR (address_space_size noffH) (\<lambda>sz.
            let n = divRoundUp sz PageSize
            in bindR (forR (nat n) 0 (allocate_page n) ([], pageBitmap)) (\<lambda>(pt, pageBitmap).
               assertR (n \<le> NumPhysPages)
                (bindR (load_segment exe (code noffH) (\<lparr>spaceTable = pt, numPages = n\<rparr>, mem)) (\<lambda>(s, mem).
                 bindR (load_segment exe (initData noffH) (s, mem)) (\<lambda>(s, mem).
                 bindR (load_readonly exe (readonlyData noffH) mem) (\<lambda>mem.
                   Inr (True, s, pageBitmap, mem))))))))))"

text \<open>\<^verbatim>\<open>AddrSpace::~AddrSpace\<close>.\<close>

definition AddrSpace_delete :: "AddrSpace \<Rightarrow> Bitmap \<Rightarrow> Bitmap res" where
  "AddrSpace_delete s = forR (nat (numPages s)) 0 (\<lambda>i pageBitmap.
     inboundsR (int i) (int (length (spaceTable s)))
      (if valid (spaceTable s ! i) then Bitmap_Clear pageBitmap (physicalPage (spaceTable s ! i)) else Inr pageBitmap))"

subsection \<open>Starting the program\<close>

definition AddrSpace_InitRegisters :: "AddrSpace \<Rightarrow> 'k cpu \<Rightarrow> 'k cpu res" where
  "AddrSpace_InitRegisters s m =
     bindR (forR NumTotalRegs 0 (\<lambda>i. Machine_WriteRegister (int i) 0) m) (\<lambda>m.
     bindR (Machine_WriteRegister (int PCReg) 0 m) (\<lambda>m.
     bindR (Machine_WriteRegister (int NextPCReg) 4 m) (\<lambda>m.
       Machine_WriteRegister (int StackReg) (word_of_int (numPages s * PageSize - 16)) m)))"

definition space_RestoreState :: "AddrSpace \<Rightarrow> 'k cpu \<Rightarrow> 'k cpu" where
  "space_RestoreState s m =
     m\<lparr>dev := (dev m)\<lparr>pageTable := Some (spaceTable s), pageTableSize := numPages s\<rparr>\<rparr>"

text \<open>\<^verbatim>\<open>Execute\<close> up to the call of \<^verbatim>\<open>Machine::Run\<close>, which does not return.\<close>

definition AddrSpace_Execute :: "AddrSpace \<Rightarrow> 'k cpu \<Rightarrow> 'k cpu res" where
  "AddrSpace_Execute s m = bindR (AddrSpace_InitRegisters s m) (\<lambda>m. Inr (space_RestoreState s m))"

subsection \<open>Taking the frames\<close>

definition new_entry :: "nat \<Rightarrow> nat \<Rightarrow> TranslationEntry" where
  "new_entry i f = \<lparr>virtualPage = int i, physicalPage = int f, valid = True, readOnly = False, used = False, dirty = False\<rparr>"

lemma allocate_page_eq:
  assumes "bm_inv b" "1 \<le> n"
  shows "if n \<le> int (card (bm_free b))
     then \<exists>f b'. allocate_page n i (pt, b) = Inr (pt @ [new_entry i f], b') \<and> f \<in> bm_free b \<and> bm_inv b'
        \<and> bm_size b' = bm_size b \<and> bm_free b' = bm_free b - {f} \<and> card (bm_free b') = card (bm_free b) - 1
     else allocate_page n i (pt, b) = Inl Halted"
proof (cases "n \<le> int (card (bm_free b))")
  case True
  then have "bm_free b \<noteq> {}" using assms(2) by auto
  from FindAndSet_sector [OF assms(1) this] obtain f b' where "Bitmap_FindAndSet b = Inr (int f, b')" "f \<in> bm_free b"
    "bm_inv b'" "bm_size b' = bm_size b" "bm_free b' = bm_free b - {f}" "card (bm_free b') = card (bm_free b) - 1" by blast
  with True show ?thesis by (simp add: allocate_page_def NumClear_eq [OF assms(1)] new_entry_def)
qed (simp add: allocate_page_def NumClear_eq [OF assms(1)])

text \<open>Each of the \<open>k\<close> remaining rounds asks for all \<open>n\<close> frames once more.\<close>

lemma allocate_pages:
  assumes "bm_inv b" "1 \<le> n" "0 < k"
  shows "if n + int k \<le> int (card (bm_free b)) + 1
     then \<exists>fr b'. forR k i (allocate_page n) (pt, b) = Inr (pt @ map2 new_entry [i..<i + k] fr, b') \<and> length fr = k
        \<and> distinct fr \<and> set fr \<subseteq> bm_free b \<and> bm_inv b' \<and> bm_size b' = bm_size b \<and> bm_free b' = bm_free b - set fr
     else forR k i (allocate_page n) (pt, b) = Inl Halted"
  using assms(1,3)
proof (induction k arbitrary: i pt b)
  case (Suc k)
  note page = allocate_page_eq [OF Suc.prems(1) assms(2), of i pt]
  show ?case
  proof (cases "n \<le> int (card (bm_free b))")
    case False
    with page show ?thesis by simp
  next
    case True
    with page obtain f b' where f: "allocate_page n i (pt, b) = Inr (pt @ [new_entry i f], b')" "f \<in> bm_free b" "bm_inv b'"
        "bm_size b' = bm_size b" "bm_free b' = bm_free b - {f}" "card (bm_free b') = card (bm_free b) - 1" by auto
    have pos: "0 < card (bm_free b)" using f(2) by (auto simp: card_gt_0_iff)
    show ?thesis
    proof (cases "k = 0")
      case True
      then show ?thesis
        using \<open>n \<le> _\<close> f by (intro if_P [THEN iffD2, OF _ exI [of _ "[f]"]] exI [of _ "[f]"]) auto
    next
      case False
      with Suc.IH [OF f(3), of "Suc i" "pt @ [new_entry i f]"] pos f(6)
      have ih: "if n + int (Suc k) \<le> int (card (bm_free b)) + 1
         then \<exists>fr b''. forR k (Suc i) (allocate_page n) (pt @ [new_entry i f], b')
              = Inr ((pt @ [new_entry i f]) @ map2 new_entry [Suc i..<Suc i + k] fr, b'') \<and> length fr = k
            \<and> distinct fr \<and> set fr \<subseteq> bm_free b' \<and> bm_inv b'' \<and> bm_size b'' = bm_size b' \<and> bm_free b'' = bm_free b' - set fr
         else forR k (Suc i) (allocate_page n) (pt @ [new_entry i f], b') = Inl Halted" by auto
      show ?thesis
      proof (cases "n + int (Suc k) \<le> int (card (bm_free b)) + 1")
        case True
        with ih obtain fr b'' where g: "forR k (Suc i) (allocate_page n) (pt @ [new_entry i f], b')
              = Inr ((pt @ [new_entry i f]) @ map2 new_entry [Suc i..<Suc i + k] fr, b'')" "length fr = k"
            "distinct fr" "set fr \<subseteq> bm_free b'" "bm_inv b''" "bm_size b'' = bm_size b'" "bm_free b'' = bm_free b' - set fr"
          by auto
        have "[i..<i + Suc k] = i # [Suc i..<Suc i + k]" by (simp add: upt_conv_Cons)
        with True f g show ?thesis
          by (simp del: upt_Suc) (intro exI [of _ "f # fr"] exI [of _ b''], auto)
      qed (use ih f(1) in simp)
    qed
  qed
qed simp

subsection \<open>A space and its view of the memory\<close>

text \<open>The entries map the pages to the frames \<open>fr\<close>; for reading and writing.\<close>

definition maps_to :: "AddrSpace \<Rightarrow> nat list \<Rightarrow> bool" where
  "maps_to s fr \<longleftrightarrow> numPages s = int (length fr) \<and> length (spaceTable s) = length fr
     \<and> distinct fr \<and> set fr \<subseteq> {..<nat NumPhysPages}
     \<and> (\<forall>i<length fr. physicalPage (spaceTable s ! i) = int (fr ! i) \<and> valid (spaceTable s ! i))"

definition space_ok :: "AddrSpace \<Rightarrow> nat list \<Rightarrow> bool" where
  "space_ok s fr \<longleftrightarrow> maps_to s fr \<and> (\<forall>i<length fr. \<not> readOnly (spaceTable s ! i))"

definition addr_of :: "nat list \<Rightarrow> nat \<Rightarrow> nat" where
  "addr_of fr v = fr ! (v div 128) * 128 + v mod 128"

definition view :: "nat list \<Rightarrow> byte list \<Rightarrow> byte list" where
  "view fr mem = map (\<lambda>v. mem ! addr_of fr v) [0..<128 * length fr]"

lemma length_view [simp]: "length (view fr mem) = 128 * length fr"
  by (simp add: view_def)

lemma page_in_range: "v < 128 * n \<Longrightarrow> v div 128 < n" for v n :: nat
  by (simp add: less_mult_imp_div_less mult.commute)

lemma addr_of_bound:
  assumes "set fr \<subseteq> {..<nat NumPhysPages}" "v < 128 * length fr"
  shows "addr_of fr v < nat MemorySize" "addr_of fr v div 128 \<in> set fr"
proof -
  have "fr ! (v div 128) \<in> set fr" using page_in_range [OF assms(2)] by (rule nth_mem)
  moreover from this have "fr ! (v div 128) < 128" using assms(1) by (auto simp: NumPhysPages_def)
  ultimately show "addr_of fr v < nat MemorySize" "addr_of fr v div 128 \<in> set fr"
    by (auto simp: addr_of_def MemorySize_def NumPhysPages_def PageSize_def)
qed

lemma addr_of_inj:
  assumes "distinct fr" "v < 128 * length fr" "w < 128 * length fr" "addr_of fr v = addr_of fr w"
  shows "v = w"
proof -
  from assms(4) have "addr_of fr v div 128 = addr_of fr w div 128" "addr_of fr v mod 128 = addr_of fr w mod 128" by simp_all
  then have e: "fr ! (v div 128) = fr ! (w div 128)" "v mod 128 = w mod 128" by (simp_all add: addr_of_def)
  then have "v div 128 = w div 128"
    using assms(1-3) page_in_range by (simp add: nth_eq_iff_index_eq)
  with e(2) show ?thesis by (metis div_mult_mod_eq)
qed

text \<open>A byte written at a virtual address.\<close>

lemma view_update:
  assumes "distinct fr" "set fr \<subseteq> {..<nat NumPhysPages}" "v < 128 * length fr" "length mem = nat MemorySize"
  shows "view fr (mem[addr_of fr v := b]) = (view fr mem)[v := b]"
proof (rule nth_equalityI)
  fix w assume "w < length (view fr (mem[addr_of fr v := b]))"
  then have w: "w < 128 * length fr" by simp
  have "addr_of fr v < length mem" using addr_of_bound(1) [OF assms(2,3)] assms(4) by simp
  then show "view fr (mem[addr_of fr v := b]) ! w = (view fr mem)[v := b] ! w"
    using w assms(3) addr_of_inj [OF assms(1) w assms(3)] by (auto simp: view_def nth_list_update)
qed simp

lemma AddrSpace_Translate_ok:
  assumes "space_ok s fr" "unat va < 128 * length fr"
  shows "\<exists>s'. AddrSpace_Translate va True s = Inr (NoException, Some (int (addr_of fr (unat va))), s') \<and> space_ok s' fr"
proof -
  let ?p = "unat va div 128" and ?a = "addr_of fr (unat va)"
  have p: "?p < length fr" using page_in_range [OF assms(2)] .
  have fr: "set fr \<subseteq> {..<nat NumPhysPages}" using assms(1) by (simp add: space_ok_def maps_to_def)
  have vpn: "uint va div PageSize = int ?p" "uint va mod PageSize = int (unat va mod 128)"
    unfolding PageSize_def zdiv_int zmod_int uint_nat by simp_all
  have e: "physicalPage (spaceTable s ! ?p) = int (fr ! ?p)" "\<not> readOnly (spaceTable s ! ?p)"
    using assms(1) p by (simp_all add: space_ok_def maps_to_def)
  have small: "int (fr ! ?p) < NumPhysPages" using nth_mem [OF p] fr by (auto simp: NumPhysPages_def)
  have a: "int (fr ! ?p) * PageSize + int (unat va mod 128) = int ?a" by (simp add: addr_of_def PageSize_def)
  have b: "int ?a < MemorySize" using addr_of_bound(1) [OF fr assms(2)] by (simp add: MemorySize_def NumPhysPages_def PageSize_def)
  then have m: "int ?a mod 4294967296 = int ?a" by (simp add: MemorySize_def NumPhysPages_def PageSize_def)
  let ?e = "(spaceTable s ! ?p)\<lparr>used := True, dirty := dirty (spaceTable s ! ?p) \<or> True\<rparr>"
  have "AddrSpace_Translate va True s
      = Inr (NoException, Some (int ?a), s\<lparr>spaceTable := (spaceTable s)[?p := ?e]\<rparr>)"
  proof -
    have "\<not> int ?p \<ge> numPages s" "int ?p < int (length (spaceTable s))"
      using assms(1) p by (simp_all add: space_ok_def maps_to_def)
    with e small b show ?thesis
      unfolding AddrSpace_Translate_def vpn Let_def nat_int by (simp add: a m del: of_nat_add of_nat_mult)
  qed
  moreover have "space_ok (s\<lparr>spaceTable := (spaceTable s)[?p := ?e]\<rparr>) fr"
    using assms(1) p by (auto simp: space_ok_def maps_to_def nth_list_update)
  ultimately show ?thesis by blast
qed

subsection \<open>Copying a segment\<close>

text \<open>The segment is absent, or it lies in the space and in the file.\<close>

definition segment_fits :: "Segment \<Rightarrow> nat \<Rightarrow> byte list \<Rightarrow> bool" where
  "segment_fits g n exe \<longleftrightarrow> n \<le> 128 \<and> length exe < 2 ^ 31 \<and> (seg_size g = 0
     \<or> unat (virtualAddr g) + unat (seg_size g) \<le> 128 * n \<and> unat (inFileAddr g) + unat (seg_size g) \<le> length exe)"

definition segment_bytes :: "Segment \<Rightarrow> byte list \<Rightarrow> byte list" where
  "segment_bytes g exe = take (unat (seg_size g)) (drop (unat (inFileAddr g)) exe)"

lemma overwrite_snoc:
  assumes "p + length xs < length ys"
  shows "overwrite p (xs @ [x]) ys = (overwrite p xs ys)[p + length xs := x]"
proof -
  have "drop (p + length xs) ys = ys ! (p + length xs) # drop (Suc (p + length xs)) ys"
    using assms by (rule Cons_nth_drop_Suc [symmetric])
  with assms show ?thesis by (simp add: overwrite_def list_update_append)
qed

lemma unat_add_of_nat: "unat w + i < 2 ^ 32 \<Longrightarrow> unat (w + of_nat i) = unat w + i" for w :: "32 word"
  by (simp add: unat_word_ariths take_bit_nat_eq_self unsigned_of_nat take_bit_eq_mod mod_simps flip: unat_of_nat)

lemma load_byte_eq:
  assumes "space_ok s fr" "segment_fits g (length fr) exe" "i < unat (seg_size g)" "length mem = nat MemorySize"
  shows "\<exists>s'. load_byte exe g i (s, mem)
       = Inr (s', mem[addr_of fr (unat (virtualAddr g) + i) := exe ! (unat (inFileAddr g) + i)]) \<and> space_ok s' fr"
proof -
  let ?v = "unat (virtualAddr g) + i" and ?f = "unat (inFileAddr g) + i"
  have range: "?v < 128 * length fr" "length fr \<le> 128" "?f < length exe" "length exe < 2 ^ 31"
    using assms(2,3) by (auto simp: segment_fits_def)
  have v: "unat (virtualAddr g + of_nat i) = ?v" using range by (intro unat_add_of_nat) simp
  have f: "unat (inFileAddr g + of_nat i) = ?f" using range by (intro unat_add_of_nat) simp
  have u: "uint (inFileAddr g + of_nat i) = int ?f" unfolding uint_nat f ..
  have "?f < 2 ^ 31" using range(3,4) by (rule order.strict_trans)
  then have "int ?f < int (2 ^ 31)" by (simp only: of_nat_less_iff)
  then have "int ?f < 2 ^ 31" by (simp only: of_nat_power of_nat_numeral)
  then have "\<not> bit (inFileAddr g + of_nat i) 31" unfolding bit31_iff u by linarith
  then have "sint (inFileAddr g + of_nat i) = int ?f" unfolding sint_by_sign u by simp
  moreover have "take 1 (drop ?f exe) = [exe ! ?f]" using range(3) by (simp add: take_Suc_conv_app_nth)
  ultimately have r: "host_ReadAt exe 1 (sint (inFileAddr g + of_nat i)) = Inr [exe ! ?f]"
    by (simp add: host_ReadAt_def del: of_nat_add)
  from assms(1) have fr: "set fr \<subseteq> {..<nat NumPhysPages}" by (simp add: space_ok_def maps_to_def)
  have a: "addr_of fr ?v < length mem" using addr_of_bound(1) [OF fr range(1)] assms(4) by simp
  have one: "overwrite (addr_of fr ?v) [exe ! ?f] mem = mem[addr_of fr ?v := exe ! ?f]"
    using overwrite_snoc [of "addr_of fr ?v" "[]" mem "exe ! ?f"] a by simp
  from AddrSpace_Translate_ok [OF assms(1), of "virtualAddr g + of_nat i"] range(1) obtain s' where
    "AddrSpace_Translate (virtualAddr g + of_nat i) True s = Inr (NoException, Some (int (addr_of fr ?v)), s')" "space_ok s' fr"
    unfolding v by blast
  then show ?thesis using r a by (auto simp: load_byte_def one)
qed

text \<open>What loading does to the memory: to this space, and to the rest.\<close>

definition loaded :: "nat list \<Rightarrow> nat \<Rightarrow> byte list \<Rightarrow> byte list \<Rightarrow> byte list \<Rightarrow> bool" where
  "loaded fr v bs mem mem' \<longleftrightarrow> length mem' = length mem \<and> view fr mem' = overwrite v bs (view fr mem)
     \<and> (\<forall>p. p div 128 \<notin> set fr \<longrightarrow> mem' ! p = mem ! p)"

lemma load_segment_eq:
  assumes "space_ok s fr" "segment_fits g (length fr) exe" "length mem = nat MemorySize"
  shows "\<exists>s' mem'. load_segment exe g (s, mem) = Inr (s', mem') \<and> space_ok s' fr
     \<and> loaded fr (unat (virtualAddr g)) (segment_bytes g exe) mem mem'"
proof (cases "seg_size g = 0")
  case True
  then show ?thesis using assms(1) by (simp add: load_segment_def segment_bytes_def loaded_def)
next
  case False
  let ?v = "unat (virtualAddr g)" and ?n = "unat (seg_size g)" and ?src = "drop (unat (inFileAddr g)) exe"
  let ?P = "\<lambda>i (t, m). space_ok t fr \<and> loaded fr ?v (take i ?src) mem m"
  have fr: "distinct fr" "set fr \<subseteq> {..<nat NumPhysPages}" using assms(1) by (simp_all add: space_ok_def maps_to_def)
  have "\<exists>r. forR ?n 0 (load_byte exe g) (s, mem) = Inr r \<and> ?P (0 + ?n) r"
  proof (rule forR_invariant [where P = ?P])
    show "?P 0 (s, mem)" using assms(1) by (simp add: loaded_def)
    fix i t assume "i < 0 + ?n" and P: "?P i t"
    then have i: "i < ?n" by simp
    obtain t0 m where t: "t = (t0, m)" by (cases t)
    from P have ok: "space_ok t0 fr" and l: "loaded fr ?v (take i ?src) mem m" by (simp_all add: t)
    have len: "length m = nat MemorySize" using l assms(3) by (simp add: loaded_def)
    from load_byte_eq [OF ok assms(2) i len] obtain t' where
      b: "load_byte exe g i t = Inr (t', m[addr_of fr (?v + i) := exe ! (unat (inFileAddr g) + i)])" "space_ok t' fr"
      unfolding t by blast
    have range: "?v + i < 128 * length fr" "i < length ?src" using assms(2) i False by (auto simp: segment_fits_def)
    have "take (Suc i) ?src = take i ?src @ [exe ! (unat (inFileAddr g) + i)]"
      using range(2) by (simp add: take_Suc_conv_app_nth)
    moreover have "overwrite ?v (take i ?src @ [exe ! (unat (inFileAddr g) + i)]) (view fr mem)
        = (overwrite ?v (take i ?src) (view fr mem))[?v + i := exe ! (unat (inFileAddr g) + i)]"
      using overwrite_snoc [of ?v "take i ?src" "view fr mem"] range by simp
    moreover have "m[addr_of fr (?v + i) := b] ! p = m ! p" if "p div 128 \<notin> set fr" for p b
      using addr_of_bound(2) [OF fr(2) range(1)] that by (metis nth_list_update_neq)
    ultimately have "loaded fr ?v (take (Suc i) ?src) mem (m[addr_of fr (?v + i) := exe ! (unat (inFileAddr g) + i)])"
      using l by (simp add: loaded_def view_update [OF fr range(1) len])
    with b show "\<exists>t'. load_byte exe g i t = Inr t' \<and> ?P (Suc i) t'" by auto
  qed
  then show ?thesis by (auto simp: load_segment_def segment_bytes_def)
qed

subsection \<open>Loading an executable\<close>

definition header :: "byte list \<Rightarrow> NoffHeader" where
  "header exe = bytes_NoffHeader (take sizeof_NoffHeader exe)"

text \<open>How many bytes a program asks for; a well-formed executable of \<open>n\<close> pages.\<close>

definition space_bytes :: "NoffHeader \<Rightarrow> nat" where
  "space_bytes h = unat (seg_size (code h)) + unat (seg_size (readonlyData h)) + unat (seg_size (initData h))
     + unat (seg_size (uninitData h)) + 1024"

definition noff_ok :: "byte list \<Rightarrow> nat \<Rightarrow> bool" where
  "noff_ok exe n \<longleftrightarrow> sizeof_NoffHeader \<le> length exe \<and> noffMagic (header exe) = NOFFMAGIC
     \<and> n = (space_bytes (header exe) + 127) div 128 \<and> n \<le> 128
     \<and> segment_fits (code (header exe)) n exe \<and> segment_fits (initData (header exe)) n exe"

lemma noff_pages:
  assumes "noff_ok exe n"
  shows "8 \<le> n" "n \<le> 128" "space_bytes (header exe) \<le> 16384"
proof -
  have "n = (space_bytes (header exe) + 127) div 128" "1024 \<le> space_bytes (header exe)"
    using assms by (simp_all add: noff_ok_def space_bytes_def)
  moreover show "n \<le> 128" using assms by (simp add: noff_ok_def)
  ultimately show "8 \<le> n" "space_bytes (header exe) \<le> 16384" by linarith+
qed

lemma add_sizes:
  assumes "c + r + i + u + 1024 < (2 ^ 31 :: nat)"
  shows "bindR (addR (int c) (int r)) (\<lambda>n. bindR (addR n (int i)) (\<lambda>n. bindR (addR n (int u)) (\<lambda>n.
      bindR (addR n UserStackSize) (\<lambda>n. Inr (n mod 2 ^ 32))))) = Inr (int (c + r + i + u + 1024))"
proof -
  have "int_fits (int c + int r)" "int_fits (int c + int r + int i)" "int_fits (int c + int r + int i + int u)"
    "int_fits (int c + int r + int i + int u + 1024)" using assms by (simp_all add: int_fits_def)
  then show ?thesis using assms by (simp add: UserStackSize_def)
qed

lemma address_space_size_eq:
  assumes "space_bytes h < 2 ^ 31"
  shows "address_space_size h = Inr (int (space_bytes h))"
proof -
  have "unat (seg_size (code h)) < 2 ^ 31" "unat (seg_size (readonlyData h)) < 2 ^ 31"
    "unat (seg_size (initData h)) < 2 ^ 31" "unat (seg_size (uninitData h)) < 2 ^ 31"
    using assms by (simp_all add: space_bytes_def)
  note sint = this [THEN sint_small_unat]
  show ?thesis
    unfolding address_space_size_def sint space_bytes_def
    by (rule add_sizes) (use assms in \<open>simp add: space_bytes_def\<close>)
qed

lemma fetch_header_eq:
  "sizeof_NoffHeader \<le> length exe \<Longrightarrow> fetch_header exe = Inr (header exe)"
  by (simp add: fetch_header_def host_ReadAt_def header_def sizeof_NoffHeader_def)

text \<open>Up to the read-only data: either the frames are not there, or the two segments are loaded.\<close>

lemma new_table_ok:
  assumes "length fr = n" "distinct fr" "set fr \<subseteq> {..<128}"
  shows "space_ok \<lparr>spaceTable = map2 new_entry [0..<n] fr, numPages = int n\<rparr> fr"
  using assms by (simp add: space_ok_def maps_to_def new_entry_def NumPhysPages_def)

lemma Load_structure:
  assumes "noff_ok exe n" "bm_inv b" "bm_size b = 128" "length mem = nat MemorySize"
  shows "if 2 * n \<le> card (bm_free b) + 1
     then \<exists>s fr b' mem1 mem2. AddrSpace_Load (Some exe) s0 b mem
            = bindR (load_readonly exe (readonlyData (header exe)) mem2) (\<lambda>mem'. Inr (True, s, b', mem'))
        \<and> space_ok s fr \<and> length fr = n \<and> set fr \<subseteq> bm_free b \<and> bm_inv b' \<and> bm_size b' = 128
        \<and> bm_free b' = bm_free b - set fr
        \<and> loaded fr (unat (virtualAddr (code (header exe)))) (segment_bytes (code (header exe)) exe) mem mem1
        \<and> loaded fr (unat (virtualAddr (initData (header exe)))) (segment_bytes (initData (header exe)) exe) mem1 mem2
     else AddrSpace_Load (Some exe) s0 b mem = Inl Halted"
proof -
  let ?h = "header exe"
  note n = noff_pages [OF assms(1)]
  have h: "fetch_header exe = Inr ?h" "noffMagic ?h = NOFFMAGIC" "address_space_size ?h = Inr (int (space_bytes ?h))"
    using assms(1) n(3) by (simp_all add: noff_ok_def fetch_header_eq address_space_size_eq)
  have fits: "segment_fits (code ?h) n exe" "segment_fits (initData ?h) n exe"
    using assms(1) unfolding noff_ok_def by blast+
  have pages: "divRoundUp (int (space_bytes ?h)) PageSize = int n"
    using assms(1) by (simp add: noff_ok_def PageSize_def divRoundUp_nat)
  note start = AddrSpace_Load_def h(1-3) pages
  have "1 \<le> int n" "0 < n" using n(1) by simp_all
  note alloc = allocate_pages [OF assms(2) this, of 0 "[]"]
  show ?thesis
  proof (cases "2 * n \<le> card (bm_free b) + 1")
    case False
    then have "\<not> int n + int n \<le> int (card (bm_free b)) + 1" by linarith
    with alloc have "forR n 0 (allocate_page (int n)) ([], b) = Inl Halted" by simp
    with False show ?thesis by (simp add: start)
  next
    case True
    then have "int n + int n \<le> int (card (bm_free b)) + 1" by linarith
    with alloc obtain fr b' where a: "forR n 0 (allocate_page (int n)) ([], b) = Inr (map2 new_entry [0..<n] fr, b')"
      "length fr = n" "distinct fr" "set fr \<subseteq> bm_free b" "bm_inv b'" "bm_size b' = bm_size b" "bm_free b' = bm_free b - set fr"
      by auto
    have "set fr \<subseteq> {..<128}" using a(4) bm_free_bounded assms(3) by fastforce
    from new_table_ok [OF a(2,3) this] have ok: "space_ok \<lparr>spaceTable = map2 new_entry [0..<n] fr, numPages = int n\<rparr> fr" .
    from load_segment_eq [OF ok _ assms(4)] fits(1) a(2) obtain s1 mem1 where
      s1: "load_segment exe (code ?h) (\<lparr>spaceTable = map2 new_entry [0..<n] fr, numPages = int n\<rparr>, mem) = Inr (s1, mem1)"
        "space_ok s1 fr" "loaded fr (unat (virtualAddr (code ?h))) (segment_bytes (code ?h) exe) mem mem1" by blast
    have "length mem1 = nat MemorySize" using s1(3) assms(4) by (simp add: loaded_def)
    from load_segment_eq [OF s1(2) _ this] fits(2) a(2) obtain s2 mem2 where
      s2: "load_segment exe (initData ?h) (s1, mem1) = Inr (s2, mem2)"
        "space_ok s2 fr" "loaded fr (unat (virtualAddr (initData ?h))) (segment_bytes (initData ?h) exe) mem1 mem2" by blast
    have "int n \<le> NumPhysPages" using n(2) by (simp add: NumPhysPages_def)
    then have "AddrSpace_Load (Some exe) s0 b mem
        = bindR (load_readonly exe (readonlyData ?h) mem2) (\<lambda>mem'. Inr (True, s2, b', mem'))"
      by (simp add: start a(1) s1(1) s2(1))
    then show ?thesis using True a s1 s2 assms(3) by (simp only: if_True) blast
  qed
qed

text \<open>The read-only data: its bytes are written at its address in physical memory, if they fit there.\<close>

definition readonly_fits :: "Segment \<Rightarrow> byte list \<Rightarrow> bool" where
  "readonly_fits g exe \<longleftrightarrow> seg_size g = 0 \<or> unat (inFileAddr g) < 2 ^ 31
     \<and> (segment_bytes g exe = [] \<or> unat (virtualAddr g) + length (segment_bytes g exe) \<le> nat MemorySize)"

lemma load_readonly_eq:
  assumes "unat (seg_size g) < 2 ^ 31" "length mem = nat MemorySize"
  shows "if readonly_fits g exe then load_readonly exe g mem = Inr (overwrite (unat (virtualAddr g)) (segment_bytes g exe) mem)
     else \<exists>e. load_readonly exe g mem = Inl e"
proof (cases "seg_size g = 0")
  case True
  then show ?thesis by (simp add: load_readonly_def readonly_fits_def segment_bytes_def)
next
  case False
  note n = sint_small_unat [OF assms(1)]
  have "0 < unat (seg_size g)" using False by (simp add: unat_gt_0)
  then have pos: "0 < sint (seg_size g)" unfolding n by (simp only: of_nat_0_less_iff)
  have neg: "sint w < 0" if "\<not> unat w < 2 ^ 31" for w :: "32 word"
  proof -
    have "int (2 ^ 31) \<le> int (unat w)" using that by (simp only: of_nat_le_iff not_less)
    then have "2 ^ 31 \<le> uint w" unfolding uint_nat by (simp only: of_nat_power of_nat_numeral)
    then have "bit w 31" unfolding bit31_iff .
    then have "sint w = uint w - 2 ^ 32" unfolding sint_by_sign by (simp only: if_True)
    moreover have "uint w < 2 ^ 32" using uint_lt2p [of w] by simp
    ultimately show ?thesis by linarith
  qed
  show ?thesis
  proof (cases "unat (inFileAddr g) < 2 ^ 31")
    case False
    then show ?thesis using neg [OF False] pos \<open>seg_size g \<noteq> 0\<close>
      by (simp add: load_readonly_def host_ReadAt_def readonly_fits_def)
  next
    case True
    have r: "host_ReadAt exe (sint (seg_size g)) (sint (inFileAddr g)) = Inr (segment_bytes g exe)"
      unfolding n sint_small_unat [OF True] by (simp add: host_ReadAt_def segment_bytes_def)
    have mem: "nat MemorySize < 2 ^ 31" by (simp add: MemorySize_def NumPhysPages_def PageSize_def)
    show ?thesis
    proof (cases "segment_bytes g exe = [] \<or> \<not> unat (virtualAddr g) < 2 ^ 31")
      case True
      then show ?thesis using pos r neg [of "virtualAddr g"] mem \<open>unat (inFileAddr g) < 2 ^ 31\<close> False
        by (auto simp: load_readonly_def readonly_fits_def)
    next
      case F: False
      define v where "v = unat (virtualAddr g)"
      have "sint (virtualAddr g) = int v" using F sint_small_unat unfolding v_def by blast
      moreover have "int v + int (length bs) \<le> int (length mem) \<longleftrightarrow> v + length bs \<le> nat MemorySize" for bs :: "byte list"
        unfolding assms(2) by linarith
      ultimately show ?thesis using pos r F True False
        by (simp add: load_readonly_def readonly_fits_def flip: v_def)
    qed
  qed
qed

subsection \<open>Deleting a space\<close>

lemma delete_eq:
  assumes "maps_to s fr" "bm_inv b" "bm_size b = 128" "set fr \<inter> bm_free b = {}"
  shows "\<exists>b'. AddrSpace_delete s b = Inr b' \<and> bm_inv b' \<and> bm_size b' = 128 \<and> bm_free b' = bm_free b \<union> set fr"
proof -
  let ?body = "\<lambda>i m. inboundsR (int i) (int (length (spaceTable s)))
      (if valid (spaceTable s ! i) then Bitmap_Clear m (physicalPage (spaceTable s ! i)) else Inr m)"
  let ?P = "\<lambda>i m. bm_inv m \<and> bm_size m = 128 \<and> bm_free m = bm_free b \<union> set (take i fr)"
  have "\<exists>b'. forR (length fr) 0 ?body b = Inr b' \<and> ?P (0 + length fr) b'"
  proof (rule forR_invariant [where P = ?P])
    fix i m assume "i < 0 + length fr" and m: "?P i m"
    then have i: "i < length fr" by simp
    have f: "fr ! i < bm_size m" using nth_mem [OF i] assms(1) m by (auto simp: maps_to_def NumPhysPages_def)
    have mi: "bm_inv m" using m by simp
    from bm.clr_law [OF mi f] obtain m' where
      c: "Bitmap_Clear m (int (fr ! i)) = Inr m'" "bm_inv m'" "bm_size m' = bm_size m" "bm_free m' = insert (fr ! i) (bm_free m)"
      by blast
    have "?body i m = Inr m'" using assms(1) i c(1) by (simp add: maps_to_def)
    moreover have "?P (Suc i) m'" using c(2-4) m i by (auto simp: take_Suc_conv_app_nth)
    ultimately show "\<exists>m'. ?body i m = Inr m' \<and> ?P (Suc i) m'" by blast
  qed (use assms(2,3) in simp)
  moreover have "nat (numPages s) = length fr" using assms(1) by (simp add: maps_to_def)
  ultimately show ?thesis by (simp add: AddrSpace_delete_def)
qed

subsection \<open>Starting the program\<close>

lemma set_registers:
  assumes "length (registers (dev m)) = NumTotalRegs"
  shows "forR NumTotalRegs 0 (\<lambda>i. Machine_WriteRegister (int i) 0) m
     = Inr (m\<lparr>dev := (dev m)\<lparr>registers := replicate NumTotalRegs 0\<rparr>\<rparr>)"
proof -
  let ?P = "\<lambda>i x. x = m\<lparr>dev := (dev m)\<lparr>registers := replicate i 0 @ drop i (registers (dev m))\<rparr>\<rparr>"
  have "\<exists>x. forR NumTotalRegs 0 (\<lambda>i. Machine_WriteRegister (int i) 0) m = Inr x \<and> ?P (0 + NumTotalRegs) x"
  proof (rule forR_invariant [where P = ?P])
    fix i x assume i: "i < 0 + NumTotalRegs" and x: "?P i x"
    have "drop i (registers (dev m)) = registers (dev m) ! i # drop (Suc i) (registers (dev m))"
      using i assms by (simp add: Cons_nth_drop_Suc)
    then have "(replicate i 0 @ drop i (registers (dev m)))[i := 0] = replicate (Suc i) 0 @ drop (Suc i) (registers (dev m))"
      by (simp add: list_update_append replicate_append_same)
    then have "?P (Suc i) (set_reg i 0 x)" unfolding x by (simp add: set_reg_def)
    moreover have "Machine_WriteRegister (int i) 0 x = Inr (set_reg i 0 x)" using i by (simp add: Machine_WriteRegister_def)
    ultimately show "\<exists>x'. Machine_WriteRegister (int i) 0 x = Inr x' \<and> ?P (Suc i) x'" by blast
  qed simp
  then show ?thesis using assms by simp
qed

definition mem_and_os :: "'k cpu \<Rightarrow> byte list \<times> 'k" where
  "mem_and_os m = (mainMemory (dev m), os (dev m))"

lemma Execute_eq:
  assumes "length (registers (dev m)) = NumTotalRegs"
  shows "\<exists>m'. AddrSpace_Execute s m = Inr m' \<and> (\<forall>i<NumTotalRegs. reg i m' =
         (if i = NextPCReg then 4 else if i = StackReg then word_of_int (numPages s * PageSize - 16) else 0))
     \<and> length (registers (dev m')) = NumTotalRegs \<and> mem_and_os m' = mem_and_os m
     \<and> tlb (dev m') = tlb (dev m) \<and> pageTable (dev m') = Some (spaceTable s) \<and> pageTableSize (dev m') = numPages s"
  using set_registers [OF assms]
  by (auto simp: AddrSpace_Execute_def AddrSpace_InitRegisters_def space_RestoreState_def Machine_WriteRegister_def
      set_reg_def reg_def reg_numbers StackReg_def nth_list_update mem_and_os_def)

subsection \<open>Properties\<close>

definition sample_exe :: "byte list" where
  "sample_exe = [0xad, 0xdf, 0xba, 0, 0, 0, 0, 0, 52, 0, 0, 0, 4, 0, 0, 0] @ replicate 36 0 @ [1, 2, 3, 4]"

lemma sample_header:
  "header sample_exe = \<lparr>noffMagic = NOFFMAGIC, code = \<lparr>virtualAddr = 0, inFileAddr = 52, seg_size = 4\<rparr>,
     initData = \<lparr>virtualAddr = 0, inFileAddr = 0, seg_size = 0\<rparr>, readonlyData = \<lparr>virtualAddr = 0, inFileAddr = 0, seg_size = 0\<rparr>,
     uninitData = \<lparr>virtualAddr = 0, inFileAddr = 0, seg_size = 0\<rparr>\<rparr>"
  by code_simp

lemma sample_noff_ok: "noff_ok sample_exe 9"
  unfolding noff_ok_def sample_header
  by (simp add: space_bytes_def segment_fits_def sizeof_NoffHeader_def) (simp add: sample_exe_def)

text \<open>The outcome of loading, by cases.\<close>

lemma Load_eq:
  assumes "noff_ok exe n" "bm_inv b" "bm_size b = 128" "length mem = nat MemorySize" "g = readonlyData (header exe)"
  shows "if 2 * n \<le> card (bm_free b) + 1
     then \<exists>s fr b' mem'. space_ok s fr \<and> length fr = n \<and> set fr \<subseteq> bm_free b \<and> bm_free b' = bm_free b - set fr
        \<and> view fr mem' = overwrite (unat (virtualAddr (initData (header exe)))) (segment_bytes (initData (header exe)) exe)
             (overwrite (unat (virtualAddr (code (header exe)))) (segment_bytes (code (header exe)) exe) (view fr mem))
        \<and> length mem' = length mem \<and> (\<forall>p. p div 128 \<notin> set fr \<longrightarrow> mem' ! p = mem ! p)
        \<and> (if readonly_fits g exe
            then AddrSpace_Load (Some exe) AddrSpace_new b mem
              = Inr (True, s, b', overwrite (unat (virtualAddr g)) (segment_bytes g exe) mem')
            else \<exists>e. AddrSpace_Load (Some exe) AddrSpace_new b mem = Inl e)
     else AddrSpace_Load (Some exe) AddrSpace_new b mem = Inl Halted"
proof (cases "2 * n \<le> card (bm_free b) + 1")
  case True
  with Load_structure [OF assms(1-4), of AddrSpace_new] obtain s fr b' mem1 mem2 where
    l: "AddrSpace_Load (Some exe) AddrSpace_new b mem = bindR (load_readonly exe g mem2) (\<lambda>mem'. Inr (True, s, b', mem'))"
      "space_ok s fr" "length fr = n" "set fr \<subseteq> bm_free b" "bm_free b' = bm_free b - set fr"
      "loaded fr (unat (virtualAddr (code (header exe)))) (segment_bytes (code (header exe)) exe) mem mem1"
      "loaded fr (unat (virtualAddr (initData (header exe)))) (segment_bytes (initData (header exe)) exe) mem1 mem2"
    unfolding assms(5) by (simp only: if_True) blast
  have "unat (seg_size g) < 2 ^ 31" using noff_pages(3) [OF assms(1)] by (simp add: space_bytes_def assms(5))
  from load_readonly_eq [OF this, of mem2 exe] have r: "if readonly_fits g exe
     then load_readonly exe g mem2 = Inr (overwrite (unat (virtualAddr g)) (segment_bytes g exe) mem2)
     else \<exists>e. load_readonly exe g mem2 = Inl e" using l(6,7) assms(4) by (simp add: loaded_def)
  have "if readonly_fits g exe
     then AddrSpace_Load (Some exe) AddrSpace_new b mem
       = Inr (True, s, b', overwrite (unat (virtualAddr g)) (segment_bytes g exe) mem2)
     else \<exists>e. AddrSpace_Load (Some exe) AddrSpace_new b mem = Inl e"
    using r l(1) by (auto split: if_splits)
  then show ?thesis
    using True l(2-7) unfolding if_P [OF True]
    by (intro exI [of _ s] exI [of _ fr] exI [of _ b'] exI [of _ mem2]) (simp add: loaded_def)
qed (use Load_structure [OF assms(1-4), of AddrSpace_new] in simp)

text \<open>
  C12: loading a program of \<open>n\<close> pages gives it \<open>n\<close> frames that were free; its virtual memory shows the bytes of
  code and initialised data at their addresses and elsewhere what the frames held before (uninitialised data
  is not zeroed), and these two segments touch no other frame. The read-only data is not loaded into the program's
  memory: its bytes are then written at its virtual address taken as a physical one, whoever owns the frames
  there, and loading fails exactly when they do not fit into the machine's memory (or their place in the file is negative).
  All this needs more than \<open>n\<close> free frames: with fewer than \<open>2 n - 1\<close> of them the machine halts.
\<close>

theorem Load_loads:
  assumes "noff_ok exe n" "bm_inv b" "bm_size b = 128" "length mem = nat MemorySize" "g = readonlyData (header exe)"
  shows "if 2 * n \<le> card (bm_free b) + 1
     then \<exists>s fr b' mem'. space_ok s fr \<and> length fr = n \<and> set fr \<subseteq> bm_free b \<and> bm_free b' = bm_free b - set fr
        \<and> view fr mem' = overwrite (unat (virtualAddr (initData (header exe)))) (segment_bytes (initData (header exe)) exe)
             (overwrite (unat (virtualAddr (code (header exe)))) (segment_bytes (code (header exe)) exe) (view fr mem))
        \<and> length mem' = length mem \<and> (\<forall>p. p div 128 \<notin> set fr \<longrightarrow> mem' ! p = mem ! p)
        \<and> (if readonly_fits g exe
            then AddrSpace_Load (Some exe) AddrSpace_new b mem
              = Inr (True, s, b', overwrite (unat (virtualAddr g)) (segment_bytes g exe) mem')
            else \<exists>e. AddrSpace_Load (Some exe) AddrSpace_new b mem = Inl e)
     else AddrSpace_Load (Some exe) AddrSpace_new b mem = Inl Halted"
  by (rule Load_eq [OF assms])

definition sample_full_exe :: "byte list" where
  "sample_full_exe = [0xad, 0xdf, 0xba, 0, 0, 0, 0, 0, 52, 0, 0, 0, 4, 0, 0, 0] @ replicate 12 0
     @ [0, 32, 0, 0, 56, 0, 0, 0, 2, 0, 0, 0] @ replicate 12 0 @ [1, 2, 3, 4, 8, 9]"

lemma sample_full_header:
  "header sample_full_exe = \<lparr>noffMagic = NOFFMAGIC, code = \<lparr>virtualAddr = 0, inFileAddr = 52, seg_size = 4\<rparr>,
     initData = \<lparr>virtualAddr = 0, inFileAddr = 0, seg_size = 0\<rparr>, readonlyData = \<lparr>virtualAddr = 8192, inFileAddr = 56, seg_size = 2\<rparr>,
     uninitData = \<lparr>virtualAddr = 0, inFileAddr = 0, seg_size = 0\<rparr>\<rparr>"
  by code_simp

lemma sample_full_ok: "noff_ok sample_full_exe 9"
  unfolding noff_ok_def sample_full_header
  by (simp add: space_bytes_def segment_fits_def sizeof_NoffHeader_def) (simp add: sample_full_exe_def)

lemma sample_full_bytes:
  "segment_bytes (initData (header sample_full_exe)) sample_full_exe = []"
  "segment_bytes (code (header sample_full_exe)) sample_full_exe = [1, 2, 3, 4]"
  "segment_bytes (readonlyData (header sample_full_exe)) sample_full_exe = [8, 9]"
  unfolding sample_full_header by (simp_all add: segment_bytes_def) (simp_all add: sample_full_exe_def)

lemma Load_loads_witness:
  "\<exists>s fr b' mem'. AddrSpace_Load (Some sample_full_exe) AddrSpace_new (clear_map 4) (replicate 16384 7)
        = Inr (True, s, b', overwrite 8192 [8, 9] mem')
     \<and> space_ok s fr \<and> length fr = 9 \<and> set fr \<subseteq> {..<128} \<and> bm_free b' = {..<128} - set fr
     \<and> view fr mem' = overwrite 0 [1, 2, 3, 4] (view fr (replicate 16384 7))
     \<and> (\<forall>p. p div 128 \<notin> set fr \<longrightarrow> mem' ! p = replicate 16384 7 ! p)"
proof -
  have fits: "readonly_fits (readonlyData (header sample_full_exe)) sample_full_exe"
    unfolding readonly_fits_def sample_full_bytes
    by (simp add: sample_full_header MemorySize_def NumPhysPages_def PageSize_def)
  have "bm_inv (clear_map 4)" "bm_size (clear_map 4) = 128" "length (replicate 16384 (7 :: byte)) = nat MemorySize"
    by (simp_all add: clear_map_ok MemorySize_def NumPhysPages_def PageSize_def)
  moreover have "2 * 9 \<le> card (bm_free (clear_map 4)) + 1" by (simp add: clear_map_ok)
  moreover have "unat (virtualAddr (code (header sample_full_exe))) = 0"
    "unat (virtualAddr (readonlyData (header sample_full_exe))) = 8192" "bm_free (clear_map 4) = {..<128}"
    by (simp_all add: sample_full_header clear_map_ok)
  ultimately show ?thesis
    using Load_loads [OF sample_full_ok _ _ _ refl, of "clear_map 4" "replicate 16384 7"]
    by (simp only: sample_full_bytes if_P fits overwrite_Nil simp_thms) blast
qed

text \<open>
  deleting an address space gives back exactly the frames that loading took.
\<close>

theorem Load_delete_roundtrip:
  assumes "noff_ok exe n" "bm_inv b" "bm_size b = 128" "length mem = nat MemorySize"
    "seg_size (readonlyData (header exe)) = 0" "2 * n \<le> card (bm_free b) + 1"
  shows "\<exists>s b' mem' b''. AddrSpace_Load (Some exe) AddrSpace_new b mem = Inr (True, s, b', mem')
     \<and> card (bm_free b') = card (bm_free b) - n \<and> AddrSpace_delete s b' = Inr b'' \<and> bm_free b'' = bm_free b"
proof -
  from Load_structure [OF assms(1-4), of AddrSpace_new] assms(6) obtain s fr b' mem2 where
    l: "AddrSpace_Load (Some exe) AddrSpace_new b mem
          = bindR (load_readonly exe (readonlyData (header exe)) mem2) (\<lambda>mem'. Inr (True, s, b', mem'))"
      "space_ok s fr" "length fr = n" "set fr \<subseteq> bm_free b" "bm_inv b'" "bm_size b' = 128" "bm_free b' = bm_free b - set fr"
    by (simp only: if_True) blast
  have "load_readonly exe (readonlyData (header exe)) mem2 = Inr mem2" by (simp add: load_readonly_def assms(5))
  moreover have "set fr \<inter> bm_free b' = {}" using l(7) by blast
  from delete_eq [OF _ l(5,6) this, of s] l(2) [unfolded space_ok_def] obtain b''
    where "AddrSpace_delete s b' = Inr b''" "bm_free b'' = bm_free b' \<union> set fr" by blast
  moreover have "bm_free b' \<union> set fr = bm_free b" using l(4,7) by blast
  moreover have "card (set fr) = n" using l(2,3) distinct_card by (auto simp: space_ok_def maps_to_def)
  then have "card (bm_free b') = card (bm_free b) - n" using l(4,7) by (simp add: card_Diff_subset)
  ultimately show ?thesis using l(1) by simp
qed

lemma Load_delete_roundtrip_witness:
  "\<exists>s b' mem' b''. AddrSpace_Load (Some sample_exe) AddrSpace_new (clear_map 4) (replicate 16384 7) = Inr (True, s, b', mem')
     \<and> card (bm_free b') = card (bm_free (clear_map 4)) - 9 \<and> AddrSpace_delete s b' = Inr b''
     \<and> bm_free b'' = bm_free (clear_map 4)"
  by (rule Load_delete_roundtrip [OF sample_noff_ok])
     (simp_all add: clear_map_ok MemorySize_def NumPhysPages_def PageSize_def sample_header)

text \<open>
  a loaded program starts in order: at address 0 with cleared registers, the stack pointer in the last page of its
  space, and every aligned access inside the space allowed, to its own frames only.
\<close>

theorem Execute_ready:
  assumes "space_ok s fr" "8 \<le> length fr" "length (registers (dev m)) = NumTotalRegs" "tlb (dev m) = None"
    "length (mainMemory (dev m)) = nat MemorySize" "K (os (dev m))"
  shows "\<exists>m'. AddrSpace_Execute s m = Inr m' \<and> cpu_ok K m' \<and> paged (spaceTable s) m'
     \<and> mainMemory (dev m') = mainMemory (dev m) \<and> reg PCReg m' = 0 \<and> reg NextPCReg m' = 4
     \<and> unat (reg StackReg m') = 128 * length fr - 16
     \<and> (\<forall>va sz w. aligned va sz \<and> unat va < 128 * length fr \<longrightarrow> accessible (spaceTable s) va sz w
          \<and> phys (spaceTable s) va = int (addr_of fr (unat va)))"
proof -
  from Execute_eq [OF assms(3), of s] obtain m' where
    e: "AddrSpace_Execute s m = Inr m'" "\<forall>i<NumTotalRegs. reg i m' =
         (if i = NextPCReg then 4 else if i = StackReg then word_of_int (numPages s * PageSize - 16) else 0)"
      "length (registers (dev m')) = NumTotalRegs" "mem_and_os m' = mem_and_os m" "tlb (dev m') = tlb (dev m)"
      "pageTable (dev m') = Some (spaceTable s)" "pageTableSize (dev m') = numPages s" by blast
  have fr: "length fr \<le> 128"
  proof -
    have "card (set fr) \<le> card {..<nat NumPhysPages}"
      using assms(1) by (intro card_mono) (simp_all add: space_ok_def maps_to_def)
    moreover have "card (set fr) = length fr" using assms(1) by (simp add: space_ok_def maps_to_def distinct_card)
    ultimately show ?thesis by (simp add: NumPhysPages_def)
  qed
  have paged: "paged (spaceTable s) m'"
    using e assms(1,4,5) by (simp add: paged_def space_ok_def maps_to_def mem_and_os_def)
  moreover have "cpu_ok K m'"
    using e(2-4) assms(6) paged by (auto simp: cpu_ok_def cpu_sound_def mem_and_os_def reg_numbers StackReg_def)
  moreover have "reg StackReg m' = of_nat (128 * length fr - 16)"
    using e(2) assms(1,2) by (simp add: reg_numbers StackReg_def space_ok_def maps_to_def PageSize_def of_nat_diff)
  then have "unat (reg StackReg m') = 128 * length fr - 16"
    using fr by (simp add: unat_of_nat take_bit_nat_eq_self)
  moreover have "accessible (spaceTable s) va sz w \<and> phys (spaceTable s) va = int (addr_of fr (unat va))"
    if "aligned va sz" "unat va < 128 * length fr" for va sz w
  proof -
    have p: "page_of va = unat va div 128" unfolding page_of_def PageSize_def uint_nat by (simp add: nat_div_distrib del: of_nat_unat)
    have i: "unat va div 128 < length fr" using page_in_range [OF that(2)] .
    then have entry: "physicalPage (spaceTable s ! page_of va) = int (fr ! (unat va div 128))" "valid (spaceTable s ! page_of va)"
      "\<not> readOnly (spaceTable s ! page_of va)" "page_of va < length (spaceTable s)"
      using assms(1) by (simp_all add: space_ok_def maps_to_def p)
    have "fr ! (unat va div 128) < 128" using nth_mem [OF i] assms(1) by (auto simp: space_ok_def maps_to_def NumPhysPages_def)
    then have f: "frame (spaceTable s ! page_of va) = int (fr ! (unat va div 128))" "int (fr ! (unat va div 128)) < NumPhysPages"
      by (simp_all add: frame_def entry NumPhysPages_def)
    have "phys (spaceTable s) va = int (addr_of fr (unat va))"
      unfolding phys_def f PageSize_def uint_nat addr_of_def of_nat_add of_nat_mult zmod_int of_nat_numeral ..
    with that(1) entry f show ?thesis by (simp add: accessible_def)
  qed
  ultimately show ?thesis
    using e assms(2) by (intro exI [of _ m']) (auto simp: mem_and_os_def reg_numbers StackReg_def)
qed

definition sample_space :: AddrSpace where
  "sample_space = \<lparr>spaceTable = map2 new_entry [0..<9] [0..<9], numPages = 9\<rparr>"

lemma sample_space_ok: "space_ok sample_space [0..<9]"
proof -
  have "set [0..<9] \<subseteq> {..<(128::nat)}" by auto
  from new_table_ok [OF _ _ this, of 9] show ?thesis by (simp add: sample_space_def)
qed

lemma Execute_ready_witness:
  "\<exists>m'. AddrSpace_Execute sample_space (Interrupt_new (Machine_new ())) = Inr m' \<and> cpu_ok (\<lambda>_. True) m' \<and> paged (spaceTable sample_space) m'
     \<and> mainMemory (dev m') = mainMemory (dev (Interrupt_new (Machine_new ()))) \<and> reg PCReg m' = 0 \<and> reg NextPCReg m' = 4
     \<and> unat (reg StackReg m') = 128 * length [0..<9] - 16
     \<and> (\<forall>va sz w. aligned va sz \<and> unat va < 128 * length [0..<9] \<longrightarrow> accessible (spaceTable sample_space) va sz w
          \<and> phys (spaceTable sample_space) va = int (addr_of [0..<9] (unat va)))"
  by (rule Execute_ready [OF sample_space_ok]) (simp_all add: Interrupt_new_def Machine_new_def)

end
