(* ===== verification/Coff.thy ===== *)
theory Coff
  imports AddrSpaces
begin

text \<open>
  \<^verbatim>\<open>coff2noff/coff2noff.c\<close>: the converter that makes the executables of the simulator. It reads a MIPS
  COFF file (\<^verbatim>\<open>coff.h\<close>), copies its sections one after another behind a NOFF header and writes the header.
  It is compiled for a 32-bit little-endian host, with \<^verbatim>\<open>RDATA\<close>. The theory proves that a converted file has the
  sections of the COFF file where its header says, so that the loader puts them at their addresses.
\<close>

subsection \<open>coff.h\<close>

definition MIPSELMAGIC :: "16 word" where "MIPSELMAGIC = 0x0162"
definition OMAGIC :: "16 word" where "OMAGIC = 0x0107"
definition sizeof_filehdr :: nat where "sizeof_filehdr = 20"
definition sizeof_aouthdr :: nat where "sizeof_aouthdr = 56"
definition sizeof_scnhdr :: nat where "sizeof_scnhdr = 40"

text \<open>The fields that the converter uses.\<close>

record scnhdr =
  s_name :: "byte list"
  s_paddr :: "32 word"
  s_size :: "32 word"
  s_scnptr :: "32 word"

definition short_at :: "nat \<Rightarrow> byte list \<Rightarrow> 16 word" where
  "short_at i bs = ucast (bs ! i) + push_bit 8 (ucast (bs ! (i + 1)))"

definition bytes_scnhdr :: "byte list \<Rightarrow> scnhdr" where
  "bytes_scnhdr bs = \<lparr>s_name = take 8 bs, s_paddr = word_at 8 bs, s_size = word_at 16 bs, s_scnptr = word_at 20 bs\<rparr>"

text \<open>\<^verbatim>\<open>!strcmp(s_name, nm)\<close> for a name shorter than the field.\<close>

definition is_named :: "byte list \<Rightarrow> scnhdr \<Rightarrow> bool" where
  "is_named nm g \<longleftrightarrow> take (length nm + 1) (s_name g) = nm @ [0]"

definition text_name :: "byte list" where "text_name = [46, 116, 101, 120, 116]"
definition data_name :: "byte list" where "data_name = [46, 100, 97, 116, 97]"
definition rdata_name :: "byte list" where "rdata_name = [46, 114, 100, 97, 116, 97]"
definition bss_name :: "byte list" where "bss_name = [46, 98, 115, 115]"

subsection \<open>Copying the sections\<close>

text \<open>The header, the next position in the output, the output behind the header, the position in the input.\<close>

record conversion =
  noffH :: NoffHeader
  inNoffFile :: int
  out_data :: "byte list"
  in_pos :: nat

text \<open>
  \<^verbatim>\<open>lseek\<close>, \<^verbatim>\<open>Read\<close> and \<^verbatim>\<open>Write\<close>, with \<open>None\<close> for \<^verbatim>\<open>exit(1)\<close>. A failed \<^verbatim>\<open>lseek\<close> leaves the position; a
  negative count makes \<^verbatim>\<open>read\<close> and \<^verbatim>\<open>write\<close> return \<open>- 1\<close>, which the check compares with the count.
\<close>

definition copy_bytes :: "byte list \<Rightarrow> int \<Rightarrow> int \<Rightarrow> conversion \<Rightarrow> conversion option" where
  "copy_bytes coff ptr n st =
     (let pos = (if ptr < 0 then in_pos st else nat ptr); bs = take (nat n) (drop pos coff)
      in if n < 0 then (if n = - 1 then Some (st\<lparr>in_pos := pos\<rparr>) else None)
         else if length bs < nat n then None
         else Some (st\<lparr>out_data := out_data st @ bs, in_pos := pos + nat n\<rparr>))"

text \<open>The common part of the first three cases: where the section will lie, then its bytes.\<close>

definition segment_of :: "scnhdr \<Rightarrow> conversion \<Rightarrow> Segment" where
  "segment_of g st = \<lparr>virtualAddr = s_paddr g, inFileAddr = word_of_int (inNoffFile st), seg_size = s_size g\<rparr>"

definition copy_section :: "byte list \<Rightarrow> scnhdr \<Rightarrow> conversion \<Rightarrow> conversion option res" where
  "copy_section coff g st =
     (case copy_bytes coff (sint (s_scnptr g)) (sint (s_size g)) st of None \<Rightarrow> Inr None
      | Some st \<Rightarrow> bindR (addR (inNoffFile st) (sint (s_size g))) (\<lambda>p. Inr (Some (st\<lparr>inNoffFile := p\<rparr>))))"

definition convert_section :: "byte list \<Rightarrow> scnhdr \<Rightarrow> conversion \<Rightarrow> conversion option res" where
  "convert_section coff g st =
     (let h = noffH st; u = uninitData h
      in if s_size g = 0 then Inr (Some st)
         else if is_named text_name g then copy_section coff g (st\<lparr>noffH := h\<lparr>code := segment_of g st\<rparr>\<rparr>)
         else if is_named data_name g then copy_section coff g (st\<lparr>noffH := h\<lparr>initData := segment_of g st\<rparr>\<rparr>)
         else if is_named rdata_name g then copy_section coff g (st\<lparr>noffH := h\<lparr>readonlyData := segment_of g st\<rparr>\<rparr>)
         else if is_named bss_name g then
           (if seg_size u \<noteq> 0
            then bindR (addR (sint (virtualAddr u)) (sint (seg_size u))) (\<lambda>e.
              if sint (s_paddr g) = e then Inr None
              else bindR (addR (sint (seg_size u)) (sint (s_size g))) (\<lambda>n.
                Inr (Some (st\<lparr>noffH := h\<lparr>uninitData := u\<lparr>seg_size := word_of_int n\<rparr>\<rparr>\<rparr>))))
            else Inr (Some (st\<lparr>noffH := h\<lparr>uninitData := u\<lparr>virtualAddr := s_paddr g, seg_size := s_size g\<rparr>\<rparr>\<rparr>)))
         else Inr None)"

fun convert_sections :: "byte list \<Rightarrow> scnhdr list \<Rightarrow> conversion \<Rightarrow> conversion option res" where
  "convert_sections coff [] st = Inr (Some st)"
| "convert_sections coff (g # gs) st =
     bindR (convert_section coff g st) (\<lambda>r. case r of None \<Rightarrow> Inr None | Some st \<Rightarrow> convert_sections coff gs st)"

subsection \<open>main\<close>

definition segment_word_bytes :: "Segment \<Rightarrow> byte list" where
  "segment_word_bytes s = word_bytes (virtualAddr s) @ word_bytes (inFileAddr s) @ word_bytes (seg_size s)"

definition noff_header_bytes :: "NoffHeader \<Rightarrow> byte list" where
  "noff_header_bytes h = word_bytes (noffMagic h) @ segment_word_bytes (code h) @ segment_word_bytes (initData h)
     @ segment_word_bytes (readonlyData h) @ segment_word_bytes (uninitData h)"

text \<open>The header starts as \<open>stack\<close>, what its variable happens to hold, with four sizes set to zero.\<close>

definition empty_header :: "NoffHeader \<Rightarrow> NoffHeader" where
  "empty_header stack = stack\<lparr>noffMagic := NOFFMAGIC, code := (code stack)\<lparr>seg_size := 0\<rparr>,
     initData := (initData stack)\<lparr>seg_size := 0\<rparr>, uninitData := (uninitData stack)\<lparr>seg_size := 0\<rparr>,
     readonlyData := (readonlyData stack)\<lparr>seg_size := 0\<rparr>\<rparr>"

definition section_headers :: "nat \<Rightarrow> byte list \<Rightarrow> scnhdr list" where
  "section_headers n bs = map (\<lambda>i. bytes_scnhdr (drop (sizeof_scnhdr * i) bs)) [0..<n]"

text \<open>The contents of the NOFF file, \<open>None\<close> if the converter gives up and removes it.\<close>

definition coff2noff :: "NoffHeader \<Rightarrow> byte list \<Rightarrow> byte list option res" where
  "coff2noff stack coff =
     (let headers = drop (sizeof_filehdr + sizeof_aouthdr) coff; n = unat (short_at 2 coff)
      in if length coff < sizeof_filehdr then Inr None
         else if short_at 0 coff \<noteq> MIPSELMAGIC then Inr None
         else if length coff < sizeof_filehdr + sizeof_aouthdr then Inr None
         else if short_at sizeof_filehdr coff \<noteq> OMAGIC then Inr None
         else if length headers < sizeof_scnhdr * n then Inr None
         else bindR (convert_sections coff (section_headers n headers)
                \<lparr>noffH = empty_header stack, inNoffFile = int sizeof_NoffHeader, out_data = [],
                 in_pos = sizeof_filehdr + sizeof_aouthdr + sizeof_scnhdr * n\<rparr>) (\<lambda>r.
              case r of None \<Rightarrow> Inr None
              | Some st \<Rightarrow> Inr (Some (noff_header_bytes (SwapHeader (noffH st)) @ out_data st))))"

subsection \<open>The header as bytes\<close>

lemma word_at_append: "length xs = i \<Longrightarrow> word_at i (xs @ word_bytes w @ ys) = w"
  using word_codec.dec_enc [of w] by (simp add: word_at_def)

lemma length_segment_word_bytes [simp]: "length (segment_word_bytes s) = 12"
  by (simp add: segment_word_bytes_def)

lemma bytes_Segment_append: "length xs = i \<Longrightarrow> bytes_Segment i (xs @ segment_word_bytes s @ ys) = s"
  using word_at_append [of xs i "virtualAddr s" "word_bytes (inFileAddr s) @ word_bytes (seg_size s) @ ys"]
    word_at_append [of "xs @ word_bytes (virtualAddr s)" "i + 4" "inFileAddr s" "word_bytes (seg_size s) @ ys"]
    word_at_append [of "xs @ word_bytes (virtualAddr s) @ word_bytes (inFileAddr s)" "i + 8" "seg_size s" ys]
  by (simp add: bytes_Segment_def segment_word_bytes_def)

lemma length_noff_header_bytes: "length (noff_header_bytes h) = 52"
  by (simp add: noff_header_bytes_def)

lemma header_of_bytes: "header (noff_header_bytes h @ xs) = h"
proof -
  let ?m = "word_bytes (noffMagic h)" and ?c = "segment_word_bytes (code h)" and ?i = "segment_word_bytes (initData h)"
    and ?r = "segment_word_bytes (readonlyData h)" and ?u = "segment_word_bytes (uninitData h)"
  have "header (noff_header_bytes h @ xs) = bytes_NoffHeader (noff_header_bytes h)"
    by (simp add: header_def sizeof_NoffHeader_def length_noff_header_bytes)
  moreover have "word_at 0 (noff_header_bytes h) = noffMagic h"
    using word_at_append [of "[]" 0 "noffMagic h"] by (simp add: noff_header_bytes_def)
  moreover have "bytes_Segment 4 (noff_header_bytes h) = code h"
    using bytes_Segment_append [of ?m 4 "code h" "?i @ ?r @ ?u"] by (simp add: noff_header_bytes_def)
  moreover have "bytes_Segment 16 (noff_header_bytes h) = initData h"
    using bytes_Segment_append [of "?m @ ?c" 16 "initData h" "?r @ ?u"] by (simp add: noff_header_bytes_def)
  moreover have "bytes_Segment 28 (noff_header_bytes h) = readonlyData h"
    using bytes_Segment_append [of "?m @ ?c @ ?i" 28 "readonlyData h" ?u] by (simp add: noff_header_bytes_def)
  moreover have "bytes_Segment 40 (noff_header_bytes h) = uninitData h"
    using bytes_Segment_append [of "?m @ ?c @ ?i @ ?r" 40 "uninitData h" "[]"] by (simp add: noff_header_bytes_def)
  ultimately show ?thesis by (simp add: bytes_NoffHeader_def)
qed

lemma SwapHeader_id: "SwapHeader h = h"
  by (simp add: SwapHeader_def swap_Segment_def WordToHost_def)

subsection \<open>What copying achieves\<close>

text \<open>The section that a segment comes from, and its bytes in the COFF file.\<close>

definition section_named :: "byte list \<Rightarrow> scnhdr list \<Rightarrow> scnhdr option" where
  "section_named nm gs = find (\<lambda>g. s_size g \<noteq> 0 \<and> is_named nm g) gs"

definition section_bytes :: "byte list \<Rightarrow> scnhdr \<Rightarrow> byte list" where
  "section_bytes coff g = take (unat (s_size g)) (drop (unat (s_scnptr g)) coff)"

definition segment_is :: "byte list \<Rightarrow> scnhdr option \<Rightarrow> Segment \<Rightarrow> byte list \<Rightarrow> bool" where
  "segment_is coff d s out = (case d of None \<Rightarrow> seg_size s = 0
     | Some g \<Rightarrow> virtualAddr s = s_paddr g \<and> seg_size s = s_size g \<and> 52 \<le> unat (inFileAddr s)
         \<and> unat (inFileAddr s) + unat (s_size g) \<le> 52 + length out
         \<and> take (unat (s_size g)) (drop (unat (inFileAddr s) - 52) out) = section_bytes coff g)"

definition bss_is :: "scnhdr option \<Rightarrow> Segment \<Rightarrow> bool" where
  "bss_is d s = (case d of None \<Rightarrow> seg_size s = 0 | Some g \<Rightarrow> virtualAddr s = s_paddr g \<and> seg_size s = s_size g)"

definition converted :: "byte list \<Rightarrow> scnhdr list \<Rightarrow> conversion \<Rightarrow> bool" where
  "converted coff gs st \<longleftrightarrow> noffMagic (noffH st) = NOFFMAGIC \<and> inNoffFile st = 52 + int (length (out_data st))
     \<and> segment_is coff (section_named text_name gs) (code (noffH st)) (out_data st)
     \<and> segment_is coff (section_named data_name gs) (initData (noffH st)) (out_data st)
     \<and> segment_is coff (section_named rdata_name gs) (readonlyData (noffH st)) (out_data st)
     \<and> bss_is (section_named bss_name gs) (uninitData (noffH st))"

text \<open>Sections that lie in the file, with the four names, no name twice, and not too large altogether.\<close>

definition section_ok :: "byte list \<Rightarrow> scnhdr \<Rightarrow> bool" where
  "section_ok coff g \<longleftrightarrow> s_size g = 0 \<or> is_named bss_name g
     \<or> (is_named text_name g \<or> is_named data_name g \<or> is_named rdata_name g) \<and> unat (s_scnptr g) < 2 ^ 31
       \<and> unat (s_scnptr g) + unat (s_size g) \<le> length coff"

definition sections_ok :: "byte list \<Rightarrow> scnhdr list \<Rightarrow> bool" where
  "sections_ok coff gs \<longleftrightarrow> (\<forall>g\<in>set gs. section_ok coff g)
     \<and> (\<forall>nm\<in>{text_name, data_name, rdata_name, bss_name}. length (filter (\<lambda>g. s_size g \<noteq> 0 \<and> is_named nm g) gs) \<le> 1)
     \<and> 52 + sum_list (map (\<lambda>g. unat (s_size g)) gs) < 2 ^ 31"

lemma section_named_snoc:
  "section_named nm (gs @ [g]) = (case section_named nm gs of
     None \<Rightarrow> if s_size g \<noteq> 0 \<and> is_named nm g then Some g else None | Some x \<Rightarrow> Some x)"
  unfolding section_named_def by (induction gs) auto

lemma named_letter: "is_named nm g \<Longrightarrow> 1 < length nm \<Longrightarrow> s_name g ! 1 = nm ! 1"
proof -
  assume a: "is_named nm g" "1 < length nm"
  then have "take (length nm + 1) (s_name g) ! 1 = (nm @ [0]) ! 1" by (simp add: is_named_def)
  moreover have "take (length nm + 1) (s_name g) ! 1 = s_name g ! 1" using a(2) by (intro nth_take) linarith
  moreover have "(nm @ [0]) ! 1 = nm ! 1" using a(2) by (simp add: nth_append)
  ultimately show ?thesis by (simp only:)
qed

lemma names_differ:
  "is_named text_name g \<Longrightarrow> \<not> is_named data_name g \<and> \<not> is_named rdata_name g \<and> \<not> is_named bss_name g"
  "is_named data_name g \<Longrightarrow> \<not> is_named text_name g \<and> \<not> is_named rdata_name g \<and> \<not> is_named bss_name g"
  "is_named rdata_name g \<Longrightarrow> \<not> is_named text_name g \<and> \<not> is_named data_name g \<and> \<not> is_named bss_name g"
  "is_named bss_name g \<Longrightarrow> \<not> is_named text_name g \<and> \<not> is_named data_name g \<and> \<not> is_named rdata_name g"
  using named_letter [of text_name g] named_letter [of data_name g] named_letter [of rdata_name g] named_letter [of bss_name g]
  by (auto simp: text_name_def data_name_def rdata_name_def bss_name_def)

lemma segment_is_append:
  "segment_is coff d s out \<Longrightarrow> segment_is coff d s (out @ bs)"
  by (auto simp: segment_is_def split: option.splits)

lemma segment_is_new:
  assumes "inNoffFile st = 52 + int (length (out_data st))" "52 + length (out_data st) < 2 ^ 31"
    "length (section_bytes coff g) = unat (s_size g)"
  shows "segment_is coff (Some g) (segment_of g st) (out_data st @ section_bytes coff g)"
proof -
  have "unat (word_of_int (52 + int (length (out_data st))) :: 32 word) = 52 + length (out_data st)"
  proof -
    have "word_of_int (52 + int (length (out_data st))) = (of_nat (52 + length (out_data st)) :: 32 word)" by simp
    moreover have "unat (of_nat (52 + length (out_data st)) :: 32 word) = 52 + length (out_data st)"
      using unat_add_of_nat [of "0 :: 32 word" "52 + length (out_data st)"] assms(2) by simp
    ultimately show ?thesis by (simp only:)
  qed
  then show ?thesis using assms(1,3) by (simp add: segment_is_def segment_of_def)
qed

lemma copy_section_eq:
  assumes "s_size g \<noteq> 0" "unat (s_scnptr g) < 2 ^ 31" "unat (s_scnptr g) + unat (s_size g) \<le> length coff"
    "inNoffFile st = 52 + int (length (out_data st))" "52 + length (out_data st) + unat (s_size g) < 2 ^ 31"
  shows "\<exists>p. copy_section coff g st = Inr (Some (st\<lparr>inNoffFile := 52 + int (length (out_data st @ section_bytes coff g)),
      out_data := out_data st @ section_bytes coff g, in_pos := p\<rparr>))"
    "length (section_bytes coff g) = unat (s_size g)"
proof -
  show l: "length (section_bytes coff g) = unat (s_size g)" using assms(3) by (simp add: section_bytes_def)
  have "unat (s_size g) < 2 ^ 31" using assms(5) by linarith
  note s = sint_small_unat [OF assms(2)] sint_small_unat [OF this]
  have "int (52 + length (out_data st) + unat (s_size g)) < int (2 ^ 31)" using assms(5) by (simp only: of_nat_less_iff)
  then have "int_fits (52 + int (length (out_data st)) + int (unat (s_size g)))"
    unfolding int_fits_def of_nat_add of_nat_power of_nat_numeral by linarith
  then show "\<exists>p. copy_section coff g st = Inr (Some (st\<lparr>inNoffFile := 52 + int (length (out_data st @ section_bytes coff g)),
      out_data := out_data st @ section_bytes coff g, in_pos := p\<rparr>))"
    using assms(3,4) l unfolding copy_section_def copy_bytes_def s nat_int Let_def
    by (intro exI [of _ "unat (s_scnptr g) + unat (s_size g)"]) (simp add: section_bytes_def add.assoc)
qed

text \<open>One section, and all of them.\<close>

lemma convert_section_ok:
  assumes "converted coff gs st" "section_ok coff g" "52 + length (out_data st) + unat (s_size g) < 2 ^ 31"
    "\<forall>nm\<in>{text_name, data_name, rdata_name, bss_name}. s_size g \<noteq> 0 \<and> is_named nm g \<longrightarrow> section_named nm gs = None"
  shows "\<exists>st'. convert_section coff g st = Inr (Some st') \<and> converted coff (gs @ [g]) st'
     \<and> length (out_data st') \<le> length (out_data st) + unat (s_size g)"
proof (cases "s_size g = 0")
  case True
  then have "section_named nm (gs @ [g]) = section_named nm gs" for nm
    by (cases "section_named nm gs") (simp_all add: section_named_snoc)
  then show ?thesis using True assms(1) by (simp add: convert_section_def converted_def)
next
  case False
  let ?h = "noffH st"
  have c: "noffMagic ?h = NOFFMAGIC" "inNoffFile st = 52 + int (length (out_data st))"
    "segment_is coff (section_named text_name gs) (code ?h) (out_data st)"
    "segment_is coff (section_named data_name gs) (initData ?h) (out_data st)"
    "segment_is coff (section_named rdata_name gs) (readonlyData ?h) (out_data st)"
    "bss_is (section_named bss_name gs) (uninitData ?h)"
    using assms(1) unfolding converted_def by blast+
  have keep: "segment_is coff d s (out_data st @ bs)" if "segment_is coff d s (out_data st)" for d s bs
    using segment_is_append [OF that] .
  have same: "section_named nm (gs @ [g]) = section_named nm gs" if "\<not> is_named nm g" for nm
    using that by (cases "section_named nm gs") (simp_all add: section_named_snoc)
  have new: "section_named nm (gs @ [g]) = Some g" if "is_named nm g" "section_named nm gs = None" for nm
    using that False by (simp add: section_named_snoc)
  show ?thesis
  proof (cases "is_named bss_name g")
    case True
    note d = names_differ(4) [OF True]
    have none: "section_named bss_name gs = None" using assms(4) True False by simp
    then have "seg_size (uninitData ?h) = 0" using c(6) by (simp add: bss_is_def)
    moreover have "bss_is (Some g) ((uninitData ?h)\<lparr>virtualAddr := s_paddr g, seg_size := s_size g\<rparr>)" by (simp add: bss_is_def)
    ultimately show ?thesis
      using False True d c new [OF True none] same by (simp add: convert_section_def converted_def Let_def)
  next
    case nbss: False
    from assms(2) False nbss have g: "is_named text_name g \<or> is_named data_name g \<or> is_named rdata_name g"
      "unat (s_scnptr g) < 2 ^ 31" "unat (s_scnptr g) + unat (s_size g) \<le> length coff" by (auto simp: section_ok_def)
    have copy: "\<exists>p. copy_section coff g (st\<lparr>noffH := h\<rparr>) = Inr (Some (st\<lparr>noffH := h,
        inNoffFile := 52 + int (length (out_data st @ section_bytes coff g)),
        out_data := out_data st @ section_bytes coff g, in_pos := p\<rparr>))" for h
      using copy_section_eq(1) [OF False g(2,3), of "st\<lparr>noffH := h\<rparr>"] c(2) assms(3) by simp
    note len = copy_section_eq(2) [OF False g(2,3) c(2) assms(3)]
    have "52 + length (out_data st) < 2 ^ 31" using assms(3) by linarith
    note seg = segment_is_new [OF c(2) this len]
    consider "is_named text_name g" | "is_named data_name g" | "is_named rdata_name g" using g(1) by blast
    then show ?thesis
    proof cases
      case 1
      have n: "section_named text_name (gs @ [g]) = Some g" by (rule new [OF 1]) (use assms(4) 1 False in simp)
      from copy [of "?h\<lparr>code := segment_of g st\<rparr>"] show ?thesis
        using 1 False names_differ(1) [OF 1] c keep seg n same len by (auto simp: convert_section_def converted_def Let_def)
    next
      case 2
      have n: "section_named data_name (gs @ [g]) = Some g" by (rule new [OF 2]) (use assms(4) 2 False in simp)
      from copy [of "?h\<lparr>initData := segment_of g st\<rparr>"] show ?thesis
        using 2 False names_differ(2) [OF 2] c keep seg n same len by (auto simp: convert_section_def converted_def Let_def)
    next
      case 3
      have n: "section_named rdata_name (gs @ [g]) = Some g" by (rule new [OF 3]) (use assms(4) 3 False in simp)
      from copy [of "?h\<lparr>readonlyData := segment_of g st\<rparr>"] show ?thesis
        using 3 False names_differ(3) [OF 3] c keep seg n same len by (auto simp: convert_section_def converted_def Let_def)
    qed
  qed
qed

lemma convert_sections_ok:
  assumes "sections_ok coff (gs @ rest)" "converted coff gs st" "length (out_data st) \<le> sum_list (map (\<lambda>g. unat (s_size g)) gs)"
  shows "\<exists>st'. convert_sections coff rest st = Inr (Some st') \<and> converted coff (gs @ rest) st'
     \<and> length (out_data st') \<le> sum_list (map (\<lambda>g. unat (s_size g)) (gs @ rest))"
  using assms
proof (induction rest arbitrary: gs st)
  case (Cons g rest)
  let ?n = "\<lambda>gs. sum_list (map (\<lambda>g. unat (s_size g)) gs)"
  have ok: "section_ok coff g" and total: "52 + ?n (gs @ g # rest) < 2 ^ 31"
    and once: "\<And>nm. nm \<in> {text_name, data_name, rdata_name, bss_name} \<Longrightarrow>
      length (filter (\<lambda>g. s_size g \<noteq> 0 \<and> is_named nm g) (gs @ g # rest)) \<le> 1"
    using Cons.prems(1) unfolding sections_ok_def by (simp, blast, blast)
  have "section_named nm gs = None" if "nm \<in> {text_name, data_name, rdata_name, bss_name}" "s_size g \<noteq> 0 \<and> is_named nm g" for nm
  proof -
    have "filter (\<lambda>g. s_size g \<noteq> 0 \<and> is_named nm g) gs = []" using once [OF that(1)] that(2) by simp
    then show ?thesis by (simp add: section_named_def find_None_iff filter_empty_conv)
  qed
  then have none: "\<forall>nm\<in>{text_name, data_name, rdata_name, bss_name}. s_size g \<noteq> 0 \<and> is_named nm g \<longrightarrow> section_named nm gs = None"
    by (intro ballI impI)
  have size: "52 + length (out_data st) + unat (s_size g) < 2 ^ 31"
    using total Cons.prems(3) unfolding map_append sum_list_append list.map sum_list.Cons by linarith
  from convert_section_ok [OF Cons.prems(2) ok size none] obtain st' where
    s: "convert_section coff g st = Inr (Some st')" "converted coff (gs @ [g]) st'"
      "length (out_data st') \<le> length (out_data st) + unat (s_size g)" by blast
  have "length (out_data st') \<le> ?n (gs @ [g])" using s(3) Cons.prems(3) by simp
  from Cons.IH [OF _ s(2) this] Cons.prems(1) show ?case using s(1) by simp
qed simp

text \<open>The whole file.\<close>

definition coff_sections :: "byte list \<Rightarrow> scnhdr list" where
  "coff_sections coff = section_headers (unat (short_at 2 coff)) (drop (sizeof_filehdr + sizeof_aouthdr) coff)"

definition coff_ok :: "byte list \<Rightarrow> bool" where
  "coff_ok coff \<longleftrightarrow> short_at 0 coff = MIPSELMAGIC \<and> short_at sizeof_filehdr coff = OMAGIC
     \<and> sizeof_filehdr + sizeof_aouthdr + sizeof_scnhdr * unat (short_at 2 coff) \<le> length coff
     \<and> sections_ok coff (coff_sections coff)"

lemma coff2noff_ok:
  assumes "coff_ok coff"
  shows "\<exists>h out. coff2noff stack coff = Inr (Some (noff_header_bytes h @ out)) \<and> noffMagic h = NOFFMAGIC
     \<and> segment_is coff (section_named text_name (coff_sections coff)) (code h) out
     \<and> segment_is coff (section_named data_name (coff_sections coff)) (initData h) out
     \<and> segment_is coff (section_named rdata_name (coff_sections coff)) (readonlyData h) out
     \<and> bss_is (section_named bss_name (coff_sections coff)) (uninitData h) \<and> 52 + length out < 2 ^ 31"
proof -
  let ?gs = "coff_sections coff"
  let ?st = "\<lparr>noffH = empty_header stack, inNoffFile = int sizeof_NoffHeader, out_data = [],
     in_pos = sizeof_filehdr + sizeof_aouthdr + sizeof_scnhdr * unat (short_at 2 coff)\<rparr>"
  have s: "sections_ok coff ([] @ ?gs)" using assms by (simp add: coff_ok_def)
  have "converted coff [] ?st"
    by (simp add: converted_def segment_is_def bss_is_def section_named_def empty_header_def sizeof_NoffHeader_def)
  from convert_sections_ok [OF s this] obtain st where st: "convert_sections coff ?gs ?st = Inr (Some st)" "converted coff ?gs st"
    "length (out_data st) \<le> sum_list (map (\<lambda>g. unat (s_size g)) ?gs)" by auto
  have "sizeof_filehdr + sizeof_aouthdr + sizeof_scnhdr * unat (short_at 2 coff) \<le> length coff"
    using assms by (simp add: coff_ok_def)
  then have room: "\<not> length coff - 76 < 40 * unat (short_at 2 coff)"
    unfolding sizeof_filehdr_def sizeof_aouthdr_def sizeof_scnhdr_def by linarith
  have "coff2noff stack coff = Inr (Some (noff_header_bytes (noffH st) @ out_data st))"
    using assms st(1) room
    by (simp add: coff2noff_def coff_ok_def coff_sections_def Let_def SwapHeader_id
        sizeof_filehdr_def sizeof_aouthdr_def sizeof_scnhdr_def)
  moreover have "52 + length (out_data st) < 2 ^ 31" using s st(3) by (simp add: sections_ok_def)
  ultimately show ?thesis using st(2) unfolding converted_def by blast
qed

subsection \<open>Property\<close>

text \<open>The size of a section that may be absent, and its bytes placed at its address.\<close>

definition section_size :: "scnhdr option \<Rightarrow> nat" where
  "section_size d = (case d of None \<Rightarrow> 0 | Some g \<Rightarrow> unat (s_size g))"

definition place :: "byte list \<Rightarrow> scnhdr option \<Rightarrow> byte list \<Rightarrow> byte list" where
  "place coff d mem = (case d of None \<Rightarrow> mem | Some g \<Rightarrow> overwrite (unat (s_paddr g)) (section_bytes coff g) mem)"

definition section_inside :: "nat \<Rightarrow> scnhdr option \<Rightarrow> bool" where
  "section_inside n d \<longleftrightarrow> (case d of None \<Rightarrow> True | Some g \<Rightarrow> unat (s_paddr g) + unat (s_size g) \<le> n)"

lemma section_named_size: "section_named nm gs = Some g \<Longrightarrow> s_size g \<noteq> 0"
  unfolding section_named_def by (auto simp: find_Some_iff)

lemma converted_segment:
  assumes "segment_is coff d s out" "exe = noff_header_bytes h @ out"
  shows "unat (seg_size s) = section_size d" "overwrite (unat (virtualAddr s)) (segment_bytes s exe) mem = place coff d mem"
    "section_inside (128 * n) d \<Longrightarrow> n \<le> 128 \<Longrightarrow> length exe < 2 ^ 31 \<Longrightarrow> segment_fits s n exe"
  using assms
  by (auto simp: segment_is_def segment_bytes_def segment_fits_def length_noff_header_bytes section_size_def place_def
      section_inside_def split: option.splits)

lemma converted_readonly:
  assumes "segment_is coff d s out" "exe = noff_header_bytes h @ out" "length exe < 2 ^ 31" "d = section_named nm gs"
  shows "readonly_fits s exe \<longleftrightarrow> section_inside (nat MemorySize) d"
proof (cases d)
  case (Some g)
  then have g: "virtualAddr s = s_paddr g" "seg_size s = s_size g" "seg_size s \<noteq> 0"
    "unat (inFileAddr s) + unat (s_size g) \<le> length exe"
    using assms(1,2,4) section_named_size [of nm gs g] by (auto simp: segment_is_def length_noff_header_bytes)
  then have len: "length (segment_bytes s exe) = unat (s_size g)" by (simp add: segment_bytes_def)
  then have "segment_bytes s exe \<noteq> []" using g(2,3) by (metis list.size(3) unat_eq_zero)
  moreover have "unat (inFileAddr s) < 2 ^ 31" using g(4) assms(3) by linarith
  ultimately show ?thesis using g(1,3) len Some by (simp add: readonly_fits_def section_inside_def)
qed (use assms(1) in \<open>simp add: segment_is_def readonly_fits_def section_inside_def\<close>)

text \<open>
  C13: a COFF program goes through the converter and the loader unharmed, except for its read-only data. The converter
  accepts a file whose sections lie in it, each of the four names at most once, whatever its header variable held
  before. Given enough frames, the address space that loads the result has as many frames as the sections and the stack
  need and shows the bytes of \<^verbatim>\<open>.text\<close> and \<^verbatim>\<open>.data\<close>, as far as the file has these sections, at their
  addresses. The bytes of \<^verbatim>\<open>.rdata\<close> go to its address in physical memory, over whatever lies there, and if they do
  not fit there the program cannot be loaded.
\<close>

theorem converted_program_loads:
  assumes "coff_ok coff" "gs = coff_sections coff" "t = section_named text_name gs" "d = section_named data_name gs"
    "r = section_named rdata_name gs"
    "n = (section_size t + section_size d + section_size r + section_size (section_named bss_name gs) + 1024 + 127) div 128"
    "n \<le> 128" "section_inside (128 * n) t" "section_inside (128 * n) d"
    "bm_inv b" "bm_size b = 128" "length mem = nat MemorySize"
  shows "\<exists>exe. coff2noff stack coff = Inr (Some exe)
     \<and> (if 2 * n \<le> card (bm_free b) + 1
        then \<exists>s fr b' mem'. space_ok s fr \<and> length fr = n \<and> set fr \<subseteq> bm_free b \<and> bm_free b' = bm_free b - set fr
          \<and> view fr mem' = place coff d (place coff t (view fr mem)) \<and> (\<forall>p. p div 128 \<notin> set fr \<longrightarrow> mem' ! p = mem ! p)
          \<and> (if section_inside (nat MemorySize) r
              then AddrSpace_Load (Some exe) AddrSpace_new b mem = Inr (True, s, b', place coff r mem')
              else \<exists>e. AddrSpace_Load (Some exe) AddrSpace_new b mem = Inl e)
        else AddrSpace_Load (Some exe) AddrSpace_new b mem = Inl Halted)"
proof -
  from coff2noff_ok [OF assms(1), of stack] obtain h out where
    c: "coff2noff stack coff = Inr (Some (noff_header_bytes h @ out))" "noffMagic h = NOFFMAGIC"
      "segment_is coff t (code h) out" "segment_is coff d (initData h) out" "segment_is coff r (readonlyData h) out"
      "bss_is (section_named bss_name gs) (uninitData h)" "52 + length out < 2 ^ 31"
    unfolding assms(2-5) by blast
  define exe where "exe = noff_header_bytes h @ out"
  note t = converted_segment [OF c(3) exe_def] and d = converted_segment [OF c(4) exe_def]
    and r = converted_segment [OF c(5) exe_def]
  have h: "header exe = h" by (simp add: exe_def header_of_bytes)
  have len: "length exe < 2 ^ 31" "52 \<le> length exe" using c(7) by (simp_all add: exe_def length_noff_header_bytes)
  have bss: "unat (seg_size (uninitData h)) = section_size (section_named bss_name gs)"
    using c(6) by (auto simp: bss_is_def section_size_def split: option.splits)
  have "noff_ok exe n"
    unfolding noff_ok_def h space_bytes_def t(1) d(1) r(1) bss
    using c(2) assms(6,7) len t(3) [OF assms(8,7) len(1)] d(3) [OF assms(9,7) len(1)]
    by (simp add: sizeof_NoffHeader_def add_ac)
  from Load_eq [OF this assms(10-12) refl]
  have "if 2 * n \<le> card (bm_free b) + 1
        then \<exists>s fr b' mem'. space_ok s fr \<and> length fr = n \<and> set fr \<subseteq> bm_free b \<and> bm_free b' = bm_free b - set fr
          \<and> view fr mem' = place coff d (place coff t (view fr mem)) \<and> (\<forall>p. p div 128 \<notin> set fr \<longrightarrow> mem' ! p = mem ! p)
          \<and> (if section_inside (nat MemorySize) r
              then AddrSpace_Load (Some exe) AddrSpace_new b mem = Inr (True, s, b', place coff r mem')
              else \<exists>e. AddrSpace_Load (Some exe) AddrSpace_new b mem = Inl e)
        else AddrSpace_Load (Some exe) AddrSpace_new b mem = Inl Halted"
    unfolding h t(2) d(2) r(2) converted_readonly [OF c(5) exe_def len(1) assms(5)]
    by (cases "2 * n \<le> card (bm_free b) + 1"; simp only: if_True if_False) blast
  then show ?thesis using c(1) unfolding exe_def [symmetric] by (intro exI [of _ exe] conjI)
qed

definition sample_coff :: "byte list" where
  "sample_coff = [0x62, 1, 2, 0] @ replicate 16 0 @ [7, 1] @ replicate 54 0
     @ text_name @ [0, 0, 0] @ replicate 8 0 @ [4, 0, 0, 0] @ [156, 0, 0, 0] @ replicate 16 0
     @ rdata_name @ [0, 0] @ [0, 32, 0, 0] @ replicate 4 0 @ [4, 0, 0, 0] @ [160, 0, 0, 0] @ replicate 16 0
     @ [1, 2, 3, 4] @ [5, 6, 7, 8]"

lemma sample_coff_sections:
  "coff_sections sample_coff = [\<lparr>s_name = text_name @ [0, 0, 0], s_paddr = 0, s_size = 4, s_scnptr = 156\<rparr>,
     \<lparr>s_name = rdata_name @ [0, 0], s_paddr = 8192, s_size = 4, s_scnptr = 160\<rparr>]"
  by code_simp

lemma sample_coff_headers: "short_at 0 sample_coff = MIPSELMAGIC" "short_at 20 sample_coff = OMAGIC"
  "short_at 2 sample_coff = 2" "length sample_coff = 164"
  by code_simp+

lemma sample_coff_ok: "coff_ok sample_coff"
  unfolding coff_ok_def sections_ok_def sample_coff_sections
  by (simp add: sample_coff_headers sizeof_filehdr_def sizeof_aouthdr_def sizeof_scnhdr_def section_ok_def is_named_def
      text_name_def data_name_def rdata_name_def bss_name_def)

lemma sample_coff_names:
  "section_named text_name (coff_sections sample_coff) = Some \<lparr>s_name = text_name @ [0, 0, 0], s_paddr = 0, s_size = 4, s_scnptr = 156\<rparr>"
  "section_named data_name (coff_sections sample_coff) = None" "section_named bss_name (coff_sections sample_coff) = None"
  "section_named rdata_name (coff_sections sample_coff) = Some \<lparr>s_name = rdata_name @ [0, 0], s_paddr = 8192, s_size = 4, s_scnptr = 160\<rparr>"
  unfolding sample_coff_sections section_named_def
  by (simp_all add: is_named_def text_name_def data_name_def rdata_name_def bss_name_def)

lemma sample_section_bytes:
  "section_bytes sample_coff \<lparr>s_name = text_name @ [0, 0, 0], s_paddr = 0, s_size = 4, s_scnptr = 156\<rparr> = [1, 2, 3, 4]"
  "section_bytes sample_coff \<lparr>s_name = rdata_name @ [0, 0], s_paddr = 8192, s_size = 4, s_scnptr = 160\<rparr> = [5, 6, 7, 8]"
  by code_simp+

lemma sample_place:
  "place sample_coff (section_named text_name (coff_sections sample_coff)) mem = overwrite 0 [1, 2, 3, 4] mem"
  "place sample_coff (section_named data_name (coff_sections sample_coff)) mem = mem"
  "place sample_coff (section_named rdata_name (coff_sections sample_coff)) mem = overwrite 8192 [5, 6, 7, 8] mem"
  unfolding place_def sample_coff_names by (simp_all add: sample_section_bytes)

lemma converted_program_loads_witness:
  "\<exists>exe s fr b' mem'. coff2noff (empty_header (header [])) sample_coff = Inr (Some exe)
     \<and> AddrSpace_Load (Some exe) AddrSpace_new (clear_map 4) (replicate 16384 7) = Inr (True, s, b', overwrite 8192 [5, 6, 7, 8] mem')
     \<and> space_ok s fr \<and> length fr = 9 \<and> view fr mem' = overwrite 0 [1, 2, 3, 4] (view fr (replicate 16384 7))"
proof -
  have n: "9 = (section_size (section_named text_name (coff_sections sample_coff))
      + section_size (section_named data_name (coff_sections sample_coff))
      + section_size (section_named rdata_name (coff_sections sample_coff))
      + section_size (section_named bss_name (coff_sections sample_coff)) + 1024 + 127) div 128"
    unfolding sample_coff_names by (simp add: section_size_def)
  have inside: "section_inside (128 * 9) (section_named text_name (coff_sections sample_coff))"
    "section_inside (128 * 9) (section_named data_name (coff_sections sample_coff))"
    "section_inside (nat MemorySize) (section_named rdata_name (coff_sections sample_coff))"
    unfolding sample_coff_names by (simp_all add: section_inside_def MemorySize_def NumPhysPages_def PageSize_def)
  have b: "bm_inv (clear_map 4)" "bm_size (clear_map 4) = 128" "length (replicate 16384 (7 :: byte)) = nat MemorySize"
    "2 * 9 \<le> card (bm_free (clear_map 4)) + 1"
    by (simp_all add: clear_map_ok MemorySize_def NumPhysPages_def PageSize_def)
  from converted_program_loads [OF sample_coff_ok refl refl refl refl n _ inside(1,2) b(1-3)] show ?thesis
    unfolding sample_place if_P [OF b(4)] if_P [OF inside(3)] by simp blast
qed

end
