(* ===== verification/Paging.thy ===== *)
theory Paging
  imports AddrSpaces
begin

text \<open>
  \<^verbatim>\<open>userprog/addrspace.cc\<close> of the second assignment, the multiprogramming loader: a segment is loaded
  page by page into frames taken from the bitmap \<^verbatim>\<open>available_frame\<close>, each zeroed first. The layout of the
  executable, the page table entries and \<^verbatim>\<open>Translate\<close> are those of theory \<open>AddrSpaces\<close>. The theory reduces
  the loader to a list of pages put one after another and proves which memory a loaded program has, when
  loading fails and how, and that the destructor gives the frames back.
\<close>

subsection \<open>LoadSegment\<close>

text \<open>What the loader changes: the page table, \<^verbatim>\<open>available_frame\<close>, the main memory.\<close>

type_synonym load_state = "TranslationEntry list \<times> Bitmap \<times> byte list"

text \<open>
  \<^verbatim>\<open>ExceptionHandler(MemoryLimitException)\<close>: the exception is none of the cases of the handler's \<^verbatim>\<open>switch\<close>, so the
  handler reports it and reaches its \<^verbatim>\<open>ASSERTNOTREACHED\<close>.
\<close>

definition handle_MemoryLimit :: "unit res" where
  "handle_MemoryLimit = Inl AssertFailed"

text \<open>\<^verbatim>\<open>bzero(mainMemory + pageid * PageSize, PageSize)\<close>.\<close>

definition zero_page :: "int \<Rightarrow> byte list \<Rightarrow> byte list res" where
  "zero_page pageid mem =
     inboundsR (pageid * PageSize) (int (length mem) - PageSize + 1)
      (Inr (overwrite (nat (pageid * PageSize)) (replicate (nat PageSize) 0) mem))"

text \<open>
  One round of the loop of \<^verbatim>\<open>LoadSegment\<close>. The size that remains and the position in the file are
  computed as unsigned numbers; the position becomes an \<^verbatim>\<open>int\<close> again as an argument of \<^verbatim>\<open>ReadAt\<close>.
\<close>

definition load_page ::
  "byte list \<Rightarrow> Segment \<Rightarrow> nat \<Rightarrow> bool \<Rightarrow> nat \<Rightarrow> load_state \<Rightarrow> (bool \<times> load_state) res" where
  "load_page exe segment startVPN ro i = (\<lambda>(pt, available_frame, mem).
     let vpn = startVPN + i
     in bindR (Bitmap_FindAndSet available_frame) (\<lambda>(pageid, available_frame).
        if pageid = - 1 then bindR handle_MemoryLimit (\<lambda>_. Inr (False, pt, available_frame, mem))
        else inboundsR (int vpn) (int (length pt))
         (let pt = pt[vpn := (pt ! vpn)\<lparr>physicalPage := pageid, valid := True, readOnly := ro\<rparr>]
          in bindR (zero_page pageid mem) (\<lambda>mem.
             let paddr = pageid * PageSize;
                 remainingSize = unat (seg_size segment - of_nat (128 * i));
                 readSize = (if remainingSize < 128 then remainingSize else 128)
             in bindR (host_ReadAt exe (int readSize) (sint (inFileAddr segment + of_nat (128 * i)))) (\<lambda>bs.
                inboundsR paddr (int (length mem) - int (length bs) + 1)
                 (Inr (True, pt, available_frame, overwrite (nat paddr) bs mem)))))))"

text \<open>A loop whose body may make the function return \<^verbatim>\<open>FALSE\<close>.\<close>

fun while_ok :: "nat \<Rightarrow> nat \<Rightarrow> (nat \<Rightarrow> 's \<Rightarrow> (bool \<times> 's) res) \<Rightarrow> 's \<Rightarrow> (bool \<times> 's) res" where
  "while_ok 0 i body s = Inr (True, s)"
| "while_ok (Suc k) i body s = bindR (body i s) (\<lambda>(ok, s). if ok then while_ok k (Suc i) body s else Inr (False, s))"

definition LoadSegment ::
  "byte list \<Rightarrow> Segment \<Rightarrow> nat \<Rightarrow> bool \<Rightarrow> load_state \<Rightarrow> (bool \<times> load_state) res" where
  "LoadSegment exe segment startVPN ro =
     while_ok (nat (divRoundUp (sint (seg_size segment)) PageSize)) 0 (load_page exe segment startVPN ro)"

subsection \<open>LoadSegments\<close>

text \<open>The block that \<^verbatim>\<open>LoadSegments\<close> repeats for each segment; it moves \<^verbatim>\<open>currVPN\<close> past the segment's pages.\<close>

definition load_next ::
  "byte list \<Rightarrow> Segment \<Rightarrow> bool \<Rightarrow> nat \<times> load_state \<Rightarrow> (bool \<times> nat \<times> load_state) res" where
  "load_next exe segment ro = (\<lambda>(currVPN, s).
     if sint (seg_size segment) > 0
     then bindR (LoadSegment exe segment currVPN ro s) (\<lambda>(ok, s).
       if ok then Inr (True, currVPN + nat (divRoundUp (sint (seg_size segment)) PageSize), s)
       else Inr (False, currVPN, s))
     else Inr (True, currVPN, s))"

definition stack_page :: "nat \<Rightarrow> nat \<Rightarrow> load_state \<Rightarrow> (bool \<times> load_state) res" where
  "stack_page currVPN i = (\<lambda>(pt, available_frame, mem).
     let vpn = currVPN + i
     in bindR (Bitmap_FindAndSet available_frame) (\<lambda>(pageid, available_frame).
        if pageid = - 1 then bindR handle_MemoryLimit (\<lambda>_. Inr (False, pt, available_frame, mem))
        else inboundsR (int vpn) (int (length pt))
         (let pt = pt[vpn := \<lparr>virtualPage = int vpn, physicalPage = pageid, valid = True, readOnly = False,
                used = False, dirty = False\<rparr>]
          in bindR (zero_page pageid mem) (\<lambda>mem. Inr (True, pt, available_frame, mem)))))"

definition LoadSegments :: "byte list \<Rightarrow> NoffHeader \<Rightarrow> load_state \<Rightarrow> (bool \<times> load_state) res" where
  "LoadSegments exe noffH s =
     bindR (load_next exe (code noffH) False (0, s)) (\<lambda>(ok, s).
     if \<not> ok then Inr (False, snd s) else
     bindR (load_next exe (initData noffH) False s) (\<lambda>(ok, s).
     if \<not> ok then Inr (False, snd s) else
     bindR (load_next exe (readonlyData noffH) True s) (\<lambda>(ok, s).
     if \<not> ok then Inr (False, snd s) else
     bindR (load_next exe (uninitData noffH) False s) (\<lambda>(ok, currVPN, s).
     if \<not> ok then Inr (False, s) else
     while_ok (nat (divRoundUp UserStackSize PageSize)) 0 (stack_page currVPN) s))))"

subsection \<open>Load\<close>

text \<open>A page not in memory yet: its frame number is \<open>- 1\<close>.\<close>

definition absent_entry :: "nat \<Rightarrow> TranslationEntry" where
  "absent_entry i = \<lparr>virtualPage = int i, physicalPage = - 1, valid = False, readOnly = False, used = False, dirty = False\<rparr>"

text \<open>When a segment cannot be loaded the table is deleted, and no access to it is in bounds any more.\<close>

definition space_Load ::
  "byte list option \<Rightarrow> AddrSpace \<Rightarrow> Bitmap \<Rightarrow> byte list \<Rightarrow> (bool \<times> AddrSpace \<times> Bitmap \<times> byte list) res" where
  "space_Load executable s available_frame mem =
     (case executable of None \<Rightarrow> Inr (False, s, available_frame, mem)
      | Some exe \<Rightarrow>
          bindR (fetch_header exe) (\<lambda>noffH.
          let noffH = (if noffMagic noffH \<noteq> NOFFMAGIC \<and> WordToHost (noffMagic noffH) = NOFFMAGIC
                       then SwapHeader noffH else noffH)
          in assertR (noffMagic noffH = NOFFMAGIC)
           (bindR (address_space_size noffH) (\<lambda>sz.
            let n = divRoundUp sz PageSize
            in bindR (LoadSegments exe noffH (map absent_entry [0..<nat n], available_frame, mem))
                (\<lambda>(ok, pt, available_frame, mem).
                  Inr (ok, \<lparr>spaceTable = (if ok then pt else []), numPages = n\<rparr>, available_frame, mem))))))"

subsection \<open>The loader as a list of pages\<close>

text \<open>
  The entry of a page in frame \<open>f\<close>, and the loading of one page with the content \<open>c\<close> as the
  \<open>k\<close>th of a space. Every round of the loader is such a step.
\<close>

definition present_entry :: "nat \<Rightarrow> nat \<Rightarrow> bool \<Rightarrow> TranslationEntry" where
  "present_entry i f ro = \<lparr>virtualPage = int i, physicalPage = int f, valid = True, readOnly = ro, used = False, dirty = False\<rparr>"

type_synonym page = "bool \<times> byte list"

definition put_page :: "nat \<Rightarrow> page \<Rightarrow> load_state \<Rightarrow> load_state res" where
  "put_page k pg = (\<lambda>(pt, b, mem).
     if bm_free b = {} then Inl AssertFailed
     else let f = Min (bm_free b)
       in if length pt \<le> k then Inl OutOfBounds
          else Inr (pt[k := present_entry k f (fst pg)], bm_mark b f, overwrite (128 * f) (snd pg) mem))"

fun put_pages :: "nat \<Rightarrow> page list \<Rightarrow> load_state \<Rightarrow> load_state res" where
  "put_pages k [] s = Inr s"
| "put_pages k (pg # pgs) s = bindR (put_page k pg s) (put_pages (Suc k) pgs)"

text \<open>The pages of a segment: its bytes as far as the file has them, the last page filled up with zeros.\<close>

definition segment_pages :: "Segment \<Rightarrow> nat" where
  "segment_pages g = (unat (seg_size g) + 127) div 128"

definition padded :: "nat \<Rightarrow> byte list \<Rightarrow> byte list" where
  "padded n bs = bs @ replicate (n - length bs) 0"

definition page_content :: "Segment \<Rightarrow> byte list \<Rightarrow> nat \<Rightarrow> byte list" where
  "page_content g exe i = padded 128 (take 128 (drop (128 * i) (segment_bytes g exe)))"

definition pages_of :: "bool \<Rightarrow> Segment \<Rightarrow> byte list \<Rightarrow> page list" where
  "pages_of ro g exe = map (\<lambda>i. (ro, page_content g exe i)) [0..<segment_pages g]"

definition program_pages :: "byte list \<Rightarrow> page list" where
  "program_pages exe = pages_of False (code (header exe)) exe @ pages_of False (initData (header exe)) exe
     @ pages_of True (readonlyData (header exe)) exe @ pages_of False (uninitData (header exe)) exe
     @ replicate 8 (False, replicate 128 0)"

subsection \<open>The loader puts these pages\<close>

text \<open>The state while loading: no page from the \<open>k\<close>th on has been touched.\<close>

definition loading :: "nat \<Rightarrow> load_state \<Rightarrow> bool" where
  "loading k = (\<lambda>(pt, b, mem). bm_inv b \<and> bm_size b = 128 \<and> length mem = nat MemorySize
     \<and> (\<forall>j. k \<le> j \<longrightarrow> j < length pt \<longrightarrow> pt ! j = absent_entry j))"

lemma memory_sizes: "nat MemorySize = 16384" "nat PageSize = 128" "MemorySize = 16384"
  by (simp_all add: MemorySize_def NumPhysPages_def PageSize_def)

lemma free_frame:
  assumes "bm_inv b" "bm_size b = 128" "bm_free b \<noteq> {}"
  shows "Bitmap_FindAndSet b = Inr (int (Min (bm_free b)), bm_mark b (Min (bm_free b)))"
    "Min (bm_free b) \<in> bm_free b" "Min (bm_free b) < 128" "bm_inv (bm_mark b (Min (bm_free b)))"
    "bm_size (bm_mark b (Min (bm_free b))) = 128"
    "bm_free (bm_mark b (Min (bm_free b))) = bm_free b - {Min (bm_free b)}"
proof -
  show m: "Min (bm_free b) \<in> bm_free b" using assms(3) by simp
  then show "Min (bm_free b) < 128" using bm_free_bounded assms(2) by fastforce
  show f: "Bitmap_FindAndSet b = Inr (int (Min (bm_free b)), bm_mark b (Min (bm_free b)))"
    using assms by (simp add: FindAndSet_eq)
  from bm.fnd_some [OF assms(1,3)] f
  show "bm_inv (bm_mark b (Min (bm_free b)))" "bm_size (bm_mark b (Min (bm_free b))) = 128"
    "bm_free (bm_mark b (Min (bm_free b))) = bm_free b - {Min (bm_free b)}" using assms(2) by auto
qed

lemma length_padded: "length bs \<le> n \<Longrightarrow> length (padded n bs) = n"
  by (simp add: padded_def)

lemma length_page_content [simp]: "length (page_content g exe i) = 128"
  by (simp add: page_content_def length_padded)

lemma overwrite_padded:
  assumes "length bs \<le> n" "p + n \<le> length mem"
  shows "overwrite p bs (overwrite p (replicate n 0) mem) = overwrite p (padded n bs) mem"
  using assms by (simp add: overwrite_def padded_def add.commute)

lemma zero_page_eq:
  assumes "f < 128" "length mem = nat MemorySize"
  shows "zero_page (int f) mem = Inr (overwrite (128 * f) (replicate 128 0) mem)"
proof -
  have "nat (int f * 128) = 128 * f" by simp
  then show ?thesis using assms by (simp add: zero_page_def memory_sizes PageSize_def)
qed

lemma put_page_loading:
  assumes "loading k s" "put_page k pg s = Inr s'" "length (snd pg) = 128"
  shows "loading (Suc k) s'"
proof -
  obtain pt b mem where s: "s = (pt, b, mem)" by (cases s)
  from assms(1) have l: "bm_inv b" "bm_size b = 128" "length mem = nat MemorySize"
    "\<And>j. k \<le> j \<Longrightarrow> j < length pt \<Longrightarrow> pt ! j = absent_entry j" by (auto simp: loading_def s)
  from assms(2) have ne: "bm_free b \<noteq> {}" by (auto simp: put_page_def s)
  note f = free_frame [OF l(1,2) ne]
  from assms(2) ne have "s' = (pt[k := present_entry k (Min (bm_free b)) (fst pg)], bm_mark b (Min (bm_free b)),
      overwrite (128 * Min (bm_free b)) (snd pg) mem)"
    by (auto simp: put_page_def s Let_def split: if_splits)
  with f l assms(3) show ?thesis by (auto simp: loading_def memory_sizes)
qed

lemma segment_position:
  assumes "unat (inFileAddr g) + unat (seg_size g) < 2 ^ 31" "i < segment_pages g"
  shows "sint (inFileAddr g + of_nat (128 * i)) = int (unat (inFileAddr g) + 128 * i)"
    "unat (seg_size g - of_nat (128 * i)) = unat (seg_size g) - 128 * i" "128 * i < unat (seg_size g)"
proof -
  have "i < (unat (seg_size g) + 127) div 128" using assms(2) by (simp add: segment_pages_def)
  moreover have "(unat (seg_size g) + 127) div 128 * 128 \<le> unat (seg_size g) + 127" by simp
  ultimately show lt: "128 * i < unat (seg_size g)" by linarith
  have "unat (inFileAddr g + of_nat (128 * i)) = unat (inFileAddr g) + 128 * i"
    by (rule unat_add_of_nat) (use assms(1) lt in simp)
  moreover have "unat (inFileAddr g) + 128 * i < 2 ^ 31" using assms(1) lt by linarith
  ultimately show "sint (inFileAddr g + of_nat (128 * i)) = int (unat (inFileAddr g) + 128 * i)"
    using sint_small_unat [of "inFileAddr g + of_nat (128 * i)"] by (simp only:)
  have small: "128 * i < 2 ^ 32" using assms(1) lt by simp
  have w: "unat (of_nat (128 * i) :: 32 word) = 128 * i"
    using unat_add_of_nat [of "0 :: 32 word" "128 * i"] small by (simp only: unat_0 add_0)
  then have "of_nat (128 * i) \<le> seg_size g" using lt by (simp only: word_le_nat_alt)
  then show "unat (seg_size g - of_nat (128 * i)) = unat (seg_size g) - 128 * i"
    by (simp only: unat_sub w)
qed

lemma read_content:
  assumes "unat (inFileAddr g) + unat (seg_size g) < 2 ^ 31" "i < segment_pages g"
  defines "r \<equiv> unat (seg_size g - of_nat (128 * i))"
  shows "host_ReadAt exe (int (if r < 128 then r else 128)) (sint (inFileAddr g + of_nat (128 * i)))
     = Inr (take 128 (drop (128 * i) (segment_bytes g exe)))"
proof -
  have "(if r < 128 then r else 128) = min 128 (unat (seg_size g) - 128 * i)"
    unfolding r_def segment_position(2) [OF assms(1,2)] by auto
  moreover have "take (min 128 (unat (seg_size g) - 128 * i)) (drop (unat (inFileAddr g) + 128 * i) exe)
      = take 128 (drop (128 * i) (segment_bytes g exe))"
    by (simp add: segment_bytes_def drop_take drop_drop add.commute)
  ultimately show ?thesis
    unfolding segment_position(1) [OF assms(1,2)] host_ReadAt_def by (simp del: of_nat_add of_nat_mult)
qed

lemma load_page_eq:
  assumes "loading (sv + i) s" "unat (inFileAddr g) + unat (seg_size g) < 2 ^ 31" "i < segment_pages g"
  shows "load_page exe g sv ro i s = bindR (put_page (sv + i) (ro, page_content g exe i) s) (\<lambda>s. Inr (True, s))"
proof -
  obtain pt b mem where s: "s = (pt, b, mem)" by (cases s)
  from assms(1) have l: "bm_inv b" "bm_size b = 128" "length mem = nat MemorySize"
    "\<And>j. sv + i \<le> j \<Longrightarrow> j < length pt \<Longrightarrow> pt ! j = absent_entry j" by (auto simp: loading_def s)
  show ?thesis
  proof (cases "bm_free b = {}")
    case True
    then show ?thesis using l(1)
      by (simp add: load_page_def put_page_def s FindAndSet_eq handle_MemoryLimit_def Let_def)
  next
    case False
    note f = free_frame [OF l(1,2) False]
    let ?f = "Min (bm_free b)" and ?bs = "take 128 (drop (128 * i) (segment_bytes g exe))"
    show ?thesis
    proof (cases "sv + i < length pt")
      case True
      have e: "(pt ! (sv + i))\<lparr>physicalPage := int ?f, valid := True, readOnly := ro\<rparr> = present_entry (sv + i) ?f ro"
        using l(4) [OF order.refl True] by (simp add: absent_entry_def present_entry_def)
      have len: "length ?bs \<le> 128" "128 * ?f + 128 \<le> length mem" using f(3) l(3) by (simp_all add: memory_sizes)
      have bnd: "int ?f * 128 < int (length mem) - int (length ?bs) + 1" using len by linarith
      have n: "nat (int ?f * 128) = 128 * ?f" by simp
      note ov = overwrite_padded [OF len]
      have z: "length (overwrite (128 * ?f) (replicate 128 0) mem) = length mem" using len(2) by simp
      have ne: "int ?f \<noteq> - 1" by simp
      have "load_page exe g sv ro i s = Inr (True, pt[sv + i := present_entry (sv + i) ?f ro], bm_mark b ?f,
          overwrite (128 * ?f) (padded 128 ?bs) mem)"
        unfolding load_page_def s prod.case Let_def f(1) bindR_simps if_not_P [OF ne] zero_page_eq [OF f(3) l(3)] e
          read_content [OF assms(2,3)] z PageSize_def n ov
        using True bnd by simp
      then show ?thesis using False True by (simp add: put_page_def s Let_def page_content_def)
    qed (use False f(1) in \<open>simp add: load_page_def put_page_def s Let_def\<close>)
  qed
qed

lemma stack_page_eq:
  assumes "loading (sv + i) s"
  shows "stack_page sv i s = bindR (put_page (sv + i) (False, replicate 128 0) s) (\<lambda>s. Inr (True, s))"
proof -
  obtain pt b mem where s: "s = (pt, b, mem)" by (cases s)
  from assms have l: "bm_inv b" "bm_size b = 128" "length mem = nat MemorySize" by (auto simp: loading_def s)
  show ?thesis
  proof (cases "bm_free b = {}")
    case True
    then show ?thesis using l(1)
      by (simp add: stack_page_def put_page_def s FindAndSet_eq handle_MemoryLimit_def Let_def)
  next
    case False
    note f = free_frame [OF l(1,2) False]
    show ?thesis
      using False f(1) by (cases "sv + i < length pt")
        (simp_all add: stack_page_def put_page_def s Let_def zero_page_eq [OF f(3) l(3)] present_entry_def)
  qed
qed

text \<open>A loop whose rounds put one page each puts them all.\<close>

lemma while_put_pages:
  assumes "loading (sv + i) s" "\<And>j. i \<le> j \<Longrightarrow> j < i + k \<Longrightarrow> length (snd (pg j)) = 128"
    "\<And>j t. i \<le> j \<Longrightarrow> j < i + k \<Longrightarrow> loading (sv + j) t \<Longrightarrow> body j t = bindR (put_page (sv + j) (pg j) t) (\<lambda>s. Inr (True, s))"
  shows "while_ok k i body s = bindR (put_pages (sv + i) (map pg [i..<i + k]) s) (\<lambda>s. Inr (True, s))"
  using assms
proof (induction k arbitrary: i s)
  case (Suc k)
  have b: "body i s = bindR (put_page (sv + i) (pg i) s) (\<lambda>s. Inr (True, s))" using Suc.prems by simp
  have u: "[i..<i + Suc k] = i # [Suc i..<Suc i + k]" by (simp add: upt_conv_Cons)
  show ?case
  proof (cases "put_page (sv + i) (pg i) s")
    case (Inr t)
    have "loading (sv + Suc i) t" using put_page_loading [OF Suc.prems(1) Inr] Suc.prems(2) [of i] by simp
    moreover have "length (snd (pg j)) = 128" if "Suc i \<le> j" "j < Suc i + k" for j
      using Suc.prems(2) [of j] that by simp
    moreover have "body j u = bindR (put_page (sv + j) (pg j) u) (\<lambda>s. Inr (True, s))"
      if "Suc i \<le> j" "j < Suc i + k" "loading (sv + j) u" for j u using Suc.prems(3) [of j u] that by simp
    ultimately have "while_ok k (Suc i) body t
        = bindR (put_pages (sv + Suc i) (map pg [Suc i..<Suc i + k]) t) (\<lambda>s. Inr (True, s))" by (rule Suc.IH)
    then show ?thesis using b Inr unfolding u by simp
  qed (simp only: while_ok.simps b u list.map put_pages.simps bindR_simps)
qed simp

lemma put_pages_loading:
  assumes "loading k s" "put_pages k pgs s = Inr s'" "\<forall>pg\<in>set pgs. length (snd pg) = 128"
  shows "loading (k + length pgs) s'"
  using assms
proof (induction pgs arbitrary: k s)
  case (Cons pg pgs)
  from Cons.prems(2) obtain t where t: "put_page k pg s = Inr t" "put_pages (Suc k) pgs t = Inr s'"
    by (auto simp: bindR_eq_Inr)
  from put_page_loading [OF Cons.prems(1) t(1)] Cons.prems(3) have "loading (Suc k) t" by simp
  from Cons.IH [OF this t(2)] Cons.prems(3) show ?case by simp
qed simp

lemma put_pages_append: "put_pages k (pgs @ qs) s = bindR (put_pages k pgs s) (put_pages (k + length pgs) qs)"
  by (induction pgs arbitrary: k s) (auto simp: bindR_assoc intro!: bindR_cong)

lemma segment_page_count: "unat (seg_size g) < 2 ^ 31 \<Longrightarrow>
    nat (divRoundUp (sint (seg_size g)) PageSize) = segment_pages g \<and> (sint (seg_size g) > 0 \<longleftrightarrow> unat (seg_size g) \<noteq> 0)"
  using sint_small_unat [of "seg_size g"]
  by (simp only: PageSize_def divRoundUp_nat segment_pages_def nat_int of_nat_0_less_iff neq0_conv simp_thms)

lemma pages_of_content: "\<forall>pg\<in>set (pages_of ro g exe). length (snd pg) = 128"
  by (simp add: pages_of_def)

lemma length_pages_of [simp]: "length (pages_of ro g exe) = segment_pages g"
  by (simp add: pages_of_def)

lemma load_next_eq:
  assumes "loading k s" "unat (inFileAddr g) + unat (seg_size g) < 2 ^ 31"
  shows "load_next exe g ro (k, s)
     = bindR (put_pages k (pages_of ro g exe) s) (\<lambda>s. Inr (True, k + segment_pages g, s))"
proof -
  have "unat (seg_size g) < 2 ^ 31" using assms(2) by linarith
  note c = segment_page_count [OF this]
  show ?thesis
  proof (cases "unat (seg_size g) = 0")
    case True
    then show ?thesis using c by (simp add: load_next_def pages_of_def segment_pages_def)
  next
    case False
    have "LoadSegment exe g k ro s = bindR (put_pages (k + 0) (map (\<lambda>i. (ro, page_content g exe i)) [0..<0 + segment_pages g]) s)
        (\<lambda>s. Inr (True, s))"
      unfolding LoadSegment_def conjunct1 [OF c]
      by (rule while_put_pages) (use assms in \<open>simp_all add: load_page_eq\<close>)
    then have "LoadSegment exe g k ro s = bindR (put_pages k (pages_of ro g exe) s) (\<lambda>s. Inr (True, s))"
      by (simp add: pages_of_def)
    then show ?thesis using False c by (simp add: load_next_def bindR_assoc)
  qed
qed

subsection \<open>A space of loaded pages\<close>

text \<open>
  The first pages of the table are in the frames \<open>fr\<close>, taken from those free before; memory shows their
  contents there and is unchanged elsewhere.
\<close>

definition placed :: "Bitmap \<Rightarrow> byte list \<Rightarrow> nat \<Rightarrow> page list \<Rightarrow> nat list \<Rightarrow> load_state \<Rightarrow> bool" where
  "placed b0 mem0 n pgs fr = (\<lambda>(pt, b, mem).
     length fr = length pgs \<and> distinct fr \<and> set fr \<subseteq> bm_free b0 \<and> bm_free b = bm_free b0 - set fr
     \<and> length pt = n \<and> (\<forall>i<length pgs. pt ! i = present_entry i (fr ! i) (fst (pgs ! i)))
     \<and> view fr mem = concat (map snd pgs) \<and> (\<forall>p. p div 128 \<notin> set fr \<longrightarrow> mem ! p = mem0 ! p))"

lemma view_snoc: "view (fr @ [f]) mem = view fr mem @ map (\<lambda>j. mem ! (128 * f + j)) [0..<128]"
proof (rule nth_equalityI)
  fix v assume "v < length (view (fr @ [f]) mem)"
  then have v: "v < 128 * length fr + 128" by simp
  show "view (fr @ [f]) mem ! v = (view fr mem @ map (\<lambda>j. mem ! (128 * f + j)) [0..<128]) ! v"
  proof (cases "v < 128 * length fr")
    case True
    then show ?thesis using page_in_range [OF True] v by (simp add: view_def nth_append addr_of_def)
  next
    case False
    then obtain j where j: "v = 128 * length fr + j" "j < 128"
      using v by (metis le_add_diff_inverse linorder_not_less nat_add_left_cancel_less)
    then have "v div 128 = length fr" "v mod 128 = j" by simp_all
    then show ?thesis using v j by (simp add: view_def nth_append addr_of_def mult.commute)
  qed
qed simp

lemma frames_view_cong:
  assumes "\<And>p. p div 128 \<in> set fr \<Longrightarrow> mem' ! p = mem ! p"
  shows "view fr mem' = view fr mem"
proof -
  have "mem' ! addr_of fr v = mem ! addr_of fr v" if "v < 128 * length fr" for v
    using nth_mem [OF page_in_range [OF that]] by (intro assms) (simp add: addr_of_def)
  then show ?thesis by (simp add: view_def)
qed

lemma overwrite_page:
  assumes "length c = 128" "128 * f + 128 \<le> length mem"
  shows "p div 128 \<noteq> f \<Longrightarrow> overwrite (128 * f) c mem ! p = mem ! p"
    "map (\<lambda>j. overwrite (128 * f) c mem ! (128 * f + j)) [0..<128] = c"
proof -
  show "map (\<lambda>j. overwrite (128 * f) c mem ! (128 * f + j)) [0..<128] = c"
    using assms by (intro nth_equalityI) (simp_all add: nth_overwrite)
  assume "p div 128 \<noteq> f"
  then have "p < 128 * f \<or> 128 * f + 128 \<le> p" by auto
  then show "overwrite (128 * f) c mem ! p = mem ! p"
    using assms by (auto simp: overwrite_def nth_append)
qed

lemma put_page_placed:
  assumes "placed b0 mem0 n pgs fr s" "loading (length pgs) s" "put_page (length pgs) pg s = Inr s'" "length (snd pg) = 128"
  shows "\<exists>f. placed b0 mem0 n (pgs @ [pg]) (fr @ [f]) s'"
proof -
  obtain pt b mem where s: "s = (pt, b, mem)" by (cases s)
  from assms(2) have l: "bm_inv b" "bm_size b = 128" "length mem = 16384" by (auto simp: loading_def s memory_sizes)
  from assms(1) have p: "length fr = length pgs" "distinct fr" "set fr \<subseteq> bm_free b0" "bm_free b = bm_free b0 - set fr"
    "length pt = n" "\<And>i. i < length pgs \<Longrightarrow> pt ! i = present_entry i (fr ! i) (fst (pgs ! i))"
    "view fr mem = concat (map snd pgs)" "\<And>p. p div 128 \<notin> set fr \<Longrightarrow> mem ! p = mem0 ! p"
    by (auto simp: placed_def s)
  from assms(3) have ne: "bm_free b \<noteq> {}" and k: "length pgs < n" by (auto simp: put_page_def s Let_def p(5) split: if_splits)
  note f = free_frame [OF l(1,2) ne]
  let ?f = "Min (bm_free b)"
  have s': "s' = (pt[length pgs := present_entry (length pgs) ?f (fst pg)], bm_mark b ?f, overwrite (128 * ?f) (snd pg) mem)"
    using assms(3) ne k by (simp add: put_page_def s Let_def p(5))
  have new: "?f \<notin> set fr" "?f \<in> bm_free b0" using f(2) p(4) by auto
  have "128 * ?f + 128 \<le> length mem" using f(3) l(3) by simp
  note ov = overwrite_page [OF assms(4) this]
  have "view fr (overwrite (128 * ?f) (snd pg) mem) = view fr mem"
    using new(1) by (intro frames_view_cong ov(1)) auto
  then have "view (fr @ [?f]) (overwrite (128 * ?f) (snd pg) mem) = concat (map snd (pgs @ [pg]))"
    by (simp add: view_snoc ov(2) p(7))
  moreover have "overwrite (128 * ?f) (snd pg) mem ! q = mem0 ! q" if "q div 128 \<notin> set (fr @ [?f])" for q
    using that ov(1) [of q] p(8) [of q] by simp
  moreover have "pt[length pgs := present_entry (length pgs) ?f (fst pg)] ! i
      = present_entry i ((fr @ [?f]) ! i) (fst ((pgs @ [pg]) ! i))" if "i < Suc (length pgs)" for i
    using that k p(1,5,6) by (cases "i = length pgs") (simp_all add: nth_append)
  ultimately have "placed b0 mem0 n (pgs @ [pg]) (fr @ [?f]) s'"
    using p(1-5) new f(6) by (auto simp: placed_def s')
  then show ?thesis ..
qed

text \<open>How putting pages ends: with all of them in place, or at the first one without a frame or an entry.\<close>

lemma put_pages_outcome:
  assumes "placed b0 mem0 n done fr s" "loading (length done) s" "\<forall>pg\<in>set pgs. length (snd pg) = 128"
    "bm_inv b0" "length done \<le> n"
  defines "m \<equiv> length done + length pgs"
  shows "if m \<le> card (bm_free b0) \<and> m \<le> n
     then \<exists>s' fr'. put_pages (length done) pgs s = Inr s' \<and> placed b0 mem0 n (done @ pgs) fr' s' \<and> loading m s'
     else put_pages (length done) pgs s = Inl (if card (bm_free b0) \<le> n then AssertFailed else OutOfBounds)"
  using assms(1-3,5) unfolding m_def
proof (induction pgs arbitrary: "done" fr s)
  case Nil
  have "card (set fr) = length done" "set fr \<subseteq> bm_free b0"
    using Nil.prems(1) distinct_card [of fr] by (auto simp: placed_def)
  then have "length done \<le> card (bm_free b0)" using card_mono [OF finite_bm_free, of "set fr"] by metis
  then show ?case using Nil by auto
next
  case (Cons pg pgs)
  obtain pt b mem where s: "s = (pt, b, mem)" by (cases s)
  have inv: "bm_inv b" "bm_size b = 128" using Cons.prems(2) by (auto simp: loading_def s)
  have fr: "card (set fr) = length done" "set fr \<subseteq> bm_free b0" "bm_free b = bm_free b0 - set fr" "length pt = n"
    using Cons.prems(1) distinct_card [of fr] by (auto simp: placed_def s)
  have c: "card (bm_free b) = card (bm_free b0) - length done" using fr by (simp add: card_Diff_subset)
  have le: "length done \<le> card (bm_free b0)" using card_mono [OF finite_bm_free fr(2)] fr(1) by simp
  show ?case
  proof (cases "put_page (length done) pg s")
    case (Inl e)
    have "bm_free b = {} \<longleftrightarrow> card (bm_free b0) = length done" using c le by (auto simp flip: card_0_eq [OF finite_bm_free])
    with Inl have "e = (if card (bm_free b0) \<le> n then AssertFailed else OutOfBounds)"
        "card (bm_free b0) = length done \<or> n = length done"
      using le Cons.prems(4) fr(4) by (auto simp: put_page_def s Let_def split: if_splits)
    then show ?thesis using Inl by auto
  next
    case (Inr s1)
    from put_page_placed [OF Cons.prems(1,2) Inr] Cons.prems(3) obtain f where
      f: "placed b0 mem0 n (done @ [pg]) (fr @ [f]) s1" by auto
    have "loading (length (done @ [pg])) s1" using put_page_loading [OF Cons.prems(2) Inr] Cons.prems(3) by simp
    moreover have "length (done @ [pg]) \<le> n"
      using Inr fr(4) by (auto simp: put_page_def s Let_def split: if_splits)
    ultimately have "if length (done @ [pg]) + length pgs \<le> card (bm_free b0) \<and> length (done @ [pg]) + length pgs \<le> n
       then \<exists>s' fr'. put_pages (length (done @ [pg])) pgs s1 = Inr s' \<and> placed b0 mem0 n ((done @ [pg]) @ pgs) fr' s'
           \<and> loading (length (done @ [pg]) + length pgs) s'
       else put_pages (length (done @ [pg])) pgs s1 = Inl (if card (bm_free b0) \<le> n then AssertFailed else OutOfBounds)"
      using Cons.prems(3) by (intro Cons.IH [OF f]) simp_all
    moreover have "length (done @ [pg]) = Suc (length done)" "(done @ [pg]) @ pgs = done @ pg # pgs"
      "Suc (length done) + length pgs = length done + length (pg # pgs)" by simp_all
    ultimately show ?thesis by (simp only: put_pages.simps Inr bindR_simps)
  qed
qed

subsection \<open>The program in memory\<close>

text \<open>A segment fills whole pages: its bytes, as far as the file has them, and zeros.\<close>

definition segment_image :: "Segment \<Rightarrow> byte list \<Rightarrow> byte list" where
  "segment_image g exe = padded (128 * segment_pages g) (segment_bytes g exe)"

definition program_image :: "byte list \<Rightarrow> byte list" where
  "program_image exe = segment_image (code (header exe)) exe @ segment_image (initData (header exe)) exe
     @ segment_image (readonlyData (header exe)) exe @ segment_image (uninitData (header exe)) exe @ replicate 1024 0"

text \<open>Which of its pages are read-only, and how many pages it is given room for.\<close>

definition program_rights :: "byte list \<Rightarrow> bool list" where
  "program_rights exe = replicate (segment_pages (code (header exe)) + segment_pages (initData (header exe))) False
     @ replicate (segment_pages (readonlyData (header exe))) True
     @ replicate (segment_pages (uninitData (header exe)) + 8) False"

definition program_size :: "byte list \<Rightarrow> nat" where
  "program_size exe = segment_pages (code (header exe)) + segment_pages (initData (header exe))
     + segment_pages (readonlyData (header exe)) + segment_pages (uninitData (header exe)) + 8"

definition room :: "byte list \<Rightarrow> nat" where
  "room exe = (space_bytes (header exe) + 127) div 128"

text \<open>Executables whose header is not nonsense: the magic number, and sizes and positions that are in range.\<close>

definition position_ok :: "Segment \<Rightarrow> bool" where
  "position_ok g \<longleftrightarrow> unat (inFileAddr g) + unat (seg_size g) < 2 ^ 31"

definition program_ok :: "byte list \<Rightarrow> bool" where
  "program_ok exe \<longleftrightarrow> sizeof_NoffHeader \<le> length exe \<and> noffMagic (header exe) = NOFFMAGIC
     \<and> space_bytes (header exe) < 2 ^ 31 \<and> position_ok (code (header exe)) \<and> position_ok (initData (header exe))
     \<and> position_ok (readonlyData (header exe)) \<and> position_ok (uninitData (header exe))"

lemma segment_bytes_fit: "length (segment_bytes g exe) \<le> 128 * segment_pages g"
proof -
  have "length (segment_bytes g exe) \<le> unat (seg_size g)" by (simp add: segment_bytes_def)
  also have "\<dots> \<le> 128 * segment_pages g" unfolding segment_pages_def by linarith
  finally show ?thesis .
qed

lemma padded_pages:
  "length bs \<le> 128 * m \<Longrightarrow> concat (map (\<lambda>i. padded 128 (take 128 (drop (128 * i) bs))) [0..<m]) = padded (128 * m) bs"
proof (induction m arbitrary: bs)
  case (Suc m)
  let ?pg = "\<lambda>bs i. padded 128 (take 128 (drop (128 * i) bs))"
  have split: "concat (map (?pg bs) [0..<Suc m]) = concat (map (?pg bs) [0..<m]) @ ?pg bs m" by simp
  show ?case
  proof (cases "length bs \<le> 128 * m")
    case True
    then show ?thesis unfolding split Suc.IH [OF True] by (simp add: padded_def replicate_add [symmetric])
  next
    case False
    have "concat (map (?pg bs) [0..<m]) = concat (map (?pg (take (128 * m) bs)) [0..<m])"
      by (intro arg_cong [of _ _ concat] map_cong) (auto simp: drop_take min_def)
    also have "\<dots> = take (128 * m) bs" using Suc.IH [of "take (128 * m) bs"] False by (simp add: padded_def)
    finally show ?thesis using False Suc.prems unfolding split by (simp add: padded_def)
  qed
qed (simp add: padded_def)

lemma pages_of_image: "concat (map snd (pages_of ro g exe)) = segment_image g exe"
  using padded_pages [OF segment_bytes_fit, of g exe]
  by (simp add: pages_of_def page_content_def segment_image_def comp_def)

lemma program_pages_simps:
  "concat (map snd (program_pages exe)) = program_image exe" "map fst (program_pages exe) = program_rights exe"
  "length (program_pages exe) = program_size exe" "\<forall>pg\<in>set (program_pages exe). length (snd pg) = 128"
proof -
  have "concat (replicate 8 (replicate 128 (0 :: byte))) = replicate 1024 0" by (simp add: eval_nat_numeral)
  then show "concat (map snd (program_pages exe)) = program_image exe"
    by (simp add: program_pages_def program_image_def pages_of_image)
  have "map fst (pages_of ro g exe) = replicate (segment_pages g) ro" for ro g
    by (simp add: pages_of_def comp_def map_replicate_const)
  then show "map fst (program_pages exe) = program_rights exe"
    by (simp add: program_pages_def program_rights_def replicate_add)
qed (use pages_of_content in \<open>auto simp: program_pages_def program_size_def\<close>)

lemma room_le: "room exe \<le> program_size exe"
  unfolding room_def space_bytes_def program_size_def segment_pages_def by linarith

lemma LoadSegments_eq:
  assumes "program_ok exe" "loading 0 s"
  shows "LoadSegments exe (header exe) s = bindR (put_pages 0 (program_pages exe) s) (\<lambda>s. Inr (True, s))"
proof -
  let ?h = "header exe"
  have pos: "unat (inFileAddr (code ?h)) + unat (seg_size (code ?h)) < 2 ^ 31"
    "unat (inFileAddr (initData ?h)) + unat (seg_size (initData ?h)) < 2 ^ 31"
    "unat (inFileAddr (readonlyData ?h)) + unat (seg_size (readonlyData ?h)) < 2 ^ 31"
    "unat (inFileAddr (uninitData ?h)) + unat (seg_size (uninitData ?h)) < 2 ^ 31"
    using assms(1) unfolding program_ok_def position_ok_def by blast+
  have next_seg: "bindR (load_next exe g ro (k, s)) rest
      = bindR (put_pages k (pages_of ro g exe) s) (\<lambda>s. rest (True, k + segment_pages g, s))"
    if "loading k s" "unat (inFileAddr g) + unat (seg_size g) < 2 ^ 31" for g ro k s
      and rest :: "bool \<times> nat \<times> load_state \<Rightarrow> (bool \<times> load_state) res"
    by (simp add: load_next_eq [OF that] bindR_assoc)
  have bind: "bindR (put_pages k (pages_of ro g exe) s) f = bindR (put_pages k (pages_of ro g exe) s) f'"
    if "loading k s" "\<And>t. loading (k + segment_pages g) t \<Longrightarrow> f t = f' t" for g ro k s
      and f f' :: "load_state \<Rightarrow> (bool \<times> load_state) res"
    using put_pages_loading [OF that(1) _ pages_of_content] that(2) by (intro bindR_cong) auto
  have stack: "while_ok (nat (divRoundUp UserStackSize PageSize)) 0 (stack_page k) s
      = bindR (put_pages k (replicate 8 (False, replicate 128 0)) s) (\<lambda>s. Inr (True, s))" if "loading k s" for k s
  proof -
    have "nat (divRoundUp UserStackSize PageSize) = 8" by (simp add: UserStackSize_def PageSize_def divRoundUp_def)
    moreover have "while_ok 8 0 (stack_page k) s
        = bindR (put_pages (k + 0) (map (\<lambda>_. (False, replicate 128 0)) [0..<0 + 8]) s) (\<lambda>s. Inr (True, s))"
      by (rule while_put_pages) (use that in \<open>simp_all add: stack_page_eq\<close>)
    ultimately show ?thesis by (simp add: map_replicate_const)
  qed
  note join = put_pages_append bindR_assoc length_pages_of
  show ?thesis
    unfolding LoadSegments_def program_pages_def next_seg [OF assms(2) pos(1)] join
    apply (simp only: prod.case not_True_eq_False if_False add_0)
    apply (rule bind [OF assms(2)])
    apply (simp only: next_seg [OF _ pos(2)] prod.case not_True_eq_False if_False add_0)
    apply (rule bind, assumption)
    apply (simp only: next_seg [OF _ pos(3)] prod.case not_True_eq_False if_False)
    apply (rule bind, assumption)
    apply (simp only: next_seg [OF _ pos(4)] prod.case not_True_eq_False if_False)
    apply (rule bind, assumption)
    apply (simp only: stack prod.case not_True_eq_False if_False)
    done
qed

lemma room_eq: "program_ok exe \<Longrightarrow> address_space_size (header exe) = Inr (int (space_bytes (header exe)))"
  by (simp add: program_ok_def address_space_size_eq)

lemma space_Load_pages:
  assumes "program_ok exe" "bm_inv b" "bm_size b = 128" "length mem = nat MemorySize"
  shows "space_Load (Some exe) s b mem
     = bindR (put_pages 0 (program_pages exe) (map absent_entry [0..<room exe], b, mem))
        (\<lambda>(pt, b, mem). Inr (True, \<lparr>spaceTable = pt, numPages = int (room exe)\<rparr>, b, mem))"
proof -
  have h: "fetch_header exe = Inr (header exe)" "noffMagic (header exe) = NOFFMAGIC"
    using assms(1) by (simp_all add: program_ok_def fetch_header_eq)
  have "divRoundUp (int (space_bytes (header exe))) PageSize = int (room exe)"
    by (simp add: PageSize_def divRoundUp_nat room_def)
  moreover have "loading 0 (map absent_entry [0..<room exe], b, mem)" using assms(2-4) by (simp add: loading_def)
  ultimately show ?thesis
    using h by (simp add: space_Load_def room_eq [OF assms(1)] LoadSegments_eq [OF assms(1)] bindR_assoc)
qed

lemma placed_maps:
  assumes "placed b0 mem0 n pgs fr (pt, b, mem)" "length pgs = n" "bm_size b0 = 128"
  shows "maps_to \<lparr>spaceTable = pt, numPages = int n\<rparr> fr" "map readOnly pt = map fst pgs"
proof -
  have "set fr \<subseteq> {..<128}" using assms(1,3) by (auto simp: placed_def dest!: subsetD bm_free_bounded)
  then show "maps_to \<lparr>spaceTable = pt, numPages = int n\<rparr> fr"
    using assms(1,2) by (auto simp: placed_def maps_to_def present_entry_def NumPhysPages_def)
  show "map readOnly pt = map fst pgs"
    using assms(1,2) by (intro nth_equalityI) (auto simp: placed_def present_entry_def)
qed

text \<open>A program in the frames \<open>fr\<close> of a memory, and what loading it leads to.\<close>

definition space_shows :: "AddrSpace \<Rightarrow> nat list \<Rightarrow> byte list \<Rightarrow> bool list \<Rightarrow> byte list \<Rightarrow> bool" where
  "space_shows s fr img rights mem \<longleftrightarrow> maps_to s fr \<and> map readOnly (spaceTable s) = rights
     \<and> length mem = nat MemorySize \<and> view fr mem = img"

lemma space_Load_eq:
  assumes "program_ok exe" "bm_inv b" "bm_size b = 128" "length mem = nat MemorySize"
  shows "if program_size exe \<le> card (bm_free b) \<and> program_size exe = room exe
     then \<exists>s fr b' mem'. space_Load (Some exe) s0 b mem = Inr (True, s, b', mem')
        \<and> space_shows s fr (program_image exe) (program_rights exe) mem' \<and> set fr \<subseteq> bm_free b \<and> length fr = program_size exe
        \<and> bm_inv b' \<and> bm_size b' = 128 \<and> bm_free b' = bm_free b - set fr
        \<and> (\<forall>p. p div 128 \<notin> set fr \<longrightarrow> mem' ! p = mem ! p)
     else space_Load (Some exe) s0 b mem = Inl (if card (bm_free b) \<le> room exe then AssertFailed else OutOfBounds)"
proof -
  let ?st = "(map absent_entry [0..<room exe], b, mem)"
  have pl: "placed b mem (room exe) [] [] ?st" by (simp add: placed_def view_def)
  have l: "loading (length ([] :: page list)) ?st" using assms(2-4) by (simp add: loading_def)
  have o: "if program_size exe \<le> card (bm_free b) \<and> program_size exe \<le> room exe
     then \<exists>s' fr. put_pages 0 (program_pages exe) ?st = Inr s' \<and> placed b mem (room exe) (program_pages exe) fr s'
        \<and> loading (program_size exe) s'
     else put_pages 0 (program_pages exe) ?st = Inl (if card (bm_free b) \<le> room exe then AssertFailed else OutOfBounds)"
    using put_pages_outcome [OF pl l program_pages_simps(4) assms(2)]
    unfolding list.size(3) program_pages_simps(3) add_0 append_Nil by blast
  show ?thesis
  proof (cases "program_size exe \<le> card (bm_free b) \<and> program_size exe = room exe")
    case True
    with o obtain pt b' mem' fr where r: "put_pages 0 (program_pages exe) ?st = Inr (pt, b', mem')"
      "placed b mem (room exe) (program_pages exe) fr (pt, b', mem')" "loading (program_size exe) (pt, b', mem')" by auto
    have n: "length (program_pages exe) = room exe" using True by (simp add: program_pages_simps)
    note m = placed_maps [OF r(2) n assms(3)]
    have "length fr = program_size exe" using r(2) by (simp add: placed_def program_pages_simps)
    with True m r show ?thesis
      by (simp add: space_Load_pages [OF assms] space_shows_def program_pages_simps placed_def loading_def) blast
  next
    case False
    then have "\<not> (program_size exe \<le> card (bm_free b) \<and> program_size exe \<le> room exe)" using room_le [of exe] by auto
    with o False show ?thesis by (simp add: space_Load_pages [OF assms])
  qed
qed

subsection \<open>Properties\<close>

text \<open>Two programs: one that fills whole pages, one whose code and data leave room on their last pages.\<close>

definition ragged_exe :: "byte list" where
  "ragged_exe = [0xad, 0xdf, 0xba, 0, 0, 0, 0, 0, 52, 0, 0, 0, 4, 0, 0, 0, 128, 0, 0, 0, 56, 0, 0, 0, 4, 0, 0, 0]
     @ replicate 24 0 @ [1, 2, 3, 4, 5, 6, 7, 8]"

lemma ragged_header:
  "header ragged_exe = \<lparr>noffMagic = NOFFMAGIC, code = \<lparr>virtualAddr = 0, inFileAddr = 52, seg_size = 4\<rparr>,
     initData = \<lparr>virtualAddr = 128, inFileAddr = 56, seg_size = 4\<rparr>, readonlyData = \<lparr>virtualAddr = 0, inFileAddr = 0, seg_size = 0\<rparr>,
     uninitData = \<lparr>virtualAddr = 0, inFileAddr = 0, seg_size = 0\<rparr>\<rparr>"
  by code_simp

lemma sample_programs:
  "program_ok sample_exe" "program_size sample_exe = 9" "room sample_exe = 9"
  "program_ok ragged_exe" "program_size ragged_exe = 10" "room ragged_exe = 9"
  unfolding program_ok_def program_size_def room_def ragged_header sample_header
  by (simp_all add: position_ok_def segment_pages_def space_bytes_def sizeof_NoffHeader_def)
     (simp_all add: sample_exe_def ragged_exe_def)

text \<open>
  C15: loading succeeds exactly if enough frames are free and the segments, each rounded up to whole
  pages, need no more pages than all sizes together. Then the program has frames of its own, its virtual
  memory is the page-aligned sequence of its segments (as far as the file has them) and a zeroed stack,
  whatever virtual addresses its header asks for, only the read-only data is write-protected, and no other frame is touched.
  Otherwise the kernel aborts for want of a frame or stores a page table entry behind the table's end.
\<close>

theorem Load_lays_out:
  assumes "program_ok exe" "bm_inv b" "bm_size b = 128" "length mem = nat MemorySize"
  shows "if program_size exe \<le> card (bm_free b) \<and> program_size exe = room exe
     then \<exists>s fr b' mem'. space_Load (Some exe) AddrSpace_new b mem = Inr (True, s, b', mem')
        \<and> maps_to s fr \<and> map readOnly (spaceTable s) = program_rights exe
        \<and> set fr \<subseteq> bm_free b \<and> length fr = program_size exe \<and> bm_free b' = bm_free b - set fr
        \<and> view fr mem' = program_image exe \<and> (\<forall>p. p div 128 \<notin> set fr \<longrightarrow> mem' ! p = mem ! p)
     else space_Load (Some exe) AddrSpace_new b mem = Inl (if card (bm_free b) \<le> room exe then AssertFailed else OutOfBounds)"
  using space_Load_eq [OF assms, of AddrSpace_new] unfolding space_shows_def by (auto split: if_splits)

lemma sample_image: "program_image sample_exe = [1, 2, 3, 4] @ replicate 1148 0"
proof -
  have b: "segment_bytes (code (header sample_exe)) sample_exe = [1, 2, 3, 4]"
    unfolding sample_header by (simp add: segment_bytes_def) (simp add: sample_exe_def)
  have "segment_pages (code (header sample_exe)) = 1" "segment_pages (initData (header sample_exe)) = 0"
    "segment_pages (readonlyData (header sample_exe)) = 0" "segment_pages (uninitData (header sample_exe)) = 0"
    unfolding sample_header by (simp_all add: segment_pages_def)
  moreover from this have "segment_bytes (initData (header sample_exe)) sample_exe = []"
    "segment_bytes (readonlyData (header sample_exe)) sample_exe = []"
    "segment_bytes (uninitData (header sample_exe)) sample_exe = []"
    by (metis le_zero_eq length_0_conv mult_0_right segment_bytes_fit)+
  ultimately show ?thesis
    by (simp add: program_image_def segment_image_def padded_def b replicate_add [symmetric])
qed

lemma Load_lays_out_witness:
  "(\<exists>s fr b' mem'. space_Load (Some sample_exe) AddrSpace_new (clear_map 4) (replicate 16384 7) = Inr (True, s, b', mem')
      \<and> maps_to s fr \<and> length fr = 9 \<and> view fr mem' = [1, 2, 3, 4] @ replicate 1148 0)
   \<and> space_Load (Some ragged_exe) AddrSpace_new (clear_map 4) (replicate 16384 7) = Inl OutOfBounds"
proof -
  have map: "bm_inv (clear_map 4)" "bm_size (clear_map 4) = 128" "card (bm_free (clear_map 4)) = 128"
    "length (replicate 16384 (7 :: byte)) = nat MemorySize" by (simp_all add: clear_map_ok memory_sizes)
  note l = Load_lays_out [OF _ map(1,2,4)]
  from l [OF sample_programs(1)] l [OF sample_programs(4)] show ?thesis
    unfolding sample_programs map(3) sample_image by (auto split: if_splits)
qed

end
