(* ===== verification/Processes.thy ===== *)
theory Processes
  imports Paging
begin

text \<open>
  The user programs of the second assignment together: \<^verbatim>\<open>Kernel::Exec\<close> with \<^verbatim>\<open>ForkExecute\<close> starts a
  program in an address space of its own, the context switch (\<^verbatim>\<open>RestoreState\<close>) points the machine at the page
  table of the program that runs, the program reads and writes memory through the machine, and the
  destructor of its space ends it. The theory proves that this system refines a specification without any
  paging, in which every program has a private memory: loading, translation, the bitmap of frames and the destructor
  together keep the programs apart in every sequence of these operations.
\<close>

subsection \<open>The system\<close>

text \<open>
  The address spaces in the order they were made (\<open>None\<close> once deleted), the number of the next thread,
  \<^verbatim>\<open>available_frame\<close>, the machine. The kernel's array \<^verbatim>\<open>t\<close> has room for ten threads; the thread of
  \<^verbatim>\<open>main\<close> has number 0, so the space at position \<open>i\<close> belongs to thread \<open>i + 1\<close>.
\<close>

definition max_threads :: nat where "max_threads = 10"

record world =
  spaces :: "AddrSpace option list"
  threadNum :: nat
  available_frame :: Bitmap
  cpu :: "unit cpu"

datatype event = Exec "byte list option" | Fetch nat "32 word" int | Store nat "32 word" int "32 word" | Delete nat

text \<open>The exception handler for all that is not a system call: an error message, then \<^verbatim>\<open>ASSERTNOTREACHED\<close>.\<close>

definition unexpected_exception :: "unit exception_handler" where
  "unexpected_exception e m = Inl AssertFailed"

text \<open>
  \<^verbatim>\<open>Kernel::Exec\<close> enters a new thread with an empty space into the array, which has no check of its bound, and returns
  its number. The thread it forks starts with \<^verbatim>\<open>ForkExecute\<close>, which loads the program; what comes after a
  successful \<^verbatim>\<open>Load\<close> is the program's own run.
\<close>

definition Kernel_Exec :: "world \<Rightarrow> (nat \<times> world) res" where
  "Kernel_Exec w =
     (if max_threads \<le> threadNum w then Inl OutOfBounds
      else Inr (threadNum w, w\<lparr>spaces := spaces w @ [Some AddrSpace_new], threadNum := threadNum w + 1\<rparr>))"

definition ForkExecute :: "nat \<Rightarrow> byte list option \<Rightarrow> world \<Rightarrow> world res" where
  "ForkExecute i executable w =
     (if length (spaces w) \<le> i then Inl OutOfBounds
      else case spaces w ! i of None \<Rightarrow> Inl UseAfterFree
      | Some s \<Rightarrow> bindR (space_Load executable s (available_frame w) (mainMemory (dev (cpu w)))) (\<lambda>(ok, s, b, mem).
          Inr (w\<lparr>spaces := (spaces w)[i := Some s], available_frame := b,
                 cpu := (cpu w)\<lparr>dev := (dev (cpu w))\<lparr>mainMemory := mem\<rparr>\<rparr>\<rparr>)))"

text \<open>
  An access of the \<open>i\<close>th program, after the switch to it. The machine's table is the space's own
  array, so that the use and dirty bits it sets are set in the space.
\<close>

definition running :: "nat \<Rightarrow> (unit cpu \<Rightarrow> ('a \<times> unit cpu) res) \<Rightarrow> world \<Rightarrow> ('a \<times> world) res" where
  "running i access w =
     (if length (spaces w) \<le> i then Inl OutOfBounds
      else case spaces w ! i of None \<Rightarrow> Inl UseAfterFree
      | Some s \<Rightarrow> bindR (access (space_RestoreState s (cpu w))) (\<lambda>(x, m).
          case pageTable (dev m) of None \<Rightarrow> Inl NullPointer
          | Some pt \<Rightarrow> Inr (x, w\<lparr>spaces := (spaces w)[i := Some (s\<lparr>spaceTable := pt\<rparr>)], cpu := m\<rparr>)))"

definition delete_space :: "nat \<Rightarrow> world \<Rightarrow> world res" where
  "delete_space i w =
     (if length (spaces w) \<le> i then Inl OutOfBounds
      else case spaces w ! i of None \<Rightarrow> Inl UseAfterFree
      | Some s \<Rightarrow> bindR (AddrSpace_delete s (available_frame w)) (\<lambda>b.
          Inr (w\<lparr>spaces := (spaces w)[i := None], available_frame := b\<rparr>)))"

fun perform :: "event \<Rightarrow> world \<Rightarrow> (32 word option \<times> world) res" where
  "perform (Exec executable) w =
     bindR (Kernel_Exec w) (\<lambda>(n, w). bindR (ForkExecute (n - 1) executable w) (\<lambda>w. Inr (Some (of_nat n), w)))"
| "perform (Fetch i va sz) w = running i (Machine_ReadMem unexpected_exception va sz) w"
| "perform (Store i va sz v) w =
     bindR (running i (Machine_WriteMem unexpected_exception va sz v) w) (\<lambda>(_, w). Inr (None, w))"
| "perform (Delete i) w = bindR (delete_space i w) (\<lambda>w. Inr (None, w))"

fun performs :: "event list \<Rightarrow> world \<Rightarrow> (32 word option list \<times> world) res" where
  "performs [] w = Inr ([], w)"
| "performs (e # es) w =
     bindR (perform e w) (\<lambda>(x, w). bindR (performs es w) (\<lambda>(xs, w). Inr (x # xs, w)))"

definition world_new :: world where
  "world_new = \<lparr>spaces = [], threadNum = 1, available_frame = clear_map 4, cpu = Interrupt_new (Machine_new ())\<rparr>"

subsection \<open>The specification: private memories\<close>

text \<open>
  A program's memory with the rights of its pages, and how many frames are left. Nine programs can be started
  (and those that ended count), each if enough frames are left.
\<close>

record private_world =
  memories :: "(byte list \<times> bool list) option list"
  frames_left :: nat

definition private_new :: private_world where
  "private_new = \<lparr>memories = [], frames_left = 128\<rparr>"

definition lookup_memory :: "nat \<Rightarrow> private_world \<Rightarrow> (byte list \<times> bool list) option" where
  "lookup_memory i a = (if i < length (memories a) then memories a ! i else None)"

definition reachable_at :: "32 word \<Rightarrow> int \<Rightarrow> byte list \<Rightarrow> bool" where
  "reachable_at va sz mem \<longleftrightarrow> uint va mod sz = 0 \<and> unat va < length mem"

fun private_step :: "event \<Rightarrow> private_world \<Rightarrow> (32 word option \<times> private_world) option" where
  "private_step (Exec None) a =
     (if length (memories a) < 9
      then Some (Some (of_nat (length (memories a) + 1)), a\<lparr>memories := memories a @ [Some ([], [])]\<rparr>) else None)"
| "private_step (Exec (Some exe)) a =
     (if length (memories a) < 9 \<and> program_size exe \<le> frames_left a \<and> program_size exe = room exe
      then Some (Some (of_nat (length (memories a) + 1)), \<lparr>memories = memories a @ [Some (program_image exe, program_rights exe)],
                        frames_left = frames_left a - program_size exe\<rparr>)
      else None)"
| "private_step (Fetch i va sz) a = (case lookup_memory i a of None \<Rightarrow> None
     | Some (mem, rights) \<Rightarrow>
         if reachable_at va sz mem then Some (Some (load_bytes sz (take (nat sz) (drop (unat va) mem))), a) else None)"
| "private_step (Store i va sz v) a = (case lookup_memory i a of None \<Rightarrow> None
     | Some (mem, rights) \<Rightarrow>
         if reachable_at va sz mem \<and> \<not> rights ! (unat va div 128)
         then Some (None, a\<lparr>memories := (memories a)[i := Some (overwrite (unat va) (machine_bytes sz v) mem, rights)]\<rparr>)
         else None)"
| "private_step (Delete i) a = (case lookup_memory i a of None \<Rightarrow> None
     | Some (mem, rights) \<Rightarrow>
         Some (None, \<lparr>memories = (memories a)[i := None], frames_left = frames_left a + length rights\<rparr>))"

fun private_run :: "event list \<Rightarrow> private_world \<Rightarrow> (32 word option list \<times> private_world) option" where
  "private_run [] a = Some ([], a)"
| "private_run (e # es) a = (case private_step e a of None \<Rightarrow> None
     | Some (x, a) \<Rightarrow> (case private_run es a of None \<Rightarrow> None | Some (xs, a) \<Rightarrow> Some (x # xs, a)))"

fun event_ok :: "event \<Rightarrow> bool" where
  "event_ok (Exec None) \<longleftrightarrow> True"
| "event_ok (Exec (Some exe)) \<longleftrightarrow> program_ok exe"
| "event_ok (Fetch i va sz) \<longleftrightarrow> sz \<in> {1, 2, 4}"
| "event_ok (Store i va sz v) \<longleftrightarrow> sz \<in> {1, 2, 4}"
| "event_ok (Delete i) \<longleftrightarrow> True"

subsection \<open>An access through the page table\<close>

lemma uint_page: "uint va div 128 = int (unat va div 128)" "uint va mod 128 = int (unat va mod 128)"
  unfolding zdiv_int zmod_int uint_nat by simp_all

lemma aligned_room:
  fixes va :: "32 word"
  assumes "uint va mod sz = 0" "sz \<in> {1, 2, 4}"
  shows "unat va mod 128 + nat sz \<le> 128"
proof -
  have "uint va mod 128 + sz \<le> 128"
    using offset_room(2) [of va sz] assms by (simp add: aligned_def PageSize_def)
  then have "int (unat va mod 128) + sz \<le> 128" unfolding uint_page .
  moreover have "sz = int (nat sz)" using assms(2) by auto
  ultimately show ?thesis by linarith
qed

lemma page_of_unat: "page_of va = unat va div 128"
  unfolding page_of_def PageSize_def uint_page by simp

lemma RestoreState_table: "maps_to s fr \<Longrightarrow> space_RestoreState s m = with_table (spaceTable s) m"
  by (simp add: space_RestoreState_def with_table_def maps_to_def)

lemma maps_access:
  assumes "maps_to s fr"
  shows "accessible (spaceTable s) va sz w \<longleftrightarrow> uint va mod sz = 0 \<and> unat va < 128 * length fr
      \<and> \<not> (readOnly (spaceTable s ! (unat va div 128)) \<and> w)"
    "unat va < 128 * length fr \<Longrightarrow> phys (spaceTable s) va = int (addr_of fr (unat va))"
proof -
  let ?p = "unat va div 128"
  have in_range: "?p < length fr \<longleftrightarrow> unat va < 128 * length fr" by (simp add: less_mult_imp_div_less div_less_iff_less_mult mult.commute)
  have f: "frame (spaceTable s ! ?p) = int (fr ! ?p)" "frame (spaceTable s ! ?p) < NumPhysPages" "valid (spaceTable s ! ?p)"
    if "?p < length fr"
  proof -
    have "fr ! ?p \<in> {..<128}" using assms nth_mem [OF that] by (auto simp: maps_to_def NumPhysPages_def)
    then have "int (fr ! ?p) < 128" by simp
    moreover have "int (fr ! ?p) mod 2 ^ 32 = int (fr ! ?p)" by (rule mod_pos_pos_trivial) (use calculation in simp_all)
    ultimately show "frame (spaceTable s ! ?p) = int (fr ! ?p)" "frame (spaceTable s ! ?p) < NumPhysPages"
      "valid (spaceTable s ! ?p)" using assms that by (simp_all only: maps_to_def frame_def NumPhysPages_def)
  qed
  show "accessible (spaceTable s) va sz w \<longleftrightarrow> uint va mod sz = 0 \<and> unat va < 128 * length fr
      \<and> \<not> (readOnly (spaceTable s ! ?p) \<and> w)"
    using f assms unfolding in_range [symmetric] by (auto simp: accessible_def aligned_def page_of_unat maps_to_def)
  assume "unat va < 128 * length fr"
  then have "?p < length fr" using in_range by simp
  then show "phys (spaceTable s) va = int (addr_of fr (unat va))"
    using f unfolding phys_def page_of_unat PageSize_def uint_page by (simp add: addr_of_def)
qed

text \<open>Bytes inside one page lie next to each other in its frame.\<close>

lemma addr_of_page: "v mod 128 + j < 128 \<Longrightarrow> addr_of fr (v + j) = addr_of fr v + j"
proof -
  assume a: "v mod 128 + j < 128"
  have "v + j = 128 * (v div 128) + (v mod 128 + j)" by simp
  then have "(v + j) div 128 = v div 128" "(v + j) mod 128 = v mod 128 + j" using a by (metis add.commute div_mult_self1_is_m div_mult_self2 mod_less mod_mult_self2 zero_neq_numeral div_less add.right_neutral add_0)+
  then show ?thesis by (simp add: addr_of_def)
qed

lemma same_page_room: "v < 128 * k \<Longrightarrow> v mod 128 + n \<le> 128 \<Longrightarrow> v + n \<le> 128 * k" for v k n :: nat
proof -
  assume a: "v < 128 * k" "v mod 128 + n \<le> 128"
  have "v div 128 < k" using page_in_range [OF a(1)] .
  then have "128 * (v div 128) + 128 \<le> 128 * k" by simp
  moreover have "v = 128 * (v div 128) + v mod 128" by simp
  ultimately show ?thesis using a(2) by linarith
qed

lemma view_read:
  assumes "set fr \<subseteq> {..<nat NumPhysPages}" "length mem = nat MemorySize" "v < 128 * length fr" "v mod 128 + n \<le> 128"
  shows "take n (drop (addr_of fr v) mem) = take n (drop v (view fr mem))"
proof (rule nth_equalityI)
  have room: "addr_of fr v + n \<le> nat MemorySize"
  proof -
    have "fr ! (v div 128) \<in> {..<nat NumPhysPages}" using assms(1) nth_mem [OF page_in_range [OF assms(3)]] by blast
    then show ?thesis using assms(4) by (simp add: addr_of_def NumPhysPages_def MemorySize_def PageSize_def)
  qed
  have v: "v + n \<le> 128 * length fr" by (rule same_page_room [OF assms(3,4)])
  then show "length (take n (drop (addr_of fr v) mem)) = length (take n (drop v (view fr mem)))" using room assms(2) by simp
  fix j assume "j < length (take n (drop (addr_of fr v) mem))"
  then have j: "j < n" by simp
  then have "addr_of fr (v + j) = addr_of fr v + j" using assms(4) by (intro addr_of_page) simp
  then show "take n (drop (addr_of fr v) mem) ! j = take n (drop v (view fr mem)) ! j"
    using j v room assms(2) by (simp add: view_def)
qed

lemma view_write:
  assumes "distinct fr" "set fr \<subseteq> {..<nat NumPhysPages}" "length mem = nat MemorySize" "v < 128 * length fr"
    "v mod 128 + length bs \<le> 128"
  shows "view fr (overwrite (addr_of fr v) bs mem) = overwrite v bs (view fr mem)"
    "length (overwrite (addr_of fr v) bs mem) = nat MemorySize"
    "p div 128 \<notin> set fr \<Longrightarrow> overwrite (addr_of fr v) bs mem ! p = mem ! p"
proof -
  have "view fr (overwrite (addr_of fr v) bs mem) = overwrite v bs (view fr mem)
     \<and> length (overwrite (addr_of fr v) bs mem) = nat MemorySize
     \<and> (\<forall>p. p div 128 \<notin> set fr \<longrightarrow> overwrite (addr_of fr v) bs mem ! p = mem ! p)"
    using assms(5)
  proof (induction bs rule: rev_induct)
    case Nil
    have "addr_of fr v \<le> length mem" using addr_of_bound(1) [OF assms(2,4)] assms(3) by simp
    then show ?case using assms(3,4) by simp
  next
    case (snoc x bs)
    let ?m = "overwrite (addr_of fr v) bs mem" and ?w = "v + length bs"
    from snoc.prems have l: "v mod 128 + length bs \<le> 128" "v mod 128 + length bs < 128" "v mod 128 + Suc (length bs) \<le> 128" by simp_all
    from snoc.IH l have IH: "view fr ?m = overwrite v bs (view fr mem)" "length ?m = nat MemorySize"
      "\<And>p. p div 128 \<notin> set fr \<Longrightarrow> ?m ! p = mem ! p" by simp_all
    have w: "?w < 128 * length fr" using same_page_room [OF assms(4) l(3)] by simp
    have a: "addr_of fr ?w = addr_of fr v + length bs" by (rule addr_of_page [OF l(2)])
    note b = addr_of_bound [OF assms(2) w]
    have e: "overwrite (addr_of fr v) (bs @ [x]) mem = ?m[addr_of fr ?w := x]"
      unfolding a by (rule overwrite_snoc) (use b a assms(3) in simp)
    have "overwrite v (bs @ [x]) (view fr mem) = (overwrite v bs (view fr mem))[?w := x]"
      by (rule overwrite_snoc) (use w in simp)
    moreover have "?m[addr_of fr ?w := x] ! p = ?m ! p" if "p div 128 \<notin> set fr" for p
      using that b(2) by (metis nth_list_update_neq)
    ultimately show ?case
      using IH view_update [OF assms(1,2) w IH(2)] unfolding e by simp
  qed
  then show "view fr (overwrite (addr_of fr v) bs mem) = overwrite v bs (view fr mem)"
    "length (overwrite (addr_of fr v) bs mem) = nat MemorySize"
    "p div 128 \<notin> set fr \<Longrightarrow> overwrite (addr_of fr v) bs mem ! p = mem ! p" by blast+
qed

lemma maps_touched:
  assumes "maps_to s fr"
  shows "maps_to (s\<lparr>spaceTable := touched (spaceTable s) va w\<rparr>) fr"
    "map readOnly (touched (spaceTable s) va w) = map readOnly (spaceTable s)"
  using assms by (auto simp: maps_to_def touched_def nth_update intro!: nth_equalityI split: if_splits)

lemma aborting_exception: "\<exists>e'. bindR (Machine_RaiseException unexpected_exception e va m) f = Inl e'"
proof (cases "Machine_DelayedLoad 0 0 (set_reg BadVAddrReg va m)")
qed (simp_all add: Machine_RaiseException_def unexpected_exception_def)

subsection \<open>The refinement\<close>

text \<open>
  The \<open>i\<close>th space shows the \<open>i\<close>th private memory in its frames \<open>frs ! i\<close>; no two spaces share a
  frame, and the frames of none are free.
\<close>

definition shows_memory :: "AddrSpace option \<Rightarrow> nat list \<Rightarrow> (byte list \<times> bool list) option \<Rightarrow> byte list \<Rightarrow> bool" where
  "shows_memory s fr a mem = (case (s, a) of (None, None) \<Rightarrow> fr = []
     | (Some s, Some (img, rights)) \<Rightarrow> space_shows s fr img rights mem | _ \<Rightarrow> False)"

definition keeps_apart :: "nat list list \<Rightarrow> bool" where
  "keeps_apart frs \<longleftrightarrow> (\<forall>i<length frs. \<forall>j<length frs. i \<noteq> j \<longrightarrow> set (frs ! i) \<inter> set (frs ! j) = {})"

definition represents :: "nat list list \<Rightarrow> world \<Rightarrow> private_world \<Rightarrow> bool" where
  "represents frs w a \<longleftrightarrow> length (spaces w) = length frs \<and> length (memories a) = length frs
     \<and> (\<forall>i<length frs. shows_memory (spaces w ! i) (frs ! i) (memories a ! i) (mainMemory (dev (cpu w))))
     \<and> threadNum w = length frs + 1
     \<and> keeps_apart frs \<and> (\<forall>fr\<in>set frs. set fr \<inter> bm_free (available_frame w) = {})
     \<and> bm_inv (available_frame w) \<and> bm_size (available_frame w) = 128
     \<and> frames_left a = card (bm_free (available_frame w))
     \<and> tlb (dev (cpu w)) = None \<and> length (mainMemory (dev (cpu w))) = nat MemorySize"

lemma shows_memory_cong:
  assumes "shows_memory s fr a mem" "length mem' = length mem" "\<And>p. p div 128 \<in> set fr \<Longrightarrow> mem' ! p = mem ! p"
  shows "shows_memory s fr a mem'"
  using assms frames_view_cong [of fr mem' mem] by (auto simp: shows_memory_def space_shows_def split: option.splits)

lemma keeps_apart_snoc:
  "keeps_apart frs \<Longrightarrow> (\<And>fr'. fr' \<in> set frs \<Longrightarrow> set fr' \<inter> set fr = {}) \<Longrightarrow> keeps_apart (frs @ [fr])"
  unfolding keeps_apart_def by (auto simp: nth_append less_Suc_eq disjoint_iff) (metis nth_mem)+

lemma keeps_apart_update: "keeps_apart frs \<Longrightarrow> keeps_apart (frs[i := []])"
  unfolding keeps_apart_def by (simp add: nth_update)

lemma represents_new: "represents [] world_new private_new"
  by (simp add: represents_def world_new_def private_new_def keeps_apart_def clear_map_ok Interrupt_new_def Machine_new_def)

text \<open>Loading another program.\<close>

lemma represents_load:
  assumes "represents frs w a" "shows_memory (Some s) fr (Some (img, rights)) mem" "set fr \<subseteq> bm_free (available_frame w)"
    "bm_inv b" "bm_size b = 128" "bm_free b = bm_free (available_frame w) - set fr"
    "\<And>p. p div 128 \<notin> set fr \<Longrightarrow> mem ! p = mainMemory (dev (cpu w)) ! p"
  shows "represents (frs @ [fr])
     (w\<lparr>spaces := spaces w @ [Some s], threadNum := threadNum w + 1, available_frame := b,
        cpu := (cpu w)\<lparr>dev := (dev (cpu w))\<lparr>mainMemory := mem\<rparr>\<rparr>\<rparr>)
     \<lparr>memories = memories a @ [Some (img, rights)], frames_left = frames_left a - length fr\<rparr>"
proof -
  let ?m = "mainMemory (dev (cpu w))"
  have r: "length (spaces w) = length frs" "length (memories a) = length frs"
    "\<And>i. i < length frs \<Longrightarrow> shows_memory (spaces w ! i) (frs ! i) (memories a ! i) ?m" "keeps_apart frs"
    "\<And>fr. fr \<in> set frs \<Longrightarrow> set fr \<inter> bm_free (available_frame w) = {}" "length ?m = nat MemorySize"
    "frames_left a = card (bm_free (available_frame w))"
    using assms(1) by (auto simp: represents_def)
  have len: "length mem = nat MemorySize" and d: "distinct fr"
    using assms(2) by (auto simp: shows_memory_def space_shows_def maps_to_def)
  have disj: "set fr' \<inter> set fr = {}" if "fr' \<in> set frs" for fr' using r(5) [OF that] assms(3) by blast
  have "shows_memory (spaces w ! i) (frs ! i) (memories a ! i) mem" if "i < length frs" for i
    by (rule shows_memory_cong [OF r(3) [OF that]]) (use len r(6) disj [OF nth_mem [OF that]] assms(7) in auto)
  moreover have "card (bm_free b) = frames_left a - length fr"
    using assms(3,6) r(7) distinct_card [OF d] by (simp add: card_Diff_subset)
  moreover have "keeps_apart (frs @ [fr])" by (rule keeps_apart_snoc [OF r(4) disj])
  moreover have "set fr' \<inter> bm_free b = {}" if "fr' \<in> set (frs @ [fr])" for fr'
    using that r(5) [of fr'] assms(6) by auto
  ultimately show ?thesis
    using assms(1,2,4,5) r(1,2) len unfolding represents_def by (simp add: nth_append less_Suc_eq)
qed

lemma space_shows_lengths: "space_shows s fr img rights mem \<Longrightarrow> length img = 128 * length fr \<and> length rights = length fr"
  by (auto simp: space_shows_def maps_to_def)

lemma perform_Exec:
  assumes "represents frs w a"
  shows "perform (Exec executable) w = (if 9 \<le> length frs then Inl OutOfBounds
     else bindR (space_Load executable AddrSpace_new (available_frame w) (mainMemory (dev (cpu w)))) (\<lambda>(ok, s, b, mem).
       Inr (Some (of_nat (length frs + 1)), w\<lparr>spaces := spaces w @ [Some s], threadNum := threadNum w + 1,
          available_frame := b, cpu := (cpu w)\<lparr>dev := (dev (cpu w))\<lparr>mainMemory := mem\<rparr>\<rparr>\<rparr>)))"
proof -
  have n: "length (spaces w) = length frs" "threadNum w = length frs + 1" using assms by (simp_all add: represents_def)
  have upd: "(spaces w @ [x])[length frs := y] = spaces w @ [y]" for x y using n(1) by (simp add: list_update_append)
  show ?thesis
  proof (cases "9 \<le> length frs")
    case True
    then show ?thesis using n(2) by (simp add: Kernel_Exec_def max_threads_def)
  next
    case False
    let ?w = "w\<lparr>spaces := spaces w @ [Some AddrSpace_new], threadNum := threadNum w + 1\<rparr>"
    have "Kernel_Exec w = Inr (length frs + 1, ?w)" using False n(2) by (simp add: Kernel_Exec_def max_threads_def)
    moreover have "ForkExecute (length frs) executable ?w
        = bindR (space_Load executable AddrSpace_new (available_frame w) (mainMemory (dev (cpu w)))) (\<lambda>(ok, s, b, mem).
            Inr (w\<lparr>spaces := spaces w @ [Some s], threadNum := threadNum w + 1, available_frame := b,
              cpu := (cpu w)\<lparr>dev := (dev (cpu w))\<lparr>mainMemory := mem\<rparr>\<rparr>\<rparr>))"
      using n(1) by (simp add: ForkExecute_def upd nth_append) (auto intro!: bindR_cong)
    ultimately show ?thesis using False by (simp only: perform.simps bindR_simps case_prod_conv bindR_assoc add_diff_cancel_right' if_False)
        (auto intro!: bindR_cong)
  qed
qed

lemma Exec_refines:
  assumes "represents frs w a" "event_ok (Exec executable)"
  shows "case private_step (Exec executable) a of
      None \<Rightarrow> \<exists>e. perform (Exec executable) w = Inl e
    | Some (x, a') \<Rightarrow> \<exists>w' frs'. perform (Exec executable) w = Inr (x, w') \<and> represents frs' w' a'"
proof (cases "length frs < 9")
  case False
  have "private_step (Exec executable) a = None"
    using False assms(1) by (cases executable) (simp_all add: represents_def)
  then show ?thesis using perform_Exec [OF assms(1)] False by simp
next
  case room: True
  have r: "bm_inv (available_frame w)" "bm_size (available_frame w) = 128" "length (mainMemory (dev (cpu w))) = nat MemorySize"
    "frames_left a = card (bm_free (available_frame w))" "length (memories a) = length frs"
    using assms(1) by (simp_all add: represents_def)
  note perf = perform_Exec [OF assms(1), of executable]
  show ?thesis
  proof (cases executable)
    case None
    have "shows_memory (Some AddrSpace_new) [] (Some ([], [])) (mainMemory (dev (cpu w)))"
      using assms(1) by (simp add: shows_memory_def space_shows_def maps_to_def AddrSpace_new_def view_def represents_def)
    from represents_load [OF assms(1) this, of "available_frame w"] r(1,2)
    have "represents (frs @ [[]]) (w\<lparr>spaces := spaces w @ [Some AddrSpace_new], threadNum := threadNum w + 1,
          available_frame := available_frame w, cpu := (cpu w)\<lparr>dev := (dev (cpu w))\<lparr>mainMemory := mainMemory (dev (cpu w))\<rparr>\<rparr>\<rparr>)
        (a\<lparr>memories := memories a @ [Some ([], [])]\<rparr>)" by (cases a) simp
    then show ?thesis using None perf room r(5) by (auto simp: space_Load_def)
  next
    case (Some exe)
    have ok: "program_ok exe" using assms(2) Some by simp
    note l = space_Load_eq [OF ok r(1-3), of AddrSpace_new]
    show ?thesis
    proof (cases "program_size exe \<le> frames_left a \<and> program_size exe = Paging.room exe")
      case True
      with l obtain s fr b mem where
        p: "space_Load (Some exe) AddrSpace_new (available_frame w) (mainMemory (dev (cpu w))) = Inr (True, s, b, mem)"
          "space_shows s fr (program_image exe) (program_rights exe) mem" "set fr \<subseteq> bm_free (available_frame w)"
          "length fr = program_size exe" "bm_inv b" "bm_size b = 128" "bm_free b = bm_free (available_frame w) - set fr"
          "\<And>p. p div 128 \<notin> set fr \<Longrightarrow> mem ! p = mainMemory (dev (cpu w)) ! p" using r(4) by (auto split: if_splits)
      have "shows_memory (Some s) fr (Some (program_image exe, program_rights exe)) mem"
        using p(2) by (simp add: shows_memory_def)
      from represents_load [OF assms(1) this p(3,5-8)] True p(1,4) Some perf room r(5) show ?thesis by auto
    next
      case False
      then show ?thesis using l Some r(4) perf by auto
    qed
  qed
qed

text \<open>Which program runs, and what its space shows.\<close>

lemma running_cases:
  assumes "represents frs w a"
  shows "case lookup_memory i a of
      None \<Rightarrow> \<exists>e. running i access w = Inl e
    | Some (img, rights) \<Rightarrow> \<exists>s. i < length frs \<and> spaces w ! i = Some s \<and> memories a ! i = Some (img, rights)
        \<and> space_shows s (frs ! i) img rights (mainMemory (dev (cpu w)))
        \<and> paged (spaceTable s) (space_RestoreState s (cpu w))
        \<and> running i access w = bindR (access (space_RestoreState s (cpu w))) (\<lambda>(x, m).
            case pageTable (dev m) of None \<Rightarrow> Inl NullPointer
            | Some pt \<Rightarrow> Inr (x, w\<lparr>spaces := (spaces w)[i := Some (s\<lparr>spaceTable := pt\<rparr>)], cpu := m\<rparr>))"
proof (cases "i < length frs")
  case False
  then show ?thesis using assms by (simp add: represents_def lookup_memory_def running_def)
next
  case True
  then have sh: "shows_memory (spaces w ! i) (frs ! i) (memories a ! i) (mainMemory (dev (cpu w)))"
    and len: "length (spaces w) = length frs" "length (memories a) = length frs" "tlb (dev (cpu w)) = None"
    using assms by (simp_all add: represents_def)
  show ?thesis
  proof (cases "memories a ! i")
    case None
    then have "spaces w ! i = None" using sh by (auto simp: shows_memory_def split: option.splits)
    then show ?thesis using True None len by (simp add: lookup_memory_def running_def)
  next
    case (Some v)
    obtain img rights where v: "v = (img, rights)" by (cases v)
    from sh obtain s where s: "spaces w ! i = Some s" "space_shows s (frs ! i) img rights (mainMemory (dev (cpu w)))"
      unfolding Some v by (auto simp: shows_memory_def split: option.splits)
    then have "paged (spaceTable s) (space_RestoreState s (cpu w))"
      using len(3) by (simp add: paged_def space_RestoreState_def space_shows_def maps_to_def)
    then show ?thesis using True Some v s len by (simp add: lookup_memory_def running_def)
  qed
qed

text \<open>What an access leaves behind: the touched table, and for a write the memory of this program changed.\<close>

lemma represents_access:
  assumes "represents frs w a" "i < length frs" "spaces w ! i = Some s" "memories a ! i = Some (img, rights)"
    "space_shows s' (frs ! i) img' rights mem'" "\<And>p. p div 128 \<notin> set (frs ! i) \<Longrightarrow> mem' ! p = mainMemory (dev (cpu w)) ! p"
    "tlb (dev m) = None" "mainMemory (dev m) = mem'"
  shows "represents frs (w\<lparr>spaces := (spaces w)[i := Some s'], cpu := m\<rparr>) (a\<lparr>memories := (memories a)[i := Some (img', rights)]\<rparr>)"
proof -
  have r: "\<And>j. j < length frs \<Longrightarrow> shows_memory (spaces w ! j) (frs ! j) (memories a ! j) (mainMemory (dev (cpu w)))"
    "keeps_apart frs" "length (mainMemory (dev (cpu w))) = nat MemorySize" using assms(1) by (simp_all add: represents_def)
  have len: "length mem' = nat MemorySize" using assms(5) by (simp add: space_shows_def)
  have "shows_memory (spaces w ! j) (frs ! j) (memories a ! j) mem'" if j: "j < length frs" "j \<noteq> i" for j
  proof (rule shows_memory_cong [OF r(1) [OF j(1)]])
    fix p assume "p div 128 \<in> set (frs ! j)"
    then have "p div 128 \<notin> set (frs ! i)" using r(2) j assms(2) by (auto simp: keeps_apart_def)
    then show "mem' ! p = mainMemory (dev (cpu w)) ! p" by (rule assms(6))
  qed (simp add: len r(3))
  then show ?thesis
    using assms(1,2,5,7,8) len unfolding represents_def by (simp add: nth_list_update shows_memory_def)
qed

lemma Fetch_refines:
  assumes "represents frs w a" "event_ok (Fetch i va sz)"
  shows "case private_step (Fetch i va sz) a of
      None \<Rightarrow> \<exists>e. perform (Fetch i va sz) w = Inl e
    | Some (x, a') \<Rightarrow> \<exists>w' frs'. perform (Fetch i va sz) w = Inr (x, w') \<and> represents frs' w' a'"
proof (cases "lookup_memory i a")
  case None
  then show ?thesis using running_cases [OF assms(1), of i] by simp
next
  case (Some v)
  have sz: "sz \<in> {1, 2, 4}" using assms(2) by simp
  obtain img rights where v: "v = (img, rights)" by (cases v)
  let ?read = "Machine_ReadMem unexpected_exception va sz"
  from running_cases [OF assms(1), of i ?read] obtain s where s: "i < length frs" "spaces w ! i = Some s"
      "memories a ! i = Some (img, rights)" "space_shows s (frs ! i) img rights (mainMemory (dev (cpu w)))"
      "paged (spaceTable s) (space_RestoreState s (cpu w))"
      "running i ?read w = bindR (?read (space_RestoreState s (cpu w))) (\<lambda>(x, m).
            case pageTable (dev m) of None \<Rightarrow> Inl NullPointer
            | Some pt \<Rightarrow> Inr (x, w\<lparr>spaces := (spaces w)[i := Some (s\<lparr>spaceTable := pt\<rparr>)], cpu := m\<rparr>))"
    unfolding Some v by auto
  let ?fr = "frs ! i" and ?m = "space_RestoreState s (cpu w)" and ?mem = "mainMemory (dev (cpu w))"
  have maps: "maps_to s ?fr" "map readOnly (spaceTable s) = rights" "view ?fr ?mem = img" "length ?mem = nat MemorySize"
    using s(4) by (simp_all add: space_shows_def)
  have img: "length img = 128 * length ?fr" using space_shows_lengths [OF s(4)] by simp
  have acc: "accessible (spaceTable s) va sz False \<longleftrightarrow> reachable_at va sz img"
    using maps_access(1) [OF maps(1)] by (simp add: reachable_at_def img)
  show ?thesis
  proof (cases "reachable_at va sz img")
    case False
    with denied_access(1) [OF s(5) sz] acc obtain e where
      "?read ?m = bindR (Machine_RaiseException unexpected_exception e va ?m) (\<lambda>m. Inr (None, m))" by blast
    then show ?thesis using False Some v s(6) aborting_exception by (auto simp: bindR_assoc)
  next
    case True
    have va: "unat va < 128 * length ?fr" "unat va mod 128 + nat sz \<le> 128"
      using True aligned_room [OF _ sz] img by (simp_all add: reachable_at_def)
    have fr: "set ?fr \<subseteq> {..<nat NumPhysPages}" using maps(1) by (simp add: maps_to_def)
    have "bytes_at (phys (spaceTable s) va) sz ?m = take (nat sz) (drop (unat va) img)"
      using view_read [OF fr maps(4) va] maps_access(2) [OF maps(1) va(1)] maps(3)
      by (simp add: bytes_at_def space_RestoreState_def)
    with ReadMem_ok [OF s(5) sz] True acc have read: "?read ?m = Inr (Some (load_bytes sz (take (nat sz) (drop (unat va) img))),
        with_table (touched (spaceTable s) va False) ?m)" by simp
    let ?m' = "with_table (touched (spaceTable s) va False) ?m"
    have "space_shows (s\<lparr>spaceTable := touched (spaceTable s) va False\<rparr>) ?fr img rights ?mem"
      using maps maps_touched [OF maps(1), of va False] by (simp add: space_shows_def)
    from represents_access [OF assms(1) s(1-3) this, of ?m'] s(5)
    have "represents frs (w\<lparr>spaces := (spaces w)[i := Some (s\<lparr>spaceTable := touched (spaceTable s) va False\<rparr>)], cpu := ?m'\<rparr>)
        (a\<lparr>memories := (memories a)[i := Some (img, rights)]\<rparr>)"
      by (simp add: paged_def with_table_def space_RestoreState_def)
    moreover have "a\<lparr>memories := (memories a)[i := Some (img, rights)]\<rparr> = a" using s(1,3) list_update_id [of "memories a" i] by simp
    ultimately show ?thesis
      using True Some v s(6) read by (auto simp: with_table_def)
  qed
qed

lemma Store_refines:
  assumes "represents frs w a" "event_ok (Store i va sz v)"
  shows "case private_step (Store i va sz v) a of
      None \<Rightarrow> \<exists>e. perform (Store i va sz v) w = Inl e
    | Some (x, a') \<Rightarrow> \<exists>w' frs'. perform (Store i va sz v) w = Inr (x, w') \<and> represents frs' w' a'"
proof (cases "lookup_memory i a")
  case None
  then show ?thesis using running_cases [OF assms(1), of i "Machine_WriteMem unexpected_exception va sz v"] by auto
next
  case (Some q)
  have sz: "sz \<in> {1, 2, 4}" using assms(2) by simp
  obtain img rights where q: "q = (img, rights)" by (cases q)
  let ?store = "Machine_WriteMem unexpected_exception va sz v"
  from running_cases [OF assms(1), of i ?store] obtain s where s: "i < length frs" "spaces w ! i = Some s"
      "memories a ! i = Some (img, rights)" "space_shows s (frs ! i) img rights (mainMemory (dev (cpu w)))"
      "paged (spaceTable s) (space_RestoreState s (cpu w))"
      "running i ?store w = bindR (?store (space_RestoreState s (cpu w))) (\<lambda>(x, m).
            case pageTable (dev m) of None \<Rightarrow> Inl NullPointer
            | Some pt \<Rightarrow> Inr (x, w\<lparr>spaces := (spaces w)[i := Some (s\<lparr>spaceTable := pt\<rparr>)], cpu := m\<rparr>))"
    unfolding Some q by auto
  let ?fr = "frs ! i" and ?m = "space_RestoreState s (cpu w)" and ?mem = "mainMemory (dev (cpu w))"
  have maps: "maps_to s ?fr" "map readOnly (spaceTable s) = rights" "view ?fr ?mem = img" "length ?mem = nat MemorySize"
    using s(4) by (simp_all add: space_shows_def)
  have img: "length img = 128 * length ?fr" using space_shows_lengths [OF s(4)] by simp
  have "unat va < 128 * length ?fr \<Longrightarrow> readOnly (spaceTable s ! (unat va div 128)) = rights ! (unat va div 128)"
    using maps(1,2) page_in_range [of "unat va"] by (auto simp: maps_to_def)
  then have acc: "accessible (spaceTable s) va sz True \<longleftrightarrow> reachable_at va sz img \<and> \<not> rights ! (unat va div 128)"
    using maps_access(1) [OF maps(1)] by (auto simp: reachable_at_def img)
  show ?thesis
  proof (cases "reachable_at va sz img \<and> \<not> rights ! (unat va div 128)")
    case False
    with denied_access(2) [OF s(5) sz] acc obtain e where
      "?store ?m = bindR (Machine_RaiseException unexpected_exception e va ?m) (\<lambda>m. Inr (False, m))" by blast
    then show ?thesis using False Some q s(6) aborting_exception by (auto simp: bindR_assoc)
  next
    case True
    let ?bs = "machine_bytes sz v" and ?pt = "touched (spaceTable s) va True"
    let ?m' = "store_at (phys (spaceTable s) va) ?bs (with_table ?pt ?m)"
      and ?img' = "overwrite (unat va) ?bs img" and ?mem' = "overwrite (addr_of ?fr (unat va)) ?bs ?mem"
    have va: "unat va < 128 * length ?fr" "unat va mod 128 + length ?bs \<le> 128"
      using True aligned_room [OF _ sz] img length_machine_bytes [OF sz] by (simp_all add: reachable_at_def)
    have fr: "distinct ?fr" "set ?fr \<subseteq> {..<nat NumPhysPages}" using maps(1) by (simp_all add: maps_to_def)
    note w = view_write [OF fr maps(4) va]
    have wr: "?store ?m = Inr (True, ?m')" using WriteMem_ok [OF s(5) sz] True acc by simp
    have m': "mainMemory (dev ?m') = ?mem'" "pageTable (dev ?m') = Some ?pt" "tlb (dev ?m') = None"
      using maps_access(2) [OF maps(1) va(1)] s(5)
      by (simp_all add: store_at_def with_table_def space_RestoreState_def paged_def)
    have "space_shows (s\<lparr>spaceTable := ?pt\<rparr>) ?fr ?img' rights ?mem'"
      using maps maps_touched [OF maps(1), of va True] w(1,2) by (simp add: space_shows_def)
    from represents_access [OF assms(1) s(1-3) this w(3) m'(3,1)]
    show ?thesis using True Some q s(6) wr m'(2) by auto
  qed
qed

text \<open>The destructor.\<close>

lemma finite_bm_free_card:
  assumes "bm_free b' = bm_free b \<union> set fr" "set fr \<inter> bm_free b = {}" "distinct fr"
  shows "card (bm_free b') = card (bm_free b) + length fr"
  using assms distinct_card [OF assms(3)] by (simp add: card_Un_disjoint Int_commute finite_bm_free)

lemma Delete_refines:
  assumes "represents frs w a"
  shows "case private_step (Delete i) a of
      None \<Rightarrow> \<exists>e. perform (Delete i) w = Inl e
    | Some (x, a') \<Rightarrow> \<exists>w' frs'. perform (Delete i) w = Inr (x, w') \<and> represents frs' w' a'"
proof (cases "lookup_memory i a")
  case None
  have "\<exists>e. delete_space i w = Inl e"
  proof (cases "i < length frs")
    case True
    then have "memories a ! i = None" using None assms by (simp add: lookup_memory_def represents_def)
    moreover have "shows_memory (spaces w ! i) (frs ! i) (memories a ! i) (mainMemory (dev (cpu w)))"
      using True assms by (simp add: represents_def)
    ultimately have "spaces w ! i = None" by (auto simp: shows_memory_def split: option.splits)
    then show ?thesis using True assms by (simp add: delete_space_def represents_def)
  qed (use assms in \<open>simp add: delete_space_def represents_def\<close>)
  then show ?thesis using None by auto
next
  case (Some q)
  obtain img rights where q: "q = (img, rights)" by (cases q)
  have r: "length (spaces w) = length frs" "length (memories a) = length frs" "bm_inv (available_frame w)"
    "bm_size (available_frame w) = 128" "keeps_apart frs" "frames_left a = card (bm_free (available_frame w))"
    "\<And>fr. fr \<in> set frs \<Longrightarrow> set fr \<inter> bm_free (available_frame w) = {}"
    "\<And>j. j < length frs \<Longrightarrow> shows_memory (spaces w ! j) (frs ! j) (memories a ! j) (mainMemory (dev (cpu w)))"
    using assms by (simp_all add: represents_def)
  have i: "i < length frs" "memories a ! i = Some (img, rights)" using Some q r(2) by (auto simp: lookup_memory_def split: if_splits)
  from r(8) [OF i(1)] i(2) obtain s where s: "spaces w ! i = Some s" "space_shows s (frs ! i) img rights (mainMemory (dev (cpu w)))"
    by (auto simp: shows_memory_def split: option.splits)
  have m: "maps_to s (frs ! i)" using s(2) by (simp add: space_shows_def)
  have disj: "set (frs ! i) \<inter> bm_free (available_frame w) = {}" using r(7) i(1) by simp
  from delete_eq [OF m r(3,4) disj] obtain b where b: "AddrSpace_delete s (available_frame w) = Inr b" "bm_inv b"
    "bm_size b = 128" "bm_free b = bm_free (available_frame w) \<union> set (frs ! i)" by blast
  have "distinct (frs ! i)" using m by (simp add: maps_to_def)
  then have c: "card (bm_free b) = frames_left a + length rights"
    using finite_bm_free_card [OF b(4) disj] r(6) space_shows_lengths [OF s(2)] by simp
  have apart: "set ((frs[i := []]) ! j) \<inter> bm_free b = {}" if "j < length frs" for j
    using that r(5) r(7) [OF nth_mem [OF that]] i(1) b(4) by (cases "j = i") (auto simp: keeps_apart_def)
  have "represents (frs[i := []]) (w\<lparr>spaces := (spaces w)[i := None], available_frame := b\<rparr>)
     \<lparr>memories = (memories a)[i := None], frames_left = frames_left a + length rights\<rparr>"
  proof -
    have "shows_memory ((spaces w)[i := None] ! j) (frs[i := []] ! j) ((memories a)[i := None] ! j) (mainMemory (dev (cpu w)))"
      if "j < length frs" for j
      using r(1,2,8) that i(1) by (cases "j = i") (simp_all add: shows_memory_def)
    moreover have "\<forall>fr\<in>set (frs[i := []]). set fr \<inter> bm_free b = {}"
      using apart unfolding set_conv_nth by fastforce
    ultimately show ?thesis
      using assms keeps_apart_update [OF r(5)] b(2,3) c unfolding represents_def by simp
  qed
  then show ?thesis using Some q s(1) i(1) r(1) b(1) by (auto simp: delete_space_def)
qed

lemma step_refines:
  assumes "represents frs w a" "event_ok e"
  shows "case private_step e a of None \<Rightarrow> \<exists>f. perform e w = Inl f
    | Some (x, a') \<Rightarrow> \<exists>w' frs'. perform e w = Inr (x, w') \<and> represents frs' w' a'"
proof (cases e)
  case (Exec executable)
  show ?thesis unfolding Exec by (rule Exec_refines [OF assms [unfolded Exec]])
next
  case (Fetch i va sz)
  show ?thesis unfolding Fetch by (rule Fetch_refines [OF assms [unfolded Fetch]])
next
  case (Store i va sz v)
  show ?thesis unfolding Store by (rule Store_refines [OF assms [unfolded Store]])
next
  case (Delete i)
  show ?thesis unfolding Delete by (rule Delete_refines [OF assms(1)])
qed

lemma run_refines:
  assumes "represents frs w a" "\<forall>e\<in>set es. event_ok e"
  shows "case private_run es a of None \<Rightarrow> \<exists>f. performs es w = Inl f
    | Some (xs, a') \<Rightarrow> \<exists>w' frs'. performs es w = Inr (xs, w') \<and> represents frs' w' a'"
  using assms
proof (induction es arbitrary: frs w a)
  case (Cons e es)
  note st = step_refines [OF Cons.prems(1), of e]
  show ?case
  proof (cases "private_step e a")
    case None
    then show ?thesis using st Cons.prems(2) by auto
  next
    case (Some p)
    obtain x a' where p: "p = (x, a')" by (cases p)
    from st Some p Cons.prems(2) obtain w' frs' where w': "perform e w = Inr (x, w')" "represents frs' w' a'" by auto
    from Cons.IH [OF w'(2)] Cons.prems(2) show ?thesis using Some p w'(1) by (auto split: option.splits)
  qed
qed auto

subsection \<open>Property\<close>

text \<open>
  C4: in every sequence of programs started, memory accesses by any of them and spaces deleted, each program finds exactly
  the private memory the specification gives it: its own image at the start, then what it wrote itself,
  never what another program wrote. A program is started, and an access is granted, exactly when the
  specification says so (otherwise the kernel aborts, or writes past its array of ten threads at the tenth program),
  and the free frames are those that no program has.
\<close>

theorem processes_refine:
  assumes "\<forall>e\<in>set es. event_ok e"
  shows "case private_run es private_new of
      None \<Rightarrow> \<exists>f. performs es world_new = Inl f
    | Some (xs, a) \<Rightarrow> \<exists>w. performs es world_new = Inr (xs, w) \<and> length (spaces w) = length (memories a)
        \<and> card (bm_free (available_frame w)) = frames_left a"
  using run_refines [OF represents_new assms] by (fastforce simp: represents_def split: option.splits)

definition sample_events :: "event list" where
  "sample_events = [Exec (Some sample_exe), Exec (Some sample_exe), Store 0 0 1 9, Fetch 0 0 1, Fetch 1 0 1, Delete 0]"

lemma sample_events_run:
  "\<exists>a. private_run sample_events private_new = Some ([Some 1, Some 2, None, Some 9, Some 1, None], a) \<and> frames_left a = 119"
proof -
  have rights: "program_rights sample_exe = replicate 9 False"
    using replicate_Suc [of 8 False] unfolding program_rights_def sample_header by (simp add: segment_pages_def)
  have img: "program_image sample_exe = 1 # [2, 3, 4] @ replicate 1148 0" by (simp add: sample_image)
  have reach: "reachable_at 0 1 (x # xs)" for x xs by (simp add: reachable_at_def)
  have load: "load_bytes 1 [x] = scast x" for x by (simp add: load_bytes_def)
  have wr: "overwrite 0 (machine_bytes 1 9) (x # xs) = 9 # xs" for x xs
    by (simp add: machine_bytes_def overwrite_def)
  show ?thesis
    unfolding sample_events_def private_new_def
    by (simp add: sample_programs img rights lookup_memory_def reach load wr)
qed

lemma processes_refine_witness:
  "\<exists>w. performs sample_events world_new = Inr ([Some 1, Some 2, None, Some 9, Some 1, None], w)
     \<and> card (bm_free (available_frame w)) = 119"
proof -
  have "\<forall>e\<in>set sample_events. event_ok e" by (simp add: sample_events_def sample_programs)
  from processes_refine [OF this] sample_events_run show ?thesis by auto
qed

end
