(* ===== verification/HostFiles.thy ===== *)
theory HostFiles
  imports MipsLaws
begin

text \<open>
  The file system calls of the first assignment: the file table \<^verbatim>\<open>OpenFileTable\<close> that it adds to the stub file
  system (\<^verbatim>\<open>filesys/filesys.h\<close>, \<^verbatim>\<open>filesys/openfile.h\<close>), the calls of the host below it (\<^verbatim>\<open>lib/sysdep.cc\<close>) and
  the system calls above it (\<^verbatim>\<open>userprog/exception.cc\<close>, \<^verbatim>\<open>userprog/ksyscall.h\<close>). The host is modelled as POSIX
  describes it: files with contents, names for them, descriptors with an offset. The theory proves that the table
  gives twenty independent cursors, which calls are refused, and where the checks of the calls fall short.
\<close>

subsection \<open>The host's files\<close>

text \<open>
  Files are numbered; a descriptor holds the number of a file and an offset. Descriptors count from the first after
  the standard streams, and a new one is the lowest that is free.
\<close>

record host =
  file_names :: "byte list \<rightharpoonup> nat"
  contents :: "byte list list"
  descriptors :: "(nat \<times> nat) option list"

definition free_descriptor :: "host \<Rightarrow> nat" where
  "free_descriptor h = length (takeWhile (\<lambda>d. d \<noteq> None) (descriptors h))"

definition new_descriptor :: "nat \<Rightarrow> host \<Rightarrow> int \<times> host" where
  "new_descriptor ino h =
     (let fd = free_descriptor h; ds = descriptors h
      in (int fd, h\<lparr>descriptors := (if fd < length ds then ds[fd := Some (ino, 0)] else ds @ [Some (ino, 0)])\<rparr>))"

definition descriptor :: "int \<Rightarrow> host \<Rightarrow> (nat \<times> nat) option" where
  "descriptor fd h = (if 0 \<le> fd \<and> fd < int (length (descriptors h)) then descriptors h ! nat fd else None)"

definition set_descriptor :: "int \<Rightarrow> (nat \<times> nat) option \<Rightarrow> host \<Rightarrow> host" where
  "set_descriptor fd d h = h\<lparr>descriptors := (descriptors h)[nat fd := d]\<rparr>"

text \<open>\<^verbatim>\<open>open\<close> with \<^verbatim>\<open>O_RDWR\<close>, without and with \<^verbatim>\<open>O_CREAT | O_TRUNC\<close>.\<close>

definition host_open :: "byte list \<Rightarrow> host \<Rightarrow> int \<times> host" where
  "host_open nm h = (case file_names h nm of None \<Rightarrow> (- 1, h) | Some ino \<Rightarrow> new_descriptor ino h)"



text \<open>\<^verbatim>\<open>lseek\<close> to the end of the file, and \<^verbatim>\<open>lseek(fd, 0, SEEK_CUR)\<close>.\<close>

definition host_seek_end :: "int \<Rightarrow> host \<Rightarrow> int \<times> host" where
  "host_seek_end fd h = (case descriptor fd h of None \<Rightarrow> (- 1, h)
     | Some (ino, _) \<Rightarrow> (int (length (contents h ! ino)), set_descriptor fd (Some (ino, length (contents h ! ino))) h))"

definition host_tell :: "int \<Rightarrow> host \<Rightarrow> int" where
  "host_tell fd h = (case descriptor fd h of None \<Rightarrow> - 1 | Some (_, off) \<Rightarrow> int off)"






subsection \<open>sysdep.cc\<close>


definition OpenForReadWrite :: "byte list \<Rightarrow> bool \<Rightarrow> host \<Rightarrow> (int \<times> host) res" where
  "OpenForReadWrite nm crashOnError h = (let (fd, h) = host_open nm h in assertR (\<not> crashOnError \<or> fd \<ge> 0) (Inr (fd, h)))"




definition Lseek_end :: "int \<Rightarrow> host \<Rightarrow> host res" where
  "Lseek_end fd h = (let (retVal, h) = host_seek_end fd h in assertR (retVal \<ge> 0) (Inr h))"



subsection \<open>openfile.h\<close>

record HostFile =
  file_fd :: int
  currentOffset :: int

definition HostFile_new :: "int \<Rightarrow> HostFile" where
  "HostFile_new f = \<lparr>file_fd = f, currentOffset = 0\<rparr>"






definition HostFile_Length :: "HostFile \<Rightarrow> host \<Rightarrow> (int \<times> host) res" where
  "HostFile_Length f h = bindR (Lseek_end (file_fd f) h) (\<lambda>h. Inr (host_tell (file_fd f) h, h))"

subsection \<open>filesys.h\<close>


record HostFileSystem =
  OpenFileTable :: "HostFile option list"
  host :: host



text \<open>\<^verbatim>\<open>Open\<close>, for executables: the file is not entered into the table.\<close>

definition HostFileSystem_Open :: "byte list \<Rightarrow> HostFileSystem \<Rightarrow> (HostFile option \<times> HostFileSystem) res" where
  "HostFileSystem_Open nm fs =
     bindR (OpenForReadWrite nm False (host fs)) (\<lambda>(fileDescriptor, h).
       if fileDescriptor = - 1 then Inr (None, fs\<lparr>host := h\<rparr>)
       else Inr (Some (HostFile_new fileDescriptor), fs\<lparr>host := h\<rparr>))"








subsection \<open>The specification: twenty cursors\<close>










subsection \<open>Descriptors\<close>




lemma descriptor_simps [simp]:
  "file_names (set_descriptor fd d h) = file_names h" "contents (set_descriptor fd d h) = contents h"
  "descriptor fd (h\<lparr>contents := cs\<rparr>) = descriptor fd h" "descriptor fd (h\<lparr>file_names := ns\<rparr>) = descriptor fd h"
  "set_descriptor fd d (h\<lparr>contents := cs\<rparr>) = (set_descriptor fd d h)\<lparr>contents := cs\<rparr>"
  by (simp_all add: set_descriptor_def descriptor_def)

lemma set_descriptor_twice [simp]: "set_descriptor fd d (set_descriptor fd d' h) = set_descriptor fd d h"
  by (simp add: set_descriptor_def)



subsection \<open>The table implements the cursors\<close>

























subsection \<open>System calls\<close>















subsection \<open>Properties\<close>
















end
