(* ===== verification/TSQueues.thy ===== *)
theory TSQueues
  imports Prelude
begin

text \<open>
  \<^verbatim>\<open>NTHU-OS-Pthreads/ts_queue.hpp\<close>: a bounded queue in a ring buffer, shared by threads through a mutex
  and two condition variables. The operations on the buffer are functions of the record \<open>TSQueue\<close>;
  \<open>qstep\<close> lets any number of threads run \<^verbatim>\<open>enqueue\<close> and \<^verbatim>\<open>dequeue\<close>, with a step wherever another thread
  can come between. Of the thread library it uses what POSIX says: a mutex has one owner, \<^verbatim>\<open>pthread_cond_wait\<close>
  releases it and waits in one step and owns it again when it returns, \<^verbatim>\<open>pthread_cond_signal\<close> wakes one or more of the
  threads that wait, if any does, and a thread may wake for no reason.
\<close>

subsection \<open>The ring buffer\<close>

text \<open>\<open>None\<close> is an element of the array that was never assigned.\<close>

record 'a TSQueue =
  buffer_size :: int
  buffer :: "'a option list"
  qsize :: int
  head :: int
  tail :: int

definition DEFAULT_BUFFER_SIZE :: int where "DEFAULT_BUFFER_SIZE = 200"

definition TSQueue_new :: "int \<Rightarrow> 'a TSQueue" where
  "TSQueue_new n = \<lparr>buffer_size = n, buffer = replicate (nat n) None, qsize = 0, head = n - 1, tail = 0\<rparr>"

definition get_size :: "'a TSQueue \<Rightarrow> int" where
  "get_size q = qsize q"

text \<open>The remainder of a division by zero traps.\<close>

definition modR :: "int \<Rightarrow> int \<Rightarrow> int res" where
  "modR a b = (if b = 0 then Inl DivideTrap else Inr (a smod b))"

text \<open>The two operations between the loop and the signal.\<close>

definition put_item :: "'a \<Rightarrow> 'a TSQueue \<Rightarrow> 'a TSQueue res" where
  "put_item x q =
     inboundsR (tail q) (int (length (buffer q)))
      (bindR (modR (tail q + 1) (buffer_size q)) (\<lambda>t.
         Inr (q\<lparr>buffer := (buffer q)[nat (tail q) := Some x], tail := t, qsize := qsize q + 1\<rparr>)))"

definition take_item :: "'a TSQueue \<Rightarrow> ('a \<times> 'a TSQueue) res" where
  "take_item q =
     bindR (modR (head q + 1) (buffer_size q)) (\<lambda>h.
     inboundsR h (int (length (buffer q)))
      (case buffer q ! nat h of None \<Rightarrow> Inl Uninitialised
       | Some x \<Rightarrow> Inr (x, q\<lparr>head := h, qsize := qsize q - 1\<rparr>)))"

subsection \<open>What it stands for\<close>

definition slot :: "'a TSQueue \<Rightarrow> nat \<Rightarrow> nat" where
  "slot q i = nat ((head q + 1 + int i) mod buffer_size q)"

definition ring_ok :: "'a TSQueue \<Rightarrow> bool" where
  "ring_ok q \<longleftrightarrow> 0 < buffer_size q \<and> length (buffer q) = nat (buffer_size q) \<and> 0 \<le> head q \<and> head q < buffer_size q
     \<and> 0 \<le> qsize q \<and> qsize q \<le> buffer_size q \<and> tail q = (head q + 1 + qsize q) mod buffer_size q
     \<and> (\<forall>i<nat (qsize q). buffer q ! slot q i \<noteq> None)"

definition contents :: "'a TSQueue \<Rightarrow> 'a list" where
  "contents q = map (\<lambda>i. the (buffer q ! slot q i)) [0..<nat (qsize q)]"

lemma length_contents: "ring_ok q \<Longrightarrow> int (length (contents q)) = qsize q"
  by (simp add: contents_def ring_ok_def)

lemma ring_new: "0 < n \<Longrightarrow> ring_ok (TSQueue_new n)" "contents (TSQueue_new n) = []"
  by (simp_all add: ring_ok_def TSQueue_new_def contents_def)

lemma modR_pos: "0 \<le> a \<Longrightarrow> 0 < b \<Longrightarrow> modR a b = Inr (a mod b)"
  by (simp add: modR_def)

text \<open>Different positions lie in different slots.\<close>

lemma slot_inj:
  assumes "0 < buffer_size q" "i < nat (buffer_size q)" "j < nat (buffer_size q)" "slot q i = slot q j"
  shows "i = j"
proof -
  let ?n = "buffer_size q"
  have "(head q + 1 + int i) mod ?n = (head q + 1 + int j) mod ?n"
    using assms(1,4) by (simp add: slot_def eq_nat_nat_iff)
  then have "?n dvd (int i - int j)" by (simp add: mod_eq_dvd_iff algebra_simps)
  moreover have "\<bar>int i - int j\<bar> < ?n" using assms(2,3) by linarith
  ultimately show ?thesis using zdvd_not_zless [of "\<bar>int i - int j\<bar>" ?n] by (cases "i = j") auto
qed

lemma slot_range: "0 < buffer_size q \<Longrightarrow> slot q i < nat (buffer_size q)"
  by (simp add: slot_def nat_less_iff)

lemma put_item_ok:
  assumes "ring_ok q" "qsize q < buffer_size q"
  shows "\<exists>q'. put_item x q = Inr q' \<and> ring_ok q' \<and> contents q' = contents q @ [x]
     \<and> qsize q' = qsize q + 1 \<and> buffer_size q' = buffer_size q"
proof -
  let ?n = "buffer_size q" and ?s = "nat (qsize q)"
  have q: "0 < ?n" "length (buffer q) = nat ?n" "0 \<le> qsize q" "tail q = (head q + 1 + qsize q) mod ?n"
    "\<forall>i<?s. buffer q ! slot q i \<noteq> None" "0 \<le> head q" "head q < ?n" using assms(1) by (simp_all add: ring_ok_def)
  have t: "nat (tail q) = slot q ?s" "0 \<le> tail q" "tail q < ?n" using q(1,3,4) by (simp_all add: slot_def)
  define q' where "q' = q\<lparr>buffer := (buffer q)[slot q ?s := Some x], tail := (tail q + 1) mod ?n, qsize := qsize q + 1\<rparr>"
  have f: "buffer_size q' = ?n" "buffer q' = (buffer q)[slot q ?s := Some x]" "qsize q' = qsize q + 1"
    "head q' = head q" "tail q' = (tail q + 1) mod ?n" "slot q' = slot q"
    by (simp_all add: q'_def slot_def fun_eq_iff)
  have put: "put_item x q = Inr q'"
    using q(1,2) t(2,3) by (simp add: put_item_def modR_pos q'_def t(1))
  have other: "buffer q' ! slot q i = buffer q ! slot q i" if "i < ?s" for i
  proof -
    have "slot q i \<noteq> slot q ?s" using slot_inj [OF q(1), of i ?s] that assms(2) q(3) by auto
    then show ?thesis by (simp add: f(2))
  qed
  have new: "buffer q' ! slot q ?s = Some x"
    unfolding f(2) using slot_range [OF q(1), of ?s] q(2) by simp
  have s: "nat (qsize q + 1) = Suc ?s" using q(3) by simp
  have "tail q' = (head q' + 1 + qsize q') mod ?n" by (simp add: f q(4) mod_simps add.assoc)
  moreover have "\<forall>i<Suc ?s. buffer q' ! slot q i \<noteq> None"
    using other new q(5) by (auto simp: less_Suc_eq)
  ultimately have "ring_ok q'"
    using q(1-3,6,7) assms(2) unfolding ring_ok_def f(1,3,6) s by (simp add: f(2,4))
  moreover have "contents q' = contents q @ [x]"
    using other new by (simp add: contents_def f(3,6) s)
  ultimately show ?thesis using put f by blast
qed

lemma take_item_ok:
  assumes "ring_ok q" "0 < qsize q"
  shows "\<exists>x q'. take_item q = Inr (x, q') \<and> ring_ok q' \<and> contents q = x # contents q'
     \<and> qsize q' = qsize q - 1 \<and> buffer_size q' = buffer_size q"
proof -
  let ?n = "buffer_size q" and ?s = "nat (qsize q)"
  have q: "0 < ?n" "length (buffer q) = nat ?n" "0 \<le> head q" "tail q = (head q + 1 + qsize q) mod ?n"
    "\<forall>i<?s. buffer q ! slot q i \<noteq> None" "qsize q \<le> ?n" using assms(1) by (simp_all add: ring_ok_def)
  have h: "nat ((head q + 1) mod ?n) = slot q 0" by (simp add: slot_def)
  have "buffer q ! slot q 0 \<noteq> None" using q(5) assms(2) by simp
  then obtain x where x: "buffer q ! slot q 0 = Some x" by blast
  define q' where "q' = q\<lparr>head := (head q + 1) mod ?n, qsize := qsize q - 1\<rparr>"
  have f: "buffer_size q' = ?n" "buffer q' = buffer q" "qsize q' = qsize q - 1"
    "head q' = (head q + 1) mod ?n" "tail q' = tail q" by (simp_all add: q'_def)
  have slot: "slot q' i = slot q (Suc i)" for i by (simp add: slot_def f(1,4) add.assoc mod_add_left_eq)
  have take: "take_item q = Inr (x, q')"
    using q(1-3) x by (simp add: take_item_def modR_pos h q'_def)
  have s: "?s = Suc (nat (qsize q - 1))" using assms(2) by simp
  have "tail q' = (head q' + 1 + qsize q') mod ?n" unfolding f q(4) by (simp add: add.assoc mod_add_left_eq)
  moreover have "\<forall>i<nat (qsize q - 1). buffer q' ! slot q' i \<noteq> None"
    using q(5) unfolding s f(2) slot by blast
  ultimately have "ring_ok q'"
    using q(1,2,6) assms(2) unfolding ring_ok_def f(1-3) by (simp add: f(4))
  moreover have "contents q = x # contents q'"
    unfolding contents_def s f(3) upt_conv_Cons [OF zero_less_Suc] map_Suc_upt [symmetric]
    by (simp add: x slot f(2))
  ultimately show ?thesis using take f by blast
qed

end
