(* ===== verification/SharedQueues.thy ===== *)
theory SharedQueues
  imports TSQueues
begin

text \<open>
  The queue of \<^verbatim>\<open>NTHU-OS-Pthreads/ts_queue.hpp\<close> shared by threads. A thread stands somewhere in \<^verbatim>\<open>enqueue\<close> or
  \<^verbatim>\<open>dequeue\<close>, and \<open>qstep\<close> has a step for every place where another thread can come between. Of the thread library
  it takes what POSIX promises: a mutex has one owner; \<^verbatim>\<open>pthread_cond_wait\<close> releases it and waits in one step, and
  owns it again when it returns; \<^verbatim>\<open>pthread_cond_signal\<close> wakes one or more of the waiting threads if there are
  any; a waiting thread may also wake for no reason. The lemmas give the mutual exclusion, the queue that the
  threads see, and why no thread waits for an item or a slot that is there.
\<close>

subsection \<open>The two operations\<close>

datatype 'a call = Enqueue 'a | Dequeue

text \<open>Where a thread is: \<open>Locking\<close> before the mutex is its own, also after it was woken.\<close>

datatype 'a place =
    Outside
  | Locking "'a call"
  | Testing "'a call"
  | Waiting "'a call"
  | Signalling "'a call" "'a option"
  | Unlocking "'a option"

text \<open>The conditions of the loops, and what is done to the buffer after them.\<close>

definition must_wait :: "'a call \<Rightarrow> 'a TSQueue \<Rightarrow> bool" where
  "must_wait c q = (case c of Enqueue x \<Rightarrow> qsize q = buffer_size q | Dequeue \<Rightarrow> qsize q = 0)"

definition work :: "'a call \<Rightarrow> 'a TSQueue \<Rightarrow> ('a option \<times> 'a TSQueue) res" where
  "work c q =
     (case c of Enqueue x \<Rightarrow> bindR (put_item x q) (\<lambda>q. Inr (None, q))
      | Dequeue \<Rightarrow> bindR (take_item q) (\<lambda>(x, q). Inr (Some x, q)))"

text \<open>An \<open>enqueue\<close> signals \<^verbatim>\<open>cond_dequeue\<close>, a \<open>dequeue\<close> signals \<^verbatim>\<open>cond_enqueue\<close>.\<close>

fun takes :: "'a call \<Rightarrow> bool" where
  "takes (Enqueue x) = False"
| "takes Dequeue = True"

record 'a shared =
  queue :: "'a TSQueue"
  mutex :: "nat option"
  place :: "nat \<Rightarrow> 'a place"

definition shared_new :: "int \<Rightarrow> 'a shared" where
  "shared_new n = \<lparr>queue = TSQueue_new n, mutex = None, place = (\<lambda>_. Outside)\<rparr>"

definition sleepers :: "nat \<Rightarrow> 'a call \<Rightarrow> 'a shared \<Rightarrow> nat set" where
  "sleepers N c m = {u. u < N \<and> (\<exists>d. place m u = Waiting d \<and> takes c \<noteq> takes d)}"

fun woken :: "'a place \<Rightarrow> 'a place" where
  "woken (Waiting c) = Locking c"
| "woken p = p"

datatype 'a event =
    Called nat "'a call"
  | Locked nat
  | Slept nat
  | Worked nat "'a call" "'a option"
  | Signalled nat
  | Returned nat "'a option"
  | Woke nat

text \<open>\<open>N\<close> threads run; a step is labelled by what happened.\<close>

inductive qstep :: "nat \<Rightarrow> 'a shared \<Rightarrow> 'a event \<Rightarrow> 'a shared \<Rightarrow> bool" for N where
  call: "t < N \<Longrightarrow> place m t = Outside \<Longrightarrow>
    qstep N m (Called t c) (m\<lparr>place := (place m)(t := Locking c)\<rparr>)"
| lock: "t < N \<Longrightarrow> place m t = Locking c \<Longrightarrow> mutex m = None \<Longrightarrow>
    qstep N m (Locked t) (m\<lparr>place := (place m)(t := Testing c), mutex := Some t\<rparr>)"
| wait: "t < N \<Longrightarrow> place m t = Testing c \<Longrightarrow> must_wait c (queue m) \<Longrightarrow>
    qstep N m (Slept t) (m\<lparr>place := (place m)(t := Waiting c), mutex := None\<rparr>)"
| work: "t < N \<Longrightarrow> place m t = Testing c \<Longrightarrow> \<not> must_wait c (queue m) \<Longrightarrow> work c (queue m) = Inr (r, q) \<Longrightarrow>
    qstep N m (Worked t c r) (m\<lparr>place := (place m)(t := Signalling c r), queue := q\<rparr>)"
| signal: "t < N \<Longrightarrow> place m t = Signalling c r \<Longrightarrow> W \<subseteq> sleepers N c m \<Longrightarrow> sleepers N c m \<noteq> {} \<longrightarrow> W \<noteq> {} \<Longrightarrow>
    qstep N m (Signalled t) (m\<lparr>place := (\<lambda>u. if u \<in> W then woken (place m u) else place m u)(t := Unlocking r)\<rparr>)"
| unlock: "t < N \<Longrightarrow> place m t = Unlocking r \<Longrightarrow>
    qstep N m (Returned t r) (m\<lparr>place := (place m)(t := Outside), mutex := None\<rparr>)"
| spurious: "t < N \<Longrightarrow> place m t = Waiting c \<Longrightarrow>
    qstep N m (Woke t) (m\<lparr>place := (place m)(t := Locking c)\<rparr>)"

inductive qrun :: "nat \<Rightarrow> 'a shared \<Rightarrow> 'a event list \<Rightarrow> 'a shared \<Rightarrow> bool" for N where
  start: "qrun N m [] m"
| more: "qrun N m es m' \<Longrightarrow> qstep N m' e m'' \<Longrightarrow> qrun N m (es @ [e]) m''"

inductive_cases qstep_wokeE: "qstep N m (Woke t) m'"
inductive_simps qstep_locked: "qstep N m (Locked t) m'"

subsection \<open>The abstract queue\<close>

text \<open>A bounded first-in first-out queue, run through a sequence of operations with their results.\<close>

fun bounded_fifo :: "int \<Rightarrow> 'a list \<Rightarrow> ('a call \<times> 'a option) list \<Rightarrow> 'a list option" where
  "bounded_fifo n xs [] = Some xs"
| "bounded_fifo n xs ((Enqueue x, r) # os) = (if int (length xs) < n \<and> r = None then bounded_fifo n (xs @ [x]) os else None)"
| "bounded_fifo n xs ((Dequeue, r) # os) = (case xs of [] \<Rightarrow> None | y # ys \<Rightarrow> if r = Some y then bounded_fifo n ys os else None)"

fun worked :: "'a event list \<Rightarrow> ('a call \<times> 'a option) list" where
  "worked [] = []"
| "worked (Worked t c r # es) = (c, r) # worked es"
| "worked (e # es) = worked es"

lemma bounded_fifo_append: "bounded_fifo n xs (as @ bs) = (case bounded_fifo n xs as of None \<Rightarrow> None | Some ys \<Rightarrow> bounded_fifo n ys bs)"
  by (induction n xs as rule: bounded_fifo.induct) (auto split: list.splits)

lemma worked_append [simp]: "worked (as @ bs) = worked as @ worked bs"
  by (induction as rule: worked.induct) auto

lemma work_ok:
  assumes "ring_ok q" "\<not> must_wait c q"
  shows "\<exists>r q'. work c q = Inr (r, q') \<and> ring_ok q' \<and> buffer_size q' = buffer_size q
     \<and> bounded_fifo (buffer_size q) (contents q) [(c, r)] = Some (contents q')
     \<and> qsize q' = qsize q + (if takes c then - 1 else 1)"
proof (cases c)
  case (Enqueue x)
  have "qsize q < buffer_size q" using assms by (simp add: Enqueue must_wait_def ring_ok_def)
  moreover from put_item_ok [OF assms(1) this, of x] obtain q' where
    "put_item x q = Inr q'" "ring_ok q'" "contents q' = contents q @ [x]" "qsize q' = qsize q + 1"
    "buffer_size q' = buffer_size q" by blast
  ultimately show ?thesis by (simp add: work_def Enqueue length_contents [OF assms(1)])
next
  case Dequeue
  have "0 < qsize q" using assms by (simp add: Dequeue must_wait_def ring_ok_def)
  from take_item_ok [OF assms(1) this] obtain x q' where
    "take_item q = Inr (x, q')" "ring_ok q'" "contents q = x # contents q'" "qsize q' = qsize q - 1"
    "buffer_size q' = buffer_size q" by blast
  then show ?thesis by (simp add: work_def Dequeue)
qed

subsection \<open>Counting threads\<close>

definition threads_sum :: "nat \<Rightarrow> ('a place \<Rightarrow> nat) \<Rightarrow> (nat \<Rightarrow> 'a place) \<Rightarrow> nat" where
  "threads_sum N f p = (\<Sum>t<N. f (p t))"

lemma threads_sum_upd: "t < N \<Longrightarrow> threads_sum N f (p(t := x)) + f (p t) = threads_sum N f p + f x"
proof -
  assume t: "t < N"
  have s: "threads_sum N f q = f (q t) + (\<Sum>u\<in>{..<N} - {t}. f (q u))" for q
    unfolding threads_sum_def using t by (intro sum.remove) auto
  have "(\<Sum>u\<in>{..<N} - {t}. f ((p(t := x)) u)) = (\<Sum>u\<in>{..<N} - {t}. f (p u))" by (intro sum.cong) auto
  with s [of p] s [of "p(t := x)"] show ?thesis by simp
qed

lemma threads_sum_mono: "(\<And>u. f (p u) \<le> f (q u)) \<Longrightarrow> threads_sum N f p \<le> threads_sum N f q"
  by (simp add: threads_sum_def sum_mono)

lemma threads_sum_less:
  assumes "\<And>u. f (p u) \<le> f (q u)" "u < N" "f (p u) < f (q u)"
  shows "threads_sum N f p < threads_sum N f q"
  unfolding threads_sum_def by (rule sum_strict_mono_ex1) (use assms in auto)

lemma threads_sum_upd_int:
  "t < N \<Longrightarrow> int (threads_sum N f (p(t := x))) = int (threads_sum N f p) + int (f x) - int (f (p t))"
  using threads_sum_upd [of t N f p x] by linarith

subsection \<open>The invariant\<close>

fun in_monitor :: "'a place \<Rightarrow> bool" where
  "in_monitor (Testing c) = True"
| "in_monitor (Signalling c r) = True"
| "in_monitor (Unlocking r) = True"
| "in_monitor _ = False"

text \<open>
  \<open>waits True\<close>: a thread that waits for an item, \<open>waits False\<close>: one that waits for a free slot; \<open>room\<close> counts the
  items or the slots. Each of them is claimed, or its arrival is about to be signalled, by a thread that \<open>helps\<close>.
\<close>

fun waits :: "bool \<Rightarrow> 'a place \<Rightarrow> bool" where
  "waits k (Waiting c) = (takes c = k)"
| "waits k _ = False"

fun helps :: "bool \<Rightarrow> 'a place \<Rightarrow> nat" where
  "helps k (Locking c) = of_bool (takes c = k)"
| "helps k (Testing c) = of_bool (takes c = k)"
| "helps k (Signalling c r) = of_bool (takes c \<noteq> k)"
| "helps k _ = 0"

definition room :: "bool \<Rightarrow> 'a TSQueue \<Rightarrow> int" where
  "room k q = (if k then qsize q else buffer_size q - qsize q)"

definition exclusive :: "'a shared \<Rightarrow> bool" where
  "exclusive m \<longleftrightarrow> (\<forall>t. in_monitor (place m t) \<longleftrightarrow> mutex m = Some t)"

definition no_lost :: "nat \<Rightarrow> bool \<Rightarrow> 'a shared \<Rightarrow> bool" where
  "no_lost N k m \<longleftrightarrow> ((\<exists>t. waits k (place m t)) \<longrightarrow> room k (queue m) \<le> int (threads_sum N (helps k) (place m)))"

definition qinv :: "nat \<Rightarrow> int \<Rightarrow> 'a shared \<Rightarrow> bool" where
  "qinv N n m \<longleftrightarrow> ring_ok (queue m) \<and> buffer_size (queue m) = n \<and> exclusive m
     \<and> (\<forall>t. N \<le> t \<longrightarrow> place m t = Outside) \<and> (\<forall>k. no_lost N k m)"

lemma woken_simps [simp]:
  "in_monitor (woken p) = in_monitor p" "waits k (woken p) = False" "helps k p \<le> helps k (woken p)"
  "woken p = Outside \<longleftrightarrow> p = Outside" "waits k p \<Longrightarrow> helps k p < helps k (woken p)"
  by (cases p; simp)+

lemma exclusiveI:
  assumes "exclusive m" "\<And>u. u \<noteq> t \<Longrightarrow> in_monitor (place m' u) = in_monitor (place m u)"
    and "mutex m' = (if in_monitor (place m' t) then Some t else if in_monitor (place m t) then None else mutex m)"
    and "in_monitor (place m' t) \<Longrightarrow> in_monitor (place m t) \<or> mutex m = None"
  shows "exclusive m'"
proof -
  have e: "in_monitor (place m u) \<longleftrightarrow> mutex m = Some u" for u using assms(1) by (simp add: exclusive_def)
  have "in_monitor (place m' u) \<longleftrightarrow> mutex m' = Some u" for u
    by (cases "u = t"; cases "in_monitor (place m' t)"; cases "in_monitor (place m t)")
      (use assms(2) [of u] assms(3,4) e [of u] e [of t] in auto)
  then show ?thesis by (simp add: exclusive_def)
qed

lemma exclusive_owner: "exclusive m \<Longrightarrow> in_monitor (place m t) \<Longrightarrow> mutex m = Some t"
  by (simp add: exclusive_def)

lemma exclusive_step:
  assumes "exclusive m" "qstep N m e m'"
  shows "exclusive m'"
  using assms(2)
proof (cases rule: qstep.cases)
  case (signal t c r W)
  have "mutex m = Some t" by (rule exclusive_owner [OF assms(1)]) (simp add: signal)
  then show ?thesis by (intro exclusiveI [OF assms(1), of t]) (simp_all add: signal)
next
  case (work t c r q)
  have "mutex m = Some t" by (rule exclusive_owner [OF assms(1)]) (simp add: work)
  then show ?thesis by (intro exclusiveI [OF assms(1), of t]) (simp_all add: work)
next
  case (call t c)
  show ?thesis by (rule exclusiveI [OF assms(1), of t]) (simp_all add: call)
next
  case (lock t c)
  show ?thesis by (rule exclusiveI [OF assms(1), of t]) (simp_all add: lock)
next
  case (wait t c)
  show ?thesis by (rule exclusiveI [OF assms(1), of t]) (simp_all add: wait)
next
  case (unlock t r)
  show ?thesis by (rule exclusiveI [OF assms(1), of t]) (simp_all add: unlock)
next
  case (spurious t c)
  show ?thesis by (rule exclusiveI [OF assms(1), of t]) (simp_all add: spurious)
qed

lemma outside_step: "\<forall>t. N \<le> t \<longrightarrow> place m t = Outside \<Longrightarrow> qstep N m e m' \<Longrightarrow> \<forall>t. N \<le> t \<longrightarrow> place m' t = Outside"
  by (erule qstep.cases) (auto split: if_splits)

text \<open>A step of one thread that wakes no other.\<close>

lemma no_lost_upd:
  assumes "no_lost N k m" "t < N" "place m' = (place m)(t := p)"
    and "waits k p \<Longrightarrow> room k (queue m') \<le> 0"
    and "\<not> waits k p \<Longrightarrow> room k (queue m') + int (helps k (place m t)) \<le> room k (queue m) + int (helps k p)"
  shows "no_lost N k m'"
  unfolding no_lost_def
proof
  assume w: "\<exists>u. waits k (place m' u)"
  have n: "0 \<le> int (threads_sum N (helps k) (place m'))" by simp
  show "room k (queue m') \<le> int (threads_sum N (helps k) (place m'))"
  proof (cases "waits k p")
    case True
    with assms(4) n show ?thesis by linarith
  next
    case False
    with w have "\<exists>u. waits k (place m u)" by (auto simp: assms(3) split: if_splits)
    with assms(1) have "room k (queue m) \<le> int (threads_sum N (helps k) (place m))" by (simp add: no_lost_def)
    with False assms(5) threads_sum_upd_int [OF assms(2), of "helps k" "place m" p] show ?thesis
      unfolding assms(3) by linarith
  qed
qed

lemma room_simps [simp]: "room True q = qsize q" "room False q = buffer_size q - qsize q"
  by (simp_all add: room_def)

lemma waits_placed: "waits k p \<longleftrightarrow> (\<exists>c. p = Waiting c \<and> takes c = k)"
  by (cases p) auto

lemma sleepers_iff: "\<forall>u. N \<le> u \<longrightarrow> place m u = Outside \<Longrightarrow> u \<in> sleepers N c m \<longleftrightarrow> waits (\<not> takes c) (place m u)"
  by (auto simp: sleepers_def waits_placed not_le [symmetric])

text \<open>A signal wakes a thread of the other kind, if one waits.\<close>

lemma no_lost_signal:
  assumes "no_lost N k m" "t < N" "place m t = Signalling c r" "\<forall>u. N \<le> u \<longrightarrow> place m u = Outside"
    and "W \<subseteq> sleepers N c m" "sleepers N c m \<noteq> {} \<longrightarrow> W \<noteq> {}"
    and "place m' = (\<lambda>u. if u \<in> W then woken (place m u) else place m u)(t := Unlocking r)" "queue m' = queue m"
  shows "no_lost N k m'"
  unfolding no_lost_def
proof
  let ?p = "\<lambda>u. if u \<in> W then woken (place m u) else place m u"
  assume "\<exists>u. waits k (place m' u)"
  then obtain u where u: "waits k (place m u)" "u \<notin> W" by (auto simp: assms(7) split: if_splits)
  then have old: "room k (queue m) \<le> int (threads_sum N (helps k) (place m))" using assms(1) by (auto simp: no_lost_def)
  have le: "helps k (place m v) \<le> helps k (?p v)" for v by simp
  have t: "?p t = Signalling c r" by (simp add: assms(3))
  have new: "int (threads_sum N (helps k) (place m')) = int (threads_sum N (helps k) ?p) - of_bool (takes c \<noteq> k)"
    unfolding assms(7) threads_sum_upd_int [OF assms(2)] t by simp
  show "room k (queue m') \<le> int (threads_sum N (helps k) (place m'))"
  proof (cases "takes c = k")
    case True
    then show ?thesis using new old threads_sum_mono [of "helps k" "place m" ?p N, OF le] by (simp add: assms(8))
  next
    case False
    then have k: "k = (\<not> takes c)" by blast
    have "u \<in> sleepers N c m" using u(1) sleepers_iff [OF assms(4)] by (simp add: k)
    with assms(5,6) obtain v where v: "v \<in> W" "v \<in> sleepers N c m" by blast
    then have "waits k (place m v)" "v < N" using sleepers_iff [OF assms(4)] by (auto simp: k sleepers_def)
    then have "threads_sum N (helps k) (place m) < threads_sum N (helps k) ?p"
      using v(1) by (intro threads_sum_less [where u = v] le) simp_all
    with new old False show ?thesis by (simp add: assms(8))
  qed
qed

lemma qinv_step:
  assumes "qinv N n m" "qstep N m e m'"
  shows "qinv N n m'" "bounded_fifo n (contents (queue m)) (worked [e]) = Some (contents (queue m'))"
proof -
  have i: "ring_ok (queue m)" "buffer_size (queue m) = n" "exclusive m" "\<forall>t. N \<le> t \<longrightarrow> place m t = Outside"
    "\<And>k. no_lost N k m" using assms(1) by (simp_all add: qinv_def)
  have b: "0 \<le> qsize (queue m)" "qsize (queue m) \<le> n" using i(1,2) by (simp_all add: ring_ok_def)
  have "ring_ok (queue m') \<and> buffer_size (queue m') = n \<and> (\<forall>k. no_lost N k m')
     \<and> bounded_fifo n (contents (queue m)) (worked [e]) = Some (contents (queue m'))"
    using assms(2)
  proof (cases rule: qstep.cases)
    case (call t c)
    have "no_lost N k m'" for k
      by (rule no_lost_upd [where p = "Locking c", OF i(5) \<open>t < N\<close>]) (simp_all add: call)
    then show ?thesis using i(1,2) by (simp add: call)
  next
    case (lock t c)
    have "no_lost N k m'" for k
      by (rule no_lost_upd [where p = "Testing c", OF i(5) \<open>t < N\<close>]) (simp_all add: lock)
    then show ?thesis using i(1,2) by (simp add: lock)
  next
    case (wait t c)
    have "room (takes c) (queue m) = 0" using \<open>must_wait c (queue m)\<close> by (cases c) (simp_all add: must_wait_def)
    then have "no_lost N k m'" for k
      by (intro no_lost_upd [where p = "Waiting c", OF i(5) \<open>t < N\<close>]) (simp_all add: wait)
    then show ?thesis using i(1,2) by (simp add: wait)
  next
    case (work t c r q)
    from work_ok [OF i(1) \<open>\<not> must_wait c (queue m)\<close>] work(6) have
      q: "ring_ok q" "buffer_size q = n" "bounded_fifo n (contents (queue m)) [(c, r)] = Some (contents q)"
        "qsize q = qsize (queue m) + (if takes c then - 1 else 1)" using i(2) by auto
    have room: "room k q + int (of_bool (takes c = k)) \<le> room k (queue m) + int (of_bool (takes c \<noteq> k))" for k
      using q(2,4) i(2) by (cases k) simp_all
    have "no_lost N k m'" for k
      by (rule no_lost_upd [where p = "Signalling c r", OF i(5) \<open>t < N\<close>]) (use room [of k] in \<open>simp_all add: work\<close>)
    then show ?thesis using q by (simp add: work)
  next
    case (signal t c r W)
    have "no_lost N k m'" for k
      by (rule no_lost_signal [OF i(5) \<open>t < N\<close> \<open>place m t = Signalling c r\<close> i(4) \<open>W \<subseteq> sleepers N c m\<close>
        \<open>sleepers N c m \<noteq> {} \<longrightarrow> W \<noteq> {}\<close>]) (simp_all add: signal)
    then show ?thesis using i(1,2) by (simp add: signal)
  next
    case (unlock t r)
    have "no_lost N k m'" for k
      by (rule no_lost_upd [where p = Outside, OF i(5) \<open>t < N\<close>]) (simp_all add: unlock)
    then show ?thesis using i(1,2) by (simp add: unlock)
  next
    case (spurious t c)
    have "no_lost N k m'" for k
      by (rule no_lost_upd [where p = "Locking c", OF i(5) \<open>t < N\<close>]) (simp_all add: spurious)
    then show ?thesis using i(1,2) by (simp add: spurious)
  qed
  then show "qinv N n m'" "bounded_fifo n (contents (queue m)) (worked [e]) = Some (contents (queue m'))"
    using exclusive_step [OF i(3) assms(2)] outside_step [OF i(4) assms(2)] by (simp_all add: qinv_def)
qed

lemma qinv_new: "0 < n \<Longrightarrow> qinv N n (shared_new n)"
  by (simp add: qinv_def shared_new_def ring_new exclusive_def no_lost_def) (simp add: TSQueue_new_def)

lemma qrun_inv:
  assumes "qrun N m es m'" "qinv N n m"
  shows "qinv N n m' \<and> bounded_fifo n (contents (queue m)) (worked es) = Some (contents (queue m'))"
  using assms
proof (induction rule: qrun.induct)
  case (more m es m' e m'')
  then have i: "qinv N n m'" "bounded_fifo n (contents (queue m)) (worked es) = Some (contents (queue m'))" by auto
  from qinv_step [OF i(1) more.hyps(2)] i(2) show ?case by (simp add: bounded_fifo_append)
qed simp

subsection \<open>The calls of one thread\<close>

definition calls_of :: "nat \<Rightarrow> 'a event list \<Rightarrow> 'a call list" where
  "calls_of t es = concat (map (\<lambda>e. case e of Called u c \<Rightarrow> if u = t then [c] else [] | _ \<Rightarrow> []) es)"

definition effects_of :: "nat \<Rightarrow> 'a event list \<Rightarrow> ('a call \<times> 'a option) list" where
  "effects_of t es = concat (map (\<lambda>e. case e of Worked u c r \<Rightarrow> if u = t then [(c, r)] else [] | _ \<Rightarrow> []) es)"

definition results_of :: "nat \<Rightarrow> 'a event list \<Rightarrow> 'a option list" where
  "results_of t es = concat (map (\<lambda>e. case e of Returned u r \<Rightarrow> if u = t then [r] else [] | _ \<Rightarrow> []) es)"

fun pending_call :: "'a place \<Rightarrow> 'a call list" where
  "pending_call (Locking c) = [c]"
| "pending_call (Testing c) = [c]"
| "pending_call (Waiting c) = [c]"
| "pending_call _ = []"

fun pending_result :: "'a place \<Rightarrow> 'a option list" where
  "pending_result (Signalling c r) = [r]"
| "pending_result (Unlocking r) = [r]"
| "pending_result _ = []"

lemma pending_woken [simp]: "pending_call (woken p) = pending_call p" "pending_result (woken p) = pending_result p"
  by (cases p; simp)+

lemma pending_step:
  assumes "qstep N m e m'"
  shows "pending_call (place m u) @ calls_of u [e] = map fst (effects_of u [e]) @ pending_call (place m' u)"
    "pending_result (place m u) @ map snd (effects_of u [e]) = results_of u [e] @ pending_result (place m' u)"
  using assms by (cases rule: qstep.cases; auto simp: calls_of_def effects_of_def results_of_def)+

lemma of_append [simp]:
  "calls_of u (as @ bs) = calls_of u as @ calls_of u bs"
  "effects_of u (as @ bs) = effects_of u as @ effects_of u bs"
  "results_of u (as @ bs) = results_of u as @ results_of u bs"
  by (simp_all add: calls_of_def effects_of_def results_of_def)

lemma qrun_thread:
  assumes "qrun N m es m'" "place m u = Outside"
  shows "calls_of u es = map fst (effects_of u es) @ pending_call (place m' u)
     \<and> map snd (effects_of u es) = results_of u es @ pending_result (place m' u)"
  using assms
proof (induction rule: qrun.induct)
  case (start m)
  then show ?case by (simp add: calls_of_def effects_of_def results_of_def)
next
  case (more m es m' e m'')
  with pending_step [OF more.hyps(2), of u] show ?case by simp
qed

subsection \<open>Progress\<close>

text \<open>The steps that the code takes by itself: no new calls, no waking for no reason.\<close>

fun program_step :: "'a event \<Rightarrow> bool" where
  "program_step (Called t c) = False"
| "program_step (Woke t) = False"
| "program_step _ = True"

text \<open>How many steps a thread may still take, the waking of others included.\<close>

fun weight :: "nat \<Rightarrow> 'a place \<Rightarrow> nat" where
  "weight N Outside = 0"
| "weight N (Unlocking r) = 1"
| "weight N (Signalling c r) = 2 * N + 2"
| "weight N (Waiting c) = 2 * N + 2"
| "weight N (Testing c) = 2 * N + 3"
| "weight N (Locking c) = 2 * N + 4"

definition potential :: "nat \<Rightarrow> 'a shared \<Rightarrow> nat" where
  "potential N m = threads_sum N (weight N) (place m)"

lemma potential_bound: "potential N m \<le> N * (2 * N + 4)"
proof -
  have "weight N (p :: 'a place) \<le> 2 * N + 4" for p by (cases p) simp_all
  then have "threads_sum N (weight N) (place m) \<le> (\<Sum>t<N. 2 * N + 4)" unfolding threads_sum_def by (rule sum_mono)
  then show ?thesis by (simp add: potential_def)
qed

lemma potential_signal:
  assumes "t < N" "place m t = Signalling c r" "place m' = (\<lambda>u. if u \<in> W then woken (place m u) else place m u)(t := Unlocking r)"
  shows "potential N m' < potential N m"
proof -
  let ?p = "\<lambda>u. if u \<in> W then woken (place m u) else place m u"
  have w: "weight N (woken p) \<le> Suc (Suc (weight N p))" for p :: "'a place" by (cases p) simp_all
  have "threads_sum N (weight N) ?p \<le> threads_sum N (\<lambda>p. weight N p + 2) (place m)"
    unfolding threads_sum_def by (rule sum_mono) (simp add: w)
  also have "\<dots> = threads_sum N (weight N) (place m) + 2 * N" unfolding threads_sum_def sum.distrib by simp
  finally have "threads_sum N (weight N) ?p \<le> potential N m + 2 * N" by (simp only: potential_def)
  moreover have "weight N (?p t) = 2 * N + 2" by (simp add: assms(2))
  ultimately show ?thesis
    using threads_sum_upd [OF assms(1), of "weight N" ?p "Unlocking r"] unfolding potential_def assms(3) weight.simps by linarith
qed

lemma potential_step:
  assumes "qstep N m e m'" "program_step e"
  shows "potential N m' < potential N m"
  using assms(1)
proof (cases rule: qstep.cases)
  case (signal t c r W)
  show ?thesis by (rule potential_signal [of t N m c r m' W]) (simp_all add: signal)
next
  case (lock t c)
  then show ?thesis using threads_sum_upd [of t N "weight N" "place m" "Testing c"] by (simp add: potential_def)
next
  case (wait t c)
  then show ?thesis using threads_sum_upd [of t N "weight N" "place m" "Waiting c"] by (simp add: potential_def)
next
  case (work t c r q)
  then show ?thesis using threads_sum_upd [of t N "weight N" "place m" "Signalling c r"] by (simp add: potential_def)
next
  case (unlock t r)
  then show ?thesis using threads_sum_upd [of t N "weight N" "place m" Outside] by (simp add: potential_def)
qed (use assms(2) in simp_all)

lemma potential_run: "qrun N m es m' \<Longrightarrow> list_all program_step es \<Longrightarrow> length es + potential N m' \<le> potential N m"
proof (induction rule: qrun.induct)
  case (more m es m' e m'')
  with potential_step [OF more.hyps(2)] show ?case by fastforce
qed simp

text \<open>A thread that owns the mutex can go on.\<close>

lemma in_monitor_runs:
  assumes "qinv N n m" "in_monitor (place m t)"
  shows "\<exists>e m'. qstep N m e m' \<and> program_step e"
proof -
  have t: "t < N" using assms by (force simp: qinv_def not_less [symmetric])
  show ?thesis
  proof (cases "place m t")
    case (Testing c)
    show ?thesis
    proof (cases "must_wait c (queue m)")
      case True
      from qstep.wait [OF t Testing True] show ?thesis by (intro exI conjI) (assumption, simp)
    next
      case False
      have "ring_ok (queue m)" using assms(1) by (simp add: qinv_def)
      from work_ok [OF this False] obtain r q where "work c (queue m) = Inr (r, q)" by blast
      from qstep.work [OF t Testing False this] show ?thesis by (intro exI conjI) (assumption, simp)
    qed
  next
    case (Signalling c r)
    from qstep.signal [OF t Signalling subset_refl] show ?thesis by (intro exI conjI) (blast, simp)
  next
    case (Unlocking r)
    from qstep.unlock [OF t Unlocking] show ?thesis by (intro exI conjI) (assumption, simp)
  qed (use assms(2) in simp_all)
qed

lemma quiescent_waits:
  assumes "qinv N n m" "\<And>e m'. qstep N m e m' \<Longrightarrow> \<not> program_step e"
  shows "place m t = Outside \<or> (\<exists>c. place m t = Waiting c \<and> must_wait c (queue m))"
proof -
  have o: "\<not> in_monitor (place m u)" for u using in_monitor_runs [OF assms(1)] assms(2) by blast
  have i: "exclusive m" "\<And>u. N \<le> u \<Longrightarrow> place m u = Outside" "\<And>k. no_lost N k m" "ring_ok (queue m)"
    using assms(1) by (simp_all add: qinv_def)
  have "mutex m = None" using i(1) o by (auto simp: exclusive_def) 
  have l: "place m u \<noteq> Locking c" for u c
  proof
    assume u: "place m u = Locking c"
    then have "u < N" using i(2) [of u] by (force simp: not_less [symmetric])
    from qstep.lock [OF this u \<open>mutex m = None\<close>] assms(2) show False by fastforce
  qed
  have h: "helps k (place m u) = 0" for k u by (cases "place m u") (use o [of u] l in simp_all)
  have s: "threads_sum N (helps k) (place m) = 0" for k by (simp add: threads_sum_def h)
  show ?thesis
  proof (cases "place m t")
    case (Waiting c)
    then have "\<exists>t. waits (takes c) (place m t)" by (intro exI [of _ t]) simp
    with i(3) [of "takes c"] s have "room (takes c) (queue m) \<le> 0" by (simp add: no_lost_def del: room_simps)
    with i(4) have "must_wait c (queue m)" by (cases c) (simp_all add: must_wait_def ring_ok_def)
    with Waiting show ?thesis by simp
  qed (use o [of t] l [of t] in simp_all)
qed

subsection \<open>Executing a run\<close>

text \<open>The step with a given label, waking the first waiting thread.\<close>

definition first_sleeper :: "nat \<Rightarrow> 'a call \<Rightarrow> 'a shared \<Rightarrow> nat option" where
  "first_sleeper N c m = find (\<lambda>u. waits (\<not> takes c) (place m u)) [0..<N]"

definition wake_first :: "nat \<Rightarrow> 'a call \<Rightarrow> 'a shared \<Rightarrow> nat \<Rightarrow> 'a place" where
  "wake_first N c m =
     (case first_sleeper N c m of None \<Rightarrow> place m | Some u \<Rightarrow> (place m)(u := woken (place m u)))"

fun qnext :: "nat \<Rightarrow> 'a event \<Rightarrow> 'a shared \<Rightarrow> 'a shared option" where
  "qnext N (Called t c) m =
     (case place m t of Outside \<Rightarrow> if t < N then Some (m\<lparr>place := (place m)(t := Locking c)\<rparr>) else None | _ \<Rightarrow> None)"
| "qnext N (Locked t) m =
     (case place m t of Locking c \<Rightarrow> if t < N \<and> mutex m = None
        then Some (m\<lparr>place := (place m)(t := Testing c), mutex := Some t\<rparr>) else None | _ \<Rightarrow> None)"
| "qnext N (Slept t) m =
     (case place m t of Testing c \<Rightarrow> if t < N \<and> must_wait c (queue m)
        then Some (m\<lparr>place := (place m)(t := Waiting c), mutex := None\<rparr>) else None | _ \<Rightarrow> None)"
| "qnext N (Worked t c r) m =
     (case place m t of Testing d \<Rightarrow> if t < N \<and> c = d \<and> \<not> must_wait c (queue m)
        then (case work c (queue m) of Inl e \<Rightarrow> None
              | Inr (r', q) \<Rightarrow> if r = r' then Some (m\<lparr>place := (place m)(t := Signalling c r), queue := q\<rparr>) else None)
        else None | _ \<Rightarrow> None)"
| "qnext N (Signalled t) m =
     (case place m t of Signalling c r \<Rightarrow> if t < N then Some (m\<lparr>place := (wake_first N c m)(t := Unlocking r)\<rparr>) else None
      | _ \<Rightarrow> None)"
| "qnext N (Returned t r) m =
     (case place m t of Unlocking r' \<Rightarrow> if t < N \<and> r = r'
        then Some (m\<lparr>place := (place m)(t := Outside), mutex := None\<rparr>) else None | _ \<Rightarrow> None)"
| "qnext N (Woke t) m =
     (case place m t of Waiting c \<Rightarrow> if t < N then Some (m\<lparr>place := (place m)(t := Locking c)\<rparr>) else None | _ \<Rightarrow> None)"

fun qplay :: "nat \<Rightarrow> 'a event list \<Rightarrow> 'a shared \<Rightarrow> 'a shared option" where
  "qplay N [] m = Some m"
| "qplay N (e # es) m = (case qnext N e m of None \<Rightarrow> None | Some m \<Rightarrow> qplay N es m)"

lemma qstep_signal_first:
  assumes "t < N" "place m t = Signalling c r"
  shows "qstep N m (Signalled t) (m\<lparr>place := (wake_first N c m)(t := Unlocking r)\<rparr>)"
proof -
  have sl: "sleepers N c m = {u. u < N \<and> waits (\<not> takes c) (place m u)}"
    by (auto simp: sleepers_def waits_placed)
  show ?thesis
  proof (cases "first_sleeper N c m")
    case None
    then have "sleepers N c m = {}" by (auto simp: first_sleeper_def find_None_iff sl)
    with qstep.signal [OF assms, of "{}"] show ?thesis by (simp add: wake_first_def None)
  next
    case (Some u)
    then have "u \<in> sleepers N c m" by (auto simp: first_sleeper_def find_Some_iff sl)
    moreover have "(\<lambda>v. if v \<in> {u} then woken (place m v) else place m v) = wake_first N c m"
      by (auto simp: wake_first_def Some)
    ultimately show ?thesis using qstep.signal [OF assms, of "{u}"] by simp
  qed
qed

lemma qnext_sound: "qnext N e m = Some m' \<Longrightarrow> qstep N m e m'"
  by (cases e) (auto split: place.splits if_splits sum.splits intro: qstep.intros qstep_signal_first)

lemma qrun_trans: "qrun N m' es' m'' \<Longrightarrow> qrun N m es m' \<Longrightarrow> qrun N m (es @ es') m''"
proof (induction rule: qrun.induct)
  case (more m' es' k e k')
  from qrun.more [OF more.IH [OF more.prems] more.hyps(2)] show ?case by simp
qed simp

lemma qplay_sound: "qplay N es m = Some m' \<Longrightarrow> qrun N m es m'"
proof (induction es arbitrary: m)
  case Nil
  then show ?case by (simp add: qrun.start)
next
  case (Cons e es)
  then obtain m1 where m1: "qnext N e m = Some m1" "qplay N es m1 = Some m'" by (auto split: option.splits)
  from qrun.more [OF qrun.start qnext_sound [OF m1(1)]] have "qrun N m [e] m1" by simp
  from qrun_trans [OF Cons.IH [OF m1(2)] this] show ?case by simp
qed

subsection \<open>What the queue guarantees\<close>

text \<open>
  C3: the shared queue is a bounded first-in first-out queue. In every run of any number of threads, with preemptions
  and wakings anywhere, each call takes effect once between its beginning and its end; the effects, in their order, are
  a run of the abstract queue of the same capacity, which ends with what the ring buffer holds; every call returns the
  result of its effect; at most one thread at a time owns the mutex; and no access to the buffer is outside it or
  reads an element that was never stored.
\<close>

theorem queue_linear:
  assumes "0 < n" "qrun N (shared_new n) es m"
  shows "bounded_fifo n [] (worked es) = Some (contents (queue m))
     \<and> (\<forall>t. calls_of t es = map fst (effects_of t es) @ pending_call (place m t)
          \<and> map snd (effects_of t es) = results_of t es @ pending_result (place m t))
     \<and> (\<forall>t u. in_monitor (place m t) \<and> in_monitor (place m u) \<longrightarrow> t = u)
     \<and> (\<forall>t c. place m t = Testing c \<and> \<not> must_wait c (queue m) \<longrightarrow> (\<exists>r q. work c (queue m) = Inr (r, q)))"
proof -
  from qrun_inv [OF assms(2) qinv_new [OF assms(1)]] have
    i: "qinv N n m" "bounded_fifo n (contents (queue (shared_new n))) (worked es) = Some (contents (queue m))" by auto
  have "contents (queue (shared_new n :: 'a shared)) = []" by (simp add: shared_new_def ring_new(2) assms(1))
  moreover have "exclusive m" "ring_ok (queue m)" using i(1) by (simp_all add: qinv_def)
  moreover have "place (shared_new n :: 'a shared) t = Outside" for t by (simp add: shared_new_def)
  ultimately show ?thesis
    using i(2) qrun_thread [OF assms(2)] work_ok exclusive_owner by (metis option.inject)
qed

text \<open>A consumer sleeps on the empty queue of one element until a producer has put one in.\<close>

definition first_events :: "int event list" where
  "first_events =
     [Called 0 Dequeue, Locked 0, Slept 0, Called 1 (Enqueue 7), Locked 1, Worked 1 (Enqueue 7) None]"

definition later_events :: "int event list" where
  "later_events = [Signalled 1, Returned 1 None, Locked 0, Worked 0 Dequeue (Some 7), Signalled 0, Returned 0 (Some 7)]"

lemmas replay = TSQueue_new_def put_item_def take_item_def work_def must_wait_def modR_def
  first_sleeper_def wake_first_def shared_new_def first_events_def later_events_def smod_nonneg

lemma replayed:
  "\<exists>m k. qrun 2 (shared_new 1) first_events m \<and> qrun 2 m later_events k
     \<and> place k 0 = Outside \<and> place k 1 = Outside"
proof -
  obtain m where m: "qplay 2 first_events (shared_new 1) = Some m" "\<exists>k. qplay 2 later_events m = Some k \<and> place k 0 = Outside \<and> place k 1 = Outside"
    by (simp add: replay upt_rec numeral_2_eq_2)
  with qplay_sound show ?thesis by blast
qed

lemma queue_linear_witness:
  "\<exists>m :: int shared. bounded_fifo 1 [] (worked first_events) = Some (contents (queue m)) \<and> contents (queue m) = [7]"
proof -
  obtain m where m: "qrun 2 (shared_new 1) first_events m" using replayed by blast
  from queue_linear [OF _ m] have q: "bounded_fifo 1 [] (worked first_events) = Some (contents (queue m))" by simp
  show ?thesis by (rule exI [of _ m]) (use q in \<open>simp add: first_events_def\<close>)
qed

text \<open>
  C28: the threads make progress and none is forgotten. From any reachable state, as long as no new call begins
  and no thread wakes for no reason, at most \<open>N (2 N + 4)\<close> steps are possible; and when no more is possible, every
  thread has returned or waits rightly: in \<^verbatim>\<open>dequeue\<close> on an empty queue, in \<^verbatim>\<open>enqueue\<close> on a full one. So no
  signal is lost and no thread stays blocked on the mutex.
\<close>

theorem queue_progress:
  assumes "0 < n" "qrun N (shared_new n) es m" "qrun N m es' m'" "list_all program_step es'"
  shows "length es' \<le> N * (2 * N + 4)
     \<and> ((\<forall>e k. qstep N m' e k \<longrightarrow> \<not> program_step e) \<longrightarrow>
         (\<forall>t. place m' t = Outside \<or> (\<exists>c. place m' t = Waiting c \<and> must_wait c (queue m'))))"
proof -
  have "qinv N n m" using qrun_inv [OF assms(2) qinv_new [OF assms(1)]] by blast
  from qrun_inv [OF assms(3) this] have "qinv N n m'" by blast
  then show ?thesis
    using quiescent_waits potential_run [OF assms(3,4)] potential_bound [of N m] by (metis add_leD1 le_trans)
qed

lemma queue_progress_witness:
  "\<exists>m' :: int shared. length later_events \<le> 2 * (2 * 2 + 4)
     \<and> (\<forall>t. place m' t = Outside \<or> (\<exists>c. place m' t = Waiting c \<and> must_wait c (queue m')))"
proof -
  obtain m m' where m: "qrun 2 (shared_new 1) first_events m" "qrun 2 m later_events m'"
    "place m' 0 = Outside" "place m' 1 = Outside" using replayed by blast
  have q: "\<not> program_step e" if "qstep 2 m' e k" for e k
    using that m(3,4) by (cases rule: qstep.cases) (auto simp: less_2_cases_iff)
  have l: "list_all program_step later_events" by (simp add: later_events_def)
  show ?thesis by (rule exI [of _ m']) (use queue_progress [OF _ m(1,2) l] q in simp)
qed

end
