(* ===== verification/Transformer.thy ===== *)
theory Transformer
  imports Prelude
begin

text \<open>
  \<^verbatim>\<open>NTHU-OS-Pthreads/transformer.cpp\<close>: the work of producers and consumers, a linear congruence iterated millions of
  times on \<^verbatim>\<open>unsigned long long\<close>, which is 64 bits wide and wraps around. The lemmas give the range in which it does
  not wrap, and what is then computed.
\<close>

subsection \<open>The code\<close>

record TransformSpec =
  spec_a :: "64 word"
  spec_b :: "64 word"
  spec_m :: "64 word"
  iterations :: int

definition spec :: "64 word \<Rightarrow> 64 word \<Rightarrow> 64 word \<Rightarrow> int \<Rightarrow> TransformSpec" where
  "spec a b m n = \<lparr>spec_a = a, spec_b = b, spec_m = m, iterations = n\<rparr>"

text \<open>The two switches; \<^verbatim>\<open>assert(false)\<close> ends the program for any other operation code.\<close>

definition producer_spec :: "char \<Rightarrow> TransformSpec res" where
  "producer_spec opcode =
     (if opcode = CHR ''A'' then Inr (spec 2003 183492 1000000007 9000000)
      else if opcode = CHR ''B'' then Inr (spec 2143 191324 1000000009 12000000)
      else if opcode = CHR ''C'' then Inr (spec 2089 923134 1000000021 5000000)
      else if opcode = CHR ''D'' then Inr (spec 2677 912834 1000000033 7000000)
      else if opcode = CHR ''E'' then Inr (spec 2693 718341 1000000087 12000000)
      else Inl AssertFailed)"

definition consumer_spec :: "char \<Rightarrow> TransformSpec res" where
  "consumer_spec opcode =
     (if opcode = CHR ''A'' then Inr (spec 2729 713423 1000000093 9000000)
      else if opcode = CHR ''B'' then Inr (spec 2617 193424 1000000097 5000000)
      else if opcode = CHR ''C'' then Inr (spec 2053 743142 1000000103 12000000)
      else if opcode = CHR ''D'' then Inr (spec 2347 617345 1000000123 12000000)
      else if opcode = CHR ''E'' then Inr (spec 2521 4719832 1000000181 7000000)
      else Inl AssertFailed)"

fun transform_loop :: "nat \<Rightarrow> TransformSpec \<Rightarrow> 64 word \<Rightarrow> 64 word" where
  "transform_loop 0 s v = v"
| "transform_loop (Suc n) s v = transform_loop n s ((v * spec_a s + spec_b s) mod spec_m s)"

text \<open>\<^verbatim>\<open>while (spec->iterations--)\<close> counts a negative number down until it overflows; a zero divisor traps.\<close>

definition transform :: "TransformSpec \<Rightarrow> 64 word \<Rightarrow> 64 word res" where
  "transform s v =
     (if iterations s < 0 then Inl SignedOverflow
      else if iterations s > 0 \<and> spec_m s = 0 then Inl DivideTrap
      else Inr (transform_loop (nat (iterations s)) s v))"

definition producer_transform :: "char \<Rightarrow> 64 word \<Rightarrow> 64 word res" where
  "producer_transform opcode v = bindR (producer_spec opcode) (\<lambda>s. transform s v)"

definition consumer_transform :: "char \<Rightarrow> 64 word \<Rightarrow> 64 word res" where
  "consumer_transform opcode v = bindR (consumer_spec opcode) (\<lambda>s. transform s v)"

subsection \<open>What it computes\<close>

text \<open>One round does not wrap around on values up to \<open>L\<close>, nor on any value below the modulus.\<close>

definition no_wrap :: "TransformSpec \<Rightarrow> nat \<Rightarrow> bool" where
  "no_wrap s L \<longleftrightarrow> 0 < unat (spec_m s) \<and> unat (spec_m s) \<le> Suc L \<and> L * unat (spec_a s) + unat (spec_b s) < 2 ^ 64"

text \<open>The reference: the \<open>n\<close>-fold affine map, over the natural numbers, with one reduction at the end.\<close>

definition affine :: "nat \<Rightarrow> TransformSpec \<Rightarrow> nat \<Rightarrow> nat" where
  "affine n s v = unat (spec_a s) ^ n * v + unat (spec_b s) * (\<Sum>i<n. unat (spec_a s) ^ i)"

lemma affine_0 [simp]: "affine 0 s v = v"
  by (simp add: affine_def)

lemma affine_Suc: "affine (Suc n) s v = affine n s (v * unat (spec_a s) + unat (spec_b s))"
proof -
  have "(\<Sum>i<Suc n. unat (spec_a s) ^ i) = unat (spec_a s) ^ n + (\<Sum>i<n. unat (spec_a s) ^ i)" by simp
  then show ?thesis by (simp add: affine_def algebra_simps)
qed

lemma affine_mod: "affine n s (v mod unat (spec_m s)) mod unat (spec_m s) = affine n s v mod unat (spec_m s)"
proof -
  have "(unat (spec_a s) ^ n * (v mod unat (spec_m s))) mod unat (spec_m s)
      = (unat (spec_a s) ^ n * v) mod unat (spec_m s)" by (simp add: mod_mult_right_eq)
  then show ?thesis unfolding affine_def by (metis mod_add_left_eq)
qed

lemma round_exact:
  assumes "no_wrap s L" "unat v \<le> L"
  shows "unat ((v * spec_a s + spec_b s) mod spec_m s) = (unat v * unat (spec_a s) + unat (spec_b s)) mod unat (spec_m s)"
proof -
  have le: "unat v * unat (spec_a s) \<le> L * unat (spec_a s)" using assms(2) by simp
  with assms(1) have b: "unat v * unat (spec_a s) + unat (spec_b s) < 2 ^ 64" unfolding no_wrap_def by linarith
  then have "unat (v * spec_a s) = unat v * unat (spec_a s)" by (simp add: unat_mult_lem [THEN iffD1])
  with b have "unat (v * spec_a s + spec_b s) = unat v * unat (spec_a s) + unat (spec_b s)"
    by (simp add: unat_add_lem [THEN iffD1])
  then show ?thesis by (simp add: unat_mod_distrib)
qed

lemma transform_loop_exact:
  assumes "no_wrap s L" "unat v \<le> L" "0 < n"
  shows "unat (transform_loop n s v) = affine n s (unat v) mod unat (spec_m s)"
  using assms(2,3)
proof (induction n arbitrary: v)
  case (Suc n)
  let ?w = "(v * spec_a s + spec_b s) mod spec_m s"
  have w: "unat ?w = (unat v * unat (spec_a s) + unat (spec_b s)) mod unat (spec_m s)"
    by (rule round_exact [OF assms(1) Suc.prems(1)])
  have m: "0 < unat (spec_m s)" "unat (spec_m s) \<le> Suc L" using assms(1) by (simp_all add: no_wrap_def)
  then have L: "unat ?w \<le> L" unfolding w using mod_less_divisor [OF m(1)] by (meson less_Suc_eq_le less_le_trans)
  show ?case
  proof (cases n)
    case 0
    then show ?thesis by (simp add: w affine_Suc)
  next
    case (Suc k)
    then have "unat (transform_loop n s ?w) = affine n s (unat ?w) mod unat (spec_m s)" by (intro Suc.IH L) simp
    then show ?thesis by (simp add: w affine_Suc affine_mod)
  qed
qed simp

lemma spec_simps [simp]:
  "spec_a (spec a b m n) = a" "spec_b (spec a b m n) = b" "spec_m (spec a b m n) = m" "iterations (spec a b m n) = n"
  by (simp_all add: spec_def)

lemma specs_no_wrap:
  "producer_spec opcode = Inr s \<or> consumer_spec opcode = Inr s \<Longrightarrow> no_wrap s (2 ^ 52) \<and> 0 < iterations s \<and> spec_m s \<noteq> 0"
  by (auto simp: producer_spec_def consumer_spec_def no_wrap_def split: if_splits)

lemma transform_exact:
  assumes "producer_spec opcode = Inr s \<or> consumer_spec opcode = Inr s" "unat v \<le> 2 ^ 52"
  shows "\<exists>w. transform s v = Inr w \<and> unat w = affine (nat (iterations s)) s (unat v) mod unat (spec_m s)"
proof -
  from specs_no_wrap [OF assms(1)] have s: "no_wrap s (2 ^ 52)" "0 < iterations s" "spec_m s \<noteq> 0" by auto
  with transform_loop_exact [OF s(1) assms(2), of "nat (iterations s)"] show ?thesis by (simp add: transform_def)
qed

text \<open>Both switches know the same operation codes.\<close>

definition valid_opcode :: "char \<Rightarrow> bool" where
  "valid_opcode c \<longleftrightarrow> c \<in> set ''ABCDE''"

lemma valid_opcode_specs:
  "valid_opcode c \<longleftrightarrow> (\<exists>s. producer_spec c = Inr s)" "valid_opcode c \<longleftrightarrow> (\<exists>s. consumer_spec c = Inr s)"
  by (auto simp: valid_opcode_def producer_spec_def consumer_spec_def)

text \<open>
  C40: on values up to \<open>2\<^sup>5\<^sup>2\<close> the two transformations are the affine maps of the operation code, iterated over the natural
  numbers and reduced once at the end: no step wraps around at 64 bits and the intermediate reductions do not matter.
  Exactly the operation codes A to E are known; any other fails the assertion.
\<close>

theorem transforms_exact:
  assumes "unat v \<le> 2 ^ 52"
  shows "(\<forall>s. producer_spec c = Inr s \<longrightarrow>
            (\<exists>w. producer_transform c v = Inr w \<and> unat w = affine (nat (iterations s)) s (unat v) mod unat (spec_m s)))
     \<and> (\<forall>s. consumer_spec c = Inr s \<longrightarrow>
            (\<exists>w. consumer_transform c v = Inr w \<and> unat w = affine (nat (iterations s)) s (unat v) mod unat (spec_m s)))
     \<and> (\<not> valid_opcode c \<longrightarrow>
            producer_transform c v = Inl AssertFailed \<and> consumer_transform c v = Inl AssertFailed)"
proof (intro conjI allI impI)
  show "\<not> valid_opcode c \<Longrightarrow> producer_transform c v = Inl AssertFailed" "\<not> valid_opcode c \<Longrightarrow> consumer_transform c v = Inl AssertFailed"
    by (simp_all add: valid_opcode_def producer_transform_def consumer_transform_def producer_spec_def consumer_spec_def)
qed (use transform_exact [OF _ assms] in \<open>auto simp: producer_transform_def consumer_transform_def\<close>)

lemma transforms_exact_witness:
  "\<exists>w. producer_transform CHR ''A'' 7 = Inr w
     \<and> unat w = affine 9000000 (spec 2003 183492 1000000007 9000000) 7 mod 1000000007"
proof -
  have "unat (7 :: 64 word) \<le> 2 ^ 52" by simp
  from transforms_exact [OF this, of "CHR ''A''"] show ?thesis by (simp add: producer_spec_def)
qed

end
