(* ===== verification/Pipelines.thy ===== *)
theory Pipelines
  imports SharedQueues Transformer "HOL-Library.Multiset"
begin

text \<open>
  The program of \<^verbatim>\<open>NTHU-OS-Pthreads\<close>: a reader, four producers, consumers that a controller creates and deletes, and a
  writer, connected by three bounded queues (\<^verbatim>\<open>reader.hpp\<close>, \<^verbatim>\<open>producer.hpp\<close>, \<^verbatim>\<open>consumer.hpp\<close>,
  \<^verbatim>\<open>consumer_controller.hpp\<close>, \<^verbatim>\<open>writer.hpp\<close>, \<^verbatim>\<open>main.cpp\<close>). Each thread has a place in its code and a step
  function; a schedule is the list of the threads that take the steps. An operation on a queue is one step, the one
  in which it takes effect (theory \<open>SharedQueues\<close>), and blocks where \<^verbatim>\<open>enqueue\<close> or \<^verbatim>\<open>dequeue\<close> waits. Items are
  owned by one thread or one queue at a time and are values here; the \<^verbatim>\<open>Consumer\<close> objects are shared by the
  controller and their threads and have a store of their own. The clock (latencies, the length of a period) and the
  messages on the terminal are left out.
\<close>

subsection \<open>State\<close>

record Item =
  key :: int
  val :: "64 word"
  opcode :: char

datatype reader_place = ReaderTest | ReaderPut Item | ReaderDone
datatype producer_place = ProducerGet | ProducerPut Item

text \<open>\<open>ConsumerTest\<close>: at the loop condition; \<open>ConsumerCall\<close>: about to call \<^verbatim>\<open>dequeue\<close>; \<open>ConsumerGet\<close>: inside it.\<close>

datatype consumer_place = ConsumerTest | ConsumerCall | ConsumerGet | ConsumerWork Item | ConsumerPut Item | ConsumerDone

text \<open>The controller sleeps, has read the size, or has cancelled a consumer that it is about to delete.\<close>

datatype controller_place = ControllerSleep | ControllerSized int | ControllerDelete nat
datatype writer_place = WriterStart | WriterTest | WriterDone
datatype main_place = JoinReader | JoinWriter | DeleteAll | Returning | Exited

text \<open>
  \<open>cancelled\<close> holds the \<^verbatim>\<open>is_cancel\<close> of the consumers in the order of their creation, \<open>None\<close> once the object is
  deleted. \<open>freed\<close>: the objects of \<^verbatim>\<open>main\<close> are deleted.
\<close>

record pipeline =
  input_queue :: "Item TSQueue"
  worker_queue :: "Item TSQueue"
  output_queue :: "Item TSQueue"
  reader :: reader_place
  reader_lines :: int
  input_file :: "Item list"
  producers :: "producer_place list"
  cancelled :: "bool option list"
  consumer_places :: "consumer_place list"
  controller :: controller_place
  consumers :: "nat list"
  low_threshold :: int
  high_threshold :: int
  writer :: writer_place
  writer_lines :: int
  output_file :: "Item list"
  ofs_is_open :: bool
  ofs_fails :: bool
  main :: main_place
  freed :: bool

text \<open>An operation on a queue either blocks or takes effect.\<close>

definition queue_enqueue :: "'a \<Rightarrow> 'a TSQueue \<Rightarrow> 'a TSQueue res option" where
  "queue_enqueue x q = (if must_wait (Enqueue x) q then None else Some (put_item x q))"

definition queue_dequeue :: "'a TSQueue \<Rightarrow> ('a \<times> 'a TSQueue) res option" where
  "queue_dequeue q = (if must_wait Dequeue q then None else Some (take_item q))"

text \<open>What a thread does with the result of a queue operation.\<close>

definition after :: "'a res option \<Rightarrow> ('a \<Rightarrow> 's res) \<Rightarrow> 's res option" where
  "after r f = (case r of None \<Rightarrow> None | Some r \<Rightarrow> Some (bindR r f))"

subsection \<open>Reader, producers, consumers, writer\<close>

text \<open>
  \<^verbatim>\<open>while (reader->expected_lines--)\<close>. Where the file has no more items, the members of the new item stay as
  they are, and the producer will switch on a value that was never assigned.
\<close>

definition reader_step :: "pipeline \<Rightarrow> pipeline res option" where
  "reader_step s =
     (case reader s of
        ReaderTest \<Rightarrow> Some
          (if reader_lines s = 0 then Inr (s\<lparr>reader_lines := - 1, reader := ReaderDone\<rparr>)
           else (case input_file s of
                   [] \<Rightarrow> Inl Uninitialised
                 | i # is \<Rightarrow> Inr (s\<lparr>reader_lines := reader_lines s - 1, input_file := is, reader := ReaderPut i\<rparr>)))
      | ReaderPut i \<Rightarrow> after (queue_enqueue i (input_queue s)) (\<lambda>q. Inr (s\<lparr>input_queue := q, reader := ReaderTest\<rparr>))
      | ReaderDone \<Rightarrow> None)"

definition produced :: "Item \<Rightarrow> Item res" where
  "produced i = bindR (producer_transform (opcode i) (val i)) (\<lambda>v. Inr (i\<lparr>val := v\<rparr>))"

definition consumed :: "Item \<Rightarrow> Item res" where
  "consumed i = bindR (consumer_transform (opcode i) (val i)) (\<lambda>v. Inr (i\<lparr>val := v\<rparr>))"

definition producer_step :: "nat \<Rightarrow> pipeline \<Rightarrow> pipeline res option" where
  "producer_step p s =
     (if p \<ge> length (producers s) then None
      else if freed s then Some (Inl UseAfterFree)
      else (case producers s ! p of
        ProducerGet \<Rightarrow> after (queue_dequeue (input_queue s)) (\<lambda>(i, q).
          bindR (produced i) (\<lambda>i. Inr (s\<lparr>input_queue := q, producers := (producers s)[p := ProducerPut i]\<rparr>)))
      | ProducerPut i \<Rightarrow> after (queue_enqueue i (worker_queue s)) (\<lambda>q.
          Inr (s\<lparr>worker_queue := q, producers := (producers s)[p := ProducerGet]\<rparr>))))"

text \<open>
  Cancellation is deferred and disabled around the work of a round, and between the rounds is no cancellation
  point: \<^verbatim>\<open>pthread_cancel\<close> has no effect, and the thread ends only where it finds \<^verbatim>\<open>is_cancel\<close> set.
  The reads of the consumer's pointers to its transformer and to its output queue are one step, \<open>ConsumerWork\<close>.
\<close>

definition consumer_step :: "nat \<Rightarrow> pipeline \<Rightarrow> pipeline res option" where
  "consumer_step c s =
     (if c \<ge> length (consumer_places s) \<or> c \<ge> length (cancelled s) then None
      else let at = (\<lambda>p s. s\<lparr>consumer_places := (consumer_places s)[c := p]\<rparr>) in
      (case consumer_places s ! c of
        ConsumerTest \<Rightarrow> Some (case cancelled s ! c of
            None \<Rightarrow> Inl UseAfterFree
          | Some cancel \<Rightarrow> Inr (at (if cancel then ConsumerDone else ConsumerCall) s))
      | ConsumerCall \<Rightarrow> Some (case cancelled s ! c of None \<Rightarrow> Inl UseAfterFree | Some _ \<Rightarrow> Inr (at ConsumerGet s))
      | ConsumerGet \<Rightarrow> if freed s then Some (Inl UseAfterFree) else
          after (queue_dequeue (worker_queue s)) (\<lambda>(i, q). Inr (at (ConsumerWork i) (s\<lparr>worker_queue := q\<rparr>)))
      | ConsumerWork i \<Rightarrow> if freed s then Some (Inl UseAfterFree) else
          Some (case cancelled s ! c of
            None \<Rightarrow> Inl UseAfterFree
          | Some _ \<Rightarrow> bindR (consumed i) (\<lambda>i. Inr (at (ConsumerPut i) s)))
      | ConsumerPut i \<Rightarrow> if freed s then Some (Inl UseAfterFree) else
          after (queue_enqueue i (output_queue s)) (\<lambda>q. Inr (at ConsumerTest (s\<lparr>output_queue := q\<rparr>)))
      | ConsumerDone \<Rightarrow> None))"

definition writer_step :: "pipeline \<Rightarrow> pipeline res option" where
  "writer_step s =
     (case writer s of
        WriterStart \<Rightarrow> Some (Inr (s\<lparr>writer := if ofs_is_open s then WriterTest else WriterDone\<rparr>))
      | WriterTest \<Rightarrow>
          if writer_lines s > 0
          then after (queue_dequeue (output_queue s)) (\<lambda>(i, q).
                 if ofs_fails s then Inr (s\<lparr>output_queue := q, writer := WriterDone\<rparr>)
                 else Inr (s\<lparr>output_queue := q, output_file := output_file s @ [i], writer_lines := writer_lines s - 1\<rparr>))
          else Some (Inr (s\<lparr>writer := WriterDone\<rparr>))
      | WriterDone \<Rightarrow> None)"

subsection \<open>The controller\<close>

text \<open>\<^verbatim>\<open>get_size\<close> reads the size without the mutex, so the comparison is with the value of an earlier moment.\<close>

definition controller_step :: "pipeline \<Rightarrow> pipeline res option" where
  "controller_step s =
     (if freed s then Some (Inl UseAfterFree)
      else (case controller s of
        ControllerSleep \<Rightarrow> Some (Inr (s\<lparr>controller := ControllerSized (get_size (worker_queue s))\<rparr>))
      | ControllerSized n \<Rightarrow> Some
          (if n > high_threshold s then
             Inr (s\<lparr>cancelled := cancelled s @ [Some False], consumer_places := consumer_places s @ [ConsumerTest],
                    consumers := consumers s @ [length (cancelled s)], controller := ControllerSleep\<rparr>)
           else if n < low_threshold s \<and> length (consumers s) > 1 then
             (let c = last (consumers s) in
              if c < length (cancelled s) \<and> cancelled s ! c \<noteq> None
              then Inr (s\<lparr>cancelled := (cancelled s)[c := Some True], controller := ControllerDelete c\<rparr>)
              else Inl UseAfterFree)
           else Inr (s\<lparr>controller := ControllerSleep\<rparr>))
      | ControllerDelete c \<Rightarrow> Some
          (Inr (s\<lparr>consumers := butlast (consumers s), cancelled := (cancelled s)[c := None], controller := ControllerSleep\<rparr>))))"

subsection \<open>The program\<close>

text \<open>
  \<^verbatim>\<open>main\<close> waits for the reader and the writer and then deletes its objects, in one step here, before it returns, which
  ends the process with all its threads.
\<close>

definition main_step :: "pipeline \<Rightarrow> pipeline res option" where
  "main_step s =
     (case main s of
        JoinReader \<Rightarrow> if reader s = ReaderDone then Some (Inr (s\<lparr>main := JoinWriter\<rparr>)) else None
      | JoinWriter \<Rightarrow> if writer s = WriterDone then Some (Inr (s\<lparr>main := DeleteAll\<rparr>)) else None
      | DeleteAll \<Rightarrow> Some (Inr (s\<lparr>freed := True, main := Returning\<rparr>))
      | Returning \<Rightarrow> Some (Inr (s\<lparr>main := Exited\<rparr>))
      | Exited \<Rightarrow> None)"

definition pipeline_new :: "int \<Rightarrow> int \<Rightarrow> int \<Rightarrow> Item list \<Rightarrow> bool \<Rightarrow> pipeline" where
  "pipeline_new low high expected_lines file opens =
     \<lparr>input_queue = TSQueue_new 200, worker_queue = TSQueue_new 200, output_queue = TSQueue_new 4000,
      reader = ReaderTest, reader_lines = expected_lines, input_file = file,
      producers = replicate 4 ProducerGet, cancelled = [], consumer_places = [],
      controller = ControllerSleep, consumers = [], low_threshold = low, high_threshold = high,
      writer = WriterStart, writer_lines = expected_lines, output_file = [], ofs_is_open = opens, ofs_fails = False,
      main = JoinReader, freed = False\<rparr>"

text \<open>\<^verbatim>\<open>WORKER_QUEUE_SIZE * CONSUMER_CONTROLLER_LOW_THRESHOLD_PERCENTAGE / 100\<close>, and the same with \<^verbatim>\<open>HIGH\<close>.\<close>

definition main_new :: "int \<Rightarrow> Item list \<Rightarrow> bool \<Rightarrow> pipeline" where
  "main_new = pipeline_new (200 * 20 sdiv 100) (200 * 80 sdiv 100)"

text \<open>\<open>Host\<close>: the output stream fails from now on.\<close>

datatype who = Reader | Producer nat | Consumer nat | Controller | Writer | Main | Host

fun pipeline_step :: "who \<Rightarrow> pipeline \<Rightarrow> pipeline res option" where
  "pipeline_step Reader s = reader_step s"
| "pipeline_step (Producer p) s = producer_step p s"
| "pipeline_step (Consumer c) s = consumer_step c s"
| "pipeline_step Controller s = controller_step s"
| "pipeline_step Writer s = writer_step s"
| "pipeline_step Main s = main_step s"
| "pipeline_step Host s = Some (Inr (s\<lparr>ofs_fails := True\<rparr>))"

text \<open>A schedule in which a thread would have to step while it is blocked, or after the process ended, is none.\<close>

fun pipeline_run :: "who list \<Rightarrow> pipeline \<Rightarrow> pipeline res option" where
  "pipeline_run [] s = Some (Inr s)"
| "pipeline_run (w # ws) s =
     (if main s = Exited then None
      else case pipeline_step w s of
             None \<Rightarrow> None
           | Some (Inl e) \<Rightarrow> if ws = [] then Some (Inl e) else None
           | Some (Inr s') \<Rightarrow> pipeline_run ws s')"

end
