(* ===== verification/PipelineLaws.thy ===== *)
theory PipelineLaws
  imports Pipelines
begin

text \<open>
  What the program of theory \<open>Pipelines\<close> guarantees, for every schedule of its threads: no item is lost or written
  twice, the output is the transformed input in some order; when the first consumer is there, the program
  finishes; a small input never gets a consumer; and deleting a consumer leaves its thread with a dangling pointer.
\<close>

subsection \<open>The queues as steps\<close>

lemma enqueue_ok:
  assumes "ring_ok q" "queue_enqueue x q = Some r"
  shows "\<exists>q'. r = Inr q' \<and> ring_ok q' \<and> contents q' = contents q @ [x] \<and> buffer_size q' = buffer_size q"
proof -
  have "\<not> must_wait (Enqueue x) q" "r = put_item x q" using assms(2) by (auto simp: queue_enqueue_def split: if_splits)
  then have "qsize q < buffer_size q" using assms(1) by (simp add: must_wait_def ring_ok_def)
  from put_item_ok [OF assms(1) this, of x] \<open>r = put_item x q\<close> show ?thesis by auto
qed

lemma dequeue_ok:
  assumes "ring_ok q" "queue_dequeue q = Some r"
  shows "\<exists>x q'. r = Inr (x, q') \<and> ring_ok q' \<and> contents q = x # contents q' \<and> buffer_size q' = buffer_size q"
proof -
  have "\<not> must_wait Dequeue q" "r = take_item q" using assms(2) by (auto simp: queue_dequeue_def split: if_splits)
  then have "0 < qsize q" using assms(1) by (simp add: must_wait_def ring_ok_def)
  from take_item_ok [OF assms(1) this] \<open>r = take_item q\<close> show ?thesis by auto
qed

lemma enqueue_blocks: "ring_ok q \<Longrightarrow> queue_enqueue x q = None \<longleftrightarrow> int (length (contents q)) = buffer_size q"
  by (simp add: queue_enqueue_def must_wait_def length_contents)

lemma dequeue_blocks: "ring_ok q \<Longrightarrow> queue_dequeue q = None \<longleftrightarrow> contents q = []"
  using length_contents [of q] by (cases "contents q") (auto simp: queue_dequeue_def must_wait_def)

lemma after_Some: "after r f = Some z \<longleftrightarrow> (\<exists>y. r = Some y \<and> z = bindR y f)"
  by (auto simp: after_def split: option.splits)

lemma after_None: "after r f = None \<longleftrightarrow> r = None"
  by (simp add: after_def split: option.splits)

lemma enqueue_after:
  assumes "after (queue_enqueue x q) f = Some z" "ring_ok q"
  obtains q' where "z = f q'" "ring_ok q'" "contents q' = contents q @ [x]" "buffer_size q' = buffer_size q"
  using assms enqueue_ok by (fastforce simp: after_Some)

lemma dequeue_after:
  assumes "after (queue_dequeue q) f = Some z" "ring_ok q"
  obtains x q' where "z = f (x, q')" "ring_ok q'" "contents q = x # contents q'" "buffer_size q' = buffer_size q"
  using assms dequeue_ok by (fastforce simp: after_Some)

lemma Inr_eq_bindR: "Inr y = bindR m f \<longleftrightarrow> (\<exists>x. m = Inr x \<and> f x = Inr y)"
  by (cases m) auto

subsection \<open>Where the items are\<close>

definition reader_items :: "reader_place \<Rightarrow> Item list" where
  "reader_items p = (case p of ReaderPut i \<Rightarrow> [i] | _ \<Rightarrow> [])"

definition producer_items :: "producer_place \<Rightarrow> Item list" where
  "producer_items p = (case p of ProducerPut i \<Rightarrow> [i] | _ \<Rightarrow> [])"

definition work_items :: "consumer_place \<Rightarrow> Item list" where
  "work_items p = (case p of ConsumerWork i \<Rightarrow> [i] | _ \<Rightarrow> [])"

definition put_items :: "consumer_place \<Rightarrow> Item list" where
  "put_items p = (case p of ConsumerPut i \<Rightarrow> [i] | _ \<Rightarrow> [])"

lemma items_simps [simp]:
  "reader_items ReaderTest = []" "reader_items ReaderDone = []" "reader_items (ReaderPut i) = [i]"
  "producer_items ProducerGet = []" "producer_items (ProducerPut i) = [i]"
  "work_items ConsumerTest = []" "work_items ConsumerCall = []" "work_items ConsumerGet = []" "work_items ConsumerDone = []"
  "work_items (ConsumerWork i) = [i]" "work_items (ConsumerPut i) = []"
  "put_items ConsumerTest = []" "put_items ConsumerCall = []" "put_items ConsumerGet = []" "put_items ConsumerDone = []"
  "put_items (ConsumerWork i) = []" "put_items (ConsumerPut i) = [i]"
  by (simp_all add: reader_items_def producer_items_def work_items_def put_items_def)

definition transformed :: "Item \<Rightarrow> Item res" where
  "transformed i = bindR (produced i) consumed"

text \<open>Items not yet produced, produced but not yet consumed, and finished.\<close>

definition raw :: "pipeline \<Rightarrow> Item multiset" where
  "raw s = mset (input_file s) + mset (reader_items (reader s)) + mset (contents (input_queue s))"

definition half :: "pipeline \<Rightarrow> Item multiset" where
  "half s = mset (concat (map producer_items (producers s))) + mset (contents (worker_queue s))
     + mset (concat (map work_items (consumer_places s)))"

definition full :: "pipeline \<Rightarrow> Item multiset" where
  "full s = mset (concat (map put_items (consumer_places s))) + mset (contents (output_queue s)) + mset (output_file s)"

definition balance :: "pipeline \<Rightarrow> (Item res) multiset" where
  "balance s = image_mset transformed (raw s) + image_mset consumed (half s) + image_mset Inr (full s)"

lemma mset_items_update:
  assumes "p < length xs"
  shows "mset (concat (map f (xs[p := y]))) + mset (f (xs ! p)) = mset (concat (map f xs)) + mset (f y)"
proof -
  have "xs = take p xs @ xs ! p # drop (Suc p) xs" using assms by (simp add: id_take_nth_drop)
  then have "mset (concat (map f xs)) = mset (concat (map f (take p xs @ xs ! p # drop (Suc p) xs)))" by simp
  then show ?thesis by (simp add: upd_conv_take_nth_drop assms)
qed

lemma mset_items_set:
  assumes "p < length xs" "f (xs ! p) = []"
  shows "mset (concat (map f (xs[p := y]))) = mset (concat (map f xs)) + mset (f y)"
  using mset_items_update [OF assms(1), of f y] by (simp add: assms(2))

lemma mset_items_reset:
  assumes "p < length xs" "f y = []"
  shows "mset (concat (map f xs)) = mset (concat (map f (xs[p := y]))) + mset (f (xs ! p))"
  using mset_items_update [OF assms(1), of f y] by (simp add: assms(2))

subsection \<open>The invariant\<close>

definition reader_left :: "pipeline \<Rightarrow> int" where
  "reader_left s = (if reader s = ReaderDone then 0 else reader_lines s)"

definition queues_ok :: "pipeline \<Rightarrow> bool" where
  "queues_ok s \<longleftrightarrow> ring_ok (input_queue s) \<and> ring_ok (worker_queue s) \<and> ring_ok (output_queue s)
     \<and> buffer_size (input_queue s) = 200 \<and> buffer_size (worker_queue s) = 200 \<and> buffer_size (output_queue s) = 4000
     \<and> length (producers s) = 4 \<and> length (consumer_places s) = length (cancelled s)"

definition reader_ok :: "int \<Rightarrow> Item list \<Rightarrow> pipeline \<Rightarrow> bool" where
  "reader_ok n file s \<longleftrightarrow> 0 \<le> reader_left s \<and> reader_left s \<le> n \<and> input_file s = drop (nat (n - reader_left s)) file"

definition writer_ok :: "int \<Rightarrow> bool \<Rightarrow> pipeline \<Rightarrow> bool" where
  "writer_ok n opens s \<longleftrightarrow> 0 \<le> writer_lines s \<and> writer_lines s + int (length (output_file s)) = n \<and> ofs_is_open s = opens
     \<and> (writer s = WriterDone \<and> opens \<and> \<not> ofs_fails s \<longrightarrow> writer_lines s = 0)"

definition items_ok :: "Item list \<Rightarrow> pipeline \<Rightarrow> bool" where
  "items_ok file s \<longleftrightarrow> balance s \<subseteq># image_mset transformed (mset file)
     \<and> (\<not> ofs_fails s \<longrightarrow> balance s = image_mset transformed (mset file))"

definition main_ok :: "pipeline \<Rightarrow> bool" where
  "main_ok s \<longleftrightarrow> (main s \<noteq> JoinReader \<longrightarrow> reader s = ReaderDone) \<and> (main s \<notin> {JoinReader, JoinWriter} \<longrightarrow> writer s = WriterDone)
     \<and> (freed s \<longrightarrow> main s \<in> {Returning, Exited})"

definition pinv :: "int \<Rightarrow> Item list \<Rightarrow> bool \<Rightarrow> pipeline \<Rightarrow> bool" where
  "pinv n file opens s \<longleftrightarrow> queues_ok s \<and> reader_ok n file s \<and> writer_ok n opens s \<and> items_ok file s \<and> main_ok s"

lemma pinvD:
  assumes "pinv n file opens s"
  shows "queues_ok s" "reader_ok n file s" "writer_ok n opens s" "items_ok file s" "main_ok s"
  using assms by (simp_all add: pinv_def)

lemma queuesD:
  assumes "queues_ok s"
  shows "ring_ok (input_queue s)" "ring_ok (worker_queue s)" "ring_ok (output_queue s)"
    "buffer_size (input_queue s) = 200" "buffer_size (worker_queue s) = 200" "buffer_size (output_queue s) = 4000"
    "length (producers s) = 4" "length (consumer_places s) = length (cancelled s)"
  using assms by (simp_all add: queues_ok_def)

lemma items_ok_cong: "items_ok file s \<Longrightarrow> balance s' = balance s \<Longrightarrow> ofs_fails s' = ofs_fails s \<Longrightarrow> items_ok file s'"
  by (simp add: items_ok_def)

lemma pinv_new:
  assumes "0 \<le> n"
  shows "pinv n file opens (pipeline_new low high n file opens)"
  using assms
  by (simp add: pinv_def queues_ok_def reader_ok_def writer_ok_def items_ok_def main_ok_def pipeline_new_def
      balance_def raw_def half_def full_def reader_left_def ring_new eval_nat_numeral)
    (simp add: TSQueue_new_def)

lemma reader_ok_cong:
  assumes "reader_ok n file s" "reader s' = reader s" "reader_lines s' = reader_lines s" "input_file s' = input_file s"
  shows "reader_ok n file s'"
proof -
  have "reader_left s' = reader_left s" by (simp add: reader_left_def assms)
  with assms(1,4) show ?thesis by (simp add: reader_ok_def)
qed

lemma writer_ok_cong:
  "writer_ok n opens s \<Longrightarrow> writer s' = writer s \<Longrightarrow> writer_lines s' = writer_lines s \<Longrightarrow> output_file s' = output_file s
     \<Longrightarrow> ofs_is_open s' = ofs_is_open s \<Longrightarrow> ofs_fails s' = ofs_fails s \<Longrightarrow> writer_ok n opens s'"
  by (simp add: writer_ok_def)

lemma main_ok_cong:
  "main_ok s \<Longrightarrow> reader s' = reader s \<Longrightarrow> writer s' = writer s \<Longrightarrow> main s' = main s \<Longrightarrow> freed s' = freed s \<Longrightarrow> main_ok s'"
  by (simp add: main_ok_def)

lemma main_waits:
  assumes "main_ok s"
  shows "reader s \<noteq> ReaderDone \<Longrightarrow> main s = JoinReader \<and> \<not> freed s"
    "writer s \<noteq> WriterDone \<Longrightarrow> main s \<in> {JoinReader, JoinWriter} \<and> \<not> freed s"
  using assms by (auto simp: main_ok_def)

definition pframe :: "pipeline \<Rightarrow> pipeline \<Rightarrow> bool" where
  "pframe s s' \<longleftrightarrow> reader s' = reader s \<and> reader_lines s' = reader_lines s \<and> input_file s' = input_file s
     \<and> writer s' = writer s \<and> writer_lines s' = writer_lines s \<and> output_file s' = output_file s
     \<and> ofs_is_open s' = ofs_is_open s \<and> ofs_fails s' = ofs_fails s \<and> main s' = main s \<and> freed s' = freed s"

lemma pinvI:
  assumes "pinv n file opens s" "queues_ok s'" "balance s' = balance s" "pframe s s'"
  shows "pinv n file opens s'"
proof -
  note i = pinvD [OF assms(1)] and f = assms(4) [unfolded pframe_def]
  have "reader_ok n file s'" by (rule reader_ok_cong [OF i(2)]) (use f in simp_all)
  moreover have "writer_ok n opens s'" by (rule writer_ok_cong [OF i(3)]) (use f in simp_all)
  moreover have "items_ok file s'" by (rule items_ok_cong [OF i(4) assms(3)]) (use f in simp)
  moreover have "main_ok s'" by (rule main_ok_cong [OF i(5)]) (use f in simp_all)
  ultimately show ?thesis using assms(2) by (simp add: pinv_def)
qed

lemma reader_keeps:
  assumes "pinv n file opens s" "reader_step s = Some (Inr s')"
  shows "pinv n file opens s'"
proof -
  note i = pinvD [OF assms(1)] and q = queuesD [OF pinvD(1) [OF assms(1)]]
  have "reader s \<noteq> ReaderDone" using assms(2) by (auto simp: reader_step_def)
  with main_waits(1) [OF i(5)] have m: "main s = JoinReader" "\<not> freed s" by auto
  have "queues_ok s' \<and> reader_ok n file s' \<and> balance s' = balance s \<and> writer s' = writer s \<and> writer_lines s' = writer_lines s
     \<and> output_file s' = output_file s \<and> ofs_is_open s' = ofs_is_open s \<and> ofs_fails s' = ofs_fails s
     \<and> main s' = main s \<and> freed s' = freed s"
  proof (cases "reader s")
    case ReaderTest
    show ?thesis
    proof (cases "reader_lines s = 0")
      case True
      with ReaderTest assms(2) have s': "s' = s\<lparr>reader_lines := - 1, reader := ReaderDone\<rparr>" by (simp add: reader_step_def)
      have "balance s' = balance s" by (simp add: s' balance_def raw_def half_def full_def ReaderTest)
      moreover have "reader_ok n file s'" using i(2) True ReaderTest by (simp add: s' reader_ok_def reader_left_def)
      ultimately show ?thesis using i(1) by (simp add: s' queues_ok_def)
    next
      case False
      with ReaderTest assms(2) obtain x xs where f: "input_file s = x # xs" and
        s': "s' = s\<lparr>reader_lines := reader_lines s - 1, input_file := xs, reader := ReaderPut x\<rparr>"
        by (auto simp: reader_step_def split: list.splits)
      from i(2) ReaderTest f False have
        r: "0 < reader_lines s" "reader_lines s \<le> n" "x # xs = drop (nat (n - reader_lines s)) file"
        by (simp_all add: reader_ok_def reader_left_def)
      have "nat (n - (reader_lines s - 1)) = Suc (nat (n - reader_lines s))" using r(2) by simp
      moreover have "xs = drop (Suc (nat (n - reader_lines s))) file" using r(3) by (metis drop_Suc list.sel(3) tl_drop)
      ultimately have "reader_ok n file s'" using r(1,2) by (simp add: s' reader_ok_def reader_left_def)
      moreover have "balance s' = balance s" by (simp add: s' balance_def raw_def half_def full_def ReaderTest f)
      ultimately show ?thesis using i(1) by (simp add: s' queues_ok_def)
    qed
  next
    case (ReaderPut x)
    with assms(2) obtain k where k: "ring_ok k" "contents k = contents (input_queue s) @ [x]"
      "buffer_size k = buffer_size (input_queue s)" and s': "s' = s\<lparr>input_queue := k, reader := ReaderTest\<rparr>"
      using q(1) by (auto simp: reader_step_def elim!: enqueue_after)
    have "balance s' = balance s" by (simp add: s' balance_def raw_def half_def full_def ReaderPut k)
    moreover have "reader_ok n file s'" using i(2) ReaderPut by (simp add: s' reader_ok_def reader_left_def)
    ultimately show ?thesis using i(1) k by (simp add: s' queues_ok_def)
  qed (use assms(2) in \<open>simp add: reader_step_def\<close>)
  then have s': "queues_ok s'" "reader_ok n file s'" "balance s' = balance s" "writer s' = writer s"
    "writer_lines s' = writer_lines s" "output_file s' = output_file s" "ofs_is_open s' = ofs_is_open s"
    "ofs_fails s' = ofs_fails s" "main s' = main s" "freed s' = freed s" by auto
  have "writer_ok n opens s'" by (rule writer_ok_cong [OF i(3)]) (fact s')+
  moreover have "items_ok file s'" by (rule items_ok_cong [OF i(4)]) (fact s')+
  moreover have "main_ok s'" using m s' by (simp add: main_ok_def)
  ultimately show ?thesis using s' by (simp add: pinv_def)
qed

lemma producer_keeps:
  assumes "pinv n file opens s" "producer_step p s = Some (Inr s')"
  shows "pinv n file opens s'"
proof -
  note i = pinvD [OF assms(1)] and q = queuesD [OF pinvD(1) [OF assms(1)]]
  have p: "p < length (producers s)" "\<not> freed s" using assms(2) by (auto simp: producer_step_def split: if_splits)
  show ?thesis
  proof (cases "producers s ! p")
    case ProducerGet
    with assms(2) p obtain x y k where k: "ring_ok k" "contents (input_queue s) = x # contents k"
      "buffer_size k = buffer_size (input_queue s)" "produced x = Inr y"
      and s': "s' = s\<lparr>input_queue := k, producers := (producers s)[p := ProducerPut y]\<rparr>"
      using q(1) by (auto simp: producer_step_def Inr_eq_bindR elim!: dequeue_after)
    have "balance s' = balance s"
      using mset_items_set [of p "producers s" producer_items "ProducerPut y"] p(1)
      by (simp add: s' balance_def raw_def half_def full_def ProducerGet k(2) transformed_def k(4))
    then show ?thesis using i(1) k by (intro pinvI [OF assms(1)]) (simp_all add: s' queues_ok_def pframe_def)
  next
    case (ProducerPut x)
    with assms(2) p obtain k where k: "ring_ok k" "contents k = contents (worker_queue s) @ [x]"
      "buffer_size k = buffer_size (worker_queue s)" and s': "s' = s\<lparr>worker_queue := k, producers := (producers s)[p := ProducerGet]\<rparr>"
      using q(2) by (auto simp: producer_step_def elim!: enqueue_after)
    have "balance s' = balance s"
      using mset_items_reset [of p "producers s" producer_items ProducerGet] p(1)
      by (simp add: s' balance_def raw_def half_def full_def ProducerPut k(2))
    then show ?thesis using i(1) k by (intro pinvI [OF assms(1)]) (simp_all add: s' queues_ok_def pframe_def)
  qed
qed

lemma consumer_keeps:
  assumes "pinv n file opens s" "consumer_step c s = Some (Inr s')"
  shows "pinv n file opens s'"
proof -
  note i = pinvD [OF assms(1)] and q = queuesD [OF pinvD(1) [OF assms(1)]]
  have c: "c < length (consumer_places s)" using assms(2) by (auto simp: consumer_step_def split: if_splits)
  have step: "queues_ok s' \<and> balance s' = balance s \<and> pframe s s'"
  proof (cases "consumer_places s ! c")
    case (ConsumerWork x)
    with assms(2) c q(8) obtain y where y: "consumed x = Inr y" and
      s': "s' = s\<lparr>consumer_places := (consumer_places s)[c := ConsumerPut y]\<rparr>"
      by (auto simp: consumer_step_def Inr_eq_bindR bindR_eq_Inr split: if_splits option.splits)
    have "balance s' = balance s"
      using mset_items_reset [of c "consumer_places s" work_items "ConsumerPut y"]
        mset_items_set [of c "consumer_places s" put_items "ConsumerPut y"] c
      by (simp add: s' balance_def raw_def half_def full_def ConsumerWork y)
    then show ?thesis using i(1) by (simp add: s' queues_ok_def pframe_def)
  next
    case (ConsumerPut x)
    with assms(2) c q(8) obtain k where k: "ring_ok k" "contents k = contents (output_queue s) @ [x]"
      "buffer_size k = buffer_size (output_queue s)" and
      s': "s' = s\<lparr>output_queue := k, consumer_places := (consumer_places s)[c := ConsumerTest]\<rparr>"
      using q(3) by (auto simp: consumer_step_def split: if_splits elim!: enqueue_after)
    have "balance s' = balance s"
      using mset_items_reset [of c "consumer_places s" put_items ConsumerTest]
        mset_items_set [of c "consumer_places s" work_items ConsumerTest] c
      by (simp add: s' balance_def raw_def half_def full_def ConsumerPut k)
    then show ?thesis using i(1) k by (simp add: s' queues_ok_def pframe_def)
  next
    case ConsumerGet
    with assms(2) c q(8) obtain x k where k: "ring_ok k" "contents (worker_queue s) = x # contents k"
      "buffer_size k = buffer_size (worker_queue s)" and
      s': "s' = s\<lparr>worker_queue := k, consumer_places := (consumer_places s)[c := ConsumerWork x]\<rparr>"
      using q(2) by (auto simp: consumer_step_def split: if_splits elim!: dequeue_after)
    have "balance s' = balance s"
      using mset_items_set [of c "consumer_places s" put_items "ConsumerWork x"]
        mset_items_set [of c "consumer_places s" work_items "ConsumerWork x"] c
      by (simp add: s' balance_def raw_def half_def full_def ConsumerGet k)
    then show ?thesis using i(1) k by (simp add: s' queues_ok_def pframe_def)
  next
    case ConsumerDone
    with assms(2) c show ?thesis by (simp add: consumer_step_def split: if_splits)
  next
    case ConsumerTest
    with assms(2) c q(8) consider "s' = s\<lparr>consumer_places := (consumer_places s)[c := ConsumerDone]\<rparr>"
      | "s' = s\<lparr>consumer_places := (consumer_places s)[c := ConsumerCall]\<rparr>"
      by (auto simp: consumer_step_def split: if_splits option.splits)
    then obtain p where p: "work_items p = []" "put_items p = []" and
      s': "s' = s\<lparr>consumer_places := (consumer_places s)[c := p]\<rparr>" by cases (metis items_simps)+
    have "balance s' = balance s"
      using mset_items_set [of c "consumer_places s" put_items p] mset_items_set [of c "consumer_places s" work_items p] c p
      by (simp add: s' balance_def raw_def half_def full_def ConsumerTest)
    then show ?thesis using i(1) by (simp add: s' queues_ok_def pframe_def)
  next
    case ConsumerCall
    with assms(2) c q(8) have s': "s' = s\<lparr>consumer_places := (consumer_places s)[c := ConsumerGet]\<rparr>"
      by (auto simp: consumer_step_def split: if_splits option.splits)
    have "balance s' = balance s"
      using mset_items_set [of c "consumer_places s" put_items ConsumerGet]
        mset_items_set [of c "consumer_places s" work_items ConsumerGet] c
      by (simp add: s' balance_def raw_def half_def full_def ConsumerCall)
    then show ?thesis using i(1) by (simp add: s' queues_ok_def pframe_def)
  qed
  then show ?thesis by (intro pinvI [OF assms(1)]) simp_all
qed

lemma controller_keeps:
  assumes "pinv n file opens s" "controller_step s = Some (Inr s')"
  shows "pinv n file opens s'"
proof -
  note i = pinvD [OF assms(1)]
  have "queues_ok s' \<and> balance s' = balance s \<and> pframe s s'"
    using assms(2) i(1)
    by (auto simp: controller_step_def Let_def queues_ok_def balance_def raw_def half_def full_def pframe_def
        split: controller_place.splits if_splits)
  then show ?thesis by (intro pinvI [OF assms(1)]) simp_all
qed

lemma writer_keeps:
  assumes "pinv n file opens s" "writer_step s = Some (Inr s')"
  shows "pinv n file opens s'"
proof -
  note i = pinvD [OF assms(1)] and q = queuesD [OF pinvD(1) [OF assms(1)]]
  have "writer s \<noteq> WriterDone" using assms(2) by (auto simp: writer_step_def)
  with main_waits(2) [OF i(5)] have m: "main s \<in> {JoinReader, JoinWriter}" "\<not> freed s" by auto
  have "queues_ok s' \<and> writer_ok n opens s' \<and> items_ok file s' \<and> reader s' = reader s \<and> reader_lines s' = reader_lines s
     \<and> input_file s' = input_file s \<and> main s' = main s \<and> freed s' = freed s"
  proof (cases "writer s = WriterTest \<and> writer_lines s > 0")
    case True
    with assms(2) obtain x k where k: "ring_ok k" "contents (output_queue s) = x # contents k"
      "buffer_size k = buffer_size (output_queue s)" and
      s': "s' = (if ofs_fails s then s\<lparr>output_queue := k, writer := WriterDone\<rparr>
        else s\<lparr>output_queue := k, output_file := output_file s @ [x], writer_lines := writer_lines s - 1\<rparr>)"
      using q(3) by (auto simp: writer_step_def split: if_splits elim!: dequeue_after)
    show ?thesis
    proof (cases "ofs_fails s")
      case fails: True
      have "balance s = add_mset (Inr x) (balance s')" using fails by (simp add: s' balance_def raw_def half_def full_def k)
      then have "balance s' \<subseteq># balance s" by simp
      with i(4) have "balance s' \<subseteq># image_mset transformed (mset file)"
        unfolding items_ok_def by (meson subset_mset.order_trans)
      then have "items_ok file s'" using fails by (simp add: items_ok_def s')
      then show ?thesis using i(1,3) k fails by (simp add: s' queues_ok_def writer_ok_def)
    next
      case ok: False
      have "balance s' = balance s" using ok by (simp add: s' balance_def raw_def half_def full_def k)
      then have "items_ok file s'" by (rule items_ok_cong [OF i(4)]) (use ok in \<open>simp add: s'\<close>)
      then show ?thesis using i(1,3) k ok True by (auto simp: s' queues_ok_def writer_ok_def)
    qed
  next
    case False
    with assms(2) have s': "s' = s\<lparr>writer := if writer s = WriterStart \<and> ofs_is_open s then WriterTest else WriterDone\<rparr>"
      by (auto simp: writer_step_def split: writer_place.splits if_splits)
    have "balance s' = balance s" by (simp add: s' balance_def raw_def half_def full_def)
    then have "items_ok file s'" by (rule items_ok_cong [OF i(4)]) (simp add: s')
    moreover have "writer s = WriterTest \<Longrightarrow> writer_lines s = 0" using False i(3) by (simp add: writer_ok_def)
    ultimately show ?thesis using i(1,3) by (cases "writer s") (simp_all add: s' queues_ok_def writer_ok_def)
  qed
  then have s': "queues_ok s'" "writer_ok n opens s'" "items_ok file s'" "reader s' = reader s"
    "reader_lines s' = reader_lines s" "input_file s' = input_file s" "main s' = main s" "freed s' = freed s" by auto
  have "reader_ok n file s'" by (rule reader_ok_cong [OF i(2)]) (fact s')+
  moreover have "main_ok s'" using m s' i(5) by (auto simp: main_ok_def)
  ultimately show ?thesis using s' by (simp add: pinv_def)
qed

lemma main_keeps:
  assumes "pinv n file opens s" "main_step s = Some (Inr s')"
  shows "pinv n file opens s'"
proof -
  note i = pinvD [OF assms(1)]
  have f: "queues_ok s' \<and> balance s' = balance s \<and> reader s' = reader s \<and> reader_lines s' = reader_lines s
     \<and> input_file s' = input_file s \<and> writer s' = writer s \<and> writer_lines s' = writer_lines s
     \<and> output_file s' = output_file s \<and> ofs_is_open s' = ofs_is_open s \<and> ofs_fails s' = ofs_fails s"
    using assms(2) i(1)
    by (auto simp: main_step_def queues_ok_def balance_def raw_def half_def full_def split: main_place.splits if_splits)
  have "reader_ok n file s'" by (rule reader_ok_cong [OF i(2)]) (simp_all add: f)
  moreover have "writer_ok n opens s'" by (rule writer_ok_cong [OF i(3)]) (simp_all add: f)
  moreover have "items_ok file s'" by (rule items_ok_cong [OF i(4)]) (simp_all add: f)
  moreover have "main_ok s'" using i(5) assms(2) by (auto simp: main_ok_def main_step_def split: main_place.splits if_splits)
  ultimately show ?thesis using f by (simp add: pinv_def)
qed

lemma host_keeps:
  assumes "pinv n file opens s"
  shows "pinv n file opens (s\<lparr>ofs_fails := True\<rparr>)" (is "pinv n file opens ?s")
proof -
  note i = pinvD [OF assms(1)]
  have "queues_ok ?s" using i(1) by (simp add: queues_ok_def)
  moreover have "reader_ok n file ?s" by (rule reader_ok_cong [OF i(2)]) simp_all
  moreover have "balance ?s = balance s" by (simp add: balance_def raw_def half_def full_def)
  then have "items_ok file ?s" using i(4) by (simp add: items_ok_def)
  moreover have "writer_ok n opens ?s" using i(3) by (simp add: writer_ok_def)
  moreover have "main_ok ?s" by (rule main_ok_cong [OF i(5)]) simp_all
  ultimately show ?thesis by (simp add: pinv_def)
qed

lemma step_keeps:
  assumes "pinv n file opens s" "pipeline_step w s = Some (Inr s')"
  shows "pinv n file opens s'"
proof (cases w)
  case Host
  with assms(2) host_keeps [OF assms(1)] show ?thesis by simp
qed (use assms(2) reader_keeps [OF assms(1)] producer_keeps [OF assms(1)] consumer_keeps [OF assms(1)]
       controller_keeps [OF assms(1)] writer_keeps [OF assms(1)] main_keeps [OF assms(1)] in simp_all)

text \<open>Induction over schedules.\<close>

lemma run_induct:
  assumes "pipeline_run ws s = Some (Inr s')" "P s"
    and "\<And>w s s'. w \<in> set ws \<Longrightarrow> P s \<Longrightarrow> main s \<noteq> Exited \<Longrightarrow> pipeline_step w s = Some (Inr s') \<Longrightarrow> P s'"
  shows "P s'"
  using assms
proof (induction ws arbitrary: s)
  case (Cons w ws)
  then obtain s1 where s1: "pipeline_step w s = Some (Inr s1)" "pipeline_run ws s1 = Some (Inr s')" "main s \<noteq> Exited"
    by (auto split: if_splits option.splits sum.splits)
  have "P s1" by (rule Cons.prems(3) [OF _ Cons.prems(2) s1(3,1)]) simp
  from Cons.IH [OF s1(2) this] Cons.prems(3) show ?case by (meson list.set_intros(2))
qed simp

lemma run_pinv: "pipeline_run ws s = Some (Inr s') \<Longrightarrow> pinv n file opens s \<Longrightarrow> pinv n file opens s'"
  by (erule run_induct) (auto intro: step_keeps)

subsection \<open>The output\<close>

definition in_flight :: "pipeline \<Rightarrow> (Item res) multiset" where
  "in_flight s = image_mset transformed (mset (reader_items (reader s)) + mset (contents (input_queue s)))
     + image_mset consumed (half s)
     + image_mset Inr (mset (concat (map put_items (consumer_places s))) + mset (contents (output_queue s)))"

lemma balance_parts:
  "balance s = image_mset transformed (mset (input_file s)) + in_flight s + image_mset Inr (mset (output_file s))"
  by (simp add: balance_def raw_def full_def in_flight_def)

text \<open>What has been read is in flight or written.\<close>

lemma read_part:
  assumes "pinv n file opens s"
  shows "in_flight s + image_mset Inr (mset (output_file s)) \<subseteq># image_mset transformed (mset (take (nat (n - reader_left s)) file))"
    "\<not> ofs_fails s \<Longrightarrow>
     in_flight s + image_mset Inr (mset (output_file s)) = image_mset transformed (mset (take (nat (n - reader_left s)) file))"
proof -
  let ?k = "nat (n - reader_left s)"
  have "mset file = mset (take ?k file) + mset (drop ?k file)" by (metis append_take_drop_id mset_append)
  then have f: "image_mset transformed (mset file)
      = image_mset transformed (mset (take ?k file)) + image_mset transformed (mset (input_file s))"
    using pinvD(2) [OF assms] by (simp add: reader_ok_def)
  note i = pinvD(4) [OF assms, unfolded items_ok_def f balance_parts]
  from i show "in_flight s + image_mset Inr (mset (output_file s)) \<subseteq># image_mset transformed (mset (take ?k file))"
    by (simp add: add.assoc add.commute [of _ "image_mset transformed (mset (input_file s))"])
  from i show "\<not> ofs_fails s \<Longrightarrow>
     in_flight s + image_mset Inr (mset (output_file s)) = image_mset transformed (mset (take ?k file))"
    by (simp add: add.assoc add.commute [of _ "image_mset transformed (mset (input_file s))"])
qed

lemma mset_take_mono:
  assumes "k \<le> l"
  shows "mset (take k xs) \<subseteq># mset (take l xs)"
proof -
  have "mset (take l xs) = mset (take k (take l xs)) + mset (drop k (take l xs))"
    by (metis append_take_drop_id mset_append)
  then show ?thesis using assms by (simp add: min_def)
qed

lemma output_part:
  assumes "pinv n file opens s"
  shows "mset (map Inr (output_file s)) \<subseteq># mset (map transformed (take (nat n) file))"
proof -
  have "mset (map Inr (output_file s)) \<subseteq># in_flight s + image_mset Inr (mset (output_file s))" by simp
  also have "\<dots> \<subseteq># image_mset transformed (mset (take (nat (n - reader_left s)) file))" by (rule read_part(1) [OF assms])
  also have "\<dots> \<subseteq># image_mset transformed (mset (take (nat n) file))"
    using pinvD(2) [OF assms] by (intro image_mset_subseteq_mono mset_take_mono nat_mono) (simp add: reader_ok_def)
  finally show ?thesis by simp
qed

text \<open>
  C9: nothing is lost, invented or written twice. After any schedule the lines written are, as a multiset, among the
  transformed first \<open>n\<close> items; and when the writer is done, its stream being in order, they are exactly these,
  whatever the thresholds of the controller. The order is that of the threads.
\<close>

theorem pipeline_output:
  assumes "0 \<le> n" "n \<le> int (length file)" "pipeline_run ws (pipeline_new low high n file opens) = Some (Inr s)"
  shows "mset (map Inr (output_file s)) \<subseteq># mset (map transformed (take (nat n) file))
     \<and> (opens \<and> writer s = WriterDone \<and> \<not> ofs_fails s
        \<longrightarrow> mset (map Inr (output_file s)) = mset (map transformed (take (nat n) file)))"
proof -
  have i: "pinv n file opens s" by (rule run_pinv [OF assms(3) pinv_new [OF assms(1)]])
  have "mset (map Inr (output_file s)) = mset (map transformed (take (nat n) file))"
    if "opens" "writer s = WriterDone" "\<not> ofs_fails s"
  proof (rule ccontr)
    assume "mset (map Inr (output_file s)) \<noteq> mset (map transformed (take (nat n) file))"
    with output_part [OF i] have "mset (map Inr (output_file s)) \<subset># mset (map transformed (take (nat n) file))"
      by (simp add: subset_mset.less_le)
    then have "size (mset (map Inr (output_file s) :: Item res list)) < size (mset (map transformed (take (nat n) file)))"
      by (rule mset_subset_size)
    moreover have "int (length (output_file s)) = n" using pinvD(3) [OF i] that by (simp add: writer_ok_def)
    ultimately show False using assms(1,2) by simp
  qed
  with output_part [OF i] show ?thesis by blast
qed

subsection \<open>Small inputs\<close>

lemma worker_size:
  assumes "pinv n file opens s"
  shows "qsize (worker_queue s) \<le> n"
proof -
  note i = pinvD [OF assms] and q = queuesD [OF pinvD(1) [OF assms]]
  have "length (contents (worker_queue s)) \<le> size (in_flight s + image_mset Inr (mset (output_file s)))"
    by (simp add: in_flight_def half_def)
  also have "\<dots> \<le> size (image_mset transformed (mset (take (nat (n - reader_left s)) file)))"
    by (rule size_mset_mono [OF read_part(1) [OF assms]])
  also have "\<dots> \<le> nat (n - reader_left s)" by simp
  finally have "int (length (contents (worker_queue s))) \<le> n - reader_left s" using i(2) by (simp add: reader_ok_def le_nat_iff)
  then show ?thesis using i(2) length_contents [OF q(2)] by (simp add: reader_ok_def)
qed

definition unserved :: "int \<Rightarrow> Item list \<Rightarrow> pipeline \<Rightarrow> bool" where
  "unserved n file s \<longleftrightarrow> pinv n file True s \<and> cancelled s = [] \<and> contents (output_queue s) = [] \<and> output_file s = []
     \<and> n \<le> high_threshold s \<and> (\<forall>k. controller s = ControllerSized k \<longrightarrow> k \<le> n) \<and> consumers s = []
     \<and> (\<forall>c. controller s \<noteq> ControllerDelete c) \<and> (writer s = WriterDone \<longrightarrow> n = 0)"

lemma unserved_step:
  assumes "unserved n file s" "pipeline_step w s = Some (Inr s')"
  shows "unserved n file s'"
proof -
  from assms(1) have i: "pinv n file True s" "cancelled s = []" "contents (output_queue s) = []" "output_file s = []"
    "n \<le> high_threshold s" "\<And>k. controller s = ControllerSized k \<Longrightarrow> k \<le> n" "consumers s = []"
    "\<And>c. controller s \<noteq> ControllerDelete c" "writer s = WriterDone \<Longrightarrow> n = 0"
    by (simp_all add: unserved_def)
  note q = queuesD [OF pinvD(1) [OF i(1)]]
  have b: "queue_dequeue (output_queue s) = None" using dequeue_blocks [OF q(3)] i(3) by simp
  have w: "writer_lines s = n" "ofs_is_open s" "0 \<le> n" using pinvD(3) [OF i(1)] i(4) by (simp_all add: writer_ok_def)
  have "cancelled s' = [] \<and> output_queue s' = output_queue s \<and> output_file s' = [] \<and> high_threshold s' = high_threshold s
     \<and> (\<forall>k. controller s' = ControllerSized k \<longrightarrow> k \<le> n) \<and> consumers s' = [] \<and> (\<forall>c. controller s' \<noteq> ControllerDelete c)
     \<and> (writer s' = WriterDone \<longrightarrow> n = 0)"
  proof (cases w)
    case Reader
    with assms(2) show ?thesis using i
      by (auto simp: reader_step_def after_Some Inr_eq_bindR split: reader_place.splits if_splits list.splits)
  next
    case (Producer p)
    with assms(2) show ?thesis using i
      by (auto simp: producer_step_def after_Some Inr_eq_bindR bindR_eq_Inr split: producer_place.splits if_splits prod.splits)
  next
    case (Consumer c)
    with assms(2) show ?thesis using i(2) by (simp add: consumer_step_def)
  next
    case Controller
    with assms(2) show ?thesis using i worker_size [OF i(1)]
      by (cases "controller s") (auto simp: controller_step_def get_size_def dest!: i(6) split: if_splits)
  next
    case Writer
    with assms(2) show ?thesis using i b w by (auto simp: writer_step_def after_def split: writer_place.splits if_splits)
  next
    case Main
    with assms(2) show ?thesis using i by (auto simp: main_step_def split: main_place.splits if_splits)
  next
    case Host
    with assms(2) show ?thesis using i by auto
  qed
  then show ?thesis using i step_keeps [OF i(1) assms(2)] by (simp add: unserved_def)
qed

text \<open>
  C30: an input of at most 160 lines is never processed. The controller starts without a consumer and makes one only when
  the worker queue holds more than 160 items; with fewer lines it never does, so whatever the schedule no consumer
  exists, nothing is written, and if there is a line at all, the writer never ends and \<^verbatim>\<open>main\<close> waits for it forever.
\<close>

theorem small_input_unserved:
  assumes "0 \<le> n" "n \<le> 160" "pipeline_run ws (main_new n file True) = Some (Inr s)"
  shows "consumer_places s = [] \<and> output_file s = [] \<and> (0 < n \<longrightarrow> writer s \<noteq> WriterDone \<and> main s \<in> {JoinReader, JoinWriter})"
proof -
  have "unserved n file (main_new n file True)" using pinv_new [OF assms(1)] assms(2)
    by (simp add: unserved_def main_new_def) (simp add: pipeline_new_def ring_new)
  then have u: "unserved n file s" by (rule run_induct [OF assms(3)]) (rule unserved_step)
  then have "pinv n file True s" "writer s = WriterDone \<longrightarrow> n = 0" by (simp_all add: unserved_def)
  with main_waits(2) [of s] queuesD(8) [of s] u show ?thesis by (auto simp: unserved_def pinv_def)
qed

subsection \<open>Consumers\<close>

text \<open>The vector of the controller holds objects that exist; only the one it is deleting is cancelled.\<close>

definition consumers_ok :: "pipeline \<Rightarrow> bool" where
  "consumers_ok s \<longleftrightarrow> (\<forall>c\<in>set (consumers s). c < length (cancelled s)
       \<and> (if controller s = ControllerDelete c then cancelled s ! c = Some True
          else cancelled s ! c = Some False \<and> consumer_places s ! c \<noteq> ConsumerDone))
     \<and> distinct (consumers s) \<and> (cancelled s \<noteq> [] \<longrightarrow> consumers s \<noteq> [])
     \<and> (\<forall>c. controller s = ControllerDelete c \<longrightarrow> length (consumers s) > 1 \<and> c = last (consumers s))"

lemma worker_thread_frame:
  assumes "pipeline_step w s = Some (Inr s')" "w \<notin> {Controller, Main, Host}"
  shows "consumers s' = consumers s \<and> cancelled s' = cancelled s \<and> controller s' = controller s
     \<and> length (consumer_places s') = length (consumer_places s) \<and> main s' = main s \<and> ofs_fails s' = ofs_fails s
     \<and> (\<forall>c < length (cancelled s). cancelled s ! c \<noteq> Some True \<and> consumer_places s ! c \<noteq> ConsumerDone
          \<longrightarrow> consumer_places s' ! c \<noteq> ConsumerDone)"
proof (cases w)
  case Reader
  with assms(1) show ?thesis
    by (auto simp: reader_step_def after_Some Inr_eq_bindR split: reader_place.splits if_splits list.splits)
next
  case (Producer p)
  with assms(1) show ?thesis
    by (auto simp: producer_step_def after_Some Inr_eq_bindR bindR_eq_Inr split: producer_place.splits if_splits prod.splits)
next
  case (Consumer c)
  then obtain k where "consumer_step c s = Some (Inr s')" "consumer_places s ! c = k" using assms(1) by simp
  then show ?thesis
    by (cases k) (auto simp: consumer_step_def Let_def after_Some Inr_eq_bindR bindR_eq_Inr nth_list_update
        split: if_splits option.splits prod.splits)
next
  case Writer
  with assms(1) show ?thesis
    by (auto simp: writer_step_def after_Some Inr_eq_bindR split: writer_place.splits if_splits prod.splits)
qed (use assms(2) in simp_all)

lemma consumers_ok_controller:
  assumes "consumers_ok s" "controller_step s = Some (Inr s')" "length (consumer_places s) = length (cancelled s)"
  shows "consumers_ok s'"
proof -
  have c: "\<And>c. c \<in> set (consumers s) \<Longrightarrow> c < length (cancelled s)"
    "\<And>c. c \<in> set (consumers s) \<Longrightarrow> controller s \<noteq> ControllerDelete c \<Longrightarrow> cancelled s ! c = Some False \<and> consumer_places s ! c \<noteq> ConsumerDone"
    "distinct (consumers s)" "cancelled s \<noteq> [] \<Longrightarrow> consumers s \<noteq> []"
    "\<And>c. controller s = ControllerDelete c \<Longrightarrow> length (consumers s) > 1 \<and> c = last (consumers s)"
    using assms(1) by (auto simp: consumers_ok_def split: if_splits)
  have nf: "\<not> freed s" using assms(2) by (auto simp: controller_step_def split: if_splits)
  show ?thesis
  proof (cases "controller s")
    case ControllerSleep
    with assms(2) nf have "s' = s\<lparr>controller := ControllerSized (get_size (worker_queue s))\<rparr>" by (simp add: controller_step_def)
    with c ControllerSleep show ?thesis by (simp add: consumers_ok_def)
  next
    case (ControllerSized k)
    with assms(2) nf consider
        "s' = s\<lparr>cancelled := cancelled s @ [Some False], consumer_places := consumer_places s @ [ConsumerTest],
           consumers := consumers s @ [length (cancelled s)], controller := ControllerSleep\<rparr>"
      | "length (consumers s) > 1"
        "s' = s\<lparr>cancelled := (cancelled s)[last (consumers s) := Some True], controller := ControllerDelete (last (consumers s))\<rparr>"
      | "s' = s\<lparr>controller := ControllerSleep\<rparr>"
      by (auto simp: controller_step_def Let_def split: if_splits)
    then show ?thesis
    proof cases
      case 1
      have "length (cancelled s) \<notin> set (consumers s)" using c(1) by blast
      with 1 c ControllerSized assms(3) show ?thesis by (auto simp: consumers_ok_def nth_append less_Suc_eq)
    next
      case 2
      then have "last (consumers s) \<in> set (consumers s)" by (intro last_in_set) auto
      with 2 c ControllerSized show ?thesis by (auto simp: consumers_ok_def nth_list_update)
    next
      case 3
      with c ControllerSized show ?thesis by (simp add: consumers_ok_def)
    qed
  next
    case (ControllerDelete d)
    with assms(2) nf have s': "s' = s\<lparr>consumers := butlast (consumers s), cancelled := (cancelled s)[d := None], controller := ControllerSleep\<rparr>"
      by (simp add: controller_step_def)
    have d: "consumers s = butlast (consumers s) @ [d]" using c(5) [OF ControllerDelete] by (cases "consumers s" rule: rev_cases) auto
    have "distinct (butlast (consumers s) @ [d])" using c(3) d by simp
    then have "d \<notin> set (butlast (consumers s))" "distinct (butlast (consumers s))" by simp_all
    moreover have "butlast (consumers s) \<noteq> []" using c(5) [OF ControllerDelete] by (cases "consumers s" rule: rev_cases) auto
    moreover have "x < length (cancelled s) \<and> (cancelled s)[d := None] ! x = Some False \<and> consumer_places s ! x \<noteq> ConsumerDone"
      if x: "x \<in> set (butlast (consumers s))" for x
    proof -
      have "x \<noteq> d" "x \<in> set (consumers s)" using x \<open>d \<notin> set (butlast (consumers s))\<close> by (auto dest: in_set_butlastD)
      with c(1,2) [of x] ControllerDelete show ?thesis by simp
    qed
    ultimately show ?thesis by (auto simp: s' consumers_ok_def)
  qed
qed

lemma consumers_ok_step:
  assumes "consumers_ok s" "pipeline_step w s = Some (Inr s')" "length (consumer_places s) = length (cancelled s)"
  shows "consumers_ok s'"
proof (cases "w = Controller")
  case True
  with assms consumers_ok_controller show ?thesis by simp
next
  case False
  have "consumers s' = consumers s \<and> cancelled s' = cancelled s \<and> controller s' = controller s
     \<and> (\<forall>c < length (cancelled s). cancelled s ! c \<noteq> Some True \<and> consumer_places s ! c \<noteq> ConsumerDone
          \<longrightarrow> consumer_places s' ! c \<noteq> ConsumerDone)"
  proof (cases "w \<in> {Main, Host}")
    case True
    with assms(2) show ?thesis by (auto simp: main_step_def split: main_place.splits if_splits)
  next
    case no: False
    with worker_thread_frame [OF assms(2)] False show ?thesis by auto
  qed
  with assms(1) show ?thesis by (auto simp: consumers_ok_def split: if_splits)
qed

definition good :: "int \<Rightarrow> Item list \<Rightarrow> bool \<Rightarrow> pipeline \<Rightarrow> bool" where
  "good n file opens s \<longleftrightarrow> pinv n file opens s \<and> consumers_ok s"

lemma good_new: "0 \<le> n \<Longrightarrow> good n file opens (pipeline_new low high n file opens)"
  by (simp add: good_def pinv_new) (simp add: consumers_ok_def pipeline_new_def)

lemma good_step: "good n file opens s \<Longrightarrow> pipeline_step w s = Some (Inr s') \<Longrightarrow> good n file opens s'"
  using step_keeps consumers_ok_step queuesD(8) pinvD(1) by (metis good_def)

lemma run_good: "pipeline_run ws s = Some (Inr s') \<Longrightarrow> good n file opens s \<Longrightarrow> good n file opens s'"
  by (erule run_induct) (auto intro: good_step)

text \<open>Once there was a consumer, there is one that is neither cancelled nor done.\<close>

lemma live_consumer:
  assumes "consumers_ok s" "cancelled s \<noteq> []"
  obtains c where "c < length (cancelled s)" "cancelled s ! c = Some False" "consumer_places s ! c \<noteq> ConsumerDone"
proof -
  have c: "consumers s \<noteq> []" "distinct (consumers s)" "\<And>c. controller s = ControllerDelete c \<Longrightarrow> length (consumers s) > 1 \<and> c = last (consumers s)"
    using assms by (auto simp: consumers_ok_def)
  have "controller s \<noteq> ControllerDelete (hd (consumers s))"
  proof
    assume "controller s = ControllerDelete (hd (consumers s))"
    from c(3) [OF this] c(1,2) show False by (cases "consumers s") auto
  qed
  moreover have "hd (consumers s) \<in> set (consumers s)" using c(1) by simp
  ultimately show ?thesis using assms(1) that [of "hd (consumers s)"] by (auto simp: consumers_ok_def)
qed

subsection \<open>Progress\<close>

definition workers :: "who set" where
  "workers = {Reader, Writer} \<union> range Producer \<union> range Consumer"

text \<open>With known operation codes no transformation fails.\<close>

lemma transform_valid: "valid_opcode (opcode i) \<Longrightarrow> \<exists>j. produced i = Inr j \<and> opcode j = opcode i"
  using specs_no_wrap by (fastforce simp: valid_opcode_specs(1) produced_def producer_transform_def transform_def)

lemma consumed_valid: "valid_opcode (opcode i) \<Longrightarrow> \<exists>j. consumed i = Inr j"
  using specs_no_wrap by (fastforce simp: valid_opcode_specs(2) consumed_def consumer_transform_def transform_def)

lemma transformed_valid: "valid_opcode (opcode i) \<Longrightarrow> \<exists>j. transformed i = Inr j"
  using transform_valid [of i] consumed_valid by (fastforce simp: transformed_def)

definition input_ok :: "int \<Rightarrow> Item list \<Rightarrow> bool" where
  "input_ok n file \<longleftrightarrow> 0 \<le> n \<and> n \<le> int (length file) \<and> (\<forall>i\<in>set (take (nat n) file). valid_opcode (opcode i))"

lemma in_flight_valid:
  assumes "pinv n file opens s" "input_ok n file" "r \<in># in_flight s"
  shows "\<exists>j. r = Inr j"
proof -
  have "r \<in># image_mset transformed (mset (take (nat (n - reader_left s)) file))"
    using mset_subset_eqD [OF read_part(1) [OF assms(1)], of r] assms(3) by simp
  then obtain i where "i \<in> set (take (nat (n - reader_left s)) file)" "r = transformed i" by auto
  moreover have "set (take (nat (n - reader_left s)) file) \<subseteq> set (take (nat n) file)"
    using pinvD(2) [OF assms(1)] by (intro set_take_subset_set_take nat_mono) (simp add: reader_ok_def)
  ultimately show ?thesis using assms(2) transformed_valid by (auto simp: input_ok_def)
qed

lemma transform_in_flight:
  assumes "pinv n file opens s" "input_ok n file"
  shows "i \<in> set (contents (input_queue s)) \<Longrightarrow> \<exists>j. produced i = Inr j"
    "i \<in># half s \<Longrightarrow> \<exists>j. consumed i = Inr j"
proof -
  show "\<exists>j. produced i = Inr j" if "i \<in> set (contents (input_queue s))"
  proof -
    have "transformed i \<in># in_flight s" using that by (simp add: in_flight_def)
    from in_flight_valid [OF assms this] show ?thesis by (auto simp: transformed_def bindR_eq_Inr)
  qed
  show "\<exists>j. consumed i = Inr j" if "i \<in># half s"
    using that by (intro in_flight_valid [OF assms]) (simp add: in_flight_def)
qed

lemma work_item_half: "c < length (consumer_places s) \<Longrightarrow> consumer_places s ! c = ConsumerWork i \<Longrightarrow> i \<in># half s"
  using nth_mem [of c "consumer_places s"] by (force simp: half_def)

lemma dequeue_after_Inr:
  assumes "ring_ok q" "contents q \<noteq> []"
  shows "\<exists>x k. queue_dequeue q = Some (Inr (x, k)) \<and> contents q = x # contents k"
proof -
  from dequeue_blocks [OF assms(1)] assms(2) obtain r where r: "queue_dequeue q = Some r" by auto
  from dequeue_ok [OF assms(1) r] r show ?thesis by auto
qed

lemma enqueue_after_Inr:
  assumes "ring_ok q" "int (length (contents q)) < buffer_size q"
  shows "\<exists>k. queue_enqueue x q = Some (Inr k)"
proof -
  have "queue_enqueue x q \<noteq> None" using enqueue_blocks [OF assms(1), of x] assms(2) by simp
  then obtain r where r: "queue_enqueue x q = Some r" by blast
  from enqueue_ok [OF assms(1) r] r show ?thesis by auto
qed

lemma reader_runs:
  assumes "pinv n file opens s" "input_ok n file" "contents (input_queue s) = []" "reader s \<noteq> ReaderDone"
  shows "\<exists>s'. reader_step s = Some (Inr s')"
proof (cases "reader s")
  case ReaderTest
  have "input_file s \<noteq> []" if "reader_lines s \<noteq> 0"
    using pinvD(2) [OF assms(1)] assms(2) ReaderTest that by (auto simp: reader_ok_def reader_left_def input_ok_def)
  then show ?thesis using ReaderTest by (auto simp: reader_step_def split: list.splits)
next
  case (ReaderPut i)
  note q = queuesD [OF pinvD(1) [OF assms(1)]]
  from enqueue_after_Inr [OF q(1), of i] q(4) assms(3) ReaderPut show ?thesis by (auto simp: reader_step_def after_def)
qed (use assms(4) in simp)

lemma consumer_runs:
  assumes "pinv n file opens s" "input_ok n file" "contents (output_queue s) = []" "\<not> freed s" "None \<notin> set (cancelled s)"
    and "c < length (cancelled s)" "consumer_places s ! c \<noteq> ConsumerDone"
    and "consumer_places s ! c = ConsumerGet \<Longrightarrow> contents (worker_queue s) \<noteq> []"
  shows "\<exists>s'. consumer_step c s = Some (Inr s')"
proof -
  note q = queuesD [OF pinvD(1) [OF assms(1)]]
  have c: "c < length (consumer_places s)" using assms(6) q(8) by simp
  from assms(5,6) have "cancelled s ! c \<noteq> None" by (metis nth_mem)
  then obtain b where b: "cancelled s ! c = Some b" by blast
  show ?thesis
  proof (cases "consumer_places s ! c")
    case ConsumerGet
    with assms(8) dequeue_after_Inr [OF q(2)] obtain x k where "queue_dequeue (worker_queue s) = Some (Inr (x, k))" by blast
    with ConsumerGet c assms(4,6) show ?thesis by (simp add: consumer_step_def after_def)
  next
    case (ConsumerWork i)
    with transform_in_flight(2) [OF assms(1,2) work_item_half [OF c]] obtain j where "consumed i = Inr j" by blast
    with ConsumerWork c b assms(4,6) show ?thesis by (simp add: consumer_step_def)
  next
    case (ConsumerPut i)
    from enqueue_after_Inr [OF q(3), of i] q(6) assms(3) obtain k where "queue_enqueue i (output_queue s) = Some (Inr k)" by auto
    with ConsumerPut c assms(4,6) show ?thesis by (simp add: consumer_step_def after_def)
  qed (use c b assms(6,7) in \<open>simp_all add: consumer_step_def\<close>)
qed

lemma producer_runs:
  assumes "pinv n file opens s" "input_ok n file" "contents (worker_queue s) = []" "\<not> freed s" "p < 4"
    and "producers s ! p = ProducerGet \<Longrightarrow> contents (input_queue s) \<noteq> []"
  shows "\<exists>s'. producer_step p s = Some (Inr s')"
proof -
  note q = queuesD [OF pinvD(1) [OF assms(1)]]
  show ?thesis
  proof (cases "producers s ! p")
    case ProducerGet
    with assms(6) dequeue_after_Inr [OF q(1)] obtain x k where
      k: "queue_dequeue (input_queue s) = Some (Inr (x, k))" "contents (input_queue s) = x # contents k" by blast
    with transform_in_flight(1) [OF assms(1,2), of x] obtain j where "produced x = Inr j" by auto
    with ProducerGet k(1) assms(4,5) q(7) show ?thesis by (simp add: producer_step_def after_def)
  next
    case (ProducerPut i)
    from enqueue_after_Inr [OF q(2), of i] q(5) assms(3) obtain k where "queue_enqueue i (worker_queue s) = Some (Inr k)" by auto
    with ProducerPut assms(4,5) q(7) show ?thesis by (simp add: producer_step_def after_def)
  qed
qed

lemma workers_run:
  assumes "good n file True s" "input_ok n file" "cancelled s \<noteq> []" "None \<notin> set (cancelled s)" "\<not> ofs_fails s" "writer s \<noteq> WriterDone"
  shows "\<exists>w\<in>workers. \<exists>s'. pipeline_step w s = Some (Inr s')"
proof (rule ccontr)
  assume none: "\<not> ?thesis"
  have n: "\<nexists>s'. reader_step s = Some (Inr s')" "\<nexists>s'. writer_step s = Some (Inr s')"
    "\<And>p. \<nexists>s'. producer_step p s = Some (Inr s')" "\<And>c. \<nexists>s'. consumer_step c s = Some (Inr s')"
    using none unfolding workers_def by (metis UnI1 UnI2 insertI1 insertI2 pipeline_step.simps rangeI)+
  have i: "pinv n file True s" "consumers_ok s" using assms(1) by (simp_all add: good_def)
  note q = queuesD [OF pinvD(1) [OF i(1)]]
  have f: "\<not> freed s" using main_waits(2) [OF pinvD(5) [OF i(1)] assms(6)] by simp
  have w: "writer s = WriterTest" "writer_lines s > 0" "queue_dequeue (output_queue s) = None"
    using n(2) assms(5,6) dequeue_ok [OF q(3)]
    by (auto simp: writer_step_def after_def split: writer_place.splits if_splits option.splits)
  have o: "contents (output_queue s) = []" using w(3) dequeue_blocks [OF q(3)] by simp
  note runs = consumer_runs [OF i(1) assms(2) o f assms(4)]
  from live_consumer [OF i(2) assms(3)] obtain c where c: "c < length (cancelled s)" "consumer_places s ! c \<noteq> ConsumerDone" by metis
  then have g: "consumer_places s ! c = ConsumerGet" "contents (worker_queue s) = []" using runs n(4) by blast+
  have p: "producers s ! p = ProducerGet \<and> contents (input_queue s) = []" if "p < 4" for p
    using producer_runs [OF i(1) assms(2) g(2) f that] n(3) by blast
  have r: "reader s = ReaderDone" using reader_runs [OF i(1) assms(2)] p [of 0] n(1) by auto
  have cs: "work_items (consumer_places s ! c) = []" "put_items (consumer_places s ! c) = []" if "c < length (cancelled s)" for c
    using runs [OF that] n(4) [of c] by (cases "consumer_places s ! c"; simp)+
  have "concat (map producer_items (producers s)) = []" using p q(7) by (auto simp: in_set_conv_nth)
  moreover have "concat (map work_items (consumer_places s)) = []" "concat (map put_items (consumer_places s)) = []"
    using cs q(8) by (auto simp: in_set_conv_nth)
  ultimately have "in_flight s = {#}" using r o g(2) p [of 0] by (simp add: in_flight_def half_def)
  then have "image_mset Inr (mset (output_file s)) = image_mset transformed (mset (take (nat n) file))"
    using read_part(2) [OF i(1) assms(5)] r by (simp add: reader_left_def)
  then have "length (output_file s) = length (take (nat n) file)" by (metis size_image_mset size_mset)
  also have "\<dots> = nat n" using assms(2) by (simp add: input_ok_def) arith
  finally show False using w(2) pinvD(3) [OF i(1)] assms(2) by (simp add: writer_ok_def input_ok_def)
qed

text \<open>How many steps the workers may still take, counted over the items and the places of the threads.\<close>

fun reader_weight :: "reader_place \<Rightarrow> nat" where
  "reader_weight ReaderTest = 1"
| "reader_weight (ReaderPut i) = 10"
| "reader_weight ReaderDone = 0"

fun producer_weight :: "producer_place \<Rightarrow> nat" where
  "producer_weight ProducerGet = 0"
| "producer_weight (ProducerPut i) = 7"

fun consumer_weight :: "consumer_place \<Rightarrow> nat" where
  "consumer_weight ConsumerTest = 2"
| "consumer_weight ConsumerCall = 1"
| "consumer_weight ConsumerGet = 0"
| "consumer_weight (ConsumerWork i) = 5"
| "consumer_weight (ConsumerPut i) = 4"
| "consumer_weight ConsumerDone = 0"

fun writer_weight :: "writer_place \<Rightarrow> nat" where
  "writer_weight WriterStart = 2"
| "writer_weight WriterTest = 1"
| "writer_weight WriterDone = 0"

definition work_left :: "pipeline \<Rightarrow> nat" where
  "work_left s = 10 * nat (reader_left s) + reader_weight (reader s) + 8 * length (contents (input_queue s))
     + sum_list (map producer_weight (producers s)) + 6 * length (contents (worker_queue s))
     + sum_list (map consumer_weight (consumer_places s)) + length (contents (output_queue s)) + writer_weight (writer s)"

lemma sum_list_set:
  fixes f :: "'a \<Rightarrow> nat"
  assumes "p < length xs"
  shows "sum_list (map f (xs[p := y])) + f (xs ! p) = sum_list (map f xs) + f y"
proof -
  have "xs = take p xs @ xs ! p # drop (Suc p) xs" using assms by (simp add: id_take_nth_drop)
  then have "sum_list (map f xs) = sum_list (map f (take p xs @ xs ! p # drop (Suc p) xs))" by simp
  then show ?thesis by (simp add: upd_conv_take_nth_drop assms)
qed

lemma reader_work:
  assumes "pinv n file opens s" "reader_step s = Some (Inr s')"
  shows "work_left s' < work_left s"
proof -
  note q = queuesD [OF pinvD(1) [OF assms(1)]] and r = pinvD(2) [OF assms(1)]
  show ?thesis
  proof (cases "reader s")
    case ReaderTest
    show ?thesis
    proof (cases "reader_lines s = 0")
      case True
      with ReaderTest assms(2) have "s' = s\<lparr>reader_lines := - 1, reader := ReaderDone\<rparr>" by (simp add: reader_step_def)
      with ReaderTest True show ?thesis by (simp add: work_left_def reader_left_def)
    next
      case False
      with ReaderTest assms(2) obtain x xs where
        s': "s' = s\<lparr>reader_lines := reader_lines s - 1, input_file := xs, reader := ReaderPut x\<rparr>"
        by (auto simp: reader_step_def split: list.splits)
      have "0 < reader_lines s" using r ReaderTest False by (simp add: reader_ok_def reader_left_def)
      then have "nat (reader_lines s) = Suc (nat (reader_lines s - 1))" by simp
      with ReaderTest show ?thesis by (simp add: work_left_def reader_left_def s')
    qed
  next
    case (ReaderPut x)
    with assms(2) obtain k where "ring_ok k" "contents k = contents (input_queue s) @ [x]"
      "buffer_size k = buffer_size (input_queue s)" and s': "s' = s\<lparr>input_queue := k, reader := ReaderTest\<rparr>"
      using q(1) by (auto simp: reader_step_def elim!: enqueue_after)
    with ReaderPut show ?thesis by (simp add: work_left_def reader_left_def)
  qed (use assms(2) in \<open>simp add: reader_step_def\<close>)
qed

lemma producer_work:
  assumes "pinv n file opens s" "producer_step p s = Some (Inr s')"
  shows "work_left s' < work_left s"
proof -
  note q = queuesD [OF pinvD(1) [OF assms(1)]]
  have p: "p < length (producers s)" "\<not> freed s" using assms(2) by (auto simp: producer_step_def split: if_splits)
  show ?thesis
  proof (cases "producers s ! p")
    case ProducerGet
    with assms(2) p obtain x y k where k: "contents (input_queue s) = x # contents k" 
      and s': "s' = s\<lparr>input_queue := k, producers := (producers s)[p := ProducerPut y]\<rparr>"
      using q(1) by (auto simp: producer_step_def Inr_eq_bindR elim!: dequeue_after)
    with sum_list_set [OF p(1), of producer_weight "ProducerPut y"] ProducerGet show ?thesis
      by (simp add: work_left_def reader_left_def)
  next
    case (ProducerPut x)
    with assms(2) p obtain k where k: "contents k = contents (worker_queue s) @ [x]"
      and s': "s' = s\<lparr>worker_queue := k, producers := (producers s)[p := ProducerGet]\<rparr>"
      using q(2) by (auto simp: producer_step_def elim!: enqueue_after)
    with sum_list_set [OF p(1), of producer_weight ProducerGet] ProducerPut show ?thesis
      by (simp add: work_left_def reader_left_def)
  qed
qed

lemma consumer_work:
  assumes "pinv n file opens s" "consumer_step c s = Some (Inr s')"
  shows "work_left s' < work_left s"
proof -
  note q = queuesD [OF pinvD(1) [OF assms(1)]]
  have c: "c < length (consumer_places s)" using assms(2) by (auto simp: consumer_step_def split: if_splits)
  have "\<exists>p. consumer_places s' = (consumer_places s)[c := p] \<and> pframe s s' \<and> input_queue s' = input_queue s \<and> producers s' = producers s
     \<and> consumer_weight p + 6 * length (contents (worker_queue s')) + length (contents (output_queue s'))
       < consumer_weight (consumer_places s ! c) + 6 * length (contents (worker_queue s)) + length (contents (output_queue s))"
  proof (cases "consumer_places s ! c")
    case ConsumerGet
    with assms(2) c q(8) obtain x k where "contents (worker_queue s) = x # contents k" and
      s': "s' = s\<lparr>worker_queue := k, consumer_places := (consumer_places s)[c := ConsumerWork x]\<rparr>"
      using q(2) by (auto simp: consumer_step_def split: if_splits elim!: dequeue_after)
    with ConsumerGet show ?thesis by (intro exI [of _ "ConsumerWork x"]) (simp add: pframe_def)
  next
    case (ConsumerPut x)
    with assms(2) c q(8) obtain k where "contents k = contents (output_queue s) @ [x]" and
      s': "s' = s\<lparr>output_queue := k, consumer_places := (consumer_places s)[c := ConsumerTest]\<rparr>"
      using q(3) by (auto simp: consumer_step_def split: if_splits elim!: enqueue_after)
    with ConsumerPut show ?thesis by (intro exI [of _ ConsumerTest]) (simp add: pframe_def)
  qed (use assms(2) c q(8) in \<open>auto simp: consumer_step_def Inr_eq_bindR bindR_eq_Inr pframe_def split: if_splits option.splits\<close>)
  then obtain p where p: "consumer_places s' = (consumer_places s)[c := p]" "pframe s s'" "input_queue s' = input_queue s"
    "producers s' = producers s"
    "consumer_weight p + 6 * length (contents (worker_queue s')) + length (contents (output_queue s'))
       < consumer_weight (consumer_places s ! c) + 6 * length (contents (worker_queue s)) + length (contents (output_queue s))"
    by blast
  have "reader s' = reader s" "reader_left s' = reader_left s" "writer s' = writer s" using p(2) by (simp_all add: pframe_def reader_left_def)
  with p(1,3-5) sum_list_set [OF c, of consumer_weight p] show ?thesis unfolding work_left_def by (simp only:)
qed

lemma writer_work:
  assumes "pinv n file opens s" "writer_step s = Some (Inr s')"
  shows "work_left s' < work_left s"
proof -
  note q = queuesD [OF pinvD(1) [OF assms(1)]]
  show ?thesis
  proof (cases "writer s = WriterTest \<and> writer_lines s > 0")
    case True
    with assms(2) obtain x k where k: "contents (output_queue s) = x # contents k" and
      s': "s' = (if ofs_fails s then s\<lparr>output_queue := k, writer := WriterDone\<rparr>
        else s\<lparr>output_queue := k, output_file := output_file s @ [x], writer_lines := writer_lines s - 1\<rparr>)"
      using q(3) by (auto simp: writer_step_def split: if_splits elim!: dequeue_after)
    then show ?thesis by (auto simp: work_left_def reader_left_def)
  next
    case False
    with assms(2) have "s' = s\<lparr>writer := if writer s = WriterStart \<and> ofs_is_open s then WriterTest else WriterDone\<rparr>" "writer s \<noteq> WriterDone"
      by (auto simp: writer_step_def split: writer_place.splits if_splits)
    then show ?thesis by (cases "writer s") (simp_all add: work_left_def reader_left_def)
  qed
qed

lemma workers_work:
  assumes "pinv n file opens s" "pipeline_step w s = Some (Inr s')" "w \<in> workers"
  shows "work_left s' < work_left s"
  using assms(2,3) reader_work [OF assms(1)] producer_work [OF assms(1)] consumer_work [OF assms(1)] writer_work [OF assms(1)]
  by (auto simp: workers_def)

text \<open>The other threads add no work but what a new consumer may do of its own.\<close>

lemma others_work:
  assumes "pipeline_step w s = Some (Inr s')" "w \<notin> workers"
  shows "work_left s' + 5 * length (cancelled s) \<le> work_left s + 5 * length (cancelled s')"
proof (cases w)
  case Controller
  then show ?thesis using assms(1)
    by (auto simp: controller_step_def work_left_def reader_left_def Let_def split: if_splits controller_place.splits)
next
  case Main
  then show ?thesis using assms(1)
    by (auto simp: main_step_def work_left_def reader_left_def split: if_splits main_place.splits)
qed (use assms in \<open>auto simp: workers_def work_left_def reader_left_def\<close>)

lemma workers_bounded:
  assumes "pipeline_run ws s = Some (Inr s')" "pinv n file opens s"
  shows "length (filter (\<lambda>w. w \<in> workers) ws) + work_left s' + 5 * length (cancelled s) \<le> work_left s + 5 * length (cancelled s')"
  using assms
proof (induction ws arbitrary: s)
  case (Cons w ws)
  then obtain s1 where s1: "pipeline_step w s = Some (Inr s1)" "pipeline_run ws s1 = Some (Inr s')"
    by (auto split: if_splits option.splits sum.splits)
  note IH = Cons.IH [OF s1(2) step_keeps [OF Cons.prems(2) s1(1)]]
  show ?case
  proof (cases "w \<in> workers")
    case True
    have "cancelled s1 = cancelled s" using worker_thread_frame [OF s1(1)] True by (auto simp: workers_def)
    then show ?thesis using IH workers_work [OF Cons.prems(2) s1(1) True] True by simp
  next
    case False
    then show ?thesis using IH others_work [OF s1(1) False] by simp
  qed
qed simp

lemma run_append: "pipeline_run ws s = Some (Inr s') \<Longrightarrow> pipeline_run (ws @ ws') s = pipeline_run ws' s'"
  by (induction ws arbitrary: s) (auto split: if_splits option.splits sum.splits)

text \<open>
  C29: the threads that do the work, which are the reader, the producers, the consumers and the writer, take a bounded number of steps in every
  run of the program, whatever the controller does in between: ten for every line, five for every
  consumer that was created, and three. And they do not get stuck: as long as the writer is not done, one of them can take
  a step that does not fail, provided that the controller has created a consumer and deleted none, the output
  stream works, and the lines have known operation codes. (A deleted consumer may still be running, and with no consumer the items stay in
  the queue.) So under these conditions the output is complete after at most that many steps of theirs.
\<close>

theorem pipeline_completes:
  assumes "input_ok n file" "pipeline_run ws (pipeline_new low high n file True) = Some (Inr t)"
  shows "length (filter (\<lambda>w. w \<in> workers) ws) \<le> 10 * nat n + 5 * length (cancelled t) + 3
     \<and> (cancelled t \<noteq> [] \<and> None \<notin> set (cancelled t) \<and> \<not> ofs_fails t \<and> writer t \<noteq> WriterDone \<longrightarrow>
          (\<exists>w\<in>workers. \<exists>t'. pipeline_step w t = Some (Inr t')))"
proof -
  have "0 \<le> n" using assms(1) by (simp add: input_ok_def)
  then have new: "good n file True (pipeline_new low high n file True)" by (rule good_new)
  have t: "good n file True t" by (rule run_good [OF assms(2) new])
  have "work_left (pipeline_new low high n file True) = 10 * nat n + 3"
    by (simp add: work_left_def pipeline_new_def reader_left_def TSQueue_new_def contents_def)
  moreover have "pinv n file True (pipeline_new low high n file True)" using new by (simp add: good_def)
  from workers_bounded [OF assms(2) this] have "length (filter (\<lambda>w. w \<in> workers) ws)
      \<le> work_left (pipeline_new low high n file True) + 5 * length (cancelled t)" by (simp add: pipeline_new_def)
  ultimately show ?thesis using workers_run [OF t assms(1)] by simp
qed

subsection \<open>Deleting a consumer\<close>

definition dangling :: "nat \<Rightarrow> pipeline \<Rightarrow> bool" where
  "dangling c s \<longleftrightarrow> c < length (cancelled s) \<and> length (consumer_places s) = length (cancelled s)
     \<and> cancelled s ! c = None \<and> consumer_places s ! c \<noteq> ConsumerDone"

definition in_queue :: "nat \<Rightarrow> pipeline \<Rightarrow> nat" where
  "in_queue c s = (case consumer_places s ! c of ConsumerGet \<Rightarrow> 1 | ConsumerPut i \<Rightarrow> 1 | _ \<Rightarrow> 0)"

lemma dangling_step:
  assumes "dangling c s" "pipeline_step w s = Some (Inr s')"
  shows "dangling c s' \<and> (if w = Consumer c then 1 else 0) + in_queue c s' \<le> in_queue c s"
proof -
  have d: "c < length (cancelled s)" "length (consumer_places s) = length (cancelled s)" "cancelled s ! c = None"
    "consumer_places s ! c \<noteq> ConsumerDone" using assms(1) by (simp_all add: dangling_def)
  show ?thesis
  proof (cases w)
    case (Consumer k)
    show ?thesis
    proof (cases "k = c")
      case True
      with assms(2) Consumer d show ?thesis
        by (cases "consumer_places s ! c")
          (auto simp: consumer_step_def dangling_def in_queue_def after_Some Inr_eq_bindR split: if_splits)
    next
      case False
      from assms(2) Consumer have k: "consumer_step k s = Some (Inr s')" by simp
      have "cancelled s' = cancelled s \<and> length (consumer_places s') = length (consumer_places s) \<and> consumer_places s' ! c = consumer_places s ! c"
        using k False by (cases "consumer_places s ! k")
          (auto simp: consumer_step_def after_Some Inr_eq_bindR bindR_eq_Inr split: if_splits option.splits)
      with d Consumer False show ?thesis by (simp add: dangling_def in_queue_def)
    qed
  next
    case Controller
    with assms(2) have k: "controller_step s = Some (Inr s')" by simp
    have "(cancelled s)[i := None] ! c = None" for i using d(3) by (cases "i = c") (simp_all add: d(1))
    with k have "c < length (cancelled s') \<and> length (consumer_places s') = length (cancelled s') \<and> cancelled s' ! c = None
       \<and> consumer_places s' ! c = consumer_places s ! c"
      using d by (auto simp: controller_step_def Let_def nth_append nth_list_update split: controller_place.splits if_splits)
    with d Controller show ?thesis by (simp add: dangling_def in_queue_def)
  next
    case Reader
    with assms(2) have "reader_step s = Some (Inr s')" by simp
    then have "cancelled s' = cancelled s \<and> consumer_places s' = consumer_places s"
      by (auto simp: reader_step_def after_Some Inr_eq_bindR split: reader_place.splits if_splits list.splits)
    with d Reader show ?thesis by (simp add: dangling_def in_queue_def)
  next
    case (Producer p)
    with assms(2) have "producer_step p s = Some (Inr s')" by simp
    then have "cancelled s' = cancelled s \<and> consumer_places s' = consumer_places s"
      by (auto simp: producer_step_def after_Some Inr_eq_bindR bindR_eq_Inr split: producer_place.splits if_splits prod.splits)
    with d Producer show ?thesis by (simp add: dangling_def in_queue_def)
  next
    case Writer
    with assms(2) have "writer_step s = Some (Inr s')" by simp
    then have "cancelled s' = cancelled s \<and> consumer_places s' = consumer_places s"
      by (auto simp: writer_step_def after_Some Inr_eq_bindR split: writer_place.splits if_splits prod.splits)
    with d Writer show ?thesis by (simp add: dangling_def in_queue_def)
  next
    case Main
    with assms(2) have "main_step s = Some (Inr s')" by simp
    then have "cancelled s' = cancelled s \<and> consumer_places s' = consumer_places s"
      by (auto simp: main_step_def split: main_place.splits if_splits)
    with d Main show ?thesis by (simp add: dangling_def in_queue_def)
  next
    case Host
    with assms(2) d show ?thesis by (auto simp: dangling_def in_queue_def)
  qed
qed

lemma dangling_run:
  "pipeline_run ws s = Some (Inr t) \<Longrightarrow> dangling c s \<Longrightarrow> dangling c t \<and> count_list ws (Consumer c) + in_queue c t \<le> in_queue c s"
proof (induction ws arbitrary: s)
  case (Cons w ws)
  then obtain s1 where s1: "pipeline_step w s = Some (Inr s1)" "pipeline_run ws s1 = Some (Inr t)"
    by (auto split: if_splits option.splits sum.splits)
  from dangling_step [OF Cons.prems(2) s1(1)] Cons.IH [OF s1(2)] show ?case by (auto split: if_splits)
qed simp

text \<open>
  C31: deleting a consumer leaves its thread with a dangling pointer. \<^verbatim>\<open>pthread_cancel\<close> does not stop the thread; unless it
  found \<^verbatim>\<open>is_cancel\<close> set in the short time between \<^verbatim>\<open>cancel()\<close> and \<^verbatim>\<open>delete\<close>, it never ends: it takes
  at most the one step it may be blocked in, and its next one reads the deleted object.
\<close>

theorem deleted_consumer_dangles:
  assumes "0 \<le> n" "pipeline_run ws (pipeline_new low high n file opens) = Some (Inr s)"
    and "controller s = ControllerDelete c" "consumer_places s ! c \<noteq> ConsumerDone"
    and "pipeline_step Controller s = Some (Inr s')" "pipeline_run ws' s' = Some (Inr t)"
  shows "consumer_places t ! c \<noteq> ConsumerDone \<and> count_list ws' (Consumer c) \<le> 1
     \<and> (consumer_places t ! c \<in> {ConsumerTest, ConsumerCall} \<or> (\<exists>i. consumer_places t ! c = ConsumerWork i)
        \<longrightarrow> pipeline_step (Consumer c) t = Some (Inl UseAfterFree))"
proof -
  from run_good [OF assms(2) good_new [OF assms(1)]] have s: "good n file opens s" .
  then have l: "length (consumer_places s) = length (cancelled s)" using queuesD(8) pinvD(1) by (auto simp: good_def)
  have "consumers s \<noteq> []" "c = last (consumers s)" using s assms(3) by (auto simp: good_def consumers_ok_def)
  then have "c \<in> set (consumers s)" by simp
  then have "c < length (cancelled s)" using s by (simp add: good_def consumers_ok_def)
  then have "dangling c s'" using assms(3-5) l by (auto simp: dangling_def controller_step_def split: if_splits)
  from dangling_run [OF assms(6) this] have d: "dangling c t" "count_list ws' (Consumer c) \<le> in_queue c s'" by simp_all
  have "in_queue c s' \<le> 1" by (simp add: in_queue_def split: consumer_place.splits)
  with d(2) have "count_list ws' (Consumer c) \<le> 1" by linarith
  moreover have "pipeline_step (Consumer c) t = Some (Inl UseAfterFree)"
    if "consumer_places t ! c \<in> {ConsumerTest, ConsumerCall} \<or> (\<exists>i. consumer_places t ! c = ConsumerWork i)"
    using that d(1) by (auto simp: consumer_step_def dangling_def)
  ultimately show ?thesis using d(1) by (auto simp: dangling_def)
qed

subsection \<open>Sample runs\<close>

definition sample_item :: Item where
  "sample_item = \<lparr>key = 1, val = 7, opcode = CHR ''A''\<rparr>"

text \<open>With thresholds 1 and 0 the first item makes the controller create a consumer.\<close>

definition hire :: "who list" where
  "hire = [Reader, Reader, Producer 0, Producer 0, Controller, Controller]"

definition serve :: "who list" where
  "serve = [Consumer 0, Consumer 0, Consumer 0, Consumer 0, Consumer 0, Writer, Writer, Reader, Writer]"

definition fire :: "who list" where
  "fire = [Controller, Controller, Consumer 0, Consumer 0, Consumer 0, Controller, Controller]"

lemmas run_simps = pipeline_new_def reader_step_def producer_step_def consumer_step_def controller_step_def writer_step_def
  queue_enqueue_def queue_dequeue_def after_def must_wait_def put_item_def take_item_def modR_def TSQueue_new_def get_size_def
  smod_nonneg hire_def serve_def fire_def

lemma sample_produced: "\<exists>p c. produced sample_item = Inr p \<and> consumed p = Inr c"
  using transform_valid [of sample_item] consumed_valid by (fastforce simp: sample_item_def valid_opcode_def)

lemma sample_served:
  assumes "produced sample_item = Inr p" "consumed p = Inr c"
  shows "\<exists>s. pipeline_run (hire @ serve) (pipeline_new 1 0 1 [sample_item] True) = Some (Inr s)
     \<and> writer s = WriterDone \<and> \<not> ofs_fails s \<and> output_file s = [c]"
  using assms by (simp add: run_simps)

lemma sample_serving:
  assumes "produced sample_item = Inr p"
  shows "\<exists>s. pipeline_run (hire @ take 3 serve) (pipeline_new 1 0 1 [sample_item] True) = Some (Inr s)
     \<and> cancelled s = [Some False] \<and> \<not> ofs_fails s \<and> writer s \<noteq> WriterDone"
  using assms by (simp add: run_simps)

lemma sample_fired:
  assumes "produced sample_item = Inr p"
  shows "\<exists>s s'. pipeline_run (hire @ fire) (pipeline_new 1 0 1 [sample_item] True) = Some (Inr s) \<and> controller s = ControllerDelete 1
     \<and> consumer_places s ! 1 = ConsumerTest \<and> pipeline_step Controller s = Some (Inr s') \<and> consumer_places s' ! 1 = ConsumerTest"
  using assms by (simp add: run_simps del: not_None_eq)

lemma pipeline_output_witness:
  "\<exists>s. pipeline_run (hire @ serve) (pipeline_new 1 0 1 [sample_item] True) = Some (Inr s)
     \<and> mset (map Inr (output_file s)) = mset (map transformed [sample_item]) \<and> length (output_file s) = 1"
proof -
  obtain p c where "produced sample_item = Inr p" "consumed p = Inr c" using sample_produced by blast
  from sample_served [OF this] obtain s where s:
    "pipeline_run (hire @ serve) (pipeline_new 1 0 1 [sample_item] True) = Some (Inr s)"
    "writer s = WriterDone" "\<not> ofs_fails s" "output_file s = [c]" by blast
  have "mset (map Inr (output_file s)) = mset (map transformed [sample_item])"
    using pipeline_output [OF _ _ s(1)] s(2,3) by simp
  then show ?thesis using s(1,4) by (intro exI [of _ s] conjI) simp_all
qed

lemma small_input_unserved_witness:
  "\<exists>s. pipeline_run [Reader, Reader, Writer, Controller, Controller] (main_new 1 [sample_item] True) = Some (Inr s)
     \<and> consumer_places s = [] \<and> output_file s = [] \<and> writer s \<noteq> WriterDone"
proof -
  have "\<exists>s. pipeline_run [Reader, Reader, Writer, Controller, Controller] (main_new 1 [sample_item] True) = Some (Inr s)"
    by (simp add: run_simps main_new_def)
  then obtain s where s: "pipeline_run [Reader, Reader, Writer, Controller, Controller] (main_new 1 [sample_item] True) = Some (Inr s)"
    by blast
  show ?thesis by (rule exI [of _ s]) (use s small_input_unserved [OF _ _ s] in simp)
qed

lemma pipeline_completes_witness:
  "\<exists>s t. pipeline_run (hire @ take 3 serve) (pipeline_new 1 0 1 [sample_item] True) = Some (Inr s)
     \<and> length (filter (\<lambda>w. w \<in> workers) (hire @ take 3 serve)) \<le> 18 \<and> (\<exists>w\<in>workers. \<exists>t'. pipeline_step w s = Some (Inr t'))
     \<and> pipeline_run (hire @ serve) (pipeline_new 1 0 1 [sample_item] True) = Some (Inr t) \<and> writer t = WriterDone
     \<and> length (filter (\<lambda>w. w \<in> workers) (hire @ serve)) \<le> 10 + 5 * length (cancelled t) + 3"
proof -
  obtain p c where pc: "produced sample_item = Inr p" "consumed p = Inr c" using sample_produced by blast
  from sample_serving [OF pc(1)] obtain s where s:
    "pipeline_run (hire @ take 3 serve) (pipeline_new 1 0 1 [sample_item] True) = Some (Inr s)"
    "cancelled s = [Some False]" "\<not> ofs_fails s" "writer s \<noteq> WriterDone" by blast
  from sample_served [OF pc] obtain t where t:
    "pipeline_run (hire @ serve) (pipeline_new 1 0 1 [sample_item] True) = Some (Inr t)" "writer t = WriterDone" by blast
  have i: "input_ok 1 [sample_item]" by (simp add: input_ok_def sample_item_def valid_opcode_def)
  from pipeline_completes [OF i s(1)] pipeline_completes [OF i t(1)] s t show ?thesis
    by (intro exI [of _ s] exI [of _ t]) simp
qed

lemma deleted_consumer_dangles_witness:
  "\<exists>t. consumer_places t ! 1 \<noteq> ConsumerDone \<and> pipeline_step (Consumer 1) t = Some (Inl UseAfterFree)"
proof -
  obtain p where "produced sample_item = Inr p" using sample_produced by blast
  from sample_fired [OF this] obtain s s' where s:
    "pipeline_run (hire @ fire) (pipeline_new 1 0 1 [sample_item] True) = Some (Inr s)"
    "controller s = ControllerDelete 1" "consumer_places s ! 1 = ConsumerTest" "pipeline_step Controller s = Some (Inr s')"
    "consumer_places s' ! 1 = ConsumerTest" by blast
  have "pipeline_run [] s' = Some (Inr s')" by simp
  from deleted_consumer_dangles [OF _ s(1,2) _ s(4) this] s(3,5) show ?thesis by (intro exI [of _ s']) simp
qed

end
