(* ===== verification/Spec2Isabelle.thy ===== *)
theory Spec2Isabelle
  imports Bitmaps Lists Hashes Interrupts Bytes Disk FileHdr OpenFiles Directories FileSys FileSysLaws Machines MipsLaws
    Threads SchedulerLaws MonitorLaws FileSysKeeps SysCalls AddrSpaces Coff Processes HostFiles PipelineLaws
begin

text \<open>
  A verification library for the operating-systems assignments of this repository: four states of the
  instructional kernel Nachos with its simulated machine (\<^verbatim>\<open>src/NachOS-4.0_MP1\<close> to \<^verbatim>\<open>src/NachOS-4.0_MP4\<close>) and
  a producer and consumer program on POSIX threads (\<^verbatim>\<open>src/NTHU-OS-Pthreads\<close>). The C++ code is embedded
  shallowly: its classes are records, its enums datatypes, its routines functions of the same names, its
  threads step relations or step functions. Where the four states differ, the part is taken from the
  assignment it was written for: the file table from MP1, the multiprogramming loader from MP2, scheduling and the
  final address spaces from MP3, everything else from MP4.

  \<^bold>\<open>Common vocabulary.\<close> \<open>Prelude\<close> has the type \<open>fault\<close> of the ways in which the simulator can fail or
  stop (a failed \<^verbatim>\<open>ASSERT\<close>, a null or freed pointer, an index out of bounds, a signed overflow, a trapping
  division, \<^verbatim>\<open>Interrupt::Halt\<close>, a loop that does not return, an unassigned variable, a call of the host whose outcome its
  standard leaves open) and the result type
  \<open>res\<close> with \<open>bindR\<close>, \<open>assertR\<close>, \<open>inboundsR\<close> and the loop combinators. Every early return and every
  failure of the code is a branch of its model.

  \<^bold>\<open>Which theory models what.\<close>

  \<^item> \<open>Bitmaps\<close>: \<^verbatim>\<open>lib/bitmap.cc\<close> on 32-bit words. Locale \<open>allocator\<close>, interpreted as \<open>bm\<close>, is what the file
    system and the loader need of it.
  \<^item> \<open>Lists\<close>: \<^verbatim>\<open>lib/list.cc\<close> with its cells in a heap of addresses. Locales \<open>item_queue\<close>, \<open>fifo\<close> and
    \<open>ordered_queue\<close>; \<open>fifo\<close> is interpreted on \<open>List\<close> here, \<open>ordered_queue\<close> on the sorted list of pending interrupts.
  \<^item> \<open>Hashes\<close>: \<^verbatim>\<open>lib/hash.cc\<close>, the self-expanding hash table, over these lists.
  \<^item> \<open>Interrupts\<close>: \<^verbatim>\<open>machine/interrupt.cc\<close>, \<^verbatim>\<open>machine/stats.h\<close>. The state of the machine is the record
    \<open>machine\<close>; the devices behind \<^verbatim>\<open>CallBackObj\<close> are the functions of the record \<open>hooks\<close>, with locale
    \<open>handlers\<close> for what they may do, interpreted on the disk.
  \<^item> \<open>Disk\<close>: \<^verbatim>\<open>machine/disk.cc\<close> and \<^verbatim>\<open>filesys/synchdisk.cc\<close>, down to the file that simulates the disk. Locale
    \<open>block_store\<close>, interpreted on the synchronous disk and on the disk image that the file system works with:
    the property \<open>SynchDisk_array\<close> is why the file system may be modelled on a list of sectors.
  \<^item> \<open>Bytes\<close>: structures as bytes (locale \<open>byte_codec\<close>, for \<^verbatim>\<open>int\<close>s, machine words and directory entries).
  \<^item> \<open>FileHdr\<close>, \<open>OpenFiles\<close>, \<open>Directories\<close>, \<open>FileSys\<close>: \<^verbatim>\<open>filesys/filehdr.cc\<close> (headers chained for large
    files), \<^verbatim>\<open>openfile.cc\<close>, \<^verbatim>\<open>directory.cc\<close> with \<^verbatim>\<open>pbitmap.cc\<close>, \<^verbatim>\<open>filesys.cc\<close>. \<open>FileSysLaws\<close> relates
    them to a map from names to contents with a count of free sectors and free entries (\<open>fs_rep\<close>);
    \<open>FileSysKeeps\<close> has the invariant \<open>fs_ok\<close> that holds whatever the callers ask for.
  \<^item> \<open>Machines\<close>: \<^verbatim>\<open>machine/machine.cc\<close>, \<^verbatim>\<open>machine/translate.cc\<close>: registers, memory, page table and TLB.
    \<open>Mips\<close> is \<^verbatim>\<open>machine/mipssim.cc\<close>, all operation codes; \<open>MipsLaws\<close> has its laws, with the kernel behind the exceptions as locale
    \<open>exception_kernel\<close>.
  \<^item> \<open>SysCalls\<close>: \<^verbatim>\<open>userprog/exception.cc\<close> and \<^verbatim>\<open>userprog/ksyscall.h\<close>, the kernel that runs on \<open>FileSys\<close>;
    it interprets \<open>exception_kernel\<close>, so the laws of the processor hold for user programs on the real handler.
  \<^item> \<open>AddrSpaces\<close>: \<^verbatim>\<open>userprog/addrspace.cc\<close> and \<^verbatim>\<open>noff.h\<close> of MP3: loading a program into free frames.
  \<^item> \<open>Coff\<close>: \<^verbatim>\<open>coff2noff/coff2noff.c\<close> and \<^verbatim>\<open>coff.h\<close> of MP4, the converter of executables; what it writes is
    loaded by \<open>AddrSpaces\<close>.
  \<^item> \<open>Paging\<close>: \<^verbatim>\<open>userprog/addrspace.cc\<close> of MP2, which loads a program page by page into frames it shares with other
    programs; \<open>Processes\<close> runs any number of such programs on the machine and refines them to a specification
    with a private memory for each (\<open>private_step\<close>).
  \<^item> \<open>HostFiles\<close>: \<^verbatim>\<open>filesys/filesys.h\<close>, \<^verbatim>\<open>filesys/openfile.h\<close> (the stub file system with the table of open files),
    the file calls of \<^verbatim>\<open>lib/sysdep.cc\<close> and \<^verbatim>\<open>userprog/exception.cc\<close> of MP1, on files as POSIX describes them.
  \<^item> \<open>Threads\<close>: the thread control block of MP3 with its burst times, which are rounded doubles; \<open>Schedulers\<close> and
    \<open>SchedulerLaws\<close>: \<^verbatim>\<open>threads/scheduler.cc\<close>, \<^verbatim>\<open>alarm.cc\<close> and \<^verbatim>\<open>machine/timer.cc\<close> of MP3, the three-level
    ready queue with aging. \<^verbatim>\<open>Scheduler::Run\<close> is cut at \<^verbatim>\<open>SWITCH\<close>: one definition up to it in
    the old thread, one from it on in the thread that is resumed.
  \<^item> \<open>Synch\<close>: \<^verbatim>\<open>threads/synch.cc\<close> with threads and scheduler of MP4. \<open>Monitors\<close> lets any number of threads
    run these routines with preemptions and interrupts anywhere (\<open>kstep\<close>) and states the abstract machine of
    sequences (\<open>astep\<close>); \<open>MonitorLaws\<close> has the properties, for the handlers NachOS installs (locale
    \<open>interrupt_source\<close>).
  \<^item> \<open>TSQueues\<close>, \<open>SharedQueues\<close>: \<^verbatim>\<open>ts_queue.hpp\<close>, the ring buffer, and the threads that share it;
    \<open>Transformer\<close>: \<^verbatim>\<open>transformer.cpp\<close>; \<open>Pipelines\<close>: the thread functions of \<^verbatim>\<open>reader.hpp\<close>, \<^verbatim>\<open>producer.hpp\<close>,
    \<^verbatim>\<open>consumer.hpp\<close>, \<^verbatim>\<open>consumer_controller.hpp\<close>, \<^verbatim>\<open>writer.hpp\<close> and \<^verbatim>\<open>main.cpp\<close>, run by a schedule;
    \<open>PipelineLaws\<close>: its laws.

  \<^bold>\<open>What the lemmas show.\<close> Each theory first shows that its operations keep a well-formedness invariant and
  what they do to an abstract state: \<open>bm_free\<close> (a set), \<open>list_repr\<close> (a list), \<open>irq\<close> (the pending interrupts in
  order), \<open>file_bytes\<close> (the contents of a file), \<open>dir_map\<close> and \<open>fs_rep\<close> (maps from names), \<open>ready_queue\<close> (a
  priority queue), \<open>view\<close> (owners, sleepers and ready threads), \<open>contents\<close> (the items of a ring buffer). The
  properties rest on these. They are: refinement of the abstract file system, disk, ready queue, monitors, queue, private memories and file cursors;
  safety of the processor under any program and isolation of processes; what no system call can break; the round
  trips of headers and files; the exact conditions of errors; that no wakeup is lost and that the
  pipeline neither loses nor repeats an item. Some state defects of the code as it is: sectors of chained headers that are
  never freed, a \<^verbatim>\<open>DIV\<close> that traps the host, an iterator on a freed cell, a system call that is never served,
  read-only data written past the page table, a page table and an array of threads written behind their ends,
  a pipeline that never serves a small input, a consumer deleted
  under its running thread.

  \<^bold>\<open>Bounds and fuel.\<close> \<open>fire_due\<close> gets as many rounds as interrupts are pending, which the handlers
  do not exceed since they schedule in the future. \<open>fetch_chain\<close> gets one round more than the disk has sectors: a longer chain
  is a cycle (\<open>FetchFrom_follows_chain\<close>). \<open>Machine_Run\<close> is an endless loop and is modelled as its first \<open>n\<close>
  rounds for any \<open>n\<close>; the idle loop of a sleeping thread gets any number of rounds and ends in \<open>NoReturn\<close> when they are used up.
  \<open>queue_progress\<close> and \<open>pipeline_completes\<close> give explicit bounds on the number of steps. The number
  of tracks of the disk is a field, so that witnesses can use a small one. Sizes and
  offsets that the code computes in \<^verbatim>\<open>int\<close> are checked for overflow where it matters; user registers are 32-bit
  words and wrap around. The lists of steps of \<open>Processes\<close> and of calls of \<open>HostFiles\<close> are arbitrary.

  \<^bold>\<open>Assumptions.\<close> A little-endian host; \<^verbatim>\<open>new\<close> does not fail; a file name that reaches the end of the simulated memory
  is cut there; the ticks a system call takes are not counted, and the clock is an integer that does not overflow. Of a \<^verbatim>\<open>read\<close> or
  \<^verbatim>\<open>write\<close> of the host with a negative count the model says nothing (\<open>Unspecified\<close>). The monitors are stated for
  routines entered with interrupts off (\<open>view\<close>), so their calls of \<^verbatim>\<open>SetLevel\<close> change nothing in the runs covered;
  preemptions and interrupts are steps of their own between the routines' fragments. Doubles are rationals rounded to 53 bits, without
  overflow to infinity and without the extra bits of an x87 register. Of POSIX threads the model uses only what the standard promises about
  mutexes, condition variables and deferred cancellation; the program's one unsynchronised read, \<^verbatim>\<open>get_size\<close>, is
  taken to return the current size.

  \<^bold>\<open>Not modelled.\<close> The host's registers that \<^verbatim>\<open>switch.S\<close> saves; the host interface \<^verbatim>\<open>lib/sysdep.cc\<close>
  beyond its files (sockets, signals, random numbers; permissions and limits of the host's files); console, network and post office, which pass
  bytes to the host's devices and sockets; \<^verbatim>\<open>SynchList\<close>, a list
  under a lock; command line and start-up; output for debugging; the earlier copies of threads and
  scheduler in MP1 and MP2, and MP1's address space, the identity; the user programs and the headers of the cross
  compiler. In the pipeline, clocks and latencies, the parsing of lines by iostreams, and the order of the
  deletions at the end of \<^verbatim>\<open>main\<close>.
\<close>

end
